(* ===== verification/Prelude.thy ===== *)
theory Prelude
  imports "HOL-Library.Word" "HOL-Library.Monad_Syntax"
begin

text \<open>
  Shared vocabulary of the catchOS development: the machine integer types of the i386 target,
  C pointers that may be \<open>NULL\<close>, checked array accesses, the \<open>for\<close> loop of C in the option
  monad, and the lemmas on words, bits and lists that the component theories use.

  A function that may leave the objects it is allowed to touch (an index past the end of an
  array, a read through \<open>NULL\<close>) returns an \<open>option\<close>: \<open>None\<close> is that undefined access, so a
  theorem that a function returns \<open>Some\<close> says that every access of the run is in range.
\<close>

unbundle bit_operations_syntax

section \<open>Types\<close>

type_synonym u8 = "8 word"
type_synonym u16 = "16 word"
type_synonym u32 = "32 word"
type_synonym u64 = "64 word"
type_synonym bytes = "8 word list"

datatype 'a ptr = Null | Ptr 'a

section \<open>Collections\<close>

named_theorems word_nat \<open>facts that move word arithmetic to natural numbers\<close>
named_theorems bit_read \<open>what a bit of a word is after a bitwise update\<close>
named_theorems array_simps \<open>checked array accesses\<close>

section \<open>Checked array accesses\<close>

definition arr_get :: "'a list \<Rightarrow> nat \<Rightarrow> 'a option" where
  "arr_get xs i = (if i < length xs then Some (xs ! i) else None)"

definition arr_set :: "'a list \<Rightarrow> nat \<Rightarrow> 'a \<Rightarrow> 'a list option" where
  "arr_set xs i v = (if i < length xs then Some (xs[i := v]) else None)"

section \<open>The for loop of C\<close>

text \<open>
  \<open>forM [a..<b] body s\<close> is \<open>for (i = a; i < b; i++) body\<close> over the state \<open>s\<close>; a body that faults
  ends the loop.
\<close>

fun forM :: "'i list \<Rightarrow> ('i \<Rightarrow> 's \<Rightarrow> 's option) \<Rightarrow> 's \<Rightarrow> 's option" where
  "forM [] body s = Some s"
| "forM (i # is) body s = body i s \<bind> forM is body"

section \<open>Lemmas on checked arrays and loops\<close>

lemma arr_get_Some_iff [array_simps]:
  "arr_get xs i = Some v \<longleftrightarrow> i < length xs \<and> xs ! i = v"
  by (auto simp: arr_get_def)

lemma arr_set_Some_iff [array_simps]:
  "arr_set xs i v = Some ys \<longleftrightarrow> i < length xs \<and> ys = xs[i := v]"
  by (auto simp: arr_set_def)

lemma arr_get_in_range [simp]: "i < length xs \<Longrightarrow> arr_get xs i = Some (xs ! i)"
  by (simp add: arr_get_def)

lemma arr_set_in_range [simp]: "i < length xs \<Longrightarrow> arr_set xs i v = Some (xs[i := v])"
  by (simp add: arr_set_def)

lemma arr_get_out_of_range [simp]: "length xs \<le> i \<Longrightarrow> arr_get xs i = None"
  by (simp add: arr_get_def)

lemma arr_set_out_of_range [simp]: "length xs \<le> i \<Longrightarrow> arr_set xs i v = None"
  by (simp add: arr_set_def)

lemma forM_append [simp]: "forM (xs @ ys) body s = forM xs body s \<bind> forM ys body"
  by (induction xs arbitrary: s) (auto simp: Option.bind_eq_Some_conv split: Option.bind_splits)

text \<open>The invariant rule of the loop: total correctness, the body never faults.\<close>

lemma forM_invariant:
  assumes "I a s"
    and "\<And>i s. a \<le> i \<Longrightarrow> i < b \<Longrightarrow> I i s \<Longrightarrow> \<exists>s'. body i s = Some s' \<and> I (Suc i) s'"
    and "a \<le> b"
  shows "\<exists>s'. forM [a..<b] body s = Some s' \<and> I b s'"
  using assms(3,2,1)
proof (induction b rule: dec_induct)
  case base
  then show ?case by simp
next
  case (step n)
  then obtain s' where "forM [a..<n] body s = Some s'" and "I n s'"
    by (metis less_Suc_eq)
  moreover obtain s'' where "body n s' = Some s''" and "I (Suc n) s''"
    using step.prems step.hyps \<open>I n s'\<close> by (metis less_Suc_eq)
  ultimately show ?case
    using step.hyps by simp
qed

lemma forM_pure: "forM is (\<lambda>i s. Some (f i s)) s = Some (fold f is s)"
  by (induction "is" arbitrary: s) auto

section \<open>Lemmas on words\<close>

lemma unat_inc [word_nat]:
  fixes i e :: "'a::len word"
  shows "i < e \<Longrightarrow> unat (i + 1) = Suc (unat i)"
  by unat_arith

lemma unat_add_less [word_nat]:
  fixes a b :: "'a::len word"
  shows "unat a + unat b < 2 ^ LENGTH('a) \<Longrightarrow> unat (a + b) = unat a + unat b"
  by (simp add: unat_word_ariths)

lemma unat_mult_less [word_nat]:
  fixes a b :: "'a::len word"
  shows "unat a * unat b < 2 ^ LENGTH('a) \<Longrightarrow> unat (a * b) = unat a * unat b"
  by (simp add: unat_word_ariths)

lemma unat_less_32: "unat (x :: u32) < 4294967296"
  using unsigned_less [where w = x and ?'a = nat] by simp

lemma unat_less_8: "unat (x :: u8) < 256"
  using unsigned_less [where w = x and ?'a = nat] by simp

lemma unat_eq_iff [simp]: "unat x = unat y \<longleftrightarrow> x = y"
  by (simp add: word_unat_eq_iff)

lemma word_of_unat: "of_nat (unat (w :: 'a::len word)) = w"
  by simp

lemma unat_div_8 [word_nat]: "unat ((b :: u32) div 8) = unat b div 8"
  by (simp add: unat_div)

lemma unat_mod_8 [word_nat]: "unat ((b :: u32) mod 8) = unat b mod 8"
  by (simp add: unat_mod)

lemma unat_mod_8_less [simp]: "unat ((b :: u32) mod 8) < 8"
  by (simp add: unat_mod_8)

lemma unat_of_nat_small [word_nat]:
  "n < 2 ^ LENGTH('a) \<Longrightarrow> unat (of_nat n :: 'a::len word) = n"
  by (simp add: unat_of_nat)

lemma sint_of_nat_32 [word_nat]: "m < 2 ^ 31 \<Longrightarrow> sint (of_nat m :: u32) = int m"
  by (simp add: signed_of_nat signed_take_bit_int_eq_self)

lemma sint_unat_32 [word_nat]: "unat (w :: u32) < 2 ^ 31 \<Longrightarrow> sint w = int (unat w)"
  using sint_of_nat_32 [of "unat w"] by simp

lemma sint_unat_8 [word_nat]: "unat (w :: u8) < 2 ^ 7 \<Longrightarrow> sint w = int (unat w)"
proof -
  assume "unat w < 2 ^ 7"
  then have "sint (of_nat (unat w) :: u8) = int (unat w)"
    by (simp add: signed_of_nat signed_take_bit_int_eq_self del: word_of_unat of_nat_unat)
  then show ?thesis by simp
qed

lemma bit_or_single [bit_read]:
  fixes w :: "'a::len word"
  shows "n < LENGTH('a) \<Longrightarrow> bit (w OR 2 ^ n) m \<longleftrightarrow> bit w m \<or> m = n"
  by (auto simp: bit_or_iff bit_exp_iff)

lemma bit_and_not_single [bit_read]:
  fixes w :: "'a::len word"
  shows "n < LENGTH('a) \<Longrightarrow> bit (w AND NOT (2 ^ n)) m \<longleftrightarrow> bit w m \<and> m \<noteq> n"
  by (auto simp: bit_and_iff bit_not_iff bit_exp_iff dest: bit_imp_le_length)

lemma bit_xor_single [bit_read]:
  fixes w :: "'a::len word"
  shows "n < LENGTH('a) \<Longrightarrow> bit (w XOR 2 ^ n) m \<longleftrightarrow> bit w m \<noteq> (m = n)"
  by (auto simp: bit_xor_iff bit_exp_iff)

lemma drop_bit_and_1 [bit_read]:
  fixes w :: "'a::len word"
  shows "drop_bit n w AND 1 = of_bool (bit w n)"
  by (simp add: and_one_eq bit_iff_odd_drop_bit mod_2_eq_odd)

lemma bit_byte_high: "8 \<le> k \<Longrightarrow> \<not> bit (b :: u8) k"
  using bit_imp_le_length [of b k] by auto

lemma bit_combine_bytes:
  fixes b0 b1 b2 b3 :: u8
  assumes "n < 32"
  shows "bit (ucast b0 OR push_bit 8 (ucast b1) OR push_bit 16 (ucast b2) OR push_bit 24 (ucast b3) :: u32) n
     = bit ([b0, b1, b2, b3] ! (n div 8)) (n mod 8)"
proof -
  obtain q m where n: "n = 8 * q + m" and "m < 8"
    using div_mult_mod_eq [of n 8] by (metis mod_less_divisor mult.commute zero_less_numeral)
  then have "q = 0 \<or> q = 1 \<or> q = 2 \<or> q = 3"
    using assms by linarith
  moreover have "n div 8 = q" "n mod 8 = m"
    using n \<open>m < 8\<close> by simp_all
  ultimately show ?thesis
    using \<open>m < 8\<close> by (elim disjE) (simp_all only: n, simp_all add: bit_simps bit_byte_high)
qed

lemma byte_index_in_range [simp]: "(n::nat) < 8 * k \<Longrightarrow> n div 8 < k"
  by arith

lemma byte_position_unique: "n div 8 = m div 8 \<and> n mod 8 = m mod (8::nat) \<longleftrightarrow> n = m"
  by (metis div_mult_mod_eq)

end
