(* ===== verification/Bitmap.thy ===== *)
theory Bitmap
  imports Prelude
begin

text \<open>
  \<^verbatim>\<open>kernel/utils/bitmap.c\<close>: bit strings stored in byte arrays. A bit string is a pointer to an
  array of bytes, so the model is \<open>bytes ptr\<close>: \<open>Null\<close> is the \<open>NULL\<close> the code tests for. The
  result of an operation that writes is the new array, or \<open>None\<close> where the C code would write
  past the array it was given.

  The abstraction of a bit string is the set of its set bits (\<open>bits_of\<close>); every operation is
  related to the corresponding operation on sets, and the contract the page frame allocator
  relies on is the locale \<open>bit_store\<close>, interpreted on these operations.
\<close>

section \<open>Operations\<close>

definition bitmap_set_bit :: "bytes ptr \<Rightarrow> u32 \<Rightarrow> bytes ptr option" where
  "bitmap_set_bit bitstring bitno =
     (case bitstring of
        Null \<Rightarrow> Some Null
      | Ptr bs \<Rightarrow>
          let byte_no = unat (bitno div 8); carry_bit = unat (bitno mod 8) in
          do { b \<leftarrow> arr_get bs byte_no;
               bs' \<leftarrow> arr_set bs byte_no (b OR push_bit carry_bit 1);
               Some (Ptr bs') })"

definition bitmap_clear_bit :: "bytes ptr \<Rightarrow> u32 \<Rightarrow> bytes ptr option" where
  "bitmap_clear_bit bitstring bitno =
     (case bitstring of
        Null \<Rightarrow> Some Null
      | Ptr bs \<Rightarrow>
          let byte_no = unat (bitno div 8); carry_bit = unat (bitno mod 8) in
          do { b \<leftarrow> arr_get bs byte_no;
               bs' \<leftarrow> arr_set bs byte_no (b AND NOT (push_bit carry_bit 1));
               Some (Ptr bs') })"

definition bitmap_get_bit :: "bytes ptr \<Rightarrow> u32 \<Rightarrow> int option" where
  "bitmap_get_bit bitstring bitno =
     (case bitstring of
        Null \<Rightarrow> Some (- 1)
      | Ptr bs \<Rightarrow>
          let byte_no = unat (bitno div 8); carry_bit = unat (bitno mod 8) in
          do { b \<leftarrow> arr_get bs byte_no;
               Some (uint (drop_bit carry_bit b AND 1)) })"

definition bitmap_get_bit_reverse :: "bytes ptr \<Rightarrow> u32 \<Rightarrow> int option" where
  "bitmap_get_bit_reverse bitstring bitno =
     (case bitstring of
        Null \<Rightarrow> Some (- 1)
      | Ptr bs \<Rightarrow>
          let byte_no = unat (bitno div 8); carry_bit = unat (7 - bitno mod 8) in
          do { b \<leftarrow> arr_get bs byte_no;
               Some (uint (drop_bit carry_bit b AND 1)) })"

definition bitmap_toggle_bit :: "bytes ptr \<Rightarrow> u32 \<Rightarrow> bytes ptr option" where
  "bitmap_toggle_bit bitstring bitno =
     (case bitstring of
        Null \<Rightarrow> Some Null
      | Ptr bs \<Rightarrow>
          let byte_no = unat (bitno div 8); carry_bit = unat (bitno mod 8) in
          do { b \<leftarrow> arr_get bs byte_no;
               bs' \<leftarrow> arr_set bs byte_no (b XOR push_bit carry_bit 1);
               Some (Ptr bs') })"

text \<open>
  The loop of \<open>bitmap_set_bits\<close> compares the 32-bit counter with \<open>startbit + count\<close>, a 32-bit sum
  that wraps: a range that runs past \<open>2^32\<close> sets nothing.
\<close>

function bitmap_set_bits_loop :: "bytes ptr \<Rightarrow> u32 \<Rightarrow> u32 \<Rightarrow> bytes ptr option" where
  "bitmap_set_bits_loop bitstring i limit =
     (if i < limit
      then bitmap_set_bit bitstring i \<bind> (\<lambda>bs. bitmap_set_bits_loop bs (i + 1) limit)
      else Some bitstring)"
  by pat_completeness auto
termination
  by (relation "measure (\<lambda>(bs, i, limit). unat limit - unat i)")
     (auto simp: unat_inc word_less_nat_alt)

declare bitmap_set_bits_loop.simps [simp del]

definition bitmap_set_bits :: "bytes ptr \<Rightarrow> u32 \<Rightarrow> u32 \<Rightarrow> bytes ptr option" where
  "bitmap_set_bits bitstring startbit count =
     bitmap_set_bits_loop bitstring startbit (startbit + count)"

text \<open>
  \<open>bitmap_find_first_set\<close> reads the array as little-endian 32-bit words; \<open>ffs32\<close> is the compiler
  builtin \<open>__builtin_ffsl\<close> on the 32-bit \<open>long\<close> of the target: one plus the index of the least
  significant set bit, zero for zero.
\<close>

definition ffs32 :: "u32 \<Rightarrow> int" where
  "ffs32 w = (case filter (bit w) [0..<32] of [] \<Rightarrow> 0 | n # _ \<Rightarrow> int n + 1)"

definition load_u32 :: "bytes \<Rightarrow> nat \<Rightarrow> u32 option" where
  "load_u32 bs i =
     do { b0 \<leftarrow> arr_get bs i; b1 \<leftarrow> arr_get bs (i + 1);
          b2 \<leftarrow> arr_get bs (i + 2); b3 \<leftarrow> arr_get bs (i + 3);
          Some (ucast b0 OR push_bit 8 (ucast b1) OR push_bit 16 (ucast b2) OR push_bit 24 (ucast b3)) }"

text \<open>
  The loop counter is a natural number here: it never exceeds \<open>leftover\<close>, which is below \<open>2^32\<close>.
  The sum \<open>bitno += i * 8\<close> is computed in \<open>unsigned int\<close> and converted back to \<open>int\<close>.
\<close>

function bitmap_find_first_set_loop :: "bytes \<Rightarrow> nat \<Rightarrow> nat \<Rightarrow> int \<Rightarrow> int option" where
  "bitmap_find_first_set_loop bs i leftover bitno =
     (if i < leftover
      then do { tmp \<leftarrow> load_u32 bs i;
                let bitno = ffs32 tmp in
                if bitno > 0 then Some (sint (of_int bitno + of_nat i * 8 :: u32))
                else bitmap_find_first_set_loop bs (i + 4) leftover bitno }
      else Some bitno)"
  by pat_completeness auto
termination
  by (relation "measure (\<lambda>(bs, i, leftover, b). leftover - i)") auto

declare bitmap_find_first_set_loop.simps [simp del]

definition bitmap_find_first_set :: "bytes ptr \<Rightarrow> u32 \<Rightarrow> int option" where
  "bitmap_find_first_set bitstring maxbyte =
     (case bitstring of
        Null \<Rightarrow> Some (- 1)
      | Ptr bs \<Rightarrow>
          do { bitno \<leftarrow> bitmap_find_first_set_loop bs 0 (unat (maxbyte div 4 * 4)) 0;
               Some (bitno - 1) })"

section \<open>The abstraction: the set of set bits\<close>

definition bits_of :: "bytes \<Rightarrow> nat set" where
  "bits_of bs = {n. n < 8 * length bs \<and> bit (bs ! (n div 8)) (n mod 8)}"

fun bitmap_bits :: "bytes ptr \<Rightarrow> nat set" where
  "bitmap_bits Null = {}"
| "bitmap_bits (Ptr bs) = bits_of bs"

fun bitmap_cap :: "bytes ptr \<Rightarrow> nat" where
  "bitmap_cap Null = 0"
| "bitmap_cap (Ptr bs) = 8 * length bs"

lemma bits_of_iff: "n \<in> bits_of bs \<longleftrightarrow> n < 8 * length bs \<and> bit (bs ! (n div 8)) (n mod 8)"
  by (simp add: bits_of_def)

lemma bits_of_bounded: "n \<in> bits_of bs \<Longrightarrow> n < 8 * length bs"
  by (simp add: bits_of_iff)

lemma bits_of_update:
  assumes "k < length bs"
  shows "n \<in> bits_of (bs[k := w]) \<longleftrightarrow>
    n < 8 * length bs \<and> (if n div 8 = k then bit w (n mod 8) else n \<in> bits_of bs)"
  using assms by (auto simp: bits_of_iff nth_list_update)

text \<open>A byte array is determined by its length and its set bits.\<close>

lemma bits_of_inject:
  assumes "length xs = length ys" and "bits_of xs = bits_of ys"
  shows "xs = ys"
proof (rule nth_equalityI)
  show "length xs = length ys" by (rule assms)
  fix i assume i: "i < length xs"
  show "xs ! i = ys ! i"
  proof (rule bit_word_eqI)
    fix n assume "n < LENGTH(8)"
    then have "8 * i + n \<in> bits_of xs \<longleftrightarrow> 8 * i + n \<in> bits_of ys"
      using assms by simp
    with \<open>n < LENGTH(8)\<close> i assms(1) show "bit (xs ! i) n \<longleftrightarrow> bit (ys ! i) n"
      by (simp add: bits_of_iff)
  qed
qed

section \<open>The contract of a bit store\<close>

locale bit_store =
  fixes get :: "'s \<Rightarrow> u32 \<Rightarrow> int option"
    and set1 :: "'s \<Rightarrow> u32 \<Rightarrow> 's option"
    and clear1 :: "'s \<Rightarrow> u32 \<Rightarrow> 's option"
    and bits :: "'s \<Rightarrow> nat set"
    and cap :: "'s \<Rightarrow> nat"
  assumes get_in: "unat n < cap s \<Longrightarrow> get s n = Some (of_bool (unat n \<in> bits s))"
    and set_in: "unat n < cap s \<Longrightarrow>
      \<exists>s'. set1 s n = Some s' \<and> bits s' = insert (unat n) (bits s) \<and> cap s' = cap s"
    and clear_in: "unat n < cap s \<Longrightarrow>
      \<exists>s'. clear1 s n = Some s' \<and> bits s' = bits s - {unat n} \<and> cap s' = cap s"
    and bits_in: "k \<in> bits s \<Longrightarrow> k < cap s"
    and store_eqI: "cap s = cap t \<Longrightarrow> bits s = bits t \<Longrightarrow> 0 < cap s \<Longrightarrow> s = t"
begin

lemma set_get_other:
  assumes "unat n < cap s" and "unat m < cap s" and "set1 s n = Some s'"
  shows "get s' m = (if m = n then Some 1 else get s m)"
  using assms set_in [of n s] by (auto simp: get_in)

lemma clear_get_other:
  assumes "unat n < cap s" and "unat m < cap s" and "clear1 s n = Some s'"
  shows "get s' m = (if m = n then Some 0 else get s m)"
  using assms clear_in [of n s] by (auto simp: get_in)

lemma set_clear_roundtrip:
  assumes "unat n < cap s" and "unat n \<notin> bits s"
  shows "(set1 s n \<bind> (\<lambda>s'. clear1 s' n)) = Some s"
proof -
  obtain s' where s': "set1 s n = Some s'" "bits s' = insert (unat n) (bits s)" "cap s' = cap s"
    using set_in assms(1) by blast
  then obtain t where "clear1 s' n = Some t" "bits t = bits s' - {unat n}" "cap t = cap s'"
    using clear_in assms(1) by metis
  then have "t = s"
    using s' assms by (intro store_eqI) auto
  with s' \<open>clear1 s' n = Some t\<close> show ?thesis by simp
qed

end

section \<open>The operations meet the contract\<close>

lemma bitmap_get_bit_in [simp]:
  "unat n < 8 * length bs \<Longrightarrow> bitmap_get_bit (Ptr bs) n = Some (of_bool (unat n \<in> bits_of bs))"
  by (simp add: bitmap_get_bit_def Let_def bit_read word_nat bits_of_iff)

lemma bitmap_update_bits:
  assumes n: "n < 8 * length bs"
    and w: "\<And>m. m < 8 \<Longrightarrow> bit w m \<longleftrightarrow> P (bit (bs ! (n div 8)) m) (m = n mod 8)"
    and P: "\<And>b. P b False = b"
  shows "bits_of (bs[n div 8 := w]) =
     (if P (n \<in> bits_of bs) True then insert n (bits_of bs) else bits_of bs - {n})"
proof (rule set_eqI)
  fix k
  have k: "n div 8 < length bs"
    using n by simp
  have "k \<in> bits_of (bs[n div 8 := w]) \<longleftrightarrow>
      k < 8 * length bs \<and> (if k = n then P (k \<in> bits_of bs) True else k \<in> bits_of bs)"
    using n w [of "k mod 8"] P byte_position_unique [of k n]
    by (cases "k div 8 = n div 8"; cases "k = n") (simp_all add: bits_of_update [OF k] bits_of_iff)
  then show "k \<in> bits_of (bs[n div 8 := w]) \<longleftrightarrow>
     k \<in> (if P (n \<in> bits_of bs) True then insert n (bits_of bs) else bits_of bs - {n})"
    using n by (auto simp: bits_of_iff)
qed

lemma bitmap_set_bit_in:
  assumes "unat n < 8 * length bs"
  shows "\<exists>bs'. bitmap_set_bit (Ptr bs) n = Some (Ptr bs') \<and>
     bits_of bs' = insert (unat n) (bits_of bs) \<and> length bs' = length bs"
  using assms
  by (simp add: bitmap_set_bit_def Let_def bit_read word_nat
      bitmap_update_bits [where P = "\<lambda>b p. b \<or> p"])

lemma bitmap_clear_bit_in:
  assumes "unat n < 8 * length bs"
  shows "\<exists>bs'. bitmap_clear_bit (Ptr bs) n = Some (Ptr bs') \<and>
     bits_of bs' = bits_of bs - {unat n} \<and> length bs' = length bs"
  using assms
  by (simp add: bitmap_clear_bit_def Let_def bit_read word_nat
      bitmap_update_bits [where P = "\<lambda>b p. b \<and> \<not> p"])

lemma bitmap_toggle_bit_in:
  assumes "unat n < 8 * length bs"
  shows "\<exists>bs'. bitmap_toggle_bit (Ptr bs) n = Some (Ptr bs') \<and> length bs' = length bs \<and>
     bits_of bs' = (if unat n \<in> bits_of bs then bits_of bs - {unat n} else insert (unat n) (bits_of bs))"
  using assms
  by (simp add: bitmap_toggle_bit_def Let_def bit_read word_nat
      bitmap_update_bits [where P = "\<lambda>b p. b \<noteq> p"])

interpretation bm: bit_store bitmap_get_bit bitmap_set_bit bitmap_clear_bit bitmap_bits bitmap_cap
proof unfold_locales
  fix n s k and t :: "bytes ptr"
  show "unat n < bitmap_cap s \<Longrightarrow> bitmap_get_bit s n = Some (of_bool (unat n \<in> bitmap_bits s))"
    by (cases s) auto
  show "unat n < bitmap_cap s \<Longrightarrow> \<exists>s'. bitmap_set_bit s n = Some s' \<and>
      bitmap_bits s' = insert (unat n) (bitmap_bits s) \<and> bitmap_cap s' = bitmap_cap s"
    using bitmap_set_bit_in by (cases s) fastforce+
  show "unat n < bitmap_cap s \<Longrightarrow> \<exists>s'. bitmap_clear_bit s n = Some s' \<and>
      bitmap_bits s' = bitmap_bits s - {unat n} \<and> bitmap_cap s' = bitmap_cap s"
    using bitmap_clear_bit_in by (cases s) fastforce+
  show "k \<in> bitmap_bits s \<Longrightarrow> k < bitmap_cap s"
    by (cases s) (auto dest: bits_of_bounded)
  show "bitmap_cap s = bitmap_cap t \<Longrightarrow> bitmap_bits s = bitmap_bits t \<Longrightarrow> 0 < bitmap_cap s \<Longrightarrow> s = t"
    by (cases s; cases t) (auto intro: bits_of_inject)
qed

lemma bitmap_set_bits_loop_in:
  assumes "i \<le> limit" and "unat limit \<le> 8 * length bs"
  shows "\<exists>bs'. bitmap_set_bits_loop (Ptr bs) i limit = Some (Ptr bs') \<and> length bs' = length bs \<and>
     bits_of bs' = bits_of bs \<union> {unat i..<unat limit}"
  using assms
proof (induction "unat limit - unat i" arbitrary: i bs)
  case 0
  then have "i = limit" by (simp add: word_le_nat_alt)
  then show ?case by (simp add: bitmap_set_bits_loop.simps [of _ limit limit])
next
  case (Suc d)
  from Suc.hyps(2) have lt: "i < limit" by (simp add: word_less_nat_alt)
  have i: "unat (i + 1) = Suc (unat i)" "unat i < 8 * length bs"
    using lt Suc.prems by (auto simp: unat_inc word_less_nat_alt)
  then obtain bs1 where bs1: "bitmap_set_bit (Ptr bs) i = Some (Ptr bs1)"
      "bits_of bs1 = insert (unat i) (bits_of bs)" "length bs1 = length bs"
    using bitmap_set_bit_in by blast
  have "d = unat limit - unat (i + 1)" "i + 1 \<le> limit" "unat limit \<le> 8 * length bs1"
    using Suc.hyps(2) Suc.prems lt i bs1 by (auto simp: word_le_nat_alt word_less_nat_alt)
  from Suc.hyps(1) [OF this] obtain bs' where
    "bitmap_set_bits_loop (Ptr bs1) (i + 1) limit = Some (Ptr bs')"
    "length bs' = length bs1" "bits_of bs' = bits_of bs1 \<union> {unat (i + 1)..<unat limit}"
    by blast
  moreover have "{unat i..<unat limit} = insert (unat i) {Suc (unat i)..<unat limit}"
    using lt by (auto simp: word_less_nat_alt)
  ultimately show ?case
    using bs1 i lt by (simp add: bitmap_set_bits_loop.simps [of _ i limit])
qed

lemma bitmap_set_bits_in:
  assumes "unat startbit + unat count \<le> 8 * length bs" and "unat startbit + unat count < 2 ^ 32"
  shows "\<exists>bs'. bitmap_set_bits (Ptr bs) startbit count = Some (Ptr bs') \<and> length bs' = length bs \<and>
     bits_of bs' = bits_of bs \<union> {unat startbit..<unat startbit + unat count}"
proof -
  have "unat (startbit + count) = unat startbit + unat count"
    using assms(2) by (simp add: unat_add_less)
  with assms show ?thesis
    unfolding bitmap_set_bits_def
    using bitmap_set_bits_loop_in [of startbit "startbit + count" bs]
    by (simp add: word_le_nat_alt)
qed

section \<open>Finding the first set bit\<close>

lemma ffs32_None: "ffs32 w = 0 \<longleftrightarrow> (\<forall>n<32. \<not> bit w n)"
proof (cases "filter (bit w) [0..<32]")
  case Nil
  then show ?thesis by (simp add: ffs32_def filter_empty_conv)
next
  case (Cons n ns)
  then have "n \<in> set (filter (bit w) [0..<32])" by (metis list.set_intros(1))
  then have "n < 32 \<and> bit w n" by simp
  moreover have "ffs32 w = int n + 1" by (simp add: ffs32_def Cons)
  ultimately show ?thesis by auto
qed

lemma ffs32_Some:
  assumes "ffs32 w \<noteq> 0"
  obtains n where "n < 32" "bit w n" "\<forall>m<n. \<not> bit w m" "ffs32 w = int n + 1"
proof -
  obtain n ns where ns: "filter (bit w) [0..<32] = n # ns"
    using assms by (auto simp: ffs32_def split: list.splits)
  then obtain us vs where "[0..<32] = us @ n # vs" "\<forall>u\<in>set us. \<not> bit w u" "bit w n"
    by (auto simp: filter_eq_Cons_iff)
  then have "us = [0..<n] \<and> n < 32"
    by (metis (no_types) add_0 diff_zero length_append length_upt less_add_Suc1 add_Suc_right
        length_Cons nth_append_length nth_upt take_upt append_eq_conv_conj less_imp_le_nat add.commute
        length_greater_0_conv)
  then show thesis
    using that ns \<open>bit w n\<close> \<open>\<forall>u\<in>set us. \<not> bit w u\<close> by (auto simp: ffs32_def)
qed

lemma load_u32_bits:
  assumes "i + 4 \<le> length bs"
  shows "\<exists>w. load_u32 bs i = Some w \<and> (\<forall>n<32. bit w n \<longleftrightarrow> 8 * i + n \<in> bits_of bs)"
proof -
  have "[bs ! i, bs ! (i + 1), bs ! (i + 2), bs ! (i + 3)] ! q = bs ! (i + q)" if "q < 4" for q
    using that by (auto simp: less_Suc_eq numeral_eq_Suc)
  then have "bit ([bs ! i, bs ! (i + 1), bs ! (i + 2), bs ! (i + 3)] ! (n div 8)) (n mod 8) \<longleftrightarrow>
      8 * i + n \<in> bits_of bs" if "n < 32" for n
    using that assms by (simp add: bits_of_iff)
  then show ?thesis
    using assms by (simp add: load_u32_def bit_combine_bytes)
qed

text \<open>What one step of the search learns from the word at byte \<open>i\<close>.\<close>

lemma first_set_word_empty:
  assumes "\<And>n. n < 32 \<Longrightarrow> bit w n \<longleftrightarrow> 8 * i + n \<in> bits_of bs" and "ffs32 w = 0"
  shows "n \<in> bits_of bs \<and> 8 * i \<le> n \<longleftrightarrow> n \<in> bits_of bs \<and> 8 * (i + 4) \<le> n"
proof -
  have "k \<notin> bits_of bs" if "8 * i \<le> k" "k < 8 * i + 32" for k
    using assms(1) [of "k - 8 * i"] assms(2) that by (auto simp: ffs32_None)
  then show ?thesis
    by (cases "n < 8 * i + 32") auto
qed

lemma first_set_word_found:
  assumes w: "\<And>n. n < 32 \<Longrightarrow> bit w n \<longleftrightarrow> 8 * i + n \<in> bits_of bs" and "ffs32 w \<noteq> 0"
  obtains n where "n < 32" "8 * i + n \<in> bits_of bs" "ffs32 w = int n + 1"
    "(LEAST k. k \<in> bits_of bs \<and> 8 * i \<le> k) = 8 * i + n"
proof -
  from assms(2) obtain n where n: "n < 32" "bit w n" "\<forall>m<n. \<not> bit w m" "ffs32 w = int n + 1"
    by (rule ffs32_Some)
  have "(LEAST k. k \<in> bits_of bs \<and> 8 * i \<le> k) = 8 * i + n"
  proof (rule Least_equality)
    show "8 * i + n \<in> bits_of bs \<and> 8 * i \<le> 8 * i + n"
      using n w by simp
    fix k assume k: "k \<in> bits_of bs \<and> 8 * i \<le> k"
    show "8 * i + n \<le> k"
    proof (rule ccontr)
      assume "\<not> 8 * i + n \<le> k"
      then have "k - 8 * i < n" "k - 8 * i < 32" "8 * i + (k - 8 * i) = k"
        using k n(1) by auto
      then show False
        using n(3) k w [of "k - 8 * i"] by metis
    qed
  qed
  with n w show thesis by (intro that) auto
qed

lemma sint_bit_index:
  assumes "8 * i + n + 1 < 2 ^ 31"
  shows "sint (of_int (int n + 1) + of_nat i * 8 :: u32) = int (8 * i + n) + 1"
proof -
  have "(of_int (int n + 1) + of_nat i * 8 :: u32) = of_nat (8 * i + n + 1)"
    by simp
  then show ?thesis
    using sint_of_nat_32 [OF assms] by (simp only: of_nat_add of_nat_1)
qed

lemma bitmap_find_first_set_loop_in:
  assumes "4 dvd i" "4 dvd leftover" "i \<le> leftover" "leftover \<le> length bs" "8 * leftover < 2 ^ 31"
  shows "bitmap_find_first_set_loop bs i leftover 0 =
    Some (if \<exists>n\<in>bits_of bs. 8 * i \<le> n \<and> n < 8 * leftover
          then int (LEAST n. n \<in> bits_of bs \<and> 8 * i \<le> n) + 1 else 0)"
  using assms
proof (induction "leftover - i" arbitrary: i rule: less_induct)
  case less
  show ?case
  proof (cases "i = leftover")
    case True
    then show ?thesis by (simp add: bitmap_find_first_set_loop.simps [of _ leftover leftover])
  next
    case False
    then have lt: "i + 4 \<le> leftover"
      using less.prems by (metis add_leD1 dvd_diff_nat dvd_imp_le le_add_diff_inverse
          le_neq_implies_less nat_add_left_cancel_le zero_less_diff)
    then obtain w where w: "load_u32 bs i = Some w"
      and wbit: "\<And>n. n < 32 \<Longrightarrow> bit w n \<longleftrightarrow> 8 * i + n \<in> bits_of bs"
      using load_u32_bits [of i bs] less.prems by auto
    show ?thesis
    proof (cases "ffs32 w = 0")
      case True
      note shift = first_set_word_empty [OF wbit True]
      have "bitmap_find_first_set_loop bs (i + 4) leftover 0 =
        Some (if \<exists>n\<in>bits_of bs. 8 * (i + 4) \<le> n \<and> n < 8 * leftover
          then int (LEAST n. n \<in> bits_of bs \<and> 8 * (i + 4) \<le> n) + 1 else 0)"
        using less.prems lt by (intro less.hyps) auto
      moreover have "bitmap_find_first_set_loop bs i leftover 0 =
          bitmap_find_first_set_loop bs (i + 4) leftover 0"
        using lt w True by (simp add: bitmap_find_first_set_loop.simps [of bs i leftover])
      moreover have "(\<exists>n\<in>bits_of bs. 8 * (i + 4) \<le> n \<and> n < 8 * leftover) \<longleftrightarrow>
          (\<exists>n\<in>bits_of bs. 8 * i \<le> n \<and> n < 8 * leftover)"
        using shift by blast
      ultimately show ?thesis
        by (simp only: shift)
    next
      case False
      obtain n where n: "n < 32" "8 * i + n \<in> bits_of bs" "ffs32 w = int n + 1"
        and least: "(LEAST k. k \<in> bits_of bs \<and> 8 * i \<le> k) = 8 * i + n"
        using first_set_word_found [OF wbit False] by blast
      have "\<exists>k\<in>bits_of bs. 8 * i \<le> k \<and> k < 8 * leftover"
        using n lt by (intro bexI [of _ "8 * i + n"]) auto
      then show ?thesis
        using w lt n less.prems sint_bit_index [of i n]
        by (simp add: least bitmap_find_first_set_loop.simps [of bs i leftover])
    qed
  qed
qed

section \<open>Properties\<close>

text \<open>
  C40. Every single-bit operation on an in-range bit is the corresponding operation on the set of
  set bits: it stays inside the array, keeps its length, and \<open>bitmap_get_bit\<close> reads membership.
\<close>

theorem bitmap_bit_ops_refine_sets:
  assumes "unat n < 8 * length bs"
  shows "\<exists>s c t. bitmap_set_bit (Ptr bs) n = Some (Ptr s) \<and>
      bitmap_clear_bit (Ptr bs) n = Some (Ptr c) \<and> bitmap_toggle_bit (Ptr bs) n = Some (Ptr t) \<and>
      length s = length bs \<and> length c = length bs \<and> length t = length bs \<and>
      bits_of s = insert (unat n) (bits_of bs) \<and> bits_of c = bits_of bs - {unat n} \<and>
      bits_of t = (if unat n \<in> bits_of bs then bits_of bs - {unat n} else insert (unat n) (bits_of bs)) \<and>
      bitmap_get_bit (Ptr bs) n = Some (of_bool (unat n \<in> bits_of bs))"
  using bitmap_set_bit_in [OF assms] bitmap_clear_bit_in [OF assms] bitmap_toggle_bit_in [OF assms]
    bitmap_get_bit_in [OF assms] by auto

theorem bitmap_bit_ops_refine_sets_witness:
  "unat (10 :: u32) < 8 * length [0, 4 :: u8] \<and>
   bitmap_toggle_bit (Ptr [0, 4]) 10 = Some (Ptr [0, 0]) \<and>
   bitmap_get_bit (Ptr [0, 4]) 10 = Some (of_bool (10 \<in> bits_of [0, 4]))"
  using bitmap_bit_ops_refine_sets [of 10 "[0, 4]"]
  by (simp add: bitmap_toggle_bit_def Let_def)

text \<open>
  \<open>bitmap_set_bits\<close> on a range inside the array (and below \<open>2^32\<close>) sets exactly the bits of
  the range, keeps all others and writes nothing outside the array.
\<close>

theorem bitmap_set_bits_range:
  assumes "unat startbit + unat count \<le> 8 * length bs" and "unat startbit + unat count < 2 ^ 32"
  shows "\<exists>bs'. bitmap_set_bits (Ptr bs) startbit count = Some (Ptr bs') \<and> length bs' = length bs \<and>
     bits_of bs' = bits_of bs \<union> {unat startbit..<unat startbit + unat count}"
  using assms by (rule bitmap_set_bits_in)

theorem bitmap_set_bits_range_witness:
  "\<exists>bs'. bitmap_set_bits (Ptr [0, 1, 0 :: u8]) 5 7 = Some (Ptr bs') \<and> length bs' = 3 \<and>
     bits_of bs' = bits_of [0, 1, 0] \<union> {5..<12}"
  using bitmap_set_bits_range [of 5 7 "[0, 1, 0]"] by (simp add: numeral_3_eq_3)

text \<open>
  \<open>bitmap_find_first_set\<close> returns the least set bit of the dword-aligned prefix of the array
  it is told to search, and -1 exactly when that prefix has no set bit.
\<close>

theorem bitmap_find_first_set_least:
  assumes "unat maxbyte \<le> length bs" and "8 * unat maxbyte < 2 ^ 31"
  shows "bitmap_find_first_set (Ptr bs) maxbyte =
    Some (if \<exists>n\<in>bits_of bs. n < 8 * (4 * (unat maxbyte div 4))
          then int (LEAST n. n \<in> bits_of bs) else - 1)"
proof -
  have "unat (maxbyte div 4 * 4) = 4 * (unat maxbyte div 4)"
    using assms(2) by (simp add: unat_word_ariths unat_div)
  moreover have "bitmap_find_first_set_loop bs 0 (4 * (unat maxbyte div 4)) 0 =
    Some (if \<exists>n\<in>bits_of bs. 8 * 0 \<le> n \<and> n < 8 * (4 * (unat maxbyte div 4))
          then int (LEAST n. n \<in> bits_of bs \<and> 8 * 0 \<le> n) + 1 else 0)"
    using assms by (intro bitmap_find_first_set_loop_in) auto
  ultimately show ?thesis
    by (simp add: bitmap_find_first_set_def)
qed

theorem bitmap_find_first_set_least_witness:
  "bitmap_find_first_set (Ptr [0, 0, 0, 0, 0, 255, 255, 255 :: u8]) 8 =
    Some (if \<exists>n\<in>bits_of [0, 0, 0, 0, 0, 255, 255, 255]. n < 64
          then int (LEAST n. n \<in> bits_of [0, 0, 0, 0, 0, 255, 255, 255]) else - 1)"
  using bitmap_find_first_set_least [of 8 "[0, 0, 0, 0, 0, 255, 255, 255]"] by simp

end
