(* ===== verification/Kheap.thy ===== *)
theory Kheap
  imports Prelude
begin

text \<open>
  \<^verbatim>\<open>kernel/mmu/kheap.c\<close> and \<^verbatim>\<open>kernel/common/kinfo.c\<close>: the kernel's own bump allocator. The record
  \<open>kheap\<close> is the base of the kernel's global state; the page frame allocator and the paging code
  extend it with their own globals.

  The heap grows from the end of the kernel image and is never freed (\<open>kfree\<close> has an empty body).
  The theorems say that a returned region is aligned, starts at the first aligned address not
  below the old break, is zeroed, and that regions returned one after the other never overlap.
\<close>

section \<open>State and operations\<close>

text \<open>\<open>kmem\<close> is the byte-addressed memory of the machine, \<open>kernel_end_virtual\<close> the linker's symbol
  that \<open>kinfo_init\<close> copies into \<open>struct kinfo\<close>.\<close>

record kinfo =
  kernel_start_phys :: u32
  kernel_start_virtual :: u32
  kernel_end_phys :: u32
  kernel_end_virtual :: u32
  is_paging_enabled :: int

record kheap =
  kinfo_of :: kinfo
  phys_mem_upper :: u32
  heap_cur :: u32
  kmem :: "u32 \<Rightarrow> u8"

definition kinfo_init :: "u32 \<Rightarrow> u32 \<Rightarrow> u32 \<Rightarrow> u32 \<Rightarrow> 'a kheap_scheme \<Rightarrow> 'a kheap_scheme" where
  "kinfo_init KERNEL_START_PHYS KERNEL_START_VIRTUAL KERNEL_END_PHYS KERNEL_END_VIRTUAL s =
     s\<lparr>kinfo_of := (kinfo_of s)
        \<lparr>kernel_start_phys := KERNEL_START_PHYS, kernel_start_virtual := KERNEL_START_VIRTUAL,
         kernel_end_phys := KERNEL_END_PHYS, kernel_end_virtual := KERNEL_END_VIRTUAL\<rparr>\<rparr>"

definition kheap_init :: "'a kheap_scheme \<Rightarrow> 'a kheap_scheme" where
  "kheap_init s = s\<lparr>heap_cur := kernel_end_virtual (kinfo_of s)\<rparr>"

text \<open>\<open>_memset\<close> of \<^verbatim>\<open>kernel/utils/string.c\<close> on the raw memory.\<close>

fun memset_mem :: "(u32 \<Rightarrow> u8) \<Rightarrow> u32 \<Rightarrow> u8 \<Rightarrow> nat \<Rightarrow> (u32 \<Rightarrow> u8)" where
  "memset_mem m xs c 0 = m"
| "memset_mem m xs c (Suc len) = memset_mem (m(xs := c)) (xs + 1) c len"

definition kmalloc :: "u32 \<Rightarrow> 'a kheap_scheme \<Rightarrow> u32 \<times> 'a kheap_scheme" where
  "kmalloc sz s =
     (let ret = heap_cur s;
          s = s\<lparr>heap_cur := heap_cur s + sz\<rparr>;
          s = s\<lparr>kmem := memset_mem (kmem s) ret 0 (unat sz)\<rparr>
      in (ret, s))"

text \<open>The search for an aligned address. It wraps at \<open>2^32\<close>, and stops at 0 at the latest.\<close>

function kmalloc_align_next :: "u32 \<Rightarrow> u32 \<Rightarrow> u32" where
  "kmalloc_align_next next alignment =
     (if next mod alignment = 0 then next else kmalloc_align_next (next + 1) alignment)"
  by pat_completeness auto
termination
proof (relation "measure (\<lambda>(n, alignment). if n = 0 then 0 else 2 ^ 32 - unat n)")
  fix n alignment :: u32
  assume "n mod alignment \<noteq> 0"
  then have "n \<noteq> 0" by auto
  then show "((n + 1, alignment), n, alignment) \<in>
      measure (\<lambda>(n, alignment). if n = 0 then 0 else 2 ^ 32 - unat n)"
    using unatSuc [of n] unat_less_32 [of n] by (auto simp: add.commute)
qed simp

declare kmalloc_align_next.simps [simp del]

text \<open>Alignment 0 divides by zero in \<open>next % alignment\<close>.\<close>

definition kmalloc_align :: "u32 \<Rightarrow> u32 \<Rightarrow> 'a kheap_scheme \<Rightarrow> (u32 \<times> 'a kheap_scheme) option" where
  "kmalloc_align sz alignment s =
     (if alignment = 0 then None
      else let next = kmalloc_align_next (heap_cur s) alignment;
               s = s\<lparr>heap_cur := next + sz\<rparr>;
               s = s\<lparr>kmem := memset_mem (kmem s) next 0 (unat sz)\<rparr>
           in Some (next, s))"

definition kfree :: "u32 \<Rightarrow> 'a kheap_scheme \<Rightarrow> 'a kheap_scheme" where
  "kfree ptr s = s"

section \<open>Lemmas\<close>

lemma memset_mem_apply:
  "unat a + n \<le> 2 ^ 32 \<Longrightarrow>
   memset_mem m a c n x = (if unat a \<le> unat x \<and> unat x < unat a + n then c else m x)"
proof (induction m a c n rule: memset_mem.induct)
  case (1 m xs c)
  then show ?case by auto
next
  case (2 m xs c len)
  show ?case
  proof (cases "unat xs + Suc len = 2 ^ 32 \<and> len = 0")
    case True
    then have "unat xs \<le> unat x \<longleftrightarrow> x = xs"
      using unat_less_32 [of x] by (auto simp flip: unat_eq_iff)
    with True show ?thesis by auto
  next
    case False
    then have "unat (xs + 1) = Suc (unat xs)"
      using "2.prems" by (auto simp: unat_plus_if')
    then have "memset_mem (m(xs := c)) (xs + 1) c len x =
        (if Suc (unat xs) \<le> unat x \<and> unat x < Suc (unat xs) + len then c else (m(xs := c)) x)"
      using 2 by (simp del: fun_upd_apply)
    moreover have "x \<noteq> xs \<Longrightarrow> unat xs \<le> unat x \<Longrightarrow> Suc (unat xs) \<le> unat x"
      by (metis Suc_leI le_neq_implies_less unat_eq_iff)
    ultimately show ?thesis
      by (cases "x = xs") auto
  qed
qed

lemma kmalloc_align_next_reaches:
  assumes "\<forall>j<k. (n + of_nat j) mod alignment \<noteq> 0" and "(n + of_nat k) mod alignment = 0"
  shows "kmalloc_align_next n alignment = n + of_nat k"
  using assms
proof (induction k arbitrary: n)
  case 0
  then show ?case by (simp add: kmalloc_align_next.simps)
next
  case (Suc k)
  have "n mod alignment \<noteq> 0"
    using Suc.prems(1) [rule_format, of 0] by simp
  moreover have "kmalloc_align_next (n + 1) alignment = n + 1 + of_nat k"
  proof (rule Suc.IH)
    show "\<forall>j<k. (n + 1 + of_nat j) mod alignment \<noteq> 0"
      using Suc.prems(1) [rule_format, of "Suc j" for j] by (simp add: add.assoc)
    show "(n + 1 + of_nat k) mod alignment = 0"
      using Suc.prems(2) by (simp add: add.assoc)
  qed
  ultimately show ?case
    by (subst kmalloc_align_next.simps) (simp add: add.assoc)
qed

lemma align_hit: "0 < a \<Longrightarrow> (n + (a - n mod a) mod a) mod a = (0::nat)"
proof -
  assume "0 < a"
  then have "n + (a - n mod a) = a * (n div a) + a"
    using mult_div_mod_eq [of a n] mod_less_divisor [of a n] by linarith
  then have "(n + (a - n mod a)) mod a = 0" by simp
  then show ?thesis by (simp add: mod_add_right_eq)
qed

lemma align_gap:
  fixes j n a :: nat
  assumes "j < (a - n mod a) mod a"
  shows "(n + j) mod a \<noteq> 0"
proof -
  have "0 < n mod a"
    using assms by (cases "n mod a = 0") auto
  moreover have "n mod a + j < a"
    using assms calculation mod_less_divisor [of a n] by (cases "a = 0") auto
  ultimately have "n mod a + j < a" by simp
  then have "(n + j) mod a = n mod a + j"
    by (metis mod_add_left_eq mod_less)
  with \<open>0 < n mod a\<close> show ?thesis by simp
qed

lemma kmalloc_align_next_spec:
  assumes "alignment \<noteq> 0" and "unat n + unat alignment \<le> 2 ^ 32"
  shows "unat (kmalloc_align_next n alignment) =
     unat n + (unat alignment - unat n mod unat alignment) mod unat alignment"
proof -
  let ?a = "unat alignment"
  let ?k = "(?a - unat n mod ?a) mod ?a"
  have a: "0 < ?a" using assms(1) by (simp add: unat_gt_0)
  then have "?k < ?a" by simp
  have small: "unat (n + of_nat j) = unat n + j" if "j \<le> ?k" for j
  proof -
    have "unat n + j < 2 ^ 32"
      using that \<open>?k < ?a\<close> assms(2) by linarith
    then show ?thesis
      by (simp add: unat_add_less unat_of_nat_small)
  qed
  have "kmalloc_align_next n alignment = n + of_nat ?k"
  proof (rule kmalloc_align_next_reaches)
    show "\<forall>j<?k. (n + of_nat j) mod alignment \<noteq> 0"
    proof (intro allI impI)
      fix j assume "j < ?k"
      then have "unat ((n + of_nat j) mod alignment) = (unat n + j) mod ?a"
        by (simp add: unat_mod small)
      also have "\<dots> \<noteq> 0"
        using \<open>j < ?k\<close> by (rule align_gap)
      finally show "(n + of_nat j) mod alignment \<noteq> 0" by (metis unat_0)
    qed
    have "unat ((n + of_nat ?k) mod alignment) = (unat n + ?k) mod ?a"
      by (simp add: unat_mod small)
    then show "(n + of_nat ?k) mod alignment = 0"
      using align_hit [OF a] by (simp add: unat_eq_0)
  qed
  then show ?thesis by (simp add: small)
qed

section \<open>Regions\<close>

text \<open>\<open>region r n\<close> is the set of byte addresses of an object of \<open>n\<close> bytes at \<open>r\<close>.\<close>

definition region :: "u32 \<Rightarrow> nat \<Rightarrow> nat set" where
  "region r n = {unat r..<unat r + n}"

text \<open>
  The contract of a bump allocator: \<open>alloc\<close> returns a region at or above the break and moves the
  break to its end. Two regions returned by consecutive calls are then disjoint, and so is a
  region from everything below the break.
\<close>

locale bump_allocator =
  fixes alloc :: "'s \<Rightarrow> (u32 \<times> 's) option"
    and brk :: "'s \<Rightarrow> u32"
    and sz :: nat
    and ok :: "'s \<Rightarrow> bool"
  assumes alloc_returns: "ok s \<Longrightarrow> \<exists>r s'. alloc s = Some (r, s')"
    and alloc_region: "ok s \<Longrightarrow> alloc s = Some (r, s') \<Longrightarrow>
      unat (brk s) \<le> unat r \<and> unat (brk s') = unat r + sz"
begin

lemma alloc_above:
  assumes "ok s" and "alloc s = Some (r, s')" and "x \<in> region r sz"
  shows "unat (brk s) \<le> x \<and> x < unat (brk s')"
  using assms alloc_region [OF assms(1,2)] by (auto simp: region_def)

lemma alloc_twice_disjoint:
  assumes "ok s" and "alloc s = Some (r, s')" and "ok s'" and "alloc s' = Some (r', s'')"
  shows "region r sz \<inter> region r' sz = {}"
  using alloc_above [OF assms(1,2)] alloc_above [OF assms(3,4)] by fastforce

end

definition kheap_room :: "u32 \<Rightarrow> u32 \<Rightarrow> 'a kheap_scheme \<Rightarrow> bool" where
  "kheap_room sz alignment s \<longleftrightarrow>
     alignment \<noteq> 0 \<and> unat (heap_cur s) + unat alignment + unat sz < 2 ^ 32"

lemma kmalloc_align_next_bounds:
  assumes "alignment \<noteq> 0" and "unat n + unat alignment \<le> 2 ^ 32"
  shows "unat n \<le> unat (kmalloc_align_next n alignment)"
    and "unat (kmalloc_align_next n alignment) < unat n + unat alignment"
    and "unat (kmalloc_align_next n alignment) mod unat alignment = 0"
proof -
  have "0 < unat alignment" using assms(1) by (simp add: unat_gt_0)
  then show "unat n \<le> unat (kmalloc_align_next n alignment)"
    and "unat (kmalloc_align_next n alignment) < unat n + unat alignment"
    and "unat (kmalloc_align_next n alignment) mod unat alignment = 0"
    using align_hit [of "unat alignment" "unat n"] by (simp_all add: kmalloc_align_next_spec [OF assms])
qed

lemma kmalloc_align_result:
  assumes "kheap_room sz alignment s"
  obtains r s' where "kmalloc_align sz alignment s = Some (r, s')"
    and "unat (heap_cur s) \<le> unat r" and "unat r < unat (heap_cur s) + unat alignment"
    and "unat r mod unat alignment = 0"
    and "unat (heap_cur s') = unat r + unat sz"
    and "\<forall>x. kmem s' x = (if unat x \<in> region r (unat sz) then 0 else kmem s x)"
    and "s' = s\<lparr>heap_cur := heap_cur s', kmem := kmem s'\<rparr>"
proof -
  let ?r = "kmalloc_align_next (heap_cur s) alignment"
  have room: "alignment \<noteq> 0" "unat (heap_cur s) + unat alignment \<le> 2 ^ 32"
    using assms by (auto simp: kheap_room_def)
  note b = kmalloc_align_next_bounds [OF room]
  have lt: "unat ?r + unat sz < 2 ^ 32"
    using b assms by (auto simp: kheap_room_def)
  show thesis
  proof (rule that [of ?r "s\<lparr>heap_cur := ?r + sz, kmem := memset_mem (kmem s) ?r 0 (unat sz)\<rparr>"])
    show "unat (heap_cur (s\<lparr>heap_cur := ?r + sz, kmem := memset_mem (kmem s) ?r 0 (unat sz)\<rparr>))
        = unat ?r + unat sz"
      using lt by (simp add: unat_add_less)
  qed (use b lt room in \<open>simp_all add: kmalloc_align_def Let_def memset_mem_apply region_def\<close>)
qed

interpretation kma: bump_allocator "kmalloc_align sz alignment" heap_cur "unat sz"
  "kheap_room sz alignment" for sz alignment
proof unfold_locales
  fix s :: "'a kheap_scheme"
  assume "kheap_room sz alignment s"
  then show "\<exists>r s'. kmalloc_align sz alignment s = Some (r, s')"
    by (rule kmalloc_align_result) blast
next
  fix s s' :: "'a kheap_scheme" and r
  assume "kheap_room sz alignment s" and "kmalloc_align sz alignment s = Some (r, s')"
  then show "unat (heap_cur s) \<le> unat r \<and> unat (heap_cur s') = unat r + unat sz"
    by (elim kmalloc_align_result) simp
qed

interpretation km: bump_allocator "\<lambda>s. Some (kmalloc sz s)" heap_cur "unat sz"
  "\<lambda>s. unat (heap_cur s) + unat sz < 2 ^ 32" for sz
  by unfold_locales (auto simp: kmalloc_def Let_def unat_add_less)

section \<open>Properties\<close>

text \<open>
  With room below \<open>2^32\<close>, \<open>kmalloc_align\<close> returns the first multiple of the alignment not
  below the break, moves the break to the end of the region, and zeroes exactly that region.
\<close>

theorem kmalloc_align_spec:
  assumes "kheap_room sz alignment s"
  shows "\<exists>r s'. kmalloc_align sz alignment s = Some (r, s') \<and>
     unat alignment dvd unat r \<and> unat (heap_cur s) \<le> unat r \<and>
     unat r < unat (heap_cur s) + unat alignment \<and> unat (heap_cur s') = unat r + unat sz \<and>
     (\<forall>x. kmem s' x = (if unat x \<in> region r (unat sz) then 0 else kmem s x))"
  using assms by (rule kmalloc_align_result) (auto simp: dvd_eq_mod_eq_0)

theorem kmalloc_align_spec_witness:
  "\<exists>r s'. kmalloc_align 16 4096 \<lparr>kinfo_of = \<lparr>kernel_start_phys = 0, kernel_start_virtual = 0,
       kernel_end_phys = 0, kernel_end_virtual = 0, is_paging_enabled = 0\<rparr>,
       phys_mem_upper = 0, heap_cur = 5000, kmem = \<lambda>_. 7\<rparr> = Some (r, s') \<and>
     4096 dvd unat r \<and> 5000 \<le> unat r \<and> unat r < 9096 \<and> unat (heap_cur s') = unat r + 16"
proof -
  let ?s = "\<lparr>kinfo_of = \<lparr>kernel_start_phys = 0, kernel_start_virtual = 0,
       kernel_end_phys = 0, kernel_end_virtual = 0, is_paging_enabled = 0\<rparr>,
       phys_mem_upper = 0, heap_cur = 5000, kmem = \<lambda>_. 7\<rparr>"
  have "kheap_room 16 4096 ?s" by (simp add: kheap_room_def)
  from kmalloc_align_spec [OF this] show ?thesis by auto
qed

text \<open>Two regions that \<open>kmalloc_align\<close> returns one after the other are disjoint.\<close>

lemma kmalloc_align_twice_disjoint:
  assumes "kheap_room sz alignment s" and "kmalloc_align sz alignment s = Some (r, s')"
    and "kheap_room sz alignment s'" and "kmalloc_align sz alignment s' = Some (r', s'')"
  shows "region r (unat sz) \<inter> region r' (unat sz) = {}"
  using assms by (rule kma.alloc_twice_disjoint)

end
