(* ===== verification/Pageframe.thy ===== *)
theory Pageframe
  imports Bitmap Kheap
begin

text \<open>
  \<^verbatim>\<open>kernel/mmu/pageframe_alloc.c\<close>: the allocator of physical page frames. Its globals extend the
  kernel state: \<open>is_initialized\<close>, the bit map with one bit per frame (1 is allocated), and the
  number of frames. Requests of up to eight pages go to a best-fit search inside single bytes of
  the map, larger ones to a first-fit search over the whole map.

  The abstraction of the state is the set of allocated frames. The theorems say which frames an
  allocation returns, that they were free and become allocated, that nothing else changes, when an
  allocation fails, and that freeing undoes an allocation.
\<close>

section \<open>State\<close>

record pageframe = kheap +
  is_initialized :: bool
  pageframe_bitmap :: "bytes ptr"
  pages_total_phys :: u32

section \<open>Operations\<close>

definition pageframe_alloc_set_page :: "u32 \<Rightarrow> 'a pageframe_scheme \<Rightarrow> 'a pageframe_scheme option" where
  "pageframe_alloc_set_page page_no s =
     do { bm \<leftarrow> bitmap_set_bit (pageframe_bitmap s) page_no; Some (s\<lparr>pageframe_bitmap := bm\<rparr>) }"

definition pageframe_alloc_get_page :: "u32 \<Rightarrow> 'a pageframe_scheme \<Rightarrow> int option" where
  "pageframe_alloc_get_page page_no s = bitmap_get_bit (pageframe_bitmap s) page_no"

definition pageframe_alloc_set_pages ::
    "u32 \<Rightarrow> u32 \<Rightarrow> 'a pageframe_scheme \<Rightarrow> 'a pageframe_scheme option" where
  "pageframe_alloc_set_pages page_start pages s =
     do { bm \<leftarrow> bitmap_set_bits (pageframe_bitmap s) page_start pages;
          Some (s\<lparr>pageframe_bitmap := bm\<rparr>) }"

definition pageframe_alloc_clear_page :: "u32 \<Rightarrow> 'a pageframe_scheme \<Rightarrow> 'a pageframe_scheme option" where
  "pageframe_alloc_clear_page page_no s =
     do { bm \<leftarrow> bitmap_clear_bit (pageframe_bitmap s) page_no; Some (s\<lparr>pageframe_bitmap := bm\<rparr>) }"

definition pageframe_addr_from_page :: "u32 \<Rightarrow> u32" where
  "pageframe_addr_from_page page_no = page_no * 4096"

definition page_from_addr :: "u32 \<Rightarrow> u32" where
  "page_from_addr addr = addr div 4096"

text \<open>\<open>_pageframe_bitmap[i]\<close>: a read through the pointer.\<close>

definition pageframe_bitmap_byte :: "nat \<Rightarrow> 'a pageframe_scheme \<Rightarrow> u8 option" where
  "pageframe_bitmap_byte i s = (case pageframe_bitmap s of Null \<Rightarrow> None | Ptr bs \<Rightarrow> arr_get bs i)"

text \<open>
  The scan of one byte for the best fit. The loop variables of the source, in order:
  \<open>best_fit_len\<close>, \<open>best_fit_pos\<close>, \<open>cur_len\<close>, \<open>last_one\<close>. They are \<open>int\<close>s that stay between -1 and 9.
\<close>

type_synonym fit = "int \<times> int \<times> int \<times> int"

definition bestfit_update :: "u32 \<Rightarrow> fit \<Rightarrow> fit" where
  "bestfit_update pages = (\<lambda>(best_fit_len, best_fit_pos, cur_len, last_one).
     if best_fit_len > cur_len \<and> cur_len \<ge> sint pages
     then (cur_len, last_one + 1, cur_len, last_one)
     else (best_fit_len, best_fit_pos, cur_len, last_one))"

definition bestfit_bit :: "u8 \<Rightarrow> u32 \<Rightarrow> nat \<Rightarrow> fit \<Rightarrow> fit" where
  "bestfit_bit byte pages j = (\<lambda>(best_fit_len, best_fit_pos, cur_len, last_one).
     if byte AND push_bit j 1 = 0
     then let cur_len = cur_len + 1 in
          if j = 7 then bestfit_update pages (best_fit_len, best_fit_pos, cur_len, last_one)
          else (best_fit_len, best_fit_pos, cur_len, last_one)
     else let (best_fit_len, best_fit_pos, cur_len, last_one) =
                bestfit_update pages (best_fit_len, best_fit_pos, cur_len, last_one);
              cur_len = 0; last_one = int j
          in (best_fit_len, best_fit_pos, cur_len, last_one))"

definition bestfit_byte :: "u8 \<Rightarrow> u32 \<Rightarrow> int" where
  "bestfit_byte byte pages =
     (let (best_fit_len, best_fit_pos, cur_len, last_one) =
        fold (bestfit_bit byte pages) [0..<8] (9, - 1, 0, - 1)
      in best_fit_pos)"

text \<open>The loop over the bytes of the map; \<open>0\<close> is the \<open>NULL\<close> the function returns when none fits.\<close>

fun bestfit_loop :: "nat list \<Rightarrow> u32 \<Rightarrow> 'a pageframe_scheme \<Rightarrow> (u32 \<times> 'a pageframe_scheme) option" where
  "bestfit_loop [] pages s = Some (0, s)"
| "bestfit_loop (i # is) pages s =
     do { byte \<leftarrow> pageframe_bitmap_byte i s;
          if byte = 0xff then bestfit_loop is pages s
          else let best_fit_pos = bestfit_byte byte pages in
            if best_fit_pos \<ge> 0
            then let page_no = of_nat i * 8 + of_int best_fit_pos in
                 do { s' \<leftarrow> pageframe_alloc_set_pages page_no pages s;
                      Some (pageframe_addr_from_page page_no, s') }
            else bestfit_loop is pages s }"

definition pageframe_alloc_bestfit ::
    "u32 \<Rightarrow> 'a pageframe_scheme \<Rightarrow> (u32 \<times> 'a pageframe_scheme) option" where
  "pageframe_alloc_bestfit pages s = bestfit_loop [0..<unat (pages_total_phys s div 8)] pages s"

text \<open>First fit: skip the full bytes, then extend a run of free pages bit by bit.\<close>

fun firstfit_skip :: "nat list \<Rightarrow> u32 \<Rightarrow> 'a pageframe_scheme \<Rightarrow> u32 option" where
  "firstfit_skip [] page_no s = Some page_no"
| "firstfit_skip (i # is) page_no s =
     do { byte \<leftarrow> pageframe_bitmap_byte i s;
          if byte = 0xff then firstfit_skip is (page_no + 8) s else Some page_no }"

function firstfit_loop ::
    "u32 \<Rightarrow> u32 \<Rightarrow> u32 \<Rightarrow> u32 \<Rightarrow> 'a pageframe_scheme \<Rightarrow> (u32 \<times> 'a pageframe_scheme) option" where
  "firstfit_loop i page_no cur_len pages s =
     (if i < pages_total_phys s
      then do { bit \<leftarrow> pageframe_alloc_get_page i s;
                if bit = 0
                then let cur_len = cur_len + 1 in
                     if cur_len = pages
                     then do { s' \<leftarrow> pageframe_alloc_set_pages page_no pages s;
                               Some (pageframe_addr_from_page page_no, s') }
                     else firstfit_loop (i + 1) page_no cur_len pages s
                else firstfit_loop (i + 1) (page_no + cur_len + 1) 0 pages s }
      else Some (0, s))"
  by pat_completeness auto
termination
  by (relation "measure (\<lambda>(i, page_no, cur_len, pages, s). unat (pages_total_phys s) - unat i)")
     (auto simp: unat_inc word_less_nat_alt)

declare firstfit_loop.simps [simp del]

definition pageframe_alloc_firstfit ::
    "u32 \<Rightarrow> 'a pageframe_scheme \<Rightarrow> (u32 \<times> 'a pageframe_scheme) option" where
  "pageframe_alloc_firstfit pages s =
     do { page_no \<leftarrow> firstfit_skip [0..<unat (pages_total_phys s div 8)] 0 s;
          firstfit_loop page_no page_no 0 pages s }"

text \<open>
  The bit map is an object of \<open>_pages_total_phys / 8\<close> zero bytes, taken from the kernel heap; the
  first 2048 pages (8 MiB) are reserved for the kernel.
\<close>

definition pageframe_alloc_init :: "'a pageframe_scheme \<Rightarrow> 'a pageframe_scheme option" where
  "pageframe_alloc_init s =
     (let s = s\<lparr>pages_total_phys := (phys_mem_upper s * 1024) div 4096\<rparr> in
      do { (p, s) \<leftarrow> kmalloc_align (pages_total_phys s div 8) 4096 s;
           let s = s\<lparr>pageframe_bitmap := Ptr (replicate (unat (pages_total_phys s div 8)) 0)\<rparr> in
           do { s \<leftarrow> forM [0..<1024 * 2] (\<lambda>i. pageframe_alloc_set_page (of_nat i)) s;
                Some (s\<lparr>is_initialized := True\<rparr>) } })"

definition pageframe_alloc :: "u32 \<Rightarrow> 'a pageframe_scheme \<Rightarrow> (u32 \<times> 'a pageframe_scheme) option" where
  "pageframe_alloc pages s =
     do { s \<leftarrow> (if \<not> is_initialized s then pageframe_alloc_init s else Some s);
          if pages > 8 then pageframe_alloc_firstfit pages s
          else pageframe_alloc_bestfit pages s }"

text \<open>\<open>pageframe_free\<close> counts with a signed \<open>int\<close>: a page count of \<open>2^31\<close> or more frees nothing.\<close>

definition pageframe_free_page :: "u32 \<Rightarrow> 'a pageframe_scheme \<Rightarrow> 'a pageframe_scheme option" where
  "pageframe_free_page page s =
     do { page_status \<leftarrow> pageframe_alloc_get_page page s;
          if page_status = 1 then pageframe_alloc_clear_page page s else Some s }"

definition pageframe_free :: "u32 \<Rightarrow> u32 \<Rightarrow> 'a pageframe_scheme \<Rightarrow> 'a pageframe_scheme option" where
  "pageframe_free phys_addr pages s =
     (if \<not> is_initialized s then Some s
      else let page_no = page_from_addr phys_addr in
        forM [0..<nat (sint pages)] (\<lambda>i. pageframe_free_page (page_no + of_nat i)) s)"

definition pageframe_set_page_from_addr ::
    "u32 \<Rightarrow> u32 \<Rightarrow> 'a pageframe_scheme \<Rightarrow> 'a pageframe_scheme option" where
  "pageframe_set_page_from_addr phys_addr pages s =
     (let page_start = page_from_addr phys_addr in pageframe_alloc_set_pages page_start pages s)"

section \<open>The best-fit scan of a byte\<close>

definition zero_run :: "u8 \<Rightarrow> nat \<Rightarrow> nat \<Rightarrow> bool" where
  "zero_run b p l \<longleftrightarrow> p + l \<le> 8 \<and> (\<forall>k. p \<le> k \<and> k < p + l \<longrightarrow> \<not> bit b k)"

definition max_run :: "u8 \<Rightarrow> nat \<Rightarrow> nat \<Rightarrow> bool" where
  "max_run b p l \<longleftrightarrow> zero_run b p l \<and> (p = 0 \<or> bit b (p - 1)) \<and> (p + l = 8 \<or> bit b (p + l))"

text \<open>
  The invariant of the scan before bit \<open>j\<close>: the current run starts at \<open>st = last_one + 1\<close>, and the
  best fit is a shortest sufficient maximal run among those that end before \<open>st\<close>.
\<close>

definition best_ok :: "u8 \<Rightarrow> nat \<Rightarrow> nat \<Rightarrow> int \<Rightarrow> int \<Rightarrow> bool" where
  "best_ok b n limit len pos \<longleftrightarrow>
     (pos = - 1 \<and> len = 9 \<or> (\<exists>p l. pos = int p \<and> len = int l \<and> max_run b p l \<and> n \<le> l)) \<and>
     (\<forall>p l. max_run b p l \<and> n \<le> l \<and> p + l < limit \<longrightarrow> pos \<noteq> - 1 \<and> len \<le> int l)"

definition cur_ok :: "u8 \<Rightarrow> nat \<Rightarrow> nat \<Rightarrow> bool" where
  "cur_ok b st j \<longleftrightarrow> st \<le> j \<and> (\<forall>k. st \<le> k \<and> k < j \<longrightarrow> \<not> bit b k) \<and> (st = 0 \<or> bit b (st - 1))"

lemma max_runD:
  assumes "max_run b p l"
  shows "p + l \<le> 8" and "p \<le> k \<Longrightarrow> k < p + l \<Longrightarrow> \<not> bit b k"
    and "p = 0 \<or> bit b (p - 1)" and "p + l = 8 \<or> bit b (p + l)"
  using assms by (auto simp: max_run_def zero_run_def)

lemma cur_max_run:
  assumes "cur_ok b st j" and "j \<le> 8" and "j = 8 \<or> bit b j"
  shows "max_run b st (j - st)"
  using assms by (auto simp: cur_ok_def max_run_def zero_run_def)

text \<open>A sufficient maximal run that ends by \<open>j\<close> ends before \<open>st\<close> or is the current run.\<close>

lemma max_run_closes:
  assumes cur: "cur_ok b st j" "j \<le> 8" and run: "max_run b p l" "0 < l" "p + l \<le> j"
  shows "p + l < st \<or> (p = st \<and> l = j - st)"
proof (cases "p + l < st")
  case False
  have z: "\<And>k. st \<le> k \<Longrightarrow> k < j \<Longrightarrow> \<not> bit b k" and st: "st \<le> j" "st = 0 \<or> bit b (st - 1)"
    using cur(1) by (simp_all add: cur_ok_def)
  have "p + l = j"
  proof (rule ccontr)
    assume "p + l \<noteq> j"
    then have "\<not> bit b (p + l)" "p + l \<noteq> 8"
      using run(3) False cur z by auto
    then show False using max_runD(4) [OF run(1)] by simp
  qed
  moreover have "\<not> st < p"
  proof
    assume "st < p"
    then have "\<not> bit b (p - 1)"
      using \<open>p + l = j\<close> run by (intro z) auto
    then show False using max_runD(3) [OF run(1)] \<open>st < p\<close> by simp
  qed
  moreover have "\<not> p < st"
  proof
    assume "p < st"
    then have "\<not> bit b (st - 1)"
      using \<open>p + l = j\<close> st by (intro max_runD(2) [OF run(1)]) auto
    then show False using st \<open>p < st\<close> by simp
  qed
  ultimately show ?thesis by simp
qed simp

text \<open>Closing the current run at \<open>j\<close> (a set bit, or the end of the byte) updates the best fit.\<close>

lemma bestfit_update_ok:
  assumes cur: "cur_ok b st j" "j \<le> 8" "j = 8 \<or> bit b j" and n: "0 < n" "sint pages = int n"
    and best: "best_ok b n st len pos"
    and upd: "bestfit_update pages (len, pos, int (j - st), int st - 1) = (len', pos', c', lo')"
  shows "best_ok b n (Suc j) len' pos' \<and> c' = int (j - st) \<and> lo' = int st - 1"
proof -
  have close: "p + l < st \<or> (p = st \<and> l = j - st)"
    if "max_run b p l \<and> n \<le> l \<and> p + l < Suc j" for p l
    using max_run_closes [OF cur(1,2)] that n by auto
  have old: "pos \<noteq> - 1 \<and> len \<le> int l" if "max_run b p l \<and> n \<le> l \<and> p + l < st" for p l
    using best that by (auto simp: best_ok_def)
  show ?thesis
  proof (cases "len > int (j - st) \<and> int (j - st) \<ge> int n")
    case True
    then have "len' = int (j - st)" "pos' = int st" "c' = int (j - st)" "lo' = int st - 1"
      using upd n by (auto simp: bestfit_update_def)
    moreover have "int (j - st) \<le> int l" if "max_run b p l \<and> n \<le> l \<and> p + l < Suc j" for p l
      using close [OF that] old [of p l] that True by auto
    then have "best_ok b n (Suc j) (int (j - st)) (int st)"
      unfolding best_ok_def using cur_max_run [OF cur] True by fastforce
    ultimately show ?thesis by simp
  next
    case False
    then have "len' = len" "pos' = pos" "c' = int (j - st)" "lo' = int st - 1"
      using upd n by (auto simp: bestfit_update_def split: if_splits)
    moreover have "pos \<noteq> - 1 \<and> len \<le> int l" if "max_run b p l \<and> n \<le> l \<and> p + l < Suc j" for p l
    proof (cases "p + l < st")
      case True
      then show ?thesis using old that by blast
    next
      case False
      then have "l = j - st" using close [OF that] by simp
      with that \<open>\<not> (len > int (j - st) \<and> int (j - st) \<ge> int n)\<close> have "len \<le> int l" by auto
      moreover have "l \<le> 8" using that max_runD(1) [of b p l] by simp
      ultimately show ?thesis using best by (auto simp: best_ok_def)
    qed
    then have "best_ok b n (Suc j) len pos"
      using best unfolding best_ok_def by blast
    ultimately show ?thesis by simp
  qed
qed

definition fit_inv :: "u8 \<Rightarrow> nat \<Rightarrow> nat \<Rightarrow> fit \<Rightarrow> bool" where
  "fit_inv b n j = (\<lambda>(len, pos, cur, lo).
     \<exists>st. cur_ok b st j \<and> cur = int (j - st) \<and> lo = int st - 1 \<and> best_ok b n st len pos)"

lemma fit_inv_init: "0 < n \<Longrightarrow> fit_inv b n 0 (9, - 1, 0, - 1)"
  by (auto simp: fit_inv_def cur_ok_def best_ok_def)

lemma cur_ok_extend: "cur_ok b st j \<Longrightarrow> \<not> bit b j \<Longrightarrow> cur_ok b st (Suc j)"
  by (auto simp: cur_ok_def less_Suc_eq)

lemma bestfit_bit_zero:
  "j < 8 \<Longrightarrow> \<not> bit b j \<Longrightarrow> bestfit_bit b pages j (len, pos, cur, lo) =
     (if j = 7 then bestfit_update pages (len, pos, cur + 1, lo) else (len, pos, cur + 1, lo))"
  by (simp add: bestfit_bit_def and_exp_eq_0_iff_not_bit)

lemma bestfit_bit_set:
  assumes inv: "fit_inv b n j f" and j: "j < 8" "bit b j" and n: "0 < n" "sint pages = int n"
  shows "fit_inv b n (Suc j) (bestfit_bit b pages j f)"
proof -
  obtain len pos st where f: "f = (len, pos, int (j - st), int st - 1)"
    and cur: "cur_ok b st j" and best: "best_ok b n st len pos"
    using inv by (cases f) (auto simp: fit_inv_def)
  obtain len' pos' c' lo' where
    upd: "bestfit_update pages (len, pos, int (j - st), int st - 1) = (len', pos', c', lo')"
    by (metis prod_cases4)
  have "best_ok b n (Suc j) len' pos'"
    using bestfit_update_ok [OF cur _ _ n best upd] j by simp
  moreover have "bestfit_bit b pages j f = (len', pos', 0, int j)"
    using upd j by (simp add: f bestfit_bit_def and_exp_eq_0_iff_not_bit)
  ultimately show ?thesis
    using j by (auto simp: fit_inv_def cur_ok_def)
qed

lemma bestfit_bit_clear:
  assumes inv: "fit_inv b n j f" and j: "j < 7" "\<not> bit b j"
  shows "fit_inv b n (Suc j) (bestfit_bit b pages j f)"
proof -
  obtain len pos st where f: "f = (len, pos, int (j - st), int st - 1)"
    and cur: "cur_ok b st j" and best: "best_ok b n st len pos"
    using inv by (cases f) (auto simp: fit_inv_def)
  then have "bestfit_bit b pages j f = (len, pos, int (Suc j - st), int st - 1)"
    using j by (auto simp: bestfit_bit_zero cur_ok_def Suc_diff_le)
  then show ?thesis
    using cur_ok_extend [OF cur j(2)] best by (auto simp: fit_inv_def)
qed

lemma bestfit_bit_inv:
  assumes "fit_inv b n j f" "j < 7" "0 < n" "sint pages = int n"
  shows "fit_inv b n (Suc j) (bestfit_bit b pages j f)"
  using assms bestfit_bit_set [of b n j f pages] bestfit_bit_clear [of b n j f pages]
  by (cases "bit b j") auto

lemma bestfit_last_bit:
  assumes inv: "fit_inv b n 7 f" and n: "0 < n" "sint pages = int n"
    and res: "bestfit_bit b pages 7 f = (len', pos', c', lo')"
  shows "best_ok b n 9 len' pos'"
proof (cases "bit b 7")
  case True
  then obtain st where st: "cur_ok b st 8" "best_ok b n st len' pos'"
    using bestfit_bit_set [OF inv _ True n] res by (auto simp: fit_inv_def)
  have "\<not> st \<le> 7"
    using st(1) True by (auto simp: cur_ok_def)
  then have "st = 8"
    using st(1) by (simp add: cur_ok_def)
  with st have "best_ok b n 8 len' pos'" by simp
  moreover have "p + l < 8" if "max_run b p l" "n \<le> l" for p l
    using True max_runD(1) [OF that(1)] max_runD(2) [OF that(1), of 7] that n
    by (cases "p + l = 8") auto
  ultimately show ?thesis unfolding best_ok_def by blast
next
  case False
  obtain len pos st where f: "f = (len, pos, int (7 - st), int st - 1)"
    and cur: "cur_ok b st 7" and best: "best_ok b n st len pos"
    using inv by (cases f) (auto simp: fit_inv_def)
  have "cur_ok b st 8"
    using cur_ok_extend [OF cur False] by simp
  moreover have "bestfit_update pages (len, pos, int (8 - st), int st - 1) = (len', pos', c', lo')"
    using res False cur by (simp add: f bestfit_bit_zero cur_ok_def of_nat_diff)
  ultimately show ?thesis
    using bestfit_update_ok [of b st 8 n pages len pos] n best by simp
qed

lemma fold_upt_inv:
  assumes "I a s" and "\<And>j s. a \<le> j \<Longrightarrow> j < b \<Longrightarrow> I j s \<Longrightarrow> I (Suc j) (f j s)" and "a \<le> b"
  shows "I b (fold f [a..<b] s)"
  using assms(3,2,1)
proof (induction b rule: dec_induct)
  case (step m)
  then show ?case by simp
qed simp

text \<open>
  The scan of a byte: the result is -1 exactly when no sufficient run exists, and otherwise the
  start of a shortest sufficient maximal run.
\<close>

lemma bestfit_byte_ok:
  assumes n: "0 < n" "sint pages = int n"
  shows "\<exists>len. best_ok b n 9 len (bestfit_byte b pages)"
proof -
  let ?f = "fold (bestfit_bit b pages) [0..<7] (9, - 1, 0, - 1)"
  have "fit_inv b n 7 ?f"
    using fit_inv_init [OF n(1)] bestfit_bit_inv n by (intro fold_upt_inv [where I = "fit_inv b n"]) auto
  moreover have "[0..<8] = [0..<7] @ [7]"
    by (simp add: upt_rec)
  then have "fold (bestfit_bit b pages) [0..<8] (9, - 1, 0, - 1) = bestfit_bit b pages 7 ?f"
    by simp
  moreover obtain len pos c lo where "bestfit_bit b pages 7 ?f = (len, pos, c, lo)"
    by (metis prod_cases4)
  ultimately show ?thesis
    using bestfit_last_bit [of b n ?f pages len pos c lo] n by (auto simp: bestfit_byte_def)
qed

section \<open>The abstraction: the set of allocated frames\<close>

definition allocated :: "'a pageframe_scheme \<Rightarrow> nat set" where
  "allocated s = bitmap_bits (pageframe_bitmap s)"

text \<open>
  The well-formed states: the map has one bit for each of the frames (so their number is a
  multiple of eight) and every frame address fits in 32 bits.
\<close>

definition pf_wf :: "'a pageframe_scheme \<Rightarrow> bool" where
  "pf_wf s \<longleftrightarrow> is_initialized s \<and>
     (\<exists>bs. pageframe_bitmap s = Ptr bs \<and> 8 * length bs = unat (pages_total_phys s)) \<and>
     unat (pages_total_phys s) \<le> 2 ^ 20"

definition free_range :: "'a pageframe_scheme \<Rightarrow> nat \<Rightarrow> nat \<Rightarrow> bool" where
  "free_range s p n \<longleftrightarrow> p + n \<le> unat (pages_total_phys s) \<and> {p..<p + n} \<inter> allocated s = {}"

text \<open>\<open>takes s p n s'\<close>: \<open>s'\<close> is \<open>s\<close> with the free range of \<open>n\<close> frames at \<open>p\<close> allocated.\<close>

definition takes :: "'a pageframe_scheme \<Rightarrow> nat \<Rightarrow> nat \<Rightarrow> 'a pageframe_scheme \<Rightarrow> bool" where
  "takes s p n s' \<longleftrightarrow> free_range s p n \<and> pf_wf s' \<and>
     allocated s' = allocated s \<union> {p..<p + n} \<and>
     (\<exists>b. s' = s\<lparr>pageframe_bitmap := b\<rparr>)"

lemma bitmap_unchanged: "\<exists>b. s = s\<lparr>pageframe_bitmap := b\<rparr>"
  by (rule exI [of _ "pageframe_bitmap s"]) simp

lemma pf_wf_byte:
  assumes "pf_wf s" and "8 * i < unat (pages_total_phys s)"
  obtains b where "pageframe_bitmap_byte i s = Some b"
    and "\<And>k. k < 8 \<Longrightarrow> bit b k \<longleftrightarrow> 8 * i + k \<in> allocated s"
proof -
  obtain bs where bs: "pageframe_bitmap s = Ptr bs" "8 * length bs = unat (pages_total_phys s)"
    using assms(1) by (auto simp: pf_wf_def)
  then have "i < length bs" using assms(2) by linarith
  then have "8 * i + k < 8 * length bs" if "k < 8" for k
    using that by linarith
  then show thesis
    using bs assms(2)
    by (intro that [of "bs ! i"]) (auto simp: pageframe_bitmap_byte_def allocated_def bits_of_iff)
qed

lemma pf_wf_get_page:
  assumes "pf_wf s" and "unat i < unat (pages_total_phys s)"
  shows "pageframe_alloc_get_page i s = Some (of_bool (unat i \<in> allocated s))"
  using assms by (auto simp: pf_wf_def pageframe_alloc_get_page_def allocated_def)

lemma pf_wf_set_pages:
  assumes wf: "pf_wf s" and range: "unat p + unat n \<le> unat (pages_total_phys s)"
  obtains s' where "pageframe_alloc_set_pages p n s = Some s'" and "pf_wf s'"
    and "allocated s' = allocated s \<union> {unat p..<unat p + unat n}"
    and "\<exists>b. s' = s\<lparr>pageframe_bitmap := b\<rparr>"
proof -
  obtain bs where bs: "pageframe_bitmap s = Ptr bs" "8 * length bs = unat (pages_total_phys s)"
    using wf by (auto simp: pf_wf_def)
  have "unat p + unat n < 2 ^ 32"
    using range unat_less_32 [of "pages_total_phys s"] by simp
  then obtain bs' where "bitmap_set_bits (Ptr bs) p n = Some (Ptr bs')" "length bs' = length bs"
      "bits_of bs' = bits_of bs \<union> {unat p..<unat p + unat n}"
    using bitmap_set_bits_in [of p n bs] range bs by auto
  with bs wf show thesis
    by (intro that [of "s\<lparr>pageframe_bitmap := Ptr bs'\<rparr>"])
       (auto simp: pageframe_alloc_set_pages_def pf_wf_def allocated_def)
qed

lemma pf_wf_takes:
  assumes "pf_wf s" and "free_range s (unat p) (unat n)"
  obtains s' where "pageframe_alloc_set_pages p n s = Some s'" and "takes s (unat p) (unat n) s'"
proof -
  have "unat p + unat n \<le> unat (pages_total_phys s)"
    using assms(2) by (simp add: free_range_def)
  from pf_wf_set_pages [OF assms(1) this] obtain s' where
      "pageframe_alloc_set_pages p n s = Some s'" "pf_wf s'"
      "allocated s' = allocated s \<union> {unat p..<unat p + unat n}"
      "\<exists>b. s' = s\<lparr>pageframe_bitmap := b\<rparr>"
    by blast
  with assms(2) show thesis
    by (intro that [of s']) (auto simp: takes_def)
qed

lemma addr_from_page:
  "unat p < 2 ^ 20 \<Longrightarrow> unat (pageframe_addr_from_page p) = 4096 * unat p"
  by (simp add: pageframe_addr_from_page_def unat_word_ariths)

lemma page_from_addr_of_page: "unat p < 2 ^ 20 \<Longrightarrow> page_from_addr (pageframe_addr_from_page p) = p"
  by (simp add: page_from_addr_def addr_from_page unat_div flip: unat_eq_iff)

section \<open>Best fit over the whole map\<close>

text \<open>A run of \<open>n\<close> free frames inside the \<open>i\<close>-th byte of the map.\<close>

definition byte_fits :: "'a pageframe_scheme \<Rightarrow> nat \<Rightarrow> nat \<Rightarrow> bool" where
  "byte_fits s n i \<longleftrightarrow> (\<exists>k. k + n \<le> 8 \<and> free_range s (8 * i + k) n)"

lemma range_shift:
  "{a + k..<a + k + n} \<inter> A = {} \<longleftrightarrow> (\<forall>m. k \<le> m \<and> m < k + n \<longrightarrow> a + m \<notin> (A :: nat set))"
proof (intro iffI equals0I allI impI)
  fix m assume "{a + k..<a + k + n} \<inter> A = {}" and "k \<le> m \<and> m < k + n"
  moreover from this have "a + m \<in> {a + k..<a + k + n}" by simp
  ultimately show "a + m \<notin> A" by blast
next
  fix x assume A: "\<forall>m. k \<le> m \<and> m < k + n \<longrightarrow> a + m \<notin> A" and x: "x \<in> {a + k..<a + k + n} \<inter> A"
  then have "k \<le> x - a \<and> x - a < k + n" "a + (x - a) = x" by auto
  with A x show False by (metis Int_iff)
qed

lemma byte_fits_zero_run:
  assumes "\<And>k. k < 8 \<Longrightarrow> bit b k \<longleftrightarrow> 8 * i + k \<in> allocated s"
    and "8 * i + 8 \<le> unat (pages_total_phys s)"
  shows "k + n \<le> 8 \<and> free_range s (8 * i + k) n \<longleftrightarrow> zero_run b k n"
  using assms by (auto simp: free_range_def zero_run_def range_shift)

lemma zero_run_left:
  assumes "zero_run b p l" "p \<noteq> 0" "\<not> bit b (p - 1)"
  shows "zero_run b (p - 1) (Suc l)"
proof -
  have "\<not> bit b k" if "p - 1 \<le> k" "k < p - 1 + Suc l" for k
    using assms that by (cases "k = p - 1") (auto simp: zero_run_def)
  then show ?thesis
    using assms by (auto simp: zero_run_def)
qed

lemma zero_run_right:
  "zero_run b p l \<Longrightarrow> p + l \<noteq> 8 \<Longrightarrow> \<not> bit b (p + l) \<Longrightarrow> zero_run b p (Suc l)"
  by (auto simp: zero_run_def less_Suc_eq)

lemma zero_run_extends:
  "zero_run b p l \<Longrightarrow> \<exists>q m. max_run b q m \<and> l \<le> m"
proof (induction "8 - l" arbitrary: p l rule: less_induct)
  case less
  have step: "\<exists>q m. max_run b q m \<and> l \<le> m" if "zero_run b q (Suc l)" for q
    using less.hyps [of "Suc l" q] that less.prems Suc_leD by (fastforce simp: zero_run_def)
  show ?case
  proof (cases "max_run b p l")
    case False
    then have "zero_run b (p - 1) (Suc l) \<or> zero_run b p (Suc l)"
      using less.prems zero_run_left [of b p l] zero_run_right [of b p l]
      by (auto simp: max_run_def)
    with step show ?thesis by blast
  qed blast
qed

lemma bestfit_byte_fits:
  assumes byte: "\<And>k. k < 8 \<Longrightarrow> bit b k \<longleftrightarrow> 8 * i + k \<in> allocated s"
    and i: "8 * i + 8 \<le> unat (pages_total_phys s)" and n: "0 < n" "sint pages = int n"
  shows "bestfit_byte b pages \<ge> 0 \<longleftrightarrow> byte_fits s n i"
    and "bestfit_byte b pages = int k \<Longrightarrow> free_range s (8 * i + k) n \<and> k + n \<le> 8"
proof -
  obtain len where ok: "best_ok b n 9 len (bestfit_byte b pages)"
    using bestfit_byte_ok [OF n] by blast
  note eq = byte_fits_zero_run [OF byte i]
  show 2: "free_range s (8 * i + k) n \<and> k + n \<le> 8" if k: "bestfit_byte b pages = int k" for k
  proof -
    obtain l where "max_run b k l" "n \<le> l"
      using ok k by (auto simp: best_ok_def)
    then have "zero_run b k n" by (auto simp: max_run_def zero_run_def)
    then show ?thesis using eq by blast
  qed
  show "bestfit_byte b pages \<ge> 0 \<longleftrightarrow> byte_fits s n i"
  proof
    assume "bestfit_byte b pages \<ge> 0"
    then show "byte_fits s n i"
      using 2 [of "nat (bestfit_byte b pages)"] by (auto simp: byte_fits_def)
  next
    assume "byte_fits s n i"
    then obtain k where "zero_run b k n" using eq by (auto simp: byte_fits_def)
    then obtain q m where "max_run b q m" "n \<le> m"
      using zero_run_extends n by blast
    then have "bestfit_byte b pages \<noteq> - 1"
      using ok max_runD(1) [of b q m] unfolding best_ok_def
      by (metis less_Suc_eq_le eval_nat_numeral(3) numeral_eq_Suc)
    then show "bestfit_byte b pages \<ge> 0"
      using ok by (auto simp: best_ok_def)
  qed
qed

lemma byte_fits_full:
  assumes "\<And>k. k < 8 \<Longrightarrow> bit (0xff :: u8) k \<longleftrightarrow> 8 * i + k \<in> allocated s"
    and "8 * i + 8 \<le> unat (pages_total_phys s)" and "0 < n"
  shows "\<not> byte_fits s n i"
proof
  assume "byte_fits s n i"
  then obtain k where k: "k + n \<le> 8" "zero_run 0xff k n"
    using byte_fits_zero_run [OF assms(1,2)] by (auto simp: byte_fits_def)
  then have "\<not> bit (0xff :: u8) k" using assms(3) by (auto simp: zero_run_def)
  moreover have "bit (mask 8 :: u8) k" using k assms(3) by (simp add: bit_simps)
  then have "bit (0xff :: u8) k" by (simp add: mask_eq_exp_minus_1)
  ultimately show False by simp
qed

text \<open>The loop over the bytes \<open>is\<close>: it takes a fit in the first byte that has one, else fails.\<close>

lemma bestfit_loop_ok:
  assumes wf: "pf_wf s" and n: "0 < n" "n \<le> 8" "unat pages = n"
    and "is": "\<forall>i\<in>set is. 8 * i + 8 \<le> unat (pages_total_phys s)"
  shows "(\<exists>p s' i. bestfit_loop is pages s = Some (pageframe_addr_from_page p, s') \<and>
           i \<in> set is \<and> unat p div 8 = i \<and> takes s (unat p) n s') \<or>
         (bestfit_loop is pages s = Some (0, s) \<and> (\<forall>i\<in>set is. \<not> byte_fits s n i))"
  using "is"
proof (induction "is")
  case (Cons i "is")
  have sint: "sint pages = int n"
    using n sint_unat_32 [of pages] by simp
  have i: "8 * i + 8 \<le> unat (pages_total_phys s)" using Cons.prems by simp
  obtain b where b: "pageframe_bitmap_byte i s = Some b"
    and byte: "\<And>k. k < 8 \<Longrightarrow> bit b k \<longleftrightarrow> 8 * i + k \<in> allocated s"
    using pf_wf_byte [OF wf, of i] i by auto
  show ?case
  proof (cases "bestfit_byte b pages \<ge> 0 \<and> b \<noteq> 0xff")
    case True
    then obtain k where k: "bestfit_byte b pages = int k" by (metis nonneg_int_cases)
    then have fit: "free_range s (8 * i + k) n" "k + n \<le> 8"
      using bestfit_byte_fits(2) [OF byte i n(1) sint] by auto
    have "8 * i + k < 4294967296"
      using fit i n unat_less_32 [of "pages_total_phys s"] by linarith
    then have "unat (of_nat (8 * i + k) :: u32) = 8 * i + k"
      by (intro unat_of_nat_small) simp
    then have p: "unat (of_nat i * 8 + of_nat k :: u32) = 8 * i + k"
      by (simp add: mult.commute)
    then obtain s' where "pageframe_alloc_set_pages (of_nat i * 8 + of_nat k) pages s = Some s'"
        "takes s (8 * i + k) n s'"
      using pf_wf_takes [OF wf, of "of_nat i * 8 + of_nat k" pages] fit n by auto
    then show ?thesis
      using True b k p fit n by (intro disjI1 exI [of _ "of_nat i * 8 + of_nat k"]) auto
  next
    case False
    then have "\<not> byte_fits s n i"
      using bestfit_byte_fits(1) [OF byte i n(1) sint] byte_fits_full [OF _ i n(1)] byte by metis
    moreover have "bestfit_loop (i # is) pages s = bestfit_loop is pages s"
      using False b by (simp add: Let_def)
    ultimately show ?thesis
      using Cons by auto
  qed
qed simp

section \<open>First fit\<close>

text \<open>The skipped bytes are full, and the scan starts at the first byte that is not.\<close>

lemma firstfit_skip_ok:
  assumes "pf_wf s" and "a \<le> b" and "8 * b \<le> unat (pages_total_phys s)"
    and "unat p = 8 * a" and "{..<8 * a} \<subseteq> allocated s"
  shows "\<exists>q. firstfit_skip [a..<b] p s = Some q \<and> unat q \<le> 8 * b \<and> {..<unat q} \<subseteq> allocated s"
  using assms(2-)
proof (induction "b - a" arbitrary: a p)
  case 0
  then show ?case by simp
next
  case (Suc d)
  then have upt: "[a..<b] = a # [Suc a..<b]" by (simp add: upt_conv_Cons)
  have a: "8 * a < unat (pages_total_phys s)"
    using Suc.hyps(2) Suc.prems(2) by linarith
  obtain byte where b: "pageframe_bitmap_byte a s = Some byte"
    and bits: "\<And>k. k < 8 \<Longrightarrow> bit byte k \<longleftrightarrow> 8 * a + k \<in> allocated s"
    using pf_wf_byte [OF assms(1) a] by blast
  show ?case
  proof (cases "byte = 0xff")
    case True
    have "bit (mask 8 :: u8) k" if "k < 8" for k using that by (simp add: bit_simps)
    then have full: "8 * a + k \<in> allocated s" if "k < 8" for k
      using bits [OF that] True that by (simp add: mask_eq_exp_minus_1)
    have "x \<in> allocated s" if "x < 8 * Suc a" for x
      using that Suc.prems(4) full [of "x - 8 * a"] by (cases "x < 8 * a") auto
    then have 1: "{..<8 * Suc a} \<subseteq> allocated s" by auto
    have 2: "unat (p + 8) = 8 * Suc a"
      using Suc.prems Suc.hyps(2) unat_less_32 [of "pages_total_phys s"]
      by (subst unat_add_less) auto
    show ?thesis
      using Suc.hyps(1) [of "Suc a" "p + 8"] Suc.hyps(2) Suc.prems 1 2 upt b True by auto
  next
    case False
    then show ?thesis using Suc upt b by auto
  qed
qed

text \<open>
  The search: before frame \<open>i\<close> the current run is \<open>[page_no, i)\<close>, all free, and no sufficient run
  starts below \<open>page_no\<close>.
\<close>

lemma firstfit_loop_ok:
  assumes wf: "pf_wf s" and n: "0 < unat pages"
    and i: "unat i = unat page_no + unat cur_len" "unat i \<le> unat (pages_total_phys s)"
    and run: "{unat page_no..<unat i} \<inter> allocated s = {}" "unat cur_len < unat pages"
    and first: "\<forall>q<unat page_no. \<not> free_range s q (unat pages)"
  shows "(\<exists>p s'. firstfit_loop i page_no cur_len pages s = Some (pageframe_addr_from_page p, s') \<and>
            takes s (unat p) (unat pages) s' \<and> (\<forall>q<unat p. \<not> free_range s q (unat pages))) \<or>
         (firstfit_loop i page_no cur_len pages s = Some (0, s) \<and>
            (\<forall>q. \<not> free_range s q (unat pages)))"
  using i run first
proof (induction "unat (pages_total_phys s) - unat i" arbitrary: i page_no cur_len)
  case 0
  then have "i = pages_total_phys s" by (simp flip: unat_eq_iff)
  moreover have "\<not> free_range s q (unat pages)" for q
    using 0 n by (cases "q < unat page_no") (auto simp: free_range_def)
  ultimately show ?case
    by (simp add: firstfit_loop.simps [of "pages_total_phys s"])
next
  case (Suc d)
  from Suc.hyps(2) have lt: "i < pages_total_phys s" by (simp add: word_less_nat_alt)
  then have i1: "unat (i + 1) = Suc (unat i)" and c1: "unat (cur_len + 1) = Suc (unat cur_len)"
    using unat_inc [of cur_len pages] Suc.prems(4) by (auto simp: unat_inc word_less_nat_alt)
  have get: "pageframe_alloc_get_page i s = Some (of_bool (unat i \<in> allocated s))"
    using pf_wf_get_page [OF wf] lt by (simp add: word_less_nat_alt)
  note unfold = firstfit_loop.simps [of i page_no cur_len pages s]
  have d: "d = unat (pages_total_phys s) - unat (i + 1)" "unat (i + 1) \<le> unat (pages_total_phys s)"
    using Suc.hyps(2) i1 lt by (auto simp: word_less_nat_alt)
  show ?case
  proof (cases "unat i \<in> allocated s")
    case True
    have p1: "unat (page_no + cur_len + 1) = Suc (unat i)"
      using i1 Suc.prems(1) by (metis add.commute unat_eq_iff unat_add_less unsigned_less)
    have "\<not> free_range s q (unat pages)" if "q < Suc (unat i)" for q
    proof (cases "q < unat page_no")
      case False
      then have "unat i \<in> {q..<q + unat pages}" using that Suc.prems(1,4) by auto
      then show ?thesis using True by (auto simp: free_range_def)
    qed (use Suc.prems(5) in blast)
    then show ?thesis
      using Suc.hyps(1) [OF d(1), of "page_no + cur_len + 1" 0] d(2) i1 p1 n get lt True unfold by simp
  next
    case False
    have run: "{unat page_no..<Suc (unat i)} \<inter> allocated s = {}"
      using Suc.prems(1,3) False by (auto simp: atLeastLessThanSuc)
    show ?thesis
    proof (cases "cur_len + 1 = pages")
      case True
      then have "free_range s (unat page_no) (unat pages)"
        using run c1 d(2) i1 Suc.prems(1) by (auto simp: free_range_def)
      then obtain s' where "pageframe_alloc_set_pages page_no pages s = Some s'"
          "takes s (unat page_no) (unat pages) s'"
        by (rule pf_wf_takes [OF wf])
      then show ?thesis
        using Suc.prems(5) get lt False unfold True by (intro disjI1 exI [of _ page_no]) simp
    next
      case neq: False
      then have "unat (cur_len + 1) < unat pages"
        using c1 Suc.prems(4) by (metis Suc_lessI unat_eq_iff)
      then show ?thesis
        using Suc.hyps(1) [OF d(1), of page_no "cur_len + 1"] d(2) i1 c1 run Suc.prems
          get lt False unfold neq by simp
    qed
  qed
qed


section \<open>Allocation\<close>

text \<open>The invariant of the initialised allocator: the kernel's 2048 frames are never free.\<close>

definition frame_inv :: "'a pageframe_scheme \<Rightarrow> bool" where
  "frame_inv s \<longleftrightarrow> pf_wf s \<and> {..<2048} \<subseteq> allocated s"

lemma frame_invD: "frame_inv s \<Longrightarrow> pf_wf s" "frame_inv s \<Longrightarrow> is_initialized s"
  by (auto simp: frame_inv_def pf_wf_def)

lemma takes_frame_inv: "frame_inv s \<Longrightarrow> takes s p n s' \<Longrightarrow> frame_inv s'"
  by (auto simp: frame_inv_def takes_def)

lemma free_range_start: "free_range s p n \<Longrightarrow> 0 < n \<Longrightarrow> p \<notin> allocated s"
  using Int_iff by (fastforce simp: free_range_def)

lemma takes_above_reserved: "frame_inv s \<Longrightarrow> takes s p n s' \<Longrightarrow> 0 < n \<Longrightarrow> 2048 \<le> p"
  using free_range_start [of s p n] by (force simp: frame_inv_def takes_def)

lemma takes_small:
  assumes "pf_wf s" "takes s p n s'" "0 < n"
  shows "p < 2 ^ 20" "n \<le> 2 ^ 20" "p + n \<le> unat (pages_total_phys s)"
  using assms by (auto simp: takes_def free_range_def pf_wf_def)

text \<open>When no request of \<open>n\<close> frames can be served, in the sense of the search that serves it.\<close>

definition no_fit :: "'a pageframe_scheme \<Rightarrow> nat \<Rightarrow> bool" where
  "no_fit s n \<longleftrightarrow>
     (if n > 8 then \<forall>q. \<not> free_range s q n
      else \<forall>i < unat (pages_total_phys s) div 8. \<not> byte_fits s n i)"

lemma pageframe_alloc_bestfit_ok:
  assumes wf: "pf_wf s" and n: "0 < unat pages" "unat pages \<le> 8"
  shows "(\<exists>p s'. pageframe_alloc_bestfit pages s = Some (pageframe_addr_from_page p, s') \<and>
            takes s (unat p) (unat pages) s') \<or>
         (pageframe_alloc_bestfit pages s = Some (0, s) \<and> no_fit s (unat pages))"
proof -
  have "\<forall>i\<in>set [0..<unat (pages_total_phys s div 8)]. 8 * i + 8 \<le> unat (pages_total_phys s)"
    by (auto simp: unat_div_8)
  from bestfit_loop_ok [OF wf n refl this] show ?thesis
    using n by (auto simp: pageframe_alloc_bestfit_def no_fit_def unat_div_8)
qed

lemma pageframe_alloc_firstfit_ok:
  assumes wf: "pf_wf s" and n: "8 < unat pages"
  shows "(\<exists>p s'. pageframe_alloc_firstfit pages s = Some (pageframe_addr_from_page p, s') \<and>
            takes s (unat p) (unat pages) s' \<and> (\<forall>q<unat p. \<not> free_range s q (unat pages))) \<or>
         (pageframe_alloc_firstfit pages s = Some (0, s) \<and> no_fit s (unat pages))"
proof -
  obtain q where q: "firstfit_skip [0..<unat (pages_total_phys s div 8)] 0 s = Some q"
      "unat q \<le> 8 * unat (pages_total_phys s div 8)" "{..<unat q} \<subseteq> allocated s"
    using firstfit_skip_ok [OF wf, of 0 "unat (pages_total_phys s div 8)" 0] by (auto simp: unat_div_8)
  have "\<forall>p<unat q. \<not> free_range s p (unat pages)"
    using q(3) n free_range_start [of s _ "unat pages"] by (force simp: subset_iff)
  moreover have "unat q \<le> unat (pages_total_phys s)"
    using q(2) by (simp add: unat_div_8)
  ultimately show ?thesis
    using firstfit_loop_ok [OF wf, of pages q q 0] n q(1)
    by (simp add: pageframe_alloc_firstfit_def no_fit_def)
qed

lemma pageframe_alloc_initialised:
  "is_initialized s \<Longrightarrow> pageframe_alloc pages s =
     (if 8 < unat pages then pageframe_alloc_firstfit pages s else pageframe_alloc_bestfit pages s)"
  by (simp add: pageframe_alloc_def word_less_nat_alt)

lemma pageframe_alloc_cases:
  assumes inv: "frame_inv s" and n: "0 < unat pages"
  obtains
    (taken) p s' where "pageframe_alloc pages s = Some (pageframe_addr_from_page p, s')"
      and "takes s (unat p) (unat pages) s'"
      and "8 < unat pages \<Longrightarrow> \<forall>q<unat p. \<not> free_range s q (unat pages)"
  | (full) "pageframe_alloc pages s = Some (0, s)" and "no_fit s (unat pages)"
  using pageframe_alloc_initialised [OF frame_invD(2) [OF inv], of pages] n
    pageframe_alloc_firstfit_ok [OF frame_invD(1) [OF inv], of pages]
    pageframe_alloc_bestfit_ok [OF frame_invD(1) [OF inv], of pages]
  by (cases "8 < unat pages") auto

section \<open>Freeing\<close>

lemma pf_wf_free_page:
  assumes wf: "pf_wf s" and p: "unat p < unat (pages_total_phys s)"
  obtains s' where "pageframe_free_page p s = Some s'" and "pf_wf s'"
    and "allocated s' = allocated s - {unat p}"
    and "\<exists>b. s' = s\<lparr>pageframe_bitmap := b\<rparr>"
proof -
  obtain bs where bs: "pageframe_bitmap s = Ptr bs" "8 * length bs = unat (pages_total_phys s)"
    using wf by (auto simp: pf_wf_def)
  obtain bs' where bs': "bitmap_clear_bit (Ptr bs) p = Some (Ptr bs')" "length bs' = length bs"
      "bits_of bs' = bits_of bs - {unat p}"
    using bitmap_clear_bit_in [of p bs] p bs by auto
  show thesis
  proof (cases "unat p \<in> allocated s")
    case True
    then show ?thesis
      using pf_wf_get_page [OF wf p] bs bs' wf
      by (intro that [of "s\<lparr>pageframe_bitmap := Ptr bs'\<rparr>"])
         (auto simp: pageframe_free_page_def pageframe_alloc_clear_page_def pf_wf_def allocated_def)
  next
    case False
    then show ?thesis
      using pf_wf_get_page [OF wf p] wf bitmap_unchanged [of s]
      by (intro that [of s]) (simp_all add: pageframe_free_page_def)
  qed
qed

text \<open>\<open>frees s p n s'\<close>: \<open>s'\<close> is \<open>s\<close> with the \<open>n\<close> frames at \<open>p\<close> free.\<close>

definition frees :: "'a pageframe_scheme \<Rightarrow> nat \<Rightarrow> nat \<Rightarrow> 'a pageframe_scheme \<Rightarrow> bool" where
  "frees s p n s' \<longleftrightarrow> pf_wf s' \<and> allocated s' = allocated s - {p..<p + n} \<and>
     (\<exists>b. s' = s\<lparr>pageframe_bitmap := b\<rparr>)"

lemma frees_step:
  assumes t: "frees s p k t" and q: "unat q = p + k" "unat q < unat (pages_total_phys s)"
  shows "\<exists>t'. pageframe_free_page q t = Some t' \<and> frees s p (Suc k) t'"
proof -
  obtain b where b: "t = s\<lparr>pageframe_bitmap := b\<rparr>" "pf_wf t"
      "allocated t = allocated s - {p..<p + k}"
    using t by (auto simp: frees_def)
  have lt: "unat q < unat (pages_total_phys t)" using b(1) q by simp
  obtain t' where t': "pageframe_free_page q t = Some t'" "pf_wf t'"
      "allocated t' = allocated t - {unat q}" "\<exists>b. t' = t\<lparr>pageframe_bitmap := b\<rparr>"
    by (rule pf_wf_free_page [OF b(2) lt])
  have "allocated t' = allocated s - {p..<p + Suc k}"
    unfolding t'(3) b(3) q(1) by auto
  moreover have "\<exists>b. t' = s\<lparr>pageframe_bitmap := b\<rparr>"
    using t'(4) unfolding b(1) by auto
  ultimately show ?thesis
    using t'(1,2) unfolding frees_def by blast
qed

lemma pf_wf_free:
  assumes wf: "pf_wf s" and n: "unat n \<noteq> 0" and p: "unat p + unat n \<le> unat (pages_total_phys s)"
  obtains s' where "pageframe_free (pageframe_addr_from_page p) n s = Some s'"
    and "frees s (unat p) (unat n) s'"
proof -
  have small: "unat (pages_total_phys s) \<le> 1048576" and init: "is_initialized s"
    using wf by (auto simp: pf_wf_def)
  have page: "page_from_addr (pageframe_addr_from_page p) = p"
    using p n small by (intro page_from_addr_of_page) simp
  have "unat n < 2 ^ 31" using p small by simp
  then have count: "nat (sint n) = unat n" by (simp add: sint_unat_32)
  have idx: "unat (p + of_nat k) = unat p + k" if "k < unat n" for k
  proof -
    have "unat (of_nat k :: u32) = k"
      using that unat_less_32 [of n] by (intro unat_of_nat_small) simp
    moreover have "unat p + k < 2 ^ 32" using that p small by simp
    ultimately show ?thesis by (simp add: unat_add_less)
  qed
  have "\<exists>s'. forM [0..<unat n] (\<lambda>i. pageframe_free_page (p + of_nat i)) s = Some s' \<and>
      frees s (unat p) (unat n) s'"
  proof (rule forM_invariant [where I = "frees s (unat p)"])
    show "frees s (unat p) 0 s" using wf bitmap_unchanged [of s] by (simp add: frees_def)
    fix k t assume k: "k < unat n" "frees s (unat p) k t"
    show "\<exists>t'. pageframe_free_page (p + of_nat k) t = Some t' \<and> frees s (unat p) (Suc k) t'"
      using frees_step [OF k(2) idx [OF k(1)]] idx [OF k(1)] k(1) p by simp
  qed simp
  then obtain s' where "forM [0..<unat n] (\<lambda>i. pageframe_free_page (p + of_nat i)) s = Some s'"
      "frees s (unat p) (unat n) s'"
    by blast
  then show thesis
    using init page count by (intro that [of s']) (simp_all add: pageframe_free_def)
qed

section \<open>The interface of the page allocator\<close>

text \<open>
  What the clients of the page allocator rely on: an allocation always returns; it returns \<open>NULL\<close>
  and changes nothing, or the address of a run of frames that were free; freeing a run removes it.
\<close>

locale frame_source =
  fixes falloc :: "u32 \<Rightarrow> 's \<Rightarrow> (u32 \<times> 's) option"
    and ffree :: "u32 \<Rightarrow> u32 \<Rightarrow> 's \<Rightarrow> 's option"
    and inv :: "'s \<Rightarrow> bool"
    and used :: "'s \<Rightarrow> nat set"
    and reserved :: nat
  assumes alloc_returns: "inv s \<Longrightarrow> 0 < unat n \<Longrightarrow> \<exists>r s'. falloc n s = Some (r, s')"
    and alloc_null: "inv s \<Longrightarrow> 0 < unat n \<Longrightarrow> falloc n s = Some (0, s') \<Longrightarrow> s' = s"
    and alloc_run: "inv s \<Longrightarrow> 0 < unat n \<Longrightarrow> falloc n s = Some (r, s') \<Longrightarrow> r \<noteq> 0 \<Longrightarrow>
      \<exists>p. unat r = 4096 * p \<and> reserved \<le> p \<and> {p..<p + unat n} \<inter> used s = {} \<and>
          used s' = used s \<union> {p..<p + unat n} \<and> inv s'"
    and free_run: "inv s \<Longrightarrow> 0 < unat n \<Longrightarrow> unat r = 4096 * p \<Longrightarrow> reserved \<le> p \<Longrightarrow>
      {p..<p + unat n} \<subseteq> used s \<Longrightarrow>
      \<exists>s'. ffree r n s = Some s' \<and> inv s' \<and> used s' = used s - {p..<p + unat n}"
begin

lemma alloc_inv:
  assumes "inv s" "0 < unat n" "falloc n s = Some (r, s')"
  shows "inv s'"
  using alloc_null [OF assms(1,2)] alloc_run [OF assms] assms by (cases "r = 0") auto

text \<open>Two live runs never overlap.\<close>

lemma alloc_twice_disjoint:
  assumes s: "inv s" "0 < unat n" "falloc n s = Some (r, s')" "r \<noteq> 0"
    and s': "0 < unat m" "falloc m s' = Some (q, s'')" "q \<noteq> 0"
  shows "{unat r div 4096..<unat r div 4096 + unat n} \<inter>
         {unat q div 4096..<unat q div 4096 + unat m} = {}"
proof -
  obtain p where p: "unat r = 4096 * p" "used s' = used s \<union> {p..<p + unat n}"
    using alloc_run [OF s] by auto
  obtain p' where p': "unat q = 4096 * p'" "{p'..<p' + unat m} \<inter> used s' = {}"
    using alloc_run [OF alloc_inv [OF s(1-3)] s'] by auto
  have "{p..<p + unat n} \<inter> {p'..<p' + unat m} = {}"
    using p(2) p'(2) by blast
  then show ?thesis unfolding p(1) p'(1) by simp
qed

text \<open>Freeing what an allocation returned restores the set of used frames.\<close>

lemma alloc_free:
  assumes "inv s" "0 < unat n" "falloc n s = Some (r, s')" "r \<noteq> 0"
  shows "\<exists>s''. ffree r n s' = Some s'' \<and> used s'' = used s \<and> inv s''"
proof -
  obtain p where p: "unat r = 4096 * p" "reserved \<le> p" "{p..<p + unat n} \<inter> used s = {}"
      "used s' = used s \<union> {p..<p + unat n}" "inv s'"
    using alloc_run [OF assms] by auto
  then obtain s'' where "ffree r n s' = Some s''" "inv s''" "used s'' = used s' - {p..<p + unat n}"
    using free_run [OF p(5) assms(2) p(1,2)] by auto
  with p show ?thesis by auto
qed

end

lemma frame_inv_alloc:
  assumes "frame_inv s" "0 < unat n" "pageframe_alloc n s = Some (r, s')" "r \<noteq> 0"
  obtains p where "unat r = 4096 * unat p" "r = pageframe_addr_from_page p"
    "2048 \<le> unat p" "takes s (unat p) (unat n) s'" "frame_inv s'"
  using assms(1,2)
proof (cases rule: pageframe_alloc_cases)
  case (taken p t)
  then have eq: "r = pageframe_addr_from_page p" "t = s'" using assms(3) by auto
  have "unat p < 2 ^ 20"
    using takes_small(1) [OF frame_invD(1) [OF assms(1)] taken(2) assms(2)] .
  then show ?thesis
    using that [of p] eq taken(2) takes_above_reserved [OF assms(1) taken(2) assms(2)]
      takes_frame_inv [OF assms(1) taken(2)] by (simp add: addr_from_page)
qed (use assms in simp)

lemma frame_inv_alloc_null:
  assumes "frame_inv s" "0 < unat n" "pageframe_alloc n s = Some (0, s')"
  shows "s' = s \<and> no_fit s (unat n)"
  using assms(1,2)
proof (cases rule: pageframe_alloc_cases)
  case (taken p t)
  then have "pageframe_addr_from_page p = 0" using assms(3) by simp
  then have "unat p = 0"
    using addr_from_page [OF takes_small(1) [OF frame_invD(1) [OF assms(1)] taken(2) assms(2)]]
    by simp
  then show ?thesis
    using takes_above_reserved [OF assms(1) taken(2) assms(2)] by simp
qed (use assms in simp)

lemma allocated_bounded: "pf_wf s \<Longrightarrow> x \<in> allocated s \<Longrightarrow> x < unat (pages_total_phys s)"
  by (auto simp: pf_wf_def allocated_def dest!: bits_of_bounded)

lemma frame_inv_free:
  assumes inv: "frame_inv s" and n: "0 < unat n" and r: "unat r = 4096 * p" "2048 \<le> p"
    and used: "{p..<p + unat n} \<subseteq> allocated s"
  obtains s' where "pageframe_free r n s = Some s'" "frees s p (unat n) s'" "frame_inv s'"
proof -
  note wf = frame_invD(1) [OF inv]
  have "p + unat n - 1 \<in> allocated s" using used n by auto
  then have le: "p + unat n \<le> unat (pages_total_phys s)"
    using allocated_bounded [OF wf] n by fastforce
  have p: "unat (of_nat p :: u32) = p" "p < 2 ^ 20"
    using r(1) unat_less_32 [of r] by (auto intro!: unat_of_nat_small)
  then have "r = pageframe_addr_from_page (of_nat p)"
    using r(1) addr_from_page [of "of_nat p"] by (metis unat_eq_iff)
  then obtain s' where s': "pageframe_free r n s = Some s'" "frees s p (unat n) s'"
    using pf_wf_free [OF wf, of n "of_nat p"] le n p(1) by auto
  then have "frame_inv s'"
    using inv r(2) by (auto simp: frame_inv_def frees_def)
  with s' that show thesis by blast
qed

interpretation pf: frame_source pageframe_alloc pageframe_free frame_inv allocated 2048
proof unfold_locales
  fix s :: "'a pageframe_scheme" and n :: u32
  assume "frame_inv s" "0 < unat n"
  then show "\<exists>r s'. pageframe_alloc n s = Some (r, s')"
    by (rule pageframe_alloc_cases) blast+
next
  fix s s' :: "'a pageframe_scheme" and n :: u32
  assume "frame_inv s" "0 < unat n" "pageframe_alloc n s = Some (0, s')"
  then show "s' = s" by (simp add: frame_inv_alloc_null)
next
  fix s s' :: "'a pageframe_scheme" and n r :: u32
  assume "frame_inv s" "0 < unat n" "pageframe_alloc n s = Some (r, s')" "r \<noteq> 0"
  then show "\<exists>p. unat r = 4096 * p \<and> 2048 \<le> p \<and> {p..<p + unat n} \<inter> allocated s = {} \<and>
      allocated s' = allocated s \<union> {p..<p + unat n} \<and> frame_inv s'"
    by (rule frame_inv_alloc) (auto simp: takes_def free_range_def)
next
  fix s :: "'a pageframe_scheme" and n r :: u32 and p
  assume "frame_inv s" "0 < unat n" "unat r = 4096 * p" "2048 \<le> p" "{p..<p + unat n} \<subseteq> allocated s"
  then show "\<exists>s'. pageframe_free r n s = Some s' \<and> frame_inv s' \<and>
      allocated s' = allocated s - {p..<p + unat n}"
    by (rule frame_inv_free) (auto simp: frees_def)
qed

section \<open>Initialisation\<close>

lemma pf_set_page:
  assumes "pageframe_bitmap s = Ptr bs" and "unat p < 8 * length bs"
  shows "\<exists>bs'. pageframe_alloc_set_page p s = Some (s\<lparr>pageframe_bitmap := Ptr bs'\<rparr>) \<and>
     length bs' = length bs \<and> bits_of bs' = insert (unat p) (bits_of bs)"
  using bitmap_set_bit_in [OF assms(2)] assms(1) by (auto simp: pageframe_alloc_set_page_def)

lemma reserve_pages:
  assumes "pageframe_bitmap s = Ptr bs" and "n \<le> 8 * length bs" and "n < 2 ^ 32"
  shows "\<exists>bs'. forM [0..<n] (\<lambda>i. pageframe_alloc_set_page (of_nat i)) s =
       Some (s\<lparr>pageframe_bitmap := Ptr bs'\<rparr>) \<and>
     length bs' = length bs \<and> bits_of bs' = bits_of bs \<union> {..<n}"
proof -
  let ?I = "\<lambda>k t. \<exists>bs'. t = s\<lparr>pageframe_bitmap := Ptr bs'\<rparr> \<and> length bs' = length bs \<and>
     bits_of bs' = bits_of bs \<union> {..<k}"
  have "\<exists>t. forM [0..<n] (\<lambda>i. pageframe_alloc_set_page (of_nat i)) s = Some t \<and> ?I n t"
  proof (rule forM_invariant [where I = ?I])
    have "s = s\<lparr>pageframe_bitmap := Ptr bs\<rparr>" using assms(1) by simp
    then show "?I 0 s" by auto
  next
    fix k t assume k: "k < n" and "?I k t"
    then obtain bs' where t: "t = s\<lparr>pageframe_bitmap := Ptr bs'\<rparr>" "length bs' = length bs"
        "bits_of bs' = bits_of bs \<union> {..<k}" by blast
    have "unat (of_nat k :: u32) = k" using k assms(3) by (intro unat_of_nat_small) simp
    then show "\<exists>t'. pageframe_alloc_set_page (of_nat k) t = Some t' \<and> ?I (Suc k) t'"
      using pf_set_page [of t bs' "of_nat k"] t k assms(2) by (auto simp: lessThan_Suc)
  qed simp
  then show ?thesis by auto
qed

text \<open>A page past the end of the map cannot be reserved: the loop leaves the map.\<close>

lemma reserve_pages_faults:
  assumes "pageframe_bitmap s = Ptr bs" and "8 * length bs < n" and "n < 2 ^ 32"
  shows "forM [0..<n] (\<lambda>i. pageframe_alloc_set_page (of_nat i)) s = None"
proof -
  let ?k = "8 * length bs"
  let ?body = "\<lambda>i. pageframe_alloc_set_page (of_nat i :: u32)"
  have split: "[0..<n] = [0..<?k] @ ?k # [Suc ?k..<n]"
    using assms(2) upt_add_eq_append [of 0 ?k "n - ?k"] by (simp add: upt_conv_Cons)
  obtain bs' where bs': "forM [0..<?k] ?body s = Some (s\<lparr>pageframe_bitmap := Ptr bs'\<rparr>)"
      "length bs' = length bs"
    using reserve_pages [OF assms(1), of ?k] assms(2,3) by auto
  have "unat (of_nat ?k :: u32) = ?k" using assms by (intro unat_of_nat_small) simp
  then have "?body ?k (s\<lparr>pageframe_bitmap := Ptr bs'\<rparr>) = None"
    using bs'(2) by (simp add: pageframe_alloc_set_page_def bitmap_set_bit_def Let_def unat_div_8)
  then show ?thesis
    using bs'(1) unfolding split by (simp del: of_nat_mult)
qed

text \<open>
  The machines the initialisation is written for: the memory size in KiB fits the multiplication,
  is a multiple of 32 KiB, and the kernel heap has room for the map.
\<close>

definition pf_init_pre :: "'a pageframe_scheme \<Rightarrow> bool" where
  "pf_init_pre s \<longleftrightarrow> unat (phys_mem_upper s) * 1024 < 2 ^ 32 \<and> unat (phys_mem_upper s) mod 32 = 0 \<and>
     unat (heap_cur s) + 4096 + unat (phys_mem_upper s) div 32 < 2 ^ 32"

lemma pf_init_frames:
  assumes "pf_init_pre s"
  shows "unat ((phys_mem_upper s * 1024) div 4096) = unat (phys_mem_upper s) div 4"
    and "unat ((phys_mem_upper s * 1024) div 4096 div 8) = unat (phys_mem_upper s) div 32"
proof -
  have "unat (phys_mem_upper s * 1024) = unat (phys_mem_upper s) * 1024"
    using assms by (simp add: pf_init_pre_def unat_mult_less)
  then show *: "unat ((phys_mem_upper s * 1024) div 4096) = unat (phys_mem_upper s) div 4"
    by (simp add: unat_div)
  then show "unat ((phys_mem_upper s * 1024) div 4096 div 8) = unat (phys_mem_upper s) div 32"
    by (simp add: unat_div_8 div_mult2_eq [symmetric])
qed

lemma bits_of_zero [simp]: "bits_of (replicate n 0) = {}"
  by (auto simp: bits_of_iff)

lemma pf_init_unfold:
  assumes pre: "pf_init_pre s"
  obtains c m where
    "pageframe_alloc_init s = do { t \<leftarrow> forM [0..<2048] (\<lambda>i. pageframe_alloc_set_page (of_nat i))
        (s\<lparr>pages_total_phys := (phys_mem_upper s * 1024) div 4096, heap_cur := c, kmem := m,
           pageframe_bitmap := Ptr (replicate (unat (phys_mem_upper s) div 32) 0)\<rparr>);
      Some (t\<lparr>is_initialized := True\<rparr>) }"
proof -
  define n where "n = (phys_mem_upper s * 1024) div 4096"
  have n: "unat (n div 8) = unat (phys_mem_upper s) div 32"
    using pf_init_frames(2) [OF pre] by (simp add: n_def)
  let ?s = "s\<lparr>pages_total_phys := n\<rparr>"
  have "kheap_room (n div 8) 4096 ?s"
    using pre n by (simp add: kheap_room_def pf_init_pre_def)
  then obtain r t where t: "kmalloc_align (n div 8) 4096 ?s = Some (r, t)"
      "t = ?s\<lparr>heap_cur := heap_cur t, kmem := kmem t\<rparr>"
    by (rule kmalloc_align_result)
  obtain c m where "t = ?s\<lparr>heap_cur := c, kmem := m\<rparr>"
    using t(2) by blast
  with t(1) n show thesis
    by (intro that [of m c]) (simp add: pageframe_alloc_init_def Let_def flip: n_def)
qed

lemma pf_init_reserves:
  assumes pre: "pf_init_pre s" and mem: "8192 \<le> unat (phys_mem_upper s)"
  obtains s' where "pageframe_alloc_init s = Some s'" "frame_inv s'" "allocated s' = {..<2048}"
    "unat (pages_total_phys s') = unat (phys_mem_upper s) div 4"
proof -
  let ?bs = "replicate (unat (phys_mem_upper s) div 32) 0 :: bytes"
  from pf_init_unfold [OF pre] obtain c m where init:
    "pageframe_alloc_init s = do { t \<leftarrow> forM [0..<2048] (\<lambda>i. pageframe_alloc_set_page (of_nat i))
        (s\<lparr>pages_total_phys := (phys_mem_upper s * 1024) div 4096, heap_cur := c, kmem := m,
           pageframe_bitmap := Ptr ?bs\<rparr>);
      Some (t\<lparr>is_initialized := True\<rparr>) }" (is "_ = do { t \<leftarrow> forM _ _ ?s; _ t }") .
  obtain bs where bs: "forM [0..<2048] (\<lambda>i. pageframe_alloc_set_page (of_nat i)) ?s =
       Some (?s\<lparr>pageframe_bitmap := Ptr bs\<rparr>)"
      "length bs = unat (phys_mem_upper s) div 32" "bits_of bs = {..<2048}"
    using reserve_pages [of ?s ?bs 2048] div_le_mono [OF mem, of 32] by auto
  show thesis
  proof (rule that)
    show "pageframe_alloc_init s = Some (?s\<lparr>pageframe_bitmap := Ptr bs, is_initialized := True\<rparr>)"
      using init bs(1) by simp
    have "unat (phys_mem_upper s) mod 32 = 0" "unat (phys_mem_upper s) div 4 \<le> 2 ^ 20"
      using pre by (auto simp: pf_init_pre_def)
    moreover from this(1) obtain k where "unat (phys_mem_upper s) = 32 * k" by auto
    then have "8 * (unat (phys_mem_upper s) div 32) = unat (phys_mem_upper s) div 4" by simp
    ultimately show "frame_inv (?s\<lparr>pageframe_bitmap := Ptr bs, is_initialized := True\<rparr>)"
      using bs pf_init_frames(1) [OF pre]
      by (auto simp: frame_inv_def pf_wf_def allocated_def)
  qed (use bs pf_init_frames(1) [OF pre] in \<open>simp_all add: allocated_def\<close>)
qed

lemma pf_init_faults:
  assumes pre: "pf_init_pre s" and mem: "unat (phys_mem_upper s) < 8192"
  shows "pageframe_alloc_init s = None"
proof -
  from pf_init_unfold [OF pre] obtain c m where init:
    "pageframe_alloc_init s = do { t \<leftarrow> forM [0..<2048] (\<lambda>i. pageframe_alloc_set_page (of_nat i))
        (s\<lparr>pages_total_phys := (phys_mem_upper s * 1024) div 4096, heap_cur := c, kmem := m,
           pageframe_bitmap := Ptr (replicate (unat (phys_mem_upper s) div 32) 0)\<rparr>);
      Some (t\<lparr>is_initialized := True\<rparr>) }" .
  show ?thesis
    unfolding init using mem by (subst reserve_pages_faults) auto
qed

section \<open>Properties\<close>

text \<open>A state with 2080 frames, the first 2048 of them and two more allocated, for the witnesses.\<close>

definition sample_frames :: "unit pageframe_scheme" where
  "sample_frames = \<lparr>kinfo_of = \<lparr>kernel_start_phys = 0, kernel_start_virtual = 0,
       kernel_end_phys = 0, kernel_end_virtual = 0, is_paging_enabled = 0\<rparr>,
     phys_mem_upper = 8320, heap_cur = 0x200000, kmem = \<lambda>_. 0, is_initialized = True,
     pageframe_bitmap = Ptr (replicate 256 0xff @ [0x11, 0, 0, 0]), pages_total_phys = 2080\<rparr>"

lemma bit_ff: "bit (255 :: int) k \<longleftrightarrow> k < 8"
proof -
  have "bit (mask 8 :: int) k \<longleftrightarrow> k < 8" by (auto simp: bit_mask_iff)
  then show ?thesis by (simp add: mask_eq_exp_minus_1)
qed

lemma sample_frames_inv [simp]: "frame_inv sample_frames"
  by (auto simp: frame_inv_def pf_wf_def sample_frames_def allocated_def bits_of_iff nth_append bit_ff)

text \<open>
  C3. On an initialised allocator a request of one or more pages always returns: either \<open>NULL\<close> with
  the state unchanged, and then no run that the search accepts exists (inside one byte of the map
  for at most eight pages, anywhere for more), or the address of a run of free frames above the
  kernel's reserved area, which become allocated while nothing else changes and the invariant is
  kept; for more than eight pages it is the lowest such run.
\<close>

theorem pageframe_alloc_spec:
  assumes "frame_inv s" and "0 < unat pages"
  shows "\<exists>r s'. pageframe_alloc pages s = Some (r, s') \<and> frame_inv s' \<and>
     (if r = 0 then s' = s \<and> no_fit s (unat pages)
      else \<exists>p. unat r = 4096 * p \<and> 2048 \<le> p \<and> free_range s p (unat pages) \<and>
             allocated s' = allocated s \<union> {p..<p + unat pages} \<and>
             (\<exists>b. s' = s\<lparr>pageframe_bitmap := b\<rparr>) \<and>
             (8 < unat pages \<longrightarrow> (\<forall>q<p. \<not> free_range s q (unat pages))))"
  using assms
proof (cases rule: pageframe_alloc_cases)
  case (taken p s')
  let ?r = "pageframe_addr_from_page p"
  have p: "unat p < 2 ^ 20" "2048 \<le> unat p"
    using takes_small(1) [OF frame_invD(1) [OF assms(1)] taken(2) assms(2)]
      takes_above_reserved [OF assms(1) taken(2) assms(2)] by auto
  then have "unat ?r = 4096 * unat p" by (simp add: addr_from_page)
  moreover from this have "?r \<noteq> 0" using p(2) by auto
  ultimately show ?thesis
    using taken p(2) takes_frame_inv [OF assms(1) taken(2)] unfolding takes_def by auto
qed (use assms in auto)

theorem pageframe_alloc_spec_witness:
  "\<exists>r s'. pageframe_alloc 3 sample_frames = Some (r, s') \<and> frame_inv s'"
  using pageframe_alloc_spec [of sample_frames 3] by auto

text \<open>
  C9. Freeing the pages that an allocation returned restores the state of the allocator exactly.
\<close>

theorem pageframe_free_undoes_alloc:
  assumes "frame_inv s" and "0 < unat pages" and "pageframe_alloc pages s = Some (r, s')" and "r \<noteq> 0"
  shows "pageframe_free r pages s' = Some s"
proof -
  obtain p where p: "unat r = 4096 * unat p" "r = pageframe_addr_from_page p" "2048 \<le> unat p"
      "takes s (unat p) (unat pages) s'" "frame_inv s'"
    by (rule frame_inv_alloc [OF assms])
  then have range: "{unat p..<unat p + unat pages} \<subseteq> allocated s'" by (auto simp: takes_def)
  obtain s'' where s'': "pageframe_free r pages s' = Some s''" "frees s' (unat p) (unat pages) s''"
    using frame_inv_free [OF p(5) assms(2) p(1,3) range] .
  have eq: "allocated s'' = allocated s"
  proof -
    have "allocated s'' = allocated s' - {unat p..<unat p + unat pages}"
      and "allocated s' = allocated s \<union> {unat p..<unat p + unat pages}"
      and "{unat p..<unat p + unat pages} \<inter> allocated s = {}"
      using s''(2) p(4) by (simp_all add: frees_def takes_def free_range_def)
    then show ?thesis by blast
  qed
  obtain b where b: "s'' = s\<lparr>pageframe_bitmap := b\<rparr>"
    using s''(2) p(4) unfolding frees_def takes_def by auto
  obtain bs where bs: "pageframe_bitmap s = Ptr bs" "8 * length bs = unat (pages_total_phys s)"
    using frame_invD(1) [OF assms(1)] by (auto simp: pf_wf_def)
  have "pf_wf s''" using s''(2) by (simp add: frees_def)
  then obtain bs' where bs': "b = Ptr bs'" "8 * length bs' = unat (pages_total_phys s)"
    unfolding b by (auto simp: pf_wf_def)
  have "bs' = bs"
    using eq bs bs' by (intro bits_of_inject) (auto simp: b allocated_def)
  then have "s'' = s"
    using b bs(1) bs'(1) by simp
  with s''(1) show ?thesis by simp
qed

lemma sample_frames_fit: "\<not> no_fit sample_frames 3"
proof -
  have "x \<notin> allocated sample_frames" if "2049 \<le> x" "x < 2052" for x
  proof -
    from that have "x = 2049 \<or> x = 2050 \<or> x = 2051" by arith
    then show ?thesis
      by (elim disjE) (simp_all add: allocated_def bits_of_iff sample_frames_def nth_append bit_numeral_rec)
  qed
  then have "free_range sample_frames (8 * 256 + 1) 3"
    by (auto simp: free_range_def sample_frames_def)
  then have "byte_fits sample_frames 3 256"
    unfolding byte_fits_def by (intro exI [of _ 1]) simp
  moreover have "256 < unat (pages_total_phys sample_frames) div 8"
    by (simp add: sample_frames_def)
  ultimately show ?thesis by (auto simp: no_fit_def)
qed

lemma sample_frames_alloc: "\<exists>r s'. pageframe_alloc 3 sample_frames = Some (r, s') \<and> r \<noteq> 0"
proof -
  obtain r s' where "pageframe_alloc 3 sample_frames = Some (r, s')"
    using pf.alloc_returns [of sample_frames 3] by auto
  then show ?thesis
    using frame_inv_alloc_null [of sample_frames 3 s'] sample_frames_fit by auto
qed

theorem pageframe_free_undoes_alloc_witness:
  "\<exists>r s'. pageframe_alloc 3 sample_frames = Some (r, s') \<and> r \<noteq> 0 \<and>
     pageframe_free r 3 s' = Some sample_frames"
  using sample_frames_alloc pageframe_free_undoes_alloc [of sample_frames 3] by fastforce

text \<open>
  Two runs of frames that are allocated one after the other never overlap.
\<close>

theorem pageframe_alloc_twice_disjoint:
  assumes "frame_inv s" and "0 < unat n" and "pageframe_alloc n s = Some (r, s')" and "r \<noteq> 0"
    and "0 < unat m" and "pageframe_alloc m s' = Some (q, s'')" and "q \<noteq> 0"
  shows "{unat r div 4096..<unat r div 4096 + unat n} \<inter>
         {unat q div 4096..<unat q div 4096 + unat m} = {}"
  by (rule pf.alloc_twice_disjoint [OF assms])

lemma sample_frames_alloc_twice:
  "\<exists>r s' q s''. pageframe_alloc 3 sample_frames = Some (r, s') \<and> r \<noteq> 0 \<and>
     pageframe_alloc 1 s' = Some (q, s'') \<and> q \<noteq> 0"
proof -
  obtain r s' where s': "pageframe_alloc 3 sample_frames = Some (r, s')" "r \<noteq> 0"
    using sample_frames_alloc by blast
  have pre: "frame_inv sample_frames" "0 < unat (3 :: u32)" by simp_all
  obtain p where p: "unat r = 4096 * unat p" "r = pageframe_addr_from_page p" "2048 \<le> unat p"
      "takes sample_frames (unat p) (unat (3 :: u32)) s'" "frame_inv s'"
    by (rule frame_inv_alloc [OF pre s'])
  from p(4) have s'_def: "allocated s' = allocated sample_frames \<union> {unat p..<unat p + 3}"
      "unat (pages_total_phys s') = 2080"
    by (auto simp: takes_def sample_frames_def)
  obtain x where x: "x \<in> {2056, 2060}" "x \<notin> {unat p..<unat p + 3}"
    using that [of 2056] that [of 2060] by (cases "unat p \<le> 2056") auto
  have "x \<notin> allocated sample_frames"
    using x(1) by (auto simp: allocated_def bits_of_iff sample_frames_def nth_append)
  then have "free_range s' x 1"
    using x s'_def by (auto simp: free_range_def)
  then have "byte_fits s' 1 257"
    using x(1) unfolding byte_fits_def by (intro exI [of _ "x - 8 * 257"]) auto
  then have "\<not> no_fit s' 1"
    using s'_def(2) by (auto simp: no_fit_def intro!: exI [of _ 257])
  moreover obtain q s'' where "pageframe_alloc 1 s' = Some (q, s'')"
    using pf.alloc_returns [OF p(5), of 1] by auto
  ultimately show ?thesis
    using frame_inv_alloc_null [OF p(5), of 1 s''] s' by auto
qed

theorem pageframe_alloc_twice_disjoint_witness:
  "\<exists>r s' q s''. pageframe_alloc 3 sample_frames = Some (r, s') \<and> pageframe_alloc 1 s' = Some (q, s'') \<and>
     {unat r div 4096..<unat r div 4096 + 3} \<inter> {unat q div 4096..<unat q div 4096 + 1} = {}"
proof -
  obtain r s' q s'' where
    "pageframe_alloc 3 sample_frames = Some (r, s')" "r \<noteq> 0"
    "pageframe_alloc 1 s' = Some (q, s'')" "q \<noteq> 0"
    using sample_frames_alloc_twice by blast
  with pageframe_alloc_twice_disjoint [of sample_frames 3 r s' 1 q s''] show ?thesis
    by (intro exI [of _ r] exI [of _ s'] exI [of _ q] exI [of _ s'']) simp
qed

text \<open>
  The best-fit scan of a byte of the map: the result is -1 exactly when the byte has no run of
  \<open>n\<close> free bits; otherwise it is the start of a maximal run of free bits of sufficient length, and no
  sufficient maximal run is shorter.
\<close>

theorem bestfit_byte_shortest:
  assumes "0 < unat pages" and "unat pages \<le> 8"
  shows "if \<exists>k. zero_run b k (unat pages)
     then \<exists>p l. bestfit_byte b pages = int p \<and> max_run b p l \<and> unat pages \<le> l \<and>
            (\<forall>q m. max_run b q m \<and> unat pages \<le> m \<longrightarrow> l \<le> m)
     else bestfit_byte b pages = - 1"
proof -
  have sint: "sint pages = int (unat pages)"
    using assms(2) by (intro sint_unat_32) simp
  obtain len where ok: "best_ok b (unat pages) 9 len (bestfit_byte b pages)"
    using bestfit_byte_ok [OF assms(1) sint] by blast
  have lt: "q + m < 9" if "max_run b q m" for q m
    using max_runD(1) [OF that] by simp
  show ?thesis
  proof (cases "\<exists>k. zero_run b k (unat pages)")
    case True
    then obtain q m where "max_run b q m" "unat pages \<le> m"
      using zero_run_extends by blast
    then have "bestfit_byte b pages \<noteq> - 1"
      using ok lt unfolding best_ok_def by blast
    then obtain p l where "bestfit_byte b pages = int p" "len = int l" "max_run b p l" "unat pages \<le> l"
      using ok unfolding best_ok_def by blast
    moreover have "l \<le> m'" if "max_run b q' m' \<and> unat pages \<le> m'" for q' m'
      using ok lt that \<open>len = int l\<close> unfolding best_ok_def by (metis of_nat_le_iff)
    ultimately show ?thesis using True by auto
  next
    case False
    have "zero_run b p (unat pages)" if "max_run b p l \<and> unat pages \<le> l" for p l
      using that by (auto simp: max_run_def zero_run_def)
    with False have "\<not> (max_run b p l \<and> unat pages \<le> l)" for p l by blast
    then show ?thesis using False ok by (auto simp: best_ok_def)
  qed
qed

theorem bestfit_byte_shortest_witness:
  "bestfit_byte 0x11 3 = 1 \<and>
   (\<exists>p l. bestfit_byte 0x11 3 = int p \<and> max_run 0x11 p l \<and> 3 \<le> l \<and>
     (\<forall>q m. max_run 0x11 q m \<and> 3 \<le> m \<longrightarrow> l \<le> m))"
proof -
  have v: "bestfit_byte 0x11 3 = 1" by code_simp
  with bestfit_byte_shortest [of 3 "0x11"] show ?thesis
    by (auto split: if_splits)
qed

text \<open>
  Initialisation on a machine with at least 8 MiB (a multiple of 32 KiB below 4 GiB) returns a
  state in which exactly the first 2048 frames are allocated and the invariant holds; on a machine
  with less, reserving the kernel's frames writes outside the map.
\<close>

theorem pageframe_alloc_init_reserves:
  assumes "pf_init_pre s"
  shows "if 8192 \<le> unat (phys_mem_upper s)
     then \<exists>s'. pageframe_alloc_init s = Some s' \<and> frame_inv s' \<and> allocated s' = {..<2048} \<and>
            unat (pages_total_phys s') = unat (phys_mem_upper s) div 4
     else pageframe_alloc_init s = None"
proof (cases "8192 \<le> unat (phys_mem_upper s)")
  case True
  then show ?thesis using pf_init_reserves [OF assms True] by auto
next
  case False
  then show ?thesis using pf_init_faults [OF assms] by simp
qed

theorem pageframe_alloc_init_reserves_witness:
  "(\<exists>s'. pageframe_alloc_init sample_frames = Some s' \<and> frame_inv s' \<and> allocated s' = {..<2048}) \<and>
   pageframe_alloc_init (sample_frames\<lparr>phys_mem_upper := 4096\<rparr>) = None"
proof -
  have "pf_init_pre sample_frames" "pf_init_pre (sample_frames\<lparr>phys_mem_upper := 4096\<rparr>)"
    by (simp_all add: pf_init_pre_def sample_frames_def)
  from this [THEN pageframe_alloc_init_reserves] show ?thesis
    by (auto simp: sample_frames_def)
qed

end
