(* ===== verification/Locks.thy ===== *)
theory Locks
  imports Prelude
begin

text \<open>
  \<^verbatim>\<open>kernel/utils/atomic.c\<close> and \<^verbatim>\<open>kernel/utils/spinlock.c\<close>: the atomic operations and the spin lock.

  The lock is modelled twice: as functions on the lock and the flags register of one processor,
  which the sequential components call (a lock that is taken makes the caller spin for ever: no
  result), and as a transition system in which any number of processors run \<open>spinlock_lock\<close> and
  \<open>spinlock_unlock\<close> one memory access at a time. The theorems are mutual exclusion for the
  transition system, that a waiting processor gets in once the lock is free, what a processor's
  interrupt flag is after a lock and unlock pair, and how the shared flag field loses it.
\<close>

section \<open>Atomic operations\<close>

text \<open>The operations return the result and the new value of the object.\<close>

definition atomic_compare_exchange :: "u32 \<Rightarrow> u32 \<Rightarrow> u32 \<Rightarrow> bool \<times> u32" where
  "atomic_compare_exchange v expected desired = (if v = expected then (True, desired) else (False, v))"

definition atomic_store :: "u32 \<Rightarrow> u32 \<Rightarrow> u32" where
  "atomic_store v value = 0"

definition atomic_load :: "u32 \<Rightarrow> u32" where
  "atomic_load v = v"

definition atomic_fetch_add :: "u32 \<Rightarrow> u32 \<Rightarrow> u32 \<times> u32" where
  "atomic_fetch_add v n = (v, v + n)"

definition atomic_fetch_sub :: "u32 \<Rightarrow> u32 \<Rightarrow> u32 \<times> u32" where
  "atomic_fetch_sub v n = (v, v - n)"

section \<open>The spin lock on one processor\<close>

record spinlock =
  locked :: u32
  is_irq_enabled_when_locked :: u32

definition CPU_EFLAGS_IF :: u32 where
  "CPU_EFLAGS_IF = 0x200"

definition cli :: "u32 \<Rightarrow> u32" where
  "cli eflags = eflags AND NOT CPU_EFLAGS_IF"

definition sti :: "u32 \<Rightarrow> u32" where
  "sti eflags = eflags OR CPU_EFLAGS_IF"

definition spinlock_init :: "spinlock \<Rightarrow> spinlock" where
  "spinlock_init p = \<lparr>locked = 0, is_irq_enabled_when_locked = 0\<rparr>"

definition spinlock_lock :: "spinlock \<Rightarrow> u32 \<Rightarrow> (spinlock \<times> u32) option" where
  "spinlock_lock p eflags =
     (let p = p\<lparr>is_irq_enabled_when_locked := eflags AND CPU_EFLAGS_IF\<rparr>;
          eflags = (if is_irq_enabled_when_locked p \<noteq> 0 then cli eflags else eflags);
          (ok, v) = atomic_compare_exchange (locked p) 0 1
      in if ok then Some (p\<lparr>locked := v\<rparr>, eflags) else None)"

definition spinlock_unlock :: "spinlock \<Rightarrow> u32 \<Rightarrow> spinlock \<times> u32" where
  "spinlock_unlock p eflags =
     (let p = p\<lparr>locked := atomic_store (locked p) 0\<rparr>
      in (p, if is_irq_enabled_when_locked p \<noteq> 0 then sti eflags else eflags))"

section \<open>The spin lock on many processors\<close>

text \<open>
  The program counter of a processor: outside; about to store the flag it read; about to test the
  flag and disable interrupts; in the compare-and-exchange loop; holding the lock; after the store
  that releases it, about to test the flag and enable interrupts.
\<close>

datatype spin_pc = Outside | Store_flag u32 | Test_cli | Spinning | Held | Test_sti

record spin_sys =
  lock :: spinlock
  pc :: "nat \<Rightarrow> spin_pc"
  flags :: "nat \<Rightarrow> u32"

inductive spin_step :: "spin_sys \<Rightarrow> spin_sys \<Rightarrow> bool" where
  read_flags: "pc s c = Outside \<Longrightarrow>
    spin_step s (s\<lparr>pc := (pc s)(c := Store_flag (flags s c))\<rparr>)"
| store_flag: "pc s c = Store_flag eflags \<Longrightarrow>
    spin_step s (s\<lparr>lock := (lock s)\<lparr>is_irq_enabled_when_locked := eflags AND CPU_EFLAGS_IF\<rparr>,
                   pc := (pc s)(c := Test_cli)\<rparr>)"
| test_cli: "pc s c = Test_cli \<Longrightarrow>
    spin_step s (s\<lparr>pc := (pc s)(c := Spinning),
                   flags := (flags s)(c := if is_irq_enabled_when_locked (lock s) \<noteq> 0
                                           then cli (flags s c) else flags s c)\<rparr>)"
| acquire: "pc s c = Spinning \<Longrightarrow> atomic_compare_exchange (locked (lock s)) 0 1 = (True, v) \<Longrightarrow>
    spin_step s (s\<lparr>lock := (lock s)\<lparr>locked := v\<rparr>, pc := (pc s)(c := Held)\<rparr>)"
| spin: "pc s c = Spinning \<Longrightarrow> atomic_compare_exchange (locked (lock s)) 0 1 = (False, v) \<Longrightarrow>
    spin_step s (s\<lparr>lock := (lock s)\<lparr>locked := v\<rparr>\<rparr>)"
| release: "pc s c = Held \<Longrightarrow>
    spin_step s (s\<lparr>lock := (lock s)\<lparr>locked := atomic_store (locked (lock s)) 0\<rparr>,
                   pc := (pc s)(c := Test_sti)\<rparr>)"
| test_sti: "pc s c = Test_sti \<Longrightarrow>
    spin_step s (s\<lparr>pc := (pc s)(c := Outside),
                   flags := (flags s)(c := if is_irq_enabled_when_locked (lock s) \<noteq> 0
                                           then sti (flags s c) else flags s c)\<rparr>)"

text \<open>The system starts with a lock that \<open>spinlock_init\<close> set up and every processor outside.\<close>

definition spin_start :: "(nat \<Rightarrow> u32) \<Rightarrow> spin_sys" where
  "spin_start fl = \<lparr>lock = spinlock_init undefined, pc = \<lambda>_. Outside, flags = fl\<rparr>"

inductive spin_reach :: "(nat \<Rightarrow> u32) \<Rightarrow> spin_sys \<Rightarrow> bool" for fl where
  start: "spin_reach fl (spin_start fl)"
| step: "spin_reach fl s \<Longrightarrow> spin_step s s' \<Longrightarrow> spin_reach fl s'"

text \<open>The step of one processor as a function, so that schedules can be run.\<close>

definition spin_next :: "nat \<Rightarrow> spin_sys \<Rightarrow> spin_sys" where
  "spin_next c s = (case pc s c of
     Outside \<Rightarrow> s\<lparr>pc := (pc s)(c := Store_flag (flags s c))\<rparr>
   | Store_flag eflags \<Rightarrow> s\<lparr>lock := (lock s)\<lparr>is_irq_enabled_when_locked := eflags AND CPU_EFLAGS_IF\<rparr>,
       pc := (pc s)(c := Test_cli)\<rparr>
   | Test_cli \<Rightarrow> s\<lparr>pc := (pc s)(c := Spinning), flags := (flags s)(c :=
       if is_irq_enabled_when_locked (lock s) \<noteq> 0 then cli (flags s c) else flags s c)\<rparr>
   | Spinning \<Rightarrow> (let (ok, v) = atomic_compare_exchange (locked (lock s)) 0 1 in
       if ok then s\<lparr>lock := (lock s)\<lparr>locked := v\<rparr>, pc := (pc s)(c := Held)\<rparr>
       else s\<lparr>lock := (lock s)\<lparr>locked := v\<rparr>\<rparr>)
   | Held \<Rightarrow> s\<lparr>lock := (lock s)\<lparr>locked := atomic_store (locked (lock s)) 0\<rparr>,
       pc := (pc s)(c := Test_sti)\<rparr>
   | Test_sti \<Rightarrow> s\<lparr>pc := (pc s)(c := Outside), flags := (flags s)(c :=
       if is_irq_enabled_when_locked (lock s) \<noteq> 0 then sti (flags s c) else flags s c)\<rparr>)"

section \<open>Lemmas\<close>

lemma cas_iff [simp]:
  "atomic_compare_exchange v e d = (True, w) \<longleftrightarrow> v = e \<and> w = d"
  "atomic_compare_exchange v e d = (False, w) \<longleftrightarrow> v \<noteq> e \<and> w = v"
  by (auto simp: atomic_compare_exchange_def)

text \<open>The invariant: the lock word is 1 exactly when one processor holds the lock, 0 when none does.\<close>

definition spin_inv :: "spin_sys \<Rightarrow> bool" where
  "spin_inv s \<longleftrightarrow> (locked (lock s) = 0 \<and> (\<forall>c. pc s c \<noteq> Held)) \<or>
     (\<exists>h. locked (lock s) = 1 \<and> (\<forall>c. pc s c = Held \<longleftrightarrow> c = h))"

lemma spin_inv_start: "spin_inv (spin_start fl)"
  by (simp add: spin_inv_def spin_start_def spinlock_init_def)

lemma spin_inv_update:
  assumes "spin_inv s" and "pc s c \<noteq> Held" and "q \<noteq> Held"
  shows "spin_inv (s\<lparr>pc := (pc s)(c := q), flags := fl\<rparr>)"
    and "spin_inv (s\<lparr>pc := (pc s)(c := q)\<rparr>)"
    and "spin_inv (s\<lparr>lock := (lock s)\<lparr>is_irq_enabled_when_locked := f\<rparr>, pc := (pc s)(c := q)\<rparr>)"
proof -
  have "(\<forall>d. (pc s) d \<noteq> Held) \<Longrightarrow> \<forall>d. ((pc s)(c := q)) d \<noteq> Held"
    and "(\<forall>d. pc s d = Held \<longleftrightarrow> d = h) \<Longrightarrow> \<forall>d. ((pc s)(c := q)) d = Held \<longleftrightarrow> d = h" for h
    using assms(2,3) by auto
  then show "spin_inv (s\<lparr>pc := (pc s)(c := q), flags := fl\<rparr>)"
    and "spin_inv (s\<lparr>pc := (pc s)(c := q)\<rparr>)"
    and "spin_inv (s\<lparr>lock := (lock s)\<lparr>is_irq_enabled_when_locked := f\<rparr>, pc := (pc s)(c := q)\<rparr>)"
    using assms(1) unfolding spin_inv_def by (simp_all del: fun_upd_apply) blast+
qed

lemma spin_inv_step: "spin_step s s' \<Longrightarrow> spin_inv s \<Longrightarrow> spin_inv s'"
proof (induction rule: spin_step.induct)
  case (acquire s c v)
  then have "\<forall>d. pc s d \<noteq> Held" by (auto simp: spin_inv_def)
  with acquire show ?case by (auto simp: spin_inv_def intro!: exI [of _ c])
next
  case (release s c)
  then have "\<forall>d. pc s d = Held \<longleftrightarrow> d = c" by (auto simp: spin_inv_def)
  with release show ?case by (auto simp: spin_inv_def atomic_store_def)
next
  case (spin s c v)
  then show ?case by (simp add: spin_inv_def)
qed (simp_all add: spin_inv_update del: fun_upd_apply)

lemma spin_reach_inv: "spin_reach fl s \<Longrightarrow> spin_inv s"
  by (induction rule: spin_reach.induct) (auto intro: spin_inv_start spin_inv_step)

lemma spin_next_step: "spin_step s (spin_next c s)"
proof (cases "pc s c")
  case Spinning
  show ?thesis
  proof (cases "locked (lock s) = 0")
    case True
    then show ?thesis
      using spin_step.acquire [OF Spinning, of 1] Spinning
      by (simp add: spin_next_def atomic_compare_exchange_def)
  next
    case False
    then show ?thesis
      using spin_step.spin [OF Spinning, of "locked (lock s)"] Spinning
      by (simp add: spin_next_def atomic_compare_exchange_def)
  qed
next
  case Test_cli
  then show ?thesis using spin_step.test_cli [OF Test_cli] by (simp add: spin_next_def)
next
  case Test_sti
  then show ?thesis using spin_step.test_sti [OF Test_sti] by (simp add: spin_next_def)
qed (auto simp: spin_next_def intro: spin_step.intros)

lemma spin_reach_run: "spin_reach fl (fold spin_next cs (spin_start fl))"
proof (induction cs rule: rev_induct)
  case (snoc c cs)
  then show ?case using spin_reach.step spin_next_step by simp
qed (simp add: spin_reach.start)

lemma and_if_eq_0: "(e AND CPU_EFLAGS_IF \<noteq> 0) = bit e 9"
  using and_exp_eq_0_iff_not_bit [of e 9] by (simp add: CPU_EFLAGS_IF_def)

lemma sti_cli: "bit e 9 \<Longrightarrow> sti (cli e) = e"
proof -
  assume e: "bit e 9"
  have f: "CPU_EFLAGS_IF = 2 ^ 9" by (simp add: CPU_EFLAGS_IF_def)
  have nine: "(9 :: nat) < LENGTH(32)" by simp
  have "bit (e AND NOT (2 ^ 9) OR 2 ^ 9) n = bit e n" for n
    using e bit_or_single [OF nine, of "e AND NOT (2 ^ 9)" n] bit_and_not_single [OF nine, of e n]
    by blast
  then show ?thesis
    unfolding sti_def cli_def f by (intro bit_word_eqI) blast
qed

section \<open>Properties\<close>

lemma spinlock_pair:
  assumes "locked p = 0"
  shows "\<exists>q e. spinlock_lock p eflags = Some (q, e) \<and> locked q = 1 \<and> \<not> bit e 9 \<and>
     locked (fst (spinlock_unlock q e)) = 0 \<and> snd (spinlock_unlock q e) = eflags"
proof -
  have nine: "(9 :: nat) < LENGTH(32)" by simp
  have f: "CPU_EFLAGS_IF = 2 ^ 9" by (simp add: CPU_EFLAGS_IF_def)
  have "\<not> bit (cli e) 9" for e
    unfolding cli_def f using bit_and_not_single [OF nine] by blast
  then show ?thesis
    using assms sti_cli [of eflags]
    by (auto simp: spinlock_lock_def spinlock_unlock_def Let_def atomic_compare_exchange_def
        atomic_store_def and_if_eq_0)
qed

text \<open>
  C17. Mutual exclusion: in every reachable state of any number of processors at most one holds the
  spin lock.
\<close>

theorem spinlock_mutual_exclusion:
  assumes "spin_reach fl s" and "pc s c = Held" and "pc s d = Held"
  shows "c = d"
  using spin_reach_inv [OF assms(1)] assms(2,3) by (auto simp: spin_inv_def)

theorem spinlock_mutual_exclusion_witness:
  "{d. pc (fold spin_next [0, 0, 0, 1, 1, 1, 0, 1] (spin_start (\<lambda>_. 0x202))) d = Held} = {0}"
proof -
  have "pc (fold spin_next [0, 0, 0, 1, 1, 1, 0, 1] (spin_start (\<lambda>_. 0x202))) 0 = Held"
    by (simp add: spin_next_def spin_start_def spinlock_init_def atomic_compare_exchange_def)
  then show ?thesis
    using spinlock_mutual_exclusion [OF spin_reach_run] by blast
qed

text \<open>
  On one processor a lock and unlock pair on a free lock returns, leaves the lock free and
  restores the flags register, the interrupt flag included; while the lock is held interrupts
  are off, and a second \<open>spinlock_lock\<close> by the same processor never returns.
\<close>

theorem spinlock_restores_flags:
  assumes "locked p = 0"
  shows "\<exists>q e. spinlock_lock p eflags = Some (q, e) \<and> locked q = 1 \<and> \<not> bit e 9 \<and>
     spinlock_lock q e = None \<and>
     locked (fst (spinlock_unlock q e)) = 0 \<and> snd (spinlock_unlock q e) = eflags"
proof -
  have "spinlock_lock q e = None" if "locked q = 1" for q e
    using that by (simp add: spinlock_lock_def Let_def atomic_compare_exchange_def)
  then show ?thesis using spinlock_pair [OF assms, of eflags] by blast
qed

theorem spinlock_restores_flags_witness:
  "\<exists>q e. spinlock_lock (spinlock_init undefined) 0x202 = Some (q, e) \<and> locked q = 1 \<and>
     snd (spinlock_unlock q e) = 0x202"
  using spinlock_restores_flags [of "spinlock_init undefined" "0x202"]
  by (auto simp: spinlock_init_def)

text \<open>
  The field that saves the interrupt flag is written before the lock is acquired, so a processor
  that only tries to take the lock overwrites it: there is a run of two processors after which
  the first has locked and unlocked, but its interrupts, on before, are off.
\<close>

theorem spinlock_loses_interrupt_flag:
  "\<exists>fl s. spin_reach fl s \<and> bit (fl 0) 9 \<and> pc s 0 = Outside \<and> locked (lock s) = 0 \<and> \<not> bit (flags s 0) 9"
proof -
  let ?fl = "\<lambda>c :: nat. if c = 0 then 0x202 else 2 :: u32"
  let ?s = "fold spin_next [0, 0, 0, 0, 1, 1, 0, 0] (spin_start ?fl)"
  have "pc ?s 0 = Outside" "locked (lock ?s) = 0" "flags ?s 0 = 2"
    by (simp_all add: spin_next_def spin_start_def spinlock_init_def atomic_compare_exchange_def
        atomic_store_def cli_def CPU_EFLAGS_IF_def)
  moreover have "bit (0x202 :: u32) 9" "\<not> bit (2 :: u32) 9" by (simp_all add: bit_numeral_rec)
  ultimately show ?thesis
    using spin_reach_run [of ?fl "[0, 0, 0, 0, 1, 1, 0, 0]"]
    by (intro exI [of _ ?fl] exI [of _ ?s]) (simp del: fold_simps)
qed

text \<open>
  No deadlock: in every reachable state in which a processor waits for the lock, some processor
  that does not merely spin can take a step; and when the lock is free, the waiting one can acquire it.
\<close>

theorem spinlock_progress:
  assumes "spin_reach fl s" and "pc s c = Spinning"
  shows "if locked (lock s) = 0 then pc (spin_next c s) c = Held
     else \<exists>h. pc s h = Held \<and> locked (lock (spin_next h s)) = 0 \<and>
            pc (spin_next c (spin_next h s)) c = Held"
proof (cases "locked (lock s) = 0")
  case True
  then show ?thesis using assms(2) by (simp add: spin_next_def atomic_compare_exchange_def)
next
  case False
  then obtain h where h: "pc s h = Held" using spin_reach_inv [OF assms(1)] by (auto simp: spin_inv_def)
  moreover have "h \<noteq> c" using h assms(2) by auto
  ultimately show ?thesis
    using False assms(2)
    by (auto simp: spin_next_def atomic_compare_exchange_def atomic_store_def intro!: exI [of _ h])
qed

theorem spinlock_progress_witness:
  "\<exists>h. let s = fold spin_next [0, 0, 0, 0, 1, 1, 1] (spin_start (\<lambda>_. 0x202)) in
     pc s h = Held \<and> pc (spin_next 1 (spin_next h s)) 1 = Held"
proof -
  let ?s = "fold spin_next [0, 0, 0, 0, 1, 1, 1] (spin_start (\<lambda>_. 0x202))"
  have "pc ?s 1 = Spinning" "locked (lock ?s) = 1"
    by (simp_all add: spin_next_def spin_start_def spinlock_init_def atomic_compare_exchange_def)
  then show ?thesis
    using spinlock_progress [OF spin_reach_run [of "\<lambda>_. 0x202" "[0, 0, 0, 0, 1, 1, 1]"], of 1]
    unfolding Let_def by (auto simp del: fold_simps)
qed

end
