(* ===== verification/Strings.thy ===== *)
theory Strings
  imports Prelude "HOL-Library.Signed_Division"
begin

text \<open>
  \<^verbatim>\<open>kernel/utils/string.c\<close> and \<^verbatim>\<open>kernel/utils/maths.c\<close>. A \<open>char *\<close> is the list of the bytes of its object from the pointer to
  the end, so that a read or a write past the end of the object is a fault (\<open>None\<close>). The pointers of
  these functions only move forward; the two conversions that also move backward use indices.

  The theorems say what the functions compute on the C strings in the objects (\<open>cstr\<close>): length,
  comparison, copies, search, and that the number conversions are read back as the number.
\<close>

section \<open>Operations\<close>

fun strlen_loop :: "bytes \<Rightarrow> u32 \<Rightarrow> u32 option" where
  "strlen_loop [] ret = None"
| "strlen_loop (c # s) ret = (if c \<noteq> 0 then strlen_loop s (ret + 1) else Some ret)"

definition strlen :: "bytes \<Rightarrow> u32 option" where
  "strlen s = strlen_loop s 0"

fun strncmp_loop :: "bytes \<Rightarrow> bytes \<Rightarrow> nat \<Rightarrow> int option" where
  "strncmp_loop cs ct 0 = Some 0"
| "strncmp_loop (c1 # cs) (c2 # ct) (Suc count) =
     (if c1 \<noteq> c2 then Some (if c1 < c2 then - 1 else 1)
      else if c1 = 0 then Some 0 else strncmp_loop cs ct count)"
| "strncmp_loop cs ct (Suc count) = None"

definition strncmp :: "bytes \<Rightarrow> bytes \<Rightarrow> u32 \<Rightarrow> int option" where
  "strncmp cs ct count = strncmp_loop cs ct (unat count)"

fun strcmp :: "bytes \<Rightarrow> bytes \<Rightarrow> int option" where
  "strcmp (c1 # cs) (c2 # ct) =
     (if c1 \<noteq> c2 then Some (if c1 < c2 then - 1 else 1)
      else if c1 = 0 then Some 0 else strcmp cs ct)"
| "strcmp cs ct = None"

fun memset_bytes :: "bytes \<Rightarrow> u8 \<Rightarrow> nat \<Rightarrow> bytes option" where
  "memset_bytes xs c 0 = Some xs"
| "memset_bytes [] c (Suc len) = None"
| "memset_bytes (x # xs) c (Suc len) = do { xs \<leftarrow> memset_bytes xs c len; Some (c # xs) }"

fun memcpy_bytes :: "bytes \<Rightarrow> bytes \<Rightarrow> nat \<Rightarrow> bytes option" where
  "memcpy_bytes d s 0 = Some d"
| "memcpy_bytes (x # d) (y # s) (Suc len) = do { d \<leftarrow> memcpy_bytes d s len; Some (y # d) }"
| "memcpy_bytes d s (Suc len) = None"

text \<open>The copies stop at the terminator and do not write it; they return the number of bytes copied.\<close>

fun strcpy_s :: "bytes \<Rightarrow> bytes \<Rightarrow> (int \<times> bytes) option" where
  "strcpy_s dst [] = None"
| "strcpy_s dst (c # src) =
     (if c \<noteq> 0
      then case dst of [] \<Rightarrow> None
           | x # dst \<Rightarrow> do { (ret, dst) \<leftarrow> strcpy_s dst src; Some (ret + 1, c # dst) }
      else Some (0, dst))"

definition strcpy_u :: "bytes \<Rightarrow> bytes \<Rightarrow> (int \<times> bytes) option" where
  "strcpy_u dst src = strcpy_s dst src"

fun strncpy_loop :: "bytes \<Rightarrow> bytes \<Rightarrow> int \<Rightarrow> int \<Rightarrow> (int \<times> bytes) option" where
  "strncpy_loop dst [] maxlen ret = None"
| "strncpy_loop dst (c # src) maxlen ret =
     (if c \<noteq> 0 \<and> ret < maxlen
      then case dst of [] \<Rightarrow> None
           | x # dst \<Rightarrow> do { (r, dst) \<leftarrow> strncpy_loop dst src maxlen (ret + 1); Some (r, c # dst) }
      else Some (ret, dst))"

definition strncpy_s :: "bytes \<Rightarrow> bytes \<Rightarrow> u32 \<Rightarrow> (int \<times> bytes) option" where
  "strncpy_s dst src maxlen = strncpy_loop dst src (sint maxlen) 0"

definition strncpy_u :: "bytes \<Rightarrow> bytes \<Rightarrow> u32 \<Rightarrow> (int \<times> bytes) option" where
  "strncpy_u dst src maxlen = strncpy_loop dst src (sint maxlen) 0"

text \<open>
  The digits of a number, least significant first, from index \<open>out\<close>; the result is the index and
  the room left after the last digit, or the \<open>-1\<close> of a full buffer.
\<close>

datatype digits_result = Full bytes | Digits bytes nat u32

function digits_s :: "bytes \<Rightarrow> nat \<Rightarrow> u32 \<Rightarrow> int \<Rightarrow> digits_result option" where
  "digits_s buf out bufsize n =
     (if bufsize = 0 then Some (Full buf)
      else let digit = n smod 10; digit = (if digit < 0 then digit * - 1 else digit) in
           do { buf \<leftarrow> arr_set buf out (of_int (digit + 48));
                let n' = n sdiv 10 in
                if n' \<noteq> 0 then digits_s buf (out + 1) (bufsize - 1) n'
                else Some (Digits buf (out + 1) (bufsize - 1)) })"
  by pat_completeness auto
termination
  by (relation "measure (\<lambda>(buf, out, bufsize, n). unat bufsize)") (auto simp: measure_unat)

function digits_u :: "bytes \<Rightarrow> nat \<Rightarrow> u32 \<Rightarrow> u32 \<Rightarrow> digits_result option" where
  "digits_u buf out bufsize n =
     (if bufsize = 0 then Some (Full buf)
      else do { buf \<leftarrow> arr_set buf out (ucast (n mod 10 + 48));
                let n' = n div 10 in
                if n' \<noteq> 0 then digits_u buf (out + 1) (bufsize - 1) n'
                else Some (Digits buf (out + 1) (bufsize - 1)) })"
  by pat_completeness auto
termination
  by (relation "measure (\<lambda>(buf, out, bufsize, n). unat bufsize)") (auto simp: measure_unat)

declare digits_s.simps [simp del] digits_u.simps [simp del]

text \<open>The reversal in place: \<open>while (start < out)\<close> swap and move inwards.\<close>

function reverse_loop :: "bytes \<Rightarrow> nat \<Rightarrow> nat \<Rightarrow> bytes option" where
  "reverse_loop buf start out =
     (if start < out
      then do { a \<leftarrow> arr_get buf start; b \<leftarrow> arr_get buf out;
                buf \<leftarrow> arr_set buf start b; buf \<leftarrow> arr_set buf out a;
                reverse_loop buf (start + 1) (out - 1) }
      else Some buf)"
  by pat_completeness auto
termination
  by (relation "measure (\<lambda>(buf, start, out). out - start)") auto

declare reverse_loop.simps [simp del]

definition finish_number :: "nat \<Rightarrow> digits_result \<Rightarrow> (int \<times> bytes) option" where
  "finish_number start r = (case r of
     Full buf \<Rightarrow> Some (- 1, buf)
   | Digits buf out bufsize \<Rightarrow>
       if bufsize = 0 then Some (- 1, buf)
       else do { buf \<leftarrow> arr_set buf out 0; buf \<leftarrow> reverse_loop buf start (out - 1); Some (0, buf) })"

definition int_to_str_s :: "bytes \<Rightarrow> u32 \<Rightarrow> u32 \<Rightarrow> (int \<times> bytes) option" where
  "int_to_str_s out bufsize n =
     (if sint n < 0
      then if bufsize = 0 then Some (- 1, out)
           else do { out \<leftarrow> arr_set out 0 45; r \<leftarrow> digits_s out 1 (bufsize - 1) (sint n); finish_number 1 r }
      else do { r \<leftarrow> digits_s out 0 bufsize (sint n); finish_number 0 r })"

definition int_to_str_u :: "bytes \<Rightarrow> u32 \<Rightarrow> u32 \<Rightarrow> (int \<times> bytes) option" where
  "int_to_str_u out bufsize n = do { r \<leftarrow> digits_u out 0 bufsize n; finish_number 0 r }"

text \<open>\<open>_strnstr\<close> returns the index of the match in \<open>s1\<close>, or \<open>NULL\<close>.\<close>

function strnstr_loop :: "bytes \<Rightarrow> bytes \<Rightarrow> nat \<Rightarrow> u32 \<Rightarrow> u32 \<Rightarrow> nat ptr option" where
  "strnstr_loop s1 s2 pos len l2 =
     (if len \<ge> l2 \<and> l2 \<noteq> 0
      then do { c \<leftarrow> strncmp (drop pos s1) s2 l2;
                if c = 0 then Some (Ptr pos) else strnstr_loop s1 s2 (pos + 1) (len - 1) l2 }
      else Some Null)"
  by pat_completeness auto
termination
proof (relation "measure (\<lambda>(s1, s2, pos, len, l2). unat len)", simp, goal_cases)
  case (1 s1 s2 pos len l2 c)
  then have "len \<noteq> 0" by auto
  then show ?case by (simp add: measure_unat)
qed

declare strnstr_loop.simps [simp del]

definition strnstr :: "bytes \<Rightarrow> bytes \<Rightarrow> u32 \<Rightarrow> nat ptr option" where
  "strnstr s1 s2 len =
     do { l2 \<leftarrow> strlen s2; if l2 = 0 then Some (Ptr 0) else strnstr_loop s1 s2 0 len l2 }"

text \<open>
  \<open>_int_to_str_static\<close>: the digits go to the end of a static buffer of 64 bytes, from the back; the
  result is the string from the first digit. A base of 0 divides by zero; the table of digits has
  17 bytes with its terminator.
\<close>

definition representation :: bytes where
  "representation = map of_nat ([48..<58] @ [65..<71]) @ [0]"

text \<open>A loop that would run below the buffer faults: \<open>room\<close> counts the bytes left in front.\<close>

fun int_to_str_static_loop :: "nat \<Rightarrow> u32 \<Rightarrow> u32 \<Rightarrow> bytes \<Rightarrow> bytes option" where
  "int_to_str_static_loop 0 num base acc = None"
| "int_to_str_static_loop (Suc room) num base acc =
     do { d \<leftarrow> arr_get representation (unat (num mod base));
          let num = num div base in
          if num \<noteq> 0 then int_to_str_static_loop room num base (d # acc) else Some (d # acc) }"

definition int_to_str_static :: "u32 \<Rightarrow> u32 \<Rightarrow> bytes option" where
  "int_to_str_static num base = (if base = 0 then None else int_to_str_static_loop 63 num base [0])"

definition ceiling_div :: "u32 \<Rightarrow> u32 \<Rightarrow> u32 option" where
  "ceiling_div dividend divisor =
     (if divisor = 0 then None else Some ((dividend + divisor div 2) div divisor))"

section \<open>The C string in an object\<close>

definition cstr :: "bytes \<Rightarrow> bytes" where
  "cstr s = takeWhile (\<lambda>c. c \<noteq> 0) s"

definition terminated :: "bytes \<Rightarrow> bool" where
  "terminated s \<longleftrightarrow> 0 \<in> set s"

lemma cstr_Cons [simp]: "cstr (c # s) = (if c = 0 then [] else c # cstr s)"
  by (simp add: cstr_def)

lemma terminated_simps [simp]: "\<not> terminated []" "terminated (c # s) \<longleftrightarrow> c = 0 \<or> terminated s"
  by (auto simp: terminated_def)

lemma strlen_loop_cstr:
  "strlen_loop s ret = (if terminated s then Some (ret + of_nat (length (cstr s))) else None)"
  by (induction s ret rule: strlen_loop.induct) (auto simp: add.assoc)

lemma strlen_cstr: "strlen s = (if terminated s then Some (of_nat (length (cstr s))) else None)"
  by (simp add: strlen_def strlen_loop_cstr)

text \<open>The order of C strings: the first byte that differs decides, a proper prefix is smaller.\<close>

fun cstr_order :: "bytes \<Rightarrow> bytes \<Rightarrow> int" where
  "cstr_order [] [] = 0"
| "cstr_order [] (y # ys) = - 1"
| "cstr_order (x # xs) [] = 1"
| "cstr_order (x # xs) (y # ys) = (if x < y then - 1 else if y < x then 1 else cstr_order xs ys)"

lemma cstr_order_0 [simp]: "cstr_order xs ys = 0 \<longleftrightarrow> xs = ys"
  by (induction xs ys rule: cstr_order.induct) (auto split: if_splits)

lemma cstr_order_flip: "cstr_order ys xs = - cstr_order xs ys"
  by (induction xs ys rule: cstr_order.induct) auto

lemma strcmp_cstr:
  "terminated cs \<Longrightarrow> terminated ct \<Longrightarrow> strcmp cs ct = Some (cstr_order (cstr cs) (cstr ct))"
  by (induction cs ct rule: strcmp.induct) (auto simp: word_neq_0_conv)

lemma strncmp_loop_take:
  "terminated cs \<Longrightarrow> terminated ct \<Longrightarrow>
   strncmp_loop cs ct n = Some (cstr_order (take n (cstr cs)) (take n (cstr ct)))"
  by (induction cs ct n rule: strncmp_loop.induct) (auto simp: word_neq_0_conv)

text \<open>A comparison of \<open>n\<close> bytes needs no terminator when the first string has \<open>n\<close> of them.\<close>

lemma strncmp_loop_prefix:
  "n \<le> length cs \<Longrightarrow> n = length p \<Longrightarrow> 0 \<notin> set p \<Longrightarrow>
   \<exists>c. strncmp_loop cs (p @ 0 # r) n = Some c \<and> (c = 0 \<longleftrightarrow> take n cs = p)"
proof (induction n arbitrary: cs p)
  case (Suc n)
  obtain c cs' d p' where "cs = c # cs'" "p = d # p'"
    using Suc.prems by (metis Suc_le_length_iff length_Suc_conv)
  then show ?case using Suc.IH [of cs' p'] Suc.prems by auto
qed simp

section \<open>Filling and copying\<close>

lemma memset_bytes_ok:
  "memset_bytes xs c n = (if n \<le> length xs then Some (replicate n c @ drop n xs) else None)"
  by (induction xs c n rule: memset_bytes.induct) auto

lemma memcpy_bytes_ok:
  "memcpy_bytes d s n =
     (if n \<le> length d \<and> n \<le> length s then Some (take n s @ drop n d) else None)"
  by (induction d s n rule: memcpy_bytes.induct) auto

lemma strcpy_s_ok:
  "terminated src \<Longrightarrow> length (cstr src) \<le> length dst \<Longrightarrow>
   strcpy_s dst src = Some (int (length (cstr src)), cstr src @ drop (length (cstr src)) dst)"
proof (induction dst src rule: strcpy_s.induct)
  case (2 dst c src)
  then show ?case by (cases dst) (auto split: if_splits)
qed simp

lemma strncpy_loop_ok:
  assumes "terminated src" and "nat (maxlen - ret) \<le> length dst \<or> length (cstr src) \<le> length dst"
  shows "strncpy_loop dst src maxlen ret = (let k = min (length (cstr src)) (nat (maxlen - ret)) in
     Some (ret + int k, take k (cstr src) @ drop k dst))"
  using assms
proof (induction dst src maxlen ret rule: strncpy_loop.induct)
  case (2 dst c src maxlen ret)
  show ?case
  proof (cases "c \<noteq> 0 \<and> ret < maxlen")
    case True
    then obtain x dst' where dst: "dst = x # dst'"
      using "2.prems"(2) by (cases dst) auto
    have n: "nat (maxlen - ret) = Suc (nat (maxlen - (ret + 1)))" using True by arith
    have "strncpy_loop dst' src maxlen (ret + 1) =
        (let k = min (length (cstr src)) (nat (maxlen - (ret + 1))) in
         Some (ret + 1 + int k, take k (cstr src) @ drop k dst'))"
      using "2.IH" [OF True dst] "2.prems" True dst n by auto
    then show ?thesis using True dst n by (simp add: Let_def)
  next
    case False
    then show ?thesis by auto
  qed
qed simp

section \<open>Numbers\<close>

text \<open>The decimal digits of a number, least significant first, and the value of a decimal string.\<close>

fun digs :: "nat \<Rightarrow> bytes" where
  "digs n = of_nat (n mod 10 + 48) # (if n div 10 = 0 then [] else digs (n div 10))"

declare digs.simps [simp del]

definition dec_val :: "bytes \<Rightarrow> nat" where
  "dec_val = foldl (\<lambda>v c. 10 * v + (unat c - 48)) 0"

lemma unat_digit: "d < 10 \<Longrightarrow> unat (of_nat (d + 48) :: u8) = d + 48"
  by (intro unat_of_nat_small) simp

lemma dec_val_digs: "dec_val (rev (digs n)) = n"
proof (induction n rule: digs.induct)
  case (1 n)
  have d: "unat (of_nat (n mod 10 + 48) :: u8) = n mod 10 + 48" by (intro unat_digit) simp
  show ?case
    using 1 d by (subst digs.simps) (cases "n div 10 = 0", auto simp: dec_val_def)
qed

lemma digs_nonzero: "c \<in> set (digs n) \<Longrightarrow> c \<noteq> 0"
proof (induction n rule: digs.induct)
  case (1 n)
  have "unat (of_nat (n mod 10 + 48) :: u8) = n mod 10 + 48" by (intro unat_digit) simp
  then have "of_nat (n mod 10 + 48) \<noteq> (0 :: u8)" by (metis add_is_0 unat_0 zero_neq_numeral)
  then show ?case using 1 by (subst (asm) digs.simps) (auto split: if_splits)
qed

lemma digs_Cons: "digs n \<noteq> []"
  by (subst digs.simps) simp

text \<open>\<open>put buf out ds\<close> is \<open>buf\<close> with \<open>ds\<close> written from index \<open>out\<close>.\<close>

definition put :: "bytes \<Rightarrow> nat \<Rightarrow> bytes \<Rightarrow> bytes" where
  "put buf out ds = take out buf @ ds @ drop (out + length ds) buf"

lemma put_Cons:
  "out < length buf \<Longrightarrow> put (buf[out := d]) (Suc out) ds = put buf out (d # ds)"
  by (simp add: put_def take_Suc_conv_app_nth)

lemma put_single: "out < length buf \<Longrightarrow> buf[out := d] = put buf out [d]"
  by (simp add: put_def upd_conv_take_nth_drop)

lemma length_put [simp]: "out + length ds \<le> length buf \<Longrightarrow> length (put buf out ds) = length buf"
  by (simp add: put_def)

lemma digit_abs:
  "(let digit = n smod 10 in if digit < 0 then digit * - 1 else digit) = \<bar>n\<bar> mod (10 :: int)"
proof -
  have "0 \<le> \<bar>n\<bar> mod 10" by simp
  then show ?thesis
    by (cases "n < 0"; cases "n = 0") (auto simp: signed_modulo_int_def Let_def sgn_if)
qed

lemma sdiv_abs: "nat \<bar>n sdiv 10\<bar> = nat \<bar>n :: int\<bar> div 10" "n sdiv 10 = 0 \<longleftrightarrow> nat \<bar>n\<bar> div 10 = 0"
proof -
  have "\<bar>n sdiv 10\<bar> = \<bar>n\<bar> div 10"
    by (cases "n < 0"; cases "n = 0") (auto simp: signed_divide_int_def sgn_if pos_imp_zdiv_nonneg_iff)
  then show 1: "nat \<bar>n sdiv 10\<bar> = nat \<bar>n\<bar> div 10" by (simp add: nat_div_distrib)
  then show "n sdiv 10 = 0 \<longleftrightarrow> nat \<bar>n\<bar> div 10 = 0" by linarith
qed

lemma of_int_digit: "of_int (\<bar>n\<bar> mod 10 + 48) = (of_nat (nat \<bar>n\<bar> mod 10 + 48) :: u8)"
proof -
  have "\<bar>n\<bar> mod 10 + 48 = int (nat \<bar>n\<bar> mod 10 + 48)" by (simp add: zmod_int)
  then show ?thesis by (simp only: of_int_of_nat_eq)
qed

text \<open>What the digit loops leave: all the digits, or a full buffer.\<close>

definition digits_done :: "bytes \<Rightarrow> nat \<Rightarrow> u32 \<Rightarrow> nat \<Rightarrow> digits_result option \<Rightarrow> bool" where
  "digits_done buf out bufsize m r \<longleftrightarrow>
     (if length (digs m) \<le> unat bufsize
      then r = Some (Digits (put buf out (digs m)) (out + length (digs m)) (bufsize - of_nat (length (digs m))))
      else \<exists>buf'. r = Some (Full buf') \<and> length buf' = length buf)"

lemma digits_done_Cons:
  assumes b: "bufsize \<noteq> 0" and out: "out < length buf" and m: "m div 10 \<noteq> 0"
    and tl: "digits_done (buf[out := of_nat (m mod 10 + 48)]) (out + 1) (bufsize - 1) (m div 10) r"
  shows "digits_done buf out bufsize m r"
proof -
  have u: "unat (bufsize - 1) = unat bufsize - 1" "0 < unat bufsize"
    using b by (simp_all add: unat_minus_one unat_gt_0)
  have d: "digs m = of_nat (m mod 10 + 48) # digs (m div 10)" using m by (subst digs.simps) simp
  show ?thesis
    using tl out u put_Cons [OF out] unfolding digits_done_def d by (auto split: if_splits simp: add.commute)
qed

lemma digits_done_last:
  assumes b: "bufsize \<noteq> 0" and out: "out < length buf" and m: "m div 10 = 0"
  shows "digits_done buf out bufsize m
     (Some (Digits (buf[out := of_nat (m mod 10 + 48)]) (out + 1) (bufsize - 1)))"
proof -
  have "digs m = [of_nat (m mod 10 + 48)]" using m by (subst digs.simps) simp
  moreover have "1 \<le> unat bufsize" using b by (simp add: Suc_leI unat_gt_0)
  ultimately show ?thesis using out by (simp add: digits_done_def put_single)
qed

lemma digits_done_full: "digits_done buf out 0 m (Some (Full buf))"
  using digs_Cons [of m] by (simp add: digits_done_def)

lemma digits_s_ok:
  "out + unat bufsize \<le> length buf \<Longrightarrow> digits_done buf out bufsize (nat \<bar>n\<bar>) (digits_s buf out bufsize n)"
proof (induction "unat bufsize" arbitrary: buf out bufsize n rule: less_induct)
  case less
  show ?case
  proof (cases "bufsize = 0")
    case False
    have "unat (bufsize - 1) < unat bufsize" "unat (bufsize - 1) = unat bufsize - 1"
      "0 < unat bufsize" using False by (simp_all add: measure_unat unat_minus_one unat_gt_0)
    then have out: "out < length buf" "out + 1 + unat (bufsize - 1) \<le> length buf"
      "unat (bufsize - 1) < unat bufsize" using less.prems by auto
    let ?d = "of_nat (nat \<bar>n\<bar> mod 10 + 48) :: u8"
    have unfold: "digits_s buf out bufsize n =
        (if n sdiv 10 \<noteq> 0 then digits_s (buf[out := ?d]) (out + 1) (bufsize - 1) (n sdiv 10)
         else Some (Digits (buf[out := ?d]) (out + 1) (bufsize - 1)))"
      using False out(1) digit_abs [of n] of_int_digit [of n]
      by (subst digits_s.simps) (simp add: Let_def)
    show ?thesis
    proof (cases "n sdiv 10 = 0")
      case True
      have eq: "digits_s buf out bufsize n = Some (Digits (buf[out := ?d]) (out + 1) (bufsize - 1))"
        using unfold unfolding True by simp
      show ?thesis
        unfolding eq using True by (intro digits_done_last [OF False out(1)]) (simp add: sdiv_abs)
    next
      case nz: False
      then have eq: "digits_s buf out bufsize n = digits_s (buf[out := ?d]) (out + 1) (bufsize - 1) (n sdiv 10)"
        using unfold by simp
      show ?thesis
        unfolding eq using less.hyps [OF out(3), of "out + 1" "buf[out := ?d]" "n sdiv 10"] out(2) nz
        by (intro digits_done_Cons [OF False out(1)]) (simp_all add: sdiv_abs)
    qed
  qed (simp add: digits_s.simps digits_done_full)
qed

lemma digits_u_ok:
  "out + unat bufsize \<le> length buf \<Longrightarrow> digits_done buf out bufsize (unat n) (digits_u buf out bufsize n)"
proof (induction "unat bufsize" arbitrary: buf out bufsize n rule: less_induct)
  case less
  show ?case
  proof (cases "bufsize = 0")
    case False
    have "unat (bufsize - 1) < unat bufsize" "unat (bufsize - 1) = unat bufsize - 1"
      "0 < unat bufsize" using False by (simp_all add: measure_unat unat_minus_one unat_gt_0)
    then have out: "out < length buf" "out + 1 + unat (bufsize - 1) \<le> length buf"
      "unat (bufsize - 1) < unat bufsize" using less.prems by auto
    have "unat (n mod 10 + 48) = unat n mod 10 + 48"
      by (subst unat_add_less) (simp_all add: unat_mod)
    then have d: "ucast (n mod 10 + 48) = (of_nat (unat n mod 10 + 48) :: u8)"
      by (metis of_nat_unat)
    have q: "unat (n div 10) = unat n div 10" "n div 10 = 0 \<longleftrightarrow> unat n div 10 = 0"
      by (simp_all add: unat_div flip: unat_eq_0)
    have unfold: "digits_u buf out bufsize n =
        (if n div 10 \<noteq> 0 then digits_u (buf[out := of_nat (unat n mod 10 + 48)]) (out + 1) (bufsize - 1) (n div 10)
         else Some (Digits (buf[out := of_nat (unat n mod 10 + 48)]) (out + 1) (bufsize - 1)))"
      using False out(1) d by (subst digits_u.simps) (simp add: Let_def)
    show ?thesis
    proof (cases "n div 10 = 0")
      case True
      have eq: "digits_u buf out bufsize n =
          Some (Digits (buf[out := of_nat (unat n mod 10 + 48)]) (out + 1) (bufsize - 1))"
        using unfold unfolding True by simp
      show ?thesis
        unfolding eq using True q by (intro digits_done_last [OF False out(1)]) simp
    next
      case nz: False
      then have eq: "digits_u buf out bufsize n =
          digits_u (buf[out := of_nat (unat n mod 10 + 48)]) (out + 1) (bufsize - 1) (n div 10)"
        using unfold by simp
      show ?thesis
        unfolding eq using out(2) nz q
          less.hyps [OF out(3), of "out + 1" "buf[out := of_nat (unat n mod 10 + 48)]" "n div 10"]
        by (intro digits_done_Cons [OF False out(1)]) simp_all
    qed
  qed (simp add: digits_u.simps digits_done_full)
qed

lemma reverse_loop_ok:
  "xs \<noteq> [] \<Longrightarrow> reverse_loop (pre @ xs @ post) (length pre) (length pre + length xs - 1) =
     Some (pre @ rev xs @ post)"
proof (induction "length xs" arbitrary: xs pre post rule: less_induct)
  case less
  show ?case
  proof (cases "length xs = 1")
    case True
    then obtain x where "xs = [x]" by (cases xs) auto
    then show ?thesis by (simp add: reverse_loop.simps)
  next
    case False
    then obtain x ys y where xs: "xs = x # ys @ [y]"
      using less.prems by (metis One_nat_def append_butlast_last_id length_Cons length_append_singleton
          list.size(3) neq_Nil_conv append_Nil)
    let ?n = "length pre"
    have get: "(pre @ xs @ post) ! ?n = x" "(pre @ xs @ post) ! (?n + length xs - 1) = y"
      by (simp_all add: xs nth_append)
    have set: "((pre @ xs @ post)[?n := y])[?n + length xs - 1 := x] = (pre @ [y]) @ ys @ (x # post)"
      by (simp add: xs list_update_append)
    have "reverse_loop (pre @ xs @ post) ?n (?n + length xs - 1) =
        reverse_loop ((pre @ [y]) @ ys @ (x # post)) (?n + 1) (?n + length xs - 1 - 1)"
      using get set by (subst reverse_loop.simps) (simp add: xs)
    also have "\<dots> = Some ((pre @ [y]) @ rev ys @ (x # post))"
    proof (cases "ys = []")
      case True
      then show ?thesis by (simp add: xs reverse_loop.simps)
    next
      case False
      then show ?thesis using less.hyps [of ys "pre @ [y]" "x # post"] by (simp add: xs)
    qed
    finally show ?thesis by (simp add: xs)
  qed
qed

lemma finish_number_ok:
  assumes dd: "digits_done buf start bufsize m r" and b: "start + unat bufsize \<le> length buf"
  shows "if length (digs m) < unat bufsize
     then (r \<bind> finish_number start) =
       Some (0, take start buf @ rev (digs m) @ 0 # drop (start + length (digs m) + 1) buf)
     else \<exists>buf'. (r \<bind> finish_number start) = Some (- 1, buf')"
proof (cases "length (digs m) \<le> unat bufsize")
  case True
  let ?k = "length (digs m)"
  let ?rest = "bufsize - of_nat ?k"
  have r: "r = Some (Digits (put buf start (digs m)) (start + ?k) ?rest)"
    using dd True by (simp add: digits_done_def)
  have k: "unat (of_nat ?k :: u32) = ?k"
    using True unat_less_32 [of bufsize] by (intro unat_of_nat_small) simp
  then have "of_nat ?k \<le> bufsize" using True by (simp add: word_le_nat_alt)
  then have rest: "unat ?rest = unat bufsize - ?k" using k by (simp add: unat_sub)
  show ?thesis
  proof (cases "?k < unat bufsize")
    case lt: True
    then have "?rest \<noteq> 0" using rest by auto
    moreover have "(put buf start (digs m))[start + ?k := 0] =
        take start buf @ digs m @ 0 # drop (start + ?k + 1) buf"
    proof -
      have "drop (start + ?k) buf = buf ! (start + ?k) # drop (start + ?k + 1) buf"
        using lt b by (simp add: Cons_nth_drop_Suc)
      then show ?thesis using lt b by (simp add: put_def list_update_append)
    qed
    moreover have "start + ?k < length (put buf start (digs m))" using lt b by simp
    moreover have "length (take start buf) = start" using b by simp
    moreover from this have "reverse_loop (take start buf @ digs m @ 0 # drop (start + ?k + 1) buf) start
        (start + ?k - 1) = Some (take start buf @ rev (digs m) @ 0 # drop (start + ?k + 1) buf)"
      using reverse_loop_ok [OF digs_Cons [of m], of "take start buf" "0 # drop (start + ?k + 1) buf"] by simp
    ultimately show ?thesis
      using lt unfolding r by (simp add: finish_number_def)
  next
    case False
    then have "unat ?rest = 0" using rest True by simp
    then show ?thesis using False unfolding r by (simp add: finish_number_def unat_eq_0)
  qed
next
  case False
  then obtain buf' where "r = Some (Full buf')" using dd by (auto simp: digits_done_def)
  then show ?thesis using False by (simp add: finish_number_def)
qed

lemma cstr_append: "0 \<notin> set ds \<Longrightarrow> cstr (ds @ 0 # xs) = ds"
  by (induction ds) auto

lemma int_to_str_u_ok:
  assumes "unat bufsize \<le> length out"
  shows "if length (digs (unat n)) < unat bufsize
     then \<exists>out'. int_to_str_u out bufsize n = Some (0, out') \<and> cstr out' = rev (digs (unat n)) \<and>
            length out' = length out
     else \<exists>out'. int_to_str_u out bufsize n = Some (- 1, out')"
proof -
  have "0 \<notin> set (rev (digs (unat n)))" using digs_nonzero by force
  then show ?thesis
    using finish_number_ok [OF digits_u_ok [of 0 bufsize out n]] assms cstr_append
    by (auto simp: int_to_str_u_def split: if_splits)
qed

lemma int_to_str_s_pos:
  assumes "unat bufsize \<le> length out" and "0 \<le> sint n"
  shows "if length (digs (nat (sint n))) < unat bufsize
     then \<exists>out'. int_to_str_s out bufsize n = Some (0, out') \<and> cstr out' = rev (digs (nat (sint n)))
     else \<exists>out'. int_to_str_s out bufsize n = Some (- 1, out')"
proof -
  have "0 \<notin> set (rev (digs (nat (sint n))))" using digs_nonzero by force
  then show ?thesis
    using finish_number_ok [OF digits_s_ok [of 0 bufsize out "sint n"]] assms cstr_append
    by (auto simp: int_to_str_s_def split: if_splits)
qed

lemma int_to_str_s_neg:
  assumes "unat bufsize \<le> length out" and "sint n < 0"
  shows "if length (digs (nat (- sint n))) + 1 < unat bufsize
     then \<exists>out'. int_to_str_s out bufsize n = Some (0, out') \<and> cstr out' = 45 # rev (digs (nat (- sint n)))
     else \<exists>out'. int_to_str_s out bufsize n = Some (- 1, out')"
proof (cases "bufsize = 0")
  case True
  then show ?thesis using assms by (simp add: int_to_str_s_def)
next
  case False
  then have u: "unat (bufsize - 1) = unat bufsize - 1" "0 < unat bufsize"
    by (simp_all add: unat_minus_one unat_gt_0)
  let ?out = "out[0 := 45]"
  have len: "0 < length out" "1 + unat (bufsize - 1) \<le> length ?out" using assms(1) u by auto
  have nz: "0 \<notin> set (rev (digs (nat (- sint n))))" using digs_nonzero by force
  have hd: "take 1 ?out = [45]" using len(1) by (cases out) auto
  have eq: "int_to_str_s out bufsize n = (digits_s ?out 1 (bufsize - 1) (sint n) \<bind> finish_number 1)"
    using assms(2) False len(1) by (simp add: int_to_str_s_def)
  have abs: "nat \<bar>sint n\<bar> = nat (- sint n)" using assms(2) by simp
  show ?thesis
    using finish_number_ok [OF digits_s_ok [OF len(2), of "sint n"] len(2)] u(1) nz hd
      cstr_append [OF nz] unfolding eq abs by (auto split: if_splits)
qed

text \<open>Reading a signed decimal string.\<close>

definition dec_parse :: "bytes \<Rightarrow> int" where
  "dec_parse s = (case s of [] \<Rightarrow> 0
     | c # cs \<Rightarrow> if c = 45 then - int (dec_val cs) else int (dec_val (c # cs)))"

lemma digs_not_minus: "c \<in> set (digs n) \<Longrightarrow> c \<noteq> 45"
proof (induction n rule: digs.induct)
  case (1 n)
  have u: "unat (of_nat (n mod 10 + 48) :: u8) = n mod 10 + 48" by (intro unat_digit) simp
  have "of_nat (n mod 10 + 48) \<noteq> (45 :: u8)"
  proof
    assume "of_nat (n mod 10 + 48) = (45 :: u8)"
    then have "n mod 10 + 48 = unat (45 :: u8)" using u by metis
    then show False by simp
  qed
  then show ?case using 1 by (subst (asm) digs.simps) (auto split: if_splits)
qed

lemma dec_parse_digs: "dec_parse (rev (digs n)) = int n"
  using dec_val_digs [of n] digs_not_minus [of _ n] digs_Cons [of n]
  by (cases "rev (digs n)") (auto simp: dec_parse_def)

section \<open>Numbers in other bases\<close>

definition digit_val :: "u8 \<Rightarrow> nat" where
  "digit_val c = (if unat c < 58 then unat c - 48 else unat c - 55)"

definition base_val :: "nat \<Rightarrow> bytes \<Rightarrow> nat" where
  "base_val b = foldl (\<lambda>v c. b * v + digit_val c) 0"

lemma length_representation [simp]: "length representation = 17"
  by (simp add: representation_def)

lemma representation_digit:
  assumes "d < 16"
  shows "digit_val (representation ! d) = d \<and> representation ! d \<noteq> 0"
proof -
  have "\<forall>d \<in> set [0..<16]. digit_val (representation ! d) = d \<and> representation ! d \<noteq> 0"
    by code_simp
  then show ?thesis using assms by simp
qed

lemma foldl_base: "foldl (\<lambda>v c. b * v + digit_val c) v (xs @ [c]) = b * foldl (\<lambda>v c. b * v + digit_val c) v xs + digit_val c"
  by simp

lemma int_to_str_static_loop_ok:
  assumes "2 \<le> unat base" "unat base \<le> 16"
  shows "unat num < 2 ^ k \<Longrightarrow> 0 < k \<Longrightarrow> k \<le> room \<Longrightarrow> \<exists>ds. int_to_str_static_loop room num base acc = Some (ds @ acc) \<and>
     base_val (unat base) ds = unat num \<and> 0 \<notin> set ds \<and> ds \<noteq> [] \<and> length ds \<le> k"
proof (induction room arbitrary: num k acc)
  case (Suc room)
  let ?d = "representation ! (unat num mod unat base)"
  have lt: "unat num mod unat base < 16"
    using assms mod_less_divisor [of "unat base" "unat num"] by linarith
  then have get: "arr_get representation (unat (num mod base)) = Some ?d"
    by (simp add: unat_mod)
  have dv: "digit_val ?d = unat num mod unat base" "?d \<noteq> 0" using representation_digit [OF lt] by auto
  show ?case
  proof (cases "num div base = 0")
    case True
    then have "unat num div unat base = 0" by (metis unat_div unat_0)
    then have "unat num mod unat base = unat num"
      using div_mult_mod_eq [of "unat num" "unat base"] by simp
    then show ?thesis
      using True get dv Suc.prems by (intro exI [of _ "[?d]"]) (auto simp: base_val_def)
  next
    case False
    have q: "unat (num div base) = unat num div unat base" by (simp add: unat_div)
    have "unat num div unat base \<le> unat num div 2" using assms(1) by (intro div_le_mono2) auto
    moreover obtain j where j: "k = Suc j" using Suc.prems(2) by (cases k) auto
    ultimately have lt': "unat (num div base) < 2 ^ j" using q Suc.prems(1) by simp
    moreover have "0 < unat (num div base)" using False by (simp add: unat_gt_0)
    then have "0 < j" using lt' by (cases j) auto
    ultimately obtain ds where ds: "int_to_str_static_loop room (num div base) base (?d # acc) = Some (ds @ ?d # acc)"
        "base_val (unat base) ds = unat (num div base)" "0 \<notin> set ds" "ds \<noteq> []" "length ds \<le> j"
      using Suc.IH [of "num div base" j "?d # acc"] Suc.prems(3) j by auto
    have "base_val (unat base) (ds @ [?d]) = unat num"
      using ds(2) dv(1) q by (simp add: base_val_def)
    then show ?thesis
      using False get ds dv(2) j by (intro exI [of _ "ds @ [?d]"]) (auto simp: Let_def)
  qed
qed simp

lemma int_to_str_static_ok:
  assumes "2 \<le> unat base" "unat base \<le> 16"
  shows "\<exists>ds. int_to_str_static num base = Some (ds @ [0]) \<and>
     base_val (unat base) ds = unat num \<and> 0 \<notin> set ds \<and> ds \<noteq> [] \<and> length ds \<le> 32"
proof -
  have "base \<noteq> 0" using assms(1) by auto
  then show ?thesis
    using int_to_str_static_loop_ok [OF assms, of num 32 63 "[0]"] unat_less_32 [of num]
    by (simp add: int_to_str_static_def)
qed

section \<open>Search\<close>

definition matches :: "bytes \<Rightarrow> bytes \<Rightarrow> nat \<Rightarrow> nat \<Rightarrow> bool" where
  "matches s1 p n i \<longleftrightarrow> i + length p \<le> n \<and> take (length p) (drop i s1) = p"

lemma strnstr_loop_ok:
  assumes s2: "s2 = p @ 0 # r" "0 \<notin> set p" "p \<noteq> []" and l2: "unat l2 = length p"
    and n: "pos + unat len = n" "n \<le> length s1" and none: "\<forall>j<pos. \<not> matches s1 p n j"
  shows "\<exists>q. strnstr_loop s1 s2 pos len l2 = Some q \<and>
     (case q of Null \<Rightarrow> \<forall>j. \<not> matches s1 p n j
      | Ptr i \<Rightarrow> matches s1 p n i \<and> (\<forall>j<i. \<not> matches s1 p n j))"
  using n(1) none
proof (induction "unat len" arbitrary: pos len rule: less_induct)
  case less
  have l0: "l2 \<noteq> 0" using s2(3) l2 by auto
  show ?case
  proof (cases "len \<ge> l2")
    case True
    then have le: "length p \<le> unat len" by (simp add: word_le_nat_alt l2)
    then have "length p \<le> length (drop pos s1)" using less.prems(1) n(2) by simp
    then obtain c where c: "strncmp (drop pos s1) s2 l2 = Some c"
        "c = 0 \<longleftrightarrow> take (length p) (drop pos s1) = p"
      using strncmp_loop_prefix [of "length p" "drop pos s1" p r] s2 by (auto simp: strncmp_def l2)
    show ?thesis
    proof (cases "c = 0")
      case True
      then have "matches s1 p n pos" using c le less.prems(1) by (simp add: matches_def)
      then show ?thesis
        using True c \<open>l2 \<le> len\<close> l0 less.prems(2) by (subst strnstr_loop.simps) simp
    next
      case False
      have "len \<noteq> 0" using le s2(3) by auto
      then have u: "unat (len - 1) = unat len - 1" "0 < unat len"
        by (simp_all add: unat_minus_one unat_gt_0)
      have "\<not> matches s1 p n pos" using False c by (simp add: matches_def)
      then have "\<forall>j<Suc pos. \<not> matches s1 p n j" using less.prems(2) by (simp add: less_Suc_eq)
      then have "\<exists>q. strnstr_loop s1 s2 (pos + 1) (len - 1) l2 = Some q \<and>
         (case q of Null \<Rightarrow> \<forall>j. \<not> matches s1 p n j
          | Ptr i \<Rightarrow> matches s1 p n i \<and> (\<forall>j<i. \<not> matches s1 p n j))"
        using u less.prems(1) by (intro less.hyps) auto
      moreover have "strnstr_loop s1 s2 pos len l2 = strnstr_loop s1 s2 (pos + 1) (len - 1) l2"
        using False c(1) \<open>l2 \<le> len\<close> l0 by (subst strnstr_loop.simps) simp
      ultimately show ?thesis by simp
    qed
  next
    case False
    then have "unat len < length p" by (simp add: word_le_nat_alt l2 not_le)
    then have "\<not> matches s1 p n j" if "\<not> j < pos" for j
      using that less.prems(1) by (auto simp: matches_def)
    then show ?thesis using False less.prems(2) by (subst strnstr_loop.simps) auto
  qed
qed

section \<open>Properties\<close>

text \<open>
  C39. On objects that hold C strings, \<open>_strcmp\<close> returns the sign of the comparison of the strings
  and \<open>_strncmp\<close> that of their first \<open>n\<close> characters, without a read past the terminators; the
  result is 0 exactly for equal strings, and exchanging the arguments negates it.
\<close>

theorem strcmp_orders_strings:
  assumes "terminated cs" and "terminated ct"
  shows "strcmp cs ct = Some (cstr_order (cstr cs) (cstr ct)) \<and>
     strncmp cs ct n = Some (cstr_order (take (unat n) (cstr cs)) (take (unat n) (cstr ct))) \<and>
     (strcmp cs ct = Some 0 \<longleftrightarrow> cstr cs = cstr ct) \<and>
     strcmp ct cs = map_option uminus (strcmp cs ct)"
  using assms strncmp_loop_take [OF assms] strcmp_cstr [OF assms] strcmp_cstr [OF assms(2,1)]
    cstr_order_flip [of "cstr ct" "cstr cs"] by (simp add: strncmp_def)

theorem strcmp_orders_strings_witness:
  "strcmp [120, 121, 122, 0] [120, 121, 122, 122, 0] = Some (- 1) \<and>
   strncmp [97, 88, 0] [97, 89, 0] 1 = Some 0"
  using strcmp_orders_strings [of "[120, 121, 122, 0]" "[120, 121, 122, 122, 0]" 0]
    strcmp_orders_strings [of "[97, 88, 0]" "[97, 89, 0]" 1] by simp

text \<open>
  \<open>_int_to_str_s\<close> into a buffer of at least \<open>bufsize\<close> bytes never writes outside it. It returns 0
  and leaves a C string that reads back as the number when the sign, the digits and the terminator
  fit in \<open>bufsize\<close> bytes, and -1 otherwise; this covers the least \<open>int\<close>.
\<close>

theorem int_to_str_s_reads_back:
  assumes "unat bufsize \<le> length out"
  shows "\<exists>r out'. int_to_str_s out bufsize n = Some (r, out') \<and>
     (if length (digs (nat \<bar>sint n\<bar>)) + (if sint n < 0 then 2 else 1) \<le> unat bufsize
      then r = 0 \<and> dec_parse (cstr out') = sint n else r = - 1)"
proof (cases "sint n < 0")
  case True
  have p: "dec_parse (45 # rev (digs (nat (- sint n)))) = sint n"
    using True dec_val_digs by (simp add: dec_parse_def)
  show ?thesis
    using int_to_str_s_neg [OF assms True] True p by (auto split: if_splits)
next
  case False
  then have "dec_parse (rev (digs (nat (sint n)))) = sint n" by (simp add: dec_parse_digs)
  then show ?thesis
    using int_to_str_s_pos [OF assms, of n] False by (auto split: if_splits)
qed

theorem int_to_str_s_reads_back_witness:
  "\<exists>r out'. int_to_str_s (replicate 12 7) 12 (- 120) = Some (r, out') \<and> r = 0 \<and> dec_parse (cstr out') = - 120"
proof -
  have n: "sint (- 120 :: u32) = - 120" by simp
  have "length (digs (nat \<bar>sint (- 120 :: u32)\<bar>)) = 3" unfolding n by (simp add: digs.simps)
  with n int_to_str_s_reads_back [of 12 "replicate 12 7" "- 120"] show ?thesis
    by (simp only: n) (auto split: if_splits)
qed

text \<open>
  \<open>_int_to_str_static\<close> in a base from 2 to 16 stays inside its static buffer and returns a C
  string of at most 32 digits whose value in that base is the number.
\<close>

theorem int_to_str_static_reads_back:
  assumes "2 \<le> unat base" and "unat base \<le> 16"
  shows "\<exists>s. int_to_str_static num base = Some s \<and> terminated s \<and> cstr s \<noteq> [] \<and>
     length (cstr s) \<le> 32 \<and> base_val (unat base) (cstr s) = unat num"
  using int_to_str_static_ok [OF assms, of num] cstr_append [where xs = "[]"]
  by (fastforce simp: terminated_def)

theorem int_to_str_static_reads_back_witness:
  "int_to_str_static 0xBEEF 16 = Some [66, 69, 69, 70, 0] \<and>
   (\<exists>s. int_to_str_static 0xBEEF 16 = Some s \<and> base_val 16 (cstr s) = 0xBEEF)"
proof -
  have "int_to_str_static 0xBEEF 16 = Some [66, 69, 69, 70, 0]" by code_simp
  then show ?thesis using int_to_str_static_reads_back [of 16 "0xBEEF"] by auto
qed

text \<open>
  \<open>_strnstr\<close> searches the first \<open>len\<close> bytes of an object of at least that many: it returns the
  least index at which the pattern occurs completely within them, and \<open>NULL\<close> when there is none;
  the empty pattern is found at the start.
\<close>

theorem strnstr_finds_first:
  assumes "terminated s2" and "unat len \<le> length s1" and "length s2 < 2 ^ 32"
  shows "\<exists>q. strnstr s1 s2 len = Some q \<and>
     (case q of Null \<Rightarrow> \<forall>j. \<not> matches s1 (cstr s2) (unat len) j
      | Ptr i \<Rightarrow> (matches s1 (cstr s2) (unat len) i \<or> cstr s2 = [] \<and> i = 0) \<and>
               (\<forall>j<i. \<not> matches s1 (cstr s2) (unat len) j))"
proof (cases "cstr s2 = []")
  case True
  then show ?thesis using assms(1) by (simp add: strnstr_def strlen_cstr)
next
  case False
  obtain r where s2: "s2 = cstr s2 @ 0 # r" "0 \<notin> set (cstr s2)"
  proof -
    have "takeWhile (\<lambda>c. c \<noteq> 0) s2 @ dropWhile (\<lambda>c. c \<noteq> 0) s2 = s2" by simp
    moreover have "dropWhile (\<lambda>c. c \<noteq> 0) s2 \<noteq> []"
      using assms(1) by (auto simp: terminated_def)
    then have "dropWhile (\<lambda>c. c \<noteq> 0) s2 = 0 # tl (dropWhile (\<lambda>c. c \<noteq> 0) s2)"
      using hd_dropWhile [of "\<lambda>c. c \<noteq> 0" s2] by (metis (full_types) list.collapse)
    moreover have "0 \<notin> set (cstr s2)" unfolding cstr_def using set_takeWhileD by fast
    ultimately show thesis using that unfolding cstr_def by metis
  qed
  have "length (cstr s2) \<le> length s2" by (simp add: cstr_def length_takeWhile_le)
  then have l: "unat (of_nat (length (cstr s2)) :: u32) = length (cstr s2)"
    using assms(3) by (intro unat_of_nat_small) simp
  then have l0: "of_nat (length (cstr s2)) \<noteq> (0 :: u32)" using False by auto
  have "\<exists>q. strnstr_loop s1 s2 0 len (of_nat (length (cstr s2))) = Some q \<and>
     (case q of Null \<Rightarrow> \<forall>j. \<not> matches s1 (cstr s2) (unat len) j
      | Ptr i \<Rightarrow> matches s1 (cstr s2) (unat len) i \<and> (\<forall>j<i. \<not> matches s1 (cstr s2) (unat len) j))"
    using s2 False l assms(2) by (intro strnstr_loop_ok) auto
  then obtain q where q: "strnstr_loop s1 s2 0 len (of_nat (length (cstr s2))) = Some q"
    "case q of Null \<Rightarrow> \<forall>j. \<not> matches s1 (cstr s2) (unat len) j
      | Ptr i \<Rightarrow> matches s1 (cstr s2) (unat len) i \<and> (\<forall>j<i. \<not> matches s1 (cstr s2) (unat len) j)"
    by blast
  have "strnstr s1 s2 len = Some q"
    using q(1) l0 assms(1) by (simp add: strnstr_def strlen_cstr)
  then show ?thesis using q(2) by (cases q) auto
qed

theorem strnstr_finds_first_witness:
  "strnstr [95, 83, 53, 95, 83, 53, 95] [83, 53, 95, 0] 7 = Some (Ptr 1) \<and>
   matches [95, 83, 53, 95, 83, 53, 95] [83, 53, 95] 7 1"
proof -
  have "strnstr [95, 83, 53, 95, 83, 53, 95] [83, 53, 95, 0] 7 = Some (Ptr 1)" by code_simp
  then show ?thesis
    using strnstr_finds_first [of "[83, 53, 95, 0]" 7 "[95, 83, 53, 95, 83, 53, 95]"] by simp
qed

end
