(* ===== verification/Printf.thy ===== *)
theory Printf
  imports Strings Locks
begin

text \<open>
  \<^verbatim>\<open>kernel/utils/printf.c\<close> and the serial half of \<^verbatim>\<open>kernel/utils/debug.c\<close>: the two formatters. The format is a
  list of bytes, the variable arguments are a list of words and strings; fetching an argument of
  the wrong kind, or one that is not there, is a fault.

  The theorems: a format of conversions only is rendered as the concatenation of its conversions,
  cut at \<open>maxlen\<close> bytes; nothing outside the first \<open>maxlen\<close> bytes of the buffer is written; a literal
  character ends \<open>_snprintf\<close> after it; and \<open>_dbg_log\<close> sends formats with literals to the port completely.
\<close>

section \<open>Arguments\<close>

datatype arg = Arg_int u32 | Arg_str bytes

fun va_int :: "arg list \<Rightarrow> (u32 \<times> arg list) option" where
  "va_int (Arg_int i # args) = Some (i, args)"
| "va_int args = None"

fun va_str :: "arg list \<Rightarrow> (bytes \<times> arg list) option" where
  "va_str (Arg_str s # args) = Some (s, args)"
| "va_str args = None"

section \<open>The formatter into a buffer\<close>

text \<open>The state of the loop: the buffer, the position of \<open>buf\<close> in it, and \<open>len\<close>.\<close>

type_synonym out = "bytes \<times> nat \<times> u32"

datatype progress = Return bytes | Continue out

definition put_char :: "u8 \<Rightarrow> u32 \<Rightarrow> out \<Rightarrow> progress option" where
  "put_char c maxlen = (\<lambda>(buf, pos, len).
     do { buf \<leftarrow> arr_set buf pos c;
          let len = len + 1 in
          Some (if len \<ge> maxlen then Return buf else Continue (buf, pos + 1, len)) })"

definition put_str :: "bytes \<Rightarrow> u32 \<Rightarrow> out \<Rightarrow> progress option" where
  "put_str s maxlen = (\<lambda>(buf, pos, len).
     do { l \<leftarrow> strlen s;
          let l = (if len + l > maxlen then maxlen - len else l) in
          do { d \<leftarrow> memcpy_bytes (drop pos buf) s (unat l);
               let buf = take pos buf @ d; len = len + l in
               Some (if len \<ge> maxlen then Return buf else Continue (buf, pos + unat l, len)) } })"

text \<open>The switch over the conversion letter. The negation wraps for the smallest integer, where C leaves the result undefined.\<close>

definition convert :: "u8 \<Rightarrow> u32 \<Rightarrow> arg list \<Rightarrow> out \<Rightarrow> (progress \<times> arg list) option" where
  "convert letter maxlen args st =
     (if letter = 99 then do { (i, args) \<leftarrow> va_int args; r \<leftarrow> put_char (ucast i) maxlen st; Some (r, args) }
      else if letter = 100
      then do { (i, args) \<leftarrow> va_int args;
                if sint i < 0
                then let i = - i in
                     do { r \<leftarrow> put_char 45 maxlen st;
                          case r of Return buf \<Rightarrow> Some (Return buf, args)
                          | Continue st \<Rightarrow> do { s \<leftarrow> int_to_str_static i 10; r \<leftarrow> put_str s maxlen st; Some (r, args) } }
                else do { s \<leftarrow> int_to_str_static i 10; r \<leftarrow> put_str s maxlen st; Some (r, args) } }
      else if letter = 120
      then do { (i, args) \<leftarrow> va_int args; s \<leftarrow> int_to_str_static i 16; r \<leftarrow> put_str s maxlen st; Some (r, args) }
      else if letter = 115
      then do { (s, args) \<leftarrow> va_str args; r \<leftarrow> put_str s maxlen st; Some (r, args) }
      else Some (Continue st, args))"

text \<open>
  The inner loop over literal characters; it ends at a percent sign, or returns. \<open>char\<close> is signed, so
  the test \<open>*traverse >= '\0'\<close> holds for every byte below 128.
\<close>

datatype literal_result = Literal_return bytes | Literal_percent bytes out

fun literals :: "bytes \<Rightarrow> u32 \<Rightarrow> out \<Rightarrow> literal_result option" where
  "literals [] maxlen st = None"
| "literals (c # rest) maxlen (buf, pos, len) =
     (if c \<noteq> 37
      then do { buf \<leftarrow> arr_set buf pos c;
                let len = len + 1 in
                if len = maxlen then Some (Literal_return buf)
                else case rest of [] \<Rightarrow> None
                     | d # _ \<Rightarrow> if sint d \<ge> 0 then Some (Literal_return buf)
                               else literals rest maxlen (buf, pos + 1, len) }
      else Some (Literal_percent rest (buf, pos, len)))"

lemmas literals_unfold = literals.simps(2)
declare literals.simps(2) [simp del]

lemma literals_shorter:
  "literals fmt maxlen st = Some (Literal_percent rest st') \<Longrightarrow> length rest < length fmt"
proof (induction fmt arbitrary: st)
  case (Cons c fmt)
  obtain buf pos len where st: "st = (buf, pos, len)" by (cases st)
  show ?case
  proof (cases "c = 37")
    case True
    then show ?thesis using Cons.prems by (auto simp: st literals_unfold)
  next
    case False
    then obtain buf' where "literals fmt maxlen (buf', pos + 1, len + 1) = Some (Literal_percent rest st')"
      using Cons.prems unfolding st literals_unfold
      by (auto simp: Let_def Option.bind_eq_Some_conv split: if_splits list.splits)
    then show ?thesis using Cons.IH by fastforce
  qed
qed simp

function snprintf_loop :: "bytes \<Rightarrow> u32 \<Rightarrow> arg list \<Rightarrow> out \<Rightarrow> bytes option" where
  "snprintf_loop fmt maxlen args st =
     (case fmt of [] \<Rightarrow> None
      | c # _ \<Rightarrow>
        if c = 0 then Some (fst st)
        else case literals fmt maxlen st of None \<Rightarrow> None
             | Some (Literal_return buf) \<Rightarrow> Some buf
             | Some (Literal_percent [] st) \<Rightarrow> None
             | Some (Literal_percent (letter # rest) st) \<Rightarrow>
                 (case convert letter maxlen args st of None \<Rightarrow> None
                  | Some (Return buf, args) \<Rightarrow> Some buf
                  | Some (Continue st, args) \<Rightarrow> snprintf_loop rest maxlen args st))"
  by pat_completeness auto
termination
  by (relation "measure (\<lambda>(fmt, maxlen, args, st). length fmt)") (auto dest!: literals_shorter)

declare snprintf_loop.simps [simp del]

definition snprintf :: "bytes \<Rightarrow> u32 \<Rightarrow> bytes \<Rightarrow> arg list \<Rightarrow> bytes option" where
  "snprintf buf maxlen format args = snprintf_loop format maxlen args (buf, 0, 0)"

section \<open>The formatter to the serial port\<close>

text \<open>What is sent, the lock of the logger, and the flags of the processor.\<close>

record dbg =
  sent :: bytes
  dbg_lock :: spinlock
  dbg_eflags :: u32

definition dbg_serial :: "bytes \<Rightarrow> dbg \<Rightarrow> dbg option" where
  "dbg_serial s st = do { l \<leftarrow> strlen s; Some (st\<lparr>sent := sent st @ take (unat l) s\<rparr>) }"

definition dbg_unlock :: "dbg \<Rightarrow> dbg" where
  "dbg_unlock st = (let (p, e) = spinlock_unlock (dbg_lock st) (dbg_eflags st)
     in st\<lparr>dbg_lock := p, dbg_eflags := e\<rparr>)"

definition dbg_convert :: "u8 \<Rightarrow> arg list \<Rightarrow> dbg \<Rightarrow> (dbg \<times> arg list) option" where
  "dbg_convert letter args st =
     (if letter = 99 then do { (i, args) \<leftarrow> va_int args; Some (st\<lparr>sent := sent st @ [ucast i]\<rparr>, args) }
      else if letter = 117
      then do { (u, args) \<leftarrow> va_int args; s \<leftarrow> int_to_str_static u 10; st \<leftarrow> dbg_serial s st; Some (st, args) }
      else if letter = 100
      then do { (i, args) \<leftarrow> va_int args;
                let (i, st) = (if sint i < 0 then (- i, st\<lparr>sent := sent st @ [45]\<rparr>) else (i, st)) in
                do { s \<leftarrow> int_to_str_static i 10; st \<leftarrow> dbg_serial s st; Some (st, args) } }
      else if letter = 111
      then do { (i, args) \<leftarrow> va_int args; s \<leftarrow> int_to_str_static i 8; st \<leftarrow> dbg_serial s st; Some (st, args) }
      else if letter = 115
      then do { (s, args) \<leftarrow> va_str args; st \<leftarrow> dbg_serial s st; Some (st, args) }
      else if letter = 120
      then do { (i, args) \<leftarrow> va_int args; s \<leftarrow> int_to_str_static i 16; st \<leftarrow> dbg_serial s st; Some (st, args) }
      else Some (st, args))"

text \<open>The literal loop: it returns, unlocking, at the terminator, or stops at a percent sign.\<close>

fun dbg_literals :: "bytes \<Rightarrow> dbg \<Rightarrow> (dbg + bytes \<times> dbg) option" where
  "dbg_literals [] st = None"
| "dbg_literals (c # rest) st =
     (if c \<noteq> 37
      then let st = st\<lparr>sent := sent st @ [c]\<rparr> in
           case rest of [] \<Rightarrow> None
           | d # _ \<Rightarrow> if d = 0 then Some (Inl (dbg_unlock st)) else dbg_literals rest st
      else Some (Inr (rest, st)))"

lemmas dbg_literals_unfold = dbg_literals.simps(2)
declare dbg_literals.simps(2) [simp del]

lemma dbg_literals_shorter: "dbg_literals fmt st = Some (Inr (rest, st')) \<Longrightarrow> length rest < length fmt"
proof (induction fmt arbitrary: st)
  case (Cons c fmt)
  show ?case
  proof (cases "c = 37")
    case True
    then show ?thesis using Cons.prems by (auto simp: dbg_literals_unfold)
  next
    case False
    then have "dbg_literals fmt (st\<lparr>sent := sent st @ [c]\<rparr>) = Some (Inr (rest, st'))"
      using Cons.prems unfolding dbg_literals_unfold by (auto simp: Let_def split: if_splits list.splits)
    then show ?thesis using Cons.IH by fastforce
  qed
qed simp

function dbg_log_loop :: "bytes \<Rightarrow> arg list \<Rightarrow> dbg \<Rightarrow> dbg option" where
  "dbg_log_loop fmt args st =
     (case fmt of [] \<Rightarrow> None
      | c # _ \<Rightarrow>
        if c = 0 then Some st
        else case dbg_literals fmt st of None \<Rightarrow> None
             | Some (Inl st) \<Rightarrow> Some st
             | Some (Inr ([], st)) \<Rightarrow> None
             | Some (Inr (letter # rest, st)) \<Rightarrow>
                 (case dbg_convert letter args st of None \<Rightarrow> None
                  | Some (st, args) \<Rightarrow> dbg_log_loop rest args st))"
  by pat_completeness auto
termination
  by (relation "measure (\<lambda>(fmt, args, st). length fmt)") (auto dest!: dbg_literals_shorter)

declare dbg_log_loop.simps [simp del]

definition dbg_log :: "bytes \<Rightarrow> arg list \<Rightarrow> dbg \<Rightarrow> dbg option" where
  "dbg_log format args st = dbg_log_loop format args st"

section \<open>Emitting bytes\<close>

text \<open>The common effect of the writers: append \<open>ds\<close>, cut at \<open>maxlen\<close>.\<close>

fun emit :: "bytes \<Rightarrow> u32 \<Rightarrow> out \<Rightarrow> progress" where
  "emit ds maxlen (buf, pos, len) =
     (if unat maxlen \<le> pos + length ds then Return (put buf pos (take (unat maxlen - pos) ds))
      else Continue (put buf pos ds, pos + length ds, of_nat (pos + length ds)))"

fun out_ok :: "u32 \<Rightarrow> nat \<Rightarrow> out \<Rightarrow> bool" where
  "out_ok maxlen n (buf, pos, len) \<longleftrightarrow> length buf = n \<and> pos = unat len \<and> pos < unat maxlen"

lemma put_put:
  "pos + length ds + length es \<le> length buf \<Longrightarrow> put (put buf pos ds) (pos + length ds) es = put buf pos (ds @ es)"
  by (simp add: put_def ac_simps)

lemma put_char_emit:
  assumes "out_ok maxlen n st" "unat maxlen \<le> n"
  shows "put_char c maxlen st = Some (emit [c] maxlen st)"
proof -
  obtain buf pos len where st: "st = (buf, pos, len)" by (cases st)
  have pos: "pos = unat len" "pos < unat maxlen" "pos < length buf" using assms by (auto simp: st)
  then have "len < maxlen" by (simp add: word_less_nat_alt)
  then have u: "unat (len + 1) = pos + 1" using unat_inc pos(1) by auto
  then have "len + 1 = of_nat (pos + 1)" by (metis word_of_unat)
  moreover have "len + 1 \<ge> maxlen \<longleftrightarrow> unat maxlen \<le> pos + 1" using u by (simp add: word_le_nat_alt)
  moreover have "take (unat maxlen - pos) [c] = [c]" using pos(2) by (simp add: take_Cons')
  ultimately show ?thesis
    using pos by (simp add: put_char_def st Let_def put_single)
qed

lemma put_str_emit:
  assumes st: "out_ok maxlen n st" and n: "unat maxlen \<le> n"
    and s: "terminated s" "length (cstr s) < 2 ^ 31" "unat maxlen \<le> 2 ^ 31"
  shows "put_str s maxlen st = Some (emit (cstr s) maxlen st)"
proof -
  obtain buf pos len where eq: "st = (buf, pos, len)" by (cases st)
  have pos: "pos = unat len" "pos < unat maxlen" "length buf = n" using st by (auto simp: eq)
  let ?k = "length (cstr s)"
  define l where "l = (if len + of_nat ?k > maxlen then maxlen - len else of_nat ?k)"
  have k: "unat (of_nat ?k :: u32) = ?k" using s(2) by (intro unat_of_nat_small) simp
  have sum: "unat (len + of_nat ?k) = pos + ?k" using k pos s by (subst unat_add_less) auto
  have over: "len + of_nat ?k > maxlen \<longleftrightarrow> unat maxlen < pos + ?k" using sum by (simp add: word_less_nat_alt)
  have "len \<le> maxlen" using pos by (simp add: word_le_nat_alt)
  then have lu: "unat l = min ?k (unat maxlen - pos)"
    using over k pos by (auto simp: l_def unat_sub)
  have len': "unat (len + l) = pos + min ?k (unat maxlen - pos)"
    using lu pos s(3) by (subst unat_add_less) auto
  then have lw: "len + l = of_nat (pos + min ?k (unat maxlen - pos))" by (metis word_of_unat)
  have take: "take (unat l) s = take (unat maxlen - pos) (cstr s)"
  proof -
    have "take m s = take m (cstr s)" if "m \<le> ?k" for m
    proof -
      have "s = cstr s @ dropWhile (\<lambda>c. c \<noteq> 0) s" unfolding cstr_def by simp
      then show ?thesis using that by (metis append_take_drop_id diff_is_0_eq take0 take_append append_Nil2)
    qed
    then have "take (unat l) s = take (unat l) (cstr s)" using lu by simp
    also have "\<dots> = take (unat maxlen - pos) (cstr s)" unfolding lu by (cases "?k \<le> unat maxlen - pos") auto
    finally show ?thesis .
  qed
  have "?k \<le> length s" by (simp add: cstr_def length_takeWhile_le)
  have cp: "memcpy_bytes (drop pos buf) s (unat l) =
      Some (take (unat maxlen - pos) (cstr s) @ drop (unat l) (drop pos buf))"
  proof -
    have "unat l \<le> length (drop pos buf)" "unat l \<le> length s" using lu pos n \<open>?k \<le> length s\<close> by auto
    then show ?thesis by (simp add: memcpy_bytes_ok take)
  qed
  have fin: "take pos buf @ take (unat maxlen - pos) (cstr s) @ drop (unat l) (drop pos buf) =
      put buf pos (take (unat maxlen - pos) (cstr s))"
    using lu pos n by (simp add: put_def add.commute min.commute)
  have "len + l \<ge> maxlen \<longleftrightarrow> unat maxlen \<le> pos + ?k"
    unfolding word_le_nat_alt len' using pos by auto
  moreover have "put_str s maxlen st = Some (if len + l \<ge> maxlen then Return (put buf pos (take (unat maxlen - pos) (cstr s)))
      else Continue (put buf pos (take (unat maxlen - pos) (cstr s)), pos + unat l, len + l))"
    using s(1) cp fin by (simp add: put_str_def eq strlen_cstr Let_def flip: l_def)
  ultimately show ?thesis
    using lu lw by (auto simp: eq)
qed

lemma emit_append:
  assumes "out_ok maxlen n st" "unat maxlen \<le> n"
  shows "(case emit ds maxlen st of Return buf \<Rightarrow> Return buf | Continue st' \<Rightarrow> emit es maxlen st') =
     emit (ds @ es) maxlen st"
proof -
  obtain buf pos len where st: "st = (buf, pos, len)" by (cases st)
  have pos: "pos < unat maxlen" "length buf = n" using assms by (auto simp: st)
  show ?thesis
  proof (cases "unat maxlen \<le> pos + length ds")
    case True
    then show ?thesis by (simp add: st)
  next
    case False
    then have "length ds \<le> unat maxlen - pos" by simp
    then have "ds @ take (unat maxlen - (pos + length ds)) es = take (unat maxlen - pos) (ds @ es)" by simp
    moreover have "pos + length ds + length (take (unat maxlen - (pos + length ds)) es) \<le> length buf"
      using False assms(2) pos by auto
    moreover have "pos + length ds + length es \<le> length buf" if "\<not> unat maxlen \<le> pos + length ds + length es"
      using that assms(2) pos by auto
    ultimately show ?thesis
      using False put_put [of pos ds "take (unat maxlen - (pos + length ds)) es" buf]
        put_put [of pos ds es buf] by (auto simp: st add.assoc)
  qed
qed

lemma emit_continue:
  assumes "out_ok maxlen n st" "unat maxlen \<le> n" "unat maxlen \<le> 2 ^ 31" "emit ds maxlen st = Continue st'"
  shows "out_ok maxlen n st'"
proof -
  obtain buf pos len where st: "st = (buf, pos, len)" by (cases st)
  have lt: "pos + length ds < unat maxlen" using assms(4) by (simp add: st split: if_splits)
  then have "unat (of_nat (pos + length ds) :: u32) = pos + length ds"
    using assms(3) by (intro unat_of_nat_small) simp
  then show ?thesis using assms lt by (auto simp: st split: if_splits simp del: of_nat_add)
qed

section \<open>Rendering\<close>

definition number_str :: "u32 \<Rightarrow> u32 \<Rightarrow> bytes" where
  "number_str n base = cstr (the (int_to_str_static n base))"

definition decimal :: "u32 \<Rightarrow> bytes" where
  "decimal i = (if sint i < 0 then 45 # number_str (- i) 10 else number_str i 10)"

text \<open>What one conversion of \<open>_snprintf\<close> prints, for the letters and arguments it knows.\<close>

fun render :: "u8 \<times> arg \<Rightarrow> bytes" where
  "render (letter, Arg_int i) =
     (if letter = 99 then [ucast i] else if letter = 100 then decimal i else number_str i 16)"
| "render (letter, Arg_str s) = cstr s"

fun conv_ok :: "u8 \<times> arg \<Rightarrow> bool" where
  "conv_ok (letter, Arg_int i) \<longleftrightarrow> letter = 99 \<or> letter = 100 \<or> letter = 120"
| "conv_ok (letter, Arg_str s) \<longleftrightarrow> letter = 115 \<and> terminated s \<and> length (cstr s) < 2 ^ 31"

lemma number_str_static:
  assumes "2 \<le> unat base" "unat base \<le> 16"
  obtains s where "int_to_str_static n base = Some s" "terminated s" "cstr s = number_str n base"
    "length (cstr s) < 2 ^ 31"
proof -
  obtain ds where ds: "int_to_str_static n base = Some (ds @ [0])" "0 \<notin> set ds" "length ds \<le> 32"
    using int_to_str_static_ok [OF assms, of n] by blast
  then show thesis
    using that [of "ds @ [0]"] cstr_append [OF ds(2), of "[]"] by (simp add: number_str_def terminated_def)
qed

lemma put_number_emit:
  assumes "out_ok maxlen n st" "unat maxlen \<le> n" "unat maxlen \<le> 2 ^ 31" "2 \<le> unat base" "unat base \<le> 16"
  shows "do { s \<leftarrow> int_to_str_static i base; r \<leftarrow> put_str s maxlen st; Some (r, args) } =
     Some (emit (number_str i base) maxlen st, args)"
proof -
  obtain s where s: "int_to_str_static i base = Some s" "terminated s" "cstr s = number_str i base"
      "length (cstr s) < 2 ^ 31"
    by (rule number_str_static [OF assms(4,5)])
  then show ?thesis using put_str_emit [OF assms(1,2) s(2,4) assms(3)] by simp
qed

lemma convert_emit:
  assumes st: "out_ok maxlen n st" "unat maxlen \<le> n" "unat maxlen \<le> 2 ^ 31" and "conv_ok (letter, a)"
  shows "convert letter maxlen (a # args) st = Some (emit (render (letter, a)) maxlen st, args)"
proof (cases a)
  case (Arg_str s)
  then show ?thesis using assms(4) put_str_emit [OF st(1,2) _ _ st(3), of s] by (simp add: convert_def)
next
  case (Arg_int i)
  note num = put_number_emit [OF st, of 10] put_number_emit [OF st, of 16]
  consider "letter = 99" | "letter = 100" | "letter = 120" using assms(4) Arg_int by auto
  then show ?thesis
  proof cases
    case 1
    then show ?thesis using Arg_int put_char_emit [OF st(1,2)] by (simp add: convert_def)
  next
    case 3
    then show ?thesis using Arg_int num by (simp add: convert_def)
  next
    case 2
    show ?thesis
    proof (cases "sint i < 0")
      case False
      then show ?thesis using 2 Arg_int num by (simp add: convert_def decimal_def)
    next
      case True
      have "convert letter maxlen (a # args) st = (case emit [45] maxlen st of
          Return buf \<Rightarrow> Some (Return buf, args)
        | Continue st' \<Rightarrow> do { s \<leftarrow> int_to_str_static (- i) 10; r \<leftarrow> put_str s maxlen st'; Some (r, args) })"
        using 2 Arg_int True put_char_emit [OF st(1,2)] by (simp add: convert_def Let_def)
      also have "\<dots> = Some (case emit [45] maxlen st of Return buf \<Rightarrow> Return buf
          | Continue st' \<Rightarrow> emit (number_str (- i) 10) maxlen st', args)"
      proof (cases "emit [45] maxlen st")
        case (Continue st')
        then show ?thesis
          using put_number_emit [OF emit_continue [OF st Continue] st(2,3), of 10 "- i"]
          by (simp del: emit.simps)
      qed simp
      also have "\<dots> = Some (emit (render (letter, a)) maxlen st, args)"
        using 2 Arg_int True emit_append [OF st(1,2), of "number_str (- i) 10" "[45]"]
        by (simp add: decimal_def)
      finally show ?thesis .
    qed
  qed
qed

text \<open>A format of conversions only.\<close>

fun conv_format :: "(u8 \<times> arg) list \<Rightarrow> bytes" where
  "conv_format [] = [0]"
| "conv_format ((letter, a) # cs) = 37 # letter # conv_format cs"

lemma literals_percent: "literals (37 # rest) maxlen st = Some (Literal_percent rest st)"
  by (cases st) (simp add: literals_unfold)

lemma snprintf_loop_convs:
  assumes "out_ok maxlen n st" "unat maxlen \<le> n" "unat maxlen \<le> 2 ^ 31" "\<forall>c\<in>set cs. conv_ok c"
  shows "snprintf_loop (conv_format cs) maxlen (map snd cs) st =
     (case emit (concat (map render cs)) maxlen st of Return buf \<Rightarrow> Some buf | Continue st \<Rightarrow> Some (fst st))"
  using assms(1,4)
proof (induction cs arbitrary: st)
  case Nil
  then obtain buf pos len where "st = (buf, pos, len)" "pos < unat maxlen" by (cases st) auto
  then show ?case by (simp add: snprintf_loop.simps put_def)
next
  case (Cons c cs)
  obtain letter a where c: "c = (letter, a)" by (cases c)
  have conv: "convert letter maxlen (a # map snd cs) st = Some (emit (render c) maxlen st, map snd cs)"
    using convert_emit [OF Cons.prems(1) assms(2,3)] Cons.prems(2) c by simp
  have "snprintf_loop (conv_format (c # cs)) maxlen (map snd (c # cs)) st =
     (case emit (render c) maxlen st of Return buf \<Rightarrow> Some buf
      | Continue st \<Rightarrow> snprintf_loop (conv_format cs) maxlen (map snd cs) st)"
    using conv by (subst snprintf_loop.simps) (simp add: c literals_percent split: progress.splits)
  also have "\<dots> = (case (case emit (render c) maxlen st of Return buf \<Rightarrow> Return buf
        | Continue st' \<Rightarrow> emit (concat (map render cs)) maxlen st') of Return buf \<Rightarrow> Some buf
      | Continue st \<Rightarrow> Some (fst st))"
    using Cons.IH [OF emit_continue [OF Cons.prems(1) assms(2,3)]] Cons.prems(2)
    by (auto split: progress.splits)
  also have "\<dots> = (case emit (concat (map render (c # cs))) maxlen st of Return buf \<Rightarrow> Some buf
      | Continue st \<Rightarrow> Some (fst st))"
    using emit_append [OF Cons.prems(1) assms(2)] by simp
  finally show ?case .
qed

section \<open>Properties\<close>

text \<open>
  C37. \<open>_snprintf\<close> on a format of conversions with matching arguments writes the concatenation of
  the rendered arguments, cut at \<open>maxlen\<close> bytes, to the front of the buffer, and changes nothing
  else; no terminator is written.
\<close>

theorem snprintf_conversions:
  assumes "0 < unat maxlen" and "unat maxlen \<le> length buf" and "unat maxlen \<le> 2 ^ 31"
    and "\<forall>c\<in>set cs. conv_ok c"
  shows "snprintf buf maxlen (conv_format cs) (map snd cs) =
     Some (put buf 0 (take (unat maxlen) (concat (map render cs))))"
proof -
  have "out_ok maxlen (length buf) (buf, 0, 0)" using assms(1) by simp
  from snprintf_loop_convs [OF this assms(2-4)] show ?thesis
    by (auto simp: snprintf_def)
qed

theorem snprintf_conversions_witness:
  "snprintf [0, 0, 0, 0, 0, 0, 0, 0] 8 [37, 100, 37, 115, 37, 100, 0]
     [Arg_int (- 123), Arg_str [79, 75, 0], Arg_int 8] = Some [45, 49, 50, 51, 79, 75, 56, 0]"
proof -
  let ?cs = "[(100, Arg_int (- 123)), (115, Arg_str [79, 75, 0]), (100, Arg_int 8)] :: (u8 \<times> arg) list"
  have num: "number_str 123 10 = [49, 50, 51]" "number_str 8 10 = [56]" by code_simp+
  have neg: "sint (- 123 :: u32) < 0" "\<not> sint (8 :: u32) < 0" by simp_all
  have r: "concat (map render ?cs) = [45, 49, 50, 51, 79, 75, 56]"
    using num neg by (simp add: decimal_def)
  have "snprintf [0, 0, 0, 0, 0, 0, 0, 0] 8 (conv_format ?cs) (map snd ?cs) =
      Some (put [0, 0, 0, 0, 0, 0, 0, 0] 0 (take (unat (8 :: u32)) (concat (map render ?cs))))"
    by (rule snprintf_conversions) simp_all
  then show ?thesis unfolding r by (simp add: put_def)
qed

text \<open>
  A literal character ends \<open>_snprintf\<close>: when the format starts with a character other than the
  percent sign, followed by any byte below 128, only that one character is written, whatever the
  rest of the format and the arguments are.
\<close>

theorem snprintf_literal_stops:
  assumes "c \<noteq> 0" and "c \<noteq> 37" and "unat d < 128" and "buf \<noteq> []"
  shows "snprintf buf maxlen (c # d # rest) args = Some (buf[0 := c])"
proof -
  have "0 \<le> sint d" using assms(3) by (simp add: sint_unat_8)
  then have "literals (c # d # rest) maxlen (buf, 0, 0) = Some (Literal_return (buf[0 := c]))"
    using assms by (simp add: literals_unfold Let_def)
  then show ?thesis
    using assms by (simp add: snprintf_def snprintf_loop.simps)
qed

theorem snprintf_literal_stops_witness:
  "snprintf [0, 0, 0, 0] 4 [72, 105, 37, 100, 0] [Arg_int 5] = Some [72, 0, 0, 0]"
  using snprintf_literal_stops [of 72 105 "[0, 0, 0, 0]" 4 "[37, 100, 0]"] by simp

section \<open>The logger\<close>

text \<open>A format as a list of literal characters and conversions, and what it prints.\<close>

datatype piece = Lit u8 | Conv u8 arg

fun piece_ok :: "piece \<Rightarrow> bool" where
  "piece_ok (Lit c) \<longleftrightarrow> c \<noteq> 0 \<and> c \<noteq> 37"
| "piece_ok (Conv letter (Arg_int i)) \<longleftrightarrow> letter \<in> {99, 117, 100, 111, 120}"
| "piece_ok (Conv letter (Arg_str s)) \<longleftrightarrow> letter = 115 \<and> terminated s \<and> length (cstr s) < 2 ^ 32"

fun piece_str :: "piece \<Rightarrow> bytes" where
  "piece_str (Lit c) = [c]"
| "piece_str (Conv letter (Arg_int i)) =
     (if letter = 99 then [ucast i] else if letter = 117 then number_str i 10
      else if letter = 100 then decimal i else if letter = 111 then number_str i 8 else number_str i 16)"
| "piece_str (Conv letter (Arg_str s)) = cstr s"

fun format_of :: "piece list \<Rightarrow> bytes" where
  "format_of [] = [0]"
| "format_of (Lit c # ps) = c # format_of ps"
| "format_of (Conv letter a # ps) = 37 # letter # format_of ps"

fun args_of :: "piece list \<Rightarrow> arg list" where
  "args_of [] = []"
| "args_of (Lit c # ps) = args_of ps"
| "args_of (Conv letter a # ps) = a # args_of ps"

lemma dbg_serial_sent:
  assumes "terminated s" "length (cstr s) < 2 ^ 32"
  shows "dbg_serial s st = Some (st\<lparr>sent := sent st @ cstr s\<rparr>)"
proof -
  have "unat (of_nat (length (cstr s)) :: u32) = length (cstr s)"
    using assms(2) by (intro unat_of_nat_small) simp
  moreover have "take (length (cstr s)) s = cstr s"
    unfolding cstr_def by (metis takeWhile_eq_take)
  ultimately show ?thesis using assms(1) by (simp add: dbg_serial_def strlen_cstr)
qed

lemma dbg_serial_number:
  assumes "2 \<le> unat base" "unat base \<le> 16"
  shows "(int_to_str_static i base \<bind> (\<lambda>s. dbg_serial s st \<bind> f)) =
     f (st\<lparr>sent := sent st @ number_str i base\<rparr>)"
proof -
  obtain s where s: "int_to_str_static i base = Some s" "terminated s" "cstr s = number_str i base"
      "length (cstr s) < 2 ^ 31"
    by (rule number_str_static [OF assms])
  then show ?thesis using dbg_serial_sent [OF s(2), of st] by simp
qed

lemma dbg_convert_sent:
  assumes "piece_ok (Conv letter a)"
  shows "dbg_convert letter (a # args) st =
     Some (st\<lparr>sent := sent st @ piece_str (Conv letter a)\<rparr>, args)"
proof (cases a)
  case (Arg_str s)
  then show ?thesis using assms dbg_serial_sent by (simp add: dbg_convert_def)
next
  case (Arg_int i)
  then show ?thesis
    using assms by (auto simp: dbg_convert_def dbg_serial_number decimal_def)
qed

lemma format_of_hd: "\<forall>p\<in>set ps. piece_ok p \<Longrightarrow> \<exists>c r. format_of ps = c # r \<and> (c = 0 \<longleftrightarrow> ps = [])"
  by (cases ps rule: format_of.cases) auto

lemma dbg_unlock_sent [simp]: "sent (dbg_unlock st) = sent st"
  by (simp add: dbg_unlock_def split: prod.splits)

lemma dbg_log_loop_lit:
  assumes "c \<noteq> 0" "c \<noteq> 37" "d \<noteq> 0"
  shows "dbg_log_loop (c # d # r) args st = dbg_log_loop (d # r) args (st\<lparr>sent := sent st @ [c]\<rparr>)"
proof -
  have "dbg_literals (c # d # r) st = dbg_literals (d # r) (st\<lparr>sent := sent st @ [c]\<rparr>)"
    using assms by (subst dbg_literals_unfold) (simp add: Let_def)
  then show ?thesis
    using assms by (subst (1 2) dbg_log_loop.simps) simp
qed

lemma dbg_log_loop_last:
  assumes "c \<noteq> 0" "c \<noteq> 37"
  shows "dbg_log_loop [c, 0] args st = Some (dbg_unlock (st\<lparr>sent := sent st @ [c]\<rparr>))"
  using assms by (subst dbg_log_loop.simps) (simp add: dbg_literals_unfold Let_def)

lemma dbg_log_loop_conv:
  assumes "piece_ok (Conv letter a)"
  shows "dbg_log_loop (37 # letter # r) (a # args) st =
     dbg_log_loop r args (st\<lparr>sent := sent st @ piece_str (Conv letter a)\<rparr>)"
  using dbg_convert_sent [OF assms] by (subst dbg_log_loop.simps) (simp add: dbg_literals_unfold)

text \<open>
  \<open>_dbg_log\<close> on a format of literal characters and conversions with matching arguments returns,
  and the bytes it has sent to the port are the literal characters and the rendered arguments in
  order.
\<close>

theorem dbg_log_sends_format:
  assumes "\<forall>p\<in>set ps. piece_ok p"
  shows "\<exists>st'. dbg_log (format_of ps) (args_of ps) st = Some st' \<and>
     sent st' = sent st @ concat (map piece_str ps)"
  unfolding dbg_log_def using assms
proof (induction ps arbitrary: st rule: format_of.induct)
  case 1
  then show ?case by (simp add: dbg_log_loop.simps)
next
  case (2 c ps)
  show ?case
  proof (cases "ps = []")
    case True
    then show ?thesis using 2 dbg_log_loop_last [of c] by simp
  next
    case False
    then obtain d r where d: "format_of ps = d # r" "d \<noteq> 0" using format_of_hd [of ps] 2 by auto
    then show ?thesis
      using "2.prems" "2.IH" [of "st\<lparr>sent := sent st @ [c]\<rparr>"] dbg_log_loop_lit [of c d r] by auto
  qed
next
  case (3 letter a ps)
  then show ?case
    using dbg_log_loop_conv [of letter a] "3.IH" [of "st\<lparr>sent := sent st @ piece_str (Conv letter a)\<rparr>"]
    by auto
qed

theorem dbg_log_sends_format_witness:
  "\<exists>st'. dbg_log [91, 37, 117, 93, 10, 0] [Arg_int 42]
       \<lparr>sent = [], dbg_lock = spinlock_init undefined, dbg_eflags = 2\<rparr> = Some st' \<and>
     sent st' = [91, 52, 50, 93, 10]"
proof -
  let ?ps = "[Lit 91, Conv 117 (Arg_int 42), Lit 93, Lit 10]"
  let ?st = "\<lparr>sent = [], dbg_lock = spinlock_init undefined, dbg_eflags = 2\<rparr>"
  have num: "number_str 42 10 = [52, 50]" by code_simp
  have "\<exists>st'. dbg_log (format_of ?ps) (args_of ?ps) ?st = Some st' \<and>
      sent st' = sent ?st @ concat (map piece_str ?ps)"
    by (rule dbg_log_sends_format) simp
  then show ?thesis by (simp add: num)
qed

end
