(* ===== verification/Font.thy ===== *)
theory Font
  imports Prelude
begin

text \<open>
  \<^verbatim>\<open>kernel/shell/font.c\<close>: the table of glyphs. A glyph is nine rows of one byte, the most significant bit
  leftmost; the table holds the 256 glyphs in code order. The rows are given in groups of eleven
  glyphs, \<open>font_rows_k\<close> starting at the glyph of code \<open>k\<close>.
\<close>

section \<open>The table\<close>

definition font_rows_000 :: bytes where
  "font_rows_000 =
     [0x0, 0x0, 0x0, 0x0, 0x0, 0x0, 0x0, 0x0, 0x0,
      0x38, 0x44, 0xaa, 0xaa, 0x82, 0xaa, 0x94, 0x78, 0x0,
      0x38, 0x7c, 0xd6, 0xd6, 0xfe, 0xba, 0xc6, 0x7c, 0x0,
      0x0, 0x6c, 0xfe, 0xfe, 0xfe, 0x7c, 0x38, 0x10, 0x0,
      0x0, 0x10, 0x38, 0x7c, 0xfe, 0x7c, 0x38, 0x10, 0x0,
      0x38, 0x38, 0x10, 0xd6, 0xfe, 0xd6, 0x10, 0x7c, 0x0,
      0x10, 0x38, 0x7c, 0xfe, 0xfe, 0x54, 0x10, 0x38, 0x0,
      0x0, 0x0, 0x18, 0x3c, 0x3c, 0x18, 0x0, 0x0, 0x0,
      0xfe, 0xfe, 0xe6, 0xc2, 0xc2, 0xe6, 0xfe, 0xfe, 0xfe,
      0x0, 0x18, 0x3c, 0x66, 0x66, 0x3c, 0x18, 0x0, 0x0,
      0xfe, 0xe6, 0xc2, 0x98, 0x98, 0xc2, 0xe6, 0xfe, 0xfe]"

definition font_rows_011 :: bytes where
  "font_rows_011 =
     [0xe, 0x6, 0xa, 0x18, 0x3c, 0x66, 0x66, 0x3c, 0x0,
      0x3c, 0x66, 0x66, 0x3c, 0x18, 0x3c, 0x18, 0x18, 0x0,
      0x0, 0x38, 0x2c, 0x20, 0x20, 0x20, 0x60, 0x60, 0x0,
      0x0, 0x3c, 0x24, 0x3c, 0x24, 0x24, 0x6c, 0x6c, 0x0,
      0x92, 0x54, 0x38, 0x28, 0xee, 0x38, 0x54, 0x92, 0x0,
      0x0, 0x20, 0x30, 0x38, 0x3c, 0x38, 0x30, 0x20, 0x0,
      0x0, 0x4, 0xc, 0x1c, 0x3c, 0x1c, 0xc, 0x4, 0x0,
      0x10, 0x38, 0x7c, 0x10, 0x10, 0x7c, 0x38, 0x10, 0x0,
      0x6c, 0x6c, 0x6c, 0x6c, 0x6c, 0x0, 0x6c, 0x6c, 0x0,
      0x0, 0x3c, 0x54, 0x54, 0x3c, 0x14, 0x14, 0x14, 0x0,
      0x3c, 0x66, 0x60, 0x3c, 0x66, 0x66, 0x3c, 0x6, 0x66]"

definition font_rows_022 :: bytes where
  "font_rows_022 =
     [0x0, 0x0, 0x0, 0x0, 0x0, 0x7c, 0x7c, 0x0, 0x0,
      0x10, 0x38, 0x7c, 0x10, 0x10, 0x7c, 0x38, 0x10, 0x7c,
      0x0, 0x18, 0x3c, 0x5a, 0x18, 0x18, 0x18, 0x18, 0x0,
      0x0, 0x18, 0x18, 0x18, 0x18, 0x5a, 0x3c, 0x18, 0x0,
      0x0, 0x0, 0x18, 0xc, 0x7e, 0xc, 0x18, 0x0, 0x0,
      0x0, 0x0, 0x18, 0x30, 0x7e, 0x30, 0x18, 0x0, 0x0,
      0x0, 0x0, 0x0, 0x0, 0x60, 0x60, 0x7c, 0x0, 0x0,
      0x0, 0x0, 0x24, 0x66, 0xfe, 0x66, 0x24, 0x0, 0x0,
      0x0, 0x0, 0x0, 0x10, 0x38, 0x7c, 0xfe, 0x0, 0x0,
      0x0, 0x0, 0x0, 0xfe, 0x7c, 0x38, 0x10, 0x0, 0x0,
      0x0, 0x0, 0x0, 0x0, 0x0, 0x0, 0x0, 0x0, 0x0]"

definition font_rows_033 :: bytes where
  "font_rows_033 =
     [0x0, 0x18, 0x18, 0x18, 0x18, 0x0, 0x18, 0x18, 0x0,
      0x0, 0x6c, 0x6c, 0x44, 0x0, 0x0, 0x0, 0x0, 0x0,
      0x0, 0x6c, 0x6c, 0xfe, 0x6c, 0xfe, 0x6c, 0x6c, 0x0,
      0x8, 0x18, 0x3c, 0x60, 0x3c, 0x6, 0x7c, 0x18, 0x10,
      0x70, 0x52, 0x76, 0xc, 0x18, 0x3e, 0x6a, 0xe, 0x0,
      0x38, 0x6c, 0x6c, 0x38, 0x6e, 0x6c, 0x6c, 0x3e, 0x0,
      0x0, 0x18, 0x18, 0x30, 0x30, 0x0, 0x0, 0x0, 0x0,
      0x0, 0xc, 0x18, 0x30, 0x30, 0x30, 0x18, 0xc, 0x0,
      0x0, 0x30, 0x18, 0xc, 0xc, 0xc, 0x18, 0x30, 0x0,
      0x0, 0x44, 0x6c, 0x38, 0xfe, 0x38, 0x6c, 0x44, 0x0,
      0x0, 0x0, 0x18, 0x18, 0x7e, 0x7e, 0x18, 0x18, 0x0]"

definition font_rows_044 :: bytes where
  "font_rows_044 =
     [0x0, 0x0, 0x0, 0x0, 0x0, 0x0, 0x30, 0x30, 0x60,
      0x0, 0x0, 0x0, 0x0, 0x7c, 0x7c, 0x0, 0x0, 0x0,
      0x0, 0x0, 0x0, 0x0, 0x0, 0x0, 0x30, 0x30, 0x0,
      0x0, 0xc, 0xc, 0x18, 0x18, 0x30, 0x30, 0x60, 0x0,
      0x0, 0x3c, 0x66, 0x6e, 0x76, 0x66, 0x66, 0x3c, 0x0,
      0x0, 0x18, 0x78, 0x18, 0x18, 0x18, 0x18, 0x7e, 0x0,
      0x0, 0x3c, 0x66, 0x46, 0x1c, 0x30, 0x66, 0x7e, 0x0,
      0x0, 0x3c, 0x66, 0x6, 0x1c, 0x6, 0x66, 0x3c, 0x0,
      0x0, 0xc, 0x1c, 0x3c, 0x6c, 0x7e, 0xc, 0x1e, 0x0,
      0x0, 0x7e, 0x66, 0x60, 0x7c, 0x6, 0x66, 0x3c, 0x0,
      0x0, 0x1c, 0x30, 0x60, 0x7c, 0x66, 0x66, 0x3c, 0x0]"

definition font_rows_055 :: bytes where
  "font_rows_055 =
     [0x0, 0x7e, 0x66, 0x6, 0xc, 0x18, 0x18, 0x18, 0x0,
      0x0, 0x3c, 0x66, 0x66, 0x3c, 0x66, 0x66, 0x3c, 0x0,
      0x0, 0x3c, 0x66, 0x66, 0x3e, 0x6, 0xc, 0x38, 0x0,
      0x0, 0x0, 0x30, 0x30, 0x0, 0x0, 0x30, 0x30, 0x0,
      0x0, 0x0, 0x30, 0x30, 0x0, 0x0, 0x30, 0x30, 0x60,
      0x0, 0x0, 0x18, 0x30, 0x60, 0x30, 0x18, 0x0, 0x0,
      0x0, 0x0, 0x0, 0x7c, 0x0, 0x7c, 0x0, 0x0, 0x0,
      0x0, 0x0, 0x30, 0x18, 0xc, 0x18, 0x30, 0x0, 0x0,
      0x0, 0x3c, 0x66, 0x6, 0xc, 0x18, 0x0, 0x18, 0x0,
      0x0, 0x3c, 0x62, 0x6e, 0x6a, 0x6c, 0x62, 0x3c, 0x0,
      0x0, 0x10, 0x38, 0x28, 0x6c, 0x7c, 0xc6, 0xc6, 0x0]"

definition font_rows_066 :: bytes where
  "font_rows_066 =
     [0x0, 0x7c, 0x66, 0x66, 0x7c, 0x66, 0x66, 0x7c, 0x0,
      0x0, 0x3c, 0x66, 0x60, 0x60, 0x60, 0x66, 0x3c, 0x0,
      0x0, 0x7c, 0x66, 0x66, 0x66, 0x66, 0x66, 0x7c, 0x0,
      0x0, 0x7e, 0x66, 0x60, 0x78, 0x60, 0x66, 0x7e, 0x0,
      0x0, 0x7e, 0x66, 0x60, 0x7c, 0x60, 0x60, 0x60, 0x0,
      0x0, 0x3c, 0x66, 0x60, 0x6e, 0x66, 0x66, 0x3e, 0x0,
      0x0, 0x66, 0x66, 0x66, 0x7e, 0x66, 0x66, 0x66, 0x0,
      0x0, 0x3c, 0x18, 0x18, 0x18, 0x18, 0x18, 0x3c, 0x0,
      0x0, 0x1e, 0xc, 0xc, 0xc, 0x6c, 0x6c, 0x38, 0x0,
      0x0, 0x66, 0x6c, 0x6c, 0x78, 0x6c, 0x6c, 0x66, 0x0,
      0x0, 0x60, 0x60, 0x60, 0x60, 0x60, 0x66, 0x7e, 0x0]"

definition font_rows_077 :: bytes where
  "font_rows_077 =
     [0x0, 0xc6, 0xc6, 0xee, 0xfe, 0xd6, 0xd6, 0xd6, 0x0,
      0x0, 0x66, 0x76, 0x76, 0x7e, 0x6e, 0x66, 0x66, 0x0,
      0x0, 0x3c, 0x66, 0x66, 0x66, 0x66, 0x66, 0x3c, 0x0,
      0x0, 0x7c, 0x66, 0x66, 0x66, 0x7c, 0x60, 0x60, 0x0,
      0x0, 0x3c, 0x66, 0x66, 0x66, 0x76, 0x6e, 0x3c, 0x6,
      0x0, 0x7c, 0x66, 0x66, 0x6c, 0x78, 0x6c, 0x66, 0x0,
      0x0, 0x3c, 0x66, 0x60, 0x3c, 0x6, 0x66, 0x3c, 0x0,
      0x0, 0x7e, 0x5a, 0x18, 0x18, 0x18, 0x18, 0x3c, 0x0,
      0x0, 0x66, 0x66, 0x66, 0x66, 0x66, 0x66, 0x3c, 0x0,
      0x0, 0xc6, 0xc6, 0x6c, 0x6c, 0x38, 0x38, 0x10, 0x0,
      0x0, 0xc6, 0xd6, 0xd6, 0xd6, 0x7c, 0x6c, 0x44, 0x0]"

definition font_rows_088 :: bytes where
  "font_rows_088 =
     [0x0, 0x66, 0x66, 0x3c, 0x18, 0x3c, 0x66, 0x66, 0x0,
      0x0, 0x66, 0x66, 0x66, 0x3c, 0x18, 0x18, 0x3c, 0x0,
      0x0, 0x7e, 0x66, 0xc, 0x18, 0x30, 0x66, 0x7e, 0x0,
      0x0, 0x3c, 0x30, 0x30, 0x30, 0x30, 0x30, 0x3c, 0x0,
      0x0, 0x60, 0x60, 0x30, 0x30, 0x18, 0x18, 0xc, 0x0,
      0x0, 0x3c, 0xc, 0xc, 0xc, 0xc, 0xc, 0x3c, 0x0,
      0x0, 0x10, 0x38, 0x6c, 0x0, 0x0, 0x0, 0x0, 0x0,
      0x0, 0x0, 0x0, 0x0, 0x0, 0x0, 0x0, 0x7c, 0x7c,
      0x0, 0x30, 0x30, 0x18, 0x18, 0x0, 0x0, 0x0, 0x0,
      0x0, 0x0, 0x0, 0x3c, 0x6, 0x3e, 0x66, 0x3a, 0x0,
      0x0, 0x60, 0x60, 0x7c, 0x66, 0x66, 0x66, 0x5c, 0x0]"

definition font_rows_099 :: bytes where
  "font_rows_099 =
     [0x0, 0x0, 0x0, 0x3c, 0x66, 0x60, 0x66, 0x3c, 0x0,
      0x0, 0x6, 0x6, 0x3e, 0x66, 0x66, 0x66, 0x3a, 0x0,
      0x0, 0x0, 0x0, 0x3c, 0x66, 0x7e, 0x60, 0x3c, 0x0,
      0x0, 0x1c, 0x36, 0x30, 0x7c, 0x30, 0x30, 0x78, 0x0,
      0x0, 0x0, 0x0, 0x3a, 0x66, 0x66, 0x3e, 0x6, 0x3c,
      0x0, 0x60, 0x60, 0x6c, 0x76, 0x66, 0x66, 0x66, 0x0,
      0x18, 0x18, 0x0, 0x18, 0x38, 0x18, 0x18, 0x3c, 0x0,
      0xc, 0xc, 0x0, 0xc, 0x3c, 0xc, 0x4c, 0x6c, 0x38,
      0x0, 0x60, 0x60, 0x66, 0x6c, 0x78, 0x6c, 0x66, 0x0,
      0x0, 0x18, 0x18, 0x18, 0x18, 0x18, 0x18, 0x3c, 0x0,
      0x0, 0x0, 0x0, 0x6c, 0xfe, 0xd6, 0xd6, 0xd6, 0x0]"

definition font_rows_110 :: bytes where
  "font_rows_110 =
     [0x0, 0x0, 0x0, 0x6c, 0x76, 0x66, 0x66, 0x66, 0x0,
      0x0, 0x0, 0x0, 0x3c, 0x66, 0x66, 0x66, 0x3c, 0x0,
      0x0, 0x0, 0x0, 0x7c, 0x66, 0x66, 0x76, 0x6c, 0x60,
      0x0, 0x0, 0x0, 0x3a, 0x66, 0x66, 0x6e, 0x36, 0x6,
      0x0, 0x0, 0x0, 0x26, 0x7e, 0x30, 0x30, 0x78, 0x0,
      0x0, 0x0, 0x0, 0x3c, 0x60, 0x3c, 0x6, 0x3c, 0x0,
      0x0, 0x10, 0x30, 0xfc, 0x30, 0x30, 0x36, 0x1c, 0x0,
      0x0, 0x0, 0x0, 0x66, 0x66, 0x66, 0x6e, 0x36, 0x0,
      0x0, 0x0, 0x0, 0xc6, 0xc6, 0x6c, 0x38, 0x10, 0x0,
      0x0, 0x0, 0x0, 0xd6, 0xd6, 0x7c, 0x6c, 0x44, 0x0,
      0x0, 0x0, 0x0, 0xc6, 0x6c, 0x38, 0x6c, 0xc6, 0x0]"

definition font_rows_121 :: bytes where
  "font_rows_121 =
     [0x0, 0x0, 0x0, 0x66, 0x66, 0x36, 0x1c, 0x6c, 0x38,
      0x0, 0x0, 0x0, 0x7e, 0x6, 0x18, 0x30, 0x7e, 0x0,
      0x0, 0x1c, 0x30, 0x30, 0x60, 0x30, 0x30, 0x1c, 0x0,
      0x18, 0x18, 0x18, 0x18, 0x0, 0x18, 0x18, 0x18, 0x0,
      0x0, 0x70, 0x18, 0x18, 0xc, 0x18, 0x18, 0x70, 0x0,
      0x0, 0x10, 0x3a, 0x6e, 0x4, 0x0, 0x0, 0x0, 0x0,
      0x0, 0x0, 0x8, 0x1c, 0x36, 0x62, 0x7e, 0x0, 0x0,
      0x0, 0x3c, 0x66, 0x60, 0x60, 0x60, 0x66, 0x3c, 0x78,
      0x66, 0x66, 0x0, 0x66, 0x66, 0x66, 0x66, 0x3a, 0x0,
      0xc, 0x18, 0x0, 0x3e, 0x62, 0x7e, 0x60, 0x3e, 0x0,
      0x1c, 0x36, 0x0, 0x3c, 0x6, 0x3e, 0x66, 0x3e, 0x0]"

definition font_rows_132 :: bytes where
  "font_rows_132 =
     [0x36, 0x36, 0x0, 0x3c, 0x6, 0x3e, 0x66, 0x3e, 0x0,
      0x18, 0xc, 0x0, 0x3c, 0x6, 0x3e, 0x66, 0x3a, 0x0,
      0x1c, 0x14, 0x0, 0x3c, 0x6, 0x3e, 0x66, 0x3a, 0x0,
      0x0, 0x0, 0x0, 0x1c, 0x36, 0x60, 0x36, 0x1c, 0x78,
      0x8, 0x1c, 0x0, 0x3c, 0x66, 0x7e, 0x60, 0x3e, 0x0,
      0x66, 0x66, 0x0, 0x3c, 0x66, 0x7e, 0x60, 0x3e, 0x0,
      0x18, 0xc, 0x0, 0x3c, 0x66, 0x7e, 0x60, 0x3e, 0x0,
      0x66, 0x66, 0x0, 0x38, 0x18, 0x18, 0x18, 0x3c, 0x0,
      0x10, 0x38, 0x0, 0x38, 0x18, 0x18, 0x18, 0x3c, 0x0,
      0x30, 0x18, 0x0, 0x38, 0x18, 0x18, 0x18, 0x3c, 0x0,
      0xc6, 0x10, 0x38, 0x28, 0x6c, 0x7c, 0xc6, 0xc6, 0x0]"

definition font_rows_143 :: bytes where
  "font_rows_143 =
     [0x38, 0x28, 0x38, 0x28, 0x6c, 0x7c, 0xc6, 0xc6, 0x0,
      0x1c, 0x30, 0x7e, 0x60, 0x7c, 0x60, 0x60, 0x7e, 0x0,
      0x0, 0x0, 0x0, 0x7c, 0x1a, 0x7e, 0xd8, 0x7e, 0x0,
      0x0, 0x1e, 0x38, 0x58, 0x5e, 0xf8, 0xd8, 0xde, 0x0,
      0x10, 0x38, 0x0, 0x3c, 0x66, 0x66, 0x66, 0x3c, 0x0,
      0x66, 0x66, 0x0, 0x3c, 0x66, 0x66, 0x66, 0x3c, 0x0,
      0x18, 0xc, 0x0, 0x3c, 0x66, 0x66, 0x66, 0x3c, 0x0,
      0x8, 0x1c, 0x0, 0x66, 0x66, 0x66, 0x66, 0x3a, 0x0,
      0x18, 0xc, 0x0, 0x66, 0x66, 0x66, 0x66, 0x3a, 0x0,
      0x66, 0x66, 0x0, 0x66, 0x66, 0x36, 0x1c, 0x6c, 0x38,
      0x66, 0x0, 0x3c, 0x66, 0x66, 0x66, 0x66, 0x3c, 0x0]"

definition font_rows_154 :: bytes where
  "font_rows_154 =
     [0x66, 0x0, 0x66, 0x66, 0x66, 0x66, 0x66, 0x3c, 0x0,
      0x8, 0x8, 0x3c, 0x60, 0x60, 0x3c, 0x10, 0x10, 0x0,
      0x1c, 0x36, 0x30, 0x30, 0x7c, 0x30, 0x3c, 0x66, 0x0,
      0x66, 0x66, 0x3c, 0x18, 0x7e, 0x18, 0x7e, 0x18, 0x0,
      0xe0, 0xd0, 0xd0, 0xf4, 0xcc, 0xde, 0xcc, 0x6, 0x0,
      0xe, 0x18, 0x18, 0x18, 0x7e, 0x18, 0x18, 0x18, 0x70,
      0x6, 0xc, 0x0, 0x3c, 0x6, 0x3e, 0x66, 0x3a, 0x0,
      0xc, 0x18, 0x0, 0x38, 0x18, 0x18, 0x18, 0x3c, 0x0,
      0xc, 0x18, 0x0, 0x3c, 0x66, 0x66, 0x66, 0x3c, 0x0,
      0xc, 0x18, 0x0, 0x66, 0x66, 0x66, 0x66, 0x3a, 0x0,
      0x76, 0xdc, 0x0, 0x6c, 0x76, 0x66, 0x66, 0x66, 0x0]"

definition font_rows_165 :: bytes where
  "font_rows_165 =
     [0x76, 0xdc, 0x0, 0x66, 0x76, 0x7e, 0x6e, 0x66, 0x0,
      0x38, 0xc, 0x3c, 0x6c, 0x34, 0x0, 0x7c, 0x0, 0x0,
      0x3c, 0x66, 0x66, 0x3c, 0x0, 0x7e, 0x0, 0x0, 0x0,
      0x0, 0x18, 0x0, 0x18, 0x30, 0x60, 0x66, 0x3c, 0x0,
      0x0, 0x0, 0x0, 0x3c, 0x3c, 0x30, 0x30, 0x0, 0x0,
      0x0, 0x0, 0x0, 0x7c, 0x7c, 0xc, 0xc, 0x0, 0x0,
      0x60, 0x60, 0x60, 0x6e, 0x1a, 0x4, 0x18, 0x1e, 0x0,
      0x60, 0x60, 0x60, 0x6c, 0x7c, 0x2c, 0x7c, 0xc, 0x0,
      0x0, 0x18, 0x0, 0x18, 0x18, 0x3c, 0x3c, 0x18, 0x0,
      0x0, 0x0, 0x32, 0x66, 0xcc, 0x66, 0x32, 0x0, 0x0,
      0x0, 0x0, 0xcc, 0x66, 0x32, 0x66, 0xcc, 0x0, 0x0]"

definition font_rows_176 :: bytes where
  "font_rows_176 =
     [0x54, 0x0, 0xaa, 0x0, 0x54, 0x0, 0xaa, 0x0, 0x54,
      0x92, 0x48, 0x24, 0x92, 0x48, 0x24, 0x92, 0x48, 0x24,
      0xaa, 0x54, 0xaa, 0x54, 0xaa, 0x54, 0xaa, 0x54, 0xaa,
      0x10, 0x10, 0x10, 0x10, 0x10, 0x10, 0x10, 0x10, 0x10,
      0x10, 0x10, 0x10, 0x10, 0xf0, 0x10, 0x10, 0x10, 0x10,
      0x10, 0x10, 0x10, 0xf0, 0x10, 0xf0, 0x10, 0x10, 0x10,
      0x28, 0x28, 0x28, 0x28, 0xe8, 0x28, 0x28, 0x28, 0x28,
      0x0, 0x0, 0x0, 0x0, 0xf8, 0x28, 0x28, 0x28, 0x28,
      0x0, 0x0, 0x0, 0xf0, 0x10, 0xf0, 0x10, 0x10, 0x10,
      0x28, 0x28, 0x28, 0xe8, 0x8, 0xe8, 0x28, 0x28, 0x28,
      0x28, 0x28, 0x28, 0x28, 0x28, 0x28, 0x28, 0x28, 0x28]"

definition font_rows_187 :: bytes where
  "font_rows_187 =
     [0x0, 0x0, 0x0, 0xf8, 0x8, 0xe8, 0x28, 0x28, 0x28,
      0x28, 0x28, 0x28, 0xe8, 0x8, 0xf8, 0x0, 0x0, 0x0,
      0x28, 0x28, 0x28, 0x28, 0xf8, 0x0, 0x0, 0x0, 0x0,
      0x10, 0x10, 0x10, 0xf0, 0x10, 0xf0, 0x0, 0x0, 0x0,
      0x0, 0x0, 0x0, 0x0, 0xf0, 0x10, 0x10, 0x10, 0x10,
      0x10, 0x10, 0x10, 0x10, 0x1e, 0x0, 0x0, 0x0, 0x0,
      0x10, 0x10, 0x10, 0x10, 0xfe, 0x0, 0x0, 0x0, 0x0,
      0x0, 0x0, 0x0, 0x0, 0xfe, 0x10, 0x10, 0x10, 0x10,
      0x10, 0x10, 0x10, 0x10, 0x1e, 0x10, 0x10, 0x10, 0x10,
      0x0, 0x0, 0x0, 0x0, 0xfe, 0x0, 0x0, 0x0, 0x0,
      0x10, 0x10, 0x10, 0x10, 0xfe, 0x10, 0x10, 0x10, 0x10]"

definition font_rows_198 :: bytes where
  "font_rows_198 =
     [0x10, 0x10, 0x10, 0x1e, 0x10, 0x1e, 0x10, 0x10, 0x10,
      0x28, 0x28, 0x28, 0x28, 0x2e, 0x28, 0x28, 0x28, 0x28,
      0x28, 0x28, 0x28, 0x2e, 0x20, 0x3e, 0x0, 0x0, 0x0,
      0x0, 0x0, 0x0, 0x3e, 0x20, 0x2e, 0x28, 0x28, 0x28,
      0x28, 0x28, 0x28, 0xee, 0x0, 0xfe, 0x0, 0x0, 0x0,
      0x0, 0x0, 0x0, 0xfe, 0x0, 0xee, 0x28, 0x28, 0x28,
      0x28, 0x28, 0x28, 0x2e, 0x20, 0x2e, 0x28, 0x28, 0x28,
      0x0, 0x0, 0x0, 0xfe, 0x0, 0xfe, 0x0, 0x0, 0x0,
      0x28, 0x28, 0x28, 0xee, 0x0, 0xee, 0x28, 0x28, 0x28,
      0x10, 0x10, 0x10, 0xfe, 0x0, 0xfe, 0x0, 0x0, 0x0,
      0x28, 0x28, 0x28, 0x28, 0xf8, 0x0, 0x0, 0x0, 0x0]"

definition font_rows_209 :: bytes where
  "font_rows_209 =
     [0x0, 0x0, 0x0, 0xfe, 0x0, 0xfe, 0x10, 0x10, 0x10,
      0x0, 0x0, 0x0, 0x0, 0xf8, 0x28, 0x28, 0x28, 0x28,
      0x28, 0x28, 0x28, 0x28, 0x3e, 0x0, 0x0, 0x0, 0x0,
      0x10, 0x10, 0x10, 0x1e, 0x10, 0x1e, 0x0, 0x0, 0x0,
      0x0, 0x0, 0x0, 0x1e, 0x10, 0x1e, 0x10, 0x10, 0x10,
      0x0, 0x0, 0x0, 0x0, 0x3e, 0x28, 0x28, 0x28, 0x28,
      0x28, 0x28, 0x28, 0x28, 0xe8, 0x28, 0x28, 0x28, 0x28,
      0x10, 0x10, 0x10, 0xfe, 0x10, 0xfe, 0x10, 0x10, 0x10,
      0x10, 0x10, 0x10, 0x10, 0xf0, 0x0, 0x0, 0x0, 0x0,
      0x0, 0x0, 0x0, 0x0, 0x1e, 0x10, 0x10, 0x10, 0x10,
      0xfe, 0xfe, 0xfe, 0xfe, 0xfe, 0xfe, 0xfe, 0xfe, 0xfe]"

definition font_rows_220 :: bytes where
  "font_rows_220 =
     [0x0, 0x0, 0x0, 0x0, 0x0, 0xfe, 0xfe, 0xfe, 0xfe,
      0xf0, 0xf0, 0xf0, 0xf0, 0xf0, 0xf0, 0xf0, 0xf0, 0xf0,
      0xe, 0xe, 0xe, 0xe, 0xe, 0xe, 0xe, 0xe, 0xe,
      0xfe, 0xfe, 0xfe, 0xfe, 0xfe, 0x0, 0x0, 0x0, 0x0,
      0x0, 0x34, 0x68, 0x68, 0x68, 0x34, 0x0, 0x0, 0x0,
      0x7c, 0x66, 0x66, 0x6c, 0x66, 0x62, 0x66, 0x6c, 0x8,
      0x0, 0x7e, 0x62, 0x60, 0x60, 0x60, 0x60, 0x60, 0x0,
      0x0, 0x0, 0x6c, 0xfe, 0xf6, 0x66, 0x6c, 0x6c, 0x0,
      0x0, 0xfe, 0xc6, 0x60, 0x38, 0x30, 0x66, 0xfe, 0x0,
      0x0, 0x0, 0x0, 0x3e, 0x6c, 0x6c, 0x6c, 0x38, 0x0,
      0x0, 0x0, 0x0, 0x36, 0x36, 0x36, 0x3e, 0x62, 0x40]"

definition font_rows_231 :: bytes where
  "font_rows_231 =
     [0x0, 0x0, 0x7a, 0x6a, 0xe, 0xc, 0x18, 0x18, 0x0,
      0x3c, 0x18, 0x3c, 0x66, 0x66, 0x3c, 0x18, 0x3c, 0x0,
      0x0, 0x3c, 0x66, 0x66, 0x7e, 0x66, 0x66, 0x3c, 0x0,
      0x0, 0x3c, 0x66, 0x66, 0x66, 0x66, 0x24, 0x66, 0x0,
      0x0, 0x3c, 0x60, 0x30, 0x18, 0x3c, 0x66, 0x3c, 0x0,
      0x0, 0x0, 0x0, 0x34, 0x4a, 0x4a, 0x4a, 0x34, 0x0,
      0x4, 0x3c, 0x66, 0x6e, 0x76, 0x66, 0x3c, 0x10, 0x20,
      0x1e, 0x30, 0x60, 0x60, 0x7e, 0x60, 0x30, 0x1e, 0x0,
      0x0, 0x0, 0x3c, 0x66, 0x66, 0x66, 0x66, 0x66, 0x0,
      0x0, 0x7c, 0x0, 0x0, 0x7c, 0x0, 0x0, 0x7c, 0x0,
      0x0, 0x18, 0x18, 0x7e, 0x18, 0x18, 0x0, 0x7e, 0x0]"

definition font_rows_242 :: bytes where
  "font_rows_242 =
     [0x0, 0x30, 0x18, 0xc, 0x18, 0x30, 0x0, 0x3c, 0x0,
      0x0, 0xc, 0x18, 0x30, 0x18, 0xc, 0x0, 0x3c, 0x0,
      0xc, 0x1a, 0x18, 0x18, 0x18, 0x18, 0x18, 0x18, 0x18,
      0x18, 0x18, 0x18, 0x18, 0x18, 0x18, 0x18, 0x58, 0x30,
      0x0, 0x18, 0x18, 0x0, 0x7e, 0x0, 0x18, 0x18, 0x0,
      0x0, 0x0, 0x1a, 0x76, 0x0, 0x1a, 0x76, 0x0, 0x0,
      0x0, 0x3c, 0x66, 0x66, 0x3c, 0x0, 0x0, 0x0, 0x0,
      0x0, 0x0, 0x18, 0x3c, 0x3c, 0x18, 0x0, 0x0, 0x0,
      0x0, 0x0, 0x0, 0x18, 0x18, 0x0, 0x0, 0x0, 0x0,
      0xe, 0xc, 0xc, 0xc, 0xc, 0x6c, 0x3c, 0xc, 0x0,
      0x0, 0x78, 0x6c, 0x6c, 0x6c, 0x6c, 0x0, 0x0, 0x0]"

definition font_rows_253 :: bytes where
  "font_rows_253 =
     [0x0, 0x38, 0x4c, 0x18, 0x30, 0x7c, 0x0, 0x0, 0x0,
      0x0, 0x7c, 0x7c, 0x7c, 0x7c, 0x0, 0x0, 0x0, 0x0,
      0xff, 0xff, 0xff, 0xff, 0xff, 0xff, 0xff, 0xff, 0xff]"

definition console_font_7x9 :: bytes where
  "console_font_7x9 = concat [font_rows_000, font_rows_011, font_rows_022, font_rows_033,
     font_rows_044, font_rows_055, font_rows_066, font_rows_077,
     font_rows_088, font_rows_099, font_rows_110, font_rows_121,
     font_rows_132, font_rows_143, font_rows_154, font_rows_165,
     font_rows_176, font_rows_187, font_rows_198, font_rows_209,
     font_rows_220, font_rows_231, font_rows_242, font_rows_253]"

text \<open>\<open>font_get_char\<close> returns a pointer into the table: the bytes from the glyph to the end.\<close>

definition FONT_W :: nat where
  "FONT_W = 8"

definition FONT_H :: nat where
  "FONT_H = 9"

definition font_get_char :: "u8 \<Rightarrow> bytes" where
  "font_get_char c = drop (unat c * ((FONT_W * FONT_H) div 8)) console_font_7x9"

section \<open>Lemmas\<close>

lemmas font_rows_defs = font_rows_000_def font_rows_011_def font_rows_022_def font_rows_033_def
  font_rows_044_def font_rows_055_def font_rows_066_def font_rows_077_def
  font_rows_088_def font_rows_099_def font_rows_110_def font_rows_121_def
  font_rows_132_def font_rows_143_def font_rows_154_def font_rows_165_def
  font_rows_176_def font_rows_187_def font_rows_198_def font_rows_209_def
  font_rows_220_def font_rows_231_def font_rows_242_def font_rows_253_def

lemma length_console_font: "length console_font_7x9 = 2304"
  by (simp add: console_font_7x9_def font_rows_defs)

lemma font_get_char_rows: "9 \<le> length (font_get_char c)"
  using unat_less_8 [of c] by (simp add: font_get_char_def length_console_font FONT_W_def FONT_H_def)

text \<open>The row \<open>r\<close> of the glyph of \<open>c\<close>, and the pixel in column \<open>k\<close> of it.\<close>

definition glyph_pixel :: "u8 \<Rightarrow> nat \<Rightarrow> nat \<Rightarrow> bool" where
  "glyph_pixel c r k \<longleftrightarrow> bit (font_get_char c ! r) (7 - k)"

end
