(* ===== verification/Memory.thy ===== *)
theory Memory
  imports Prelude
begin

text \<open>
  The byte-addressed memory of the machine: little-endian loads and stores of 32-bit words, as the
  i386 makes them. Addresses wrap at \<open>2^32\<close>.
\<close>

type_synonym mem = "u32 \<Rightarrow> u8"

section \<open>Loads and stores\<close>

definition load16 :: "mem \<Rightarrow> u32 \<Rightarrow> u16" where
  "load16 m a = ucast (m a) OR push_bit 8 (ucast (m (a + 1)))"

definition load32 :: "mem \<Rightarrow> u32 \<Rightarrow> u32" where
  "load32 m a = ucast (m a) OR push_bit 8 (ucast (m (a + 1))) OR
     push_bit 16 (ucast (m (a + 2))) OR push_bit 24 (ucast (m (a + 3)))"

definition store32 :: "mem \<Rightarrow> u32 \<Rightarrow> u32 \<Rightarrow> mem" where
  "store32 m a v = m(a := ucast v, a + 1 := ucast (drop_bit 8 v),
     a + 2 := ucast (drop_bit 16 v), a + 3 := ucast (drop_bit 24 v))"

section \<open>Lemmas\<close>

lemma bytes_of_word:
  "ucast (ucast v :: u8) OR push_bit 8 (ucast (ucast (drop_bit 8 v) :: u8)) OR
   push_bit 16 (ucast (ucast (drop_bit 16 v) :: u8)) OR
   push_bit 24 (ucast (ucast (drop_bit 24 v) :: u8)) = (v :: u32)"
proof (rule bit_word_eqI)
  fix n assume n: "n < LENGTH(32)"
  define q where "q = n div 8"
  have "n = 8 * q + n mod 8" "n mod 8 < 8" by (simp_all add: q_def)
  moreover have "q = 0 \<or> q = 1 \<or> q = 2 \<or> q = 3" using n unfolding q_def by auto
  ultimately have "bit ([ucast v, ucast (drop_bit 8 v), ucast (drop_bit 16 v), ucast (drop_bit 24 v)]
      ! q :: u8) (n mod 8) = bit v n"
    by (elim disjE) (simp_all add: bit_ucast_iff bit_drop_bit_eq)
  then show "bit (ucast (ucast v :: u8) OR push_bit 8 (ucast (ucast (drop_bit 8 v) :: u8)) OR
     push_bit 16 (ucast (ucast (drop_bit 16 v) :: u8)) OR
     push_bit 24 (ucast (ucast (drop_bit 24 v) :: u8)) :: u32) n = bit v n"
    using n by (subst bit_combine_bytes) (simp_all add: q_def)
qed

lemma offsets_distinct:
  "(a :: u32) + 1 \<noteq> a" "a + 2 \<noteq> a" "a + 3 \<noteq> a" "a + 2 \<noteq> a + 1" "a + 3 \<noteq> a + 1" "a + 3 \<noteq> a + 2"
  by simp_all

lemma load32_store32_same [simp]: "load32 (store32 m a v) a = v"
  by (simp add: load32_def store32_def bytes_of_word)

lemma aligned_offset:
  assumes "4 dvd unat (a :: u32)" and "k < 4"
  shows "unat (a + of_nat k) = unat a + k"
proof -
  obtain q where "unat a = 4 * q" using assms(1) by blast
  moreover from this have "q \<le> 1073741823" using unat_less_32 [of a] by linarith
  ultimately have "unat a + k < 4294967296" using assms(2) by linarith
  moreover have "unat (of_nat k :: u32) = k" using assms(2) by (intro unat_of_nat_small) simp
  ultimately show ?thesis by (simp add: unat_add_less)
qed

lemma aligned_words_disjoint:
  assumes "4 dvd unat (a :: u32)" "4 dvd unat b" "a \<noteq> b" "j < 4" "k < 4"
  shows "a + of_nat j \<noteq> b + of_nat k"
proof
  assume "a + of_nat j = b + of_nat k"
  then have eq: "unat a + j = unat b + k"
    using aligned_offset [OF assms(1,4)] aligned_offset [OF assms(2,5)] by metis
  obtain p q where "unat a = 4 * p" "unat b = 4 * q" using assms(1,2) by blast
  then have "unat a = unat b" using eq assms(4,5) by presburger
  with assms(3) show False by simp
qed

lemma load32_store32_other:
  assumes "4 dvd unat a" "4 dvd unat b" "a \<noteq> b"
  shows "load32 (store32 m a v) b = load32 m b"
proof -
  note d = aligned_words_disjoint [OF assms]
  have "a + of_nat j \<noteq> b + of_nat k" if "j < 4" "k < 4" for j k
    using d that by blast
  from this [of 0 0] this [of 0 1] this [of 0 2] this [of 0 3]
       this [of 1 0] this [of 1 1] this [of 1 2] this [of 1 3]
       this [of 2 0] this [of 2 1] this [of 2 2] this [of 2 3]
       this [of 3 0] this [of 3 1] this [of 3 2] this [of 3 3]
  show ?thesis by (simp add: load32_def store32_def)
qed

lemma load32_store32:
  "4 dvd unat a \<Longrightarrow> 4 dvd unat b \<Longrightarrow> load32 (store32 m a v) b = (if a = b then v else load32 m b)"
  using load32_store32_other by auto

lemma load32_cong:
  assumes "4 dvd unat a" and "\<And>k. k < 4 \<Longrightarrow> m (a + of_nat k) = m' (a + of_nat k)"
  shows "load32 m a = load32 m' a"
  using assms(2) [of 0] assms(2) [of 1] assms(2) [of 2] assms(2) [of 3] by (simp add: load32_def)

text \<open>The address of the \<open>j\<close>-th word of a table of 1024 words in a page of its own.\<close>

lemma table_entry_addr:
  assumes "4096 dvd unat (a :: u32)" and "j < 1024"
  shows "unat (a + 4 * of_nat j) = unat a + 4 * j" and "4 dvd unat (a + 4 * of_nat j)"
proof -
  obtain q where q: "unat a = 4096 * q" using assms(1) by blast
  then have "q \<le> 1048575" using unat_less_32 [of a] by linarith
  with q have "unat a + 4 * j < 4294967296" using assms(2) by linarith
  moreover have "unat (4 * of_nat j :: u32) = 4 * j"
    using assms(2) unat_of_nat_small [of "4 * j", where ?'a = 32] by simp
  ultimately show "unat (a + 4 * of_nat j) = unat a + 4 * j" by (simp add: unat_add_less)
  then show "4 dvd unat (a + 4 * of_nat j)" using q by simp
qed

lemma table_entry_eq_iff:
  assumes "4096 dvd unat (a :: u32)" "4096 dvd unat b" "i < 1024" "j < 1024"
  shows "a + 4 * of_nat i = b + 4 * of_nat j \<longleftrightarrow> a = b \<and> i = j"
proof
  assume "a + 4 * of_nat i = b + 4 * of_nat j"
  then have eq: "unat a + 4 * i = unat b + 4 * j"
    using table_entry_addr(1) [OF assms(1,3)] table_entry_addr(1) [OF assms(2,4)] by metis
  obtain p q where pq: "unat a = 4096 * p" "unat b = 4096 * q" using assms(1,2) by blast
  then have "p = q" using eq assms(3,4) by linarith
  then have "unat a = unat b" using pq by simp
  with eq show "a = b \<and> i = j" by simp
qed simp

end
