(* ===== verification/Svga.thy ===== *)
theory Svga
  imports Font Bitmap Strings Memory
begin

text \<open>
  \<^verbatim>\<open>kernel/drivers/svga.c\<close>: drawing on the linear frame buffer. The frame buffer and the back buffer are
  objects of \<open>SCR_H\<close> times the pitch bytes; a write outside them is a fault. A position on the text
  screen (\<open>scrpos\<close>) is passed by value and returned.

  The theorems: which pixels \<open>svga_draw_char\<close> changes, which palette entry \<open>svga_translate_rgb\<close>
  chooses, and that scrolling reads outside the back buffer.
\<close>

section \<open>State\<close>

record tagfb =
  framebuffer_pitch :: u32
  framebuffer_width :: u32
  framebuffer_height :: u32
  framebuffer_bpp :: u8
  framebuffer_type :: u8
  framebuffer_palette_num_colors :: u16
  framebuffer_palette :: "(u8 \<times> u8 \<times> u8) list"
  framebuffer_red_field_position :: u8
  framebuffer_red_mask_size :: u8
  framebuffer_green_field_position :: u8
  framebuffer_green_mask_size :: u8
  framebuffer_blue_field_position :: u8
  framebuffer_blue_mask_size :: u8

record svga =
  SCR_W :: u32
  SCR_H :: u32
  SCR_COLUMNS :: u32
  SCR_ROWS :: u32
  svga_lfb :: bytes
  backbuffer :: bytes
  tag :: tagfb

section \<open>Stores into a buffer\<close>

definition set16 :: "bytes \<Rightarrow> nat \<Rightarrow> u32 \<Rightarrow> bytes option" where
  "set16 bs i v = (if i + 2 \<le> length bs then Some (bs[i := ucast v, i + 1 := ucast (drop_bit 8 v)]) else None)"

definition set32 :: "bytes \<Rightarrow> nat \<Rightarrow> u32 \<Rightarrow> bytes option" where
  "set32 bs i v = (if i + 4 \<le> length bs
     then Some (bs[i := ucast v, i + 1 := ucast (drop_bit 8 v), i + 2 := ucast (drop_bit 16 v),
                   i + 3 := ucast (drop_bit 24 v)]) else None)"

text \<open>A copy of \<open>len\<close> bytes inside one object, byte by byte from the front, as \<open>_memcpy\<close> makes it.\<close>

definition memcpy_within :: "bytes \<Rightarrow> nat \<Rightarrow> nat \<Rightarrow> nat \<Rightarrow> bytes option" where
  "memcpy_within bs dst src len =
     forM [0..<len] (\<lambda>i bs. do { b \<leftarrow> arr_get bs (src + i); arr_set bs (dst + i) b }) bs"

definition memset_within :: "bytes \<Rightarrow> nat \<Rightarrow> u8 \<Rightarrow> nat \<Rightarrow> bytes option" where
  "memset_within bs dst c len = forM [0..<len] (\<lambda>i bs. arr_set bs (dst + i) c) bs"

section \<open>Operations\<close>

definition svga_flush_lfb :: "svga \<Rightarrow> svga option" where
  "svga_flush_lfb s =
     (let fb_size = SCR_H s * framebuffer_pitch (tag s) in
      do { fb \<leftarrow> memcpy_bytes (svga_lfb s) (backbuffer s) (unat fb_size); Some (s\<lparr>svga_lfb := fb\<rparr>) })"

text \<open>
  The colour of a pixel. In the indexed mode the palette is searched for the nearest colour. In the
  direct mode each channel is scaled with a \<open>float\<close> factor; \<open>scale m c\<close> stands for the machine's
  value of \<open>(uint8_t)(c * ((float)((1 << m) - 1) / 0xff))\<close>.
\<close>

definition color_distance :: "u8 \<Rightarrow> u8 \<Rightarrow> u8 \<Rightarrow> u8 \<times> u8 \<times> u8 \<Rightarrow> int" where
  "color_distance r g b = (\<lambda>(red, green, blue).
     (uint b - uint blue) * (uint b - uint blue) + (uint r - uint red) * (uint r - uint red) +
     (uint g - uint green) * (uint g - uint green))"

fun palette_search :: "nat list \<Rightarrow> (u8 \<times> u8 \<times> u8) list \<Rightarrow> u8 \<Rightarrow> u8 \<Rightarrow> u8 \<Rightarrow> u32 \<times> int \<Rightarrow> u32 option" where
  "palette_search [] palette r g b (color, best) = Some color"
| "palette_search (i # is) palette r g b (color, best) =
     do { p \<leftarrow> arr_get palette i;
          let distance = color_distance r g b p in
          if distance < best then palette_search is palette r g b (of_nat i, distance)
          else palette_search is palette r g b (color, best) }"

definition channel :: "(u8 \<Rightarrow> u8 \<Rightarrow> u8) \<Rightarrow> u8 \<Rightarrow> u8 \<Rightarrow> u32" where
  "channel scale mask_size c = ucast ((of_int (2 ^ unat mask_size - 1) :: u8) AND scale mask_size c)"

definition svga_translate_rgb :: "(u8 \<Rightarrow> u8 \<Rightarrow> u8) \<Rightarrow> u8 \<Rightarrow> u8 \<Rightarrow> u8 \<Rightarrow> svga \<Rightarrow> u32 option" where
  "svga_translate_rgb scale r g b s =
     (let t = tag s in
      if framebuffer_type t = 0
      then palette_search [0..<unat (framebuffer_palette_num_colors t)] (framebuffer_palette t) r g b
             (0, 4 * 256 * 256)
      else if framebuffer_type t = 1
      then Some (push_bit (unat (framebuffer_red_field_position t)) (channel scale (framebuffer_red_mask_size t) r) OR
                 push_bit (unat (framebuffer_green_field_position t)) (channel scale (framebuffer_green_mask_size t) g) OR
                 push_bit (unat (framebuffer_blue_field_position t)) (channel scale (framebuffer_blue_mask_size t) b))
      else if framebuffer_type t = 2 then Some (0x5C OR 0x0100)
      else Some 0xffffffff)"

definition svga_get_scr_columns :: "svga \<Rightarrow> u32" where
  "svga_get_scr_columns s = SCR_COLUMNS s"

definition svga_get_scr_rows :: "svga \<Rightarrow> u32" where
  "svga_get_scr_rows s = SCR_ROWS s"

definition svga_draw_pixel :: "u32 \<Rightarrow> u32 \<Rightarrow> u32 \<Rightarrow> svga \<Rightarrow> svga option" where
  "svga_draw_pixel x y color s =
     (let t = tag s; bpp = framebuffer_bpp t; line = framebuffer_pitch t * y in
      if bpp = 8
      then do { fb \<leftarrow> arr_set (svga_lfb s) (unat (line + x)) (ucast color);
                bb \<leftarrow> arr_set (backbuffer s) (unat (line + x)) (ucast color);
                Some (s\<lparr>svga_lfb := fb, backbuffer := bb\<rparr>) }
      else if bpp = 15 \<or> bpp = 16
      then do { fb \<leftarrow> set16 (svga_lfb s) (unat (line + 2 * x)) color;
                bb \<leftarrow> set16 (backbuffer s) (unat (line + 2 * x)) color;
                Some (s\<lparr>svga_lfb := fb, backbuffer := bb\<rparr>) }
      else if bpp = 24
      then do { old \<leftarrow> load_u32 (svga_lfb s) (unat (line + 3 * x));
                fb \<leftarrow> set32 (svga_lfb s) (unat (line + 3 * x)) ((color AND 0xffffff) OR (old AND 0xff000000));
                bb \<leftarrow> set32 (backbuffer s) (unat (line + 3 * x)) color;
                Some (s\<lparr>svga_lfb := fb, backbuffer := bb\<rparr>) }
      else if bpp = 32
      then do { fb \<leftarrow> set32 (svga_lfb s) (unat (line + 4 * x)) color;
                bb \<leftarrow> set32 (backbuffer s) (unat (line + 4 * x)) color;
                Some (s\<lparr>svga_lfb := fb, backbuffer := bb\<rparr>) }
      else Some s)"

definition svga_draw_rect :: "u32 \<Rightarrow> u32 \<Rightarrow> u32 \<Rightarrow> u32 \<Rightarrow> u32 \<Rightarrow> svga \<Rightarrow> svga option" where
  "svga_draw_rect x1 y1 x2 y2 color s =
     forM [unat y1..<unat y2] (\<lambda>y. forM [unat x1..<unat x2] (\<lambda>x.
       svga_draw_pixel (of_nat x) (of_nat y) color)) s"

definition svga_draw_char :: "u32 \<Rightarrow> u32 \<Rightarrow> u8 \<Rightarrow> u32 \<Rightarrow> svga \<Rightarrow> svga option" where
  "svga_draw_char x y c color s =
     (let bitmap = Ptr (font_get_char c) in
      forM [0..<FONT_H] (\<lambda>yy. forM [0..<FONT_W] (\<lambda>xx s.
        do { bit \<leftarrow> bitmap_get_bit_reverse bitmap (of_nat yy * of_nat FONT_W + of_nat xx);
             if bit \<noteq> 0 then svga_draw_pixel (x + of_nat xx) (y + of_nat yy) color s else Some s })) s)"

definition svga_scroll_down :: "u32 \<Rightarrow> svga \<Rightarrow> svga option" where
  "svga_scroll_down lines s =
     (let lines = (if lines > SCR_ROWS s then SCR_ROWS s else lines);
          line_size = framebuffer_pitch (tag s);
          fb_size = SCR_H s * line_size;
          row_size = line_size * of_nat (FONT_H + 2)
      in do { bb \<leftarrow> memcpy_within (backbuffer s) 0 (unat (lines * row_size)) (unat (fb_size - line_size));
              bb \<leftarrow> memset_within bb (unat (fb_size - row_size)) 0 (unat row_size);
              fb \<leftarrow> memcpy_bytes (svga_lfb s) bb (unat fb_size);
              Some (s\<lparr>backbuffer := bb, svga_lfb := fb\<rparr>) })"

text \<open>\<open>SCR_COLUMNS\<close> of 0 divides by zero.\<close>

definition svga_draw_char_cell :: "u32 \<Rightarrow> u8 \<Rightarrow> u32 \<Rightarrow> svga \<Rightarrow> (u32 \<times> svga) option" where
  "svga_draw_char_cell scrpos c color s =
     do { (scrpos, s) \<leftarrow> (if scrpos + 1 > SCR_ROWS s * SCR_COLUMNS s
            then do { s \<leftarrow> svga_scroll_down 1 s; Some (scrpos - SCR_COLUMNS s, s) }
            else Some (scrpos, s));
          if SCR_COLUMNS s = 0 then None
          else let y = scrpos div SCR_COLUMNS s; x = scrpos mod SCR_COLUMNS s in
               do { s \<leftarrow> svga_draw_char (of_nat FONT_W * x) (of_nat (FONT_H + 2) * y) c color s;
                    Some (scrpos + 1, s) } }"

definition svga_write_str :: "bytes \<Rightarrow> u32 \<Rightarrow> u32 \<Rightarrow> u32 \<Rightarrow> svga \<Rightarrow> (u32 \<times> svga) option" where
  "svga_write_str str scrpos len color s =
     do { (len, scrpos, s) \<leftarrow> (if scrpos + len > SCR_ROWS s * SCR_COLUMNS s
            then let len = (if len > SCR_ROWS s * SCR_COLUMNS s then SCR_ROWS s * SCR_COLUMNS s else len) in
                 do { lines_to_scroll \<leftarrow> ceiling_div (scrpos + len - SCR_ROWS s * SCR_COLUMNS s) (SCR_COLUMNS s);
                      let chars_to_scroll = lines_to_scroll * SCR_COLUMNS s in
                      do { s \<leftarrow> svga_scroll_down lines_to_scroll s;
                           (scrpos, s) \<leftarrow> svga_draw_char_cell (scrpos - chars_to_scroll) 120 color s;
                           Some (len, scrpos, s) } }
            else Some (len, scrpos, s));
          forM [0..<unat len] (\<lambda>i (scrpos, s). do { c \<leftarrow> arr_get str i; svga_draw_char_cell scrpos c color s })
            (scrpos, s) }"

definition svga_clr_cell :: "(u8 \<Rightarrow> u8 \<Rightarrow> u8) \<Rightarrow> u32 \<Rightarrow> svga \<Rightarrow> (u32 \<times> svga) option" where
  "svga_clr_cell scale scrpos s =
     do { color \<leftarrow> svga_translate_rgb scale 0 0 0 s; svga_draw_char_cell scrpos 255 color s }"

definition svga_clr_scr :: "(u8 \<Rightarrow> u8 \<Rightarrow> u8) \<Rightarrow> svga \<Rightarrow> svga option" where
  "svga_clr_scr scale s =
     do { color \<leftarrow> svga_translate_rgb scale 0 0 0 s; svga_draw_rect 0 0 (SCR_W s) (SCR_H s) color s }"

section \<open>Pixels\<close>

lemma set32_Some: "i + 4 \<le> length bs \<Longrightarrow> \<exists>bs'. set32 bs i v = Some bs' \<and> length bs' = length bs"
  by (simp add: set32_def)

lemma load_set32_same: "set32 bs i v = Some bs' \<Longrightarrow> load_u32 bs' i = Some v"
  by (auto simp: set32_def load_u32_def bytes_of_word nth_list_update split: if_splits)

lemma load_set32_other:
  "set32 bs i v = Some bs' \<Longrightarrow> i + 4 \<le> j \<or> j + 4 \<le> i \<Longrightarrow> load_u32 bs' j = load_u32 bs j"
  by (auto simp: set32_def load_u32_def arr_get_def nth_list_update split: if_splits)

text \<open>
  The geometry of a 32-bit frame buffer: the buffers hold \<open>SCR_H\<close> lines of the pitch, a line has room
  for \<open>SCR_W\<close> pixels, and the offsets fit in 32 bits.
\<close>

definition fb_ok :: "svga \<Rightarrow> bool" where
  "fb_ok s \<longleftrightarrow> framebuffer_bpp (tag s) = 32 \<and> 4 * unat (SCR_W s) \<le> unat (framebuffer_pitch (tag s)) \<and>
     length (svga_lfb s) = unat (framebuffer_pitch (tag s)) * unat (SCR_H s) \<and>
     length (backbuffer s) = length (svga_lfb s) \<and> length (svga_lfb s) < 2 ^ 32"

definition pixel_offset :: "svga \<Rightarrow> nat \<Rightarrow> nat \<Rightarrow> nat" where
  "pixel_offset s x y = unat (framebuffer_pitch (tag s)) * y + 4 * x"

definition pixel :: "svga \<Rightarrow> nat \<Rightarrow> nat \<Rightarrow> u32 option" where
  "pixel s x y = load_u32 (svga_lfb s) (pixel_offset s x y)"

lemma pixel_offset_bound:
  assumes "fb_ok s" "x < unat (SCR_W s)" "y < unat (SCR_H s)"
  shows "pixel_offset s x y + 4 \<le> length (svga_lfb s)"
proof -
  let ?p = "unat (framebuffer_pitch (tag s))"
  have "4 * x + 4 \<le> ?p" using assms(1,2) by (auto simp: fb_ok_def)
  moreover have "?p * (y + 1) \<le> ?p * unat (SCR_H s)" using assms(3) by (intro mult_le_mono2) simp
  ultimately show ?thesis using assms(1) by (simp add: fb_ok_def pixel_offset_def distrib_left)
qed

lemma pixel_offsets_apart:
  assumes "fb_ok s" "x < unat (SCR_W s)" "x' < unat (SCR_W s)" "(x, y) \<noteq> (x', y')"
  shows "pixel_offset s x y + 4 \<le> pixel_offset s x' y' \<or> pixel_offset s x' y' + 4 \<le> pixel_offset s x y"
proof -
  let ?p = "unat (framebuffer_pitch (tag s))"
  have w: "4 * x + 4 \<le> ?p" "4 * x' + 4 \<le> ?p" using assms(1-3) by (auto simp: fb_ok_def)
  consider "y = y'" | "y < y'" | "y' < y" by linarith
  then show ?thesis
  proof cases
    case 1
    then show ?thesis using assms(4) by (auto simp: pixel_offset_def)
  next
    case 2
    then have "?p * (y + 1) \<le> ?p * y'" by (intro mult_le_mono2) simp
    then show ?thesis using w by (simp add: pixel_offset_def distrib_left)
  next
    case 3
    then have "?p * (y' + 1) \<le> ?p * y" by (intro mult_le_mono2) simp
    then show ?thesis using w by (simp add: pixel_offset_def distrib_left)
  qed
qed

text \<open>\<open>drawn s D color t\<close>: \<open>t\<close> is \<open>s\<close> with the pixels of \<open>D\<close> in the colour \<open>color\<close> and no other change on the screen.\<close>

definition drawn :: "svga \<Rightarrow> (nat \<times> nat) set \<Rightarrow> u32 \<Rightarrow> svga \<Rightarrow> bool" where
  "drawn s D color t \<longleftrightarrow> fb_ok t \<and> (\<exists>fb bb. t = s\<lparr>svga_lfb := fb, backbuffer := bb\<rparr>) \<and>
     (\<forall>x<unat (SCR_W s). \<forall>y<unat (SCR_H s). pixel t x y = (if (x, y) \<in> D then Some color else pixel s x y))"

lemma drawn_refl: "fb_ok s \<Longrightarrow> drawn s {} color s"
proof -
  have "\<exists>fb bb. s = s\<lparr>svga_lfb := fb, backbuffer := bb\<rparr>"
    by (intro exI [of _ "svga_lfb s"] exI [of _ "backbuffer s"]) simp
  then show "fb_ok s \<Longrightarrow> drawn s {} color s" by (simp add: drawn_def)
qed

lemma svga_draw_pixel_ok:
  assumes t: "drawn s D color t" and xy: "unat x < unat (SCR_W s)" "unat y < unat (SCR_H s)"
  shows "\<exists>t'. svga_draw_pixel x y color t = Some t' \<and> drawn s (insert (unat x, unat y) D) color t'"
proof -
  obtain fb bb where tb: "t = s\<lparr>svga_lfb := fb, backbuffer := bb\<rparr>" "fb_ok t"
    using t by (auto simp: drawn_def)
  have dims: "SCR_W t = SCR_W s" "SCR_H t = SCR_H s" "tag t = tag s" using tb(1) by simp_all
  let ?o = "pixel_offset t (unat x) (unat y)"
  have bound: "?o + 4 \<le> length (svga_lfb t)"
    using pixel_offset_bound [OF tb(2)] xy dims by simp
  have small: "length (svga_lfb t) < 2 ^ 32" using tb(2) by (simp add: fb_ok_def)
  have m1: "unat (framebuffer_pitch (tag t) * y) = unat (framebuffer_pitch (tag t)) * unat y"
    and m2: "unat (4 * x) = 4 * unat x"
    using bound small by (auto simp: pixel_offset_def intro!: unat_mult_less unat_mult_less [of "4 :: u32", simplified])
  have off: "unat (framebuffer_pitch (tag t) * y + 4 * x) = ?o"
    using m1 m2 bound small by (subst unat_add_less) (auto simp: pixel_offset_def)
  obtain fb' where fb': "set32 (svga_lfb t) ?o color = Some fb'" "length fb' = length (svga_lfb t)"
    using set32_Some [OF bound] by blast
  obtain bb' where bb': "set32 (backbuffer t) ?o color = Some bb'" "length bb' = length (svga_lfb t)"
    using set32_Some [of ?o "backbuffer t"] bound tb(2) by (auto simp: fb_ok_def)
  let ?t = "t\<lparr>svga_lfb := fb', backbuffer := bb'\<rparr>"
  have draw: "svga_draw_pixel x y color t = Some ?t"
    using tb(2) off fb'(1) bb'(1) by (simp add: svga_draw_pixel_def fb_ok_def Let_def)
  have "pixel ?t px py = (if (px, py) \<in> insert (unat x, unat y) D then Some color else pixel s px py)"
    if p: "px < unat (SCR_W s)" "py < unat (SCR_H s)" for px py
  proof (cases "(px, py) = (unat x, unat y)")
    case True
    then show ?thesis using load_set32_same [OF fb'(1)] by (simp add: pixel_def pixel_offset_def)
  next
    case False
    have "?o + 4 \<le> pixel_offset t px py \<or> pixel_offset t px py + 4 \<le> ?o"
      using pixel_offsets_apart [OF tb(2), of "unat x" px "unat y" py] False p xy dims by auto
    then have "pixel ?t px py = pixel t px py"
      using load_set32_other [OF fb'(1)] by (simp add: pixel_def pixel_offset_def)
    also have "\<dots> = (if (px, py) \<in> D then Some color else pixel s px py)"
      using t p by (simp add: drawn_def)
    finally show ?thesis using False by auto
  qed
  moreover have "fb_ok ?t" using tb(2) fb'(2) bb'(2) by (simp add: fb_ok_def)
  moreover have "\<exists>fb bb. ?t = s\<lparr>svga_lfb := fb, backbuffer := bb\<rparr>" using tb(1) by auto
  ultimately show ?thesis using draw by (auto simp: drawn_def)
qed

section \<open>Characters\<close>

lemma glyph_bit:
  assumes "r < 9" "k < 8"
  shows "bitmap_get_bit_reverse (Ptr (font_get_char c)) (of_nat r * of_nat FONT_W + of_nat k) =
     Some (of_bool (glyph_pixel c r k))"
proof -
  have u: "unat (of_nat (8 * r + k) :: u32) = 8 * r + k" using assms by (intro unat_of_nat_small) simp
  have w: "of_nat r * of_nat FONT_W + of_nat k = (of_nat (8 * r + k) :: u32)" by (simp add: FONT_W_def)
  have "(8 * r + k) div 8 = r" "(8 * r + k) mod 8 = k" using assms by auto
  then have idx: "unat ((of_nat (8 * r + k) :: u32) div 8) = r" "unat ((of_nat (8 * r + k) :: u32) mod 8) = k"
    using u by (simp_all add: unat_div_8 unat_mod_8 del: of_nat_add of_nat_mult)
  have "of_nat (8 * r + k) mod 8 \<le> (7 :: u32)"
    using idx(2) assms(2) by (simp add: word_le_nat_alt del: of_nat_add of_nat_mult)
  then have "unat (7 - (of_nat (8 * r + k) :: u32) mod 8) = 7 - k"
    using idx(2) by (simp add: unat_sub del: of_nat_add of_nat_mult)
  moreover have "r < length (font_get_char c)" using font_get_char_rows [of c] assms(1) by linarith
  ultimately show ?thesis
    unfolding w using idx
    by (simp add: bitmap_get_bit_reverse_def Let_def glyph_pixel_def drop_bit_and_1 del: of_nat_add of_nat_mult)
qed

text \<open>The pixels of the glyph of \<open>c\<close> at \<open>(x, y)\<close> in the rows before \<open>r\<close>, and in row \<open>r\<close> before column \<open>k\<close>.\<close>

definition glyph_part :: "nat \<Rightarrow> nat \<Rightarrow> u8 \<Rightarrow> nat \<Rightarrow> nat \<Rightarrow> (nat \<times> nat) set" where
  "glyph_part x y c r k = {(x + j, y + i) | i j. j < 8 \<and> (i < r \<or> i = r \<and> j < k) \<and> glyph_pixel c i j}"

lemma glyph_part_start: "glyph_part x y c 0 0 = {}"
  by (simp add: glyph_part_def)

lemma glyph_part_row: "glyph_part x y c r 8 = glyph_part x y c (Suc r) 0"
  by (auto simp: glyph_part_def less_Suc_eq)

lemma glyph_part_step:
  "k < 8 \<Longrightarrow> glyph_part x y c r (Suc k) =
     (if glyph_pixel c r k then insert (x + k, y + r) (glyph_part x y c r k) else glyph_part x y c r k)"
  by (auto simp: glyph_part_def less_Suc_eq)

lemma svga_draw_char_ok:
  assumes ok: "fb_ok s" and x: "unat x + 8 \<le> unat (SCR_W s)" and y: "unat y + 9 \<le> unat (SCR_H s)"
  shows "\<exists>t. svga_draw_char x y c color s = Some t \<and> drawn s (glyph_part (unat x) (unat y) c 9 0) color t"
proof -
  let ?D = "glyph_part (unat x) (unat y) c"
  let ?cell = "\<lambda>yy xx s. do { bit \<leftarrow> bitmap_get_bit_reverse (Ptr (font_get_char c)) (of_nat yy * of_nat FONT_W + of_nat xx);
             if bit \<noteq> 0 then svga_draw_pixel (x + of_nat xx) (y + of_nat yy) color s else Some s }"
  have cell: "\<exists>t'. ?cell r k t = Some t' \<and> drawn s (?D r (Suc k)) color t'"
    if r: "r < 9" and k: "k < 8" and t: "drawn s (?D r k) color t" for r k t
  proof -
    have "unat (of_nat k :: u32) = k" "unat (of_nat r :: u32) = r"
      using r k by (simp_all add: unat_of_nat_small)
    then have u: "unat (x + of_nat k) = unat x + k" "unat (y + of_nat r) = unat y + r"
      using x y r k unat_less_32 [of "SCR_W s"] unat_less_32 [of "SCR_H s"]
      by (subst unat_add_less; simp)+
    have "\<exists>t'. svga_draw_pixel (x + of_nat k) (y + of_nat r) color t = Some t' \<and>
        drawn s (insert (unat x + k, unat y + r) (?D r k)) color t'"
      using svga_draw_pixel_ok [OF t, of "x + of_nat k" "y + of_nat r"] u x y r k by simp
    then show ?thesis
      using glyph_bit [OF r k, of c] t k by (auto simp: glyph_part_step)
  qed
  have row: "\<exists>t'. forM [0..<8] (?cell r) t = Some t' \<and> drawn s (?D (Suc r) 0) color t'"
    if r: "r < 9" and t: "drawn s (?D r 0) color t" for r t
  proof -
    have "\<exists>t'. forM [0..<8] (?cell r) t = Some t' \<and> drawn s (?D r 8) color t'"
      by (rule forM_invariant [where I = "\<lambda>k. drawn s (?D r k) color"]) (use t cell [OF r] in auto)
    then show ?thesis by (simp only: glyph_part_row)
  qed
  have "\<exists>t. forM [0..<9] (\<lambda>r. forM [0..<8] (?cell r)) s = Some t \<and> drawn s (?D 9 0) color t"
    by (rule forM_invariant [where I = "\<lambda>r. drawn s (?D r 0) color"])
       (use drawn_refl [OF ok] row in \<open>auto simp: glyph_part_start\<close>)
  then show ?thesis by (simp add: svga_draw_char_def FONT_H_def FONT_W_def Let_def)
qed

section \<open>The palette\<close>

lemma color_distance_bound: "color_distance r g b p < 4 * 256 * 256"
proof -
  have sq: "(uint (a :: u8) - uint (c :: u8)) * (uint a - uint c) \<le> 255 * 255" for a c
  proof -
    have "uint a < 256" "uint c < 256" "0 \<le> uint a" "0 \<le> uint c"
      using uint_bounded [of a] uint_bounded [of c] by simp_all
    then have "\<bar>uint a - uint c\<bar> \<le> 255" by linarith
    then have "\<bar>uint a - uint c\<bar> * \<bar>uint a - uint c\<bar> \<le> 255 * 255" by (intro mult_mono) auto
    then show ?thesis by simp
  qed
  obtain red green blue where "p = (red, green, blue)" by (cases p)
  then show ?thesis
    using sq [of b blue] sq [of r red] sq [of g green] by (simp add: color_distance_def)
qed

lemma palette_search_ok:
  assumes "n \<le> length palette" and "m \<le> n" and "n < 2 ^ 32"
    and "m = 0 \<and> best = 4 * 256 * 256 \<and> color = 0 \<or>
      (\<exists>i<m. color = of_nat i \<and> best = color_distance r g b (palette ! i) \<and>
         (\<forall>j<m. best \<le> color_distance r g b (palette ! j)) \<and> (\<forall>j<i. best < color_distance r g b (palette ! j)))"
    and "0 < n"
  shows "\<exists>i<n. palette_search [m..<n] palette r g b (color, best) = Some (of_nat i) \<and>
     (\<forall>j<n. color_distance r g b (palette ! i) \<le> color_distance r g b (palette ! j)) \<and>
     (\<forall>j<i. color_distance r g b (palette ! i) < color_distance r g b (palette ! j))"
  using assms(2,4)
proof (induction "n - m" arbitrary: m color best)
  case 0
  then show ?case using assms(5) by auto
next
  case (Suc d)
  then have m: "m < n" by simp
  let ?dist = "color_distance r g b (palette ! m)"
  have upt: "[m..<n] = m # [Suc m..<n]" using m by (simp add: upt_conv_Cons)
  show ?case
  proof (cases "?dist < best")
    case True
    have less: "?dist < color_distance r g b (palette ! j)" if "j < m" for j
    proof -
      have "best \<le> color_distance r g b (palette ! j)" using that Suc.prems(2) by auto
      then show ?thesis using True by linarith
    qed
    then have "?dist \<le> color_distance r g b (palette ! j)" if "j < Suc m" for j
      using that by (cases "j = m") (auto simp: less_Suc_eq intro: less_imp_le)
    with less have "\<exists>i<n. palette_search [Suc m..<n] palette r g b (of_nat m, ?dist) = Some (of_nat i) \<and>
       (\<forall>j<n. color_distance r g b (palette ! i) \<le> color_distance r g b (palette ! j)) \<and>
       (\<forall>j<i. color_distance r g b (palette ! i) < color_distance r g b (palette ! j))"
      using Suc.hyps(2) m by (intro Suc.hyps(1)) (auto intro!: exI [of _ m])
    then show ?thesis using True assms(1) m by (simp add: upt Let_def)
  next
    case False
    then have "\<not> m = 0" using Suc.prems(2) color_distance_bound [of r g b "palette ! m"] by auto
    then have "\<exists>i<n. palette_search [Suc m..<n] palette r g b (color, best) = Some (of_nat i) \<and>
       (\<forall>j<n. color_distance r g b (palette ! i) \<le> color_distance r g b (palette ! j)) \<and>
       (\<forall>j<i. color_distance r g b (palette ! i) < color_distance r g b (palette ! j))"
      using Suc.hyps(2) Suc.prems(2) m False by (intro Suc.hyps(1)) (auto simp: less_Suc_eq)
    then show ?thesis using False assms(1) m by (simp add: upt Let_def)
  qed
qed

section \<open>Scrolling\<close>

text \<open>A copy whose source range leaves the object faults.\<close>

lemma memcpy_within_faults:
  assumes "length bs < src + len" and "dst \<le> src" and "src \<le> length bs"
  shows "memcpy_within bs dst src len = None"
proof -
  let ?k = "length bs - src"
  let ?body = "\<lambda>i bs. do { b \<leftarrow> arr_get bs (src + i); arr_set bs (dst + i) b }"
  have split: "[0..<len] = [0..<?k] @ ?k # [Suc ?k..<len]"
    using assms(1,3) upt_add_eq_append [of 0 ?k "len - ?k"] by (simp add: upt_conv_Cons)
  have "\<exists>bs'. forM [0..<?k] ?body bs = Some bs' \<and> length bs' = length bs"
    by (rule forM_invariant [where I = "\<lambda>_ bs'. length bs' = length bs"]) (use assms in auto)
  then obtain bs' where bs': "forM [0..<?k] ?body bs = Some bs'" "length bs' = length bs" by blast
  then have "?body ?k bs' = None" using assms(3) by simp
  then show ?thesis using bs'(1) unfolding memcpy_within_def split by simp
qed

section \<open>Properties\<close>

definition sample_svga :: svga where
  "sample_svga = \<lparr>SCR_W = 8, SCR_H = 22, SCR_COLUMNS = 1, SCR_ROWS = 2, svga_lfb = replicate 704 0,
     backbuffer = replicate 704 0,
     tag = \<lparr>framebuffer_pitch = 32, framebuffer_width = 8, framebuffer_height = 22, framebuffer_bpp = 32,
       framebuffer_type = 1, framebuffer_palette_num_colors = 3,
       framebuffer_palette = [(0, 0, 0), (255, 0, 0), (250, 250, 250)],
       framebuffer_red_field_position = 16, framebuffer_red_mask_size = 8,
       framebuffer_green_field_position = 8, framebuffer_green_mask_size = 8,
       framebuffer_blue_field_position = 0, framebuffer_blue_mask_size = 8\<rparr>\<rparr>"

lemma sample_svga_ok: "fb_ok sample_svga"
  by (simp add: fb_ok_def sample_svga_def)

text \<open>
  C38. On a 32-bit frame buffer, \<open>svga_draw_char\<close> at a position where the glyph fits the screen stays
  inside both buffers and sets exactly the pixels of the glyph of the character, in the given colour;
  every other pixel of the screen keeps its value.
\<close>

theorem svga_draw_char_pixels:
  assumes "fb_ok s" and "unat x + 8 \<le> unat (SCR_W s)" and "unat y + 9 \<le> unat (SCR_H s)"
  shows "\<exists>t. svga_draw_char x y c color s = Some t \<and> fb_ok t \<and>
     (\<forall>px<unat (SCR_W s). \<forall>py<unat (SCR_H s). pixel t px py =
        (if unat x \<le> px \<and> px < unat x + 8 \<and> unat y \<le> py \<and> py < unat y + 9 \<and>
            glyph_pixel c (py - unat y) (px - unat x) then Some color else pixel s px py))"
proof -
  have "(px, py) \<in> glyph_part (unat x) (unat y) c 9 0 \<longleftrightarrow>
      unat x \<le> px \<and> px < unat x + 8 \<and> unat y \<le> py \<and> py < unat y + 9 \<and>
      glyph_pixel c (py - unat y) (px - unat x)" for px py
  proof
    assume *: "unat x \<le> px \<and> px < unat x + 8 \<and> unat y \<le> py \<and> py < unat y + 9 \<and>
      glyph_pixel c (py - unat y) (px - unat x)"
    then have "(px, py) = (unat x + (px - unat x), unat y + (py - unat y)) \<and> px - unat x < 8 \<and>
        (py - unat y < 9 \<or> py - unat y = 9 \<and> px - unat x < 0) \<and> glyph_pixel c (py - unat y) (px - unat x)"
      by auto
    then show "(px, py) \<in> glyph_part (unat x) (unat y) c 9 0"
      unfolding glyph_part_def by blast
  qed (auto simp: glyph_part_def)
  then show ?thesis
    using svga_draw_char_ok [OF assms, of c color] by (auto simp: drawn_def)
qed

theorem svga_draw_char_pixels_witness:
  "\<exists>t. svga_draw_char 0 0 255 0xffffff sample_svga = Some t \<and> fb_ok t"
proof -
  have "unat (0 :: u32) + 8 \<le> unat (SCR_W sample_svga)" "unat (0 :: u32) + 9 \<le> unat (SCR_H sample_svga)"
    by (simp_all add: sample_svga_def)
  from svga_draw_char_pixels [OF sample_svga_ok this] show ?thesis by blast
qed

text \<open>
  Scrolling by one or more lines reads outside the back buffer: it copies \<open>fb_size - line_size\<close>
  bytes from an offset of at least eleven lines.
\<close>

theorem svga_scroll_down_out_of_bounds:
  assumes "fb_ok s" and "0 < unat lines" and "0 < unat (SCR_ROWS s)" and "0 < unat (framebuffer_pitch (tag s))"
    and "unat (SCR_ROWS s) * 11 \<le> unat (SCR_H s)"
  shows "svga_scroll_down lines s = None"
proof -
  let ?p = "framebuffer_pitch (tag s)"
  let ?l = "if lines > SCR_ROWS s then SCR_ROWS s else lines"
  have l: "0 < unat ?l" "unat ?l \<le> unat (SCR_ROWS s)" using assms(2,3) by (auto simp: word_le_nat_alt not_less)
  have size: "length (backbuffer s) = unat ?p * unat (SCR_H s)" "unat ?p * unat (SCR_H s) < 2 ^ 32"
    using assms(1) by (auto simp: fb_ok_def)
  have fb: "unat (SCR_H s * ?p) = unat ?p * unat (SCR_H s)"
    using size(2) by (simp add: unat_mult_less mult.commute)
  have lines: "unat ?l * (unat ?p * 11) \<le> unat ?p * unat (SCR_H s)"
  proof -
    have "unat ?l * 11 \<le> unat (SCR_H s)" using l(2) assms(5) by linarith
    then have "unat ?p * (unat ?l * 11) \<le> unat ?p * unat (SCR_H s)" by (rule mult_le_mono2)
    then show ?thesis by (simp add: ac_simps)
  qed
  have row: "unat (?p * 11) = unat ?p * 11"
  proof -
    have "1 * (unat ?p * 11) \<le> unat ?l * (unat ?p * 11)" using l(1) by (intro mult_le_mono1) simp
    then have "unat ?p * 11 < 2 ^ 32" using lines size(2) by linarith
    then show ?thesis by (subst unat_mult_less) auto
  qed
  have src: "unat (?l * (?p * 11)) = unat ?l * (unat ?p * 11)"
  proof -
    have "unat ?l * unat (?p * 11) < 2 ^ LENGTH(32)" unfolding row using le_less_trans [OF lines size(2)] by simp
    then show ?thesis by (subst unat_mult_less) (simp_all add: row)
  qed
  have "1 * unat ?p \<le> unat (SCR_H s) * unat ?p"
    using l assms(5) by (intro mult_le_mono1) linarith
  then have le: "unat ?p \<le> unat ?p * unat (SCR_H s)" by (simp add: mult.commute)
  then have "?p \<le> SCR_H s * ?p" using fb by (simp add: word_le_nat_alt)
  then have len: "unat (SCR_H s * ?p - ?p) = unat ?p * unat (SCR_H s) - unat ?p"
    using fb by (simp add: unat_sub)
  have "unat ?p * 11 \<le> unat ?l * (unat ?p * 11)" using l(1) by simp
  then have "length (backbuffer s) < unat (?l * (?p * 11)) + unat (SCR_H s * ?p - ?p)"
    unfolding size(1) src len using assms(4) le by linarith
  then have "memcpy_within (backbuffer s) 0 (unat (?l * (?p * 11))) (unat (SCR_H s * ?p - ?p)) = None"
    using lines by (intro memcpy_within_faults) (auto simp: size(1) src)
  then show ?thesis by (simp add: svga_scroll_down_def FONT_H_def Let_def)
qed

theorem svga_scroll_down_out_of_bounds_witness: "svga_scroll_down 1 sample_svga = None"
  using sample_svga_ok by (rule svga_scroll_down_out_of_bounds) (simp_all add: sample_svga_def)

text \<open>
  In the indexed mode \<open>svga_translate_rgb\<close> returns the first palette index whose colour is
  nearest to the requested one.
\<close>

theorem svga_translate_rgb_nearest:
  assumes "framebuffer_type (tag s) = 0" and "0 < unat (framebuffer_palette_num_colors (tag s))"
    and "unat (framebuffer_palette_num_colors (tag s)) \<le> length (framebuffer_palette (tag s))"
  shows "\<exists>i<unat (framebuffer_palette_num_colors (tag s)).
     svga_translate_rgb scale r g b s = Some (of_nat i) \<and>
     (\<forall>j<unat (framebuffer_palette_num_colors (tag s)).
        color_distance r g b (framebuffer_palette (tag s) ! i) \<le> color_distance r g b (framebuffer_palette (tag s) ! j)) \<and>
     (\<forall>j<i. color_distance r g b (framebuffer_palette (tag s) ! i) < color_distance r g b (framebuffer_palette (tag s) ! j))"
proof -
  have "unat (framebuffer_palette_num_colors (tag s)) < 2 ^ 16"
    using unsigned_less [where w = "framebuffer_palette_num_colors (tag s)" and ?'a = nat] by simp
  then have "unat (framebuffer_palette_num_colors (tag s)) < 2 ^ 32" by simp
  then show ?thesis
    using palette_search_ok [OF assms(3), of 0 "4 * 256 * 256" 0] assms(1,2)
    by (simp add: svga_translate_rgb_def Let_def)
qed

theorem svga_translate_rgb_nearest_witness:
  "\<exists>i<3. svga_translate_rgb (\<lambda>_ c. c) 240 10 10
     (sample_svga\<lparr>tag := (tag sample_svga)\<lparr>framebuffer_type := 0\<rparr>\<rparr>) = Some (of_nat i)"
proof -
  let ?s = "sample_svga\<lparr>tag := (tag sample_svga)\<lparr>framebuffer_type := 0\<rparr>\<rparr>"
  have n: "unat (framebuffer_palette_num_colors (tag ?s)) = 3" by (simp add: sample_svga_def)
  have "framebuffer_type (tag ?s) = 0" by simp
  moreover have "0 < unat (framebuffer_palette_num_colors (tag ?s))"
    "unat (framebuffer_palette_num_colors (tag ?s)) \<le> length (framebuffer_palette (tag ?s))"
    using n by (simp_all add: sample_svga_def)
  ultimately show ?thesis
    using svga_translate_rgb_nearest [of ?s "\<lambda>_ c. c" 240 10 10] unfolding n by blast
qed

end
