(* ===== verification/Paging.thy ===== *)
theory Paging
  imports Memory Pageframe
begin

text \<open>
  \<^verbatim>\<open>kernel/mmu/paging.c\<close> with the two register accesses of \<^verbatim>\<open>kernel/mmu/paging_en.S\<close>: the page
  directory and the page tables. Both are arrays of 1024 words in the byte memory \<open>kmem\<close>, the
  directory at the address the linker gives it, the tables in pages taken from the kernel heap.

  The specification is the two-level walk of the i386 (\<open>translate\<close>). The kernel maps every page to
  itself, so the abstraction of the state is the set of mapped page numbers: the operations add a
  page, or 1024 of them, and the walk translates exactly the addresses of mapped pages, to
  themselves.
\<close>

section \<open>State and operations\<close>

record paging = pageframe +
  kernel_page_directory :: u32
  allocated_page_tables :: "u32 list"
  cr0 :: u32
  cr3 :: u32

definition virtual_addr_to_pde :: "u32 \<Rightarrow> u32" where
  "virtual_addr_to_pde virtual_addr = drop_bit 22 virtual_addr"

definition get_page_table :: "u32 \<Rightarrow> 'a paging_scheme \<Rightarrow> (u32 \<times> 'a paging_scheme) option" where
  "get_page_table phys_addr s =
     (let index = unat (phys_addr div 0x400000) in
      do { t \<leftarrow> arr_get (allocated_page_tables s) index;
           if t = 0
           then do { (t, s) \<leftarrow> kmalloc_align 4096 4096 s;
                     ts \<leftarrow> arr_set (allocated_page_tables s) index t;
                     Some (t, s\<lparr>allocated_page_tables := ts\<rparr>) }
           else Some (t, s) })"

definition paging_map_page :: "u32 \<Rightarrow> u32 \<Rightarrow> u32 \<Rightarrow> 'a paging_scheme \<Rightarrow> 'a paging_scheme option" where
  "paging_map_page virtual_addr phys_addr page_dir s =
     do { (page_table, s) \<leftarrow> get_page_table phys_addr s;
          let pte = (virtual_addr mod 0x400000) div 0x1000 in
          if load32 (kmem s) (page_table + 4 * pte) = (phys_addr OR 3) then Some s
          else let s = s\<lparr>kmem := store32 (kmem s) (page_table + 4 * pte) (phys_addr OR 3)\<rparr>;
                   pde = virtual_addr_to_pde virtual_addr
               in Some (s\<lparr>kmem := store32 (kmem s) (page_dir + 4 * pde) ((page_table - 0) OR 3)\<rparr>) }"

definition paging_map_table :: "u32 \<Rightarrow> u32 \<Rightarrow> u32 \<Rightarrow> 'a paging_scheme \<Rightarrow> 'a paging_scheme option" where
  "paging_map_table virtual_addr phys_addr page_dir s =
     do { (page_table, s) \<leftarrow> get_page_table phys_addr s;
          let m = fold (\<lambda>i m. store32 m (page_table + 4 * of_nat i)
                     ((phys_addr + of_nat i * 0x1000) OR 3)) [0..<1024] (kmem s);
              pde = virtual_addr_to_pde virtual_addr
          in Some (s\<lparr>kmem := store32 m (page_dir + 4 * pde) ((page_table - 0) OR 3)\<rparr>) }"

definition load_page_directory :: "u32 \<Rightarrow> 'a paging_scheme \<Rightarrow> 'a paging_scheme" where
  "load_page_directory page_directory s = s\<lparr>cr3 := page_directory\<rparr>"

definition enable_paging :: "'a paging_scheme \<Rightarrow> 'a paging_scheme" where
  "enable_paging s = s\<lparr>cr0 := cr0 s OR 0x80000000\<rparr>"

definition paging_init :: "'a paging_scheme \<Rightarrow> 'a paging_scheme option" where
  "paging_init s =
     do { s \<leftarrow> forM [0..<2] (\<lambda>i s. paging_map_table (0x0 + 0x400000 * of_nat i) (0x400000 * of_nat i)
                  (kernel_page_directory s) s) s;
          let kernel_page_directory_phys = kernel_page_directory s - 0x0;
              s = load_page_directory kernel_page_directory_phys s;
              s = enable_paging s
          in Some (s\<lparr>kinfo_of := (kinfo_of s)\<lparr>is_paging_enabled := 1\<rparr>\<rparr>) }"

definition get_kernel_pd :: "'a paging_scheme \<Rightarrow> u32" where
  "get_kernel_pd s = kernel_page_directory s"

section \<open>The walk of the processor\<close>

text \<open>
  An entry is present when bit 0 is set; bits 12 to 31 are the address of the table or page.
  With paging off (bit 31 of \<open>cr0\<close>) addresses are physical.
\<close>

definition page_base :: "u32 \<Rightarrow> u32" where
  "page_base e = push_bit 12 (drop_bit 12 e)"

definition walk :: "mem \<Rightarrow> u32 \<Rightarrow> u32 \<Rightarrow> u32 option" where
  "walk m directory va =
     (let pde = load32 m (page_base directory + 4 * drop_bit 22 va) in
      if bit pde 0
      then let pte = load32 m (page_base pde + 4 * ((va mod 0x400000) div 0x1000)) in
           if bit pte 0 then Some (page_base pte + va mod 0x1000) else None
      else None)"

definition translate :: "'a paging_scheme \<Rightarrow> u32 \<Rightarrow> u32 option" where
  "translate s va = (if bit (cr0 s) 31 then walk (kmem s) (cr3 s) va else Some va)"

section \<open>Tables in memory\<close>

definition entry :: "mem \<Rightarrow> u32 \<Rightarrow> nat \<Rightarrow> u32" where
  "entry m a j = load32 m (a + 4 * of_nat j)"

lemma entry_unat: "load32 m (a + 4 * w) = entry m a (unat w)"
  by (simp add: entry_def)

lemma entry_store:
  assumes "4096 dvd unat a" "4096 dvd unat b" "i < 1024" "j < 1024"
  shows "entry (store32 m (a + 4 * of_nat i) v) b j = (if a = b \<and> i = j then v else entry m b j)"
  using table_entry_addr(2) [OF assms(1,3)] table_entry_addr(2) [OF assms(2,4)]
    table_entry_eq_iff [OF assms] by (simp add: entry_def load32_store32)

lemma entry_fill:
  assumes m': "\<And>x. m' x = (if unat x \<in> region r 4096 then 0 else m x)"
    and a: "4096 dvd unat a" "4096 dvd unat r" and j: "j < 1024"
  shows "entry m' a j = (if a = r then 0 else entry m a j)"
proof -
  let ?e = "a + 4 * of_nat j"
  note e = table_entry_addr [OF a(1) j]
  have off: "unat (?e + of_nat k) = unat a + (4 * j + k)" "4 * j + k < 4096" if "k < 4" for k
    using aligned_offset [OF e(2) that] e(1) that j by simp_all
  obtain p q where pq: "unat a = 4096 * p" "unat r = 4096 * q" using a by blast
  have "unat (?e + of_nat k) \<in> region r 4096 \<longleftrightarrow> a = r" if "k < 4" for k
  proof -
    have "unat (?e + of_nat k) \<in> region r 4096 \<longleftrightarrow> p = q"
      using off [OF that] pq by (auto simp: region_def)
    also have "\<dots> \<longleftrightarrow> unat a = unat r" using pq by simp
    finally show ?thesis by simp
  qed
  then have "m' (?e + of_nat k) = (if a = r then 0 else m (?e + of_nat k))" if "k < 4" for k
    using that m' by simp
  from this [of 0] this [of 1] this [of 2] this [of 3] show ?thesis
    by (simp add: entry_def load32_def)
qed

section \<open>The invariant\<close>

text \<open>
  The entries that map page \<open>p\<close> to itself, with whatever flags in the low bits beside the one for present, and the state of the tables: the tables lie in pages of
  their own below the break, a directory entry that is not zero points to the table of its index,
  and an entry of the \<open>i\<close>-th table that is not zero maps its page to itself and is reachable from
  the directory.
\<close>

definition maps_self :: "nat \<Rightarrow> u32 \<Rightarrow> bool" where
  "maps_self p e \<longleftrightarrow> bit e 0 \<and> unat e div 4096 = p"

definition tables_ok :: "u32 \<Rightarrow> u32 list \<Rightarrow> mem \<Rightarrow> nat \<Rightarrow> bool" where
  "tables_ok pd T m cur \<longleftrightarrow> length T = 1024 \<and> 4096 dvd unat pd \<and> unat pd + 4096 \<le> cur \<and>
     (\<forall>i<1024. T ! i \<noteq> 0 \<longrightarrow> 4096 dvd unat (T ! i) \<and> unat (T ! i) + 4096 \<le> cur \<and> T ! i \<noteq> pd) \<and>
     (\<forall>i<1024. \<forall>j<1024. T ! i = T ! j \<longrightarrow> T ! i \<noteq> 0 \<longrightarrow> i = j) \<and>
     (\<forall>i<1024. entry m pd i \<noteq> 0 \<longrightarrow> T ! i \<noteq> 0 \<and> entry m pd i = (T ! i OR 3)) \<and>
     (\<forall>i<1024. T ! i \<noteq> 0 \<longrightarrow> (\<forall>j<1024. entry m (T ! i) j \<noteq> 0 \<longrightarrow>
        entry m pd i \<noteq> 0 \<and> maps_self (1024 * i + j) (entry m (T ! i) j)))"

text \<open>
  The kernel heap stays below 8 MiB, the part of memory that is reserved for the kernel, even when
  every missing table is allocated.
\<close>

definition page_up :: "nat \<Rightarrow> nat" where
  "page_up n = (n + 4095) div 4096 * 4096"

definition pg_inv :: "'a paging_scheme \<Rightarrow> bool" where
  "pg_inv s \<longleftrightarrow> tables_ok (kernel_page_directory s) (allocated_page_tables s) (kmem s) (unat (heap_cur s)) \<and>
     page_up (unat (heap_cur s)) + 4096 * length (filter (\<lambda>t. t = 0) (allocated_page_tables s)) \<le> 0x800000"

definition mapped_pages :: "'a paging_scheme \<Rightarrow> nat set" where
  "mapped_pages s = {p. p < 2 ^ 20 \<and> entry (kmem s) (kernel_page_directory s) (p div 1024) \<noteq> 0 \<and>
     entry (kmem s) (allocated_page_tables s ! (p div 1024)) (p mod 1024) \<noteq> 0}"

text \<open>
  The part of the state that mapping a page may change. The memory from 8 MiB on, which the page frame
  allocator hands out, stays as it is.
\<close>

definition same_high :: "mem \<Rightarrow> mem \<Rightarrow> bool" where
  "same_high m m' \<longleftrightarrow> (\<forall>x. 0x800000 \<le> unat x \<longrightarrow> m' x = m x)"

definition only_tables :: "'a paging_scheme \<Rightarrow> 'a paging_scheme \<Rightarrow> bool" where
  "only_tables s s' \<longleftrightarrow>
     (\<exists>c m ts. s' = s\<lparr>heap_cur := c, kmem := m, allocated_page_tables := ts\<rparr> \<and> same_high (kmem s) m)"

lemma same_high_refl [simp]: "same_high m m"
  by (simp add: same_high_def)

lemma same_high_trans: "same_high m m' \<Longrightarrow> same_high m' m'' \<Longrightarrow> same_high m m''"
  by (simp add: same_high_def)

lemma same_high_store:
  assumes "4096 dvd unat a" "unat a + 4096 \<le> 0x800000" "i < 1024" "same_high m m'"
  shows "same_high m (store32 m' (a + 4 * of_nat i) v)"
proof -
  let ?e = "a + 4 * of_nat i"
  have off: "unat (?e + of_nat k) < 0x800000" if "k < 4" for k
    using aligned_offset [OF table_entry_addr(2) [OF assms(1,3)] that] table_entry_addr(1) [OF assms(1,3)] assms that
    by simp
  have "x \<noteq> ?e + of_nat k" if "0x800000 \<le> unat x" "k < 4" for x k
    using off [OF that(2)] that(1) by auto
  note ne = this
  have "x \<noteq> ?e \<and> x \<noteq> ?e + 1 \<and> x \<noteq> ?e + 2 \<and> x \<noteq> ?e + 3" if "0x800000 \<le> unat x" for x
    using ne [OF that, of 0] ne [OF that, of 1] ne [OF that, of 2] ne [OF that, of 3] by simp
  then show ?thesis using assms(4) by (simp add: same_high_def store32_def)
qed

lemma same_high_fold:
  assumes "4096 dvd unat a" "unat a + 4096 \<le> 0x800000" "n \<le> 1024" "same_high m m'"
  shows "same_high m (fold (\<lambda>k m. store32 m (a + 4 * of_nat k) (f k)) [0..<n] m')"
  using assms(3)
proof (induction n)
  case (Suc n)
  then show ?case using same_high_store [OF assms(1,2)] by simp
qed (simp add: assms(4))

lemma only_tables_refl: "only_tables s s"
  unfolding only_tables_def
  by (rule exI [of _ "heap_cur s"], rule exI [of _ "kmem s"], rule exI [of _ "allocated_page_tables s"]) simp

lemma only_tables_trans: "only_tables s t \<Longrightarrow> only_tables t u \<Longrightarrow> only_tables s u"
  unfolding only_tables_def by (elim exE conjE) (simp, blast intro: same_high_trans)

lemma only_tables_kmem:
  assumes "only_tables s t" and high: "same_high (kmem t) m'"
  shows "only_tables s (t\<lparr>kmem := m'\<rparr>)"
proof -
  obtain c m ts where t: "t = s\<lparr>heap_cur := c, kmem := m, allocated_page_tables := ts\<rparr>" "same_high (kmem s) m"
    using assms by (auto simp: only_tables_def)
  have "t\<lparr>kmem := m'\<rparr> = s\<lparr>heap_cur := c, kmem := m', allocated_page_tables := ts\<rparr>"
    unfolding t(1) by (rule paging.equality) simp_all
  moreover have "same_high (kmem s) m'" using t high by (auto intro: same_high_trans)
  ultimately show ?thesis unfolding only_tables_def by blast
qed

lemma only_tables_frame:
  assumes "only_tables s s'"
  shows "kernel_page_directory s' = kernel_page_directory s" "cr0 s' = cr0 s" "cr3 s' = cr3 s"
    "allocated s' = allocated s" "pf_wf s' = pf_wf s" "frame_inv s' = frame_inv s"
    "pages_total_phys s' = pages_total_phys s" "kinfo_of s' = kinfo_of s" "same_high (kmem s) (kmem s')"
  using assms by (auto simp: only_tables_def allocated_def pf_wf_def frame_inv_def)

lemma page_up_ge: "n \<le> page_up n"
  unfolding page_up_def using div_mult_mod_eq [of "n + 4095" 4096] mod_less_divisor [of 4096 "n + 4095"]
  by linarith

lemma page_up_unique:
  assumes "n \<le> r" "r < n + 4096" "r mod 4096 = 0"
  shows "r = page_up n"
proof -
  obtain q where q: "r = 4096 * q" using assms(3) by auto
  have "(n + 4095) div 4096 = q" using assms(1,2) q by (intro div_nat_eqI) auto
  then show ?thesis using q by (simp add: page_up_def)
qed

lemma page_up_next: "r mod 4096 = 0 \<Longrightarrow> page_up (r + 4096) = r + 4096"
  using page_up_unique [of "r + 4096" "r + 4096"] by simp

lemma filter_update_less:
  "i < length T \<Longrightarrow> T ! i = 0 \<Longrightarrow> (r :: u32) \<noteq> 0 \<Longrightarrow>
   length (filter (\<lambda>t. t = 0) T) = Suc (length (filter (\<lambda>t. t = 0) (T[i := r])))"
proof (induction T arbitrary: i)
  case (Cons t T)
  then show ?case by (cases i) auto
qed simp

lemma tables_okD:
  assumes "tables_ok pd T m cur" and "i < 1024"
  shows "length T = 1024" "4096 dvd unat pd" "unat pd + 4096 \<le> cur"
    and "T ! i \<noteq> 0 \<Longrightarrow> 4096 dvd unat (T ! i)" "T ! i \<noteq> 0 \<Longrightarrow> unat (T ! i) + 4096 \<le> cur"
    and "T ! i \<noteq> 0 \<Longrightarrow> T ! i \<noteq> pd"
    and "j < 1024 \<Longrightarrow> T ! i = T ! j \<Longrightarrow> T ! i \<noteq> 0 \<Longrightarrow> i = j"
    and "entry m pd i \<noteq> 0 \<Longrightarrow> T ! i \<noteq> 0 \<and> entry m pd i = (T ! i OR 3)"
    and "T ! i \<noteq> 0 \<Longrightarrow> j < 1024 \<Longrightarrow> entry m (T ! i) j \<noteq> 0 \<Longrightarrow>
       entry m pd i \<noteq> 0 \<and> maps_self (1024 * i + j) (entry m (T ! i) j)"
  using assms unfolding tables_ok_def by blast+

text \<open>A new, zeroed table above the break keeps the invariant.\<close>

lemma tables_ok_new:
  assumes ok: "tables_ok pd T m cur" and i: "i < 1024" "T ! i = 0"
    and r: "4096 dvd unat r" "cur \<le> unat r" "unat r + 4096 \<le> cur'"
    and m': "\<And>x. m' x = (if unat x \<in> region r 4096 then 0 else m x)"
  shows "tables_ok pd (T[i := r]) m' cur'"
proof -
  note D = tables_okD [OF ok]
  have other: "entry m' a j = entry m a j"
    if "4096 dvd unat a" "unat a + 4096 \<le> cur" "j < 1024" for a j
    using entry_fill [of m' r m a j] m' that r by auto
  have zero: "entry m' r j = 0" if "j < 1024" for j
    using entry_fill [of m' r m r j] m' that r by simp
  have pd: "entry m' pd k = entry m pd k" if "k < 1024" for k
    using other [of pd k] D(2,3) i(1) that by blast
  have below: "T ! k \<noteq> r" if "k < 1024" "T ! k \<noteq> 0" for k
    using D(5) [OF that] r(2) by auto
  have tab: "entry m' (T ! k) j = entry m (T ! k) j" if "k < 1024" "T ! k \<noteq> 0" "j < 1024" for k j
    using other [of "T ! k" j] D(4,5) [OF that(1,2)] that(3) by blast
  have len: "length T = 1024" using D(1) i(1) by blast
  show ?thesis
    unfolding tables_ok_def
  proof (intro conjI allI impI)
    fix k :: nat assume k: "k < 1024"
    show "4096 dvd unat (T[i := r] ! k)" if "T[i := r] ! k \<noteq> 0"
      using that D(4) [OF k] r k len by (cases "k = i") auto
    show "unat (T[i := r] ! k) + 4096 \<le> cur'" if "T[i := r] ! k \<noteq> 0"
      using that D(5) [OF k] r k len by (cases "k = i") auto
    show "T[i := r] ! k \<noteq> pd" if "T[i := r] ! k \<noteq> 0"
      using that D(6) [OF k] D(3) [OF k] r k len by (cases "k = i") auto
    show "k = j" if "j < 1024" "T[i := r] ! k = T[i := r] ! j" "T[i := r] ! k \<noteq> 0" for j
      using that D(7) [OF k that(1)] below [OF k] below [OF that(1)] len k
      by (cases "k = i"; cases "j = i") auto
    show "T[i := r] ! k \<noteq> 0" "entry m' pd k = (T[i := r] ! k OR 3)" if "entry m' pd k \<noteq> 0"
      using that D(8) [OF k] pd [OF k] i len by (cases "k = i"; auto)+
    show "entry m' pd k \<noteq> 0" "maps_self (1024 * k + j) (entry m' (T[i := r] ! k) j)"
      if "T[i := r] ! k \<noteq> 0" "j < 1024" "entry m' (T[i := r] ! k) j \<noteq> 0" for j
      using that D(9) [OF k _ that(2)] pd [OF k] tab [OF k _ that(2)] zero [OF that(2)] i len
      by (cases "k = i"; auto)+
  qed (use D(2) [OF i(1)] D(3) [OF i(1)] r len in auto)
qed

lemma or_3_nonzero [simp]: "(x :: u32) OR 3 \<noteq> 0"
proof
  assume "x OR 3 = 0"
  then have "\<not> bit (x OR 3) 0" by simp
  then show False by (simp add: bit_or_iff)
qed

lemma maps_self_nonzero: "maps_self p e \<Longrightarrow> e \<noteq> 0"
  by (auto simp: maps_self_def)

lemma maps_self_addr: "maps_self (unat va div 4096) (va OR 3)"
proof -
  have "drop_bit 12 (va OR 3) = drop_bit 12 va" by (simp add: drop_bit_or)
  then have "unat (drop_bit 12 (va OR 3)) = unat (drop_bit 12 va)" by simp
  then show ?thesis by (simp add: maps_self_def bit_or_iff unat_drop_bit_eq drop_bit_eq_div unat_div)
qed

text \<open>Entering the pages \<open>J\<close> of the \<open>i\<close>-th table, and the table in the directory.\<close>

definition fills :: "mem \<Rightarrow> u32 \<Rightarrow> u32 \<Rightarrow> nat \<Rightarrow> nat set \<Rightarrow> (nat \<Rightarrow> u32) \<Rightarrow> mem \<Rightarrow> bool" where
  "fills m pd t i J e m' \<longleftrightarrow> (\<forall>k\<in>J. maps_self (1024 * i + k) (e k)) \<and>
     (\<forall>b k. 4096 dvd unat b \<longrightarrow> k < 1024 \<longrightarrow> entry m' b k =
       (if b = t \<and> k \<in> J then e k else if b = pd \<and> k = i then t OR 3 else entry m b k))"

lemma fillsD:
  "fills m pd t i J e m' \<Longrightarrow> 4096 dvd unat b \<Longrightarrow> k < 1024 \<Longrightarrow> entry m' b k =
     (if b = t \<and> k \<in> J then e k else if b = pd \<and> k = i then t OR 3 else entry m b k)"
  "fills m pd t i J e m' \<Longrightarrow> k \<in> J \<Longrightarrow> maps_self (1024 * i + k) (e k)"
  by (simp_all add: fills_def)

lemma fills_entries:
  assumes ok: "tables_ok pd T m cur" and i: "i < 1024" "T ! i = t" "t \<noteq> 0"
    and m': "fills m pd t i J e m'"
  shows "k < 1024 \<Longrightarrow> entry m' pd k = (if k = i then t OR 3 else entry m pd k)"
    and "k < 1024 \<Longrightarrow> T ! k \<noteq> 0 \<Longrightarrow> j < 1024 \<Longrightarrow> entry m' (T ! k) j =
      (if k = i \<and> j \<in> J then e j else entry m (T ! k) j)"
proof -
  note D = tables_okD [OF ok]
  have pd: "4096 dvd unat pd" using D(2) [OF i(1)] .
  have tpd: "t \<noteq> pd" using D(6) [OF i(1)] i by simp
  show "entry m' pd k = (if k = i then t OR 3 else entry m pd k)" if "k < 1024"
    using fillsD(1) [OF m' pd that] tpd by simp
  show "entry m' (T ! k) j =
      (if k = i \<and> j \<in> J then e j else entry m (T ! k) j)"
    if k: "k < 1024" "T ! k \<noteq> 0" and j: "j < 1024"
  proof -
    have "T ! k = t \<longleftrightarrow> k = i" using D(7) [OF k(1) i(1)] k i by auto
    then show ?thesis
      using fillsD(1) [OF m' D(4) [OF k] j] D(6) [OF k] by simp
  qed
qed

lemma tables_ok_fill:
  assumes ok: "tables_ok pd T m cur" and i: "i < 1024" "T ! i = t" "t \<noteq> 0"
    and m': "fills m pd t i J e m'"
  shows "tables_ok pd T m' cur"
proof -
  note D = tables_okD [OF ok]
  note dir = fills_entries(1) [OF ok i m'] and tab = fills_entries(2) [OF ok i m']
  show ?thesis
    unfolding tables_ok_def
  proof (intro conjI allI impI)
    fix k :: nat assume k: "k < 1024"
    show "T ! k \<noteq> 0" "entry m' pd k = (T ! k OR 3)" if "entry m' pd k \<noteq> 0"
      using that D(8) [OF k] dir [OF k] i by (cases "k = i"; auto)+
    show "entry m' pd k \<noteq> 0" "maps_self (1024 * k + j) (entry m' (T ! k) j)"
      if "T ! k \<noteq> 0" "j < 1024" "entry m' (T ! k) j \<noteq> 0" for j
    proof -
      have "entry m' pd k \<noteq> 0 \<and> maps_self (1024 * k + j) (entry m' (T ! k) j)"
        using that(3) D(9) [OF k that(1,2)] tab [OF k that(1,2)] dir [OF k] fillsD(2) [OF m', of j]
        by (cases "k = i \<and> j \<in> J") auto
      then show "entry m' pd k \<noteq> 0" "maps_self (1024 * k + j) (entry m' (T ! k) j)" by auto
    qed
    show "k = j" if "j < 1024" "T ! k = T ! j" "T ! k \<noteq> 0" for j
      using D(7) [OF k that(1-3)] .
  qed (use D(1-6) i(1) in simp_all)
qed

lemma fills_mapped:
  assumes ok: "tables_ok pd T m cur" and i: "i < 1024" "T ! i = t" "t \<noteq> 0"
    and m': "fills m pd t i J e m'" and J: "J \<subseteq> {..<1024}" "J \<noteq> {}" and p: "p < 2 ^ 20"
  shows "entry m' pd (p div 1024) \<noteq> 0 \<and> entry m' (T ! (p div 1024)) (p mod 1024) \<noteq> 0 \<longleftrightarrow>
     (entry m pd (p div 1024) \<noteq> 0 \<and> entry m (T ! (p div 1024)) (p mod 1024) \<noteq> 0) \<or>
     p \<in> (\<lambda>k. 1024 * i + k) ` J"
proof -
  note D = tables_okD [OF ok]
  let ?k = "p div 1024" and ?j = "p mod 1024"
  have k: "?k < 1024" "?j < 1024" using p by auto
  have pJ: "p \<in> (\<lambda>k. 1024 * i + k) ` J \<longleftrightarrow> ?k = i \<and> ?j \<in> J"
  proof
    assume "?k = i \<and> ?j \<in> J"
    then show "p \<in> (\<lambda>k. 1024 * i + k) ` J" by (intro image_eqI [of _ _ ?j]) auto
  qed (use J(1) in auto)
  note dir = fills_entries(1) [OF ok i m' k(1)]
  have tab: "entry m' (T ! ?k) ?j =
      (if ?k = i \<and> ?j \<in> J then e ?j else entry m (T ! ?k) ?j)" if "T ! ?k \<noteq> 0"
    using fills_entries(2) [OF ok i m' k(1) that k(2)] .
  have reach: "entry m pd ?k \<noteq> 0" if "T ! ?k \<noteq> 0" "entry m (T ! ?k) ?j \<noteq> 0"
    using D(9) [OF k(1) that(1) k(2) that(2)] by blast
  have "entry m pd ?k \<noteq> 0 \<Longrightarrow> T ! ?k \<noteq> 0" using D(8) [OF k(1)] by blast
  then show ?thesis
    unfolding pJ using dir tab reach i fillsD(2) [OF m', THEN maps_self_nonzero]
    by (cases "?k = i"; cases "T ! ?k = 0"; cases "?j \<in> J") auto
qed

lemma pg_invD:
  "pg_inv s \<Longrightarrow> tables_ok (kernel_page_directory s) (allocated_page_tables s) (kmem s) (unat (heap_cur s))"
  by (simp add: pg_inv_def)

lemma pg_inv_fill:
  assumes inv: "pg_inv s" and i: "i < 1024" "allocated_page_tables s ! i = t" "t \<noteq> 0"
    and m': "fills (kmem s) (kernel_page_directory s) t i J e m'" and J: "J \<subseteq> {..<1024}" "J \<noteq> {}"
  shows "pg_inv (s\<lparr>kmem := m'\<rparr>)"
    and "mapped_pages (s\<lparr>kmem := m'\<rparr>) = mapped_pages s \<union> (\<lambda>k. 1024 * i + k) ` J"
proof -
  show "pg_inv (s\<lparr>kmem := m'\<rparr>)"
    using tables_ok_fill [OF pg_invD [OF inv] i m'] inv by (simp add: pg_inv_def)
  have "x < 2 ^ 20" if "x \<in> (\<lambda>k. 1024 * i + k) ` J" for x
    using that J(1) i(1) by fastforce
  then show "mapped_pages (s\<lparr>kmem := m'\<rparr>) = mapped_pages s \<union> (\<lambda>k. 1024 * i + k) ` J"
    using fills_mapped [OF pg_invD [OF inv] i m' J] unfolding mapped_pages_def by auto
qed

section \<open>The operations on the set of mapped pages\<close>

lemma pg_inv_heap: "pg_inv s \<Longrightarrow> unat (heap_cur s) \<le> 0x800000"
  using page_up_ge [of "unat (heap_cur s)"] by (simp add: pg_inv_def)

lemma unat_table_index: "unat ((a :: u32) div 0x400000) = unat a div 0x400000" "unat a div 0x400000 < 1024"
  using unat_less_32 [of a] by (auto simp: unat_div)

lemma get_page_table_ok:
  fixes s :: "'a paging_scheme"
  assumes inv: "pg_inv s" and i: "unat phys_addr div 0x400000 = i"
  obtains t s' where "get_page_table phys_addr s = Some (t, s')" "pg_inv s'"
    "allocated_page_tables s' ! i = t" "t \<noteq> 0" "mapped_pages s' = mapped_pages s" "only_tables s s'"
proof -
  let ?T = "allocated_page_tables s"
  have i1: "i < 1024" using i unat_table_index(2) by blast
  note ok = pg_invD [OF inv]
  have len: "length ?T = 1024" and pd: "unat (kernel_page_directory s) + 4096 \<le> unat (heap_cur s)"
    using tables_okD(1,3) [OF ok i1] .
  have index: "unat (phys_addr div 0x400000) = i" using i unat_table_index(1) by simp
  show thesis
  proof (cases "?T ! i = 0")
    case False
    then show thesis
      using that [of "?T ! i" s] inv index i1 len only_tables_refl [of s]
      by (simp add: get_page_table_def Let_def)
  next
    case zero: True
    then have "length (filter (\<lambda>t. t = 0) ?T) \<noteq> 0"
      using i1 len by (metis (mono_tags, lifting) length_0_conv filter_empty_conv nth_mem)
    then have "1 \<le> length (filter (\<lambda>t. t = 0) ?T)" by linarith
    then have "unat (heap_cur s) \<le> 0x800000"
      using inv page_up_ge [of "unat (heap_cur s)"] unfolding pg_inv_def by linarith
    then have "kheap_room 4096 4096 s" by (simp add: kheap_room_def)
    then obtain r t where r: "kmalloc_align 4096 4096 s = Some (r, t)"
        "unat (heap_cur s) \<le> unat r" "unat r < unat (heap_cur s) + unat (4096 :: u32)"
        "unat r mod unat (4096 :: u32) = 0" "unat (heap_cur t) = unat r + unat (4096 :: u32)"
        "\<forall>x. kmem t x = (if unat x \<in> region r (unat (4096 :: u32)) then 0 else kmem s x)"
        "t = s\<lparr>heap_cur := heap_cur t, kmem := kmem t\<rparr>"
      by (rule kmalloc_align_result)
    obtain c m where t: "t = s\<lparr>heap_cur := c, kmem := m\<rparr>" using r(7) by blast
    have r0: "r \<noteq> 0" using r(2) pd by auto
    let ?s = "t\<lparr>allocated_page_tables := ?T[i := r]\<rparr>"
    have ok': "tables_ok (kernel_page_directory s) (?T[i := r]) (kmem t) (unat (heap_cur t))"
      using r by (intro tables_ok_new [OF ok i1 zero, of r]) (auto simp: dvd_eq_mod_eq_0)
    have "unat r = page_up (unat (heap_cur s))" using r(2-4) by (intro page_up_unique) auto
    then have room: "page_up (unat (heap_cur t)) + 4096 * length (filter (\<lambda>t. t = 0) (?T[i := r])) \<le> 0x800000"
      using inv r(4,5) filter_update_less [of i ?T r] i1 len zero r0 page_up_next [of "unat r"]
      by (simp add: pg_inv_def)
    have m: "mapped_pages ?s = mapped_pages s"
    proof -
      have dir: "entry (kmem t) (kernel_page_directory s) k = entry (kmem s) (kernel_page_directory s) k"
        if "k < 1024" for k
        using entry_fill [of "kmem t" r "kmem s" "kernel_page_directory s" k] r(2,4,6) pd that
          tables_okD(2) [OF ok i1] by (auto simp: dvd_eq_mod_eq_0)
      have tab: "entry (kmem t) (?T[i := r] ! k) j = entry (kmem s) (?T ! k) j"
        if "k < 1024" "j < 1024" "entry (kmem s) (kernel_page_directory s) k \<noteq> 0" for k j
      proof -
        have k: "?T ! k \<noteq> 0" using tables_okD(8) [OF ok that(1,3)] by blast
        then have "?T[i := r] ! k = ?T ! k" using zero by (cases "i = k") auto
        then show ?thesis
          using entry_fill [of "kmem t" r "kmem s" "?T ! k" j] r(2,4,6)
            tables_okD(4,5) [OF ok that(1) k] that by (auto simp: dvd_eq_mod_eq_0)
      qed
      have "p div 1024 < 1024" "p mod 1024 < 1024" if "p < 2 ^ 20" for p :: nat using that by auto
      then show ?thesis
        using dir tab t unfolding mapped_pages_def by (intro Collect_cong) auto
    qed
    show thesis
    proof (rule that [of r ?s])
      show "get_page_table phys_addr s = Some (r, ?s)"
        using index i1 len zero r(1) t by (simp add: get_page_table_def Let_def)
      show "pg_inv ?s"
        using ok' room t by (simp add: pg_inv_def)
      have "page_up (unat (heap_cur t)) \<le> 0x800000" using room by linarith
      then have "unat r + 4096 \<le> 0x800000" using r(5) page_up_ge [of "unat (heap_cur t)"] by simp
      then have "same_high (kmem s) (kmem t)" using r(6) by (auto simp: same_high_def region_def)
      then show "only_tables s ?s" unfolding only_tables_def t by auto
    qed (use i1 len r0 m in simp_all)
  qed
qed

lemma mod_div_page: "(x mod 4194304) div 4096 = x div 4096 mod (1024 :: nat)"
  using mod_mult2_eq [of x 4096 1024] by simp

lemma addr_parts:
  "unat (drop_bit 22 (va :: u32)) = unat va div 4096 div 1024"
  "unat ((va mod 0x400000) div 0x1000) = unat va div 4096 mod 1024"
  "unat va div 0x400000 = unat va div 4096 div 1024"
  "unat va div 4096 div 1024 < 1024"
  using unat_less_32 [of va] mod_div_page [of "unat va"]
  by (simp_all add: unat_drop_bit_eq drop_bit_eq_div unat_div unat_mod div_mult2_eq [symmetric])

lemma fills_one:
  assumes "4096 dvd unat t" "4096 dvd unat pd" "t \<noteq> pd" "i < 1024" "j < 1024" "maps_self (1024 * i + j) v"
  shows "fills m pd t i {j} (\<lambda>_. v)
     (store32 (store32 m (t + 4 * of_nat j) v) (pd + 4 * of_nat i) (t OR 3))"
  using assms by (simp add: fills_def entry_store)

lemma paging_map_page_ok:
  assumes inv: "pg_inv s"
  obtains s' where "paging_map_page va va (kernel_page_directory s) s = Some s'" "pg_inv s'"
    "mapped_pages s' = insert (unat va div 4096) (mapped_pages s)" "only_tables s s'"
proof -
  let ?p = "unat va div 4096" and ?pd = "kernel_page_directory s"
  let ?i = "?p div 1024" and ?j = "?p mod 1024"
  obtain t s1 where t: "get_page_table va s = Some (t, s1)" "pg_inv s1"
      "allocated_page_tables s1 ! ?i = t" "t \<noteq> 0" "mapped_pages s1 = mapped_pages s" "only_tables s s1"
    by (rule get_page_table_ok [OF inv addr_parts(3) [of va]])
  note D = tables_okD [OF pg_invD [OF t(2)] addr_parts(4) [of va]]
  have pd: "kernel_page_directory s1 = ?pd" using only_tables_frame(1) [OF t(6)] .
  have idx: "(va mod 0x400000) div 0x1000 = of_nat ?j" "drop_bit 22 va = of_nat ?i"
    using addr_parts(1,2) [of va] by (metis word_of_unat)+
  have pte: "maps_self (1024 * ?i + ?j) (va OR 3)" using maps_self_addr [of va] by simp
  show thesis
  proof (cases "entry (kmem s1) t ?j = (va OR 3)")
    case True
    have "entry (kmem s1) ?pd ?i \<noteq> 0"
      using D(9) [of ?j] t(3,4) True pd by simp
    then have "?p \<in> mapped_pages s1"
      using True t(3) pd unat_less_32 [of va] by (auto simp: mapped_pages_def)
    then show thesis
      using that [of s1] t True idx pte unfolding entry_def paging_map_page_def by auto
  next
    case False
    define m' where "m' = store32 (store32 (kmem s1) (t + 4 * of_nat ?j) (va OR 3))
       (?pd + 4 * of_nat ?i) (t OR 3)"
    have fills: "fills (kmem s1) (kernel_page_directory s1) t ?i {?j} (\<lambda>_. va OR 3) m'"
      unfolding m'_def pd using D(2,4,6) t(3,4) pd addr_parts(4) pte by (intro fills_one) auto
    have "paging_map_page va va ?pd s = Some (s1\<lparr>kmem := m'\<rparr>)"
      using t(1) False idx pte
      by (simp add: paging_map_page_def entry_def virtual_addr_to_pde_def Let_def m'_def)
    moreover have "pg_inv (s1\<lparr>kmem := m'\<rparr>)"
      "mapped_pages (s1\<lparr>kmem := m'\<rparr>) = insert ?p (mapped_pages s)"
      using pg_inv_fill [OF t(2) addr_parts(4) t(3,4) fills] t(5) by auto
    moreover have "same_high (kmem s1) m'"
      unfolding m'_def using D(2-5) t(3,4) pd addr_parts(4) pg_inv_heap [OF t(2)]
      by (intro same_high_store) auto
    then have "only_tables s (s1\<lparr>kmem := m'\<rparr>)" by (rule only_tables_kmem [OF t(6)])
    ultimately show thesis by (rule that)
  qed
qed

lemma fold_store_entries:
  assumes "4096 dvd unat t" "4096 dvd unat b" "k < 1024" "n \<le> 1024"
  shows "entry (fold (\<lambda>i m. store32 m (t + 4 * of_nat i) (f i)) [0..<n] m) b k =
     (if b = t \<and> k < n then f k else entry m b k)"
  using assms(4)
proof (induction n)
  case (Suc n)
  then show ?case
    using entry_store [OF assms(1,2) _ assms(3), of n] by (auto simp: less_Suc_eq)
qed simp

lemma paging_map_table_ok:
  assumes inv: "pg_inv s" and va: "0x400000 dvd unat va"
  obtains s' where "paging_map_table va va (kernel_page_directory s) s = Some s'" "pg_inv s'"
    "mapped_pages s' = mapped_pages s \<union> {unat va div 4096..<unat va div 4096 + 1024}"
    "only_tables s s'"
proof -
  let ?p = "unat va div 4096" and ?pd = "kernel_page_directory s"
  let ?i = "?p div 1024"
  obtain q where q: "unat va = 0x400000 * q" using va by blast
  then have p: "?p = 1024 * q" "?i = q" by auto
  obtain t s1 where t: "get_page_table va s = Some (t, s1)" "pg_inv s1"
      "allocated_page_tables s1 ! ?i = t" "t \<noteq> 0" "mapped_pages s1 = mapped_pages s" "only_tables s s1"
    by (rule get_page_table_ok [OF inv addr_parts(3) [of va]])
  note D = tables_okD [OF pg_invD [OF t(2)] addr_parts(4) [of va]]
  have pd: "kernel_page_directory s1 = ?pd" using only_tables_frame(1) [OF t(6)] .
  have idx: "drop_bit 22 va = of_nat ?i"
    using addr_parts(1) [of va] by (metis word_of_unat)
  have pte: "maps_self (1024 * ?i + k) ((va + of_nat k * 0x1000) OR 3)" if "k < 1024" for k
  proof -
    have "q < 1024" using q unat_less_32 [of va] by simp
    then have "unat va + k * 4096 < 2 ^ 32" using q that by simp
    moreover have "unat (of_nat k * 0x1000 :: u32) = k * 4096" using that unat_of_nat_small [of "k * 4096", where ?'a = 32] by simp
    ultimately have "unat (va + of_nat k * 0x1000) div 4096 = 1024 * ?i + k" using q p by (simp add: unat_add_less)
    then show ?thesis using maps_self_addr [of "va + of_nat k * 0x1000"] by simp
  qed
  define m' where "m' = store32 (fold (\<lambda>k m. store32 m (t + 4 * of_nat k) ((va + of_nat k * 0x1000) OR 3))
     [0..<1024] (kmem s1)) (?pd + 4 * of_nat ?i) (t OR 3)"
  have al: "4096 dvd unat t" "4096 dvd unat ?pd" "t \<noteq> ?pd" "?i < 1024"
    using D(2,4,6) t(3,4) pd addr_parts(4) by auto
  have fills: "fills (kmem s1) (kernel_page_directory s1) t ?i {..<1024} (\<lambda>k. (va + of_nat k * 0x1000) OR 3) m'"
    unfolding m'_def pd fills_def using al pte by (simp add: entry_store fold_store_entries)
  have "paging_map_table va va ?pd s = Some (s1\<lparr>kmem := m'\<rparr>)"
    using t(1) idx by (simp add: paging_map_table_def virtual_addr_to_pde_def Let_def m'_def)
  moreover have "(\<lambda>k. 1024 * ?i + k) ` {..<1024} = {?p..<?p + 1024}"
    using image_add_atLeastLessThan [of ?p 0 1024] p by (simp add: lessThan_atLeast0 add.commute)
  then have "pg_inv (s1\<lparr>kmem := m'\<rparr>)"
    "mapped_pages (s1\<lparr>kmem := m'\<rparr>) = mapped_pages s \<union> {?p..<?p + 1024}"
    using pg_inv_fill [OF t(2) al(4) t(3,4) fills] t(5) by (simp_all add: lessThan_empty_iff)
  moreover have "same_high (kmem s1) m'"
    unfolding m'_def using D(3,5) t(3,4) pd al pg_inv_heap [OF t(2)]
    by (intro same_high_store same_high_fold) auto
  then have "only_tables s (s1\<lparr>kmem := m'\<rparr>)" by (rule only_tables_kmem [OF t(6)])
  ultimately show thesis by (rule that)
qed

section \<open>The walk sees the set of mapped pages\<close>

lemma page_base_unat: "unat (page_base e) = unat e div 4096 * 4096"
proof -
  have "unat (page_base e) = unat (drop_bit 12 e) * 4096 mod 2 ^ 32"
    by (simp add: page_base_def push_bit_eq_mult unat_word_ariths)
  moreover have "unat (drop_bit 12 e) = unat e div 4096"
    by (simp add: unat_drop_bit_eq drop_bit_eq_div unat_div)
  moreover have "unat e div 4096 * 4096 < 2 ^ 32"
    using unat_less_32 [of e] by simp
  ultimately show ?thesis by simp
qed

lemma page_base_aligned: "4096 dvd unat a \<Longrightarrow> page_base a = a"
  by (metis dvd_div_mult_self page_base_unat unat_eq_iff)

lemma page_base_flags:
  assumes "4096 dvd unat a"
  shows "page_base (a OR 3) = a"
proof -
  have "drop_bit 12 (a OR 3) = drop_bit 12 a" by (simp add: drop_bit_or)
  then show ?thesis using page_base_aligned [OF assms] by (simp add: page_base_def)
qed

lemma bit_0_flags: "bit ((a :: u32) OR 3) 0"
  by (simp add: bit_or_iff)

lemma page_base_offset: "page_base va + va mod 0x1000 = va"
proof -
  have "unat (page_base va) + unat (va mod 0x1000) = unat va"
    by (simp add: page_base_unat unat_mod)
  then have "of_nat (unat (page_base va) + unat (va mod 0x1000)) = va" by (metis word_of_unat)
  then show ?thesis by simp
qed

lemma maps_self_page: "maps_self (unat va div 4096) e \<Longrightarrow> page_base e = page_base va"
  by (simp add: maps_self_def page_base_unat word_unat_eq_iff)

lemma walk_mapped:
  assumes inv: "pg_inv s"
  shows "walk (kmem s) (kernel_page_directory s) va =
     (if unat va div 4096 \<in> mapped_pages s then Some va else None)"
proof -
  let ?p = "unat va div 4096" and ?m = "kmem s" and ?pd = "kernel_page_directory s"
  let ?i = "?p div 1024" and ?j = "?p mod 1024"
  let ?t = "allocated_page_tables s ! ?i"
  note D = tables_okD [OF pg_invD [OF inv] addr_parts(4) [of va]]
  have mapped: "?p \<in> mapped_pages s \<longleftrightarrow> entry ?m ?pd ?i \<noteq> 0 \<and> entry ?m ?t ?j \<noteq> 0"
    using unat_less_32 [of va] by (auto simp: mapped_pages_def)
  have pde: "load32 ?m (page_base ?pd + 4 * drop_bit 22 va) = entry ?m ?pd ?i"
    using D(2) by (simp add: entry_unat page_base_aligned addr_parts(1))
  show ?thesis
  proof (cases "entry ?m ?pd ?i = 0")
    case True
    then show ?thesis using mapped pde by (simp add: walk_def Let_def)
  next
    case False
    then have t: "?t \<noteq> 0" "entry ?m ?pd ?i = (?t OR 3)" using D(8) by auto
    have "page_base (?t OR 3) = ?t" using D(4) t(1) by (simp add: page_base_flags)
    then have pte: "load32 ?m (page_base (?t OR 3) + 4 * ((va mod 0x400000) div 0x1000)) = entry ?m ?t ?j"
      by (simp add: entry_unat addr_parts(2))
    show ?thesis
    proof (cases "entry ?m ?t ?j = 0")
      case True
      then show ?thesis using mapped pde t pte bit_0_flags [of ?t] by (simp add: walk_def Let_def)
    next
      case False
      then have e: "maps_self ?p (entry ?m ?t ?j)" using D(9) [of ?j] t(1) by simp
      then have "bit (entry ?m ?t ?j) 0" by (simp add: maps_self_def)
      then show ?thesis
        using False mapped pde t pte bit_0_flags [of ?t] maps_self_page [OF e] page_base_offset [of va]
        by (simp add: walk_def Let_def)
    qed
  qed
qed

text \<open>A store above the kernel's 8 MiB does not touch the tables.\<close>

text \<open>Stores from 8 MiB on do not touch the tables.\<close>

definition same_low :: "mem \<Rightarrow> mem \<Rightarrow> bool" where
  "same_low m m' \<longleftrightarrow> (\<forall>x. unat x < 0x800000 \<longrightarrow> m' x = m x)"

lemma entry_same_low:
  assumes "4096 dvd unat a" "unat a + 4096 \<le> 0x800000" "j < 1024" "same_low m m'"
  shows "entry m' a j = entry m a j"
proof -
  have "m' (a + 4 * of_nat j + of_nat k) = m (a + 4 * of_nat j + of_nat k)" if "k < 4" for k
  proof -
    have "unat (a + 4 * of_nat j + of_nat k) = unat a + 4 * j + k"
      using aligned_offset [OF table_entry_addr(2) [OF assms(1,3)] that] table_entry_addr(1) [OF assms(1,3)] by simp
    then show ?thesis using assms that by (auto simp: same_low_def)
  qed
  from this [of 0] this [of 1] this [of 2] this [of 3] show ?thesis by (simp add: entry_def load32_def)
qed

lemma pg_inv_same_low:
  assumes inv: "pg_inv s" and m: "same_low (kmem s) m"
  shows "pg_inv (s\<lparr>kmem := m\<rparr>)" and "mapped_pages (s\<lparr>kmem := m\<rparr>) = mapped_pages s"
proof -
  let ?pd = "kernel_page_directory s" and ?T = "allocated_page_tables s"
  note ok = pg_invD [OF inv] and cur = pg_inv_heap [OF inv]
  have dir: "entry m ?pd k = entry (kmem s) ?pd k" if "k < 1024" for k
    using tables_okD(2,3) [OF ok that] cur that m by (intro entry_same_low) auto
  have tab: "entry m (?T ! k) j = entry (kmem s) (?T ! k) j" if "k < 1024" "j < 1024" "?T ! k \<noteq> 0" for k j
    using tables_okD(4,5) [OF ok that(1,3)] cur that m by (intro entry_same_low) auto
  have "tables_ok ?pd ?T m (unat (heap_cur s))"
    using ok dir tab unfolding tables_ok_def by simp
  then show "pg_inv (s\<lparr>kmem := m\<rparr>)" using inv by (simp add: pg_inv_def)
  have "entry m (?T ! (p div 1024)) (p mod 1024) = entry (kmem s) (?T ! (p div 1024)) (p mod 1024)"
    if "p < 2 ^ 20" "entry (kmem s) ?pd (p div 1024) \<noteq> 0" for p
  proof -
    have k: "p div 1024 < 1024" "p mod 1024 < 1024" using that(1) by auto
    then have "?T ! (p div 1024) \<noteq> 0" using tables_okD(8) [OF ok k(1) that(2)] by simp
    then show ?thesis using tab k by blast
  qed
  moreover have "p div 1024 < 1024" if "p < 2 ^ 20" for p :: nat using that by auto
  ultimately show "mapped_pages (s\<lparr>kmem := m\<rparr>) = mapped_pages s"
    using dir unfolding mapped_pages_def by (intro Collect_cong) auto
qed

lemma pg_inv_store_high:
  assumes inv: "pg_inv s" and x: "0x800000 \<le> unat x"
  shows "pg_inv (s\<lparr>kmem := (kmem s)(x := b)\<rparr>)"
    and "mapped_pages (s\<lparr>kmem := (kmem s)(x := b)\<rparr>) = mapped_pages s"
proof -
  have "same_low (kmem s) ((kmem s)(x := b))" using x by (auto simp: same_low_def)
  then show "pg_inv (s\<lparr>kmem := (kmem s)(x := b)\<rparr>)"
    "mapped_pages (s\<lparr>kmem := (kmem s)(x := b)\<rparr>) = mapped_pages s"
    using pg_inv_same_low [OF inv] by blast+
qed

section \<open>The interface of the page mapper\<close>

text \<open>
  What a client relies on when it maps single pages: the call returns, adds the page to the set of
  mapped pages, and leaves the rest of the state alone (\<open>frame\<close>).
\<close>

locale page_mapper =
  fixes map1 :: "u32 \<Rightarrow> 's \<Rightarrow> 's option"
    and inv :: "'s \<Rightarrow> bool"
    and mapped :: "'s \<Rightarrow> nat set"
    and frame :: "'s \<Rightarrow> 's \<Rightarrow> bool"
  assumes map1_ok: "inv s \<Longrightarrow>
      \<exists>s'. map1 a s = Some s' \<and> inv s' \<and> mapped s' = insert (unat a div 4096) (mapped s) \<and> frame s s'"
    and frame_refl: "frame s s"
    and frame_trans: "frame s t \<Longrightarrow> frame t u \<Longrightarrow> frame s u"
begin

text \<open>Mapping a run of pages one by one.\<close>

lemma map_run:
  assumes inv: "inv s" and a: "unat a div 4096 + n \<le> 2 ^ 20"
  shows "\<exists>s'. forM [0..<n] (\<lambda>i. map1 (a + of_nat i * 4096)) s = Some s' \<and> inv s' \<and>
     mapped s' = mapped s \<union> {unat a div 4096..<unat a div 4096 + n} \<and> frame s s'"
proof -
  let ?I = "\<lambda>k t. inv t \<and> mapped t = mapped s \<union> {unat a div 4096..<unat a div 4096 + k} \<and> frame s t"
  have "\<exists>s'. forM [0..<n] (\<lambda>i. map1 (a + of_nat i * 4096)) s = Some s' \<and> ?I n s'"
  proof (rule forM_invariant [where I = ?I])
    show "?I 0 s" using inv frame_refl by simp
    fix k t assume k: "k < n" and t: "?I k t"
    have "unat a = 4096 * (unat a div 4096) + unat a mod 4096" "unat a mod 4096 < 4096" by simp_all
    then have lt: "unat a + 4096 * k < 2 ^ 32" using k a by simp
    have "unat (of_nat k * 4096 :: u32) = k * 4096"
      using k a unat_of_nat_small [of "k * 4096", where ?'a = 32] by simp
    then have u: "unat (a + of_nat k * 4096) = unat a + 4096 * k"
      using lt by (simp add: unat_add_less)
    obtain t' where t': "map1 (a + of_nat k * 4096) t = Some t'" "inv t'"
        "mapped t' = insert (unat (a + of_nat k * 4096) div 4096) (mapped t)" "frame t t'"
      using map1_ok t by blast
    have "unat (a + of_nat k * 4096) div 4096 = unat a div 4096 + k" using u by simp
    then have "mapped t' = mapped s \<union> {unat a div 4096..<unat a div 4096 + Suc k}"
      using t t'(3) by auto
    then show "\<exists>t'. map1 (a + of_nat k * 4096) t = Some t' \<and> ?I (Suc k) t'"
      using t t'(1,2) frame_trans [OF _ t'(4)] by blast
  qed simp
  then show ?thesis by blast
qed

end

interpretation pg: page_mapper "\<lambda>a s. paging_map_page a a (kernel_page_directory s) s"
  pg_inv mapped_pages only_tables
proof unfold_locales
  fix s :: "'a paging_scheme" and a :: u32
  assume "pg_inv s"
  then show "\<exists>s'. paging_map_page a a (kernel_page_directory s) s = Some s' \<and> pg_inv s' \<and>
      mapped_pages s' = insert (unat a div 4096) (mapped_pages s) \<and> only_tables s s'"
    by (rule paging_map_page_ok) blast
next
  fix s :: "'a paging_scheme"
  show "only_tables s s" by (rule only_tables_refl)
next
  fix s t u :: "'a paging_scheme"
  assume "only_tables s t" and "only_tables t u"
  then show "only_tables s u" by (rule only_tables_trans)
qed

section \<open>Properties\<close>

definition paging_on :: "'a paging_scheme \<Rightarrow> bool" where
  "paging_on s \<longleftrightarrow> bit (cr0 s) 31 \<and> cr3 s = kernel_page_directory s"

lemma translate_mapped:
  "pg_inv s \<Longrightarrow> paging_on s \<Longrightarrow>
   translate s va = (if unat va div 4096 \<in> mapped_pages s then Some va else None)"
  by (simp add: translate_def paging_on_def walk_mapped)

lemma only_tables_paging_on: "only_tables s s' \<Longrightarrow> paging_on s' \<longleftrightarrow> paging_on s"
  by (simp add: paging_on_def only_tables_frame)

text \<open>A kernel image that ends at \<open>0x300000\<close> with an empty directory at \<open>0x2ff000\<close>, for the witnesses.\<close>

definition sample_paging :: "unit paging_scheme" where
  "sample_paging = \<lparr>kinfo_of = \<lparr>kernel_start_phys = 0x200000, kernel_start_virtual = 0x200000,
       kernel_end_phys = 0x300000, kernel_end_virtual = 0x300000, is_paging_enabled = 0\<rparr>,
     phys_mem_upper = 8320, heap_cur = 0x300000, kmem = \<lambda>_. 0, is_initialized = True,
     pageframe_bitmap = Ptr (replicate 256 0xff @ [0x11, 0, 0, 0]), pages_total_phys = 2080,
     kernel_page_directory = 0x2ff000, allocated_page_tables = replicate 1024 0,
     cr0 = 0x80000011, cr3 = 0x2ff000\<rparr>"

lemma load32_zero [simp]: "load32 (\<lambda>_. 0) a = 0"
  by (simp add: load32_def)

lemma sample_paging_inv [simp]: "pg_inv sample_paging"
  by (simp add: pg_inv_def tables_ok_def sample_paging_def entry_def page_up_def)

lemma sample_paging_on [simp]: "paging_on sample_paging"
  by (simp add: paging_on_def sample_paging_def bit_numeral_rec)

text \<open>
  C19. Mapping a page to itself, with paging on: afterwards the processor translates every address
  of that page to itself, and every other address exactly as before; the invariant of the tables is
  kept and the state of the other components is unchanged.
\<close>

theorem paging_map_page_identity:
  assumes "pg_inv s" and "paging_on s"
  shows "\<exists>s'. paging_map_page addr addr (get_kernel_pd s) s = Some s' \<and> pg_inv s' \<and> only_tables s s' \<and>
     (\<forall>va. translate s' va =
        (if unat va div 4096 = unat addr div 4096 then Some va else translate s va))"
proof -
  obtain s' where s': "paging_map_page addr addr (kernel_page_directory s) s = Some s'" "pg_inv s'"
      "mapped_pages s' = insert (unat addr div 4096) (mapped_pages s)" "only_tables s s'"
    by (rule paging_map_page_ok [OF assms(1)])
  have "paging_on s'" using only_tables_paging_on [OF s'(4)] assms(2) by simp
  then show ?thesis
    using s' translate_mapped [OF assms(1,2)] translate_mapped [OF s'(2)]
    by (auto simp: get_kernel_pd_def)
qed

theorem paging_map_page_identity_witness:
  "\<exists>s'. paging_map_page 0x900000 0x900000 (get_kernel_pd sample_paging) sample_paging = Some s' \<and>
     translate s' 0x900123 = Some 0x900123"
  using paging_map_page_identity [of sample_paging "0x900000"] by fastforce

text \<open>A table takes at most one page of the bump allocator.\<close>

lemma paging_map_table_grows:
  assumes inv: "pg_inv s" and r: "paging_map_table va pa pd s = Some s'"
  shows "page_up (unat (heap_cur s')) \<le> page_up (unat (heap_cur s)) + 4096"
proof -
  obtain t s1 where t: "get_page_table pa s = Some (t, s1)" "heap_cur s' = heap_cur s1"
    using r by (auto simp: paging_map_table_def bind_eq_Some_conv)
  have "kheap_room 4096 4096 s" using pg_inv_heap [OF inv] by (simp add: kheap_room_def)
  then obtain q s2 where q: "kmalloc_align 4096 4096 s = Some (q, s2)" "unat (heap_cur s) \<le> unat q" "unat q < unat (heap_cur s) + 4096"
      "unat q mod 4096 = 0" "unat (heap_cur s2) = unat q + 4096"
    by (rule kmalloc_align_result) auto
  have "unat q = page_up (unat (heap_cur s))" by (rule page_up_unique [OF q(2,3,4)])
  then have "page_up (unat (heap_cur s2)) = page_up (unat (heap_cur s)) + 4096" using page_up_next [OF q(4)] q(5) by simp
  moreover have "heap_cur s1 = heap_cur s \<or> heap_cur s1 = heap_cur s2"
    using t(1) q(1) by (auto simp: get_page_table_def bind_eq_Some_conv Let_def split: if_splits)
  ultimately show ?thesis using t(2) by auto
qed

lemma paging_init_ok:
  assumes inv0: "pg_inv s"
  obtains s' where "paging_init s = Some s'" "pg_inv s'" "paging_on s'" "is_paging_enabled (kinfo_of s') = 1"
    "mapped_pages s' = mapped_pages s \<union> {..<2048}" "page_up (unat (heap_cur s')) \<le> page_up (unat (heap_cur s)) + 2 * 4096"
    "\<exists>c m ts c3 c0 k. s' = s\<lparr>heap_cur := c, kmem := m, allocated_page_tables := ts, cr3 := c3, cr0 := c0, kinfo_of := k\<rparr>"
proof -
  let ?pd = "kernel_page_directory s"
  obtain s1 where s1: "paging_map_table 0 0 ?pd s = Some s1" "pg_inv s1"
      "mapped_pages s1 = mapped_pages s \<union> {unat (0 :: u32) div 4096..<unat (0 :: u32) div 4096 + 1024}"
      "only_tables s s1"
    by (rule paging_map_table_ok [OF inv0, of 0]) auto
  have pd1: "kernel_page_directory s1 = ?pd" by (rule only_tables_frame(1) [OF s1(4)])
  obtain s2 where s2: "paging_map_table 0x400000 0x400000 (kernel_page_directory s1) s1 = Some s2" "pg_inv s2"
      "mapped_pages s2 = mapped_pages s1 \<union>
         {unat (0x400000 :: u32) div 4096..<unat (0x400000 :: u32) div 4096 + 1024}"
      "only_tables s1 s2"
    by (rule paging_map_table_ok [OF s1(2), of "0x400000"]) auto
  have pd2: "kernel_page_directory s2 = ?pd" using only_tables_frame(1) [OF s2(4)] pd1 by simp
  define s3 where "s3 = s2\<lparr>cr3 := ?pd, cr0 := cr0 s2 OR 0x80000000,
     kinfo_of := (kinfo_of s2)\<lparr>is_paging_enabled := 1\<rparr>\<rparr>"
  have init: "paging_init s = Some s3"
  proof -
    have "[0..<2] = [0, 1]" by (simp add: upt_rec)
    then show ?thesis
      using s1(1) s2(1) pd1 pd2
      by (simp add: paging_init_def load_page_directory_def enable_paging_def Let_def s3_def)
  qed
  have m: "mapped_pages s3 = mapped_pages s \<union> {..<2048}"
  proof -
    have "mapped_pages s3 = mapped_pages s2" by (simp add: mapped_pages_def s3_def)
    also have "\<dots> = mapped_pages s \<union> ({0..<1024} \<union> {1024..<2048})"
      unfolding s2(3) s1(3) by (simp add: Un_assoc)
    also have "{0..<1024} \<union> {1024..<2048} = {..<2048 :: nat}" by auto
    finally show ?thesis .
  qed
  have "bit (0x80000000 :: u32) 31" by (simp add: bit_numeral_rec)
  then have on: "paging_on s3" using pd2 by (simp add: paging_on_def s3_def bit_or_iff)
  have inv: "pg_inv s3" using s2(2) by (simp add: pg_inv_def s3_def)
  have "page_up (unat (heap_cur s3)) \<le> page_up (unat (heap_cur s)) + 2 * 4096"
    using paging_map_table_grows [OF inv0 s1(1)] paging_map_table_grows [OF s1(2) s2(1)] by (simp add: s3_def)
  moreover have "\<exists>c m ts c3 c0 k. s3 = s\<lparr>heap_cur := c, kmem := m, allocated_page_tables := ts, cr3 := c3, cr0 := c0, kinfo_of := k\<rparr>"
    using only_tables_trans [OF s1(4) s2(4)] unfolding s3_def only_tables_def by (elim exE conjE) (simp, intro exI, rule refl)
  moreover have "is_paging_enabled (kinfo_of s3) = 1" by (simp add: s3_def)
  ultimately show thesis using that init inv on m by blast
qed

text \<open>
  C22. \<open>paging_init\<close> turns paging on with the first 8 MiB mapped to themselves, in addition to what
  the tables already mapped; every other address faults. So nothing is mapped at 3 GiB unless it was before, where the comments of
  the source speak of the two tables as mapped to 3 GiB and of the kernel as already in the higher half.
\<close>

theorem paging_init_identity:
  assumes "pg_inv s"
  shows "\<exists>s'. paging_init s = Some s' \<and> pg_inv s' \<and> paging_on s' \<and> is_paging_enabled (kinfo_of s') = 1 \<and>
     (\<forall>va. translate s' va =
        (if unat va < 0x800000 \<or> unat va div 4096 \<in> mapped_pages s then Some va else None))"
proof -
  obtain s' where s': "paging_init s = Some s'" "pg_inv s'" "paging_on s'" "is_paging_enabled (kinfo_of s') = 1" "mapped_pages s' = mapped_pages s \<union> {..<2048}"
    by (rule paging_init_ok [OF assms])
  have "unat va div 4096 < 2048 \<longleftrightarrow> unat va < 0x800000" for va :: u32 by auto
  then have "translate s' va = (if unat va < 0x800000 \<or> unat va div 4096 \<in> mapped_pages s then Some va else None)" for va
    using translate_mapped [OF s'(2,3), of va] s'(5) by auto
  then show ?thesis using s'(1-4) by blast
qed

theorem paging_init_identity_witness:
  "\<exists>s'. paging_init sample_paging = Some s' \<and> translate s' 0x7ff123 = Some 0x7ff123"
  using paging_init_identity [of sample_paging] by fastforce

end
