(* ===== verification/Hooks.thy ===== *)
theory Hooks
  imports Paging Locks
begin

text \<open>
  \<^verbatim>\<open>kernel/mmu/liballoc_hooks.c\<close>: what the memory allocator calls for pages and for its lock. Pages
  come from the page frame allocator and are mapped to themselves before they are handed out.

  The theorems rest on the interfaces of the two components: an allocation that succeeds returns
  frames that were free, all of them mapped, and keeps every earlier mapping; freeing gives the
  frames back.
\<close>

section \<open>State and operations\<close>

record hooks = paging +
  mmulock :: spinlock
  eflags :: u32

definition liballoc_lock :: "'a hooks_scheme \<Rightarrow> 'a hooks_scheme option" where
  "liballoc_lock s =
     do { (p, e) \<leftarrow> spinlock_lock (mmulock s) (eflags s); Some (s\<lparr>mmulock := p, eflags := e\<rparr>) }"

definition liballoc_unlock :: "'a hooks_scheme \<Rightarrow> 'a hooks_scheme" where
  "liballoc_unlock s =
     (let (p, e) = spinlock_unlock (mmulock s) (eflags s) in s\<lparr>mmulock := p, eflags := e\<rparr>)"

definition pageframe_alloc_liballoc :: "u32 \<Rightarrow> 'a hooks_scheme \<Rightarrow> (u32 \<times> 'a hooks_scheme) option" where
  "pageframe_alloc_liballoc pages s =
     do { (ret, s) \<leftarrow> pageframe_alloc pages s;
          if ret \<noteq> 0
          then do { s \<leftarrow> forM [0..<unat pages] (\<lambda>i s. paging_map_page (ret + 0x0 + of_nat i * 4096)
                             (ret + of_nat i * 4096) (kernel_page_directory s) s) s;
                    Some (ret + 0x0, s) }
          else Some (ret, s) }"

definition pageframe_free_liballoc :: "u32 \<Rightarrow> u32 \<Rightarrow> 'a hooks_scheme \<Rightarrow> 'a hooks_scheme option" where
  "pageframe_free_liballoc virt_addr pages s =
     (let virt_addr = (if virt_addr \<noteq> 0 then virt_addr - 0x0 else virt_addr)
      in pageframe_free virt_addr pages s)"

definition liballoc_alloc :: "u32 \<Rightarrow> 'a hooks_scheme \<Rightarrow> (u32 \<times> 'a hooks_scheme) option" where
  "liballoc_alloc pages s = pageframe_alloc_liballoc pages s"

definition liballoc_free :: "u32 \<Rightarrow> u32 \<Rightarrow> 'a hooks_scheme \<Rightarrow> 'a hooks_scheme option" where
  "liballoc_free p pages s = pageframe_free_liballoc p pages s"

section \<open>Lemmas\<close>

text \<open>The page frame allocator does not touch the page tables.\<close>

lemma pg_inv_bitmap [simp]: "pg_inv (s\<lparr>pageframe_bitmap := b\<rparr>) = pg_inv s"
  by (simp add: pg_inv_def)

lemma mapped_pages_bitmap [simp]: "mapped_pages (s\<lparr>pageframe_bitmap := b\<rparr>) = mapped_pages s"
  by (simp add: mapped_pages_def)

lemma paging_on_bitmap [simp]: "paging_on (s\<lparr>pageframe_bitmap := b\<rparr>) = paging_on s"
  by (simp add: paging_on_def)

text \<open>The invariant the hooks keep, and what a successful allocation gives.\<close>

definition hooks_inv :: "'a hooks_scheme \<Rightarrow> bool" where
  "hooks_inv s \<longleftrightarrow> frame_inv s \<and> pg_inv s"

text \<open>The part of the state the hooks may change.\<close>

definition only_pages :: "'a hooks_scheme \<Rightarrow> 'a hooks_scheme \<Rightarrow> bool" where
  "only_pages s s' \<longleftrightarrow> (\<exists>b. only_tables (s\<lparr>pageframe_bitmap := b\<rparr>) s')"

text \<open>
  What callers of an allocation rely on besides the objects: frames that were reserved stay reserved, pages that were mapped stay
  mapped, and the processor goes on using the tables.
\<close>

definition grows :: "'a hooks_scheme \<Rightarrow> 'a hooks_scheme \<Rightarrow> bool" where
  "grows s s' \<longleftrightarrow> allocated s \<subseteq> allocated s' \<and> mapped_pages s \<subseteq> mapped_pages s' \<and> (paging_on s \<longrightarrow> paging_on s')"

lemma grows_refl [simp]: "grows s s"
  by (simp add: grows_def)

lemma grows_trans: "grows s t \<Longrightarrow> grows t u \<Longrightarrow> grows s u"
  by (auto simp: grows_def)

lemma grows_translate:
  assumes "grows s s'" "pg_inv s" "pg_inv s'" "paging_on s" "translate s va \<noteq> None"
  shows "translate s' va = Some va"
  using assms by (auto simp: grows_def translate_mapped split: if_splits)

lemma grows_store:
  assumes "hooks_inv s" "same_low (kmem s) m"
  shows "grows s (s\<lparr>kmem := m\<rparr>)"
  using pg_inv_same_low(2) [OF _ assms(2)] assms(1) by (simp add: grows_def hooks_inv_def allocated_def paging_on_def)

lemma only_pages_grows:
  assumes "only_pages s s'" "allocated s \<subseteq> allocated s'" "mapped_pages s \<subseteq> mapped_pages s'"
  shows "grows s s'"
  using assms only_tables_paging_on by (fastforce simp: grows_def only_pages_def)

lemma liballoc_alloc_result:
  assumes inv: "hooks_inv s" and n: "0 < unat pages"
  obtains (null) "liballoc_alloc pages s = Some (0, s)" "no_fit s (unat pages)"
  | (run) r p s' where "liballoc_alloc pages s = Some (r, s')" "r \<noteq> 0" "unat r = 4096 * p" "2048 \<le> p"
      "free_range s p (unat pages)" "allocated s' = allocated s \<union> {p..<p + unat pages}"
      "mapped_pages s' = mapped_pages s \<union> {p..<p + unat pages}" "hooks_inv s'" "only_pages s s'"
proof -
  have fi: "frame_inv s" and pi: "pg_inv s" using inv by (auto simp: hooks_inv_def)
  obtain r s1 where a: "pageframe_alloc pages s = Some (r, s1)"
    using pf.alloc_returns [OF fi n] by blast
  show thesis
  proof (cases "r = 0")
    case True
    then have "s1 = s" "no_fit s (unat pages)" using frame_inv_alloc_null [OF fi n] a by auto
    then show thesis
      using null a True by (simp add: liballoc_alloc_def pageframe_alloc_liballoc_def)
  next
    case False
    obtain p where p: "unat r = 4096 * unat p" "r = pageframe_addr_from_page p" "2048 \<le> unat p"
        "takes s (unat p) (unat pages) s1" "frame_inv s1"
      by (rule frame_inv_alloc [OF fi n a False])
    obtain b where s1: "s1 = s\<lparr>pageframe_bitmap := b\<rparr>" and
        al: "allocated s1 = allocated s \<union> {unat p..<unat p + unat pages}" and
        fr: "free_range s (unat p) (unat pages)"
      using p(4) by (auto simp: takes_def)
    have pi1: "pg_inv s1" and m1: "mapped_pages s1 = mapped_pages s" using pi s1 by simp_all
    have "unat p + unat pages \<le> 2 ^ 20"
      using fr fi by (auto simp: free_range_def frame_inv_def pf_wf_def)
    then have room: "unat r + 4096 * unat pages \<le> 2 ^ 32" using p(1) by simp
    have "\<exists>s'. forM [0..<unat pages] (\<lambda>i s. paging_map_page (r + of_nat i * 4096) (r + of_nat i * 4096)
          (kernel_page_directory s) s) s1 = Some s' \<and> pg_inv s' \<and>
        mapped_pages s' = mapped_pages s1 \<union> {unat r div 4096..<unat r div 4096 + unat pages} \<and>
        only_tables s1 s'"
      using p(1) room by (intro pg.map_run [OF pi1]) simp
    then obtain s' where s': "forM [0..<unat pages] (\<lambda>i s. paging_map_page (r + of_nat i * 4096)
          (r + of_nat i * 4096) (kernel_page_directory s) s) s1 = Some s'" "pg_inv s'"
        "mapped_pages s' = mapped_pages s1 \<union> {unat r div 4096..<unat r div 4096 + unat pages}"
        "only_tables s1 s'"
      by blast
    show thesis
    proof (rule run [of r s' "unat p"])
      show "liballoc_alloc pages s = Some (r, s')"
        using a False s'(1) by (simp add: liballoc_alloc_def pageframe_alloc_liballoc_def)
      show "hooks_inv s'" using s'(2) p(5) only_tables_frame(6) [OF s'(4)] by (simp add: hooks_inv_def)
      show "allocated s' = allocated s \<union> {unat p..<unat p + unat pages}"
        using only_tables_frame(4) [OF s'(4)] al by simp
      show "only_pages s s'" using s'(4) s1 unfolding only_pages_def by blast
    qed (use False p fr s'(3) m1 in simp_all)
  qed
qed

lemma liballoc_free_result:
  assumes inv: "hooks_inv s" and n: "0 < unat pages" and r: "unat r = 4096 * p" "2048 \<le> p"
    and used: "{p..<p + unat pages} \<subseteq> allocated s"
  obtains s' b where "liballoc_free r pages s = Some s'" "hooks_inv s'"
    "allocated s' = allocated s - {p..<p + unat pages}" "mapped_pages s' = mapped_pages s"
    "s' = s\<lparr>pageframe_bitmap := b\<rparr>"
proof -
  have fi: "frame_inv s" and pi: "pg_inv s" using inv by (auto simp: hooks_inv_def)
  obtain s' where s': "pageframe_free r pages s = Some s'" "frees s p (unat pages) s'" "frame_inv s'"
    by (rule frame_inv_free [OF fi n r used])
  obtain b where b: "s' = s\<lparr>pageframe_bitmap := b\<rparr>" "allocated s' = allocated s - {p..<p + unat pages}"
    using s'(2) by (auto simp: frees_def)
  show thesis
  proof (rule that [of s' b])
    show "liballoc_free r pages s = Some s'"
      using s'(1) by (cases "r = 0") (simp_all add: liballoc_free_def pageframe_free_liballoc_def)
    show "hooks_inv s'" using s'(3) b(1) pi by (simp add: hooks_inv_def)
  qed (use b in simp_all)
qed

text \<open>Locking a free lock returns; unlocking afterwards leaves it free and restores the flags.\<close>

lemma liballoc_lock_pair:
  fixes s :: "'a hooks_scheme"
  assumes "locked (mmulock s) = 0"
  shows "\<exists>q e. liballoc_lock s = Some (s\<lparr>mmulock := q, eflags := e\<rparr>) \<and>
    (\<forall>t :: 'a hooks_scheme. mmulock t = q \<longrightarrow> eflags t = e \<longrightarrow>
       (\<exists>q'. liballoc_unlock t = t\<lparr>mmulock := q', eflags := eflags s\<rparr> \<and> locked q' = 0))"
proof -
  obtain q e where q: "spinlock_lock (mmulock s) (eflags s) = Some (q, e)" "locked (fst (spinlock_unlock q e)) = 0"
      "snd (spinlock_unlock q e) = eflags s"
    using spinlock_pair [OF assms] by blast
  then show ?thesis
    by (intro exI [of _ q] exI [of _ e]) (auto simp: liballoc_lock_def liballoc_unlock_def Let_def split: prod.splits)
qed

text \<open>The hooks are again a source of page frames.\<close>

interpretation hk: frame_source liballoc_alloc liballoc_free hooks_inv allocated 2048
proof unfold_locales
  fix s :: "'a hooks_scheme" and n :: u32
  assume "hooks_inv s" "0 < unat n"
  then show "\<exists>r s'. liballoc_alloc n s = Some (r, s')"
    by (rule liballoc_alloc_result) blast+
next
  fix s s' :: "'a hooks_scheme" and n :: u32
  assume i: "hooks_inv s" "0 < unat n" and a: "liballoc_alloc n s = Some (0, s')"
  show "s' = s" by (rule liballoc_alloc_result [OF i]) (use a in simp_all)
next
  fix s s' :: "'a hooks_scheme" and n r :: u32
  assume i: "hooks_inv s" "0 < unat n" and a: "liballoc_alloc n s = Some (r, s')" "r \<noteq> 0"
  show "\<exists>p. unat r = 4096 * p \<and> 2048 \<le> p \<and> {p..<p + unat n} \<inter> allocated s = {} \<and>
      allocated s' = allocated s \<union> {p..<p + unat n} \<and> hooks_inv s'"
    by (rule liballoc_alloc_result [OF i]) (use a in \<open>auto simp: free_range_def\<close>)
next
  fix s :: "'a hooks_scheme" and n r :: u32 and p
  assume "hooks_inv s" "0 < unat n" "unat r = 4096 * p" "2048 \<le> p" "{p..<p + unat n} \<subseteq> allocated s"
  then show "\<exists>s'. liballoc_free r n s = Some s' \<and> hooks_inv s' \<and>
      allocated s' = allocated s - {p..<p + unat n}"
    by (rule liballoc_free_result) blast
qed

section \<open>Properties\<close>

text \<open>The sample state of the paging code with a free lock and interrupts on, for the witnesses.\<close>

definition sample_hooks :: "unit hooks_scheme" where
  "sample_hooks = \<lparr>kinfo_of = \<lparr>kernel_start_phys = 0x200000, kernel_start_virtual = 0x200000,
       kernel_end_phys = 0x300000, kernel_end_virtual = 0x300000, is_paging_enabled = 1\<rparr>,
     phys_mem_upper = 8320, heap_cur = 0x300000, kmem = \<lambda>_. 0, is_initialized = True,
     pageframe_bitmap = Ptr (replicate 256 0xff @ [0x11, 0, 0, 0]), pages_total_phys = 2080,
     kernel_page_directory = 0x2ff000, allocated_page_tables = replicate 1024 0,
     cr0 = 0x80000011, cr3 = 0x2ff000,
     mmulock = \<lparr>locked = 0, is_irq_enabled_when_locked = 0\<rparr>, eflags = 0x202\<rparr>"

lemma sample_hooks_inv [simp]: "hooks_inv sample_hooks" "paging_on sample_hooks"
proof -
  have "frame_inv sample_hooks"
    by (auto simp: frame_inv_def pf_wf_def sample_hooks_def allocated_def bits_of_iff nth_append bit_ff)
  moreover have "pg_inv sample_hooks"
    by (simp add: pg_inv_def tables_ok_def sample_hooks_def entry_def page_up_def)
  ultimately show "hooks_inv sample_hooks" by (simp add: hooks_inv_def)
  show "paging_on sample_hooks"
    by (simp add: paging_on_def sample_hooks_def bit_numeral_rec)
qed

text \<open>
  C18. The pages handed to the memory allocator: a request of one or more pages returns \<open>NULL\<close> with
  the state unchanged, or a run of frames that were free; every address in them is then translated
  to itself, and every other address exactly as before, so no earlier mapping is lost.
\<close>

theorem liballoc_alloc_maps_pages:
  assumes "hooks_inv s" and "paging_on s" and "0 < unat pages"
  shows "\<exists>r s'. liballoc_alloc pages s = Some (r, s') \<and> hooks_inv s' \<and>
     (if r = 0 then s' = s \<and> no_fit s (unat pages)
      else \<exists>p. unat r = 4096 * p \<and> free_range s p (unat pages) \<and>
             allocated s' = allocated s \<union> {p..<p + unat pages} \<and>
             (\<forall>va. translate s' va =
                (if unat va div 4096 \<in> {p..<p + unat pages} then Some va else translate s va)))"
  using assms(1,3)
proof (cases rule: liballoc_alloc_result)
  case (run r p s')
  have "paging_on s'"
    using run(9) assms(2) only_tables_paging_on by (fastforce simp: only_pages_def)
  moreover have inv: "pg_inv s'" "pg_inv s" using run(8) assms(1) by (auto simp: hooks_inv_def)
  ultimately have "translate s' va =
      (if unat va div 4096 \<in> {p..<p + unat pages} then Some va else translate s va)" for va
    using translate_mapped [OF inv(1)] translate_mapped [OF inv(2) assms(2)] run(7) by auto
  with run show ?thesis by auto
qed (use assms in auto)

theorem liballoc_alloc_maps_pages_witness:
  "\<exists>r s'. liballoc_alloc 16 sample_hooks = Some (r, s') \<and> hooks_inv s'"
  using liballoc_alloc_maps_pages [of sample_hooks 16] by auto

end
