(* ===== verification/Liballoc.thy ===== *)
theory Liballoc
  imports Hooks
begin

text \<open>
  \<^verbatim>\<open>kernel/mmu/liballoc.c\<close>: the memory allocator behind \<open>mmu_mmap\<close>. Memory comes in major blocks of whole
  pages; a major block holds minor blocks, one per allocation, in a doubly linked list in the order
  of their addresses. The headers are kept by address: \<open>majors\<close> and \<open>minors\<close> map an address to the
  header stored there, and a pointer is an address, 0 for \<open>NULL\<close>. Following a pointer to an address
  that holds no header is a fault. The byte in front of an aligned pointer is in \<open>kmem\<close>.

  The loops over the blocks are partial functions: a loop that does not end has no result, so that
  a theorem that gives a result also says that the loops end.
\<close>

section \<open>State\<close>

record liballoc_major =
  maj_prev :: u32
  maj_next :: u32
  pages :: u32
  maj_size :: u32
  usage :: u32
  first :: u32

record liballoc_minor =
  min_prev :: u32
  min_next :: u32
  block :: u32
  magic :: u32
  min_size :: u32
  req_size :: u32

record liballoc = hooks +
  majors :: "u32 \<Rightarrow> liballoc_major option"
  minors :: "u32 \<Rightarrow> liballoc_minor option"
  l_memRoot :: u32
  l_bestBet :: u32
  l_pageSize :: u32
  l_pageCount :: u32
  l_allocated :: u64
  l_inuse :: u64
  l_warningCount :: u64
  l_errorCount :: u64
  l_possibleOverruns :: u64

definition LIBALLOC_MAGIC :: u32 where
  "LIBALLOC_MAGIC = 0x0001c0de"

definition LIBALLOC_DEAD :: u32 where
  "LIBALLOC_DEAD = 0xdeaddead"

text \<open>Stores through a pointer to a header.\<close>

definition upd_major :: "u32 \<Rightarrow> (liballoc_major \<Rightarrow> liballoc_major) \<Rightarrow> 'a liballoc_scheme \<Rightarrow> 'a liballoc_scheme option" where
  "upd_major a f s = (case majors s a of None \<Rightarrow> None
     | Some m \<Rightarrow> Some (s\<lparr>majors := (majors s)(a := Some (f m))\<rparr>))"

definition upd_minor :: "u32 \<Rightarrow> (liballoc_minor \<Rightarrow> liballoc_minor) \<Rightarrow> 'a liballoc_scheme \<Rightarrow> 'a liballoc_scheme option" where
  "upd_minor a f s = (case minors s a of None \<Rightarrow> None
     | Some m \<Rightarrow> Some (s\<lparr>minors := (minors s)(a := Some (f m))\<rparr>))"

section \<open>The alignment macros\<close>

text \<open>\<open>ALIGN_TYPE\<close> is \<open>char\<close>: the stored difference is read back sign-extended.\<close>

definition ALIGN :: "u32 \<Rightarrow> 'a liballoc_scheme \<Rightarrow> u32 \<times> 'a liballoc_scheme" where
  "ALIGN ptr s =
     (let ptr = ptr + 16;
          diff = ptr AND (16 - 1);
          (diff, ptr) = (if diff \<noteq> 0 then (16 - diff, ptr + (16 - diff)) else (diff, ptr))
      in (ptr, s\<lparr>kmem := (kmem s)(ptr - 16 := ucast (diff + 16))\<rparr>))"

definition UNALIGN :: "u32 \<Rightarrow> 'a liballoc_scheme \<Rightarrow> u32" where
  "UNALIGN ptr s =
     (let diff = scast (kmem s (ptr - 16)) :: u32
      in if diff < 16 + 16 then ptr - diff else ptr)"

section \<open>Memory functions\<close>

fun liballoc_memset :: "mem \<Rightarrow> u32 \<Rightarrow> u8 \<Rightarrow> nat \<Rightarrow> mem" where
  "liballoc_memset m a c 0 = m"
| "liballoc_memset m a c (Suc n) = (liballoc_memset m a c n)(a + of_nat n := c)"

text \<open>The copy goes by words while four bytes are left, then by bytes.\<close>

function liballoc_memcpy :: "mem \<Rightarrow> u32 \<Rightarrow> u32 \<Rightarrow> nat \<Rightarrow> mem" where
  "liballoc_memcpy m s1 s2 n =
     (if n \<ge> 4 then liballoc_memcpy (store32 m s1 (load32 m s2)) (s1 + 4) (s2 + 4) (n - 4)
      else if n > 0 then liballoc_memcpy (m(s1 := m s2)) (s1 + 1) (s2 + 1) (n - 1)
      else m)"
  by pat_completeness auto
termination
  by (relation "measure (\<lambda>(m, s1, s2, n). n)") auto

declare liballoc_memcpy.simps [simp del]

section \<open>A new major block\<close>

definition pages_needed :: "u32 \<Rightarrow> 'a liballoc_scheme \<Rightarrow> u32" where
  "pages_needed sz s =
     (let st = sz + 24 + 24;
          st = (if st mod l_pageSize s = 0 then st div l_pageSize s else st div l_pageSize s + 1)
      in if st < l_pageCount s then l_pageCount s else st)"

definition allocate_new_page :: "u32 \<Rightarrow> 'a liballoc_scheme \<Rightarrow> (u32 \<times> 'a liballoc_scheme) option" where
  "allocate_new_page sz s =
     (let st = pages_needed sz s in
      do { (maj, s) \<leftarrow> liballoc_alloc st s;
           if maj = 0 then Some (0, s\<lparr>l_warningCount := l_warningCount s + 1\<rparr>)
           else let s = s\<lparr>majors := (majors s)(maj := Some \<lparr>maj_prev = 0, maj_next = 0, pages = st,
                           maj_size = st * l_pageSize s, usage = 24, first = 0\<rparr>)\<rparr>
                in Some (maj, s\<lparr>l_allocated := l_allocated s + ucast (st * l_pageSize s)\<rparr>) })"

section \<open>The cases of malloc\<close>

text \<open>The accounting and the pointer returned, common to the four cases.\<close>

definition finish_alloc :: "u32 \<Rightarrow> u32 \<Rightarrow> u32 \<Rightarrow> 'a liballoc_scheme \<Rightarrow> (u32 \<times> 'a liballoc_scheme) option" where
  "finish_alloc maj mn sz s =
     do { s \<leftarrow> upd_major maj (\<lambda>m. m\<lparr>usage := usage m + (sz + 24)\<rparr>) s;
          let s = s\<lparr>l_inuse := l_inuse s + ucast sz\<rparr> in
          Some (ALIGN (mn + 24) s) }"

definition malloc_case2 :: "u32 \<Rightarrow> u32 \<Rightarrow> u32 \<Rightarrow> 'a liballoc_scheme \<Rightarrow> (u32 \<times> 'a liballoc_scheme) option" where
  "malloc_case2 maj sz req s =
     (let mn = maj + 24 in
      do { s \<leftarrow> upd_major maj (\<lambda>m. m\<lparr>first := mn\<rparr>) s;
           let s = s\<lparr>minors := (minors s)(mn := Some \<lparr>min_prev = 0, min_next = 0, block = maj,
                       magic = LIBALLOC_MAGIC, min_size = sz, req_size = req\<rparr>)\<rparr> in
           finish_alloc maj mn sz s })"

definition malloc_case3 :: "u32 \<Rightarrow> u32 \<Rightarrow> u32 \<Rightarrow> 'a liballoc_scheme \<Rightarrow> (u32 \<times> 'a liballoc_scheme) option" where
  "malloc_case3 maj sz req s =
     (let mn = maj + 24 in
      do { m \<leftarrow> majors s maj;
           let old = first m in
           do { s \<leftarrow> upd_minor old (\<lambda>n. n\<lparr>min_prev := mn\<rparr>) s;
                let s = s\<lparr>minors := (minors s)(mn := Some \<lparr>min_prev = 0, min_next = old, block = maj,
                            magic = LIBALLOC_MAGIC, min_size = sz, req_size = req\<rparr>)\<rparr> in
                do { s \<leftarrow> upd_major maj (\<lambda>m. m\<lparr>first := mn\<rparr>) s;
                     finish_alloc maj mn sz s } } })"

definition malloc_case41 :: "u32 \<Rightarrow> u32 \<Rightarrow> u32 \<Rightarrow> u32 \<Rightarrow> 'a liballoc_scheme \<Rightarrow> (u32 \<times> 'a liballoc_scheme) option" where
  "malloc_case41 maj mn sz req s =
     do { n \<leftarrow> minors s mn;
          let new = mn + 24 + min_size n in
          do { s \<leftarrow> upd_minor mn (\<lambda>n. n\<lparr>min_next := new\<rparr>) s;
               let s = s\<lparr>minors := (minors s)(new := Some \<lparr>min_prev = mn, min_next = 0, block = maj,
                           magic = LIBALLOC_MAGIC, min_size = sz, req_size = req\<rparr>)\<rparr> in
               finish_alloc maj new sz s } }"

definition malloc_case42 :: "u32 \<Rightarrow> u32 \<Rightarrow> u32 \<Rightarrow> u32 \<Rightarrow> 'a liballoc_scheme \<Rightarrow> (u32 \<times> 'a liballoc_scheme) option" where
  "malloc_case42 maj mn sz req s =
     do { n \<leftarrow> minors s mn;
          let new = mn + 24 + min_size n; nx = min_next n;
              s = s\<lparr>minors := (minors s)(new := Some \<lparr>min_prev = mn, min_next = nx, block = maj,
                      magic = LIBALLOC_MAGIC, min_size = sz, req_size = req\<rparr>)\<rparr> in
          do { s \<leftarrow> upd_minor nx (\<lambda>n. n\<lparr>min_prev := new\<rparr>) s;
               s \<leftarrow> upd_minor mn (\<lambda>n. n\<lparr>min_next := new\<rparr>) s;
               finish_alloc maj new sz s } }"

text \<open>The loop over the minor blocks; \<open>Inr\<close> when it runs off the end of the list.\<close>

partial_function (option) malloc_case4 ::
    "u32 \<Rightarrow> u32 \<Rightarrow> u32 \<Rightarrow> u32 \<Rightarrow> 'a liballoc_scheme \<Rightarrow> ((u32 \<times> 'a liballoc_scheme) + unit) option" where
  "malloc_case4 maj mn sz req s =
     (if mn = 0 then Some (Inr ())
      else do { n \<leftarrow> minors s mn;
                m \<leftarrow> majors s maj;
                if min_next n = 0
                then let diff = maj + maj_size m - mn - 24 - min_size n in
                     if diff \<ge> sz + 24 then map_option Inl (malloc_case41 maj mn sz req s)
                     else malloc_case4 maj (min_next n) sz req s
                else let diff = min_next n - mn - 24 - min_size n in
                     if diff \<ge> sz + 24 then map_option Inl (malloc_case42 maj mn sz req s)
                     else malloc_case4 maj (min_next n) sz req s })"

text \<open>Cases 2, 3 and 4 in the block \<open>maj\<close>.\<close>

definition malloc_in_major :: "u32 \<Rightarrow> u32 \<Rightarrow> u32 \<Rightarrow> 'a liballoc_scheme \<Rightarrow> ((u32 \<times> 'a liballoc_scheme) + unit) option" where
  "malloc_in_major maj sz req s =
     do { m \<leftarrow> majors s maj;
          if first m = 0 then map_option Inl (malloc_case2 maj sz req s)
          else let diff = first m - maj - 24 in
               if diff \<ge> sz + 24 then map_option Inl (malloc_case3 maj sz req s)
               else malloc_case4 maj (first m) sz req s }"

text \<open>\<open>maj->next = allocate_new_page(size); if (maj->next == NULL) break; maj->next->prev = maj;\<close>\<close>

definition link_new_page :: "u32 \<Rightarrow> u32 \<Rightarrow> 'a liballoc_scheme \<Rightarrow> (u32 \<times> 'a liballoc_scheme) option" where
  "link_new_page maj sz s =
     do { (new, s) \<leftarrow> allocate_new_page sz s;
          s \<leftarrow> upd_major maj (\<lambda>m. m\<lparr>maj_next := new\<rparr>) s;
          if new = 0 then Some (0, s)
          else do { s \<leftarrow> upd_major new (\<lambda>m. m\<lparr>maj_prev := maj\<rparr>) s; Some (new, s) } }"

text \<open>The loop over the major blocks. The result 0 is the \<open>NULL\<close> after the loop.\<close>

partial_function (option) malloc_loop ::
    "u32 \<Rightarrow> bool \<Rightarrow> u64 \<Rightarrow> u32 \<Rightarrow> u32 \<Rightarrow> 'a liballoc_scheme \<Rightarrow> (u32 \<times> 'a liballoc_scheme) option" where
  "malloc_loop maj startedBet bestSize sz req s =
     (if maj = 0 then Some (0, s)
      else do { m \<leftarrow> majors s maj;
                let diff = maj_size m - usage m;
                    s = (if bestSize < ucast diff then s\<lparr>l_bestBet := maj\<rparr> else s);
                    bestSize = (if bestSize < ucast diff then ucast diff else bestSize) in
                if diff < sz + 24 \<and> maj_next m \<noteq> 0
                then malloc_loop (maj_next m) startedBet bestSize sz req s
                else if diff < sz + 24 \<and> startedBet
                then malloc_loop (l_memRoot s) False bestSize sz req s
                else do { (maj, s) \<leftarrow> (if diff < sz + 24 then link_new_page maj sz s else Some (maj, s));
                          if maj = 0 then Some (0, s)
                          else do { r \<leftarrow> malloc_in_major maj sz req s;
                                    case r of Inl (p, s) \<Rightarrow> Some (p, s)
                                    | Inr _ \<Rightarrow>
                                        do { m \<leftarrow> majors s maj;
                                             if maj_next m \<noteq> 0 then malloc_loop (maj_next m) startedBet bestSize sz req s
                                             else if startedBet then malloc_loop (l_memRoot s) False bestSize sz req s
                                             else do { (new, s) \<leftarrow> link_new_page maj sz s;
                                                       if new = 0 then Some (0, s)
                                                       else malloc_loop new startedBet bestSize sz req s } } } } })"

section \<open>Allocation and release\<close>

text \<open>The part of \<open>malloc\<close> between the lock and the unlock, for a size that is not 0.\<close>

definition malloc_body :: "u32 \<Rightarrow> u32 \<Rightarrow> 'a liballoc_scheme \<Rightarrow> (u32 \<times> 'a liballoc_scheme) option" where
  "malloc_body sz req s =
     do { s \<leftarrow> (if l_memRoot s = 0
                 then do { (root, s) \<leftarrow> allocate_new_page sz s; Some (s\<lparr>l_memRoot := root\<rparr>) }
                 else Some s);
          if l_memRoot s = 0 then Some (0, s)
          else if l_bestBet s \<noteq> 0
          then do { b \<leftarrow> majors s (l_bestBet s);
                    let bestSize = ucast (maj_size b - usage b) :: u64 in
                    if bestSize > ucast (sz + 24)
                    then malloc_loop (l_bestBet s) True bestSize sz req s
                    else malloc_loop (l_memRoot s) False bestSize sz req s }
          else malloc_loop (l_memRoot s) False 0 sz req s }"

definition malloc_locked :: "u32 \<Rightarrow> u32 \<Rightarrow> 'a liballoc_scheme \<Rightarrow> (u32 \<times> 'a liballoc_scheme) option" where
  "malloc_locked sz req s =
     do { s \<leftarrow> liballoc_lock s; (p, s) \<leftarrow> malloc_body sz req s; Some (p, liballoc_unlock s) }"

text \<open>A request whose size wraps to 0 is counted as a warning and served as a request of one byte.\<close>

definition malloc :: "u32 \<Rightarrow> 'a liballoc_scheme \<Rightarrow> (u32 \<times> 'a liballoc_scheme) option" where
  "malloc req s =
     (let sz = req + (16 + 16) in
      if sz = 0
      then do { s \<leftarrow> liballoc_lock s;
                let s = liballoc_unlock (s\<lparr>l_warningCount := l_warningCount s + 1\<rparr>) in
                malloc_locked (1 + (16 + 16)) 1 s }
      else malloc_locked sz req s)"

text \<open>A header that does not carry the magic number is counted as an error, and possibly an overrun.\<close>

definition bad_magic :: "u32 \<Rightarrow> 'a liballoc_scheme \<Rightarrow> 'a liballoc_scheme" where
  "bad_magic mg s =
     (let s = s\<lparr>l_errorCount := l_errorCount s + 1\<rparr> in
      if (mg AND 0xFFFFFF) = (LIBALLOC_MAGIC AND 0xFFFFFF) \<or> (mg AND 0xFFFF) = (LIBALLOC_MAGIC AND 0xFFFF) \<or>
         (mg AND 0xFF) = (LIBALLOC_MAGIC AND 0xFF)
      then s\<lparr>l_possibleOverruns := l_possibleOverruns s + 1\<rparr> else s)"

text \<open>Taking a minor block out of its list.\<close>

definition unlink_minor :: "u32 \<Rightarrow> liballoc_minor \<Rightarrow> 'a liballoc_scheme \<Rightarrow> 'a liballoc_scheme option" where
  "unlink_minor mn n s =
     do { s \<leftarrow> upd_major (block n) (\<lambda>m. m\<lparr>usage := usage m - (min_size n + 24)\<rparr>) s;
          s \<leftarrow> upd_minor mn (\<lambda>n. n\<lparr>magic := LIBALLOC_DEAD\<rparr>) s;
          s \<leftarrow> (if min_next n \<noteq> 0 then upd_minor (min_next n) (\<lambda>x. x\<lparr>min_prev := min_prev n\<rparr>) s else Some s);
          s \<leftarrow> (if min_prev n \<noteq> 0 then upd_minor (min_prev n) (\<lambda>x. x\<lparr>min_next := min_next n\<rparr>) s else Some s);
          if min_prev n = 0 then upd_major (block n) (\<lambda>m. m\<lparr>first := min_next n\<rparr>) s else Some s }"

text \<open>Returning a major block with no minor block left.\<close>

definition release_major :: "u32 \<Rightarrow> liballoc_major \<Rightarrow> 'a liballoc_scheme \<Rightarrow> 'a liballoc_scheme option" where
  "release_major maj m s =
     (let s = (if l_memRoot s = maj then s\<lparr>l_memRoot := maj_next m\<rparr> else s);
          s = (if l_bestBet s = maj then s\<lparr>l_bestBet := 0\<rparr> else s) in
      do { s \<leftarrow> (if maj_prev m \<noteq> 0 then upd_major (maj_prev m) (\<lambda>x. x\<lparr>maj_next := maj_next m\<rparr>) s else Some s);
           s \<leftarrow> (if maj_next m \<noteq> 0 then upd_major (maj_next m) (\<lambda>x. x\<lparr>maj_prev := maj_prev m\<rparr>) s else Some s);
           liballoc_free maj (pages m) (s\<lparr>l_allocated := l_allocated s - ucast (maj_size m)\<rparr>) })"

definition update_best_bet :: "u32 \<Rightarrow> liballoc_major \<Rightarrow> 'a liballoc_scheme \<Rightarrow> 'a liballoc_scheme option" where
  "update_best_bet maj m s =
     (if l_bestBet s \<noteq> 0
      then do { b \<leftarrow> majors s (l_bestBet s);
                let bestSize = sint (maj_size b - usage b); majSize = sint (maj_size m - usage m) in
                Some (if majSize > bestSize then s\<lparr>l_bestBet := maj\<rparr> else s) }
      else Some s)"

definition free_body :: "u32 \<Rightarrow> 'a liballoc_scheme \<Rightarrow> 'a liballoc_scheme option" where
  "free_body ptr s =
     (let mn = ptr - 24 in
      do { n \<leftarrow> minors s mn;
           if magic n \<noteq> LIBALLOC_MAGIC then Some (bad_magic (magic n) s)
           else let maj = block n; s = s\<lparr>l_inuse := l_inuse s - ucast (min_size n)\<rparr> in
                do { s \<leftarrow> unlink_minor mn n s;
                     m \<leftarrow> majors s maj;
                     if first m = 0 then release_major maj m s else update_best_bet maj m s } })"

definition free :: "u32 \<Rightarrow> 'a liballoc_scheme \<Rightarrow> 'a liballoc_scheme option" where
  "free ptr s =
     (if ptr = 0 then Some (s\<lparr>l_warningCount := l_warningCount s + 1\<rparr>)
      else let ptr = UNALIGN ptr s in
           do { s \<leftarrow> liballoc_lock s; s \<leftarrow> free_body ptr s; Some (liballoc_unlock s) })"

text \<open>\<open>calloc\<close> and \<open>realloc\<close> write through the result of \<open>malloc\<close> without a test for \<open>NULL\<close>.\<close>

definition calloc :: "u32 \<Rightarrow> u32 \<Rightarrow> 'a liballoc_scheme \<Rightarrow> (u32 \<times> 'a liballoc_scheme) option" where
  "calloc nobj sz s =
     (let real_size = nobj * sz in
      do { (p, s) \<leftarrow> malloc real_size s;
           Some (p, s\<lparr>kmem := liballoc_memset (kmem s) p 0 (unat real_size)\<rparr>) })"

definition realloc :: "u32 \<Rightarrow> u32 \<Rightarrow> 'a liballoc_scheme \<Rightarrow> (u32 \<times> 'a liballoc_scheme) option" where
  "realloc p sz s =
     (if sz = 0 then do { s \<leftarrow> free p s; Some (0, s) }
      else if p = 0 then malloc sz s
      else let ptr = UNALIGN p s; mn = ptr - 24 in
           do { s \<leftarrow> liballoc_lock s;
                n \<leftarrow> minors s mn;
                if magic n \<noteq> LIBALLOC_MAGIC then Some (0, liballoc_unlock (bad_magic (magic n) s))
                else let real_size = req_size n in
                     if real_size \<ge> sz
                     then do { s \<leftarrow> upd_minor mn (\<lambda>n. n\<lparr>req_size := sz\<rparr>) s; Some (p, liballoc_unlock s) }
                     else do { (ptr, s) \<leftarrow> malloc sz (liballoc_unlock s);
                               s \<leftarrow> free p (s\<lparr>kmem := liballoc_memcpy (kmem s) ptr p (unat real_size)\<rparr>);
                               Some (ptr, s) } })"

end
