(* ===== verification/Chain.thy ===== *)
theory Chain
  imports Prelude
begin

text \<open>
  Doubly linked lists of headers in memory. \<open>chain pf nf p xs n\<close> says that the addresses \<open>xs\<close> are linked in
  order: \<open>pf\<close> gives the previous pointer stored at an address and \<open>nf\<close> the next pointer (\<open>None\<close> where no
  header is), \<open>p\<close> is the previous pointer of the first address and \<open>n\<close> the next pointer of the last.
\<close>

section \<open>Chains\<close>

fun hdd :: "u32 list \<Rightarrow> u32 \<Rightarrow> u32" where
  "hdd [] n = n"
| "hdd (x # xs) n = x"

fun lastd :: "u32 \<Rightarrow> u32 list \<Rightarrow> u32" where
  "lastd p [] = p"
| "lastd p (x # xs) = lastd x xs"

fun chain :: "(u32 \<Rightarrow> u32 option) \<Rightarrow> (u32 \<Rightarrow> u32 option) \<Rightarrow> u32 \<Rightarrow> u32 list \<Rightarrow> u32 \<Rightarrow> bool" where
  "chain pf nf p [] n = True"
| "chain pf nf p (x # xs) n \<longleftrightarrow> pf x = Some p \<and> nf x = Some (hdd xs n) \<and> chain pf nf x xs n"

lemma hdd_append [simp]: "hdd (xs @ ys) n = hdd xs (hdd ys n)"
  by (cases xs) auto

lemma lastd_append [simp]: "lastd p (xs @ ys) = lastd (lastd p xs) ys"
  by (induction xs arbitrary: p) auto

lemma lastd_last: "xs \<noteq> [] \<Longrightarrow> lastd p xs = last xs"
  by (induction xs arbitrary: p) auto

lemma hdd_hd: "xs \<noteq> [] \<Longrightarrow> hdd xs n = hd xs"
  by (cases xs) auto

lemma chain_append: "chain pf nf p (xs @ ys) n \<longleftrightarrow> chain pf nf p xs (hdd ys n) \<and> chain pf nf (lastd p xs) ys n"
  by (induction xs arbitrary: p) auto

lemma chain_cong:
  assumes "\<And>x. x \<in> set xs \<Longrightarrow> pf' x = pf x \<and> nf' x = nf x"
  shows "chain pf' nf' p xs n = chain pf nf p xs n"
  using assms by (induction xs arbitrary: p) auto

lemma chain_Some: "chain pf nf p xs n \<Longrightarrow> x \<in> set xs \<Longrightarrow> \<exists>q r. pf x = Some q \<and> nf x = Some r"
  by (induction xs arbitrary: p) auto

text \<open>The pointers of an element in the middle.\<close>

lemma chain_middle:
  "chain pf nf p (xs @ x # ys) n \<Longrightarrow> pf x = Some (lastd p xs) \<and> nf x = Some (hdd ys n)"
  by (simp add: chain_append)

text \<open>Changing the pointers at the two ends.\<close>

lemma chain_set_next:
  assumes "chain pf nf p (xs @ [x]) n" "distinct (xs @ [x])"
  shows "chain pf (nf(x \<mapsto> n')) p (xs @ [x]) n'"
proof -
  have "chain pf (nf(x \<mapsto> n')) p xs x = chain pf nf p xs x"
    using assms(2) by (intro chain_cong) auto
  then show ?thesis using assms(1) by (simp add: chain_append)
qed

lemma chain_set_prev:
  assumes "chain pf nf p (x # xs) n" "distinct (x # xs)"
  shows "chain (pf(x \<mapsto> p')) nf p' (x # xs) n"
proof -
  have "chain (pf(x \<mapsto> p')) nf x xs n = chain pf nf x xs n"
    using assms(2) by (intro chain_cong) auto
  then show ?thesis using assms(1) by simp
qed

text \<open>
  The links after the insertion of \<open>m\<close> between \<open>xs\<close> and \<open>ys\<close>, and after a removal: only the next pointer of the last
  of \<open>xs\<close> and the previous pointer of the first of \<open>ys\<close> change.
\<close>

definition relink_next :: "(u32 \<Rightarrow> u32 option) \<Rightarrow> u32 list \<Rightarrow> u32 \<Rightarrow> (u32 \<Rightarrow> u32 option)" where
  "relink_next nf xs m = (if xs = [] then nf else nf(last xs \<mapsto> m))"

definition relink_prev :: "(u32 \<Rightarrow> u32 option) \<Rightarrow> u32 list \<Rightarrow> u32 \<Rightarrow> (u32 \<Rightarrow> u32 option)" where
  "relink_prev pf ys m = (if ys = [] then pf else pf(hd ys \<mapsto> m))"

lemma chain_relink_next:
  assumes "chain pf nf p xs n" "distinct xs"
  shows "chain pf (relink_next nf xs m) p xs m"
proof (cases xs rule: rev_cases)
  case (snoc zs z)
  then show ?thesis using chain_set_next [of pf nf p zs z n m] assms by (simp add: relink_next_def)
qed (simp add: relink_next_def)

lemma chain_relink_prev:
  assumes "chain pf nf p ys n" "distinct ys"
  shows "chain (relink_prev pf ys m) nf m ys n"
proof (cases ys)
  case (Cons z zs)
  then show ?thesis using chain_set_prev [of pf nf p z zs n m] assms by (simp add: relink_prev_def)
qed (simp add: relink_prev_def)

lemma chain_insert:
  assumes ch: "chain pf nf p (xs @ ys) n" and d: "distinct (xs @ ys)" "m \<notin> set (xs @ ys)"
  shows "chain ((relink_prev pf ys m)(m \<mapsto> lastd p xs)) ((relink_next nf xs m)(m \<mapsto> hdd ys n)) p (xs @ m # ys) n"
    (is "chain ?pf ?nf _ _ _")
proof -
  have last_apart: "xs \<noteq> [] \<Longrightarrow> last xs \<notin> set ys" using d by (metis disjoint_iff distinct_append last_in_set list.set_intros(2))
  have c: "chain pf nf p xs (hdd ys n)" "chain pf nf (lastd p xs) ys n"
    using ch by (simp_all add: chain_append)
  have "chain pf (relink_next nf xs m) p xs m" using chain_relink_next [OF c(1)] d by simp
  moreover have "chain ?pf ?nf p xs m = chain pf (relink_next nf xs m) p xs m"
    using d by (intro chain_cong) (auto simp: relink_prev_def)
  moreover have "chain (relink_prev pf ys m) nf m ys n" using chain_relink_prev [OF c(2)] d by simp
  moreover have "chain ?pf ?nf m ys n = chain (relink_prev pf ys m) nf m ys n"
    using last_apart d by (intro chain_cong) (auto simp: relink_next_def)
  ultimately show ?thesis by (simp add: chain_append)
qed

lemma chain_remove:
  assumes ch: "chain pf nf p (xs @ m # ys) n" and d: "distinct (xs @ m # ys)"
  shows "chain (relink_prev pf ys (lastd p xs)) (relink_next nf xs (hdd ys n)) p (xs @ ys) n"
    (is "chain ?pf ?nf _ _ _")
proof -
  have last_apart: "xs \<noteq> [] \<Longrightarrow> last xs \<notin> set ys" using d by (metis disjoint_iff distinct_append last_in_set list.set_intros(2))
  have c: "chain pf nf p xs m" "chain pf nf m ys n" using ch by (simp_all add: chain_append)
  have "chain pf ?nf p xs (hdd ys n)" using chain_relink_next [OF c(1)] d by simp
  moreover have "chain ?pf ?nf p xs (hdd ys n) = chain pf ?nf p xs (hdd ys n)"
    using d by (intro chain_cong) (auto simp: relink_prev_def)
  moreover have "chain ?pf nf (lastd p xs) ys n" using chain_relink_prev [OF c(2)] d by simp
  moreover have "chain ?pf ?nf (lastd p xs) ys n = chain ?pf nf (lastd p xs) ys n"
    using last_apart d by (intro chain_cong) (auto simp: relink_next_def)
  ultimately show ?thesis by (simp add: chain_append)
qed

end
