(* ===== verification/Liballoc_Rep.thy ===== *)
theory Liballoc_Rep
  imports Liballoc Chain
begin

text \<open>
  The representation of the allocator's heap. A heap is described by the list of its major blocks in
  the order of the chain from \<open>l_memRoot\<close>, each with the list of its minor blocks in address order.
  \<open>heap_inv s bs\<close> says that the headers in memory describe \<open>bs\<close>: both kinds of headers are doubly linked, the
  minor blocks of a major block lie inside it one behind the other, \<open>usage\<close> counts them, the frames
  of the major blocks are allocated and disjoint.
\<close>

section \<open>The layout of minor blocks\<close>

definition size_of :: "(u32 \<Rightarrow> liballoc_minor option) \<Rightarrow> u32 \<Rightarrow> nat" where
  "size_of mi m = unat (min_size (the (mi m)))"

fun laid :: "(u32 \<Rightarrow> liballoc_minor option) \<Rightarrow> nat \<Rightarrow> nat \<Rightarrow> u32 list \<Rightarrow> bool" where
  "laid mi lo hi [] \<longleftrightarrow> lo \<le> hi"
| "laid mi lo hi (m # ms) \<longleftrightarrow> lo \<le> unat m \<and> laid mi (unat m + 24 + size_of mi m) hi ms"

fun end_of :: "(u32 \<Rightarrow> liballoc_minor option) \<Rightarrow> nat \<Rightarrow> u32 list \<Rightarrow> nat" where
  "end_of mi lo [] = lo"
| "end_of mi lo (m # ms) = end_of mi (unat m + 24 + size_of mi m) ms"

fun start_of :: "u32 list \<Rightarrow> nat \<Rightarrow> nat" where
  "start_of [] hi = hi"
| "start_of (m # ms) hi = unat m"

definition used :: "(u32 \<Rightarrow> liballoc_minor option) \<Rightarrow> u32 list \<Rightarrow> nat" where
  "used mi ms = (\<Sum>m\<leftarrow>ms. 24 + size_of mi m)"

lemma laid_le: "laid mi lo hi ms \<Longrightarrow> lo \<le> hi"
  by (induction ms arbitrary: lo) fastforce+

lemma laid_append: "laid mi lo hi (xs @ ys) \<longleftrightarrow> laid mi lo (end_of mi lo xs) xs \<and> laid mi (end_of mi lo xs) hi ys"
proof (induction xs arbitrary: lo)
  case (Cons x xs)
  then show ?case by auto
qed simp

lemma laid_weaken: "laid mi lo hi ms \<Longrightarrow> lo' \<le> lo \<Longrightarrow> hi \<le> hi' \<Longrightarrow> laid mi lo' hi' ms"
  by (induction ms arbitrary: lo lo') auto

lemma laid_start: "laid mi lo hi ms \<Longrightarrow> lo \<le> start_of ms hi \<and> start_of ms hi \<le> hi"
  by (cases ms) (auto dest: laid_le)

lemma laid_from: "laid mi lo hi ms \<Longrightarrow> lo' \<le> start_of ms hi \<Longrightarrow> laid mi lo' hi ms"
  by (cases ms) auto

lemma laid_bounds: "laid mi lo hi ms \<Longrightarrow> m \<in> set ms \<Longrightarrow> lo \<le> unat m \<and> unat m + 24 + size_of mi m \<le> hi"
proof (induction ms arbitrary: lo)
  case (Cons x ms)
  then show ?case using laid_le [of mi "unat x + 24 + size_of mi x" hi ms] by fastforce
qed simp

lemma laid_distinct: "laid mi lo hi ms \<Longrightarrow> distinct ms"
proof (induction ms arbitrary: lo)
  case (Cons x ms)
  then show ?case using laid_bounds [of mi "unat x + 24 + size_of mi x" hi ms x] by auto
qed simp

lemma size_cong: "(\<And>m. m \<in> set ms \<Longrightarrow> size_of mi' m = size_of mi m) \<Longrightarrow>
    laid mi' lo hi ms = laid mi lo hi ms \<and> end_of mi' lo ms = end_of mi lo ms \<and> used mi' ms = used mi ms"
  by (induction ms arbitrary: lo) (auto simp: used_def)

lemma used_bound: "laid mi lo hi ms \<Longrightarrow> lo + used mi ms \<le> hi"
proof (induction ms arbitrary: lo)
  case (Cons m ms)
  then have "unat m + 24 + size_of mi m + used mi ms \<le> hi" "lo \<le> unat m" by auto
  then show ?case by (simp add: used_def)
qed (simp add: used_def)

lemma used_append [simp]: "used mi (xs @ ys) = used mi xs + used mi ys"
  by (simp add: used_def)

lemma used_Cons [simp]: "used mi (m # ms) = 24 + size_of mi m + used mi ms"
  by (simp add: used_def)

lemma end_of_append [simp]: "end_of mi lo (xs @ ys) = end_of mi (end_of mi lo xs) ys"
  by (induction xs arbitrary: lo) auto

text \<open>Two minor blocks of one list do not overlap.\<close>

lemma laid_disjoint:
  assumes "laid mi lo hi (xs @ m # ys)" "m' \<in> set (xs @ ys)"
  shows "unat m' + 24 + size_of mi m' \<le> unat m \<or> unat m + 24 + size_of mi m \<le> unat m'"
proof (cases "m' \<in> set xs")
  case True
  have "laid mi lo (end_of mi lo xs) xs" "end_of mi lo xs \<le> unat m" using assms(1) by (auto simp: laid_append)
  then show ?thesis using laid_bounds [of mi lo "end_of mi lo xs" xs m'] True by auto
next
  case False
  then have "m' \<in> set ys" using assms(2) by simp
  moreover have "laid mi (unat m + 24 + size_of mi m) hi ys" using assms(1) by (simp add: laid_append)
  ultimately show ?thesis using laid_bounds by blast
qed

lemma laid_insert:
  assumes old: "laid mi lo hi (xs @ ys)" and new: "end_of mi lo xs \<le> unat m"
      "unat m + 24 + size_of mi' m \<le> start_of ys hi"
    and same: "\<And>x. x \<in> set (xs @ ys) \<Longrightarrow> size_of mi' x = size_of mi x"
  shows "laid mi' lo hi (xs @ m # ys)"
proof -
  have xs: "laid mi' lo (end_of mi lo xs) xs" "end_of mi' lo xs = end_of mi lo xs"
    using old same size_cong [of xs mi' mi lo "end_of mi lo xs"] by (auto simp: laid_append)
  have "laid mi (end_of mi lo xs) hi ys" using old by (simp add: laid_append)
  then have "laid mi (unat m + 24 + size_of mi' m) hi ys" using new(2) by (rule laid_from)
  then have "laid mi' (unat m + 24 + size_of mi' m) hi ys"
    using same size_cong [of ys mi' mi "unat m + 24 + size_of mi' m" hi] by auto
  then show ?thesis using xs new(1) by (simp add: laid_append)
qed

lemma laid_remove:
  assumes old: "laid mi lo hi (xs @ m # ys)" and same: "\<And>x. x \<in> set (xs @ ys) \<Longrightarrow> size_of mi' x = size_of mi x"
  shows "laid mi' lo hi (xs @ ys)"
proof -
  have xs: "laid mi' lo (end_of mi lo xs) xs" "end_of mi' lo xs = end_of mi lo xs"
    using old same size_cong [of xs mi' mi lo "end_of mi lo xs"] by (auto simp: laid_append)
  have "laid mi (unat m + 24 + size_of mi m) hi ys" "end_of mi lo xs \<le> unat m"
    using old by (auto simp: laid_append)
  then have "laid mi (end_of mi lo xs) hi ys" by (elim laid_weaken) auto
  then have "laid mi' (end_of mi lo xs) hi ys"
    using same size_cong [of ys mi' mi "end_of mi lo xs" hi] by auto
  then show ?thesis using xs by (simp add: laid_append)
qed

text \<open>The address of a new block is not one of the old ones.\<close>

lemma laid_fresh:
  assumes "laid mi lo hi (xs @ ys)" "end_of mi lo xs \<le> unat m" "unat m + 24 \<le> start_of ys hi"
  shows "m \<notin> set (xs @ ys)"
proof -
  have "m \<notin> set xs"
    using laid_bounds [of mi lo "end_of mi lo xs" xs m] assms(1,2) by (auto simp: laid_append)
  moreover have "laid mi (start_of ys hi) hi ys" using assms(1) by (cases ys) (auto simp: laid_append)
  then have "m \<notin> set ys" using laid_bounds [of mi "start_of ys hi" hi ys m] assms(3) by auto
  ultimately show ?thesis by simp
qed

section \<open>Blocks\<close>

definition mi_prev :: "(u32 \<Rightarrow> liballoc_minor option) \<Rightarrow> u32 \<Rightarrow> u32 option" where
  "mi_prev mi x = map_option min_prev (mi x)"

definition mi_next :: "(u32 \<Rightarrow> liballoc_minor option) \<Rightarrow> u32 \<Rightarrow> u32 option" where
  "mi_next mi x = map_option min_next (mi x)"

definition mj_prev :: "(u32 \<Rightarrow> liballoc_major option) \<Rightarrow> u32 \<Rightarrow> u32 option" where
  "mj_prev mj x = map_option maj_prev (mj x)"

definition mj_next :: "(u32 \<Rightarrow> liballoc_major option) \<Rightarrow> u32 \<Rightarrow> u32 option" where
  "mj_next mj x = map_option maj_next (mj x)"

text \<open>The minor blocks \<open>ms\<close> of the major block at \<open>a\<close> with \<open>sz\<close> bytes.\<close>

definition minors_ok :: "(u32 \<Rightarrow> liballoc_minor option) \<Rightarrow> u32 \<Rightarrow> nat \<Rightarrow> u32 list \<Rightarrow> bool" where
  "minors_ok mi a sz ms \<longleftrightarrow> chain (mi_prev mi) (mi_next mi) 0 ms 0 \<and>
     (\<forall>m\<in>set ms. \<exists>n. mi m = Some n \<and> block n = a \<and> magic n = LIBALLOC_MAGIC \<and>
        unat (req_size n) + 32 \<le> unat (min_size n)) \<and>
     laid mi (unat a + 24) (unat a + sz) ms"

definition block_ok :: "liballoc_major \<Rightarrow> (u32 \<Rightarrow> liballoc_minor option) \<Rightarrow> nat set \<Rightarrow> u32 \<Rightarrow> u32 list \<Rightarrow> bool" where
  "block_ok r mi A a ms \<longleftrightarrow> first r = hdd ms 0 \<and> 4096 dvd unat a \<and> 0x800000 \<le> unat a \<and> 0 < unat (pages r) \<and>
     unat (maj_size r) = 4096 * unat (pages r) \<and> unat a + unat (maj_size r) \<le> 2 ^ 32 \<and>
     {unat a div 4096..<unat a div 4096 + unat (pages r)} \<subseteq> A \<and>
     minors_ok mi a (unat (maj_size r)) ms \<and> unat (usage r) = 24 + used mi ms"

definition frames_of :: "(u32 \<Rightarrow> liballoc_major option) \<Rightarrow> u32 \<Rightarrow> nat set" where
  "frames_of mj a = {unat a div 4096..<unat a div 4096 + unat (pages (the (mj a)))}"

type_synonym blocks = "(u32 \<times> u32 list) list"

text \<open>All the minor blocks of the heap, and the bytes one occupies.\<close>

definition live :: "blocks \<Rightarrow> u32 set" where
  "live bs = (\<Union>(a, ms)\<in>set bs. set ms)"

definition minor_bytes :: "(u32 \<Rightarrow> liballoc_minor option) \<Rightarrow> u32 \<Rightarrow> nat set" where
  "minor_bytes mi m = {unat m..<unat m + 24 + size_of mi m}"

text \<open>
  The pointer a client gets for the minor block at \<open>m\<close>: the first multiple of 16 that leaves 16 bytes
  behind the header; the byte 16 in front of it holds the distance to the header's end.
\<close>

definition user_ptr :: "u32 \<Rightarrow> u32" where
  "user_ptr m = of_nat ((unat m + 40 + 15) div 16 * 16)"

definition tag_of :: "u32 \<Rightarrow> u8" where
  "tag_of m = of_nat (unat (user_ptr m) - (unat m + 24))"

definition tagged :: "mem \<Rightarrow> u32 \<Rightarrow> bool" where
  "tagged k m \<longleftrightarrow> k (user_ptr m - 16) = tag_of m"

definition blocks_ok ::
    "(u32 \<Rightarrow> liballoc_major option) \<Rightarrow> (u32 \<Rightarrow> liballoc_minor option) \<Rightarrow> nat set \<Rightarrow> blocks \<Rightarrow> bool" where
  "blocks_ok mj mi A bs \<longleftrightarrow>
     chain (mj_prev mj) (mj_next mj) 0 (map fst bs) 0 \<and> distinct (map fst bs) \<and>
     (\<forall>(a, ms)\<in>set bs. \<exists>r. mj a = Some r \<and> block_ok r mi A a ms) \<and>
     (\<forall>a\<in>fst ` set bs. \<forall>b\<in>fst ` set bs. a \<noteq> b \<longrightarrow> frames_of mj a \<inter> frames_of mj b = {})"

definition heap_ok :: "'a liballoc_scheme \<Rightarrow> blocks \<Rightarrow> bool" where
  "heap_ok s bs \<longleftrightarrow> hooks_inv s \<and> l_pageSize s = 4096 \<and> l_pageCount s = 16 \<and>
     blocks_ok (majors s) (minors s) (allocated s) bs \<and> l_memRoot s = hdd (map fst bs) 0 \<and>
     (l_bestBet s = 0 \<or> l_bestBet s \<in> fst ` set bs) \<and> (\<forall>m\<in>live bs. tagged (kmem s) m)"

definition heap_inv :: "'a liballoc_scheme \<Rightarrow> blocks \<Rightarrow> bool" where
  "heap_inv s bs \<longleftrightarrow> heap_ok s bs \<and> (\<forall>(a, ms)\<in>set bs. ms \<noteq> [])"

lemma block_okD:
  assumes "block_ok r mi A a ms"
  shows "first r = hdd ms 0" "4096 dvd unat a" "0x800000 \<le> unat a" "0 < unat (pages r)"
    "unat (maj_size r) = 4096 * unat (pages r)" "unat a + unat (maj_size r) \<le> 2 ^ 32"
    "{unat a div 4096..<unat a div 4096 + unat (pages r)} \<subseteq> A"
    "chain (mi_prev mi) (mi_next mi) 0 ms 0"
    "m \<in> set ms \<Longrightarrow> \<exists>n. mi m = Some n \<and> block n = a \<and> magic n = LIBALLOC_MAGIC \<and>
       unat (req_size n) + 32 \<le> unat (min_size n)"
    "laid mi (unat a + 24) (unat a + unat (maj_size r)) ms"
    "unat (usage r) = 24 + used mi ms" "distinct ms"
  using assms laid_distinct [of mi "unat a + 24" "unat a + unat (maj_size r)" ms]
  unfolding block_ok_def minors_ok_def by blast+

lemma blocks_okD:
  assumes "blocks_ok mj mi A bs"
  shows "chain (mj_prev mj) (mj_next mj) 0 (map fst bs) 0" "distinct (map fst bs)"
    "(a, ms) \<in> set bs \<Longrightarrow> \<exists>r. mj a = Some r \<and> block_ok r mi A a ms"
    "a \<in> fst ` set bs \<Longrightarrow> b \<in> fst ` set bs \<Longrightarrow> a \<noteq> b \<Longrightarrow> frames_of mj a \<inter> frames_of mj b = {}"
  using assms unfolding blocks_ok_def by blast+

lemma heap_okD:
  assumes "heap_ok s bs"
  shows "hooks_inv s" "l_pageSize s = 4096" "l_pageCount s = 16"
    "blocks_ok (majors s) (minors s) (allocated s) bs" "l_memRoot s = hdd (map fst bs) 0"
    "l_bestBet s = 0 \<or> l_bestBet s \<in> fst ` set bs" "m \<in> live bs \<Longrightarrow> tagged (kmem s) m"
  using assms unfolding heap_ok_def by blast+

lemma live_iff: "m \<in> live bs \<longleftrightarrow> (\<exists>a ms. (a, ms) \<in> set bs \<and> m \<in> set ms)"
  by (auto simp: live_def)

text \<open>Minor blocks lie in the pages of their major block, so those of different major blocks are disjoint.\<close>

definition block_bytes :: "(u32 \<Rightarrow> liballoc_major option) \<Rightarrow> u32 \<Rightarrow> nat set" where
  "block_bytes mj a = {unat a..<unat a + 4096 * unat (pages (the (mj a)))}"

lemma block_bytes_disjoint:
  assumes "blocks_ok mj mi A bs" "(a, ms) \<in> set bs" "(b, ns) \<in> set bs" "a \<noteq> b"
  shows "block_bytes mj a \<inter> block_bytes mj b = {}"
proof -
  have al: "4096 dvd unat a" "4096 dvd unat b"
    using blocks_okD(3) [OF assms(1,2)] blocks_okD(3) [OF assms(1,3)] block_okD(2) by blast+
  have fr: "frames_of mj a \<inter> frames_of mj b = {}"
    using blocks_okD(4) [OF assms(1), of a b] assms(2-4) by force
  have "x div 4096 \<in> frames_of mj c" if "x \<in> block_bytes mj c" "4096 dvd unat c" for x c
  proof -
    obtain q where q: "unat c = 4096 * q" using \<open>4096 dvd unat c\<close> by blast
    then have "4096 * q \<le> x" "x < 4096 * (q + unat (pages (the (mj c))))"
      using that(1) by (auto simp: block_bytes_def)
    then have "q \<le> x div 4096" "x div 4096 < q + unat (pages (the (mj c)))"
      by (simp_all add: less_eq_div_iff_mult_less_eq div_less_iff_less_mult mult.commute)
    then show ?thesis using q by (simp add: frames_of_def)
  qed
  then show ?thesis using fr al by blast
qed

lemma block_of_minor:
  assumes "blocks_ok mj mi A bs" "(a, ms) \<in> set bs" "m \<in> set ms"
  shows "minor_bytes mi m \<subseteq> block_bytes mj a" "unat a + 24 \<le> unat m" "32 \<le> size_of mi m"
    "unat m + 24 + size_of mi m \<le> 2 ^ 32" "0x800000 \<le> unat m"
proof -
  obtain r where r: "mj a = Some r" "block_ok r mi A a ms" using blocks_okD(3) [OF assms(1,2)] by blast
  note D = block_okD [OF r(2)]
  have b: "unat a + 24 \<le> unat m" "unat m + 24 + size_of mi m \<le> unat a + unat (maj_size r)"
    using laid_bounds [OF D(10) assms(3)] by simp_all
  then show "minor_bytes mi m \<subseteq> block_bytes mj a" using r(1) D(5) by (auto simp: minor_bytes_def block_bytes_def)
  show "32 \<le> size_of mi m" using D(9) [OF assms(3)] by (auto simp: size_of_def)
  show "unat a + 24 \<le> unat m" "unat m + 24 + size_of mi m \<le> 2 ^ 32" "0x800000 \<le> unat m"
    using b D(3,6) by linarith+
qed

lemma live_disjoint:
  assumes ok: "blocks_ok mj mi A bs" and x: "x \<in> live bs" "y \<in> live bs" "x \<noteq> y"
  shows "minor_bytes mi x \<inter> minor_bytes mi y = {}"
proof -
  obtain a ms b ns where ab: "(a, ms) \<in> set bs" "x \<in> set ms" "(b, ns) \<in> set bs" "y \<in> set ns"
    using x by (auto simp: live_iff)
  show ?thesis
  proof (cases "a = b")
    case False
    then show ?thesis
      using block_bytes_disjoint [OF ok ab(1,3)] block_of_minor(1) [OF ok ab(1,2)] block_of_minor(1) [OF ok ab(3,4)]
      by blast
  next
    case True
    then have "ms = ns" using ab blocks_okD(2) [OF ok] by (metis eq_key_imp_eq_value)
    obtain r where r: "block_ok r mi A a ms" using blocks_okD(3) [OF ok ab(1)] by blast
    obtain us vs where ms: "ms = us @ x # vs" using ab(2) split_list by metis
    then have "y \<in> set (us @ vs)" using ab(4) \<open>ms = ns\<close> x(3) by auto
    then show ?thesis
      using laid_disjoint [of mi _ _ us x vs y] block_okD(10) [OF r] ms by (auto simp: minor_bytes_def)
  qed
qed

lemma minor_owner:
  assumes ok: "blocks_ok mj mi A bs" and x: "(a, ms) \<in> set bs" "(b, ns) \<in> set bs" "m \<in> set ms" "m \<in> set ns"
  shows "a = b"
proof (rule ccontr)
  assume "a \<noteq> b"
  moreover have "unat m \<in> minor_bytes mi m" by (simp add: minor_bytes_def)
  ultimately show False
    using block_bytes_disjoint [OF ok x(1,2)] block_of_minor(1) [OF ok x(1,3)] block_of_minor(1) [OF ok x(2,4)] by blast
qed

section \<open>Addresses inside a block\<close>

lemma round_16: "(x + 15) div 16 * 16 = (if x mod 16 = 0 then x else x + (16 - x mod 16))" for x :: nat
proof -
  obtain q r where x: "x = 16 * q + r" "r < 16"
    by (metis mod_less_divisor mult_div_mod_eq zero_less_numeral)
  have "(x + 15) div 16 = q + (r + 15) div 16" unfolding x(1) by (simp add: add.assoc)
  moreover have "(r + 15) div 16 = (if r = 0 then 0 else 1)" using x(2) by (auto simp: div_if)
  moreover have "x mod 16 = r" using x by simp
  ultimately show ?thesis using x by simp
qed

lemma user_ptr_bounds:
  assumes "unat m + 56 \<le> 2 ^ 32"
  shows "unat (user_ptr m) = (unat m + 55) div 16 * 16" "unat m + 40 \<le> unat (user_ptr m)"
    "unat (user_ptr m) \<le> unat m + 55" "16 dvd unat (user_ptr m)"
proof -
  have le: "(unat m + 55) div 16 * 16 \<le> unat m + 55" by (rule div_times_less_eq_dividend)
  then have "(unat m + 55) div 16 * 16 < 2 ^ 32" using assms by linarith
  then show eq: "unat (user_ptr m) = (unat m + 55) div 16 * 16"
    unfolding user_ptr_def by (subst unat_of_nat_small) (simp_all add: add.assoc)
  have "unat m + 40 \<le> (unat m + 55) div 16 * 16" using round_16 [of "unat m + 40"] by (simp split: if_splits)
  then show "unat m + 40 \<le> unat (user_ptr m)" unfolding eq by linarith
  show "unat (user_ptr m) \<le> unat m + 55" using eq le by simp
  show "16 dvd unat (user_ptr m)" unfolding eq by simp
qed

lemma tag_addr:
  assumes "unat m + 56 \<le> 2 ^ 32"
  shows "unat (user_ptr m - 16) = unat (user_ptr m) - 16" "unat m + 24 \<le> unat (user_ptr m - 16)"
    "unat (user_ptr m - 16) < unat m + 40" "unat (tag_of m) = unat (user_ptr m) - (unat m + 24)"
proof -
  note b = user_ptr_bounds [OF assms]
  show eq: "unat (user_ptr m - 16) = unat (user_ptr m) - 16"
    using b(2) by (subst unat_sub) (auto simp: word_le_nat_alt)
  show "unat m + 24 \<le> unat (user_ptr m - 16)" "unat (user_ptr m - 16) < unat m + 40"
    using eq b(2,3) by linarith+
  show "unat (tag_of m) = unat (user_ptr m) - (unat m + 24)"
    unfolding tag_of_def using b(3) by (subst unat_of_nat_small) simp_all
qed

lemma ALIGN_eq:
  assumes "unat m + 56 \<le> 2 ^ 32"
  shows "ALIGN (m + 24) s = (user_ptr m, s\<lparr>kmem := (kmem s)(user_ptr m - 16 := tag_of m)\<rparr>)"
proof -
  let ?p = "m + 40"
  have p: "unat ?p = unat m + 40" using assms by (simp add: unat_word_ariths)
  have "?p AND 15 = take_bit 4 ?p" by (simp add: take_bit_eq_mask mask_eq_exp_minus_1)
  then have d: "unat (?p AND 15) = (unat m + 40) mod 16"
    using p by (simp add: take_bit_eq_mod unat_mod)
  note b = user_ptr_bounds [OF assms] and t = tag_addr [OF assms]
  have e: "m + 24 + 16 = ?p" "(16 :: u32) - 1 = 15" by simp_all
  show ?thesis
  proof (cases "?p AND 15 = 0")
    case True
    then have "(unat m + 40) mod 16 = 0" using d by simp
    then have "unat (user_ptr m) = unat m + 40" unfolding b(1) using round_16 [of "unat m + 40"] by (simp add: add.commute)
    then have "user_ptr m = ?p" using p by (metis unat_eq_iff)
    moreover from this have "tag_of m = 16" unfolding tag_of_def by (simp add: p)
    ultimately show ?thesis unfolding ALIGN_def e Let_def by (simp add: True)
  next
    case False
    then have nz: "(unat m + 40) mod 16 \<noteq> 0" using d by (metis unat_eq_zero)
    then have u: "unat (user_ptr m) = unat m + 40 + (16 - (unat m + 40) mod 16)"
      unfolding b(1) using round_16 [of "unat m + 40"] by (simp add: add.commute)
    have d16: "unat (16 - (?p AND 15)) = 16 - (unat m + 40) mod 16"
      using d by (subst unat_sub) (auto simp: word_le_nat_alt)
    have "unat (?p + (16 - (?p AND 15))) = unat (user_ptr m)"
      using u d16 p b(3) assms by (subst unat_add_less) simp_all
    then have ptr: "?p + (16 - (?p AND 15)) = user_ptr m" by (metis unat_eq_iff)
    have tag: "unat (16 - (?p AND 15) + 16) = unat (user_ptr m) - (unat m + 24)"
      using d16 u by (subst unat_add_less) simp_all
    have "ucast w = (of_nat (unat w) :: u8)" for w :: u32 by simp
    then have "ucast (16 - (?p AND 15) + 16) = tag_of m"
      unfolding tag_of_def by (rule trans [OF _ arg_cong [OF tag]])
    then show ?thesis unfolding ALIGN_def e Let_def by (simp only: False ptr if_True split_conv not_False_eq_True)
  qed
qed

lemma UNALIGN_eq:
  assumes "unat m + 56 \<le> 2 ^ 32" and "tagged (kmem s) m"
  shows "UNALIGN (user_ptr m) s = m + 24"
proof -
  note b = user_ptr_bounds [OF assms(1)] and t = tag_addr [OF assms(1)]
  let ?t = "tag_of m"
  have lt: "unat ?t < 32" using t(4) b(3) by linarith
  then have "scast ?t = (of_nat (unat ?t) :: u32)"
    using sint_unat_8 [of ?t] by (simp add: scast_eq)
  moreover have "unat (of_nat (unat ?t) :: u32) = unat ?t" using lt by (subst unat_of_nat_small) simp_all
  ultimately have d: "unat (scast ?t :: u32) = unat ?t" by simp
  have "unat (user_ptr m - scast ?t) = unat m + 24"
    using d t(4) b(2) by (subst unat_sub) (auto simp: word_le_nat_alt)
  moreover have "unat (m + 24) = unat m + 24" using assms(1) by (simp add: unat_word_ariths)
  ultimately have "user_ptr m - scast ?t = m + 24" by (metis unat_eq_iff)
  moreover have "(scast ?t :: u32) < 32" using d lt by (simp add: word_less_nat_alt)
  ultimately show ?thesis using assms(2) by (simp add: UNALIGN_def tagged_def Let_def)
qed

end
