(* ===== verification/Liballoc_Place.thy ===== *)
theory Liballoc_Place
  imports Liballoc_Rep
begin

text \<open>
  What the cases of \<open>malloc\<close> have in common: a new minor block is linked in between the minor blocks
  \<open>xs\<close> and \<open>ys\<close> of a major block. \<open>place\<close> is that change of the state; it keeps the representation when there
  is room for the block, and each of the cases 2, 3, 4.1 and 4.2 is an instance of it.
\<close>

section \<open>The change of the headers\<close>

definition set_prev :: "u32 \<Rightarrow> u32 \<Rightarrow> (u32 \<Rightarrow> liballoc_minor option) \<Rightarrow> (u32 \<Rightarrow> liballoc_minor option)" where
  "set_prev x v mi = mi(x := map_option (\<lambda>n. n\<lparr>min_prev := v\<rparr>) (mi x))"

definition set_next :: "u32 \<Rightarrow> u32 \<Rightarrow> (u32 \<Rightarrow> liballoc_minor option) \<Rightarrow> (u32 \<Rightarrow> liballoc_minor option)" where
  "set_next x v mi = mi(x := map_option (\<lambda>n. n\<lparr>min_next := v\<rparr>) (mi x))"

definition data_of :: "(u32 \<Rightarrow> liballoc_minor option) \<Rightarrow> u32 \<Rightarrow> (u32 \<times> u32 \<times> u32 \<times> u32) option" where
  "data_of mi x = map_option (\<lambda>n. (block n, magic n, min_size n, req_size n)) (mi x)"

definition link_in :: "(u32 \<Rightarrow> liballoc_minor option) \<Rightarrow> u32 \<Rightarrow> u32 list \<Rightarrow> u32 \<Rightarrow> u32 list \<Rightarrow> u32 \<Rightarrow> u32 \<Rightarrow>
    (u32 \<Rightarrow> liballoc_minor option)" where
  "link_in mi a xs m ys sz req =
     (let mi = (if xs = [] then mi else set_next (last xs) m mi);
          mi = (if ys = [] then mi else set_prev (hd ys) m mi)
      in mi(m \<mapsto> \<lparr>min_prev = lastd 0 xs, min_next = hdd ys 0, block = a, magic = LIBALLOC_MAGIC,
                  min_size = sz, req_size = req\<rparr>))"

lemma set_fields [simp]:
  "mi_prev (set_next x v mi) = mi_prev mi" "mi_next (set_prev x v mi) = mi_next mi"
  "mi x \<noteq> None \<Longrightarrow> mi_prev (set_prev x v mi) = (mi_prev mi)(x \<mapsto> v)"
  "mi x \<noteq> None \<Longrightarrow> mi_next (set_next x v mi) = (mi_next mi)(x \<mapsto> v)"
  "data_of (set_prev x v mi) = data_of mi" "data_of (set_next x v mi) = data_of mi"
  "set_prev x v mi y = None \<longleftrightarrow> mi y = None" "set_next x v mi y = None \<longleftrightarrow> mi y = None"
  by (auto simp: fun_eq_iff mi_prev_def mi_next_def data_of_def set_prev_def set_next_def option.map_comp comp_def)

lemma upd_fields [simp]:
  "mi_prev (mi(m \<mapsto> n)) = (mi_prev mi)(m \<mapsto> min_prev n)" "mi_next (mi(m \<mapsto> n)) = (mi_next mi)(m \<mapsto> min_next n)"
  "data_of (mi(m \<mapsto> n)) = (data_of mi)(m \<mapsto> (block n, magic n, min_size n, req_size n))"
  by (auto simp: fun_eq_iff mi_prev_def mi_next_def data_of_def)

lemma size_of_data: "data_of mi' x = data_of mi y \<Longrightarrow> size_of mi' x = size_of mi y"
  by (cases "mi' x"; cases "mi y") (auto simp: data_of_def size_of_def)

lemma link_in_fields:
  assumes "\<forall>x\<in>set (xs @ ys). mi x \<noteq> None"
  shows "mi_prev (link_in mi a xs m ys sz req) = (relink_prev (mi_prev mi) ys m)(m \<mapsto> lastd 0 xs)"
    "mi_next (link_in mi a xs m ys sz req) = (relink_next (mi_next mi) xs m)(m \<mapsto> hdd ys 0)"
    "data_of (link_in mi a xs m ys sz req) = (data_of mi)(m \<mapsto> (a, LIBALLOC_MAGIC, sz, req))"
proof -
  have h: "xs \<noteq> [] \<Longrightarrow> mi (last xs) \<noteq> None" "ys \<noteq> [] \<Longrightarrow> mi (hd ys) \<noteq> None"
    using assms by auto
  then show "mi_prev (link_in mi a xs m ys sz req) = (relink_prev (mi_prev mi) ys m)(m \<mapsto> lastd 0 xs)"
    "mi_next (link_in mi a xs m ys sz req) = (relink_next (mi_next mi) xs m)(m \<mapsto> hdd ys 0)"
    by (auto simp: link_in_def relink_prev_def relink_next_def Let_def)
  show "data_of (link_in mi a xs m ys sz req) = (data_of mi)(m \<mapsto> (a, LIBALLOC_MAGIC, sz, req))"
    by (simp add: link_in_def Let_def)
qed

lemma link_in_other: "x \<noteq> m \<Longrightarrow> x \<notin> set (xs @ ys) \<Longrightarrow> link_in mi a xs m ys sz req x = mi x"
  by (cases "xs = []"; cases "ys = []") (auto simp: link_in_def Let_def set_prev_def set_next_def)

lemma minors_ok_data:
  "minors_ok mi a S ms \<longleftrightarrow> chain (mi_prev mi) (mi_next mi) 0 ms 0 \<and>
     (\<forall>m\<in>set ms. \<exists>sz req. data_of mi m = Some (a, LIBALLOC_MAGIC, sz, req) \<and> unat req + 32 \<le> unat sz) \<and>
     laid mi (unat a + 24) (unat a + S) ms"
proof -
  have "(\<exists>n. mi m = Some n \<and> block n = a \<and> magic n = LIBALLOC_MAGIC \<and> unat (req_size n) + 32 \<le> unat (min_size n)) \<longleftrightarrow>
      (\<exists>sz req. data_of mi m = Some (a, LIBALLOC_MAGIC, sz, req) \<and> unat req + 32 \<le> unat sz)" for m
    by (auto simp: data_of_def)
  then show ?thesis by (simp add: minors_ok_def)
qed

lemma minors_ok_cong:
  assumes "\<And>x. x \<in> set ms \<Longrightarrow> mi' x = mi x"
  shows "minors_ok mi' a S ms = minors_ok mi a S ms" "used mi' ms = used mi ms"
proof -
  have "chain (mi_prev mi') (mi_next mi') 0 ms 0 = chain (mi_prev mi) (mi_next mi) 0 ms 0"
    using assms by (intro chain_cong) (simp add: mi_prev_def mi_next_def)
  moreover have "laid mi' (unat a + 24) (unat a + S) ms = laid mi (unat a + 24) (unat a + S) ms" "used mi' ms = used mi ms"
    using size_cong [of ms mi' mi] assms by (simp_all add: size_of_def)
  ultimately show "minors_ok mi' a S ms = minors_ok mi a S ms" "used mi' ms = used mi ms"
    using assms by (simp_all add: minors_ok_def)
qed

lemma block_ok_cong:
  assumes "\<And>x. x \<in> set ms \<Longrightarrow> mi' x = mi x"
  shows "block_ok r mi' A a ms = block_ok r mi A a ms"
  unfolding block_ok_def using minors_ok_cong [of ms mi' mi, OF assms] by auto

text \<open>There is room for a minor block of \<open>sz\<close> bytes at \<open>m\<close> between \<open>xs\<close> and \<open>ys\<close>.\<close>

definition room :: "(u32 \<Rightarrow> liballoc_minor option) \<Rightarrow> u32 \<Rightarrow> nat \<Rightarrow> u32 list \<Rightarrow> u32 \<Rightarrow> u32 list \<Rightarrow> u32 \<Rightarrow> bool" where
  "room mi a S xs m ys sz \<longleftrightarrow> end_of mi (unat a + 24) xs \<le> unat m \<and> unat m + 24 + unat sz \<le> start_of ys (unat a + S)"

lemma minors_ok_link_in:
  assumes ok: "minors_ok mi a S (xs @ ys)" and rm: "room mi a S xs m ys sz" and req: "unat req + 32 \<le> unat sz"
  shows "minors_ok (link_in mi a xs m ys sz req) a S (xs @ m # ys)"
    "used (link_in mi a xs m ys sz req) (xs @ m # ys) = used mi (xs @ ys) + 24 + unat sz"
    "m \<notin> set (xs @ ys)"
proof -
  let ?mi = "link_in mi a xs m ys sz req"
  have laid: "laid mi (unat a + 24) (unat a + S) (xs @ ys)" and ch: "chain (mi_prev mi) (mi_next mi) 0 (xs @ ys) 0"
    using ok by (auto simp: minors_ok_def)
  have "\<forall>x\<in>set (xs @ ys). mi x \<noteq> None" using ok by (auto simp: minors_ok_def)
  note F = link_in_fields [OF this, of a m sz req]
  show fresh: "m \<notin> set (xs @ ys)" using laid_fresh [OF laid] rm by (simp add: room_def)
  have sm: "size_of ?mi m = unat sz" by (simp add: link_in_def size_of_def Let_def)
  have same: "size_of ?mi x = size_of mi x" if "x \<in> set (xs @ ys)" for x
    using that fresh F(3) by (intro size_of_data) auto
  have "laid ?mi (unat a + 24) (unat a + S) (xs @ m # ys)"
    using rm sm same by (intro laid_insert [OF laid]) (auto simp: room_def)
  moreover have "chain (mi_prev ?mi) (mi_next ?mi) 0 (xs @ m # ys) 0"
    unfolding F(1,2) using laid_distinct [OF laid] fresh by (intro chain_insert [OF ch])
  moreover have "\<exists>sz req. data_of ?mi x = Some (a, LIBALLOC_MAGIC, sz, req) \<and> unat req + 32 \<le> unat sz"
    if "x \<in> set (xs @ m # ys)" for x
    using ok that req fresh unfolding F(3) minors_ok_data by (cases "x = m") auto
  ultimately show "minors_ok ?mi a S (xs @ m # ys)" by (simp add: minors_ok_data)
  show "used ?mi (xs @ m # ys) = used mi (xs @ ys) + 24 + unat sz"
    using size_cong [of "xs @ ys" ?mi mi 0 0] same sm by simp
qed

lemma block_ok_link_in:
  assumes ok: "block_ok r mi A a (xs @ ys)" and rm: "room mi a (unat (maj_size r)) xs m ys sz"
    and req: "unat req + 32 \<le> unat sz"
  shows "block_ok (r\<lparr>first := hdd (xs @ [m]) 0, usage := usage r + (sz + 24)\<rparr>) (link_in mi a xs m ys sz req) A a
    (xs @ m # ys)" (is "block_ok ?r ?mi A a _")
proof -
  note D = block_okD [OF ok]
  have mo: "minors_ok mi a (unat (maj_size r)) (xs @ ys)" using ok unfolding block_ok_def by blast
  note L = minors_ok_link_in [OF mo rm req]
  have laid: "laid ?mi (unat a + 24) (unat a + unat (maj_size r)) (xs @ m # ys)" using L(1) by (simp add: minors_ok_def)
  have "24 + used ?mi (xs @ m # ys) \<le> unat (maj_size r)" using used_bound [OF laid] by linarith
  then have lt: "24 + used mi (xs @ ys) + (unat sz + 24) < 2 ^ 32"
    using L(2) unat_less_32 [of "maj_size r"] by simp
  then have "unat (usage r) + unat (sz + 24) = 24 + used mi (xs @ ys) + (unat sz + 24)"
    using D(11) by (subst unat_add_less) simp_all
  then have "unat (usage r + (sz + 24)) = 24 + used mi (xs @ ys) + (unat sz + 24)"
    using lt by (subst unat_add_less) simp_all
  then have "unat (usage ?r) = 24 + used ?mi (xs @ m # ys)" using L(2) by simp
  moreover have "first ?r = hdd (xs @ m # ys) 0" by (cases xs) simp_all
  ultimately show ?thesis using L(1) D(2-7) by (simp add: block_ok_def)
qed

section \<open>The change of the state\<close>

definition place :: "u32 \<Rightarrow> u32 list \<Rightarrow> u32 \<Rightarrow> u32 list \<Rightarrow> u32 \<Rightarrow> u32 \<Rightarrow> 'a liballoc_scheme \<Rightarrow> 'a liballoc_scheme" where
  "place a xs m ys sz req s = s\<lparr>
     majors := (majors s)(a := map_option (\<lambda>r. r\<lparr>first := hdd (xs @ [m]) 0, usage := usage r + (sz + 24)\<rparr>) (majors s a)),
     minors := link_in (minors s) a xs m ys sz req,
     l_inuse := l_inuse s + ucast sz,
     kmem := (kmem s)(user_ptr m - 16 := tag_of m)\<rparr>"

text \<open>Replacing the minor blocks of one major block.\<close>

lemma blocks_ok_update:
  assumes ok: "blocks_ok mj mi A (b1 @ (a, ms) # b2)" and r: "mj a = Some r"
    and r': "maj_prev r' = maj_prev r" "maj_next r' = maj_next r" "pages r' = pages r"
    and new: "block_ok r' mi' A a ms'" and same: "\<forall>x\<in>live (b1 @ b2). mi' x = mi x"
  shows "blocks_ok (mj(a \<mapsto> r')) mi' A (b1 @ (a, ms') # b2)" (is "blocks_ok ?mj mi' A ?bs")
proof -
  note D = blocks_okD [OF ok]
  have links: "mj_prev ?mj = mj_prev mj" "mj_next ?mj = mj_next mj" "frames_of ?mj = frames_of mj"
    using r r' by (auto simp: fun_eq_iff mj_prev_def mj_next_def frames_of_def)
  have "\<exists>r. ?mj c = Some r \<and> block_ok r mi' A c ns" if c: "(c, ns) \<in> set ?bs" for c ns
  proof (cases "c = a")
    case True
    then have "ns = ms'" using c D(2) by force
    then show ?thesis using True new by simp
  next
    case False
    then have cb: "(c, ns) \<in> set (b1 @ b2)" "(c, ns) \<in> set (b1 @ (a, ms) # b2)" using c by auto
    obtain q where q: "mj c = Some q" "block_ok q mi A c ns" using D(3) [OF cb(2)] by blast
    have "mi' x = mi x" if "x \<in> set ns" for x using same cb(1) that live_iff by blast
    then have "block_ok q mi' A c ns" using q(2) block_ok_cong [of ns mi' mi] by simp
    then show ?thesis using q(1) False by simp
  qed
  moreover have "chain (mj_prev ?mj) (mj_next ?mj) 0 (map fst ?bs) 0" "distinct (map fst ?bs)"
    using D(1,2) links by simp_all
  moreover have "fst ` set ?bs = fst ` set (b1 @ (a, ms) # b2)" by auto
  then have "frames_of ?mj c \<inter> frames_of ?mj d = {}" if "c \<in> fst ` set ?bs" "d \<in> fst ` set ?bs" "c \<noteq> d" for c d
    using D(4) [of c d] that links(3) by simp
  ultimately show ?thesis unfolding blocks_ok_def by blast
qed

text \<open>The tag of a new minor block does not overwrite the others.\<close>

lemma tagged_other:
  assumes ok: "blocks_ok mj mi A bs" and x: "x \<in> live bs" "y \<in> live bs" "x \<noteq> y"
  shows "user_ptr x - 16 \<noteq> user_ptr y - 16"
proof -
  have mem: "unat (user_ptr z - 16) \<in> minor_bytes mi z" if lz: "z \<in> live bs" for z
  proof -
    obtain a ms where z: "(a, ms) \<in> set bs" "z \<in> set ms" using lz unfolding live_iff by blast
    note B = block_of_minor [OF ok z]
    have "unat z + 56 \<le> 2 ^ 32" using B(3,4) by linarith
    then show ?thesis using tag_addr(2,3) [of z] B(3) by (auto simp: minor_bytes_def)
  qed
  then show ?thesis using live_disjoint [OF ok x] mem [OF x(1)] mem [OF x(2)] by auto
qed

lemma heap_fields_place [simp]:
  "kmem (place a xs m ys sz req s) = (kmem s)(user_ptr m - 16 := tag_of m)"
  "minors (place a xs m ys sz req s) = link_in (minors s) a xs m ys sz req"
  "l_memRoot (place a xs m ys sz req s) = l_memRoot s" "l_bestBet (place a xs m ys sz req s) = l_bestBet s"
  "l_pageSize (place a xs m ys sz req s) = l_pageSize s" "l_pageCount (place a xs m ys sz req s) = l_pageCount s"
  "allocated (place a xs m ys sz req s) = allocated s" "mmulock (place a xs m ys sz req s) = mmulock s"
  "eflags (place a xs m ys sz req s) = eflags s" "liballoc.more (place a xs m ys sz req s) = liballoc.more s"
  by (simp_all add: place_def allocated_def)

lemma frame_inv_fields [simp]:
  "frame_inv (s\<lparr>kmem := k\<rparr>) = frame_inv s" "frame_inv (s'\<lparr>majors := mj\<rparr>) = frame_inv s'"
  "frame_inv (s'\<lparr>minors := mi\<rparr>) = frame_inv s'" "frame_inv (s'\<lparr>l_inuse := u\<rparr>) = frame_inv s'"
  "pg_inv (s'\<lparr>majors := mj\<rparr>) = pg_inv s'" "pg_inv (s'\<lparr>minors := mi\<rparr>) = pg_inv s'"
  "pg_inv (s'\<lparr>l_inuse := u\<rparr>) = pg_inv s'"
  by (simp_all add: frame_inv_def pf_wf_def allocated_def pg_inv_def)

lemma hooks_inv_tag:
  assumes "hooks_inv s" "0x800000 \<le> unat x"
  shows "hooks_inv (s\<lparr>kmem := (kmem s)(x := b)\<rparr>)"
  using assms pg_inv_store_high(1) [of s x b] by (simp add: hooks_inv_def)

lemma grows_fields [simp]:
  "grows s (t\<lparr>majors := mj\<rparr>) = grows s t" "grows s (t\<lparr>minors := mi\<rparr>) = grows s t" "grows s (t\<lparr>l_inuse := v\<rparr>) = grows s t"
  "grows s (t\<lparr>l_memRoot := r\<rparr>) = grows s t" "grows s (t\<lparr>l_allocated := w\<rparr>) = grows s t" "grows s (t\<lparr>l_warningCount := w\<rparr>) = grows s t"
  "grows s (t\<lparr>l_bestBet := r\<rparr>) = grows s t" "grows s (t\<lparr>mmulock := k\<rparr>) = grows s t" "grows s (t\<lparr>eflags := e\<rparr>) = grows s t"
  "grows (s\<lparr>l_bestBet := r\<rparr>) t = grows s t" "grows (s\<lparr>mmulock := k\<rparr>) t = grows s t" "grows (s\<lparr>eflags := e\<rparr>) t = grows s t"
  by (simp_all add: grows_def allocated_def mapped_pages_def paging_on_def)

lemma grows_place:
  assumes "hooks_inv s" "0x800000 \<le> unat m" "unat m + 56 \<le> 2 ^ 32"
  shows "grows s (place a xs m ys sz req s)"
proof -
  let ?k = "(kmem s)(user_ptr m - 16 := tag_of m)"
  have "0x800000 \<le> unat (user_ptr m - 16)" using tag_addr(2) [OF assms(3)] assms(2) by simp
  then have "same_low (kmem s) ?k" by (auto simp: same_low_def)
  from grows_store [OF assms(1) this] have "grows s (s\<lparr>kmem := ?k\<rparr>)" .
  then show ?thesis by (simp add: place_def grows_def allocated_def mapped_pages_def paging_on_def)
qed

lemma hooks_inv_place:
  assumes "hooks_inv s" "0x800000 \<le> unat m" "unat m + 56 \<le> 2 ^ 32"
  shows "hooks_inv (place a xs m ys sz req s)"
proof -
  have "0x800000 \<le> unat (user_ptr m - 16)" using tag_addr(2) [OF assms(3)] assms(2) by simp
  from hooks_inv_tag [OF assms(1) this]
  show ?thesis by (simp add: place_def hooks_inv_def frame_inv_def pf_wf_def allocated_def pg_inv_def)
qed

lemma heap_ok_place:
  assumes ok: "heap_ok s (b1 @ (a, xs @ ys) # b2)" and r: "majors s a = Some r"
    and rm: "room (minors s) a (unat (maj_size r)) xs m ys sz" and req: "unat req + 32 \<le> unat sz"
  shows "heap_ok (place a xs m ys sz req s) (b1 @ (a, xs @ m # ys) # b2)" (is "heap_ok ?s ?bs")
    "m \<notin> live (b1 @ (a, xs @ ys) # b2)"
    "\<forall>x\<in>live (b1 @ (a, xs @ ys) # b2). data_of (minors (place a xs m ys sz req s)) x = data_of (minors s) x"
    "data_of (minors (place a xs m ys sz req s)) m = Some (a, LIBALLOC_MAGIC, sz, req)" "grows s (place a xs m ys sz req s)"
proof -
  let ?old = "b1 @ (a, xs @ ys) # b2" and ?mi = "link_in (minors s) a xs m ys sz req"
  note D = heap_okD [OF ok]
  have bo: "block_ok r (minors s) (allocated s) a (xs @ ys)" using blocks_okD(3) [OF D(4)] r by fastforce
  note B = block_ok_link_in [OF bo rm req]
  have mo: "minors_ok (minors s) a (unat (maj_size r)) (xs @ ys)" using bo unfolding block_ok_def by blast
  have hdrs: "\<forall>x\<in>set (xs @ ys). minors s x \<noteq> None" using mo by (auto simp: minors_ok_def)
  have fresh: "m \<notin> set (xs @ ys)" using minors_ok_link_in(3) [OF mo rm req] .
  have in_block: "unat m \<in> block_bytes (majors s) a"
  proof -
    have "m \<in> set (xs @ m # ys)" by simp
    from laid_bounds [OF block_okD(10) [OF B] this] show ?thesis
      using block_okD(5) [OF bo] r by (auto simp: block_bytes_def)
  qed
  have notin: "m \<notin> set ns" if "(c, ns) \<in> set (b1 @ b2)" for c ns
  proof
    assume m: "m \<in> set ns"
    have c: "(c, ns) \<in> set ?old" "(a, xs @ ys) \<in> set ?old" "c \<noteq> a" using that blocks_okD(2) [OF D(4)] by force+
    have "unat m \<in> minor_bytes (minors s) m" by (simp add: minor_bytes_def)
    then show False
      using block_bytes_disjoint [OF D(4) c] block_of_minor(1) [OF D(4) c(1) m] in_block by blast
  qed
  then show live: "m \<notin> live ?old" using fresh by (auto simp: live_iff)
  have other: "x \<notin> set (xs @ ys)" if lx: "x \<in> live (b1 @ b2)" for x
  proof
    assume xa: "x \<in> set (xs @ ys)"
    obtain c ns where c: "(c, ns) \<in> set (b1 @ b2)" "x \<in> set ns" using lx unfolding live_iff by blast
    then have "c = a" using minor_owner [OF D(4) _ _ c(2) xa] by auto
    then show False using c(1) blocks_okD(2) [OF D(4)] by force
  qed
  have same: "\<forall>x\<in>live (b1 @ b2). ?mi x = minors s x"
    using other notin by (auto simp: live_iff intro!: link_in_other) blast+
  have "blocks_ok ((majors s)(a \<mapsto> r\<lparr>first := hdd (xs @ [m]) 0, usage := usage r + (sz + 24)\<rparr>)) ?mi (allocated s) ?bs"
    using B same by (intro blocks_ok_update [OF D(4) r]) simp_all
  then have blocks: "blocks_ok (majors ?s) ?mi (allocated s) ?bs" using r by (simp add: place_def)
  have lv: "live ?bs = insert m (live ?old)" by (auto simp: live_def)
  have mb: "(a, xs @ m # ys) \<in> set ?bs" "m \<in> set (xs @ m # ys)" by simp_all
  note M = block_of_minor [OF blocks mb]
  show "grows s ?s" using M by (intro grows_place [OF D(1)]) linarith+
  have "hooks_inv ?s" using M by (intro hooks_inv_place [OF D(1)]) linarith+
  moreover have "tagged (kmem ?s) x" if "x \<in> live ?bs" for x
    using that tagged_other [OF blocks, of x m] D(7) [of x] lv by (cases "x = m") (auto simp: tagged_def)
  moreover have "fst ` set ?bs = fst ` set ?old" by auto
  ultimately show "heap_ok ?s ?bs" using D blocks by (simp add: heap_ok_def)
  show "\<forall>x\<in>live ?old. data_of (minors ?s) x = data_of (minors s) x"
    using live link_in_fields(3) [OF hdrs] by auto
  show "data_of (minors ?s) m = Some (a, LIBALLOC_MAGIC, sz, req)" using link_in_fields(3) [OF hdrs] by simp
qed

end
