(* ===== verification/Liballoc_Malloc.thy ===== *)
theory Liballoc_Malloc
  imports Liballoc_Place
begin

text \<open>
  \<open>malloc\<close> on the representation: each of the cases 2, 3, 4.1 and 4.2 places a minor block where there is
  room, the loops over minor and major blocks end, and a new major block is appended when no block
  has room.
\<close>

section \<open>The cases\<close>

lemma unat_diff_eq:
  assumes "n \<le> m" "m - n < 2 ^ 32"
  shows "unat (of_nat m - of_nat n :: u32) = m - n"
proof -
  have "of_nat m - of_nat n = (of_nat (m - n) :: u32)" using assms(1) by (simp only: of_nat_diff)
  moreover have "unat (of_nat (m - n) :: u32) = m - n" using assms(2) by (intro unat_of_nat_small) simp
  ultimately show ?thesis by (simp only:)
qed

lemma finish_alloc_eq:
  assumes "majors s a = Some r" "unat m + 56 \<le> 2 ^ 32"
  shows "finish_alloc a m sz s = Some (user_ptr m, s\<lparr>majors := (majors s)(a \<mapsto> r\<lparr>usage := usage r + (sz + 24)\<rparr>),
     l_inuse := l_inuse s + ucast sz, kmem := (kmem s)(user_ptr m - 16 := tag_of m)\<rparr>)"
  using assms by (simp add: finish_alloc_def upd_major_def ALIGN_eq Let_def)

lemma malloc_case2_eq:
  assumes "majors s a = Some r" "unat (a + 24) + 56 \<le> 2 ^ 32"
  shows "malloc_case2 a sz req s = Some (user_ptr (a + 24), place a [] (a + 24) [] sz req s)"
  using assms
  by (simp add: malloc_case2_def upd_major_def finish_alloc_eq place_def link_in_def Let_def)

lemma malloc_case3_eq:
  assumes "majors s a = Some r" "unat (a + 24) + 56 \<le> 2 ^ 32" "first r = y" "minors s y = Some n" "y \<noteq> a + 24"
  shows "malloc_case3 a sz req s = Some (user_ptr (a + 24), place a [] (a + 24) (y # ys) sz req s)"
  using assms
  by (simp add: malloc_case3_def upd_major_def upd_minor_def finish_alloc_eq place_def link_in_def set_prev_def Let_def)

lemma malloc_case41_eq:
  assumes "majors s a = Some r" "first r = hdd (us @ [x]) 0" "minors s x = Some n"
    "new = x + 24 + min_size n" "unat new + 56 \<le> 2 ^ 32" "x \<noteq> new"
  shows "malloc_case41 a x sz req s = Some (user_ptr new, place a (us @ [x]) new [] sz req s)"
proof -
  have "r\<lparr>first := hdd (us @ [x, new]) 0, usage := v\<rparr> = r\<lparr>usage := v\<rparr>" for v using assms(2) by simp
  then show ?thesis
    using assms
    by (simp add: malloc_case41_def upd_minor_def finish_alloc_eq place_def link_in_def set_next_def Let_def del: hdd_append)
qed

lemma malloc_case42_eq:
  assumes "majors s a = Some r" "first r = hdd (us @ [x]) 0" "minors s x = Some n" "minors s y = Some n'"
    "min_next n = y" "new = x + 24 + min_size n" "unat new + 56 \<le> 2 ^ 32" "x \<noteq> new" "y \<noteq> new" "x \<noteq> y"
  shows "malloc_case42 a x sz req s = Some (user_ptr new, place a (us @ [x]) new (y # ys) sz req s)"
proof -
  have r: "r\<lparr>first := hdd (us @ [x, new]) 0, usage := v\<rparr> = r\<lparr>usage := v\<rparr>" for v using assms(2) by simp
  have mi: "(minors s)(new \<mapsto> N, y \<mapsto> n'\<lparr>min_prev := new\<rparr>, x \<mapsto> n\<lparr>min_next := new\<rparr>) =
      (set_prev y new (set_next x new (minors s)))(new \<mapsto> N)" for N
    using assms by (auto simp: fun_eq_iff set_prev_def set_next_def)
  show ?thesis
    using assms r
    by (simp add: malloc_case42_def upd_minor_def finish_alloc_eq place_def link_in_def Let_def mi [unfolded assms(6), symmetric] del: hdd_append)
qed

section \<open>The search in one major block\<close>

text \<open>The outcome of the search in the block at \<open>a\<close> with the minor blocks \<open>ms\<close>.\<close>

definition finds :: "u32 \<Rightarrow> nat \<Rightarrow> u32 list \<Rightarrow> u32 \<Rightarrow> u32 \<Rightarrow> 'a liballoc_scheme \<Rightarrow>
    ((u32 \<times> 'a liballoc_scheme) + unit) option \<Rightarrow> bool" where
  "finds a S ms sz req s res \<longleftrightarrow> res = Some (Inr ()) \<and> ms \<noteq> [] \<or>
     (\<exists>xs m ys. ms = xs @ ys \<and> room (minors s) a S xs m ys sz \<and> res = Some (Inl (user_ptr m, place a xs m ys sz req s)))"

lemma findsI:
  "ms = xs @ ys \<Longrightarrow> room (minors s) a S xs m ys sz \<Longrightarrow> res = Some (Inl (user_ptr m, place a xs m ys sz req s)) \<Longrightarrow>
   finds a S ms sz req s res"
  unfolding finds_def by blast

text \<open>What the proofs use of a block: the addresses in natural numbers.\<close>

lemma block_okN:
  assumes ok: "block_ok r mi A a (us @ x # vs)"
  obtains n where "mi x = Some n" "min_next n = hdd vs 0" "x \<noteq> 0" "unat a + 24 \<le> unat x"
    "unat x + 24 + unat (min_size n) \<le> start_of vs (unat a + unat (maj_size r))"
    "start_of vs (unat a + unat (maj_size r)) \<le> 2 ^ 32"
    "end_of mi (unat a + 24) (us @ [x]) = unat x + 24 + unat (min_size n)" "hdd vs 0 = 0 \<longleftrightarrow> vs = []"
proof -
  note D = block_okD [OF ok]
  obtain n where n: "mi x = Some n" using D(9) [of x] by auto
  have sz: "size_of mi x = unat (min_size n)" using n by (simp add: size_of_def)
  have l: "laid mi (unat x + 24 + unat (min_size n)) (unat a + unat (maj_size r)) vs"
    using D(10) sz by (simp add: laid_append)
  have lo: "unat a + 24 \<le> unat y" if "y \<in> set (us @ x # vs)" for y using laid_bounds [OF D(10) that] by simp
  then have nz: "y \<noteq> 0" if "y \<in> set (us @ x # vs)" for y using that D(3) by fastforce
  show thesis
  proof (rule that [OF n])
    show "min_next n = hdd vs 0" using chain_middle [OF D(8)] n by (simp add: mi_next_def)
    show "hdd vs 0 = 0 \<longleftrightarrow> vs = []" using nz by (cases vs) auto
    show "start_of vs (unat a + unat (maj_size r)) \<le> 2 ^ 32" using laid_start [OF l] D(6) by linarith
  qed (use nz lo sz laid_start [OF l] in auto)
qed

lemma malloc_case4_ok:
  assumes "block_ok r (minors s) A a (us @ vs)" "majors s a = Some r" "us @ vs \<noteq> []"
    and sz: "32 \<le> unat sz" "unat sz + 24 < 2 ^ 32"
  shows "finds a (unat (maj_size r)) (us @ vs) sz req s (malloc_case4 a (hdd vs 0) sz req s)"
  using assms(1,3)
proof (induction vs arbitrary: us)
  case Nil
  then show ?case by (subst malloc_case4.simps) (simp add: finds_def)
next
  case (Cons x vs)
  let ?S = "unat (maj_size r)"
  obtain n where n: "minors s x = Some n" "min_next n = hdd vs 0" "x \<noteq> 0" "unat a + 24 \<le> unat x"
      "unat x + 24 + unat (min_size n) \<le> start_of vs (unat a + ?S)" "start_of vs (unat a + ?S) \<le> 2 ^ 32"
      "end_of (minors s) (unat a + 24) (us @ [x]) = unat x + 24 + unat (min_size n)" "hdd vs 0 = 0 \<longleftrightarrow> vs = []"
    by (rule block_okN [OF Cons.prems(1)])
  let ?e = "unat x + 24 + unat (min_size n)" and ?new = "x + 24 + min_size n"
  have s24: "unat (sz + 24) = unat sz + 24" using sz by (subst unat_add_less) simp_all
  have rec: "finds a ?S (us @ x # vs) sz req s (malloc_case4 a (hdd vs 0) sz req s)"
    using Cons.IH [of "us @ [x]"] Cons.prems by simp
  have fst_eq: "first r = hdd (us @ [x]) 0" using block_okD(1) [OF Cons.prems(1)] by (cases us) auto
  have room_fits: "room (minors s) a ?S (us @ [x]) ?new vs sz \<and> unat ?new = ?e \<and> unat ?new + 56 \<le> 2 ^ 32 \<and> x \<noteq> ?new"
    if fits: "unat sz + 24 \<le> start_of vs (unat a + ?S) - ?e"
  proof -
    have le: "?e + 24 + unat sz \<le> 2 ^ 32" using fits n(6) sz by linarith
    have "unat (x + 24) = unat x + 24" using le by (subst unat_add_less) simp_all
    then have e: "unat ?new = ?e" using le by (subst unat_add_less) simp_all
    have "x \<noteq> ?new"
    proof
      assume "x = ?new"
      then have "unat x = unat ?new" by (rule arg_cong)
      then show False using e by linarith
    qed
    then show ?thesis using n(5,7) fits le sz e by (simp add: room_def)
  qed
  show ?case
  proof (cases vs)
    case Nil
    have "unat (a + maj_size r - x - 24 - min_size n) = unat (of_nat (unat a + ?S) - of_nat ?e :: u32)" by (simp add: algebra_simps)
    also have "\<dots> = unat a + ?S - ?e" using n(4-6) Nil block_okD(6) [OF Cons.prems(1)] by (intro unat_diff_eq) auto
    finally have diff: "unat (a + maj_size r - x - 24 - min_size n) = unat a + ?S - ?e" .
    show ?thesis
    proof (cases "sz + 24 \<le> a + maj_size r - x - 24 - min_size n")
      case True
      then have "unat sz + 24 \<le> start_of vs (unat a + ?S) - ?e" using diff s24 Nil by (simp add: word_le_nat_alt)
      note R = room_fits [OF this]
      have "malloc_case41 a x sz req s = Some (user_ptr ?new, place a (us @ [x]) ?new [] sz req s)"
        using R by (intro malloc_case41_eq [OF assms(2) fst_eq n(1) refl]) simp_all
      then show ?thesis
        using True n(1-3) assms(2) Nil R by (intro findsI [of _ "us @ [x]" "[]"]) (simp_all add: malloc_case4.simps [of a x])
    next
      case False
      then show ?thesis using rec n(1-3) assms(2) Nil by (simp add: malloc_case4.simps [of a x])
    qed
  next
    case (Cons y ys)
    have "unat (y - x - 24 - min_size n) = unat (of_nat (unat y) - of_nat ?e :: u32)" by (simp add: algebra_simps)
    also have "\<dots> = unat y - ?e" using n(5) Cons unat_less_32 [of y] by (intro unat_diff_eq) auto
    finally have diff: "unat (y - x - 24 - min_size n) = unat y - ?e" .
    have y: "y \<noteq> 0" using n(8) Cons by simp
    show ?thesis
    proof (cases "sz + 24 \<le> y - x - 24 - min_size n")
      case True
      then have fits: "unat sz + 24 \<le> start_of vs (unat a + ?S) - ?e" using diff s24 Cons by (simp add: word_le_nat_alt)
      note R = room_fits [OF fits]
      obtain n' where n': "minors s y = Some n'" using block_okD(9) [OF Cons.prems(1), of y] Cons by auto
      have "unat y \<noteq> unat ?new" "unat x < unat y" using R fits Cons n(5) by simp_all
      then have "y \<noteq> ?new" "x \<noteq> y" by auto
      then have "malloc_case42 a x sz req s = Some (user_ptr ?new, place a (us @ [x]) ?new (y # ys) sz req s)"
        using R n(2) Cons by (intro malloc_case42_eq [OF assms(2) fst_eq n(1) n' _ refl]) simp_all
      then show ?thesis
        using True n(1-3) assms(2) Cons R y by (intro findsI [of _ "us @ [x]" "y # ys"]) (simp_all add: malloc_case4.simps [of a x])
    next
      case False
      then show ?thesis using rec n(1-3) assms(2) Cons y by (simp add: malloc_case4.simps [of a x])
    qed
  qed
qed

lemma unat_a24: "block_ok r mi A a ms \<Longrightarrow> unat (a + 24) = unat a + 24"
  using block_okD(4-6) [of r mi A a ms] by (subst unat_add_less) auto

lemma malloc_in_major_ok:
  assumes ok: "block_ok r (minors s) A a ms" and r: "majors s a = Some r"
    and sz: "32 \<le> unat sz" "unat sz + 24 < 2 ^ 32" and fits: "ms = [] \<Longrightarrow> 24 + 24 + unat sz \<le> unat (maj_size r)"
  shows "finds a (unat (maj_size r)) ms sz req s (malloc_in_major a sz req s)"
proof -
  note D = block_okD [OF ok] and a24 = unat_a24 [OF ok]
  have s24: "unat (sz + 24) = unat sz + 24" using sz by (subst unat_add_less) simp_all
  show ?thesis
  proof (cases ms)
    case Nil
    then have "room (minors s) a (unat (maj_size r)) [] (a + 24) [] sz" "unat (a + 24) + 56 \<le> 2 ^ 32"
      using fits a24 D(6) sz by (simp_all add: room_def)
    moreover from this(2) have "malloc_case2 a sz req s = Some (user_ptr (a + 24), place a [] (a + 24) [] sz req s)"
      by (rule malloc_case2_eq [OF r])
    ultimately show ?thesis
      using Nil r D(1) by (intro findsI [of _ "[]" "[]"]) (simp_all add: malloc_in_major_def)
  next
    case (Cons y ys)
    obtain n where n: "minors s y = Some n" "y \<noteq> 0" "unat a + 24 \<le> unat y"
      using block_okN [of r "minors s" A a "[]" y ys] ok Cons by auto
    have "unat (y - a - 24) = unat (of_nat (unat y) - of_nat (unat a + 24) :: u32)" by (simp add: algebra_simps)
    also have "\<dots> = unat y - (unat a + 24)" using n(3) unat_less_32 [of y] by (intro unat_diff_eq) auto
    finally have diff: "unat (y - a - 24) = unat y - (unat a + 24)" .
    show ?thesis
    proof (cases "sz + 24 \<le> y - a - 24")
      case True
      then have le: "unat a + 24 + 24 + unat sz \<le> unat y" using diff s24 n(3) sz by (simp add: word_le_nat_alt)
      then have "y \<noteq> a + 24" using a24 by auto
      moreover have b: "unat (a + 24) + 56 \<le> 2 ^ 32" using a24 le unat_less_32 [of y] sz by simp
      ultimately have "malloc_case3 a sz req s = Some (user_ptr (a + 24), place a [] (a + 24) (y # ys) sz req s)"
        using D(1) Cons n(1) by (intro malloc_case3_eq [OF r]) auto
      moreover have "room (minors s) a (unat (maj_size r)) [] (a + 24) ms sz"
        using le a24 Cons by (simp add: room_def)
      ultimately show ?thesis
        using True r D(1) n(2) Cons by (intro findsI [of _ "[]" ms]) (simp_all add: malloc_in_major_def)
    next
      case False
      then have "malloc_in_major a sz req s = malloc_case4 a (hdd ms 0) sz req s"
        using r D(1) n(2) Cons by (simp add: malloc_in_major_def)
      then show ?thesis using malloc_case4_ok [of r s A a "[]" ms sz req] ok r sz Cons by simp
    qed
  qed
qed

section \<open>A new major block\<close>

lemma only_pages_frame:
  assumes "only_pages s s'"
  shows "majors s' = majors s" "minors s' = minors s" "l_memRoot s' = l_memRoot s" "l_bestBet s' = l_bestBet s"
    "l_pageSize s' = l_pageSize s" "l_pageCount s' = l_pageCount s" "mmulock s' = mmulock s" "eflags s' = eflags s"
    "same_high (kmem s) (kmem s')" "liballoc.more s' = liballoc.more s"
  using assms by (auto simp: only_pages_def only_tables_def)

lemma pages_needed_bounds:
  assumes "l_pageSize s = 4096" "l_pageCount s = 16" "unat sz + 48 < 2 ^ 32"
  shows "unat sz + 48 \<le> 4096 * unat (pages_needed sz s)" "16 \<le> unat (pages_needed sz s)"
    "unat (pages_needed sz s) \<le> 2 ^ 20"
proof -
  let ?t = "sz + 24 + 24"
  have "unat (sz + 24) = unat sz + 24" using assms(3) by (subst unat_add_less) simp_all
  then have t: "unat ?t = unat sz + 48" using assms(3) by (subst unat_add_less) simp_all
  let ?q = "unat ?t div 4096"
  have q: "?q < 2 ^ 20" using unat_less_32 [of ?t] by simp
  have dm: "unat ?t = 4096 * ?q + unat ?t mod 4096" by simp
  have w: "unat (?t div 4096) = ?q" "unat (?t div 4096 + 1) = ?q + 1" "?t mod 4096 = 0 \<longleftrightarrow> unat ?t mod 4096 = 0"
    using q by (auto simp: unat_div unat_mod unat_add_less word_unat_eq_iff simp del: unat_eq_iff)
  define st where "st = (if ?t mod 4096 = 0 then ?t div 4096 else ?t div 4096 + 1)"
  have st: "unat ?t \<le> 4096 * unat st" "unat st \<le> 2 ^ 20"
    using w q dm mod_less_divisor [of 4096 "unat ?t"] unfolding st_def by (auto split: if_splits)
  have "pages_needed sz s = (if st < 16 then 16 else st)"
    using assms by (simp add: pages_needed_def st_def Let_def)
  then show "unat sz + 48 \<le> 4096 * unat (pages_needed sz s)" "16 \<le> unat (pages_needed sz s)"
    "unat (pages_needed sz s) \<le> 2 ^ 20"
    using st t by (auto simp: word_less_nat_alt not_less split: if_splits)
qed

text \<open>A fresh major block behind the others.\<close>

definition fresh_major :: "u32 \<Rightarrow> u32 \<Rightarrow> liballoc_major" where
  "fresh_major st p = \<lparr>maj_prev = p, maj_next = 0, pages = st, maj_size = st * 4096, usage = 24, first = 0\<rparr>"

definition link_major :: "(u32 \<Rightarrow> liballoc_major option) \<Rightarrow> u32 list \<Rightarrow> u32 \<Rightarrow> u32 \<Rightarrow> (u32 \<Rightarrow> liballoc_major option)" where
  "link_major mj as a st =
     (let mj = (if as = [] then mj else mj(last as := map_option (\<lambda>r. r\<lparr>maj_next := a\<rparr>) (mj (last as))))
      in mj(a \<mapsto> fresh_major st (lastd 0 as)))"

lemma block_ok_fresh:
  assumes "unat a = 4096 * p" "2048 \<le> p" "16 \<le> unat st" "p + unat st \<le> 2 ^ 20" "{p..<p + unat st} \<subseteq> A"
  shows "block_ok (fresh_major st q) mi A a []" "unat (maj_size (fresh_major st q)) = 4096 * unat st"
proof -
  show sz: "unat (maj_size (fresh_major st q)) = 4096 * unat st"
    using assms by (simp add: fresh_major_def unat_mult_less)
  then show "block_ok (fresh_major st q) mi A a []"
    using assms by (simp add: block_ok_def minors_ok_def fresh_major_def used_def)
qed

lemma blocks_ok_append:
  assumes ok: "blocks_ok mj mi A bs" and new: "unat a = 4096 * p" "2048 \<le> p" "16 \<le> unat st"
      "p + unat st \<le> 2 ^ 20" "{p..<p + unat st} \<inter> A = {}"
  shows "blocks_ok (link_major mj (map fst bs) a st) mi (A \<union> {p..<p + unat st}) (bs @ [(a, [])])"
    (is "blocks_ok ?mj mi ?A ?bs")
proof -
  note D = blocks_okD [OF ok]
  let ?as = "map fst bs"
  have fr: "frames_of mj c \<subseteq> A" "mj c \<noteq> None" if "c \<in> set ?as" for c
  proof -
    obtain ms where "(c, ms) \<in> set bs" using \<open>c \<in> set ?as\<close> by auto
    then obtain r where "mj c = Some r" "block_ok r mi A c ms" using D(3) by blast
    then show "frames_of mj c \<subseteq> A" "mj c \<noteq> None" using block_okD(7) by (auto simp: frames_of_def)
  qed
  have p_in: "p \<in> {p..<p + unat st}" using new(3) by simp
  have a: "a \<notin> set ?as"
  proof
    assume "a \<in> set ?as"
    then obtain ms r where "mj a = Some r" "block_ok r mi A a ms" using D(3) by fastforce
    then have "p \<in> A" using block_okD(4,7) [of r mi A a ms] new(1) by auto
    then show False using new(5) p_in by blast
  qed
  have lst: "bs \<noteq> [] \<Longrightarrow> \<exists>z. mj (last ?as) = Some z" using fr(2) [of "last ?as"] last_in_set [of ?as] by auto
  have pf: "mj_prev ?mj = (mj_prev mj)(a \<mapsto> lastd 0 ?as)" "mj_next ?mj = (relink_next (mj_next mj) ?as a)(a \<mapsto> 0)"
    using lst
    by (auto simp: fun_eq_iff link_major_def mj_prev_def mj_next_def relink_next_def fresh_major_def option.map_comp comp_def Let_def)
  have "chain (mj_prev ?mj) (mj_next ?mj) 0 (?as @ [a]) 0"
    using chain_insert [of "mj_prev mj" "mj_next mj" 0 ?as "[]" 0 a] D(1,2) a unfolding pf by (simp add: relink_prev_def)
  moreover have "distinct (?as @ [a])" using D(2) a by simp
  moreover have "\<exists>r. ?mj c = Some r \<and> block_ok r mi ?A c ms" if c: "(c, ms) \<in> set ?bs" for c ms
  proof (cases "c = a")
    case True
    then have "ms = []" using c a by force
    then show ?thesis using True block_ok_fresh(1) [OF new(1-4), of ?A] by (simp add: link_major_def Let_def)
  next
    case False
    then obtain r where r: "mj c = Some r" "block_ok r mi A c ms" using c D(3) by auto
    then have "block_ok r mi ?A c ms" "block_ok (r\<lparr>maj_next := v\<rparr>) mi ?A c ms" for v
      unfolding block_ok_def by auto
    then show ?thesis using r(1) False by (cases "c = last ?as") (auto simp: link_major_def Let_def)
  qed
  moreover have frames: "frames_of ?mj c = (if c = a then {p..<p + unat st} else frames_of mj c)" if "c \<in> set (?as @ [a])" for c
    using that fr(2) [of c] new(1)
    by (cases "c = a") (auto simp: link_major_def frames_of_def fresh_major_def Let_def)
  have "frames_of ?mj c \<inter> frames_of ?mj d = {}" if "c \<in> set (?as @ [a])" "d \<in> set (?as @ [a])" "c \<noteq> d" for c d
  proof -
    have inA: "frames_of ?mj e \<subseteq> A" "frames_of ?mj e = frames_of mj e" if "e \<in> set (?as @ [a])" "e \<noteq> a" for e
      using that frames [of e] fr(1) [of e] by auto
    have at_a: "frames_of ?mj a = {p..<p + unat st}" using frames [of a] by simp
    consider "c = a" "d \<noteq> a" | "c \<noteq> a" "d = a" | "c \<noteq> a" "d \<noteq> a" using \<open>c \<noteq> d\<close> by blast
    then show ?thesis
    proof cases
      case 3
      then show ?thesis using D(4) [of c d] inA(2) [of c] inA(2) [of d] that by auto
    qed (use inA(1) [of c] inA(1) [of d] at_a new(5) that in blast)+
  qed
  ultimately show ?thesis unfolding blocks_ok_def by auto
qed

text \<open>Appending a fresh block to the heap.\<close>

lemma heap_ok_append:
  assumes ok: "heap_ok s bs" and run: "unat a = 4096 * p" "2048 \<le> p" "free_range s p (unat st)"
      "allocated s1 = allocated s \<union> {p..<p + unat st}" "hooks_inv s1" "only_pages s s1" and st: "16 \<le> unat st"
    and s2: "s2 = s1\<lparr>majors := link_major (majors s) (map fst bs) a st, l_allocated := v, l_memRoot := hdd (map fst bs @ [a]) 0\<rparr>"
  shows "heap_ok s2 (bs @ [(a, [])])"
proof -
  note D = heap_okD [OF ok] and F = only_pages_frame [OF run(6)]
  have fi: "frame_inv s" using D(1) by (simp add: hooks_inv_def)
  have top: "p + unat st \<le> 2 ^ 20" "{p..<p + unat st} \<inter> allocated s = {}"
    using run(3) frame_invD(1) [OF fi] by (auto simp: free_range_def pf_wf_def)
  have "blocks_ok (majors s2) (minors s2) (allocated s2) (bs @ [(a, [])])"
    using blocks_ok_append [OF D(4) run(1,2) st top] run(4) F(2) by (simp add: s2 allocated_def)
  moreover have "tagged (kmem s2) m" if m: "m \<in> live (bs @ [(a, [])])" for m
  proof -
    have lm: "m \<in> live bs" using m by (auto simp: live_iff)
    then obtain c ms where c: "(c, ms) \<in> set bs" "m \<in> set ms" unfolding live_iff by blast
    note M = block_of_minor [OF D(4) c]
    have "unat m + 56 \<le> 2 ^ 32" using M(3,4) by linarith
    then have "0x800000 \<le> unat (user_ptr m - 16)" using tag_addr(2) [of m] M(5) by linarith
    then show ?thesis using D(7) [OF lm] F(9) by (simp add: tagged_def same_high_def s2)
  qed
  moreover have "hooks_inv s2" using run(5) by (simp add: s2 hooks_inv_def frame_inv_def pf_wf_def allocated_def pg_inv_def)
  ultimately show ?thesis using D(2,3,6) F by (auto simp: heap_ok_def s2)
qed

text \<open>The outcome of asking for a new page.\<close>

lemma allocate_new_page_cases:
  assumes ok: "heap_ok s bs" and sz: "unat sz + 48 < 2 ^ 32"
  obtains (null) "allocate_new_page sz s = Some (0, s\<lparr>l_warningCount := l_warningCount s + 1\<rparr>)"
      "no_fit s (unat (pages_needed sz s))"
  | (run) a p s1 where "a \<noteq> 0" "unat a = 4096 * p" "2048 \<le> p" "free_range s p (unat (pages_needed sz s))"
      "allocated s1 = allocated s \<union> {p..<p + unat (pages_needed sz s)}" "hooks_inv s1" "only_pages s s1"
      "allocate_new_page sz s = Some (a, s1\<lparr>majors := (majors s)(a \<mapsto> fresh_major (pages_needed sz s) 0),
         l_allocated := l_allocated s1 + ucast (pages_needed sz s * 4096)\<rparr>)" "grows s s1"
proof -
  note D = heap_okD [OF ok]
  have pos: "0 < unat (pages_needed sz s)" using pages_needed_bounds(2) [OF D(2,3) sz] by linarith
  show thesis
  proof (cases rule: liballoc_alloc_result [OF D(1) pos])
    case 1
    then show thesis using null by (simp add: allocate_new_page_def Let_def)
  next
    case (2 a p s1)
    then show thesis
      using D(2) only_pages_frame [OF 2(9)] only_pages_grows [OF 2(9)]
      by (intro run [of a p s1]) (simp_all add: allocate_new_page_def fresh_major_def Let_def)
  qed
qed

lemma heap_ok_warning [simp]: "heap_ok (s\<lparr>l_warningCount := w\<rparr>) bs = heap_ok s bs"
  by (simp add: heap_ok_def hooks_inv_def frame_inv_def pf_wf_def allocated_def pg_inv_def)

lemma link_new_page_cases:
  assumes ok: "heap_ok s bs" and ne: "bs \<noteq> []" and l: "l = fst (last bs)" and sz: "unat sz + 48 < 2 ^ 32"
  obtains (null) "link_new_page l sz s = Some (0, s\<lparr>l_warningCount := l_warningCount s + 1\<rparr>)"
      "no_fit s (unat (pages_needed sz s))"
  | (run) a r s' where "a \<noteq> 0" "link_new_page l sz s = Some (a, s')" "heap_ok s' (bs @ [(a, [])])" "majors s' a = Some r"
      "unat sz + 48 \<le> unat (maj_size r)" "minors s' = minors s" "mmulock s' = mmulock s" "eflags s' = eflags s"
      "l_bestBet s' = l_bestBet s" "same_high (kmem s) (kmem s')" "liballoc.more s' = liballoc.more s" "grows s s'"
proof -
  note D = heap_okD [OF ok] and B = pages_needed_bounds [OF heap_okD(2,3) [OF ok] sz]
  let ?st = "pages_needed sz s"
  have l_in: "(l, snd (last bs)) \<in> set bs" using l ne by simp
  obtain rl where rl: "majors s l = Some rl" using blocks_okD(3) [OF D(4) l_in] by blast
  have last: "l = last (map fst bs)" using l ne by (simp add: last_map)
  have "map fst bs = butlast (map fst bs) @ [l]" using last ne by simp
  then have nx: "maj_next rl = 0" using chain_middle [of "mj_prev (majors s)" "mj_next (majors s)" 0 "butlast (map fst bs)" l "[]" 0]
      blocks_okD(1) [OF D(4)] rl by (simp add: mj_next_def)
  show thesis
  proof (cases rule: allocate_new_page_cases [OF ok sz])
    case 1
    have "majors s = (majors s)(l \<mapsto> rl\<lparr>maj_next := 0\<rparr>)" using rl nx by (auto simp: fun_eq_iff)
    then have "s\<lparr>l_warningCount := w, majors := (majors s)(l \<mapsto> rl\<lparr>maj_next := 0\<rparr>)\<rparr> = s\<lparr>l_warningCount := w\<rparr>" for w by simp
    then show thesis using 1 rl null by (simp add: link_new_page_def upd_major_def)
  next
    case (2 a p s1)
    note F = only_pages_frame [OF 2(7)]
    have fi: "frame_inv s" using D(1) by (simp add: hooks_inv_def)
    have top: "p + unat ?st \<le> 2 ^ 20" "{p..<p + unat ?st} \<inter> allocated s = {}"
      using 2(4) frame_invD(1) [OF fi] by (auto simp: free_range_def pf_wf_def)
    have "a \<notin> set (map fst bs)" using blocks_okD(2) [OF blocks_ok_append [OF D(4) 2(2,3) B(2) top]] by simp
    then have al: "a \<noteq> l" using l_in by force
    have lm: "link_major (majors s) (map fst bs) a ?st =
        (majors s)(a \<mapsto> fresh_major ?st 0, l \<mapsto> rl\<lparr>maj_next := a\<rparr>, a \<mapsto> (fresh_major ?st 0)\<lparr>maj_prev := l\<rparr>)"
      using last ne rl al by (auto simp: fun_eq_iff link_major_def fresh_major_def lastd_last Let_def)
    let ?s' = "s1\<lparr>majors := link_major (majors s) (map fst bs) a ?st,
       l_allocated := l_allocated s1 + ucast (?st * 4096), l_memRoot := hdd (map fst bs @ [a]) 0\<rparr>"
    have "link_new_page l sz s = Some (a, ?s')"
    proof -
      have "l_memRoot s1 = hdd (map fst bs @ [a]) 0" using D(5) F(3) ne by (cases bs) simp_all
      then have "s1\<lparr>majors := mj, l_allocated := v\<rparr> = s1\<lparr>majors := mj, l_allocated := v, l_memRoot := hdd (map fst bs @ [a]) 0\<rparr>" for mj v
        by simp
      then show ?thesis using 2(1,8) rl al unfolding lm by (simp add: link_new_page_def upd_major_def)
    qed
    moreover have "heap_ok ?s' (bs @ [(a, [])])" by (rule heap_ok_append [OF ok 2(2-7) B(2) refl])
    moreover have "majors ?s' a = Some (fresh_major ?st (lastd 0 (map fst bs)))" by (simp add: link_major_def Let_def)
    moreover have "unat sz + 48 \<le> unat (maj_size (fresh_major ?st (lastd 0 (map fst bs))))"
      using B(1) block_ok_fresh(2) [OF 2(2,3) B(2) top(1) subset_refl] by simp
    ultimately show thesis using 2(1,9) F by (intro run [of a ?s']) simp_all
  qed
qed

section \<open>The search over the major blocks\<close>

definition filled :: "blocks \<Rightarrow> bool" where
  "filled bs \<longleftrightarrow> (\<forall>(a, ms)\<in>set bs. ms \<noteq> [])"

text \<open>
  The two outcomes: a new minor block next to the old ones, which keep their headers' data, or \<open>NULL\<close> because
  the page frame allocator has no run for a new major block.
\<close>

definition placed :: "u32 \<Rightarrow> u32 \<Rightarrow> blocks \<Rightarrow> 'a liballoc_scheme \<Rightarrow> u32 \<Rightarrow> 'a liballoc_scheme \<Rightarrow> bool" where
  "placed sz req bs s p s' \<longleftrightarrow> mmulock s' = mmulock s \<and> eflags s' = eflags s \<and> liballoc.more s' = liballoc.more s \<and> grows s s' \<and>
     (\<exists>a m bs'. p = user_ptr m \<and> same_high ((kmem s)(user_ptr m - 16 := tag_of m)) (kmem s') \<and> heap_ok s' bs' \<and> (filled bs \<longrightarrow> filled bs') \<and> m \<notin> live bs \<and> live bs' = insert m (live bs) \<and>
        (\<forall>x\<in>live bs. data_of (minors s') x = data_of (minors s) x) \<and>
        data_of (minors s') m = Some (a, LIBALLOC_MAGIC, sz, req))"

definition refused :: "u32 \<Rightarrow> blocks \<Rightarrow> 'a liballoc_scheme \<Rightarrow> u32 \<Rightarrow> 'a liballoc_scheme \<Rightarrow> bool" where
  "refused sz bs s p s' \<longleftrightarrow> p = 0 \<and> heap_ok s' bs \<and> minors s' = minors s \<and> mmulock s' = mmulock s \<and> eflags s' = eflags s \<and>
     liballoc.more s' = liballoc.more s \<and> grows s s' \<and> same_high (kmem s) (kmem s') \<and> no_fit s (unat (pages_needed sz s))"

definition served :: "u32 \<Rightarrow> u32 \<Rightarrow> blocks \<Rightarrow> 'a liballoc_scheme \<Rightarrow> (u32 \<times> 'a liballoc_scheme) option \<Rightarrow> bool" where
  "served sz req bs s res \<longleftrightarrow> (\<exists>p s'. res = Some (p, s') \<and> (placed sz req bs s p s' \<or> refused sz bs s p s'))"

lemma placed_cong:
  assumes "minors s = minors t" "mmulock s = mmulock t" "eflags s = eflags t" "same_high (kmem t) (kmem s)"
    "liballoc.more s = liballoc.more t" "grows t s" and p: "placed sz req bs s p s'"
  shows "placed sz req bs t p s'"
proof -
  have "same_high ((kmem s)(x := b)) m \<longleftrightarrow> same_high ((kmem t)(x := b)) m" for x b m
    using assms(4) by (auto simp: same_high_def)
  then show ?thesis using assms(1-3,5) grows_trans [OF assms(6)] p by (auto simp: placed_def)
qed

lemma best_bet_fields [simp]:
  "pages_needed sz (s\<lparr>l_bestBet := b\<rparr>) = pages_needed sz s"
  "no_fit (s\<lparr>l_bestBet := b\<rparr>) k = no_fit s k" "allocated (s\<lparr>l_bestBet := b\<rparr>) = allocated s"
  "hooks_inv (s\<lparr>l_bestBet := b\<rparr>) = hooks_inv s"
  by (simp_all add: pages_needed_def no_fit_def free_range_def byte_fits_def allocated_def
      hooks_inv_def frame_inv_def pf_wf_def pg_inv_def Let_def)

lemma best_bet_outcomes [simp]:
  "placed sz req bs (s\<lparr>l_bestBet := b\<rparr>) p s' = placed sz req bs s p s'"
  "refused sz bs (s\<lparr>l_bestBet := b\<rparr>) p s' = refused sz bs s p s'"
  "served sz req bs (s\<lparr>l_bestBet := b\<rparr>) res = served sz req bs s res"
  by (simp_all add: placed_def refused_def served_def)

lemma heap_ok_best_bet: "heap_ok s bs \<Longrightarrow> b \<in> fst ` set bs \<Longrightarrow> heap_ok (s\<lparr>l_bestBet := b\<rparr>) bs"
  by (simp add: heap_ok_def)

lemma placed_place:
  assumes "heap_ok s (b1 @ (a, xs @ ys) # b2)" "majors s a = Some r" "room (minors s) a (unat (maj_size r)) xs m ys sz"
    "unat req + 32 \<le> unat sz"
  shows "placed sz req (b1 @ (a, xs @ ys) # b2) s (user_ptr m) (place a xs m ys sz req s)"
proof -
  note H = heap_ok_place [OF assms]
  have "live (b1 @ (a, xs @ m # ys) # b2) = insert m (live (b1 @ (a, xs @ ys) # b2))" by (auto simp: live_def)
  moreover have "filled (b1 @ (a, xs @ ys) # b2) \<longrightarrow> filled (b1 @ (a, xs @ m # ys) # b2)" by (auto simp: filled_def)
  ultimately show ?thesis using H unfolding placed_def by (intro conjI exI [of _ a] exI [of _ m] exI) auto
qed

text \<open>The first block of a fresh major block.\<close>

lemma placed_fresh:
  assumes ok: "heap_ok s (bs @ [(a, [])])" and r: "majors s a = Some r" and fit: "unat sz + 48 \<le> unat (maj_size r)"
    and sz: "32 \<le> unat sz" "unat sz + 48 < 2 ^ 32" "unat req + 32 \<le> unat sz"
  shows "\<exists>p s'. malloc_in_major a sz req s = Some (Inl (p, s')) \<and> placed sz req bs s p s'"
proof -
  have bo: "block_ok r (minors s) (allocated s) a []" using blocks_okD(3) [OF heap_okD(4) [OF ok]] r by force
  have "finds a (unat (maj_size r)) [] sz req s (malloc_in_major a sz req s)"
    using sz fit by (intro malloc_in_major_ok [OF bo r]) simp_all
  then obtain m where m: "room (minors s) a (unat (maj_size r)) [] m [] sz"
      "malloc_in_major a sz req s = Some (Inl (user_ptr m, place a [] m [] sz req s))"
    unfolding finds_def by auto
  have ok': "heap_ok s (bs @ (a, [] @ []) # [])" using ok by simp
  note H = heap_ok_place [OF ok' r m(1) sz(3)]
  have "placed sz req bs s (user_ptr m) (place a [] m [] sz req s)"
    unfolding placed_def using H
    by (intro conjI exI [of _ a] exI [of _ m] exI [of _ "bs @ [(a, [m])]"]) (auto simp: live_def filled_def)
  then show ?thesis using m(2) by blast
qed

lemma unat_diff_usage:
  assumes "block_ok r mi A a ms"
  shows "unat (maj_size r - usage r) = unat (maj_size r) - unat (usage r)" "unat (usage r) \<le> unat (maj_size r)"
proof -
  show le: "unat (usage r) \<le> unat (maj_size r)" using used_bound [OF block_okD(10) [OF assms]] block_okD(11) [OF assms] by simp
  then show "unat (maj_size r - usage r) = unat (maj_size r) - unat (usage r)"
    by (subst unat_sub) (simp_all add: word_le_nat_alt)
qed

text \<open>One round of the loop at the block \<open>a\<close>, with the best bet updated.\<close>

definition better :: "u64 \<Rightarrow> u32 \<Rightarrow> u32 \<Rightarrow> 'a liballoc_scheme \<Rightarrow> 'a liballoc_scheme" where
  "better best diff a s = (if best < ucast diff then s\<lparr>l_bestBet := a\<rparr> else s)"

lemma better_fields [simp]:
  "majors (better best diff a s) = majors s" "minors (better best diff a s) = minors s"
  "l_memRoot (better best diff a s) = l_memRoot s" "allocated (better best diff a s) = allocated s"
  "placed sz req bs (better best diff a s) p s' = placed sz req bs s p s'"
  "refused sz bs (better best diff a s) p s' = refused sz bs s p s'"
  "served sz req bs (better best diff a s) res = served sz req bs s res"
  by (simp_all add: better_def)

lemma heap_ok_better: "heap_ok s bs \<Longrightarrow> a \<in> fst ` set bs \<Longrightarrow> heap_ok (better best diff a s) bs"
  by (simp add: better_def heap_ok_best_bet)

lemma malloc_loop_step:
  assumes "a \<noteq> 0" "majors s a = Some r"
  shows "malloc_loop a sb best sz req s =
     (let diff = maj_size r - usage r; s = better best diff a s; best = (if best < ucast diff then ucast diff else best) in
      if diff < sz + 24 \<and> maj_next r \<noteq> 0 then malloc_loop (maj_next r) sb best sz req s
      else if diff < sz + 24 \<and> sb then malloc_loop (l_memRoot s) False best sz req s
      else do { (maj, s) \<leftarrow> (if diff < sz + 24 then link_new_page a sz s else Some (a, s));
                if maj = 0 then Some (0, s)
                else do { res \<leftarrow> malloc_in_major maj sz req s;
                          case res of Inl (p, s) \<Rightarrow> Some (p, s)
                          | Inr _ \<Rightarrow>
                              do { m \<leftarrow> majors s maj;
                                   if maj_next m \<noteq> 0 then malloc_loop (maj_next m) sb best sz req s
                                   else if sb then malloc_loop (l_memRoot s) False best sz req s
                                   else do { (new, s) \<leftarrow> link_new_page maj sz s;
                                             if new = 0 then Some (0, s)
                                             else malloc_loop new sb best sz req s } } } })"
  by (subst malloc_loop.simps) (simp add: assms better_def Let_def)

lemma refused_link:
  assumes "heap_ok s bs" "no_fit s (unat (pages_needed sz s))"
  shows "refused sz bs s 0 (s\<lparr>l_warningCount := w\<rparr>)"
  using assms by (simp add: refused_def)

text \<open>The loop at a fresh block returns in the first round.\<close>

lemma malloc_loop_fresh:
  assumes ok: "heap_ok s (bs @ [(a, [])])" and r: "majors s a = Some r" and a: "a \<noteq> 0"
    and fit: "unat sz + 48 \<le> unat (maj_size r)"
    and sz: "32 \<le> unat sz" "unat sz + 48 < 2 ^ 32" "unat req + 32 \<le> unat sz"
  shows "\<exists>p s'. malloc_loop a sb best sz req s = Some (p, s') \<and> placed sz req bs s p s'"
proof -
  let ?d = "maj_size r - usage r"
  have bo: "block_ok r (minors s) (allocated s) a []" using blocks_okD(3) [OF heap_okD(4) [OF ok]] r by force
  have "unat (usage r) = 24" using block_okD(11) [OF bo] by (simp add: used_def)
  then have "unat ?d = unat (maj_size r) - 24" using unat_diff_usage(1) [OF bo] by simp
  moreover have "unat (sz + 24) = unat sz + 24" using sz by (subst unat_add_less) simp_all
  ultimately have "\<not> ?d < sz + 24" using fit by (simp add: word_less_nat_alt)
  moreover have "heap_ok (better best ?d a s) (bs @ [(a, [])])" by (rule heap_ok_better [OF ok]) simp
  from placed_fresh [OF this _ fit sz]
  obtain p s' where "malloc_in_major a sz req (better best ?d a s) = Some (Inl (p, s'))" "placed sz req bs s p s'"
    using r by auto
  ultimately show ?thesis using a by (simp add: malloc_loop_step [OF a r] Let_def)
qed

lemma served_refused: "refused sz bs s p s' \<Longrightarrow> served sz req bs s (Some (p, s'))"
  by (auto simp: served_def)

lemma served_placed: "\<exists>p s'. res = Some (p, s') \<and> placed sz req bs s p s' \<Longrightarrow> served sz req bs s res"
  by (auto simp: served_def)

text \<open>Asking for a new page at the last block, followed by \<open>k\<close> on the fresh block.\<close>

lemma served_new_page:
  assumes ok: "heap_ok s bs" and last: "bs \<noteq> []" "a = fst (last bs)" and sz: "unat sz + 48 < 2 ^ 32"
    and k: "\<And>c t q. c \<noteq> 0 \<Longrightarrow> heap_ok t (bs @ [(c, [])]) \<Longrightarrow> majors t c = Some q \<Longrightarrow> unat sz + 48 \<le> unat (maj_size q) \<Longrightarrow>
       \<exists>p s'. k c t = Some (p, s') \<and> placed sz req bs t p s'"
  shows "served sz req bs s (do { (c, t) \<leftarrow> link_new_page a sz s; if c = 0 then Some (0, t) else k c t })"
proof (cases rule: link_new_page_cases [OF ok last sz])
  case 1
  then show ?thesis using refused_link [OF ok] by (auto intro!: served_refused)
next
  case (2 c q t)
  obtain p s' where k: "k c t = Some (p, s')" "placed sz req bs t p s'" using k [OF 2(1,3,4,5)] by blast
  have "placed sz req bs s p s'" by (rule placed_cong [OF 2(6-8,10-12) k(2)])
  then show ?thesis using 2(1,2) k(1) by (auto simp: served_def)
qed

lemma served_page_in_major:
  fixes s :: "'a liballoc_scheme"
  assumes ok: "heap_ok s bs" and last: "bs \<noteq> []" "a = fst (last bs)"
    and sz: "32 \<le> unat sz" "unat sz + 48 < 2 ^ 32" "unat req + 32 \<le> unat sz"
  shows "served sz req bs s (do { (c, t) \<leftarrow> link_new_page a sz s; if c = 0 then Some (0, t)
     else do { res \<leftarrow> malloc_in_major c sz req t; case res of Inl (p, s) \<Rightarrow> Some (p, s) | Inr _ \<Rightarrow> k c t } })"
proof (rule served_new_page [OF ok last sz(2)])
  fix c q and t :: "'a liballoc_scheme"
  assume "heap_ok t (bs @ [(c, [])])" "majors t c = Some q" "unat sz + 48 \<le> unat (maj_size q)"
  from placed_fresh [OF this sz]
  show "\<exists>p s'. malloc_in_major c sz req t \<bind> case_sum (\<lambda>(p, s). Some (p, s)) (\<lambda>_. k c t) = Some (p, s') \<and>
      placed sz req bs t p s'" by auto
qed

lemma served_page_loop:
  assumes ok: "heap_ok s bs" and last: "bs \<noteq> []" "a = fst (last bs)"
    and sz: "32 \<le> unat sz" "unat sz + 48 < 2 ^ 32" "unat req + 32 \<le> unat sz"
  shows "served sz req bs s (do { (c, t) \<leftarrow> link_new_page a sz s; if c = 0 then Some (0, t)
     else malloc_loop c sb best sz req t })"
proof (rule served_new_page [OF ok last sz(2)])
  fix c t q
  assume "c \<noteq> 0" "heap_ok t (bs @ [(c, [])])" "majors t c = Some q" "unat sz + 48 \<le> unat (maj_size q)"
  then show "\<exists>p s'. malloc_loop c sb best sz req t = Some (p, s') \<and> placed sz req bs t p s'"
    by (intro malloc_loop_fresh [OF _ _ _ _ sz])
qed

lemma malloc_loop_ok:
  fixes s :: "'a liballoc_scheme"
  assumes sz: "32 \<le> unat sz" "unat sz + 48 < 2 ^ 32" "unat req + 32 \<le> unat sz"
    and again: "sb \<Longrightarrow> \<forall>(s :: 'a liballoc_scheme) best. heap_ok s bs \<longrightarrow> served sz req bs s (malloc_loop (l_memRoot s) False best sz req s)"
  shows "heap_ok s bs \<Longrightarrow> bs = b1 @ b2 \<Longrightarrow> b2 \<noteq> [] \<Longrightarrow>
     served sz req bs s (malloc_loop (hdd (map fst b2) 0) sb best sz req s)"
proof (induction b2 arbitrary: b1 s best)
  case (Cons am b2)
  obtain a ms where am: "am = (a, ms)" by (cases am)
  note D = heap_okD [OF Cons.prems(1)]
  have ain: "(a, ms) \<in> set bs" "a \<in> fst ` set bs" using Cons.prems(2) am by force+
  obtain r where r: "majors s a = Some r" "block_ok r (minors s) (allocated s) a ms" using blocks_okD(3) [OF D(4) ain(1)] by blast
  let ?d = "maj_size r - usage r"
  let ?s = "better best ?d a s" and ?best = "if best < ucast ?d then ucast ?d else best"
  have ok': "heap_ok ?s bs" by (rule heap_ok_better [OF Cons.prems(1) ain(2)])
  have nz: "c \<noteq> 0" if "c \<in> fst ` set bs" for c
    using that blocks_okD(3) [OF D(4)] block_okD(3) by fastforce
  have a0: "a \<noteq> 0" using nz ain(2) by blast
  have nxt: "maj_next r = hdd (map fst b2) 0"
    using chain_middle [of "mj_prev (majors s)" "mj_next (majors s)" 0 "map fst b1" a "map fst b2" 0] blocks_okD(1) [OF D(4)]
      Cons.prems(2) am r(1) by (simp add: mj_next_def)
  have end_iff: "maj_next r = 0 \<longleftrightarrow> b2 = []" using nxt nz Cons.prems(2) by (cases b2) auto
  have rest: "served sz req bs s (malloc_loop (maj_next r) sb ?best sz req ?s)" if "maj_next r \<noteq> 0"
    using Cons.IH [OF ok', of "b1 @ [am]" ?best] Cons.prems(2) that end_iff nxt by simp
  have restart: "served sz req bs s (malloc_loop (l_memRoot s) False ?best sz req ?s)" if sb
    using again [OF that, rule_format, OF ok', of ?best] by (simp only: better_fields)
  have last: "bs \<noteq> []" "b2 = [] \<Longrightarrow> a = fst (last bs)" using Cons.prems(2) am by simp_all
  have s24: "unat (sz + 24) = unat sz + 24" using sz by (subst unat_add_less) simp_all
  show ?case
  proof (cases "?d < sz + 24")
    case True
    note page = served_page_in_major [OF ok' last(1) last(2) sz, unfolded better_fields]
    show ?thesis
    proof (cases "b2 = []")
      case b2: True
      then show ?thesis using True page [OF b2] restart end_iff unfolding am
        by (cases sb) (simp_all add: malloc_loop_step [OF a0 r(1)] Let_def)
    next
      case b2: False
      then show ?thesis using True rest end_iff unfolding am by (simp add: malloc_loop_step [OF a0 r(1)] Let_def)
    qed
  next
    case False
    have bo': "block_ok r (minors ?s) (allocated ?s) a ms" using r(2) by simp
    have "ms = [] \<Longrightarrow> 24 + 24 + unat sz \<le> unat (maj_size r)"
      using False unat_diff_usage [OF r(2)] s24 block_okD(11) [OF r(2)] by (auto simp: word_less_nat_alt used_def)
    then have "finds a (unat (maj_size r)) ms sz req ?s (malloc_in_major a sz req ?s)"
      using r(1) sz by (intro malloc_in_major_ok [OF bo']) simp_all
    then consider "malloc_in_major a sz req ?s = Some (Inr ())"
      | xs m ys where "ms = xs @ ys" "room (minors ?s) a (unat (maj_size r)) xs m ys sz"
          "malloc_in_major a sz req ?s = Some (Inl (user_ptr m, place a xs m ys sz req ?s))"
      unfolding finds_def by blast
    then show ?thesis
    proof cases
      case 1
      note page = served_page_loop [OF ok' last(1) last(2) sz, unfolded better_fields]
      show ?thesis
      proof (cases "b2 = []")
        case b2: True
        then show ?thesis using False 1 page [OF b2] restart end_iff a0 r(1) unfolding am
          by (cases sb) (simp_all add: malloc_loop_step [OF a0 r(1)] Let_def)
      next
        case b2: False
        then show ?thesis using False 1 rest end_iff a0 r(1) unfolding am
          by (simp add: malloc_loop_step [OF a0 r(1)] Let_def)
      qed
    next
      case (2 xs m ys)
      have "placed sz req bs s (user_ptr m) (place a xs m ys sz req ?s)"
        using placed_place [of ?s b1 a xs ys b2 r m sz req] ok' 2(1,2) Cons.prems(2) am r(1) sz(3) by simp
      then show ?thesis using False 2(3) a0 unfolding am
        by (auto simp: malloc_loop_step [OF a0 r(1)] Let_def served_def)
    qed
  qed
qed simp

section \<open>malloc\<close>

lemma malloc_loop_root:
  assumes "32 \<le> unat sz" "unat sz + 48 < 2 ^ 32" "unat req + 32 \<le> unat sz" "heap_ok s bs" "bs \<noteq> []"
  shows "served sz req bs s (malloc_loop (l_memRoot s) False best sz req s)"
  using malloc_loop_ok [OF assms(1-3), of False bs s "[]" bs best] assms(4,5) heap_okD(5) [OF assms(4)] by simp

lemma malloc_loop_bet:
  fixes s :: "'a liballoc_scheme"
  assumes sz: "32 \<le> unat sz" "unat sz + 48 < 2 ^ 32" "unat req + 32 \<le> unat sz" and ok: "heap_ok s bs"
    and b: "b \<in> fst ` set bs"
  shows "served sz req bs s (malloc_loop b True best sz req s)"
proof -
  obtain ms where "(b, ms) \<in> set bs" using b by auto
  then obtain b1 b2 where bs: "bs = b1 @ (b, ms) # b2" using split_list by metis
  have "\<forall>(s :: 'a liballoc_scheme) best. heap_ok s bs \<longrightarrow> served sz req bs s (malloc_loop (l_memRoot s) False best sz req s)"
    using malloc_loop_root [OF sz] bs by blast
  then show ?thesis
    using malloc_loop_ok [OF sz, of True bs s b1 "(b, ms) # b2" best] ok bs by simp
qed

lemma malloc_body_empty:
  assumes sz: "32 \<le> unat sz" "unat sz + 48 < 2 ^ 32" "unat req + 32 \<le> unat sz" and ok: "heap_ok s []"
  shows "served sz req [] s (malloc_body sz req s)"
proof -
  note D = heap_okD [OF ok]
  have root: "l_memRoot s = 0" "l_bestBet s = 0" using D(5,6) by simp_all
  show ?thesis
  proof (cases rule: allocate_new_page_cases [OF ok sz(2)])
    case 1
    let ?w = "s\<lparr>l_warningCount := l_warningCount s + 1\<rparr>"
    have "?w\<lparr>l_memRoot := 0\<rparr> = ?w" using root(1) by (intro liballoc.equality) simp_all
    then have "malloc_body sz req s = Some (0, ?w)" using 1 root by (simp add: malloc_body_def)
    then show ?thesis using served_refused [OF refused_link [OF ok 1(2)]] by simp
  next
    case (2 a p s1)
    let ?st = "pages_needed sz s"
    note F = only_pages_frame [OF 2(7)] and B = pages_needed_bounds [OF D(2,3) sz(2)]
    let ?t = "s1\<lparr>majors := (majors s)(a \<mapsto> fresh_major ?st 0), l_allocated := l_allocated s1 + ucast (?st * 4096), l_memRoot := a\<rparr>"
    have ok': "heap_ok ?t ([] @ [(a, [])])"
      by (rule heap_ok_append [OF ok 2(2-7) B(2)]) (simp add: link_major_def)
    have top: "p + unat ?st \<le> 2 ^ 20"
      using 2(4) D(1) by (auto simp: free_range_def hooks_inv_def frame_inv_def pf_wf_def)
    have "unat sz + 48 \<le> unat (maj_size (fresh_major ?st 0))"
      using B(1) block_ok_fresh(2) [OF 2(2,3) B(2) top subset_refl] by simp
    then obtain q s' where q: "malloc_loop a False 0 sz req ?t = Some (q, s')" "placed sz req [] ?t q s'"
      using malloc_loop_fresh [OF ok' _ 2(1) _ sz, of "fresh_major ?st 0" False 0] by auto
    have "placed sz req [] s q s'" using F 2(9) by (intro placed_cong [OF _ _ _ _ _ _ q(2)]) simp_all
    then show ?thesis using q(1) 2(1,8) root F(4) by (simp add: malloc_body_def served_def)
  qed
qed

lemma malloc_body_ok:
  assumes sz: "32 \<le> unat sz" "unat sz + 48 < 2 ^ 32" "unat req + 32 \<le> unat sz" and ok: "heap_ok s bs"
  shows "served sz req bs s (malloc_body sz req s)"
proof (cases "bs = []")
  case True
  then show ?thesis using malloc_body_empty [OF sz] ok by simp
next
  case False
  note D = heap_okD [OF ok]
  have "l_memRoot s \<noteq> 0"
  proof -
    have "l_memRoot s \<in> fst ` set bs" using D(5) False by (cases bs) auto
    then show ?thesis using blocks_okD(3) [OF D(4)] block_okD(3) by fastforce
  qed
  moreover have "\<exists>r. majors s (l_bestBet s) = Some r" if "l_bestBet s \<noteq> 0"
    using D(6) that blocks_okD(3) [OF D(4)] by fastforce
  moreover have "l_bestBet s \<noteq> 0 \<Longrightarrow> served sz req bs s (malloc_loop (l_bestBet s) True best sz req s)" for best
    using malloc_loop_bet [OF sz ok] D(6) by blast
  ultimately show ?thesis
    using malloc_loop_root [OF sz ok False] by (auto simp: malloc_body_def Let_def)
qed

lemma lock_fields [simp]:
  "heap_ok (s\<lparr>mmulock := l, eflags := e\<rparr>) bs = heap_ok s bs" "pages_needed sz (s\<lparr>mmulock := l, eflags := e\<rparr>) = pages_needed sz s"
  "no_fit (s\<lparr>mmulock := l, eflags := e\<rparr>) k = no_fit s k"
  by (simp_all add: heap_ok_def pages_needed_def no_fit_def free_range_def byte_fits_def allocated_def
      hooks_inv_def frame_inv_def pf_wf_def pg_inv_def Let_def)

text \<open>The body between the lock and the unlock.\<close>

lemma malloc_locked_ok:
  fixes s :: "'a liballoc_scheme"
  assumes sz: "32 \<le> unat sz" "unat sz + 48 < 2 ^ 32" "unat req + 32 \<le> unat sz" and ok: "heap_ok s bs"
    and free: "locked (mmulock s) = 0"
  obtains (null) s' where "malloc_locked sz req s = Some (0, s')" "heap_ok s' bs" "minors s' = minors s"
      "locked (mmulock s') = 0" "eflags s' = eflags s" "no_fit s (unat (pages_needed sz s))" "same_high (kmem s) (kmem s')"
      "liballoc.more s' = liballoc.more s" "grows s s'"
  | (block) a m s' bs' where "malloc_locked sz req s = Some (user_ptr m, s')" "heap_ok s' bs'" "filled bs \<Longrightarrow> filled bs'"
      "m \<notin> live bs" "live bs' = insert m (live bs)" "\<And>x. x \<in> live bs \<Longrightarrow> data_of (minors s') x = data_of (minors s) x"
      "data_of (minors s') m = Some (a, LIBALLOC_MAGIC, sz, req)" "locked (mmulock s') = 0" "eflags s' = eflags s"
      "same_high ((kmem s)(user_ptr m - 16 := tag_of m)) (kmem s')" "liballoc.more s' = liballoc.more s" "grows s s'"
proof -
  obtain q e where lock: "liballoc_lock s = Some (s\<lparr>mmulock := q, eflags := e\<rparr>)"
      "\<forall>t :: 'a liballoc_scheme. mmulock t = q \<longrightarrow> eflags t = e \<longrightarrow>
         (\<exists>q'. liballoc_unlock t = t\<lparr>mmulock := q', eflags := eflags s\<rparr> \<and> locked q' = 0)"
    using liballoc_lock_pair [OF free] by (elim exE conjE)
  let ?s = "s\<lparr>mmulock := q, eflags := e\<rparr>"
  have "served sz req bs ?s (malloc_body sz req ?s)" using ok by (intro malloc_body_ok [OF sz]) simp
  then obtain p t where t: "malloc_body sz req ?s = Some (p, t)" "placed sz req bs ?s p t \<or> refused sz bs ?s p t"
    unfolding served_def by blast
  then have "mmulock t = q" "eflags t = e" by (auto simp: placed_def refused_def)
  then obtain q' where q': "liballoc_unlock t = t\<lparr>mmulock := q', eflags := eflags s\<rparr>" "locked q' = 0" using lock(2) by blast
  have run: "malloc_locked sz req s = Some (p, t\<lparr>mmulock := q', eflags := eflags s\<rparr>)"
    using lock(1) t(1) q'(1) by (simp add: malloc_locked_def)
  show thesis
  proof (cases "placed sz req bs ?s p t")
    case True
    then obtain a m bs' where "p = user_ptr m" "heap_ok t bs'" "filled bs \<Longrightarrow> filled bs'" "m \<notin> live bs"
        "live bs' = insert m (live bs)" "\<forall>x\<in>live bs. data_of (minors t) x = data_of (minors s) x"
        "data_of (minors t) m = Some (a, LIBALLOC_MAGIC, sz, req)"
        "same_high ((kmem s)(user_ptr m - 16 := tag_of m)) (kmem t)" "liballoc.more t = liballoc.more s" "grows s t"
      by (auto simp: placed_def)
    then show thesis using run q'(2) by (intro block [of m "t\<lparr>mmulock := q', eflags := eflags s\<rparr>" bs' a]) simp_all
  next
    case False
    then have "refused sz bs ?s p t" using t(2) by blast
    then show thesis using run q'(2) by (intro null [of "t\<lparr>mmulock := q', eflags := eflags s\<rparr>"]) (simp_all add: refused_def)
  qed
qed

lemma minor_bytes_data: "data_of mi' x = data_of mi x \<Longrightarrow> minor_bytes mi' x = minor_bytes mi x"
  using size_of_data by (metis minor_bytes_def)

lemma heap_inv_filled: "heap_inv s bs \<longleftrightarrow> heap_ok s bs \<and> filled bs"
  by (simp add: heap_inv_def filled_def)

section \<open>Properties\<close>

text \<open>The sample state of the hooks with an empty heap, for the witnesses.\<close>

definition sample_liballoc :: liballoc where
  "sample_liballoc = \<lparr>kinfo_of = kinfo_of sample_hooks, phys_mem_upper = phys_mem_upper sample_hooks,
     heap_cur = heap_cur sample_hooks, kmem = kmem sample_hooks, is_initialized = is_initialized sample_hooks,
     pageframe_bitmap = pageframe_bitmap sample_hooks, pages_total_phys = pages_total_phys sample_hooks,
     kernel_page_directory = kernel_page_directory sample_hooks,
     allocated_page_tables = allocated_page_tables sample_hooks, cr0 = cr0 sample_hooks, cr3 = cr3 sample_hooks,
     mmulock = mmulock sample_hooks, eflags = eflags sample_hooks, majors = \<lambda>_. None, minors = \<lambda>_. None,
     l_memRoot = 0, l_bestBet = 0, l_pageSize = 4096, l_pageCount = 16, l_allocated = 0, l_inuse = 0,
     l_warningCount = 0, l_errorCount = 0, l_possibleOverruns = 0\<rparr>"

lemma sample_liballoc_inv [simp]: "heap_inv sample_liballoc []" "locked (mmulock sample_liballoc) = 0"
proof -
  have "hooks_inv sample_liballoc"
    using sample_hooks_inv(1)
    by (simp add: hooks_inv_def frame_inv_def pf_wf_def allocated_def pg_inv_def sample_liballoc_def)
  then show "heap_inv sample_liballoc []"
    by (simp add: heap_inv_def heap_ok_def blocks_ok_def live_def sample_liballoc_def)
  show "locked (mmulock sample_liballoc) = 0" by (simp add: sample_liballoc_def sample_hooks_def)
qed

lemma sample_liballoc_fits: "\<not> no_fit sample_liballoc 16"
proof -
  have "free_range sample_liballoc 2056 16"
    by (auto simp: free_range_def sample_liballoc_def sample_hooks_def allocated_def bits_of_iff nth_append nth_Cons' split: if_splits)
  then show ?thesis by (auto simp: no_fit_def)
qed

text \<open>
  C1. \<open>malloc\<close> on a well-formed heap with a free lock and a request that does not overflow the size
  computation always returns, with the heap well formed, the lock free and the flags restored. It
  returns \<open>NULL\<close> only when the page frame allocator has no run of the pages a new block needs, and then
  the heap is as before. Otherwise the pointer is a multiple of 16, the requested bytes lie behind
  the header of a new minor block, and that block overlaps no live one, all of which stay where
  they are.
\<close>

theorem malloc_spec:
  assumes "heap_inv s bs" and "locked (mmulock s) = 0" and "unat req + 80 < 2 ^ 32"
  shows "\<exists>p s' bs'. malloc req s = Some (p, s') \<and> heap_inv s' bs' \<and> locked (mmulock s') = 0 \<and> eflags s' = eflags s \<and>
     (if p = 0 then bs' = bs \<and> no_fit s (unat (pages_needed (req + 32) s))
      else 16 dvd unat p \<and> (\<exists>m. p = user_ptr m \<and> m \<notin> live bs \<and> live bs' = insert m (live bs) \<and>
             unat m + 24 \<le> unat p \<and> unat p + unat req \<le> unat m + 24 + size_of (minors s') m \<and>
             (\<forall>x\<in>live bs. minor_bytes (minors s') x = minor_bytes (minors s) x \<and>
                minor_bytes (minors s') x \<inter> minor_bytes (minors s') m = {})))"
proof -
  let ?sz = "req + 32"
  have ok: "heap_ok s bs" "filled bs" using assms(1) by (simp_all add: heap_inv_filled)
  have u: "unat ?sz = unat req + 32" using assms(3) by (subst unat_add_less) simp_all
  then have sz: "32 \<le> unat ?sz" "unat ?sz + 48 < 2 ^ 32" "unat req + 32 \<le> unat ?sz" using assms(3) by simp_all
  have "?sz \<noteq> 0" using u by auto
  then have m: "malloc req s = malloc_locked ?sz req s" by (simp add: malloc_def)
  show ?thesis
  proof (cases rule: malloc_locked_ok [OF sz ok(1) assms(2)])
    case (1 s')
    then show ?thesis using m ok(2) by (auto simp: heap_inv_filled)
  next
    case (2 a x s' bs')
    have "x \<in> live bs'" using 2(5) by simp
    then obtain c ms where c: "(c, ms) \<in> set bs'" "x \<in> set ms" unfolding live_iff by blast
    note B = block_of_minor [OF heap_okD(4) [OF 2(2)] c]
    have size: "size_of (minors s') x = unat req + 32" using 2(7) u by (auto simp: data_of_def size_of_def)
    have "unat x + 56 \<le> 2 ^ 32" using B(3,4) by linarith
    note U = user_ptr_bounds [OF this]
    have p0: "user_ptr x \<noteq> 0" using U(2) by auto
    have "minor_bytes (minors s') y = minor_bytes (minors s) y \<and> minor_bytes (minors s') y \<inter> minor_bytes (minors s') x = {}"
      if "y \<in> live bs" for y
      using live_disjoint [OF heap_okD(4) [OF 2(2)], of y x] 2(4,5) minor_bytes_data [OF 2(6)] that by auto
    moreover have "unat x + 24 \<le> unat (user_ptr x)" "unat (user_ptr x) + unat req \<le> unat x + 24 + size_of (minors s') x"
      using U(2,3) size by linarith+
    moreover have "heap_inv s' bs'" using 2(2,3) ok(2) by (simp add: heap_inv_filled)
    ultimately show ?thesis
      unfolding m using 2(1,4,5,8,9) U(4) p0
      by (intro exI [of _ "user_ptr x"] exI [of _ s'] exI [of _ bs'] conjI) (simp_all only: if_False, metis)
  qed
qed

theorem malloc_spec_witness:
  "\<exists>p s' bs' m. malloc 100 sample_liballoc = Some (p, s') \<and> heap_inv s' bs' \<and> p \<noteq> 0 \<and> p = user_ptr m \<and> live bs' = {m}"
proof -
  have "unat (pages_needed (100 + 32) sample_liballoc) = 16" by (simp add: pages_needed_def sample_liballoc_def)
  then show ?thesis
    using malloc_spec [of sample_liballoc "[]" 100] sample_liballoc_fits by (auto simp: live_def split: if_splits)
qed

end
