(* ===== verification/Liballoc_Free.thy ===== *)
theory Liballoc_Free
  imports Liballoc_Malloc
begin

text \<open>
  \<open>free\<close> on the representation: the minor block is taken out of its list, and a major block whose last minor
  block goes is taken out of the list of major blocks and its pages are given back.
\<close>

lemma in_fst_pair: "c \<in> fst ` S \<Longrightarrow> \<exists>d. (c, d) \<in> S"
  by force

section \<open>Taking a minor block out\<close>

definition link_out :: "(u32 \<Rightarrow> liballoc_minor option) \<Rightarrow> u32 list \<Rightarrow> u32 \<Rightarrow> u32 list \<Rightarrow> (u32 \<Rightarrow> liballoc_minor option)" where
  "link_out mi xs m ys =
     (let mi = mi(m := map_option (\<lambda>n. n\<lparr>magic := LIBALLOC_DEAD\<rparr>) (mi m));
          mi = (if ys = [] then mi else set_prev (hd ys) (lastd 0 xs) mi)
      in if xs = [] then mi else set_next (last xs) (hdd ys 0) mi)"

lemma link_out_fields:
  assumes "\<forall>x\<in>set (xs @ m # ys). mi x \<noteq> None" "m \<notin> set (xs @ ys)"
  shows "mi_prev (link_out mi xs m ys) = relink_prev (mi_prev mi) ys (lastd 0 xs)"
    "mi_next (link_out mi xs m ys) = relink_next (mi_next mi) xs (hdd ys 0)"
    "x \<noteq> m \<Longrightarrow> data_of (link_out mi xs m ys) x = data_of mi x"
proof -
  let ?mi = "mi(m := map_option (\<lambda>n. n\<lparr>magic := LIBALLOC_DEAD\<rparr>) (mi m))"
  have d: "mi_prev ?mi = mi_prev mi" "mi_next ?mi = mi_next mi" "x \<noteq> m \<Longrightarrow> data_of ?mi x = data_of mi x" for x
    by (auto simp: fun_eq_iff mi_prev_def mi_next_def data_of_def option.map_comp comp_def)
  have h: "xs \<noteq> [] \<Longrightarrow> ?mi (last xs) \<noteq> None" "ys \<noteq> [] \<Longrightarrow> ?mi (hd ys) \<noteq> None" using assms by auto
  show "mi_prev (link_out mi xs m ys) = relink_prev (mi_prev mi) ys (lastd 0 xs)"
    "mi_next (link_out mi xs m ys) = relink_next (mi_next mi) xs (hdd ys 0)"
    using h d by (auto simp: link_out_def relink_prev_def relink_next_def Let_def simp del: upd_fields)
  show "data_of (link_out mi xs m ys) x = data_of mi x" if "x \<noteq> m"
    using d(3) [OF that] by (simp add: link_out_def Let_def)
qed

lemma link_out_other: "x \<noteq> m \<Longrightarrow> x \<notin> set (xs @ ys) \<Longrightarrow> link_out mi xs m ys x = mi x"
  by (cases "xs = []"; cases "ys = []") (auto simp: link_out_def Let_def set_prev_def set_next_def)

lemma minors_ok_link_out:
  assumes ok: "minors_ok mi a S (xs @ m # ys)"
  shows "minors_ok (link_out mi xs m ys) a S (xs @ ys)"
    "used mi (xs @ m # ys) = used (link_out mi xs m ys) (xs @ ys) + 24 + size_of mi m"
proof -
  let ?mi = "link_out mi xs m ys"
  have laid: "laid mi (unat a + 24) (unat a + S) (xs @ m # ys)" and ch: "chain (mi_prev mi) (mi_next mi) 0 (xs @ m # ys) 0"
    using ok by (auto simp: minors_ok_def)
  have dist: "distinct (xs @ m # ys)" by (rule laid_distinct [OF laid])
  then have m: "m \<notin> set (xs @ ys)" by simp
  have hdrs: "\<forall>x\<in>set (xs @ m # ys). mi x \<noteq> None" using ok by (auto simp: minors_ok_def)
  note F = link_out_fields [OF hdrs m]
  have same: "data_of ?mi x = data_of mi x" if "x \<in> set (xs @ ys)" for x using F(3) [of x] m that by blast
  have "laid ?mi (unat a + 24) (unat a + S) (xs @ ys)" by (rule laid_remove [OF laid]) (rule size_of_data [OF same])
  moreover have "chain (mi_prev ?mi) (mi_next ?mi) 0 (xs @ ys) 0" unfolding F(1,2) by (rule chain_remove [OF ch dist])
  moreover have "\<exists>sz req. data_of ?mi x = Some (a, LIBALLOC_MAGIC, sz, req) \<and> unat req + 32 \<le> unat sz"
    if "x \<in> set (xs @ ys)" for x using ok that same [OF that] unfolding minors_ok_data by auto
  ultimately show "minors_ok ?mi a S (xs @ ys)" by (simp add: minors_ok_data)
  have "used ?mi (xs @ ys) = used mi (xs @ ys)"
    using size_cong [of "xs @ ys" ?mi mi 0 0] size_of_data [OF same] by blast
  then show "used mi (xs @ m # ys) = used ?mi (xs @ ys) + 24 + size_of mi m" by simp
qed

lemma block_ok_link_out:
  assumes ok: "block_ok r mi A a (xs @ m # ys)" and n: "mi m = Some n"
  shows "block_ok (r\<lparr>usage := usage r - (min_size n + 24), first := hdd (xs @ ys) 0\<rparr>) (link_out mi xs m ys) A a (xs @ ys)"
    (is "block_ok ?r ?mi A a _")
proof -
  note D = block_okD [OF ok]
  have mo: "minors_ok mi a (unat (maj_size r)) (xs @ m # ys)" using ok unfolding block_ok_def by blast
  note L = minors_ok_link_out [OF mo]
  have sz: "size_of mi m = unat (min_size n)" using n by (simp add: size_of_def)
  have u: "unat (usage r) = 24 + used ?mi (xs @ ys) + (unat (min_size n) + 24)" using D(11) L(2) sz by simp
  then have "unat (min_size n + 24) = unat (min_size n) + 24"
    using unat_less_32 [of "usage r"] by (subst unat_add_less) simp_all
  then have "unat (usage r - (min_size n + 24)) = 24 + used ?mi (xs @ ys)"
    using u by (subst unat_sub) (simp_all add: word_le_nat_alt)
  then show ?thesis using L(1) D(2-7) by (simp add: block_ok_def)
qed

section \<open>Taking a major block out\<close>

definition unlink_major :: "(u32 \<Rightarrow> liballoc_major option) \<Rightarrow> u32 list \<Rightarrow> u32 list \<Rightarrow> (u32 \<Rightarrow> liballoc_major option)" where
  "unlink_major mj as cs =
     (let mj = (if as = [] then mj else mj(last as := map_option (\<lambda>r. r\<lparr>maj_next := hdd cs 0\<rparr>) (mj (last as))))
      in if cs = [] then mj else mj(hd cs := map_option (\<lambda>r. r\<lparr>maj_prev := lastd 0 as\<rparr>) (mj (hd cs))))"

definition maj_data :: "(u32 \<Rightarrow> liballoc_major option) \<Rightarrow> u32 \<Rightarrow> (u32 \<times> u32 \<times> u32 \<times> u32) option" where
  "maj_data mj x = map_option (\<lambda>r. (pages r, maj_size r, usage r, first r)) (mj x)"

lemma unlink_major_data: "maj_data (unlink_major mj as cs) = maj_data mj"
  by (auto simp: fun_eq_iff unlink_major_def maj_data_def Let_def option.map_comp comp_def)

lemma maj_upd_links:
  "mj_prev (mj(x := map_option (\<lambda>r. r\<lparr>maj_next := v\<rparr>) (mj x))) = mj_prev mj"
  "mj_next (mj(x := map_option (\<lambda>r. r\<lparr>maj_prev := v\<rparr>) (mj x))) = mj_next mj"
  "mj x \<noteq> None \<Longrightarrow> mj_next (mj(x := map_option (\<lambda>r. r\<lparr>maj_next := v\<rparr>) (mj x))) = (mj_next mj)(x \<mapsto> v)"
  "mj x \<noteq> None \<Longrightarrow> mj_prev (mj(x := map_option (\<lambda>r. r\<lparr>maj_prev := v\<rparr>) (mj x))) = (mj_prev mj)(x \<mapsto> v)"
  by (auto simp: fun_eq_iff mj_prev_def mj_next_def option.map_comp comp_def)

lemma unlink_major_links:
  assumes "as = [] \<or> mj (last as) \<noteq> None" "cs = [] \<or> mj (hd cs) \<noteq> None"
  shows "mj_prev (unlink_major mj as cs) = relink_prev (mj_prev mj) cs (lastd 0 as)"
    "mj_next (unlink_major mj as cs) = relink_next (mj_next mj) as (hdd cs 0)"
proof -
  define mj1 where "mj1 = (if as = [] then mj else mj(last as := map_option (\<lambda>r. r\<lparr>maj_next := hdd cs 0\<rparr>) (mj (last as))))"
  have 1: "mj_prev mj1 = mj_prev mj" "mj_next mj1 = relink_next (mj_next mj) as (hdd cs 0)"
    using assms(1) maj_upd_links(1) [of mj] maj_upd_links(3) [of mj "last as"] by (auto simp: mj1_def relink_next_def)
  have 2: "cs \<noteq> [] \<Longrightarrow> mj1 (hd cs) \<noteq> None" using assms by (auto simp: mj1_def)
  have "unlink_major mj as cs =
      (if cs = [] then mj1 else mj1(hd cs := map_option (\<lambda>r. r\<lparr>maj_prev := lastd 0 as\<rparr>) (mj1 (hd cs))))"
    by (simp add: unlink_major_def mj1_def Let_def)
  then show "mj_prev (unlink_major mj as cs) = relink_prev (mj_prev mj) cs (lastd 0 as)"
    "mj_next (unlink_major mj as cs) = relink_next (mj_next mj) as (hdd cs 0)"
    using 1 maj_upd_links(2) [of mj1] maj_upd_links(4) [of mj1 "hd cs"] 2 by (auto simp: relink_prev_def)
qed

lemma maj_data_block:
  assumes "maj_data mj' a = maj_data mj a" "mj a = Some r" "block_ok r mi A a ms"
  obtains r' where "mj' a = Some r'" "block_ok r' mi A a ms" "pages r' = pages r" "maj_size r' = maj_size r"
    "usage r' = usage r"
  using assms that by (auto simp: maj_data_def block_ok_def)

lemma frames_of_data: "maj_data mj' a = maj_data mj a \<Longrightarrow> mj a \<noteq> None \<Longrightarrow> frames_of mj' a = frames_of mj a"
  by (auto simp: maj_data_def frames_of_def)

lemma block_ok_mono: "block_ok r mi A a ms \<Longrightarrow> {unat a div 4096..<unat a div 4096 + unat (pages r)} \<subseteq> B \<Longrightarrow> block_ok r mi B a ms"
  unfolding block_ok_def by blast

lemma blocks_ok_remove:
  assumes ok: "blocks_ok mj mi A (b1 @ (a, ms) # b2)"
  shows "blocks_ok (unlink_major mj (map fst b1) (map fst b2)) mi (A - frames_of mj a) (b1 @ b2)" (is "blocks_ok ?mj mi ?A ?bs")
proof -
  note D = blocks_okD [OF ok]
  let ?as = "map fst b1" and ?cs = "map fst b2"
  have hdr: "mj c \<noteq> None" if c: "c \<in> set ?as \<union> set ?cs" for c
  proof -
    have "c \<in> fst ` set (b1 @ (a, ms) # b2)" using c by auto
    then have "\<exists>ns. (c, ns) \<in> set (b1 @ (a, ms) # b2)" by (rule in_fst_pair)
    then show ?thesis using D(3) by blast
  qed
  have h: "?as = [] \<or> mj (last ?as) \<noteq> None" "?cs = [] \<or> mj (hd ?cs) \<noteq> None"
    using hdr [of "last ?as"] hdr [of "hd ?cs"] last_in_set [of ?as] hd_in_set [of ?cs] by blast+
  have ch: "chain (mj_prev mj) (mj_next mj) 0 (?as @ a # ?cs) 0" "distinct (?as @ a # ?cs)" using D(1,2) by simp_all
  have "chain (mj_prev ?mj) (mj_next ?mj) 0 (map fst ?bs) 0"
    unfolding unlink_major_links [OF h] using chain_remove [OF ch] by simp
  moreover have "distinct (map fst ?bs)" using ch(2) by simp
  moreover have "\<exists>r. ?mj c = Some r \<and> block_ok r mi ?A c ns" if c: "(c, ns) \<in> set ?bs" for c ns
  proof -
    have cb: "(c, ns) \<in> set (b1 @ (a, ms) # b2)" using c by auto
    have "c \<in> set ?as \<union> set ?cs" using c by force
    then have ca: "c \<noteq> a" using ch(2) by auto
    obtain r where r: "mj c = Some r" "block_ok r mi A c ns" using D(3) [OF cb] by blast
    obtain r' where r': "?mj c = Some r'" "block_ok r' mi A c ns" "pages r' = pages r" "maj_size r' = maj_size r"
        "usage r' = usage r"
      by (rule maj_data_block [OF fun_cong [OF unlink_major_data, of mj ?as ?cs c] r])
    have "c \<in> fst ` set (b1 @ (a, ms) # b2)" "a \<in> fst ` set (b1 @ (a, ms) # b2)" using cb by (force, simp)
    then have "frames_of mj c \<inter> frames_of mj a = {}" using D(4) ca by blast
    then have "block_ok r' mi ?A c ns"
      using block_okD(7) [OF r(2)] r(1) r'(3) by (intro block_ok_mono [OF r'(2)]) (auto simp: frames_of_def)
    then show ?thesis using r'(1) by blast
  qed
  moreover have "frames_of ?mj c = frames_of mj c" if "c \<in> fst ` set ?bs" for c
    using that hdr [of c] by (intro frames_of_data) (simp_all add: unlink_major_data image_Un)
  then have "frames_of ?mj c \<inter> frames_of ?mj d = {}" if "c \<in> fst ` set ?bs" "d \<in> fst ` set ?bs" "c \<noteq> d" for c d
    using D(4) [of c d] that by auto
  ultimately show ?thesis unfolding blocks_ok_def by blast
qed

section \<open>The steps of free\<close>

lemma upd_minor_set:
  assumes "minors s x \<noteq> None"
  shows "upd_minor x (\<lambda>n. n\<lparr>min_prev := v\<rparr>) s = Some (s\<lparr>minors := set_prev x v (minors s)\<rparr>)"
    "upd_minor x (\<lambda>n. n\<lparr>min_next := v\<rparr>) s = Some (s\<lparr>minors := set_next x v (minors s)\<rparr>)"
  using assms by (auto simp: upd_minor_def set_prev_def set_next_def)

lemma unlink_minor_eq:
  assumes ok: "block_ok r (minors s) A a (xs @ m # ys)" and r: "majors s a = Some r" and n: "minors s m = Some n"
  shows "unlink_minor m n s = Some (s\<lparr>
     majors := (majors s)(a \<mapsto> r\<lparr>usage := usage r - (min_size n + 24), first := hdd (xs @ ys) 0\<rparr>),
     minors := link_out (minors s) xs m ys\<rparr>)"
proof -
  note D = block_okD [OF ok]
  have b: "block n = a" "magic n = LIBALLOC_MAGIC" using D(9) [of m] n by auto
  have links: "min_prev n = lastd 0 xs" "min_next n = hdd ys 0"
    using chain_middle [OF D(8)] n by (simp_all add: mi_prev_def mi_next_def)
  have m: "m \<notin> set (xs @ ys)" "distinct (xs @ m # ys)" using D(12) by simp_all
  have nz: "x \<noteq> 0" "minors s x \<noteq> None" if "x \<in> set (xs @ m # ys)" for x
    using laid_bounds [OF D(10) that] D(9) [OF that] D(3) by auto
  have fst_eq: "first r = hdd (xs @ m # ys) 0" using D(1) .
  have xs0: "lastd 0 xs = 0 \<longleftrightarrow> xs = []"
    using nz(1) [of "last xs"] by (cases "xs = []") (auto simp: lastd_last)
  have ys0: "hdd ys 0 = 0 \<longleftrightarrow> ys = []" using nz(1) [of "hd ys"] by (cases ys) auto
  define mi1 where "mi1 = (minors s)(m \<mapsto> n\<lparr>magic := LIBALLOC_DEAD\<rparr>)"
  define mi2 where "mi2 = (if ys = [] then mi1 else set_prev (hd ys) (lastd 0 xs) mi1)"
  define r1 where "r1 = r\<lparr>usage := usage r - (min_size n + 24)\<rparr>"
  let ?s = "\<lambda>mi. s\<lparr>majors := (majors s)(a \<mapsto> r1), minors := mi\<rparr>"
  have out: "link_out (minors s) xs m ys = (if xs = [] then mi2 else set_next (last xs) (hdd ys 0) mi2)"
    using n by (simp add: link_out_def mi2_def mi1_def Let_def)
  have h: "ys \<noteq> [] \<Longrightarrow> mi1 (hd ys) \<noteq> None" "xs \<noteq> [] \<Longrightarrow> mi2 (last xs) \<noteq> None"
    using nz(2) [of "hd ys"] nz(2) [of "last xs"] by (auto simp: mi1_def mi2_def set_prev_def)
  have step1: "upd_major a (\<lambda>m. m\<lparr>usage := usage m - (min_size n + 24)\<rparr>) s = Some (s\<lparr>majors := (majors s)(a \<mapsto> r1)\<rparr>)"
    using r by (simp add: upd_major_def r1_def)
  have step2: "upd_minor m (\<lambda>n. n\<lparr>magic := LIBALLOC_DEAD\<rparr>) (s\<lparr>majors := (majors s)(a \<mapsto> r1)\<rparr>) = Some (?s mi1)"
    using n by (simp add: upd_minor_def mi1_def)
  have step3: "(if min_next n \<noteq> 0 then upd_minor (min_next n) (\<lambda>x. x\<lparr>min_prev := min_prev n\<rparr>) (?s mi1) else Some (?s mi1)) = Some (?s mi2)"
    using upd_minor_set(1) [of "?s mi1" "hd ys"] h(1) ys0 links by (cases "ys = []") (simp_all add: mi2_def hdd_hd)
  have step4: "(if min_prev n \<noteq> 0 then upd_minor (min_prev n) (\<lambda>x. x\<lparr>min_next := min_next n\<rparr>) (?s mi2) else Some (?s mi2)) =
      Some (?s (link_out (minors s) xs m ys))"
  proof (cases "xs = []")
    case True
    then show ?thesis unfolding out links by simp
  next
    case False
    then have p: "lastd 0 xs = last xs" "last xs \<noteq> 0" using xs0 by (simp_all add: lastd_last)
    have "minors (?s mi2) (last xs) \<noteq> None" using h(2) [OF False] by simp
    from upd_minor_set(2) [OF this, of "hdd ys 0"] show ?thesis unfolding out links p(1) using p(2) False by simp
  qed
  have step5: "(if min_prev n = 0 then upd_major a (\<lambda>m. m\<lparr>first := min_next n\<rparr>) (?s mi) else Some (?s mi)) =
      Some (s\<lparr>majors := (majors s)(a \<mapsto> r\<lparr>usage := usage r - (min_size n + 24), first := hdd (xs @ ys) 0\<rparr>), minors := mi\<rparr>)" for mi
  proof (cases "xs = []")
    case True
    then show ?thesis using xs0 links by (simp add: upd_major_def r1_def)
  next
    case False
    then have "r\<lparr>usage := usage r - (min_size n + 24), first := hdd (xs @ ys) 0\<rparr> = r1"
      using fst_eq unfolding r1_def by (cases xs) simp_all
    then show ?thesis using False xs0 links by simp
  qed
  show ?thesis unfolding unlink_minor_def b(1) by (simp only: step1 step2 step3 step4 step5 bind.bind_lunit)
qed

lemma upd_major_chain:
  assumes "majors s x \<noteq> None"
  shows "upd_major x f s = Some (s\<lparr>majors := (majors s)(x := map_option f (majors s x))\<rparr>)"
  using assms by (auto simp: upd_major_def)

lemma hooks_inv_majors [simp]:
  "hooks_inv (s\<lparr>majors := mj\<rparr>) = hooks_inv s" "hooks_inv (s\<lparr>l_memRoot := x\<rparr>) = hooks_inv s"
  "hooks_inv (s\<lparr>l_allocated := v\<rparr>) = hooks_inv s" "allocated (s\<lparr>majors := mj\<rparr>) = allocated s"
  "allocated (s\<lparr>l_memRoot := x\<rparr>) = allocated s" "allocated (s\<lparr>l_allocated := v\<rparr>) = allocated s"
  by (simp_all add: hooks_inv_def frame_inv_def pf_wf_def allocated_def pg_inv_def)

lemma release_major_eq:
  assumes ok: "blocks_ok (majors s) mi A (b1 @ (a, ms) # b2)" and r: "majors s a = Some r"
    and root: "l_memRoot s = hdd (map fst (b1 @ (a, ms) # b2)) 0"
  shows "release_major a r s = liballoc_free a (pages r) (s\<lparr>l_memRoot := hdd (map fst (b1 @ b2)) 0,
     l_bestBet := (if l_bestBet s = a then 0 else l_bestBet s),
     majors := unlink_major (majors s) (map fst b1) (map fst b2), l_allocated := l_allocated s - ucast (maj_size r)\<rparr>)"
proof -
  note D = blocks_okD [OF ok]
  let ?as = "map fst b1" and ?cs = "map fst b2"
  have links: "maj_prev r = lastd 0 ?as" "maj_next r = hdd ?cs 0"
    using chain_middle [of "mj_prev (majors s)" "mj_next (majors s)" 0 ?as a ?cs 0] D(1) r by (simp_all add: mj_prev_def mj_next_def)
  have dist: "distinct (?as @ a # ?cs)" using D(2) by simp
  have nz: "c \<noteq> 0 \<and> majors s c \<noteq> None" if c: "c \<in> fst ` set (b1 @ (a, ms) # b2)" for c
  proof -
    have "\<exists>ns. (c, ns) \<in> set (b1 @ (a, ms) # b2)" by (rule in_fst_pair [OF c])
    then obtain q ns where "majors s c = Some q" "block_ok q mi A c ns" using D(3) by blast
    then show ?thesis using block_okD(3) [of q mi A c ns] by auto
  qed
  have as: "lastd 0 ?as = last ?as \<and> last ?as \<noteq> 0 \<and> majors s (last ?as) \<noteq> None \<and> last ?as \<noteq> a" if "b1 \<noteq> []"
    using that nz [of "last ?as"] last_in_set [of ?as] dist by (auto simp: lastd_last)
  have cs: "hdd ?cs 0 = hd ?cs \<and> hd ?cs \<noteq> 0 \<and> majors s (hd ?cs) \<noteq> None" if "b2 \<noteq> []"
    using that nz [of "hd ?cs"] hd_in_set [of ?cs] by (auto simp: hdd_hd)
  define s1 where "s1 = s\<lparr>l_memRoot := hdd (map fst (b1 @ b2)) 0, l_bestBet := (if l_bestBet s = a then 0 else l_bestBet s)\<rparr>"
  define mj1 where "mj1 = (if ?as = [] then majors s else (majors s)(last ?as := map_option (\<lambda>r. r\<lparr>maj_next := hdd ?cs 0\<rparr>) (majors s (last ?as))))"
  have mj: "unlink_major (majors s) ?as ?cs =
      (if ?cs = [] then mj1 else mj1(hd ?cs := map_option (\<lambda>r. r\<lparr>maj_prev := lastd 0 ?as\<rparr>) (mj1 (hd ?cs))))"
    by (simp add: unlink_major_def mj1_def Let_def)
  have step0: "(let s = (if l_memRoot s = a then s\<lparr>l_memRoot := maj_next r\<rparr> else s)
      in if l_bestBet s = a then s\<lparr>l_bestBet := 0\<rparr> else s) = s1"
  proof -
    have "l_memRoot s = a \<longleftrightarrow> b1 = []" using root as dist by (cases b1) auto
    then have "(if l_memRoot s = a then s\<lparr>l_memRoot := maj_next r\<rparr> else s) = s\<lparr>l_memRoot := hdd (map fst (b1 @ b2)) 0\<rparr>"
      using root links by (cases b1) simp_all
    then show ?thesis by (simp add: s1_def Let_def)
  qed
  have step1: "(if maj_prev r \<noteq> 0 then upd_major (maj_prev r) (\<lambda>x. x\<lparr>maj_next := maj_next r\<rparr>) s1 else Some s1) =
      Some (s1\<lparr>majors := mj1\<rparr>)"
  proof (cases "b1 = []")
    case True
    then show ?thesis unfolding links by (simp add: s1_def mj1_def)
  next
    case False
    have "majors s1 (last ?as) \<noteq> None" using as [OF False] by (simp add: s1_def)
    from upd_major_chain [OF this] show ?thesis unfolding links using as [OF False] False by (simp add: mj1_def s1_def)
  qed
  have step2: "(if maj_next r \<noteq> 0 then upd_major (maj_next r) (\<lambda>x. x\<lparr>maj_prev := maj_prev r\<rparr>) (s1\<lparr>majors := mj1\<rparr>) else Some (s1\<lparr>majors := mj1\<rparr>)) =
      Some (s1\<lparr>majors := unlink_major (majors s) ?as ?cs\<rparr>)"
  proof (cases "b2 = []")
    case True
    then show ?thesis unfolding links mj by simp
  next
    case False
    have "majors (s1\<lparr>majors := mj1\<rparr>) (hd ?cs) \<noteq> None" using cs [OF False] by (auto simp: mj1_def)
    from upd_major_chain [OF this] show ?thesis unfolding links mj using cs [OF False] False by simp
  qed
  show ?thesis
    by (simp only: release_major_def Let_def step0 [unfolded Let_def] step1 step2 bind.bind_lunit) (simp add: s1_def)
qed

text \<open>What a step of \<open>free\<close> leaves alone.\<close>

definition keeps :: "'a liballoc_scheme \<Rightarrow> 'a liballoc_scheme \<Rightarrow> bool" where
  "keeps s s' \<longleftrightarrow> mmulock s' = mmulock s \<and> eflags s' = eflags s \<and> kmem s' = kmem s \<and> liballoc.more s' = liballoc.more s"

lemma release_major_ok:
  assumes ok: "heap_ok s (b1 @ (a, []) # b2)" and r: "majors s a = Some r"
  obtains s' where "release_major a r s = Some s'" "heap_ok s' (b1 @ b2)" "minors s' = minors s" "keeps s s'"
    "allocated s' = allocated s - frames_of (majors s) a"
proof -
  note D = heap_okD [OF ok]
  let ?t = "s\<lparr>l_memRoot := hdd (map fst (b1 @ b2)) 0, l_bestBet := (if l_bestBet s = a then 0 else l_bestBet s),
     majors := unlink_major (majors s) (map fst b1) (map fst b2), l_allocated := l_allocated s - ucast (maj_size r)\<rparr>"
  have bo: "block_ok r (minors s) (allocated s) a []" using blocks_okD(3) [OF D(4)] r by force
  note B = block_okD [OF bo]
  obtain p where p: "unat a = 4096 * p" using B(2) by blast
  have fr: "frames_of (majors s) a = {p..<p + unat (pages r)}" using r p by (simp add: frames_of_def)
  have h: "hooks_inv ?t" "2048 \<le> p" "{p..<p + unat (pages r)} \<subseteq> allocated ?t" using D(1) B(3,7) p by auto
  obtain s' b where s': "liballoc_free a (pages r) ?t = Some s'" "hooks_inv s'"
      "allocated s' = allocated ?t - {p..<p + unat (pages r)}" "mapped_pages s' = mapped_pages ?t"
      "s' = ?t\<lparr>pageframe_bitmap := b\<rparr>"
    by (rule liballoc_free_result [OF h(1) B(4) p h(2,3)])
  have al: "allocated s' = allocated s - frames_of (majors s) a" using s'(3) fr by simp
  have best: "l_bestBet ?t = 0 \<or> l_bestBet ?t \<in> fst ` set (b1 @ b2)" using D(6) by auto
  have lv: "live (b1 @ b2) = live (b1 @ (a, []) # b2)" by (auto simp: live_def)
  show thesis
  proof (rule that [of s'])
    show "release_major a r s = Some s'" using release_major_eq [OF D(4) r D(5)] s'(1) by simp
    have "blocks_ok (majors s') (minors s') (allocated s') (b1 @ b2)"
      using blocks_ok_remove [OF D(4)] s'(5) unfolding al by simp
    moreover have "\<forall>m\<in>live (b1 @ b2). tagged (kmem s') m" using D(7) lv s'(5) by simp
    ultimately show "heap_ok s' (b1 @ b2)" using D(2,3) best s'(2,5) by (simp add: heap_ok_def)
  qed (use s'(5) al in \<open>simp_all add: keeps_def\<close>)
qed

lemma update_best_bet_ok:
  assumes ok: "heap_ok s bs" and a: "a \<in> fst ` set bs"
  obtains s' where "update_best_bet a r s = Some s'" "heap_ok s' bs" "minors s' = minors s" "keeps s s'"
    "allocated s' = allocated s"
proof -
  note D = heap_okD [OF ok]
  have "\<exists>q. majors s (l_bestBet s) = Some q" if "l_bestBet s \<noteq> 0"
  proof -
    obtain ms where "(l_bestBet s, ms) \<in> set bs" using D(6) \<open>l_bestBet s \<noteq> 0\<close> by fastforce
    then show ?thesis using blocks_okD(3) [OF D(4)] by blast
  qed
  note q = this
  have "\<exists>better. update_best_bet a r s = Some (if better then s\<lparr>l_bestBet := a\<rparr> else s)"
  proof (cases "l_bestBet s = 0")
    case True
    then show ?thesis by (intro exI [of _ False]) (simp add: update_best_bet_def)
  next
    case False
    then obtain b where "majors s (l_bestBet s) = Some b" using q by blast
    then show ?thesis using False unfolding update_best_bet_def Let_def by (simp only: bind.bind_lunit if_True simp_thms) blast
  qed
  then obtain better where u: "update_best_bet a r s = Some (if better then s\<lparr>l_bestBet := a\<rparr> else s)" by blast
  show thesis
    by (rule that [OF u]) (use ok heap_ok_best_bet [OF ok a] in \<open>simp_all add: keeps_def\<close>)
qed

lemma heap_ok_link_out:
  assumes ok: "heap_ok s (b1 @ (a, xs @ m # ys) # b2)" and r: "majors s a = Some r" and n: "minors s m = Some n"
    and t: "t = s\<lparr>l_inuse := v, majors := (majors s)(a \<mapsto> r\<lparr>usage := usage r - (min_size n + 24), first := hdd (xs @ ys) 0\<rparr>),
       minors := link_out (minors s) xs m ys\<rparr>"
  shows "heap_ok t (b1 @ (a, xs @ ys) # b2)" "live (b1 @ (a, xs @ ys) # b2) = live (b1 @ (a, xs @ m # ys) # b2) - {m}"
    "\<forall>x\<in>live (b1 @ (a, xs @ ys) # b2). data_of (minors t) x = data_of (minors s) x"
proof -
  let ?old = "b1 @ (a, xs @ m # ys) # b2" and ?new = "b1 @ (a, xs @ ys) # b2" and ?mi = "link_out (minors s) xs m ys"
  note D = heap_okD [OF ok]
  have bo: "block_ok r (minors s) (allocated s) a (xs @ m # ys)" using blocks_okD(3) [OF D(4)] r by force
  have other: "x \<notin> set (xs @ m # ys)" if lx: "x \<in> live (b1 @ b2)" for x
  proof
    assume xa: "x \<in> set (xs @ m # ys)"
    obtain c ns where c: "(c, ns) \<in> set (b1 @ b2)" "x \<in> set ns" using lx unfolding live_iff by blast
    then have "c = a" using minor_owner [OF D(4) _ _ c(2) xa] by auto
    then show False using c(1) blocks_okD(2) [OF D(4)] by force
  qed
  then have same: "\<forall>x\<in>live (b1 @ b2). ?mi x = minors s x" using link_out_other by auto
  have "blocks_ok ((majors s)(a \<mapsto> r\<lparr>usage := usage r - (min_size n + 24), first := hdd (xs @ ys) 0\<rparr>)) ?mi (allocated s) ?new"
    using block_ok_link_out [OF bo n] same by (intro blocks_ok_update [OF D(4) r]) simp_all
  moreover have "m \<notin> set (xs @ ys)" using block_okD(12) [OF bo] by simp
  moreover have "live ?old = set (xs @ m # ys) \<union> live (b1 @ b2)" "live ?new = set (xs @ ys) \<union> live (b1 @ b2)"
    by (auto simp: live_def)
  ultimately show lv: "live ?new = live ?old - {m}" using other [of m] by auto
  have "allocated t = allocated s" "hooks_inv t = hooks_inv s"
    by (simp_all add: t hooks_inv_def frame_inv_def pf_wf_def allocated_def pg_inv_def)
  moreover have "fst ` set ?new = fst ` set ?old" by auto
  ultimately show "heap_ok t ?new" using D \<open>blocks_ok _ _ _ ?new\<close> lv by (simp add: heap_ok_def t)
  have hdrs: "\<forall>x\<in>set (xs @ m # ys). minors s x \<noteq> None" using block_okD(9) [OF bo] by fastforce
  show "\<forall>x\<in>live ?new. data_of (minors t) x = data_of (minors s) x"
    using link_out_fields(3) [OF hdrs \<open>m \<notin> set (xs @ ys)\<close>] lv by (auto simp: t)
qed

section \<open>free\<close>

lemma keeps_trans: "keeps s t \<Longrightarrow> keeps t u \<Longrightarrow> keeps s u"
  by (simp add: keeps_def)

lemma free_body_ok:
  assumes ok: "heap_ok s bs" "filled bs" and m: "(a, ms) \<in> set bs" "m \<in> set ms"
  obtains s' bs' where "free_body (m + 24) s = Some s'" "heap_ok s' bs'" "filled bs'" "live bs' = live bs - {m}" "keeps s s'"
    "\<And>x. x \<in> live bs' \<Longrightarrow> data_of (minors s') x = data_of (minors s) x"
    "allocated s' = (if ms = [m] then allocated s - frames_of (majors s) a else allocated s)"
proof -
  note D = heap_okD [OF ok(1)]
  obtain xs ys where ms: "ms = xs @ m # ys" using m(2) split_list by metis
  obtain b1 b2 where bs: "bs = b1 @ (a, xs @ m # ys) # b2" using m(1) ms split_list by metis
  obtain r where r: "majors s a = Some r" "block_ok r (minors s) (allocated s) a ms" using blocks_okD(3) [OF D(4) m(1)] by blast
  obtain n where n: "minors s m = Some n" "block n = a" "magic n = LIBALLOC_MAGIC" using block_okD(9) [OF r(2) m(2)] by blast
  let ?r = "r\<lparr>usage := usage r - (min_size n + 24), first := hdd (xs @ ys) 0\<rparr>"
  define s0 where "s0 = s\<lparr>l_inuse := l_inuse s - ucast (min_size n)\<rparr>"
  define t where "t = s0\<lparr>majors := (majors s0)(a \<mapsto> ?r), minors := link_out (minors s0) xs m ys\<rparr>"
  have s0: "majors s0 = majors s" "minors s0 = minors s" by (simp_all add: s0_def)
  have un: "unlink_minor m n s0 = Some t"
    using unlink_minor_eq [of r s0 "allocated s" a xs m ys n] r n(1) ms s0 by (simp add: t_def)
  have teq: "t = s\<lparr>l_inuse := l_inuse s - ucast (min_size n), majors := (majors s)(a \<mapsto> ?r), minors := link_out (minors s) xs m ys\<rparr>"
    by (simp add: t_def s0_def)
  have H: "heap_ok t (b1 @ (a, xs @ ys) # b2)" "live (b1 @ (a, xs @ ys) # b2) = live bs - {m}"
    "\<forall>x\<in>live (b1 @ (a, xs @ ys) # b2). data_of (minors t) x = data_of (minors s) x"
    using heap_ok_link_out [OF ok(1) [unfolded bs] r(1) n(1) teq] unfolding bs by blast+
  have t: "majors t a = Some ?r" "keeps s t" "allocated t = allocated s" "frames_of (majors t) a = frames_of (majors s) a"
    using r(1) by (simp_all add: t_def s0_def keeps_def allocated_def frames_of_def)
  have run: "free_body (m + 24) s = (if first ?r = 0 then release_major a ?r t else update_best_bet a ?r t)"
    unfolding free_body_def Let_def using n t(1) un [unfolded s0_def] by simp
  have nz: "first ?r = 0 \<longleftrightarrow> xs @ ys = []"
  proof (cases "xs @ ys")
    case (Cons x zs)
    then have "x \<in> set ms" using ms by (metis Un_iff list.set_intros(1) list.set_intros(2) set_append)
    then have "0x800000 \<le> unat x" using block_of_minor(5) [OF D(4) m(1)] by blast
    then show ?thesis using Cons by auto
  qed simp
  show thesis
  proof (cases "xs @ ys = []")
    case True
    obtain s' where s': "release_major a ?r t = Some s'" "heap_ok s' (b1 @ b2)" "minors s' = minors t" "keeps t s'"
        "allocated s' = allocated t - frames_of (majors t) a"
      using H(1) t(1) unfolding True by (rule release_major_ok)
    have lv: "live (b1 @ b2) = live (b1 @ (a, xs @ ys) # b2)" using True by (auto simp: live_def)
    show thesis
    proof (rule that [of s' "b1 @ b2"])
      show "free_body (m + 24) s = Some s'" unfolding run nz using True s'(1) by (simp only: if_True simp_thms)
      show "filled (b1 @ b2)" using ok(2) bs by (auto simp: filled_def)
    qed (use s' t H lv ms True keeps_trans [OF t(2) s'(4)] in simp_all)
  next
    case False
    have "a \<in> fst ` set (b1 @ (a, xs @ ys) # b2)" by simp
    then obtain s' where s': "update_best_bet a ?r t = Some s'" "heap_ok s' (b1 @ (a, xs @ ys) # b2)" "minors s' = minors t" "keeps t s'"
        "allocated s' = allocated t"
      by (rule update_best_bet_ok [OF H(1)])
    show thesis
    proof (rule that [of s' "b1 @ (a, xs @ ys) # b2"])
      show "free_body (m + 24) s = Some s'" unfolding run nz using False s'(1) by (simp only: if_False)
      show "filled (b1 @ (a, xs @ ys) # b2)" using ok(2) bs False by (auto simp: filled_def)
      show "allocated s' = (if ms = [m] then allocated s - frames_of (majors s) a else allocated s)"
        using s'(5) t(3) ms False by (cases xs) auto
    qed (use s' t H keeps_trans [OF t(2) s'(4)] in simp_all)
  qed
qed

lemma UNALIGN_live:
  assumes ok: "heap_ok s bs" and m: "m \<in> live bs"
  shows "UNALIGN (user_ptr m) s = m + 24" "user_ptr m \<noteq> 0"
proof -
  obtain a ms where a: "(a, ms) \<in> set bs" "m \<in> set ms" using m unfolding live_iff by blast
  note B = block_of_minor [OF heap_okD(4) [OF ok] a]
  have u: "unat m + 56 \<le> 2 ^ 32" using B(3,4) by linarith
  show "UNALIGN (user_ptr m) s = m + 24" by (rule UNALIGN_eq [OF u heap_okD(7) [OF ok m]])
  show "user_ptr m \<noteq> 0" using user_ptr_bounds(2) [OF u] by auto
qed

lemma free_ok:
  fixes s :: "'a liballoc_scheme"
  assumes inv: "heap_inv s bs" and free: "locked (mmulock s) = 0" and m: "(a, ms) \<in> set bs" "m \<in> set ms"
  obtains s' bs' where "Liballoc.free (user_ptr m) s = Some s'" "heap_inv s' bs'" "live bs' = live bs - {m}"
    "locked (mmulock s') = 0" "eflags s' = eflags s" "kmem s' = kmem s"
    "\<And>x. x \<in> live bs' \<Longrightarrow> data_of (minors s') x = data_of (minors s) x"
    "allocated s' = (if ms = [m] then allocated s - frames_of (majors s) a else allocated s)" "liballoc.more s' = liballoc.more s"
proof -
  have ok: "heap_ok s bs" "filled bs" using inv by (simp_all add: heap_inv_filled)
  have lm: "m \<in> live bs" using m unfolding live_iff by blast
  obtain q e where lock: "liballoc_lock s = Some (s\<lparr>mmulock := q, eflags := e\<rparr>)"
      "\<forall>t :: 'a liballoc_scheme. mmulock t = q \<longrightarrow> eflags t = e \<longrightarrow>
         (\<exists>q'. liballoc_unlock t = t\<lparr>mmulock := q', eflags := eflags s\<rparr> \<and> locked q' = 0)"
    using liballoc_lock_pair [OF free] by (elim exE conjE)
  let ?s = "s\<lparr>mmulock := q, eflags := e\<rparr>"
  have al: "allocated ?s = allocated s" by (simp add: allocated_def)
  have ok': "heap_ok ?s bs" using ok(1) by simp
  obtain t bs' where t: "free_body (m + 24) ?s = Some t" "heap_ok t bs'" "filled bs'" "live bs' = live bs - {m}" "keeps ?s t"
      "\<And>x. x \<in> live bs' \<Longrightarrow> data_of (minors t) x = data_of (minors ?s) x"
      "allocated t = (if ms = [m] then allocated ?s - frames_of (majors ?s) a else allocated ?s)"
    using free_body_ok [OF ok' ok(2) m] by metis
  then obtain q' where q': "liballoc_unlock t = t\<lparr>mmulock := q', eflags := eflags s\<rparr>" "locked q' = 0"
    using lock(2) by (auto simp: keeps_def)
  show thesis
  proof (rule that [of "t\<lparr>mmulock := q', eflags := eflags s\<rparr>" bs'])
    show "Liballoc.free (user_ptr m) s = Some (t\<lparr>mmulock := q', eflags := eflags s\<rparr>)"
      using lock(1) t(1) q'(1) UNALIGN_live [OF ok(1) lm] by (simp add: free_def Let_def)
    show "allocated (t\<lparr>mmulock := q', eflags := eflags s\<rparr>) =
        (if ms = [m] then allocated s - frames_of (majors s) a else allocated s)"
      using t(7) al by (simp add: allocated_def)
  qed (use t(2-6) q'(2) in \<open>simp_all add: heap_inv_filled keeps_def\<close>)
qed

section \<open>Properties\<close>

text \<open>
  C2. \<open>free\<close> of the pointer of a live block on a well-formed heap with a free lock returns, with the lock
  free again and the flags restored: exactly that block is gone, every other live block keeps its
  place, its size and its owner, and the page frames of a major block are given back exactly when
  its last minor block is freed. \<open>free\<close> of \<open>NULL\<close> only counts a warning.
\<close>

theorem free_spec:
  assumes "heap_inv s bs" and "locked (mmulock s) = 0" and "(a, ms) \<in> set bs" and "m \<in> set ms"
  shows "(\<exists>s' bs'. Liballoc.free (user_ptr m) s = Some s' \<and> heap_inv s' bs' \<and> live bs' = live bs - {m} \<and>
       locked (mmulock s') = 0 \<and> eflags s' = eflags s \<and>
       (\<forall>x\<in>live bs'. minor_bytes (minors s') x = minor_bytes (minors s) x \<and> data_of (minors s') x = data_of (minors s) x) \<and>
       allocated s' = (if ms = [m] then allocated s - frames_of (majors s) a else allocated s)) \<and>
     Liballoc.free 0 s = Some (s\<lparr>l_warningCount := l_warningCount s + 1\<rparr>)"
proof -
  obtain s' bs' where s': "Liballoc.free (user_ptr m) s = Some s'" "heap_inv s' bs'" "live bs' = live bs - {m}"
      "locked (mmulock s') = 0" "eflags s' = eflags s" "kmem s' = kmem s"
      "\<And>x. x \<in> live bs' \<Longrightarrow> data_of (minors s') x = data_of (minors s) x"
      "allocated s' = (if ms = [m] then allocated s - frames_of (majors s) a else allocated s)"
    using free_ok [OF assms] by metis
  have "\<forall>x\<in>live bs'. minor_bytes (minors s') x = minor_bytes (minors s) x \<and> data_of (minors s') x = data_of (minors s) x"
    using s'(7) minor_bytes_data by blast
  then show ?thesis using s'(1-5,8) by (auto simp: free_def)
qed

text \<open>A heap with one block of 100 bytes, for the witness.\<close>

definition sample_heap :: liballoc where
  "sample_heap = sample_liballoc\<lparr>
     pageframe_bitmap := Ptr (replicate 256 0xff @ [0xff, 0xff, 0xff, 0]),
     majors := [0x808000 \<mapsto> \<lparr>maj_prev = 0, maj_next = 0, pages = 16, maj_size = 65536, usage = 180, first = 0x808018\<rparr>],
     minors := [0x808018 \<mapsto> \<lparr>min_prev = 0, min_next = 0, block = 0x808000, magic = LIBALLOC_MAGIC, min_size = 132, req_size = 100\<rparr>],
     kmem := (kmem sample_liballoc)(0x808030 := 16), l_memRoot := 0x808000\<rparr>"

lemma sample_heap_inv: "heap_inv sample_heap [(0x808000, [0x808018])]"
proof -
  have "hooks_inv (sample_liballoc\<lparr>kmem := (kmem sample_liballoc)(0x808030 := 16)\<rparr>)"
    using sample_liballoc_inv(1) by (intro hooks_inv_tag) (simp_all add: heap_inv_def heap_ok_def)
  moreover have "{..<2048} \<subseteq> allocated sample_heap" "pf_wf sample_heap"
    by (auto simp: sample_heap_def allocated_def bits_of_iff nth_append bit_ff pf_wf_def sample_liballoc_def sample_hooks_def)
  ultimately have "hooks_inv sample_heap"
    by (simp add: hooks_inv_def frame_inv_def pg_inv_def sample_heap_def)
  moreover have "x \<in> allocated sample_heap" if "2056 \<le> x" "x < 2072" for x
  proof -
    have "x div 8 = 257 \<or> x div 8 = 258" using that by auto
    then show ?thesis
      by (auto simp: sample_heap_def allocated_def bits_of_iff nth_append bit_ff sample_liballoc_def sample_hooks_def)
  qed
  then have "{2056..<2072} \<subseteq> allocated sample_heap" by auto
  moreover have "user_ptr 0x808018 = 0x808040" by (simp add: user_ptr_def)
  moreover from this have "tag_of 0x808018 = 16" by (simp add: tag_of_def)
  ultimately show ?thesis
    by (simp add: heap_inv_def heap_ok_def blocks_ok_def block_ok_def minors_ok_def live_def tagged_def sample_heap_def
        sample_liballoc_def mj_prev_def mj_next_def mi_prev_def mi_next_def used_def size_of_def)
qed

theorem free_spec_witness:
  "\<exists>s' bs'. Liballoc.free (user_ptr 0x808018) sample_heap = Some s' \<and> heap_inv s' bs' \<and> live bs' = {} \<and>
     allocated s' = allocated sample_heap - {2056..<2072}"
proof -
  have "frames_of (majors sample_heap) 0x808000 = {2056..<2072}" by (simp add: frames_of_def sample_heap_def)
  moreover have "locked (mmulock sample_heap) = 0" by (simp add: sample_heap_def)
  ultimately show ?thesis
    using free_spec [OF sample_heap_inv, of "0x808000" "[0x808018]" "0x808018"] by (auto simp: live_def)
qed

text \<open>
  C16. Freeing what \<open>malloc\<close> returned undoes it: the live blocks are those before the allocation, each at its
  place with its data.
\<close>

theorem malloc_free_roundtrip:
  assumes "heap_inv s bs" and "locked (mmulock s) = 0" and "unat req + 80 < 2 ^ 32"
    and "malloc req s = Some (p, t)" and "p \<noteq> 0"
  shows "\<exists>s' bs'. Liballoc.free p t = Some s' \<and> heap_inv s' bs' \<and> live bs' = live bs \<and> locked (mmulock s') = 0 \<and>
     eflags s' = eflags s \<and> (\<forall>x\<in>live bs. data_of (minors s') x = data_of (minors s) x)"
proof -
  let ?sz = "req + 32"
  have ok: "heap_ok s bs" "filled bs" using assms(1) by (simp_all add: heap_inv_filled)
  have u: "unat ?sz = unat req + 32" using assms(3) by (subst unat_add_less) simp_all
  then have sz: "32 \<le> unat ?sz" "unat ?sz + 48 < 2 ^ 32" "unat req + 32 \<le> unat ?sz" using assms(3) by simp_all
  have "?sz \<noteq> 0" using u by auto
  then have run: "malloc_locked ?sz req s = Some (p, t)" using assms(4) by (simp add: malloc_def)
  show ?thesis
  proof (cases rule: malloc_locked_ok [OF sz ok(1) assms(2)])
    case (1 s')
    then show ?thesis using run assms(5) by simp
  next
    case (2 a m t' bs')
    then have t: "t' = t" "p = user_ptr m" using run by simp_all
    have inv: "heap_inv t bs'" using 2(2,3) ok(2) t by (simp add: heap_inv_filled)
    have "m \<in> live bs'" using 2(5) by simp
    then obtain c ms where c: "(c, ms) \<in> set bs'" "m \<in> set ms" unfolding live_iff by blast
    have lk: "locked (mmulock t) = 0" using 2(8) t by simp
    obtain s' bs'' where s': "Liballoc.free (user_ptr m) t = Some s'" "heap_inv s' bs''" "live bs'' = live bs' - {m}"
        "locked (mmulock s') = 0" "eflags s' = eflags t" "kmem s' = kmem t"
        "\<And>x. x \<in> live bs'' \<Longrightarrow> data_of (minors s') x = data_of (minors t) x"
        "allocated s' = (if ms = [m] then allocated t - frames_of (majors t) c else allocated t)"
      using free_ok [OF inv lk c] by metis
    have "live bs'' = live bs" using s'(3) 2(4,5) by auto
    then show ?thesis using s' 2(6,9) t by auto
  qed
qed

theorem malloc_free_roundtrip_witness:
  "\<exists>p t s' bs'. malloc 100 sample_liballoc = Some (p, t) \<and> Liballoc.free p t = Some s' \<and> heap_inv s' bs' \<and> live bs' = {}"
proof -
  have ok: "heap_ok sample_liballoc []" using sample_liballoc_inv(1) by (simp add: heap_inv_def)
  have run: "malloc 100 sample_liballoc = malloc_locked 132 100 sample_liballoc" by (simp add: malloc_def)
  have pages: "unat (pages_needed 132 sample_liballoc) = 16" by (simp add: pages_needed_def sample_liballoc_def)
  have sz: "32 \<le> unat (132 :: u32)" "unat (132 :: u32) + 48 < 2 ^ 32" "unat (100 :: u32) + 32 \<le> unat (132 :: u32)" by simp_all
  have "\<exists>m t. malloc 100 sample_liballoc = Some (user_ptr m, t) \<and> user_ptr m \<noteq> 0"
  proof (cases rule: malloc_locked_ok [OF sz ok sample_liballoc_inv(2)])
    case (1 s')
    then show ?thesis using pages sample_liballoc_fits by simp
  next
    case (2 a m s' bs')
    then show ?thesis using run UNALIGN_live(2) [OF 2(2), of m] by auto
  qed
  then obtain p t where p: "malloc 100 sample_liballoc = Some (p, t)" "p \<noteq> 0" by blast
  then show ?thesis using malloc_free_roundtrip [OF sample_liballoc_inv _ p] by (auto simp: live_def)
qed

text \<open>
  The size computation of \<open>malloc\<close> is not checked for overflow: a request of 0xFFFFFFE0 bytes wraps to 0
  and is served as a request of one byte. When a page run is free the result is not \<open>NULL\<close> but a
  pointer to a block of 33 bytes.
\<close>

theorem malloc_wraps_huge_request:
  fixes s :: "'a liballoc_scheme"
  assumes "heap_inv s bs" and "locked (mmulock s) = 0" and "\<not> no_fit s 16"
  shows "\<exists>p s' m. malloc 0xFFFFFFE0 s = Some (p, s') \<and> p \<noteq> 0 \<and> p = user_ptr m \<and> size_of (minors s') m = 33"
proof -
  have ok: "heap_ok s bs" using assms(1) by (simp add: heap_inv_def)
  obtain q e where lock: "liballoc_lock s = Some (s\<lparr>mmulock := q, eflags := e\<rparr>)"
      "\<forall>t :: 'a liballoc_scheme. mmulock t = q \<longrightarrow> eflags t = e \<longrightarrow>
         (\<exists>q'. liballoc_unlock t = t\<lparr>mmulock := q', eflags := eflags s\<rparr> \<and> locked q' = 0)"
    using liballoc_lock_pair [OF assms(2)] by (elim exE conjE)
  let ?w = "s\<lparr>mmulock := q, eflags := e, l_warningCount := l_warningCount s + 1\<rparr>"
  obtain q' where q': "liballoc_unlock ?w = ?w\<lparr>mmulock := q', eflags := eflags s\<rparr>" "locked q' = 0"
    using lock(2) [rule_format, of ?w] by auto
  let ?t = "?w\<lparr>mmulock := q', eflags := eflags s\<rparr>"
  have run: "malloc 0xFFFFFFE0 s = malloc_locked 33 1 ?t"
    using lock(1) q'(1) by (simp add: malloc_def Let_def)
  have okt: "heap_ok ?t bs" "locked (mmulock ?t) = 0"
    using ok q'(2) by (simp_all add: heap_ok_def hooks_inv_def frame_inv_def pf_wf_def allocated_def pg_inv_def)
  have pages: "unat (pages_needed 33 ?t) = 16" using heap_okD(2,3) [OF ok] by (simp add: pages_needed_def)
  have nf: "\<not> no_fit ?t 16" using assms(3) by (simp add: no_fit_def free_range_def allocated_def)
  have sz: "32 \<le> unat (33 :: u32)" "unat (33 :: u32) + 48 < 2 ^ 32" "unat (1 :: u32) + 32 \<le> unat (33 :: u32)" by simp_all
  show ?thesis
  proof (cases rule: malloc_locked_ok [OF sz okt])
    case (1 s')
    then show ?thesis using pages nf by simp
  next
    case (2 a m s' bs')
    have "size_of (minors s') m = 33" using 2(7) by (auto simp: data_of_def size_of_def)
    then show ?thesis using 2(1) run UNALIGN_live(2) [OF 2(2), of m] 2(5) by auto
  qed
qed

theorem malloc_wraps_huge_request_witness:
  "\<exists>p s' m. malloc 0xFFFFFFE0 sample_liballoc = Some (p, s') \<and> p \<noteq> 0 \<and> p = user_ptr m \<and> size_of (minors s') m = 33"
  using malloc_wraps_huge_request [OF sample_liballoc_inv sample_liballoc_fits] .

end
