(* ===== verification/Mmu.thy ===== *)
theory Mmu
  imports Liballoc_Free
begin

text \<open>
  \<^verbatim>\<open>kernel/mmu/mmu.c\<close>: the allocation calls of the rest of the kernel. They are the functions of the memory
  allocator; the debug messages are left out. The contract the clients rely on is the locale \<open>allocator\<close>,
  interpreted on \<open>mmu_mmap\<close> and \<open>mmu_munmap\<close>.
\<close>

section \<open>Operations\<close>

definition mmu_mmap :: "u32 \<Rightarrow> 'a liballoc_scheme \<Rightarrow> (u32 \<times> 'a liballoc_scheme) option" where
  "mmu_mmap sz s = malloc sz s"

definition mmu_mremap :: "u32 \<Rightarrow> u32 \<Rightarrow> 'a liballoc_scheme \<Rightarrow> (u32 \<times> 'a liballoc_scheme) option" where
  "mmu_mremap old newsize s = realloc old newsize s"

definition mmu_munmap :: "u32 \<Rightarrow> 'a liballoc_scheme \<Rightarrow> 'a liballoc_scheme option" where
  "mmu_munmap m s = Liballoc.free m s"

definition test_pageframe_firstpage :: "'a pageframe_scheme \<Rightarrow> 'a pageframe_scheme option" where
  "test_pageframe_firstpage s = do { (p, s) \<leftarrow> pageframe_alloc 1 s; pageframe_free p 1 s }"

section \<open>The contract\<close>

text \<open>
  \<open>rep s os\<close>: the state \<open>s\<close> is well formed and \<open>os\<close> maps the pointers of its live objects to their sizes. \<open>mem_of\<close> is
  the memory; \<open>set_mem\<close> is a program's store into its objects; \<open>rest\<close> is the client's own part of the state, with the flags
  of the processor.
\<close>

type_synonym objects = "u32 \<Rightarrow> nat option"

definition object_bytes :: "u32 \<Rightarrow> nat \<Rightarrow> nat set" where
  "object_bytes p n = {unat p..<unat p + n}"

definition in_objects :: "objects \<Rightarrow> u32 \<Rightarrow> bool" where
  "in_objects os x \<longleftrightarrow> (\<exists>p n. os p = Some n \<and> unat x \<in> object_bytes p n)"

lemma in_objects_new: "in_objects os x \<Longrightarrow> os p = None \<Longrightarrow> in_objects (os(p \<mapsto> n)) x"
  unfolding in_objects_def by (metis fun_upd_other option.distinct(1))

locale allocator =
  fixes alloc :: "u32 \<Rightarrow> 's \<Rightarrow> (u32 \<times> 's) option"
    and dealloc :: "u32 \<Rightarrow> 's \<Rightarrow> 's option"
    and rep :: "'s \<Rightarrow> objects \<Rightarrow> bool"
    and mem_of :: "'s \<Rightarrow> mem"
    and set_mem :: "mem \<Rightarrow> 's \<Rightarrow> 's"
    and rest :: "'s \<Rightarrow> 'r"
  assumes alloc_returns: "rep s os \<Longrightarrow> unat sz + 80 < 2 ^ 32 \<Longrightarrow> \<exists>p s'. alloc sz s = Some (p, s')"
    and alloc_null: "rep s os \<Longrightarrow> unat sz + 80 < 2 ^ 32 \<Longrightarrow> alloc sz s = Some (0, s') \<Longrightarrow> rep s' os"
    and alloc_new: "rep s os \<Longrightarrow> unat sz + 80 < 2 ^ 32 \<Longrightarrow> alloc sz s = Some (p, s') \<Longrightarrow> p \<noteq> 0 \<Longrightarrow>
      os p = None \<and> rep s' (os(p \<mapsto> unat sz))"
    and alloc_keeps: "rep s os \<Longrightarrow> unat sz + 80 < 2 ^ 32 \<Longrightarrow> alloc sz s = Some (p, s') \<Longrightarrow> in_objects os x \<Longrightarrow>
      mem_of s' x = mem_of s x"
    and dealloc_returns: "rep s os \<Longrightarrow> os p = Some n \<Longrightarrow> \<exists>s'. dealloc p s = Some s'"
    and dealloc_gone: "rep s os \<Longrightarrow> os p = Some n \<Longrightarrow> dealloc p s = Some s' \<Longrightarrow> rep s' (os(p := None))"
    and dealloc_keeps: "rep s os \<Longrightarrow> os p = Some n \<Longrightarrow> dealloc p s = Some s' \<Longrightarrow> mem_of s' = mem_of s"
    and objects_apart: "rep s os \<Longrightarrow> os p = Some n \<Longrightarrow> os q = Some k \<Longrightarrow> p \<noteq> q \<Longrightarrow>
      object_bytes p n \<inter> object_bytes q k = {}"
    and objects_gap: "rep s os \<Longrightarrow> os p = Some n \<Longrightarrow> os q = Some k \<Longrightarrow> p \<noteq> q \<Longrightarrow>
      unat p + n + 40 \<le> unat q \<or> unat q + k + 40 \<le> unat p"
    and object_bounds: "rep s os \<Longrightarrow> os p = Some n \<Longrightarrow> p \<noteq> 0 \<and> 16 dvd unat p \<and> unat p + n \<le> 2 ^ 32"
    and store_ok: "rep s os \<Longrightarrow> (\<And>x. \<not> in_objects os x \<Longrightarrow> m x = mem_of s x) \<Longrightarrow> rep (set_mem m s) os"
    and mem_set [simp]: "mem_of (set_mem m s) = m"
    and alloc_rest: "rep s os \<Longrightarrow> unat sz + 80 < 2 ^ 32 \<Longrightarrow> alloc sz s = Some (p, s') \<Longrightarrow> rest s' = rest s"
    and dealloc_rest: "rep s os \<Longrightarrow> os p = Some n \<Longrightarrow> dealloc p s = Some s' \<Longrightarrow> rest s' = rest s"
    and set_rest [simp]: "rest (set_mem m s) = rest s"

text \<open>
  A richer contract, for clients that rely on the frames and the mapping of pages too: \<open>grown s s'\<close> says that \<open>s'\<close> has everything
  \<open>s\<close> has of them. An allocation and a store into the objects only add to it.
\<close>

locale growing_allocator = allocator alloc dealloc rep mem_of set_mem rest
  for alloc :: "u32 \<Rightarrow> 's \<Rightarrow> (u32 \<times> 's) option" and dealloc :: "u32 \<Rightarrow> 's \<Rightarrow> 's option"
    and rep :: "'s \<Rightarrow> objects \<Rightarrow> bool" and mem_of :: "'s \<Rightarrow> mem" and set_mem :: "mem \<Rightarrow> 's \<Rightarrow> 's" and rest :: "'s \<Rightarrow> 'r" +
  fixes grown :: "'s \<Rightarrow> 's \<Rightarrow> bool"
  assumes grown_trans: "grown s t \<Longrightarrow> grown t u \<Longrightarrow> grown s u"
    and alloc_grown: "rep s os \<Longrightarrow> unat sz + 80 < 2 ^ 32 \<Longrightarrow> alloc sz s = Some (p, s') \<Longrightarrow> grown s s'"
    and store_grown: "rep s os \<Longrightarrow> (\<And>x. \<not> in_objects os x \<Longrightarrow> m x = mem_of s x) \<Longrightarrow> grown s (set_mem m s)"

section \<open>The allocator of the kernel\<close>

definition objects_of :: "(u32 \<Rightarrow> liballoc_minor option) \<Rightarrow> blocks \<Rightarrow> objects" where
  "objects_of mi bs = map_of (map (\<lambda>m. (user_ptr m, unat (req_size (the (mi m))))) (concat (map snd bs)))"

definition mmu_rep :: "'a liballoc_scheme \<Rightarrow> objects \<Rightarrow> bool" where
  "mmu_rep s os \<longleftrightarrow> (\<exists>bs. heap_inv s bs \<and> locked (mmulock s) = 0 \<and> os = objects_of (minors s) bs)"

definition set_kmem :: "mem \<Rightarrow> 'a liballoc_scheme \<Rightarrow> 'a liballoc_scheme" where
  "set_kmem m s = s\<lparr>kmem := m\<rparr>"

text \<open>Where a client's object lies in its minor block.\<close>

lemma live_object:
  assumes ok: "blocks_ok mj mi A bs" and m: "m \<in> live bs"
  shows "unat m + 56 \<le> 2 ^ 32" "unat (user_ptr m) \<in> minor_bytes mi m" "0x800000 \<le> unat m"
    "object_bytes (user_ptr m) (unat (req_size (the (mi m)))) \<subseteq> minor_bytes mi m - {..<unat m + 40}"
    "unat m + 24 + size_of mi m \<le> 2 ^ 32" "unat (user_ptr m) + unat (req_size (the (mi m))) \<le> unat m + 24 + size_of mi m"
proof -
  obtain a ms where a: "(a, ms) \<in> set bs" "m \<in> set ms" using m unfolding live_iff by blast
  note B = block_of_minor [OF ok a]
  obtain r where r: "block_ok r mi A a ms" using blocks_okD(3) [OF ok a(1)] by blast
  obtain n where n: "mi m = Some n" "unat (req_size n) + 32 \<le> unat (min_size n)" using block_okD(9) [OF r a(2)] by blast
  show u: "unat m + 56 \<le> 2 ^ 32" using B(3,4) by linarith
  note U = user_ptr_bounds [OF u]
  show "unat (user_ptr m) \<in> minor_bytes mi m" using U(2,3) B(3) by (auto simp: minor_bytes_def)
  show "0x800000 \<le> unat m" "unat m + 24 + size_of mi m \<le> 2 ^ 32" using B(4,5) by simp_all
  show "unat (user_ptr m) + unat (req_size (the (mi m))) \<le> unat m + 24 + size_of mi m"
    using n U(3) by (simp add: size_of_def)
  then show "object_bytes (user_ptr m) (unat (req_size (the (mi m)))) \<subseteq> minor_bytes mi m - {..<unat m + 40}"
    using U(2) by (auto simp: object_bytes_def minor_bytes_def)
qed

lemma user_ptr_inj:
  assumes "blocks_ok mj mi A bs" "x \<in> live bs" "y \<in> live bs" "user_ptr x = user_ptr y"
  shows "x = y"
  using live_object(2) [OF assms(1,2)] live_object(2) [OF assms(1,3)] live_disjoint [OF assms(1-3)] assms(4) by auto

lemma objects_of_iff:
  assumes ok: "blocks_ok mj mi A bs"
  shows "objects_of mi bs p = Some n \<longleftrightarrow> (\<exists>m\<in>live bs. p = user_ptr m \<and> n = unat (req_size (the (mi m))))"
proof -
  let ?l = "map (\<lambda>m. (user_ptr m, unat (req_size (the (mi m))))) (concat (map snd bs))"
  have lv: "set (concat (map snd bs)) = live bs" by (auto simp: live_def)
  have mem: "(p, k) \<in> set ?l \<longleftrightarrow> (\<exists>m\<in>live bs. p = user_ptr m \<and> k = unat (req_size (the (mi m))))" for k
    using lv by auto
  have "map_of ?l p = Some n" if n: "(p, n) \<in> set ?l"
  proof -
    have "fst (p, n) \<in> fst ` set ?l" using n by (rule imageI)
    then have "map_of ?l p \<noteq> None" by (simp only: map_of_eq_None_iff fst_conv not_not simp_thms)
    then obtain k where k: "map_of ?l p = Some k" by (elim not_None_eq [THEN iffD1, THEN exE])
    then have pk: "(p, k) \<in> set ?l" by (rule map_of_SomeD)
    obtain x y where "x \<in> live bs" "p = user_ptr x" "n = unat (req_size (the (mi x)))"
        "y \<in> live bs" "p = user_ptr y" "k = unat (req_size (the (mi y)))"
      using n pk unfolding mem by (elim bexE conjE)
    then have "k = n" using user_ptr_inj [OF ok, of x y] by simp
    then show ?thesis using k by simp
  qed
  then show ?thesis using map_of_SomeD [of ?l p n] mem unfolding objects_of_def by blast
qed

lemma objects_of_None:
  assumes ok: "blocks_ok mj mi A bs"
  shows "objects_of mi bs p = None \<longleftrightarrow> p \<notin> user_ptr ` live bs"
  using objects_of_iff [OF ok, of p] by (metis image_iff not_Some_eq)

lemma data_req: "data_of mi' x = data_of mi x \<Longrightarrow> req_size (the (mi' x)) = req_size (the (mi x))"
  by (cases "mi' x"; cases "mi x") (auto simp: data_of_def)

lemma objects_eqI: "(\<And>p n. f p = Some n \<longleftrightarrow> g p = Some n) \<Longrightarrow> f = (g :: objects)"
  by (intro ext) (metis not_Some_eq)

lemma live_same:
  assumes "\<forall>x\<in>L. data_of mi' x = data_of mi x"
  shows "(\<exists>m\<in>L. p = user_ptr m \<and> n = unat (req_size (the (mi' m)))) \<longleftrightarrow> (\<exists>m\<in>L. p = user_ptr m \<and> n = unat (req_size (the (mi m))))"
  using assms data_req by (intro bex_cong refl) (metis (no_types))

lemma objects_of_same:
  assumes "blocks_ok mj mi A bs" "blocks_ok mj' mi' A' bs'" "live bs' = live bs" "\<forall>x\<in>live bs. data_of mi' x = data_of mi x"
  shows "objects_of mi' bs' = objects_of mi bs"
  by (rule objects_eqI) (simp only: objects_of_iff [OF assms(1)] objects_of_iff [OF assms(2)] assms(3) live_same [OF assms(4)])

lemma objects_of_insert:
  assumes ok: "blocks_ok mj mi A bs" "blocks_ok mj' mi' A' bs'" and m: "live bs' = insert m (live bs)" "m \<notin> live bs"
    and same: "\<forall>x\<in>live bs. data_of mi' x = data_of mi x"
  shows "objects_of mi' bs' = (objects_of mi bs)(user_ptr m \<mapsto> unat (req_size (the (mi' m))))"
    "objects_of mi bs (user_ptr m) = None"
proof -
  have ne: "user_ptr m \<notin> user_ptr ` live bs" using user_ptr_inj [OF ok(2), of _ m] m by force
  then show none: "objects_of mi bs (user_ptr m) = None" by (simp add: objects_of_None [OF ok(1)])
  show "objects_of mi' bs' = (objects_of mi bs)(user_ptr m \<mapsto> unat (req_size (the (mi' m))))"
  proof (rule objects_eqI)
    fix p n
    have "objects_of mi' bs' p = Some n \<longleftrightarrow> p = user_ptr m \<and> n = unat (req_size (the (mi' m))) \<or> objects_of mi bs p = Some n"
      by (simp only: objects_of_iff [OF ok(1)] objects_of_iff [OF ok(2)] m(1) bex_simps live_same [OF same])
    then show "objects_of mi' bs' p = Some n \<longleftrightarrow> ((objects_of mi bs)(user_ptr m \<mapsto> unat (req_size (the (mi' m))))) p = Some n"
      using none by auto
  qed
qed

lemma objects_of_remove:
  assumes ok: "blocks_ok mj mi A bs" "blocks_ok mj' mi' A' bs'" and m: "live bs' = live bs - {m}" "m \<in> live bs"
    and same: "\<forall>x\<in>live bs'. data_of mi' x = data_of mi x"
  shows "objects_of mi' bs' = (objects_of mi bs)(user_ptr m := None)"
proof (rule objects_eqI)
  fix p n
  have "objects_of mi' bs' p = Some n \<longleftrightarrow> (\<exists>x\<in>live bs'. p = user_ptr x \<and> n = unat (req_size (the (mi x))))"
    by (simp only: objects_of_iff [OF ok(2)] live_same [OF same])
  also have "\<dots> \<longleftrightarrow> p \<noteq> user_ptr m \<and> (\<exists>x\<in>live bs. p = user_ptr x \<and> n = unat (req_size (the (mi x))))"
  proof -
    have "user_ptr x \<noteq> user_ptr m" if "x \<in> live bs" "x \<noteq> m" for x
      using user_ptr_inj [OF ok(1) that(1) m(2)] that(2) by blast
    then show ?thesis unfolding m(1) by (metis Diff_iff singletonD singletonI)
  qed
  also have "\<dots> \<longleftrightarrow> p \<noteq> user_ptr m \<and> objects_of mi bs p = Some n" by (simp only: objects_of_iff [OF ok(1)])
  finally show "objects_of mi' bs' p = Some n \<longleftrightarrow> ((objects_of mi bs)(user_ptr m := None)) p = Some n" by simp
qed

definition client :: "'a liballoc_scheme \<Rightarrow> u32 \<times> 'a" where
  "client s = (eflags s, liballoc.more s)"

lemma mmap_cases:
  assumes rep: "mmu_rep s os" and sz: "unat sz + 80 < 2 ^ 32"
  obtains (null) s' where "mmu_mmap sz s = Some (0, s')" "mmu_rep s' os" "same_high (kmem s) (kmem s')" "client s' = client s" "grows s s'"
  | (new) m s' where "mmu_mmap sz s = Some (user_ptr m, s')" "user_ptr m \<noteq> 0" "os (user_ptr m) = None"
      "mmu_rep s' (os(user_ptr m \<mapsto> unat sz))" "same_high ((kmem s)(user_ptr m - 16 := tag_of m)) (kmem s')" "client s' = client s" "grows s s'"
proof -
  obtain bs where bs: "heap_ok s bs" "filled bs" "locked (mmulock s) = 0" "os = objects_of (minors s) bs"
    using rep by (auto simp: mmu_rep_def heap_inv_filled)
  have u: "unat (sz + 32) = unat sz + 32" using sz by (subst unat_add_less) simp_all
  then have b: "32 \<le> unat (sz + 32)" "unat (sz + 32) + 48 < 2 ^ 32" "unat sz + 32 \<le> unat (sz + 32)" using sz by simp_all
  have "sz + 32 \<noteq> 0" using u by auto
  then have run: "mmu_mmap sz s = malloc_locked (sz + 32) sz s" by (simp add: mmu_mmap_def malloc_def)
  note B = heap_okD(4) [OF bs(1)]
  show thesis
  proof (cases rule: malloc_locked_ok [OF b bs(1,3)])
    case (1 s')
    have "mmu_rep s' os"
      unfolding mmu_rep_def using 1(2,3,4) bs(2,4) by (auto simp: heap_inv_filled)
    then show thesis using null run 1 by (simp add: client_def)
  next
    case (2 a m s' bs')
    note B' = heap_okD(4) [OF 2(2)]
    have r: "req_size (the (minors s' m)) = sz" using 2(7) by (auto simp: data_of_def)
    have same: "\<forall>x\<in>live bs. data_of (minors s') x = data_of (minors s) x" using 2(6) by blast
    note O = objects_of_insert [OF B B' 2(5,4) same]
    have "mmu_rep s' (os(user_ptr m \<mapsto> unat sz))"
      unfolding mmu_rep_def using 2(2,3,8) bs(2) O(1) r bs(4) by (intro exI [of _ bs']) (simp add: heap_inv_filled)
    then show thesis using new [of m s'] run 2(1,10) O(2) bs(4) UNALIGN_live(2) [OF 2(2), of m] 2(5,9,11,12) by (simp add: client_def)
  qed
qed

lemma munmap_ok:
  assumes rep: "mmu_rep s os" and p: "os p = Some n"
  obtains s' where "mmu_munmap p s = Some s'" "mmu_rep s' (os(p := None))" "kmem s' = kmem s" "client s' = client s"
proof -
  obtain bs where bs: "heap_inv s bs" "locked (mmulock s) = 0" "os = objects_of (minors s) bs"
    using rep by (auto simp: mmu_rep_def)
  have B: "blocks_ok (majors s) (minors s) (allocated s) bs" using bs(1) heap_okD(4) by (auto simp: heap_inv_def)
  obtain m where m: "m \<in> live bs" "p = user_ptr m" using p bs(3) objects_of_iff [OF B] by auto
  obtain a ms where a: "(a, ms) \<in> set bs" "m \<in> set ms" using m(1) unfolding live_iff by blast
  obtain s' bs' where s': "Liballoc.free (user_ptr m) s = Some s'" "heap_inv s' bs'" "live bs' = live bs - {m}"
      "locked (mmulock s') = 0" "eflags s' = eflags s" "kmem s' = kmem s"
      "\<And>x. x \<in> live bs' \<Longrightarrow> data_of (minors s') x = data_of (minors s) x"
      "allocated s' = (if ms = [m] then allocated s - frames_of (majors s) a else allocated s)" "liballoc.more s' = liballoc.more s"
    using free_ok [OF bs(1,2) a] by metis
  have B': "blocks_ok (majors s') (minors s') (allocated s') bs'" using s'(2) heap_okD(4) by (auto simp: heap_inv_def)
  have "objects_of (minors s') bs' = os(p := None)"
    using objects_of_remove [OF B B' s'(3) m(1)] s'(7) bs(3) m(2) by blast
  then have "mmu_rep s' (os(p := None))" unfolding mmu_rep_def using s'(2,4) by metis
  then show thesis using that [of s'] s'(1,5,6,9) m(2) by (simp add: mmu_munmap_def client_def)
qed

lemma rep_object:
  assumes rep: "mmu_rep s os" and p: "os p = Some n"
  obtains bs m where "heap_ok s bs" "os = objects_of (minors s) bs" "m \<in> live bs" "p = user_ptr m"
    "n = unat (req_size (the (minors s m)))"
proof -
  obtain bs where bs: "heap_ok s bs" "os = objects_of (minors s) bs"
    using rep by (auto simp: mmu_rep_def heap_inv_def)
  obtain m where "m \<in> live bs" "p = user_ptr m" "n = unat (req_size (the (minors s m)))"
    using p bs(2) objects_of_iff [OF heap_okD(4) [OF bs(1)]] by auto
  then show thesis using that bs by blast
qed

lemma object_high:
  assumes rep: "mmu_rep s os" and x: "in_objects os x"
  shows "0x800000 \<le> unat x" "\<And>bs m. heap_ok s bs \<Longrightarrow> os = objects_of (minors s) bs \<Longrightarrow> m \<in> live bs \<Longrightarrow> x \<noteq> user_ptr m - 16"
proof -
  obtain p n where p: "os p = Some n" "unat x \<in> object_bytes p n" using x by (auto simp: in_objects_def)
  obtain bs m where m: "heap_ok s bs" "os = objects_of (minors s) bs" "m \<in> live bs" "p = user_ptr m"
      "n = unat (req_size (the (minors s m)))" by (rule rep_object [OF rep p(1)])
  note L = live_object [OF heap_okD(4) [OF m(1)] m(3)]
  show "0x800000 \<le> unat x" using L(3,4) p(2) m(4,5) by auto
  fix bs' m'
  assume h: "heap_ok s bs'" "os = objects_of (minors s) bs'" "m' \<in> live bs'"
  note B' = heap_okD(4) [OF h(1)]
  obtain k where k: "k \<in> live bs'" "p = user_ptr k" "n = unat (req_size (the (minors s k)))"
    using p(1) h(2) objects_of_iff [OF B'] by auto
  note K = live_object [OF B' k(1)] and M = live_object [OF B' h(3)]
  have xin: "unat x \<in> minor_bytes (minors s) k" "unat k + 40 \<le> unat x" using K(4) p(2) k(2,3) by auto
  note T = tag_addr [OF M(1)]
  show "x \<noteq> user_ptr m' - 16"
  proof (cases "k = m'")
    case True
    then show ?thesis using T(3) xin(2) by auto
  next
    case False
    obtain a ms where "(a, ms) \<in> set bs'" "m' \<in> set ms" using h(3) unfolding live_iff by blast
    then have "32 \<le> size_of (minors s) m'" by (rule block_of_minor(3) [OF B'])
    then have "unat (user_ptr m' - 16) \<in> minor_bytes (minors s) m'" using T(2,3) by (auto simp: minor_bytes_def)
    then show ?thesis using live_disjoint [OF B' k(1) h(3) False] xin(1) by auto
  qed
qed

lemma rep_apart:
  assumes rep: "mmu_rep s os" and pq: "os p = Some n" "os q = Some k" "p \<noteq> q"
  shows "object_bytes p n \<inter> object_bytes q k = {}"
proof -
  obtain bs m where m: "heap_ok s bs" "os = objects_of (minors s) bs" "m \<in> live bs" "p = user_ptr m"
      "n = unat (req_size (the (minors s m)))" by (rule rep_object [OF rep pq(1)])
  note B = heap_okD(4) [OF m(1)]
  obtain l where l: "l \<in> live bs" "q = user_ptr l" "k = unat (req_size (the (minors s l)))"
    using pq(2) m(2) objects_of_iff [OF B] by auto
  have "m \<noteq> l" using pq(3) m(4) l(2) by blast
  then show ?thesis using live_object(4) [OF B m(3)] live_object(4) [OF B l(1)] live_disjoint [OF B m(3) l(1)] m(4,5) l(2,3) by blast
qed

lemma intervals_apart:
  assumes "{a..<b} \<inter> {c..<d} = {}" "a < b" "c < (d :: nat)"
  shows "b \<le> c \<or> d \<le> a"
proof (rule ccontr)
  assume "\<not> (b \<le> c \<or> d \<le> a)"
  then have "max a c \<in> {a..<b} \<inter> {c..<d}" using assms(2,3) by auto
  then show False using assms(1) by blast
qed

text \<open>Between two objects there is the header of a minor block and an alignment tag.\<close>

lemma rep_gap:
  assumes rep: "mmu_rep s os" and pq: "os p = Some n" "os q = Some k" "p \<noteq> q"
  shows "unat p + n + 40 \<le> unat q \<or> unat q + k + 40 \<le> unat p"
proof -
  obtain bs m where m: "heap_ok s bs" "os = objects_of (minors s) bs" "m \<in> live bs" "p = user_ptr m"
      "n = unat (req_size (the (minors s m)))" by (rule rep_object [OF rep pq(1)])
  note B = heap_okD(4) [OF m(1)]
  obtain l where l: "l \<in> live bs" "q = user_ptr l" "k = unat (req_size (the (minors s l)))"
    using pq(2) m(2) objects_of_iff [OF B] by auto
  have ne: "m \<noteq> l" using pq(3) m(4) l(2) by blast
  note M = live_object [OF B m(3)] and L = live_object [OF B l(1)]
  have "{unat m..<unat m + 24 + size_of (minors s) m} \<inter> {unat l..<unat l + 24 + size_of (minors s) l} = {}"
    using live_disjoint [OF B m(3) l(1) ne] by (simp add: minor_bytes_def)
  then have "unat m + 24 + size_of (minors s) m \<le> unat l \<or> unat l + 24 + size_of (minors s) l \<le> unat m"
    by (intro intervals_apart) simp_all
  then show ?thesis using M(6) L(6) user_ptr_bounds(2) [OF M(1)] user_ptr_bounds(2) [OF L(1)]
    unfolding m(4,5) l(2,3) by linarith
qed

lemma rep_store:
  assumes rep: "mmu_rep s os" and m: "\<And>x. \<not> in_objects os x \<Longrightarrow> k x = kmem s x"
  shows "mmu_rep (set_kmem k s) os"
proof -
  obtain bs where bs: "heap_ok s bs" "filled bs" "locked (mmulock s) = 0" "os = objects_of (minors s) bs"
    using rep by (auto simp: mmu_rep_def heap_inv_filled)
  note D = heap_okD [OF bs(1)]
  have "same_low (kmem s) k" using m object_high(1) [OF rep] unfolding same_low_def by (meson not_le)
  then have "hooks_inv (s\<lparr>kmem := k\<rparr>)" using D(1) pg_inv_same_low(1) [of s k] by (simp add: hooks_inv_def)
  moreover have "tagged k x" if "x \<in> live bs" for x
    using D(7) [OF that] m [of "user_ptr x - 16"] object_high(2) [OF rep _ bs(1,4) that] by (auto simp: tagged_def)
  moreover have "allocated (s\<lparr>kmem := k\<rparr>) = allocated s" by (simp add: allocated_def)
  ultimately have "heap_ok (s\<lparr>kmem := k\<rparr>) bs" using D by (simp add: heap_ok_def)
  then show ?thesis unfolding mmu_rep_def set_kmem_def using bs by (auto simp: heap_inv_filled)
qed

text \<open>An allocation does not change the contents of the live objects.\<close>

lemma mmap_keeps:
  assumes h: "mmu_rep s os" "unat sz + 80 < 2 ^ 32" and run: "mmu_mmap sz s = Some (p, s')" and x: "in_objects os x"
  shows "kmem s' x = kmem s x"
proof (cases rule: mmap_cases [OF h])
  case (1 t)
  then show ?thesis using run object_high(1) [OF h(1) x] by (simp add: same_high_def)
next
  case (2 m t)
  then have t: "t = s'" using run by simp
  let ?os = "os(user_ptr m \<mapsto> unat sz)"
  have rep: "mmu_rep s' ?os" using 2(4) t by simp
  have x': "in_objects ?os x" by (rule in_objects_new [OF x 2(3)])
  obtain bs l where l: "heap_ok s' bs" "?os = objects_of (minors s') bs" "l \<in> live bs" "user_ptr m = user_ptr l"
      "unat sz = unat (req_size (the (minors s' l)))" by (rule rep_object [OF rep]) auto
  have "x \<noteq> user_ptr m - 16" using object_high(2) [OF rep x' l(1-3)] l(4) by simp
  then show ?thesis using 2(5) t object_high(1) [OF h(1) x] by (auto simp: same_high_def)
qed

interpretation mm: allocator mmu_mmap mmu_munmap mmu_rep kmem set_kmem client
proof unfold_locales
  fix s :: "'a liballoc_scheme" and os :: objects and sz :: u32
  assume h: "mmu_rep s os" "unat sz + 80 < 2 ^ 32"
  show "\<exists>p s'. mmu_mmap sz s = Some (p, s')" using mmap_cases [OF h] by metis
  show "mmu_rep s' os" if "mmu_mmap sz s = Some (0, s')" for s'
    using that by (cases rule: mmap_cases [OF h]) auto
  show "os p = None \<and> mmu_rep s' (os(p \<mapsto> unat sz))" if "mmu_mmap sz s = Some (p, s')" "p \<noteq> 0" for p s'
    using that by (cases rule: mmap_cases [OF h]) auto
  show "kmem s' x = kmem s x" if run: "mmu_mmap sz s = Some (p, s')" and x: "in_objects os x" for p s' x
    by (rule mmap_keeps [OF h run x])
  show "client s' = client s" if "mmu_mmap sz s = Some (p, s')" for p s'
    using that by (cases rule: mmap_cases [OF h]) auto
next
  fix s :: "'a liballoc_scheme" and os :: objects and p n
  assume h: "mmu_rep s os" "os p = Some n"
  show "\<exists>s'. mmu_munmap p s = Some s'" using munmap_ok [OF h] by metis
  show "mmu_rep s' (os(p := None))" "kmem s' = kmem s" "client s' = client s" if "mmu_munmap p s = Some s'" for s'
    using that munmap_ok [OF h] by (metis option.inject)+
  show "p \<noteq> 0 \<and> 16 dvd unat p \<and> unat p + n \<le> 2 ^ 32"
  proof -
    obtain bs m where m: "heap_ok s bs" "os = objects_of (minors s) bs" "m \<in> live bs" "p = user_ptr m"
        "n = unat (req_size (the (minors s m)))" by (rule rep_object [OF h])
    note L = live_object [OF heap_okD(4) [OF m(1)] m(3)]
    show ?thesis using UNALIGN_live(2) [OF m(1,3)] user_ptr_bounds(4) [OF L(1)] L(5,6) m(4,5) by simp
  qed
next
  fix s :: "'a liballoc_scheme" and os :: objects and p q n k
  assume "mmu_rep s os" "os p = Some n" "os q = Some k" "p \<noteq> q"
  then show "object_bytes p n \<inter> object_bytes q k = {}" "unat p + n + 40 \<le> unat q \<or> unat q + k + 40 \<le> unat p"
    by (rule rep_apart, rule rep_gap)
next
  fix s :: "'a liballoc_scheme" and os :: objects and m
  assume "mmu_rep s os" "\<And>x. \<not> in_objects os x \<Longrightarrow> m x = kmem s x"
  then show "mmu_rep (set_kmem m s) os" by (rule rep_store)
next
  fix s :: "'a liballoc_scheme" and m
  show "kmem (set_kmem m s) = m" "client (set_kmem m s) = client s" by (simp_all add: set_kmem_def client_def)
qed

lemma mmu_rep_hooks: "mmu_rep s os \<Longrightarrow> hooks_inv s"
  by (auto simp: mmu_rep_def heap_inv_def dest: heap_okD(1))

interpretation gm: growing_allocator mmu_mmap mmu_munmap mmu_rep kmem set_kmem client grows
proof unfold_locales
  fix s t u :: "'a liballoc_scheme"
  assume "grows s t" "grows t u"
  then show "grows s u" by (rule grows_trans)
next
  fix s s' :: "'a liballoc_scheme" and os :: objects and sz p
  assume h: "mmu_rep s os" "unat sz + 80 < 2 ^ 32" and run: "mmu_mmap sz s = Some (p, s')"
  show "grows s s'" using run by (cases rule: mmap_cases [OF h]) simp_all
next
  fix s :: "'a liballoc_scheme" and os :: objects and m
  assume h: "mmu_rep s os" "\<And>x. \<not> in_objects os x \<Longrightarrow> m x = kmem s x"
  then have "same_low (kmem s) m" using object_high(1) [OF h(1)] unfolding same_low_def by (meson not_le)
  then show "grows s (set_kmem m s)" using grows_store [OF mmu_rep_hooks [OF h(1)]] by (simp add: set_kmem_def)
qed

section \<open>Properties\<close>

text \<open>
  C28. The allocation calls implement the abstract map from object pointers to sizes: \<open>mmu_mmap\<close> returns \<open>NULL\<close>
  with the map unchanged or adds one new object, \<open>mmu_munmap\<close> removes the object, and neither changes a
  byte of the objects that are alive before and after; live objects never overlap.
\<close>

theorem mmu_refines_objects:
  assumes "mmu_rep s os" and "unat sz + 80 < 2 ^ 32" and "os q = Some n"
  shows "(\<exists>p s'. mmu_mmap sz s = Some (p, s') \<and>
       mmu_rep s' (if p = 0 then os else os(p \<mapsto> unat sz)) \<and> os p = None \<and>
       (\<forall>x. in_objects os x \<longrightarrow> kmem s' x = kmem s x)) \<and>
     (\<exists>s'. mmu_munmap q s = Some s' \<and> mmu_rep s' (os(q := None)) \<and> kmem s' = kmem s) \<and>
     (\<forall>r k. os r = Some k \<longrightarrow> r \<noteq> q \<longrightarrow> object_bytes r k \<inter> object_bytes q n = {})"
proof -
  obtain p s' where p: "mmu_mmap sz s = Some (p, s')" using mm.alloc_returns [OF assms(1,2)] by blast
  have "mmu_rep s' (if p = 0 then os else os(p \<mapsto> unat sz)) \<and> os p = None"
  proof (cases "p = 0")
    case True
    then have "os p = None" using mm.object_bounds [OF assms(1)] by (cases "os p") auto
    then show ?thesis using True mm.alloc_null [OF assms(1,2)] p by simp
  next
    case False
    then show ?thesis using mm.alloc_new [OF assms(1,2) p] by simp
  qed
  moreover have "\<forall>x. in_objects os x \<longrightarrow> kmem s' x = kmem s x" using mm.alloc_keeps [OF assms(1,2) p] by blast
  moreover obtain t where "mmu_munmap q s = Some t" using mm.dealloc_returns [OF assms(1,3)] by blast
  moreover from this have "mmu_rep t (os(q := None))" "kmem t = kmem s"
    using mm.dealloc_gone [OF assms(1,3)] mm.dealloc_keeps [OF assms(1,3)] by blast+
  moreover have "object_bytes r k \<inter> object_bytes q n = {}" if "os r = Some k" "r \<noteq> q" for r k
    by (rule mm.objects_apart [OF assms(1) that(1) assms(3) that(2)])
  ultimately show ?thesis using p by blast
qed

lemma sample_heap_rep: "mmu_rep sample_heap [0x808040 \<mapsto> 100]"
proof -
  have "objects_of (minors sample_heap) [(0x808000, [0x808018])] = [0x808040 \<mapsto> 100]"
    by (simp add: objects_of_def sample_heap_def user_ptr_def)
  moreover have "locked (mmulock sample_heap) = 0" by (simp add: sample_heap_def)
  ultimately show ?thesis using sample_heap_inv unfolding mmu_rep_def by metis
qed

theorem mmu_refines_objects_witness:
  "\<exists>p s' s''. mmu_mmap 40 sample_heap = Some (p, s') \<and> mmu_rep s' (if p = 0 then [0x808040 \<mapsto> 100] else [0x808040 \<mapsto> 100, p \<mapsto> 40]) \<and>
     mmu_munmap 0x808040 sample_heap = Some s'' \<and> mmu_rep s'' (\<lambda>_. None)"
  using mmu_refines_objects [OF sample_heap_rep, of 40 "0x808040" 100] by (auto split: if_splits)

end
