(* ===== verification/Objects.thy ===== *)
theory Objects
  imports Mmu
begin

text \<open>
  What the clients of the memory allocator use of it: objects as byte lists in the kernel's memory, their 32-bit
  fields, copies into them (\<open>_memcpy\<close> of \<^verbatim>\<open>kernel/utils/string.c\<close>), and the frame laws that the locale
  \<open>allocator\<close> gives: a store into one object unchanged every other object, an allocation unchanged them all.
\<close>

section \<open>Bytes of the memory\<close>

definition obj :: "mem \<Rightarrow> u32 \<Rightarrow> nat \<Rightarrow> bytes" where
  "obj m p n = map (\<lambda>i. m (p + of_nat i)) [0..<n]"

fun write_bytes :: "mem \<Rightarrow> u32 \<Rightarrow> bytes \<Rightarrow> mem" where
  "write_bytes m a [] = m"
| "write_bytes m a (b # bs) = write_bytes (m(a := b)) (a + 1) bs"

text \<open>\<open>_memcpy\<close> from a buffer of the caller into the memory and back: a buffer that is too short is an access out of range.\<close>

definition memcpy_to :: "u32 \<Rightarrow> bytes \<Rightarrow> nat \<Rightarrow> mem \<Rightarrow> mem option" where
  "memcpy_to dst src len m = (if len \<le> length src then Some (write_bytes m dst (take len src)) else None)"

definition memcpy_from :: "bytes \<Rightarrow> u32 \<Rightarrow> nat \<Rightarrow> mem \<Rightarrow> bytes option" where
  "memcpy_from dst src len m = (if len \<le> length dst then Some (obj m src len @ drop len dst) else None)"

section \<open>Lemmas on bytes\<close>

lemma length_obj [simp]: "length (obj m p n) = n"
  by (simp add: obj_def)

lemma obj_nth: "i < n \<Longrightarrow> obj m p n ! i = m (p + of_nat i)"
  by (simp add: obj_def)

lemma obj_eq_iff: "obj m p n = obj m' p n \<longleftrightarrow> (\<forall>i<n. m (p + of_nat i) = m' (p + of_nat i))"
  by (auto simp: obj_def)

lemma obj_addr: "unat (p :: u32) + n \<le> 2 ^ 32 \<Longrightarrow> i < n \<Longrightarrow> unat (p + of_nat i) = unat p + i"
  using unat_add_less [of p "of_nat i"] unat_of_nat_small [of i, where ?'a = 32] unat_less_32 [of p] by simp

lemma write_bytes_outside:
  "unat a + length bs \<le> 2 ^ 32 \<Longrightarrow> unat x \<notin> object_bytes a (length bs) \<Longrightarrow> write_bytes m a bs x = m x"
proof (induction bs arbitrary: m a)
  case (Cons b bs)
  show ?case
  proof (cases bs)
    case Nil
    then show ?thesis using Cons.prems(2) by (auto simp: object_bytes_def)
  next
    case (Cons c cs)
    then have "unat a + 1 < 2 ^ 32" using \<open>unat a + length (b # bs) \<le> 2 ^ 32\<close> by simp
    then have "unat (a + 1) = unat a + 1" by (subst unat_add_less) simp_all
    moreover have "unat x \<notin> object_bytes (a + 1) (length bs)" "x \<noteq> a"
      using calculation \<open>unat x \<notin> object_bytes a (length (b # bs))\<close> by (auto simp: object_bytes_def)
    ultimately show ?thesis using Cons.prems(1) by (simp add: Cons.IH)
  qed
qed simp

lemma write_bytes_inside:
  "unat a + length bs \<le> 2 ^ 32 \<Longrightarrow> i < length bs \<Longrightarrow> write_bytes m a bs (a + of_nat i) = bs ! i"
proof (induction bs arbitrary: m a i)
  case (Cons b bs)
  show ?case
  proof (cases "bs = []")
    case True
    then show ?thesis using Cons.prems(2) by simp
  next
    case False
    then have "1 \<le> length bs" by (cases bs) simp_all
    then have "unat a + 1 < 2 ^ 32" using Cons.prems(1) by simp
    then have a: "unat (a + 1) = unat a + 1" by (subst unat_add_less) simp_all
    show ?thesis
    proof (cases i)
      case 0
      have "write_bytes (m(a := b)) (a + 1) bs a = b"
        using a Cons.prems(1) by (subst write_bytes_outside) (auto simp: object_bytes_def)
      then show ?thesis using 0 by simp
    next
      case (Suc j)
      have "a + of_nat i = a + 1 + of_nat j" using Suc by simp
      moreover have "write_bytes m' (a + 1) bs (a + 1 + of_nat j) = bs ! j" for m'
        using Suc a Cons.prems by (intro Cons.IH) auto
      ultimately show ?thesis using Suc by (simp only: write_bytes.simps nth_Cons_Suc)
    qed
  qed
qed simp

lemma obj_write_bytes: "unat a + length bs \<le> 2 ^ 32 \<Longrightarrow> obj (write_bytes m a bs) a (length bs) = bs"
  by (intro nth_equalityI) (simp_all add: obj_nth write_bytes_inside)

section \<open>Fields\<close>

lemma field_addr:
  "16 dvd unat (p :: u32) \<Longrightarrow> unat p + n \<le> 2 ^ 32 \<Longrightarrow> k + 4 \<le> n \<Longrightarrow> 4 dvd k \<Longrightarrow> unat (p + of_nat k) = unat p + k"
  "16 dvd unat p \<Longrightarrow> unat p + n \<le> 2 ^ 32 \<Longrightarrow> k + 4 \<le> n \<Longrightarrow> 4 dvd k \<Longrightarrow> 4 dvd unat (p + of_nat k)"
proof -
  assume *: "16 dvd unat p" "unat p + n \<le> 2 ^ 32" "k + 4 \<le> n" "4 dvd k"
  then show "unat (p + of_nat k) = unat p + k" using obj_addr [of p n k] by simp
  moreover have "(4 :: nat) dvd 16" by simp
  then have "4 dvd unat p" using *(1) dvd_trans by blast
  ultimately show "4 dvd unat (p + of_nat k)" using *(4) by simp
qed

lemma load32_obj:
  assumes "obj m p n = obj m' p n" "k + 4 \<le> n"
  shows "load32 m (p + of_nat k) = load32 m' (p + of_nat k)"
proof -
  have e: "m (p + of_nat k + of_nat j) = m' (p + of_nat k + of_nat j)" if "j < 4" for j
  proof -
    have "k + j < n" using assms(2) that by simp
    then have "m (p + of_nat (k + j)) = m' (p + of_nat (k + j))" using assms(1) unfolding obj_eq_iff by blast
    then show ?thesis by (simp only: of_nat_add add.assoc)
  qed
  show ?thesis using e [of 0] e [of 1] e [of 2] e [of 3] by (simp add: load32_def)
qed

lemma store32_outside:
  assumes "unat a + 4 \<le> 2 ^ 32" "unat x \<notin> object_bytes a 4"
  shows "store32 m a v x = m x"
proof -
  have "unat (a + of_nat j) = unat a + j" if "j < 4" for j using obj_addr [OF assms(1) that] .
  from this [of 0] this [of 1] this [of 2] this [of 3] have "x \<noteq> a" "x \<noteq> a + 1" "x \<noteq> a + 2" "x \<noteq> a + 3"
    using assms(2) by (auto simp: object_bytes_def)
  then show ?thesis by (simp add: store32_def)
qed

section \<open>Frames\<close>

text \<open>All objects of \<open>os\<close> but those in \<open>X\<close> have the same bytes in both memories.\<close>

definition unchanged :: "objects \<Rightarrow> u32 set \<Rightarrow> mem \<Rightarrow> mem \<Rightarrow> bool" where
  "unchanged os X m m' \<longleftrightarrow> (\<forall>q n. os q = Some n \<longrightarrow> q \<notin> X \<longrightarrow> obj m' q n = obj m q n)"

lemma unchangedD: "unchanged os X m m' \<Longrightarrow> os q = Some n \<Longrightarrow> q \<notin> X \<Longrightarrow> obj m' q n = obj m q n"
  by (simp add: unchanged_def)

lemma unchanged_field: "unchanged os X m m' \<Longrightarrow> os q = Some n \<Longrightarrow> q \<notin> X \<Longrightarrow> k + 4 \<le> n \<Longrightarrow>
    load32 m' (q + of_nat k) = load32 m (q + of_nat k)"
  using load32_obj unchangedD by metis

lemma unchanged_refl [simp, intro]: "unchanged os X m m"
  by (simp add: unchanged_def)

lemma unchanged_trans: "unchanged os X m m' \<Longrightarrow> unchanged os Y m' m'' \<Longrightarrow> unchanged os (X \<union> Y) m m''"
  by (simp add: unchanged_def)

lemma unchanged_sub: "unchanged os' X m m' \<Longrightarrow> os \<subseteq>\<^sub>m os' \<Longrightarrow> X \<inter> dom os \<subseteq> Y \<Longrightarrow> unchanged os Y m m'"
  unfolding unchanged_def map_le_def by (metis IntI domIff in_mono option.distinct(1))

text \<open>Inside the contract: stores into one object, and new objects.\<close>

context allocator
begin

lemma obj_in: "os p = Some n \<Longrightarrow> rep s os \<Longrightarrow> i < n \<Longrightarrow> in_objects os (p + of_nat i)"
  using object_bounds obj_addr unfolding in_objects_def object_bytes_def by (metis add_less_cancel_left atLeastLessThan_iff le_add1)

lemma inside_one:
  assumes r: "rep s os" and p: "os p = Some n" and m: "\<And>x. unat x \<notin> object_bytes p n \<Longrightarrow> m x = mem_of s x"
  shows "rep (set_mem m s) os" "unchanged os {p} (mem_of s) m"
proof -
  have "m x = mem_of s x" if "\<not> in_objects os x" for x using m p that unfolding in_objects_def by blast
  then show "rep (set_mem m s) os" using store_ok [OF r] by blast
  show "unchanged os {p} (mem_of s) m"
    unfolding unchanged_def obj_eq_iff
  proof (intro allI impI)
    fix q k i
    assume q: "os q = Some k" "q \<notin> {p}" and i: "i < k"
    have "unat (q + of_nat i) = unat q + i" using object_bounds [OF r q(1)] obj_addr i by blast
    then have "unat (q + of_nat i) \<in> object_bytes q k" using i by (simp add: object_bytes_def)
    then have "unat (q + of_nat i) \<notin> object_bytes p n" using objects_apart [OF r q(1) p] q(2) by blast
    then show "m (q + of_nat i) = mem_of s (q + of_nat i)" by (rule m)
  qed
qed

lemma field_store:
  assumes r: "rep s os" and p: "os p = Some n" and k: "k + 4 \<le> n" "4 dvd k"
  shows "rep (set_mem (store32 (mem_of s) (p + of_nat k) v) s) os"
    "unchanged os {p} (mem_of s) (store32 (mem_of s) (p + of_nat k) v)"
    "load32 (store32 (mem_of s) (p + of_nat k) v) (p + of_nat k) = v"
    "\<And>j. j + 4 \<le> n \<Longrightarrow> 4 dvd j \<Longrightarrow> j \<noteq> k \<Longrightarrow>
       load32 (store32 (mem_of s) (p + of_nat k) v) (p + of_nat j) = load32 (mem_of s) (p + of_nat j)"
proof -
  have b: "16 dvd unat p" "unat p + n \<le> 2 ^ 32" using object_bounds [OF r p] by auto
  note A = field_addr [OF b k]
  have "store32 (mem_of s) (p + of_nat k) v x = mem_of s x" if "unat x \<notin> object_bytes p n" for x
    using that A(1) k(1) b(2) by (intro store32_outside) (auto simp: object_bytes_def)
  then show "rep (set_mem (store32 (mem_of s) (p + of_nat k) v) s) os"
    "unchanged os {p} (mem_of s) (store32 (mem_of s) (p + of_nat k) v)" using inside_one [OF r p] by blast+
  show "load32 (store32 (mem_of s) (p + of_nat k) v) (p + of_nat k) = v" by simp
  fix j assume j: "j + 4 \<le> n" "4 dvd j" "j \<noteq> k"
  note B = field_addr [OF b j(1,2)]
  have "p + of_nat k \<noteq> p + of_nat j" using A(1) B(1) j(3) by (metis add_left_cancel)
  then show "load32 (store32 (mem_of s) (p + of_nat k) v) (p + of_nat j) = load32 (mem_of s) (p + of_nat j)"
    using load32_store32_other A(2) B(2) by blast
qed

lemma bytes_store:
  assumes r: "rep s os" and p: "os p = Some n" and k: "k + length bs \<le> n"
  shows "rep (set_mem (write_bytes (mem_of s) (p + of_nat k) bs) s) os"
    "unchanged os {p} (mem_of s) (write_bytes (mem_of s) (p + of_nat k) bs)"
    "obj (write_bytes (mem_of s) (p + of_nat k) bs) (p + of_nat k) (length bs) = bs"
proof -
  have b: "unat p + n \<le> 2 ^ 32" using object_bounds [OF r p] by auto
  have *: "write_bytes (mem_of s) (p + of_nat k) bs x = mem_of s x" if x: "unat x \<notin> object_bytes p n" for x
  proof (cases "bs = []")
    case False
    then have "1 \<le> length bs" by (cases bs) simp_all
    then have "unat (p + of_nat k) = unat p + k" using k by (intro obj_addr [OF b]) simp
    then show ?thesis using x k b by (intro write_bytes_outside) (auto simp: object_bytes_def)
  qed simp
  then show "rep (set_mem (write_bytes (mem_of s) (p + of_nat k) bs) s) os"
    "unchanged os {p} (mem_of s) (write_bytes (mem_of s) (p + of_nat k) bs)" using inside_one [OF r p] by blast+
  show "obj (write_bytes (mem_of s) (p + of_nat k) bs) (p + of_nat k) (length bs) = bs"
  proof (cases "bs = []")
    case False
    then have "1 \<le> length bs" by (cases bs) simp_all
    then have "unat (p + of_nat k) = unat p + k" using k by (intro obj_addr [OF b]) simp
    then show ?thesis using k b by (intro obj_write_bytes) simp
  qed (simp add: obj_def)
qed

lemma alloc_frame:
  assumes r: "rep s os" and sz: "unat sz + 80 < 2 ^ 32" and a: "alloc sz s = Some (p, s')"
  shows "unchanged os X (mem_of s) (mem_of s')"
  unfolding unchanged_def obj_eq_iff using alloc_keeps [OF r sz a] obj_in [OF _ r] by blast

end

context growing_allocator
begin

lemma field_grown:
  assumes r: "rep s os" and p: "os p = Some n" and k: "k + 4 \<le> n" "4 dvd k"
  shows "grown s (set_mem (store32 (mem_of s) (p + of_nat k) v) s)"
proof (rule store_grown [OF r])
  fix x assume "\<not> in_objects os x"
  then have x: "unat x \<notin> object_bytes p n" using p unfolding in_objects_def by blast
  have b: "16 dvd unat p" "unat p + n \<le> 2 ^ 32" using object_bounds [OF r p] by auto
  show "store32 (mem_of s) (p + of_nat k) v x = mem_of s x"
    using x field_addr(1) [OF b k] k(1) b(2) by (intro store32_outside) (auto simp: object_bytes_def)
qed

lemma bytes_grown:
  assumes r: "rep s os" and p: "os p = Some n" and k: "k + length bs \<le> n"
  shows "grown s (set_mem (write_bytes (mem_of s) (p + of_nat k) bs) s)"
proof (rule store_grown [OF r])
  fix x assume "\<not> in_objects os x"
  then have x: "unat x \<notin> object_bytes p n" using p unfolding in_objects_def by blast
  have b: "unat p + n \<le> 2 ^ 32" using object_bounds [OF r p] by auto
  show "write_bytes (mem_of s) (p + of_nat k) bs x = mem_of s x"
  proof (cases "bs = []")
    case False
    then have "1 \<le> length bs" by (cases bs) simp_all
    then have "unat (p + of_nat k) = unat p + k" using k by (intro obj_addr [OF b]) simp
    then show ?thesis using x k b by (intro write_bytes_outside) (auto simp: object_bytes_def)
  qed simp
qed

end

end
