(* ===== verification/Lists.thy ===== *)
theory Lists
  imports Objects
begin

text \<open>
  \<^verbatim>\<open>kernel/utils/list.c\<close>: singly linked lists of heap nodes \<open>{next, data}\<close>, each with a heap copy of the caller's data.
  Nodes are addresses; their two fields are words of the kernel's memory, so that aliasing is what the code has.
  A loop over a chain that has a cycle never ends and has no result (\<open>partial_function\<close>), an access through \<open>NULL\<close> has
  none either. The lemmas are stated for chains of nodes that are live objects of the allocator (\<open>cells\<close>).
\<close>

section \<open>Nodes\<close>

definition list_next :: "u32 \<Rightarrow> 'a liballoc_scheme \<Rightarrow> u32 option" where
  "list_next p s = (if p = 0 then None else Some (load32 (kmem s) p))"

definition list_data :: "u32 \<Rightarrow> 'a liballoc_scheme \<Rightarrow> u32 option" where
  "list_data p s = (if p = 0 then None else Some (load32 (kmem s) (p + 4)))"

definition set_list_next :: "u32 \<Rightarrow> u32 \<Rightarrow> 'a liballoc_scheme \<Rightarrow> 'a liballoc_scheme option" where
  "set_list_next p v s = (if p = 0 then None else Some (set_kmem (store32 (kmem s) p v) s))"

definition set_list_data :: "u32 \<Rightarrow> u32 \<Rightarrow> 'a liballoc_scheme \<Rightarrow> 'a liballoc_scheme option" where
  "set_list_data p v s = (if p = 0 then None else Some (set_kmem (store32 (kmem s) (p + 4) v) s))"

section \<open>Operations\<close>

definition list_create_noalloc :: "bytes \<Rightarrow> u32 \<Rightarrow> u32 \<Rightarrow> 'a liballoc_scheme \<Rightarrow> (u32 \<times> 'a liballoc_scheme) option" where
  "list_create_noalloc data data_size newnode s =
     do { (tmp, s) \<leftarrow> mmu_mmap data_size s;
          if tmp = 0 then Some (0, s)
          else do { m \<leftarrow> memcpy_to tmp data (unat data_size) (kmem s);
                    s \<leftarrow> set_list_data newnode tmp (set_kmem m s);
                    s \<leftarrow> set_list_next newnode 0 s;
                    Some (newnode, s) } }"

definition list_create :: "bytes \<Rightarrow> u32 \<Rightarrow> 'a liballoc_scheme \<Rightarrow> (u32 \<times> 'a liballoc_scheme) option" where
  "list_create data data_size s =
     do { (node, s) \<leftarrow> mmu_mmap 8 s;
          if node = 0 then Some (0, s)
          else do { (tmp, s) \<leftarrow> mmu_mmap data_size s;
                    if tmp = 0 then Some (0, s)
                    else do { m \<leftarrow> memcpy_to tmp data (unat data_size) (kmem s);
                              s \<leftarrow> set_list_data node tmp (set_kmem m s);
                              s \<leftarrow> set_list_next node 0 s;
                              Some (node, s) } } }"

definition list_insert_after :: "u32 \<Rightarrow> bytes \<Rightarrow> u32 \<Rightarrow> 'a liballoc_scheme \<Rightarrow> (u32 \<times> 'a liballoc_scheme) option" where
  "list_insert_after node data data_size s =
     (if node = 0 then Some (0, s)
      else do { (newnode, s) \<leftarrow> list_create data data_size s;
                nxt \<leftarrow> list_next node s;
                s \<leftarrow> set_list_next newnode nxt s;
                s \<leftarrow> set_list_next node newnode s;
                Some (newnode, s) })"

definition list_insert_after_noalloc ::
    "u32 \<Rightarrow> bytes \<Rightarrow> u32 \<Rightarrow> u32 \<Rightarrow> 'a liballoc_scheme \<Rightarrow> (u32 \<times> 'a liballoc_scheme) option" where
  "list_insert_after_noalloc node data data_size newnode s =
     (if node = 0 then Some (0, s)
      else do { (_, s) \<leftarrow> list_create_noalloc data data_size newnode s;
                nxt \<leftarrow> list_next node s;
                s \<leftarrow> set_list_next newnode nxt s;
                s \<leftarrow> set_list_next node newnode s;
                Some (newnode, s) })"

text \<open>The loop of \<open>list_get_tail\<close>; its variables are \<open>node\<close> and \<open>head\<close>.\<close>

partial_function (option) get_tail_loop :: "u32 \<Rightarrow> u32 \<Rightarrow> 'a liballoc_scheme \<Rightarrow> u32 option" where
  "get_tail_loop node head s =
     (if node = 0 then Some head else do { nxt \<leftarrow> list_next node s; get_tail_loop nxt node s })"

definition list_get_tail :: "u32 \<Rightarrow> 'a liballoc_scheme \<Rightarrow> u32 option" where
  "list_get_tail list s = get_tail_loop list 0 s"

definition list_insert_back_noalloc ::
    "u32 \<Rightarrow> bytes \<Rightarrow> u32 \<Rightarrow> u32 \<Rightarrow> 'a liballoc_scheme \<Rightarrow> (u32 \<times> 'a liballoc_scheme) option" where
  "list_insert_back_noalloc node data data_size newnode s =
     do { tail \<leftarrow> list_get_tail node s; list_insert_after_noalloc tail data data_size newnode s }"

definition list_insert_back :: "u32 \<Rightarrow> bytes \<Rightarrow> u32 \<Rightarrow> 'a liballoc_scheme \<Rightarrow> (u32 \<times> 'a liballoc_scheme) option" where
  "list_insert_back node data data_size s =
     do { tail \<leftarrow> list_get_tail node s; list_insert_after tail data data_size s }"

definition list_insert_before :: "u32 \<Rightarrow> bytes \<Rightarrow> u32 \<Rightarrow> 'a liballoc_scheme \<Rightarrow> (u32 \<times> 'a liballoc_scheme) option" where
  "list_insert_before list data data_size s =
     do { (newnode, s) \<leftarrow> list_create data data_size s;
          s \<leftarrow> set_list_next newnode list s;
          Some (newnode, s) }"

text \<open>The search of \<open>list_remove\<close>: the first node from \<open>list\<close> on whose successor is \<open>node\<close> or \<open>NULL\<close>.\<close>

partial_function (option) remove_loop :: "u32 \<Rightarrow> u32 \<Rightarrow> 'a liballoc_scheme \<Rightarrow> u32 option" where
  "remove_loop list node s =
     do { nxt \<leftarrow> list_next list s;
          if nxt \<noteq> 0 \<and> nxt \<noteq> node then remove_loop nxt node s else Some list }"

definition list_remove :: "u32 \<Rightarrow> u32 \<Rightarrow> 'a liballoc_scheme \<Rightarrow> (int \<times> 'a liballoc_scheme) option" where
  "list_remove list node s =
     do { list \<leftarrow> remove_loop list node s;
          nxt \<leftarrow> list_next list s;
          if nxt \<noteq> 0
          then do { node_next \<leftarrow> list_next node s;
                    s \<leftarrow> set_list_next list node_next s;
                    d \<leftarrow> list_data node s;
                    s \<leftarrow> mmu_munmap d s;
                    s \<leftarrow> mmu_munmap node s;
                    Some (0, s) }
          else Some (-1, s) }"

text \<open>The callbacks get the data pointer and may change the state.\<close>

partial_function (option) list_foreach ::
    "u32 \<Rightarrow> (u32 \<Rightarrow> 'a liballoc_scheme \<Rightarrow> (int \<times> 'a liballoc_scheme) option) \<Rightarrow> 'a liballoc_scheme \<Rightarrow> (int \<times> 'a liballoc_scheme) option"
  where
  "list_foreach node func s =
     (if node = 0 then Some (0, s)
      else do { d \<leftarrow> list_data node s;
                (r, s) \<leftarrow> func d s;
                if r \<noteq> 0 then Some (-1, s)
                else do { nxt \<leftarrow> list_next node s; list_foreach nxt func s } })"

partial_function (option) list_find ::
    "u32 \<Rightarrow> (u32 \<Rightarrow> u32 \<Rightarrow> 'a liballoc_scheme \<Rightarrow> (int \<times> 'a liballoc_scheme) option) \<Rightarrow> u32 \<Rightarrow> 'a liballoc_scheme \<Rightarrow>
     (u32 \<times> 'a liballoc_scheme) option" where
  "list_find node func data s =
     (if node = 0 then Some (0, s)
      else do { d \<leftarrow> list_data node s;
                (r, s) \<leftarrow> func d data s;
                if r = 0 then Some (node, s)
                else do { nxt \<leftarrow> list_next node s; list_find nxt func data s } })"

partial_function (option) free_loop :: "u32 \<Rightarrow> 'a liballoc_scheme \<Rightarrow> 'a liballoc_scheme option" where
  "free_loop node s =
     (if node = 0 then Some s
      else do { next_node \<leftarrow> list_next node s;
                d \<leftarrow> list_data node s;
                s \<leftarrow> (if d \<noteq> 0 then mmu_munmap d s else Some s);
                s \<leftarrow> mmu_munmap node s;
                free_loop next_node s })"

text \<open>\<open>list_free\<close> returns the value of \<open>*list\<close> after it, which is \<open>NULL\<close>, and its return value 0.\<close>

definition list_free :: "u32 \<Rightarrow> 'a liballoc_scheme \<Rightarrow> (int \<times> u32 \<times> 'a liballoc_scheme) option" where
  "list_free list s = do { s \<leftarrow> free_loop list s; Some (0, 0, s) }"

section \<open>Chains of nodes\<close>

text \<open>
  \<open>cells_of k os m p its q\<close>: from \<open>p\<close> the \<open>next\<close> fields lead over the nodes of \<open>its\<close> to \<open>q\<close>. Each item is the node, its data
  object and the bytes in it. A node is an object of \<open>k\<close> bytes that begins with the two fields; the nodes that \<open>list_create\<close> makes have no more.
\<close>

type_synonym item = "u32 \<times> u32 \<times> bytes"

fun cells_of :: "nat \<Rightarrow> objects \<Rightarrow> mem \<Rightarrow> u32 \<Rightarrow> item list \<Rightarrow> u32 \<Rightarrow> bool" where
  "cells_of k os m p [] q \<longleftrightarrow> p = q"
| "cells_of k os m p ((x, d, b) # its) q \<longleftrightarrow> p = x \<and> os x = Some k \<and> 8 \<le> k \<and> load32 m (x + 4) = d \<and> os d = Some (length b) \<and>
     obj m d (length b) = b \<and> cells_of k os m (load32 m x) its q"

abbreviation cells :: "objects \<Rightarrow> mem \<Rightarrow> u32 \<Rightarrow> item list \<Rightarrow> u32 \<Rightarrow> bool" where
  "cells \<equiv> cells_of 8"

definition owned :: "item list \<Rightarrow> u32 list" where
  "owned its = concat (map (\<lambda>(x, d, b). [x, d]) its)"

lemma owned_simps [simp]: "owned [] = []" "owned ((x, d, b) # its) = x # d # owned its" "owned (xs @ ys) = owned xs @ owned ys"
  by (simp_all add: owned_def)

lemma cells_append: "cells_of k os m p (xs @ ys) q \<longleftrightarrow> (\<exists>r. cells_of k os m p xs r \<and> cells_of k os m r ys q)"
  by (induction xs arbitrary: p) auto

lemma cells_cong:
  assumes "cells_of k os m p its q" "\<And>x. x \<in> set (owned its) \<Longrightarrow> os' x = os x"
    and "\<And>x n. x \<in> set (owned its) \<Longrightarrow> os x = Some n \<Longrightarrow> obj m' x n = obj m x n"
  shows "cells_of k os' m' p its q"
  using assms
proof (induction its arbitrary: p)
  case (Cons it its)
  obtain x d b where it: "it = (x, d, b)" using prod_cases3 by blast
  have x: "obj m' x k = obj m x k" "obj m' d (length b) = obj m d (length b)" "8 \<le> k" using Cons.prems it by auto
  have "load32 m' x = load32 m x" "load32 m' (x + 4) = load32 m (x + 4)"
    using load32_obj [OF x(1), of 0] load32_obj [OF x(1), of 4] x(3) by simp_all
  moreover have "cells_of k os' m' (load32 m x) its q" using Cons.prems it by (intro Cons.IH) auto
  ultimately show ?case using Cons.prems it x(2) by simp
qed simp

lemma cells_frame:
  "cells_of k os m p its q \<Longrightarrow> unchanged os X m m' \<Longrightarrow> set (owned its) \<inter> X = {} \<Longrightarrow> cells_of k os m' p its q"
  using cells_cong [of k os m p its q os m'] unchangedD [of os X m m'] by blast

lemma cells_objects: "cells_of k os m p its q \<Longrightarrow> x \<in> set (owned its) \<Longrightarrow> os x \<noteq> None"
  by (induction its arbitrary: p) auto

lemma cells_ptr: "cells_of k os m p its 0 \<Longrightarrow> mmu_rep s os \<Longrightarrow> p = 0 \<longleftrightarrow> its = []"
  using mm.object_bounds by (cases its) force+

lemma node_ptr: "mmu_rep s os \<Longrightarrow> os x = Some n \<Longrightarrow> x \<noteq> 0"
  using mm.object_bounds by blast

text \<open>Stores into a node that is a live object.\<close>

lemma set_next_ok:
  assumes "mmu_rep s os" "os x = Some n" "8 \<le> n"
  obtains s' where "set_list_next x v s = Some s'" "mmu_rep s' os" "unchanged os {x} (kmem s) (kmem s')"
    "load32 (kmem s') x = v" "load32 (kmem s') (x + 4) = load32 (kmem s) (x + 4)"
  using that [of "set_kmem (store32 (kmem s) x v) s"] mm.field_store(1-3) [OF assms(1,2), of 0 v] mm.field_store(4) [OF assms(1,2), where k = 0 and j = 4 and v = v]
    assms(3) node_ptr [OF assms(1,2)] by (simp add: set_list_next_def)

lemma set_data_ok:
  assumes "mmu_rep s os" "os x = Some n" "8 \<le> n"
  obtains s' where "set_list_data x v s = Some s'" "mmu_rep s' os" "unchanged os {x} (kmem s) (kmem s')"
    "load32 (kmem s') (x + 4) = v" "load32 (kmem s') x = load32 (kmem s) x"
  using that [of "set_kmem (store32 (kmem s) (x + 4) v) s"] mm.field_store(1-3) [OF assms(1,2), of 4 v] mm.field_store(4) [OF assms(1,2), where k = 4 and j = 0 and v = v]
    assms(3) node_ptr [OF assms(1,2)] by (simp add: set_list_data_def)

lemma set_node_grows:
  assumes "mmu_rep s os" "os x = Some n" "8 \<le> n"
  shows "set_list_next x v s = Some s' \<Longrightarrow> grows s s'" "set_list_data x v s = Some s' \<Longrightarrow> grows s s'"
  using gm.field_grown [OF assms(1,2), of 0 v] gm.field_grown [OF assms(1,2), of 4 v] assms(3)
  by (auto simp: set_list_next_def set_list_data_def split: if_splits)

text \<open>An object that was allocated is filled with the caller's data and hung into a node.\<close>

lemma fill_node:
  assumes rep: "mmu_rep s os" and x: "os x = Some k" "8 \<le> k" and d: "os d = Some (unat n)" "d \<noteq> x" and len: "unat n \<le> length data"
  obtains s' where "do { m \<leftarrow> memcpy_to d data (unat n) (kmem s);
        s \<leftarrow> set_list_data x d (set_kmem m s); s \<leftarrow> set_list_next x 0 s; Some (x, s) } = Some (x, s')"
    "mmu_rep s' os" "unchanged os {x, d} (kmem s) (kmem s')" "load32 (kmem s') x = 0" "load32 (kmem s') (x + 4) = d"
    "obj (kmem s') d (unat n) = take (unat n) data" "grows s s'"
proof -
  let ?b = "take (unat n) data" and ?m = "write_bytes (kmem s) d (take (unat n) data)"
  have l: "length ?b = unat n" using len by simp
  have W: "mmu_rep (set_kmem ?m s) os" "unchanged os {d} (kmem s) ?m" "obj ?m d (unat n) = ?b"
    using mm.bytes_store [OF rep d(1), of 0 ?b] l by simp_all
  obtain s1 where s1: "set_list_data x d (set_kmem ?m s) = Some s1" "mmu_rep s1 os" "unchanged os {x} ?m (kmem s1)"
      "load32 (kmem s1) (x + 4) = d" by (rule set_data_ok [OF W(1) x]) auto
  obtain s2 where s2: "set_list_next x 0 s1 = Some s2" "mmu_rep s2 os" "unchanged os {x} (kmem s1) (kmem s2)"
      "load32 (kmem s2) x = 0" "load32 (kmem s2) (x + 4) = load32 (kmem s1) (x + 4)" by (rule set_next_ok [OF s1(2) x])
  have k: "unchanged os {x} ?m (kmem s2)" using unchanged_trans [OF s1(3) s2(3)] by simp
  have "unchanged os ({d} \<union> {x}) (kmem s) (kmem s2)" by (rule unchanged_trans [OF W(2) k])
  then have "unchanged os {x, d} (kmem s) (kmem s2)" by (simp add: insert_commute)
  moreover have "obj (kmem s2) d (unat n) = ?b" using unchangedD [OF k d(1)] d(2) W(3) by simp
  moreover have "grows s (set_kmem ?m s)" using gm.bytes_grown [OF rep d(1), of 0 ?b] l by simp
  then have "grows s s2" using set_node_grows(2) [OF W(1) x s1(1)] set_node_grows(1) [OF s1(2) x s2(1)] grows_trans by blast
  ultimately show thesis using that [of s2] s1 s2 len by (simp add: memcpy_to_def)
qed

lemma list_create_cases:
  assumes rep: "mmu_rep s os" and n: "unat n + 80 < 2 ^ 32" "unat n \<le> length data"
  obtains (null) os' s' where "list_create data n s = Some (0, s')" "mmu_rep s' os'" "os \<subseteq>\<^sub>m os'" "unchanged os {} (kmem s) (kmem s')"
  | (new) x d s' where "list_create data n s = Some (x, s')" "x \<noteq> 0" "os x = None" "os d = None" "x \<noteq> d"
      "mmu_rep s' (os(x \<mapsto> 8, d \<mapsto> unat n))" "cells (os(x \<mapsto> 8, d \<mapsto> unat n)) (kmem s') x [(x, d, take (unat n) data)] 0"
      "unchanged os {} (kmem s) (kmem s')"
proof -
  have eight: "unat (8 :: u32) + 80 < 2 ^ 32" "unat (8 :: u32) = 8" by simp_all
  obtain x s1 where x: "mmu_mmap 8 s = Some (x, s1)" using mm.alloc_returns [OF rep eight(1)] by blast
  note k1 = mm.alloc_frame [OF rep eight(1) x, of "{}"]
  show thesis
  proof (cases "x = 0")
    case True
    then show thesis using null [of s1 os] x mm.alloc_null [OF rep eight(1)] k1 by (simp add: list_create_def)
  next
    case False
    have r1: "os x = None" "mmu_rep s1 (os(x \<mapsto> 8))" using mm.alloc_new [OF rep eight(1) x False] eight(2) by simp_all
    obtain d s2 where d: "mmu_mmap n s1 = Some (d, s2)" using mm.alloc_returns [OF r1(2) n(1)] by blast
    have le: "os \<subseteq>\<^sub>m os(x \<mapsto> 8)" using r1(1) by (auto simp: map_le_def)
    have "unchanged os {} (kmem s1) (kmem s2)" by (rule unchanged_sub [OF mm.alloc_frame [OF r1(2) n(1) d, of "{}"] le]) simp
    then have k2: "unchanged os {} (kmem s) (kmem s2)" using unchanged_trans [OF k1] by fastforce
    show thesis
    proof (cases "d = 0")
      case True
      then show thesis using null [of s2 "os(x \<mapsto> 8)"] x d False mm.alloc_null [OF r1(2) n(1)] le k2 by (simp add: list_create_def)
    next
      case dn: False
      let ?os = "os(x \<mapsto> 8, d \<mapsto> unat n)"
      have r2: "(os(x \<mapsto> 8)) d = None" "mmu_rep s2 ?os" using mm.alloc_new [OF r1(2) n(1) d dn] by simp_all
      have ne: "d \<noteq> x" "os d = None" using r2(1) by (auto split: if_splits)
      obtain s3 where s3: "do { m \<leftarrow> memcpy_to d data (unat n) (kmem s2);
            s \<leftarrow> set_list_data x d (set_kmem m s2); s \<leftarrow> set_list_next x 0 s; Some (x, s) } = Some (x, s3)"
          "mmu_rep s3 ?os" "unchanged ?os {x, d} (kmem s2) (kmem s3)" "load32 (kmem s3) x = 0" "load32 (kmem s3) (x + 4) = d"
          "obj (kmem s3) d (unat n) = take (unat n) data" "grows s2 s3"
        by (rule fill_node [OF r2(2), of x 8 d n data]) (use ne n(2) in auto)
      have "os \<subseteq>\<^sub>m ?os" using r1(1) ne by (auto simp: map_le_def)
      then have "unchanged os {} (kmem s2) (kmem s3)" using r1(1) ne(2) by (intro unchanged_sub [OF s3(3)]) auto
      then have "unchanged os {} (kmem s) (kmem s3)" using unchanged_trans [OF k2] by fastforce
      moreover have "list_create data n s = Some (x, s3)" using x d False dn s3(1) by (simp add: list_create_def)
      moreover have "cells ?os (kmem s3) x [(x, d, take (unat n) data)] 0" using s3 ne n(2) by (simp add: min_absorb2)
      ultimately show thesis using new [of x s3 d] False r1(1) ne s3(2) by blast
    qed
  qed
qed

section \<open>The loops end on chains\<close>

lemma next_ok: "mmu_rep s os \<Longrightarrow> os x = Some n \<Longrightarrow> list_next x s = Some (load32 (kmem s) x)"
  "mmu_rep s os \<Longrightarrow> os x = Some n \<Longrightarrow> list_data x s = Some (load32 (kmem s) (x + 4))"
  using node_ptr by (auto simp: list_next_def list_data_def)

lemma get_tail_loop_ok:
  "mmu_rep s os \<Longrightarrow> cells_of k os (kmem s) p its 0 \<Longrightarrow> get_tail_loop p h s = Some (last (h # map fst its))"
proof (induction its arbitrary: p h)
  case Nil
  then show ?case by (subst get_tail_loop.simps) simp
next
  case (Cons it its)
  obtain x d b where it: "it = (x, d, b)" using prod_cases3 by blast
  have "get_tail_loop (load32 (kmem s) x) x s = Some (last (x # map fst its))" using Cons it by (intro Cons.IH) auto
  then show ?case using Cons.prems it next_ok(1) [OF Cons.prems(1), of x k] node_ptr [OF Cons.prems(1), of x k]
    by (subst get_tail_loop.simps) simp
qed

lemma list_get_tail_ok:
  "mmu_rep s os \<Longrightarrow> cells_of k os (kmem s) p its 0 \<Longrightarrow> list_get_tail p s = Some (if its = [] then 0 else fst (last its))"
  using get_tail_loop_ok [of s os k p its 0] by (auto simp: list_get_tail_def last_map)

text \<open>The search stops at the predecessor of the node, or at the last node when the node is not behind the first.\<close>

lemma remove_loop_found:
  "mmu_rep s os \<Longrightarrow> cells os (kmem s) p (xs @ (w, e, c) # (x, d, b) # ys) 0 \<Longrightarrow>
   distinct (map fst (xs @ (w, e, c) # (x, d, b) # ys)) \<Longrightarrow> remove_loop p x s = Some w"
proof (induction xs arbitrary: p)
  case Nil
  then show ?case using next_ok(1) [OF Nil.prems(1), of w 8] by (subst remove_loop.simps) simp
next
  case (Cons it xs)
  obtain v f a where it: "it = (v, f, a)" using prod_cases3 by blast
  have IH: "remove_loop (load32 (kmem s) v) x s = Some w" using Cons it by (intro Cons.IH) auto
  obtain z where z: "load32 (kmem s) v = z" "z \<in> set (map fst (xs @ [(w, e, c)]))" "os z = Some 8"
    using Cons.prems(2) it by (cases xs) auto
  then have "z \<noteq> 0" "z \<noteq> x" using Cons.prems(3) node_ptr [OF Cons.prems(1)] by auto
  then show ?case using IH z(1) next_ok(1) [OF Cons.prems(1), of v 8] Cons.prems(2) it
    by (subst remove_loop.simps) simp
qed

lemma remove_loop_missing:
  "mmu_rep s os \<Longrightarrow> cells os (kmem s) p its 0 \<Longrightarrow> its \<noteq> [] \<Longrightarrow> x \<notin> set (map fst (tl its)) \<Longrightarrow>
   remove_loop p x s = Some (fst (last its)) \<and> load32 (kmem s) (fst (last its)) = 0 \<and> os (fst (last its)) = Some 8"
proof (induction its arbitrary: p)
  case (Cons it its)
  obtain v f a where it: "it = (v, f, a)" using prod_cases3 by blast
  show ?case
  proof (cases its)
    case Nil
    then show ?thesis using Cons.prems it next_ok(1) [OF Cons.prems(1), of v 8] by (subst remove_loop.simps) simp
  next
    case (Cons jt js)
    obtain z g h where jt: "jt = (z, g, h)" using prod_cases3 by blast
    have z: "load32 (kmem s) v = z" "os z = Some 8" "os v = Some 8" "p = v" "z \<noteq> x"
      using Cons.prems it Cons jt by auto
    have "remove_loop z x s = Some (fst (last its)) \<and> load32 (kmem s) (fst (last its)) = 0 \<and> os (fst (last its)) = Some 8"
      using Cons.prems it Cons jt z by (intro Cons.IH) auto
    then show ?thesis using z node_ptr [OF Cons.prems(1)] next_ok(1) [OF Cons.prems(1) z(3)] it Cons
      by (subst remove_loop.simps) auto
  qed
qed simp

lemma list_remove_missing:
  assumes "mmu_rep s os" "cells os (kmem s) p its 0" "its \<noteq> []" "x \<notin> set (map fst (tl its))"
  shows "list_remove p x s = Some (-1, s)"
  using remove_loop_missing [OF assms] next_ok(1) [OF assms(1)] by (auto simp: list_remove_def)

section \<open>Insertion and removal\<close>

lemma distinct_owned_fst: "distinct (owned its) \<Longrightarrow> distinct (map fst its)"
proof (induction its)
  case (Cons it its)
  obtain x d b where it: "it = (x, d, b)" using prod_cases3 by blast
  have "fst ` set its \<subseteq> set (owned its)" by (force simp: owned_def)
  then show ?case using Cons it by auto
qed simp

lemma list_insert_after_cases:
  assumes rep: "mmu_rep s os" and c: "cells os (kmem s) p (xs @ (x, d, b) # ys) 0" "distinct (owned (xs @ (x, d, b) # ys))"
    and n: "unat n + 80 < 2 ^ 32" "unat n \<le> length data"
  obtains (null) s' where "list_create data n s = Some (0, s')" "list_insert_after x data n s = None"
  | (new) y e s' s1 where "list_create data n s = Some (y, s1)" "y \<noteq> 0" "list_insert_after x data n s = Some (y, s')"
      "os y = None" "os e = None"
      "mmu_rep s' (os(y \<mapsto> 8, e \<mapsto> unat n))" "unchanged os {x} (kmem s) (kmem s')"
      "cells (os(y \<mapsto> 8, e \<mapsto> unat n)) (kmem s') p (xs @ (x, d, b) # (y, e, take (unat n) data) # ys) 0"
      "distinct (owned (xs @ (x, d, b) # (y, e, take (unat n) data) # ys))"
proof (cases rule: list_create_cases [OF rep n])
  case (1 os' s1)
  have x: "os x = Some 8" using c(1) by (auto simp: cells_append)
  then have "os' x = Some 8" using 1(3) by (metis domI map_le_def)
  then have "list_insert_after x data n s = None"
    using 1 node_ptr [OF rep x] next_ok(1) [OF 1(2)] by (simp add: list_insert_after_def set_list_next_def)
  then show thesis using null 1(1) by blast
next
  case (2 y e s1)
  let ?os = "os(y \<mapsto> 8, e \<mapsto> unat n)" and ?it = "(y, e, take (unat n) data)"
  let ?its = "xs @ (x, d, b) # ys"
  have own: "os z \<noteq> None" if "z \<in> set (owned ?its)" for z using cells_objects [OF c(1) that] .
  then have ne: "y \<notin> set (owned ?its)" "e \<notin> set (owned ?its)" using 2(3,4) by blast+
  have C1: "cells ?os (kmem s1) p ?its 0"
    using c(1) ne unchangedD [OF 2(8)] by (intro cells_cong [OF c(1)]) auto
  obtain q where q: "cells ?os (kmem s1) p xs x" "?os x = Some 8" "load32 (kmem s1) (x + 4) = d" "?os d = Some (length b)"
      "obj (kmem s1) d (length b) = b" "cells ?os (kmem s1) q ys 0" "load32 (kmem s1) x = q"
    using C1 by (auto simp: cells_append)
  have y: "?os y = Some 8" "?os e = Some (unat n)" "load32 (kmem s1) (y + 4) = e" "obj (kmem s1) e (unat n) = take (unat n) data"
    using 2(5,7) n(2) by (auto simp: min_absorb2)
  obtain s2 where s2: "set_list_next y q s1 = Some s2" "mmu_rep s2 ?os" "unchanged ?os {y} (kmem s1) (kmem s2)"
      "load32 (kmem s2) y = q" "load32 (kmem s2) (y + 4) = load32 (kmem s1) (y + 4)"
    by (rule set_next_ok [OF 2(6) y(1) order_refl])
  obtain s3 where s3: "set_list_next x y s2 = Some s3" "mmu_rep s3 ?os" "unchanged ?os {x} (kmem s2) (kmem s3)"
      "load32 (kmem s3) x = y" "load32 (kmem s3) (x + 4) = load32 (kmem s2) (x + 4)"
    by (rule set_next_ok [OF s2(2) q(2) order_refl])
  have k: "unchanged ?os {x, y} (kmem s1) (kmem s3)" using unchanged_trans [OF s2(3) s3(3)] by (simp add: insert_commute)
  have run: "list_insert_after x data n s = Some (y, s3)"
    using node_ptr [OF rep, of x 8] q 2(1) s2(1) s3(1) next_ok(1) [OF 2(6) q(2)] own ne by (auto simp: list_insert_after_def)
  have d: "distinct (owned (xs @ (x, d, b) # ?it # ys))" using c(2) ne 2(5) by auto
  have ys: "cells ?os (kmem s3) q ys 0" "cells ?os (kmem s3) p xs x"
    using cells_frame [OF q(6) k] cells_frame [OF q(1) k] c(2) ne by auto
  have xy: "x \<noteq> y" "d \<noteq> x" "d \<noteq> y" "e \<noteq> x" "e \<noteq> y" using c(2) ne 2(5) by auto
  have "load32 (kmem s3) y = q" "load32 (kmem s3) (y + 4) = e" "obj (kmem s3) e (unat n) = take (unat n) data"
       "obj (kmem s3) d (length b) = b" "load32 (kmem s3) (x + 4) = d"
    using unchanged_field [OF s3(3) y(1), of 0] unchanged_field [OF s3(3) y(1), of 4] unchangedD [OF k y(2)] unchangedD [OF k q(4)]
      unchanged_field [OF s2(3) q(2), of 4] xy s2(4,5) s3(5) y q(3,5) by auto
  then have "cells ?os (kmem s3) p (xs @ (x, d, b) # ?it # ys) 0"
    using ys q y s3(4) n(2) unfolding cells_append by (auto simp: min_absorb2)
  moreover have "unchanged os {x} (kmem s) (kmem s3)"
  proof -
    have "os \<subseteq>\<^sub>m ?os" using 2(3,4) by (auto simp: map_le_def)
    then have "unchanged os {x} (kmem s1) (kmem s3)" using 2(3) by (intro unchanged_sub [OF k]) auto
    then show ?thesis using unchanged_trans [OF 2(8)] by fastforce
  qed
  ultimately show thesis using new [OF 2(1,2) run 2(3,4) s3(2)] d by blast
qed

lemma cells_gone:
  assumes "cells_of k os m p its q" "x \<notin> set (owned its)"
  shows "cells_of k (os(x := v)) m p its q"
  by (rule cells_cong [OF assms(1)]) (use assms(2) in auto)

text \<open>Two objects are given back.\<close>

lemma munmap_two:
  assumes rep: "mmu_rep s os" and o: "os d = Some k" "os x = Some n" "d \<noteq> x"
  obtains s' s'' where "mmu_munmap d s = Some s'" "mmu_munmap x s' = Some s''" "mmu_rep s'' (os(d := None, x := None))"
    "kmem s' = kmem s" "kmem s'' = kmem s"
proof -
  obtain s' where s': "mmu_munmap d s = Some s'" "mmu_rep s' (os(d := None))" "kmem s' = kmem s" by (rule munmap_ok [OF rep o(1)])
  have "(os(d := None)) x = Some n" using o by simp
  then obtain s'' where "mmu_munmap x s' = Some s''" "mmu_rep s'' (os(d := None, x := None))" "kmem s'' = kmem s'"
    by (rule munmap_ok [OF s'(2)])
  then show thesis using that s' by simp
qed

lemma list_remove_ok:
  assumes rep: "mmu_rep s os" and c: "cells os (kmem s) p (xs @ (w, e, c) # (x, d, b) # ys) 0"
    and dist: "distinct (owned (xs @ (w, e, c) # (x, d, b) # ys))"
  obtains s' where "list_remove p x s = Some (0, s')" "mmu_rep s' (os(d := None, x := None))" "unchanged os {w} (kmem s) (kmem s')"
    "cells (os(d := None, x := None)) (kmem s') p (xs @ (w, e, c) # ys) 0"
proof -
  note found = remove_loop_found [OF rep c distinct_owned_fst [OF dist]]
  have W: "cells os (kmem s) p xs w" "os w = Some 8" "load32 (kmem s) (w + 4) = e" "os e = Some (length c)" "obj (kmem s) e (length c) = c"
      "load32 (kmem s) w = x" "os x = Some 8" "load32 (kmem s) (x + 4) = d" "os d = Some (length b)"
      "cells os (kmem s) (load32 (kmem s) x) ys 0"
    using c by (auto simp: cells_append)
  let ?q = "load32 (kmem s) x"
  obtain s1 where s1: "set_list_next w ?q s = Some s1" "mmu_rep s1 os" "unchanged os {w} (kmem s) (kmem s1)"
      "load32 (kmem s1) w = ?q" "load32 (kmem s1) (w + 4) = load32 (kmem s) (w + 4)"
    by (rule set_next_ok [OF rep W(2) order_refl])
  have ne: "d \<noteq> x" "w \<noteq> x" "e \<noteq> w" "x \<notin> set (owned (xs @ (w, e, c) # ys))" "d \<notin> set (owned (xs @ (w, e, c) # ys))" using dist by auto
  have dx: "load32 (kmem s1) (x + 4) = d" using unchanged_field [OF s1(3) W(7), of 4] W(8) ne by simp
  obtain s2 s3 where s2: "mmu_munmap d s1 = Some s2" "mmu_munmap x s2 = Some s3" "mmu_rep s3 (os(d := None, x := None))"
      "kmem s2 = kmem s1" "kmem s3 = kmem s1" by (rule munmap_two [OF s1(2) W(9,7) ne(1)])
  have "cells os (kmem s1) p xs w" "cells os (kmem s1) ?q ys 0"
    using cells_frame [OF W(1) s1(3)] cells_frame [OF W(10) s1(3)] dist by auto
  moreover have "obj (kmem s1) e (length c) = c" using unchangedD [OF s1(3) W(4)] ne W(5) by simp
  ultimately have "cells os (kmem s1) p (xs @ (w, e, c) # ys) 0" using s1 W by (auto simp: cells_append)
  then have "cells (os(d := None, x := None)) (kmem s1) p (xs @ (w, e, c) # ys) 0" using ne by (intro cells_gone)
  moreover have "list_remove p x s = Some (0, s3)"
    using found next_ok(1) [OF rep W(2)] next_ok(1) [OF rep W(7)] next_ok(2) [OF s1(2) W(7)] node_ptr [OF rep W(7)] W(6) s1(1) dx s2(1,2)
    by (simp add: list_remove_def)
  ultimately show thesis using that [of s3] s2(3,5) s1(3) by simp
qed

text \<open>\<open>list_free\<close> ends on a chain and gives back every node and every data object of it, and nothing else.\<close>

definition without :: "objects \<Rightarrow> u32 list \<Rightarrow> objects" where
  "without os xs = (\<lambda>p. if p \<in> set xs then None else os p)"

lemma free_loop_ok:
  "mmu_rep s os \<Longrightarrow> cells_of k os (kmem s) p its 0 \<Longrightarrow> distinct (owned its) \<Longrightarrow>
   \<exists>s'. free_loop p s = Some s' \<and> mmu_rep s' (without os (owned its)) \<and> kmem s' = kmem s"
proof (induction its arbitrary: p s os)
  case Nil
  then show ?case by (subst free_loop.simps) (simp add: without_def)
next
  case (Cons it its)
  obtain x d b where it: "it = (x, d, b)" using prod_cases3 by blast
  let ?os = "os(d := None, x := None)"
  have C: "p = x" "os x = Some k" "load32 (kmem s) (x + 4) = d" "os d = Some (length b)" "d \<noteq> x"
      "cells_of k os (kmem s) (load32 (kmem s) x) its 0" "x \<notin> set (owned its)" "d \<notin> set (owned its)"
    using Cons.prems it by auto
  obtain s1 s2 where s: "mmu_munmap d s = Some s1" "mmu_munmap x s1 = Some s2" "mmu_rep s2 ?os" "kmem s1 = kmem s" "kmem s2 = kmem s"
    by (rule munmap_two [OF Cons.prems(1) C(4,2,5)])
  have "cells_of k ?os (kmem s2) (load32 (kmem s) x) its 0" using C(6-8) s(5) cells_gone by metis
  moreover have "distinct (owned its)" using Cons.prems(3) it by simp
  ultimately obtain s' where s': "free_loop (load32 (kmem s) x) s2 = Some s'" "mmu_rep s' (without ?os (owned its))" "kmem s' = kmem s2"
    using Cons.IH [OF s(3)] by blast
  have "without ?os (owned its) = without os (owned (it # its))" using it by (auto simp: without_def)
  moreover have "free_loop p s = Some s'"
    using C next_ok [OF Cons.prems(1) C(2)] node_ptr [OF Cons.prems(1) C(2)] node_ptr [OF Cons.prems(1) C(4)] s(1,2) s'(1)
    by (subst free_loop.simps) simp
  ultimately show ?case using s' s(5) by auto
qed

text \<open>
  The search with a callback that only reads: the first node whose data satisfies it.
\<close>

lemma list_find_ok:
  assumes f: "\<And>d. d \<in> (fst \<circ> snd) ` set its \<Longrightarrow> func d data s = Some (if P d then 0 else 1, s)"
  shows "mmu_rep s os \<Longrightarrow> cells os (kmem s) p its 0 \<Longrightarrow>
    list_find p func data s = Some (case find (\<lambda>(x, d, b). P d) its of None \<Rightarrow> 0 | Some (x, _, _) \<Rightarrow> x, s)"
  using f
proof (induction its arbitrary: p)
  case Nil
  then show ?case by (subst list_find.simps) simp
next
  case (Cons it its)
  obtain x d b where it: "it = (x, d, b)" using prod_cases3 by blast
  have "list_find (load32 (kmem s) x) func data s = Some (case find (\<lambda>(x, d, b). P d) its of None \<Rightarrow> 0 | Some (x, _, _) \<Rightarrow> x, s)"
    using Cons it by (intro Cons.IH) auto
  then show ?case using Cons.prems it next_ok [OF Cons.prems(1), of x 8] node_ptr [OF Cons.prems(1), of x 8]
    by (subst list_find.simps) auto
qed

end
