(* ===== verification/Queue.thy ===== *)
theory Queue
  imports Lists
begin

text \<open>
  \<^verbatim>\<open>kernel/utils/queue.c\<close>: a queue of copies of the caller's data, a linked list with a pointer to its last node. The
  queue is the caller's object and is passed and returned as a record; the nodes are on the heap. The
  contract is the locale \<open>fifo\<close>, interpreted on \<open>queue_push\<close> and \<open>queue_pop\<close>.
\<close>

section \<open>Operations\<close>

record queue =
  q_head :: u32
  q_tail :: u32
  q_size :: u32

definition queue_push :: "queue \<Rightarrow> bytes \<Rightarrow> u32 \<Rightarrow> 'a liballoc_scheme \<Rightarrow> (queue \<times> 'a liballoc_scheme) option" where
  "queue_push Q data data_size s =
     (if q_head Q = 0
      then do { (h, s) \<leftarrow> list_create data data_size s;
                Some (Q\<lparr>q_head := h, q_tail := h, q_size := 1\<rparr>, s) }
      else do { (p, s) \<leftarrow> list_insert_after (q_tail Q) data data_size s;
                Some (Q\<lparr>q_tail := p, q_size := q_size Q + 1\<rparr>, s) })"

text \<open>\<open>queue_pop\<close> returns its result, the caller's buffer, the queue and the state.\<close>

definition queue_pop :: "queue \<Rightarrow> bytes \<Rightarrow> u32 \<Rightarrow> 'a liballoc_scheme \<Rightarrow> (int \<times> bytes \<times> queue \<times> 'a liballoc_scheme) option" where
  "queue_pop Q data data_size s =
     (if q_head Q = 0 then Some (-1, data, Q, s)
      else do { d \<leftarrow> list_data (q_head Q) s;
                data \<leftarrow> (if d = 0 then None else memcpy_from data d (unat data_size) (kmem s));
                let oldhead = q_head Q in
                do { newhead \<leftarrow> list_next (q_head Q) s;
                     let Q = Q\<lparr>q_head := newhead\<rparr> in
                     do { (_, s) \<leftarrow> list_remove oldhead oldhead s;
                          Some (0, data, Q\<lparr>q_size := q_size Q - 1\<rparr>, s) } } })"

definition queue_size :: "queue \<Rightarrow> u32" where
  "queue_size Q = q_size Q"

section \<open>The contract\<close>

fun pop_many :: "('s \<Rightarrow> ('d option \<times> 's) option) \<Rightarrow> nat \<Rightarrow> 's \<Rightarrow> ('d list \<times> 's) option" where
  "pop_many pop 0 s = Some ([], s)"
| "pop_many pop (Suc n) s = do { (r, s) \<leftarrow> pop s; (rs, s) \<leftarrow> pop_many pop n s;
     Some ((case r of None \<Rightarrow> rs | Some x \<Rightarrow> x # rs), s) }"

locale fifo =
  fixes push :: "'d \<Rightarrow> 's \<Rightarrow> 's option"
    and pop :: "'s \<Rightarrow> ('d option \<times> 's) option"
    and rep :: "'s \<Rightarrow> 'd list \<Rightarrow> bool"
    and room :: "'d \<Rightarrow> 's \<Rightarrow> bool"
  assumes push_ok: "rep s xs \<Longrightarrow> room d s \<Longrightarrow> \<exists>s'. push d s = Some s' \<and> rep s' (xs @ [d])"
    and pop_empty: "rep s [] \<Longrightarrow> pop s = Some (None, s)"
    and pop_ok: "rep s (x # xs) \<Longrightarrow> \<exists>s'. pop s = Some (Some x, s') \<and> rep s' xs"
begin

lemma drain: "rep s xs \<Longrightarrow> \<exists>s'. pop_many pop (length xs) s = Some (xs, s') \<and> rep s' []"
proof (induction xs arbitrary: s)
  case (Cons x xs)
  obtain s1 where "pop s = Some (Some x, s1)" "rep s1 xs" using pop_ok [OF Cons.prems] by blast
  then show ?case using Cons.IH [of s1] by force
qed auto

lemma in_order:
  assumes "rep s xs" "room d s"
  shows "\<exists>s' s''. push d s = Some s' \<and> rep s' (xs @ [d]) \<and> pop_many pop (length xs + 1) s' = Some (xs @ [d], s'') \<and> rep s'' []"
  using push_ok [OF assms] drain by fastforce

end

section \<open>The representation\<close>

text \<open>
  \<open>queue_rep n (Q, s) xs\<close>: the nodes from \<open>q_head\<close> to \<open>q_tail\<close> are live objects of the heap with the entries \<open>xs\<close>, each of
  \<open>n\<close> bytes.
\<close>

definition queue_items :: "objects \<Rightarrow> queue \<Rightarrow> mem \<Rightarrow> item list \<Rightarrow> bool" where
  "queue_items os Q m its \<longleftrightarrow> cells os m (q_head Q) its 0 \<and> distinct (owned its) \<and>
     (its \<noteq> [] \<longrightarrow> q_tail Q = fst (last its)) \<and> q_size Q = of_nat (length its)"

definition queue_rep :: "u32 \<Rightarrow> queue \<times> 'a liballoc_scheme \<Rightarrow> bytes list \<Rightarrow> bool" where
  "queue_rep n Qs xs \<longleftrightarrow> unat n + 80 < 2 ^ 32 \<and> (\<exists>os its. mmu_rep (snd Qs) os \<and> queue_items os (fst Qs) (kmem (snd Qs)) its \<and>
     map (snd \<circ> snd) its = xs \<and> (\<forall>x\<in>set xs. length x = unat n))"

text \<open>The calls with entries of \<open>n\<close> bytes, and that the heap has room for one more entry.\<close>

definition queue_push_n :: "u32 \<Rightarrow> bytes \<Rightarrow> queue \<times> 'a liballoc_scheme \<Rightarrow> (queue \<times> 'a liballoc_scheme) option" where
  "queue_push_n n d = (\<lambda>(Q, s). queue_push Q d n s)"

definition queue_pop_n :: "u32 \<Rightarrow> queue \<times> 'a liballoc_scheme \<Rightarrow> (bytes option \<times> queue \<times> 'a liballoc_scheme) option" where
  "queue_pop_n n = (\<lambda>(Q, s). do { (r, d, Q, s) \<leftarrow> queue_pop Q (replicate (unat n) 0) n s;
     Some (if r = 0 then Some d else None, Q, s) })"

definition queue_room :: "u32 \<Rightarrow> bytes \<Rightarrow> queue \<times> 'a liballoc_scheme \<Rightarrow> bool" where
  "queue_room n d = (\<lambda>(Q, s). length d = unat n \<and> (\<exists>p s'. list_create d n s = Some (p, s') \<and> p \<noteq> 0))"

lemma queue_push_ok:
  assumes rep: "queue_rep n (Q, s) xs" and room: "queue_room n d (Q, s)"
  shows "\<exists>Q' s'. queue_push Q d n s = Some (Q', s') \<and> queue_rep n (Q', s') (xs @ [d])"
proof -
  obtain os its where n: "unat n + 80 < 2 ^ 32" and r: "mmu_rep s os" and c: "cells os (kmem s) (q_head Q) its 0" "distinct (owned its)"
      and t: "its \<noteq> [] \<Longrightarrow> q_tail Q = fst (last its)" and sz: "q_size Q = of_nat (length its)"
      and x: "map (snd \<circ> snd) its = xs" "\<forall>x\<in>set xs. length x = unat n"
    using rep by (auto simp: queue_rep_def queue_items_def)
  obtain p0 s0 where p0: "list_create d n s = Some (p0, s0)" "p0 \<noteq> 0" and ld: "length d = unat n" using room by (auto simp: queue_room_def)
  have l: "unat n \<le> length d" "take (unat n) d = d" using ld by simp_all
  note h = cells_ptr [OF c(1) r]
  show ?thesis
  proof (cases "its = []")
    case True
    show ?thesis
    proof (cases rule: list_create_cases [OF r n l(1)])
      case (1 os' s')
      then show ?thesis using p0 by simp
    next
      case (2 y e s')
      then have "queue_items (os(y \<mapsto> 8, e \<mapsto> unat n)) (Q\<lparr>q_head := y, q_tail := y, q_size := 1\<rparr>) (kmem s') [(y, e, d)]"
        using l by (simp add: queue_items_def)
      then have "queue_rep n (Q\<lparr>q_head := y, q_tail := y, q_size := 1\<rparr>, s') (xs @ [d])"
        unfolding queue_rep_def using n 2(6) ld x True by force
      moreover have "queue_push Q d n s = Some (Q\<lparr>q_head := y, q_tail := y, q_size := 1\<rparr>, s')"
        using 2(1) True h by (simp add: queue_push_def)
      ultimately show ?thesis by blast
    qed
  next
    case False
    obtain xs' w e c' where its: "its = xs' @ (w, e, c') # []" using False by (metis append_butlast_last_id prod_cases3)
    show ?thesis
    proof (cases rule: list_insert_after_cases [OF r c[unfolded its] n l(1)])
      case (1 s')
      then show ?thesis using p0 by simp
    next
      case (2 y f s' s1)
      let ?Q = "Q\<lparr>q_tail := y, q_size := q_size Q + 1\<rparr>" and ?its = "its @ [(y, f, d)]"
      have "queue_items (os(y \<mapsto> 8, f \<mapsto> unat n)) ?Q (kmem s') ?its" using 2(8,9) its l(2) sz by (simp add: queue_items_def)
      then have "queue_rep n (?Q, s') (xs @ [d])" unfolding queue_rep_def using n 2(6) ld x by force
      moreover have "queue_push Q d n s = Some (?Q, s')" using 2(3) h t its by (simp add: queue_push_def)
      ultimately show ?thesis by blast
    qed
  qed
qed

lemma queue_pop_ok:
  assumes rep: "queue_rep n (Q, s) (x # xs)" and buf: "length buf = unat n"
  shows "\<exists>Q'. queue_pop Q buf n s = Some (0, x, Q', s) \<and> queue_rep n (Q', s) xs"
proof -
  obtain os it its where n: "unat n + 80 < 2 ^ 32" and r: "mmu_rep s os" and c: "cells os (kmem s) (q_head Q) (it # its) 0" "distinct (owned (it # its))"
      and t: "q_tail Q = fst (last (it # its))" and sz: "q_size Q = of_nat (Suc (length its))"
      and x: "snd (snd it) = x" "map (snd \<circ> snd) its = xs" "length x = unat n" "\<forall>x\<in>set xs. length x = unat n"
    using rep unfolding queue_rep_def queue_items_def by (auto simp: map_eq_Cons_conv)
  obtain w d where it: "it = (w, d, x)" using x(1) by (metis prod.collapse)
  have W: "q_head Q = w" "os w = Some 8" "load32 (kmem s) (w + 4) = d" "os d = Some (unat n)" "obj (kmem s) d (unat n) = x"
      "cells os (kmem s) (load32 (kmem s) w) its 0" using c(1) it x(3) by auto
  have "w \<notin> set (map fst its)" using distinct_owned_fst [OF c(2)] it by simp
  then have rem: "list_remove w w s = Some (-1, s)" using list_remove_missing [OF r c(1)] W(1) by simp
  let ?Q = "Q\<lparr>q_head := load32 (kmem s) w, q_size := q_size Q - 1\<rparr>"
  have "queue_items os ?Q (kmem s) its" using W(6) c(2) it t sz by (auto simp: queue_items_def)
  then have "queue_rep n (?Q, s) xs" unfolding queue_rep_def using n r x by auto
  moreover have "queue_pop Q buf n s = Some (0, x, ?Q, s)"
    using W node_ptr [OF r W(2)] node_ptr [OF r W(4)] next_ok [OF r W(2)] rem buf by (simp add: queue_pop_def memcpy_from_def)
  ultimately show ?thesis by blast
qed

interpretation qu: fifo "queue_push_n n" "queue_pop_n n" "queue_rep n" "queue_room n"
proof unfold_locales
  fix Qs :: "queue \<times> 'a liballoc_scheme" and xs d
  assume "queue_rep n Qs xs" "queue_room n d Qs"
  then show "\<exists>Qs'. queue_push_n n d Qs = Some Qs' \<and> queue_rep n Qs' (xs @ [d])"
    using queue_push_ok by (cases Qs) (fastforce simp: queue_push_n_def)
next
  fix Qs :: "queue \<times> 'a liballoc_scheme"
  assume "queue_rep n Qs []"
  then show "queue_pop_n n Qs = Some (None, Qs)"
    by (cases Qs) (auto simp: queue_rep_def queue_items_def queue_pop_n_def queue_pop_def)
next
  fix Qs :: "queue \<times> 'a liballoc_scheme" and x xs
  assume "queue_rep n Qs (x # xs)"
  then show "\<exists>Qs'. queue_pop_n n Qs = Some (Some x, Qs') \<and> queue_rep n Qs' xs"
    using queue_pop_ok [of n "fst Qs" "snd Qs" x xs "replicate (unat n) 0"] by (cases Qs) (auto simp: queue_pop_n_def)
qed

section \<open>Properties\<close>

text \<open>
  C30. The queue is first in, first out: \<open>queue_push\<close> on a queue with the entries \<open>xs\<close>, when the heap has room for the new
  node and its copy of the data, returns a queue with the entries \<open>xs\<close> followed by the new one, and as
  many calls of \<open>queue_pop\<close> return exactly these entries in this order and leave the queue empty.
\<close>

theorem queue_fifo:
  assumes "queue_rep n (Q, s) xs" "length d = unat n" "list_create d n s = Some (p, s1)" "p \<noteq> 0"
  shows "\<exists>Q' s' Qs''. queue_push Q d n s = Some (Q', s') \<and> queue_rep n (Q', s') (xs @ [d]) \<and> queue_size Q' = queue_size Q + 1 \<and>
     pop_many (queue_pop_n n) (length xs + 1) (Q', s') = Some (xs @ [d], Qs'') \<and> queue_rep n Qs'' []"
proof -
  have "queue_room n d (Q, s)" using assms(2-4) by (auto simp: queue_room_def)
  then obtain Qs' Qs'' where q: "queue_push_n n d (Q, s) = Some Qs'" "queue_rep n Qs' (xs @ [d])"
      "pop_many (queue_pop_n n) (length xs + 1) Qs' = Some (xs @ [d], Qs'')" "queue_rep n Qs'' []"
    using qu.in_order [OF assms(1)] by metis
  have len: "queue_size Q0 = of_nat (length ys)" if "queue_rep n (Q0, s0) ys" for Q0 ys and s0 :: "'a liballoc_scheme"
    using that by (auto simp: queue_rep_def queue_items_def queue_size_def)
  obtain Q' s' where Qs: "Qs' = (Q', s')" by force
  then have "queue_size Q' = queue_size Q + 1" using len [of Q' s'] len [OF assms(1)] q(2) by simp
  then show ?thesis using q Qs unfolding queue_push_n_def prod.case by blast
qed

lemmas run_malloc = mmu_mmap_def malloc_def malloc_locked_def liballoc_lock_def liballoc_unlock_def spinlock_lock_def
  spinlock_unlock_def atomic_compare_exchange_def atomic_store_def malloc_body_def malloc_in_major_def malloc_case41_def
  finish_alloc_def ALIGN_def upd_major_def upd_minor_def

lemma sample_heap_create: "\<exists>p s. list_create [1, 2, 3, 4] 4 sample_heap = Some (p, s) \<and> p \<noteq> 0"
  unfolding sample_heap_def sample_liballoc_def sample_hooks_def
  by (simp add: run_malloc malloc_loop.simps [of "0x808000"] malloc_case4.simps [of "0x808000" "0x808018"]
      malloc_case4.simps [of "0x808000" "0x8080B4"] LIBALLOC_MAGIC_def CPU_EFLAGS_IF_def sti_def cli_def list_create_def memcpy_to_def
      set_list_data_def set_list_next_def)

lemma sample_queue_rep: "queue_rep 4 (\<lparr>q_head = 0, q_tail = 0, q_size = 0\<rparr>, sample_heap) []"
  using sample_heap_rep unfolding queue_rep_def queue_items_def by auto

theorem queue_fifo_witness:
  "\<exists>Q' s' Qs''. queue_push \<lparr>q_head = 0, q_tail = 0, q_size = 0\<rparr> [1, 2, 3, 4] 4 sample_heap = Some (Q', s') \<and>
     pop_many (queue_pop_n 4) 1 (Q', s') = Some ([[1, 2, 3, 4]], Qs'')"
  using queue_fifo [OF sample_queue_rep, of "[1, 2, 3, 4]"] sample_heap_create by auto

text \<open>
  \<open>queue_pop\<close> does not free the node it removes: on a queue that is not empty the call returns the first
  entry and leaves the memory and the allocator exactly as they were.
\<close>

theorem queue_pop_frees_nothing:
  assumes "queue_rep n (Q, s) (x # xs)" "length buf = unat n"
  shows "\<exists>Q'. queue_pop Q buf n s = Some (0, x, Q', s) \<and> queue_rep n (Q', s) xs"
  by (rule queue_pop_ok [OF assms])

lemma sample_queue_one: "\<exists>Q s. queue_rep 4 (Q, s :: liballoc) [[1, 2, 3, 4]]"
proof -
  have "queue_room 4 [1, 2, 3, 4] (\<lparr>q_head = 0, q_tail = 0, q_size = 0\<rparr>, sample_heap)"
    using sample_heap_create by (simp add: queue_room_def)
  then show ?thesis using queue_push_ok [OF sample_queue_rep, of "[1, 2, 3, 4]"] by auto
qed

theorem queue_pop_frees_nothing_witness:
  "\<exists>Q (s :: liballoc) Q'. queue_pop Q [0, 0, 0, 0] 4 s = Some (0, [1, 2, 3, 4], Q', s) \<and> queue_rep 4 (Q', s) []"
proof -
  obtain Q and s :: liballoc where "queue_rep 4 (Q, s) [[1, 2, 3, 4]]" using sample_queue_one by blast
  then show ?thesis using queue_pop_frees_nothing [of 4 Q s "[1, 2, 3, 4]" "[]" "[0, 0, 0, 0]"] by auto
qed

end
