(* ===== verification/Rwlock.thy ===== *)
theory Rwlock
  imports Locks
begin

text \<open>
  \<^verbatim>\<open>kernel/utils/rwlock.c\<close>: a lock for many readers or one writer, built from two spin locks and a counting
  semaphore. The functions are modelled twice, like the spin lock: as functions on one processor, where
  a loop that never ends has no result, and as a transition system of \<open>n\<close> processors in which each step is
  one access to the shared words. The steps leave the interrupt flags out, which the sequential
  functions have, and take a spin lock in one step, its compare and exchange.
\<close>

section \<open>The functions on one processor\<close>

record rwlock =
  sem_count :: u32
  reader_count :: u32
  mtx :: spinlock
  sem_mtx :: spinlock
  rw_is_irq_enabled_when_locked :: u32

definition rwlock_init :: "rwlock \<Rightarrow> rwlock" where
  "rwlock_init l =
     (let l = \<lparr>sem_count = 0, reader_count = 0, mtx = \<lparr>locked = 0, is_irq_enabled_when_locked = 0\<rparr>,
               sem_mtx = \<lparr>locked = 0, is_irq_enabled_when_locked = 0\<rparr>,
               rw_is_irq_enabled_when_locked = 0\<rparr>
      in l\<lparr>sem_count := 1, reader_count := 0\<rparr>)"

definition psem_wait :: "rwlock \<Rightarrow> u32 \<Rightarrow> (rwlock \<times> u32) option" where
  "psem_wait l e =
     do { (m, e) \<leftarrow> spinlock_lock (sem_mtx l) e;
          let l = l\<lparr>sem_mtx := m\<rparr> in
          if atomic_load (sem_count l) = 0 then None
          else let l = l\<lparr>sem_count := snd (atomic_fetch_sub (sem_count l) 1)\<rparr>;
                   (m, e) = spinlock_unlock (sem_mtx l) e
               in Some (l\<lparr>sem_mtx := m\<rparr>, e) }"

definition psem_signal :: "rwlock \<Rightarrow> rwlock" where
  "psem_signal l = l\<lparr>sem_count := snd (atomic_fetch_add (sem_count l) 1)\<rparr>"

definition save_irq :: "rwlock \<Rightarrow> u32 \<Rightarrow> rwlock \<times> u32" where
  "save_irq l e =
     (let l = l\<lparr>rw_is_irq_enabled_when_locked := e AND CPU_EFLAGS_IF\<rparr>
      in (l, if rw_is_irq_enabled_when_locked l \<noteq> 0 then cli e else e))"

definition restore_irq :: "rwlock \<Rightarrow> u32 \<Rightarrow> u32" where
  "restore_irq l e = (if rw_is_irq_enabled_when_locked l \<noteq> 0 then sti e else e)"

definition rwlock_read_acquire :: "rwlock \<Rightarrow> u32 \<Rightarrow> (rwlock \<times> u32) option" where
  "rwlock_read_acquire l e =
     (let (l, e) = save_irq l e in
      do { (m, e) \<leftarrow> spinlock_lock (mtx l) e;
           let l = l\<lparr>mtx := m, reader_count := reader_count l + 1\<rparr> in
           do { (l, e) \<leftarrow> (if reader_count l = 1 then psem_wait l e else Some (l, e));
                let (m, e) = spinlock_unlock (mtx l) e in
                Some (l\<lparr>mtx := m\<rparr>, e) } })"

definition rwlock_read_release :: "rwlock \<Rightarrow> u32 \<Rightarrow> (rwlock \<times> u32) option" where
  "rwlock_read_release l e =
     do { (m, e) \<leftarrow> spinlock_lock (mtx l) e;
          let l = l\<lparr>mtx := m, reader_count := reader_count l - 1\<rparr>;
              l = (if reader_count l = 0 then psem_signal l else l);
              (m, e) = spinlock_unlock (mtx l) e;
              l = l\<lparr>mtx := m\<rparr> in
          Some (l, restore_irq l e) }"

definition rwlock_write_acquire :: "rwlock \<Rightarrow> u32 \<Rightarrow> (rwlock \<times> u32) option" where
  "rwlock_write_acquire l e = (let (l, e) = save_irq l e in psem_wait l e)"

definition rwlock_write_release :: "rwlock \<Rightarrow> u32 \<Rightarrow> rwlock \<times> u32" where
  "rwlock_write_release l e = (let l = psem_signal l in (l, restore_irq l e))"

section \<open>The functions on many processors\<close>

text \<open>
  Where a processor is: the names say which lock it spins on (\<open>Mtx\<close>, \<open>Sem\<close>), that it counts itself in or out,
  waits for the semaphore, takes it, and unlocks. A reader goes from \<open>Rd_Mtx\<close> to \<open>Reading\<close> and from \<open>Rl_Mtx\<close> back to
  \<open>Idle\<close>; a writer from \<open>Wr_Sem\<close> to \<open>Writing\<close> and over \<open>Wr_Signal\<close> back.
\<close>

datatype rw_pc = Idle | Rd_Mtx | Rd_Inc | Rd_Sem | Rd_Wait | Rd_Dec | Rd_Sem_Unlock | Rd_Unlock | Reading
  | Rl_Mtx | Rl_Dec | Rl_Signal | Rl_Unlock
  | Wr_Sem | Wr_Wait | Wr_Dec | Wr_Sem_Unlock | Writing | Wr_Signal

record rw_sys =
  sem :: u32
  readers :: u32
  mtx_word :: u32
  sem_word :: u32
  at :: "nat \<Rightarrow> rw_pc"

definition goto :: "nat \<Rightarrow> rw_pc \<Rightarrow> rw_sys \<Rightarrow> rw_sys" where
  "goto c q s = s\<lparr>at := (at s)(c := q)\<rparr>"

inductive rw_step :: "nat \<Rightarrow> rw_sys \<Rightarrow> rw_sys \<Rightarrow> bool" for c where
  start_read: "at s c = Idle \<Longrightarrow> rw_step c s (goto c Rd_Mtx s)"
| start_write: "at s c = Idle \<Longrightarrow> rw_step c s (goto c Wr_Sem s)"
| rd_mtx: "at s c = Rd_Mtx \<Longrightarrow> atomic_compare_exchange (mtx_word s) 0 1 = (True, v) \<Longrightarrow>
    rw_step c s (goto c Rd_Inc (s\<lparr>mtx_word := v\<rparr>))"
| rd_inc: "at s c = Rd_Inc \<Longrightarrow>
    rw_step c s (goto c (if readers s + 1 = 1 then Rd_Sem else Rd_Unlock) (s\<lparr>readers := readers s + 1\<rparr>))"
| rd_sem: "at s c = Rd_Sem \<Longrightarrow> atomic_compare_exchange (sem_word s) 0 1 = (True, v) \<Longrightarrow>
    rw_step c s (goto c Rd_Wait (s\<lparr>sem_word := v\<rparr>))"
| rd_wait: "at s c = Rd_Wait \<Longrightarrow> atomic_load (sem s) \<noteq> 0 \<Longrightarrow> rw_step c s (goto c Rd_Dec s)"
| rd_dec: "at s c = Rd_Dec \<Longrightarrow>
    rw_step c s (goto c Rd_Sem_Unlock (s\<lparr>sem := snd (atomic_fetch_sub (sem s) 1)\<rparr>))"
| rd_sem_unlock: "at s c = Rd_Sem_Unlock \<Longrightarrow>
    rw_step c s (goto c Rd_Unlock (s\<lparr>sem_word := atomic_store (sem_word s) 0\<rparr>))"
| rd_unlock: "at s c = Rd_Unlock \<Longrightarrow>
    rw_step c s (goto c Reading (s\<lparr>mtx_word := atomic_store (mtx_word s) 0\<rparr>))"
| rl_start: "at s c = Reading \<Longrightarrow> rw_step c s (goto c Rl_Mtx s)"
| rl_mtx: "at s c = Rl_Mtx \<Longrightarrow> atomic_compare_exchange (mtx_word s) 0 1 = (True, v) \<Longrightarrow>
    rw_step c s (goto c Rl_Dec (s\<lparr>mtx_word := v\<rparr>))"
| rl_dec: "at s c = Rl_Dec \<Longrightarrow>
    rw_step c s (goto c (if readers s - 1 = 0 then Rl_Signal else Rl_Unlock) (s\<lparr>readers := readers s - 1\<rparr>))"
| rl_signal: "at s c = Rl_Signal \<Longrightarrow>
    rw_step c s (goto c Rl_Unlock (s\<lparr>sem := snd (atomic_fetch_add (sem s) 1)\<rparr>))"
| rl_unlock: "at s c = Rl_Unlock \<Longrightarrow>
    rw_step c s (goto c Idle (s\<lparr>mtx_word := atomic_store (mtx_word s) 0\<rparr>))"
| wr_sem: "at s c = Wr_Sem \<Longrightarrow> atomic_compare_exchange (sem_word s) 0 1 = (True, v) \<Longrightarrow>
    rw_step c s (goto c Wr_Wait (s\<lparr>sem_word := v\<rparr>))"
| wr_wait: "at s c = Wr_Wait \<Longrightarrow> atomic_load (sem s) \<noteq> 0 \<Longrightarrow> rw_step c s (goto c Wr_Dec s)"
| wr_dec: "at s c = Wr_Dec \<Longrightarrow>
    rw_step c s (goto c Wr_Sem_Unlock (s\<lparr>sem := snd (atomic_fetch_sub (sem s) 1)\<rparr>))"
| wr_sem_unlock: "at s c = Wr_Sem_Unlock \<Longrightarrow>
    rw_step c s (goto c Writing (s\<lparr>sem_word := atomic_store (sem_word s) 0\<rparr>))"
| wr_start: "at s c = Writing \<Longrightarrow> rw_step c s (goto c Wr_Signal s)"
| wr_signal: "at s c = Wr_Signal \<Longrightarrow>
    rw_step c s (goto c Idle (s\<lparr>sem := snd (atomic_fetch_add (sem s) 1)\<rparr>))"

text \<open>The system of \<open>n\<close> processors starts with the lock \<open>rwlock_init\<close> set up.\<close>

definition rw_start :: rw_sys where
  "rw_start = (let l = rwlock_init undefined in
     \<lparr>sem = sem_count l, readers = reader_count l, mtx_word = locked (mtx l), sem_word = locked (sem_mtx l), at = \<lambda>_. Idle\<rparr>)"

inductive rw_reach :: "nat \<Rightarrow> rw_sys \<Rightarrow> bool" for n where
  start: "rw_reach n rw_start"
| step: "rw_reach n s \<Longrightarrow> c < n \<Longrightarrow> rw_step c s s' \<Longrightarrow> rw_reach n s'"

section \<open>Counting processors\<close>

definition cnt :: "nat \<Rightarrow> rw_pc set \<Rightarrow> (nat \<Rightarrow> rw_pc) \<Rightarrow> nat" where
  "cnt n S f = card {c. c < n \<and> f c \<in> S}"

lemma cnt_upd: "c < n \<Longrightarrow> cnt n S (f(c := q)) + of_bool (f c \<in> S) = cnt n S f + of_bool (q \<in> S)"
proof -
  assume c: "c < n"
  let ?A = "{d. d < n \<and> d \<noteq> c \<and> f d \<in> S}"
  have "{d. d < n \<and> (f(c := q)) d \<in> S} = (if q \<in> S then insert c ?A else ?A)"
    "{d. d < n \<and> f d \<in> S} = (if f c \<in> S then insert c ?A else ?A)" using c by auto
  moreover have "c \<notin> ?A" "finite ?A" by auto
  ultimately show ?thesis by (simp add: cnt_def)
qed

lemma cnt_pos: "c < n \<Longrightarrow> f c \<in> S \<Longrightarrow> 0 < cnt n S f"
  by (auto simp: cnt_def card_gt_0_iff)

lemma cnt_le: "cnt n S f \<le> n"
  using card_mono [of "{..<n}" "{c. c < n \<and> f c \<in> S}"] by (auto simp: cnt_def)

lemma cnt_mono: "S \<subseteq> T \<Longrightarrow> cnt n S f \<le> cnt n T f"
  unfolding cnt_def by (intro card_mono) auto

lemma cnt_Un: "S \<inter> T = {} \<Longrightarrow> cnt n (S \<union> T) f = cnt n S f + cnt n T f"
proof -
  assume "S \<inter> T = {}"
  moreover have "{c. c < n \<and> f c \<in> S \<union> T} = {c. c < n \<and> f c \<in> S} \<union> {c. c < n \<and> f c \<in> T}" by auto
  ultimately show ?thesis unfolding cnt_def by (subst card_Un_disjoint [symmetric]) auto
qed

lemma cnt_1_unique:
  assumes "cnt n S f \<le> 1" "c < n" "d < n" "f c \<in> S" "f d \<in> S"
  shows "c = d"
proof -
  let ?A = "{c. c < n \<and> f c \<in> S}"
  have "finite ?A" by simp
  then have "\<forall>a\<in>?A. \<forall>b\<in>?A. a = b" using assms(1) card_le_Suc0_iff_eq [of ?A] by (simp add: cnt_def)
  then show ?thesis using assms by blast
qed

section \<open>The invariant\<close>

text \<open>
  The processors that hold the mutex and the semaphore's mutex, the readers that are counted
  (first those that still have to get the semaphore for the group), the reader that is about to give the
  semaphore back, the processors about to decrement it, and the writers that own it.
\<close>

definition in_mtx :: "rw_pc set" where
  "in_mtx = {Rd_Inc, Rd_Sem, Rd_Wait, Rd_Dec, Rd_Sem_Unlock, Rd_Unlock, Rl_Dec, Rl_Signal, Rl_Unlock}"

definition in_sem :: "rw_pc set" where
  "in_sem = {Rd_Wait, Rd_Dec, Rd_Sem_Unlock, Wr_Wait, Wr_Dec, Wr_Sem_Unlock}"

definition first_reader :: "rw_pc set" where
  "first_reader = {Rd_Sem, Rd_Wait, Rd_Dec}"

definition group_reader :: "rw_pc set" where
  "group_reader = {Rd_Sem_Unlock, Rd_Unlock, Reading, Rl_Mtx, Rl_Dec}"

definition about_to_dec :: "rw_pc set" where
  "about_to_dec = {Rd_Dec, Wr_Dec}"

definition owning_writer :: "rw_pc set" where
  "owning_writer = {Wr_Sem_Unlock, Writing, Wr_Signal}"

lemmas rw_sets = in_mtx_def in_sem_def first_reader_def group_reader_def about_to_dec_def owning_writer_def

text \<open>The semaphore, the writers that own it and the group of readers that owns it together make one.\<close>

definition rw_inv :: "nat \<Rightarrow> rw_sys \<Rightarrow> bool" where
  "rw_inv n s \<longleftrightarrow> (let k = (\<lambda>S. cnt n S (at s)) in
     unat (mtx_word s) = k in_mtx \<and> unat (mtx_word s) \<le> 1 \<and>
     unat (sem_word s) = k in_sem \<and> unat (sem_word s) \<le> 1 \<and>
     unat (readers s) = k first_reader + k group_reader \<and>
     (k first_reader = 0 \<or> k group_reader = 0) \<and>
     (k {Rl_Signal} = 0 \<or> k first_reader + k group_reader = 0) \<and>
     k about_to_dec \<le> unat (sem s) \<and>
     unat (sem s) + k owning_writer + (if k group_reader + k {Rl_Signal} > 0 then 1 else 0) = 1)"

lemma rw_inv_start: "rw_inv n rw_start"
  by (simp add: rw_inv_def rw_start_def rwlock_init_def spinlock_init_def cnt_def rw_sets Let_def)

text \<open>The steps of one processor on the counters.\<close>

lemma goto_fields [simp]:
  "sem (goto c q s) = sem s" "readers (goto c q s) = readers s" "mtx_word (goto c q s) = mtx_word s"
  "sem_word (goto c q s) = sem_word s" "at (goto c q s) = (at s)(c := q)"
  by (simp_all add: goto_def)

lemma word_01: "unat (w :: u32) \<le> 1 \<Longrightarrow> w = 0 \<or> w = 1"
proof -
  assume "unat w \<le> 1"
  then have "unat w = unat (0 :: u32) \<or> unat w = unat (1 :: u32)" by auto
  then show ?thesis by (simp only: unat_eq_iff)
qed

text \<open>The facts of arithmetic that each step uses: how the counts change, and which counts include which.\<close>

definition other_mtx :: "rw_pc set" where
  "other_mtx = {Rd_Inc, Rd_Sem_Unlock, Rd_Unlock, Rl_Dec, Rl_Unlock}"

definition other_sem :: "rw_pc set" where
  "other_sem = {Rd_Wait, Rd_Sem_Unlock, Wr_Wait, Wr_Sem_Unlock}"

lemma cnt_parts:
  "cnt n in_mtx f = cnt n first_reader f + (cnt n {Rl_Signal} f + cnt n other_mtx f)"
  "cnt n in_sem f = cnt n about_to_dec f + cnt n other_sem f"
  "cnt n first_reader f + (cnt n group_reader f + cnt n {Rd_Inc} f) \<le> n"
proof -
  have U: "in_mtx = first_reader \<union> ({Rl_Signal} \<union> other_mtx)" "in_sem = about_to_dec \<union> other_sem"
    by (auto simp: rw_sets other_mtx_def other_sem_def)
  have D: "first_reader \<inter> ({Rl_Signal} \<union> other_mtx) = {}" "{Rl_Signal} \<inter> other_mtx = {}" "about_to_dec \<inter> other_sem = {}"
    "first_reader \<inter> (group_reader \<union> {Rd_Inc}) = {}" "group_reader \<inter> {Rd_Inc} = {}"
    by (auto simp: rw_sets other_mtx_def other_sem_def)
  show "cnt n in_mtx f = cnt n first_reader f + (cnt n {Rl_Signal} f + cnt n other_mtx f)"
    "cnt n in_sem f = cnt n about_to_dec f + cnt n other_sem f"
    by (simp_all only: U cnt_Un [OF D(1)] cnt_Un [OF D(2)] cnt_Un [OF D(3)])
  have "cnt n (first_reader \<union> (group_reader \<union> {Rd_Inc})) f \<le> n" by (rule cnt_le)
  then show "cnt n first_reader f + (cnt n group_reader f + cnt n {Rd_Inc} f) \<le> n"
    by (simp only: cnt_Un [OF D(4)] cnt_Un [OF D(5)])
qed

lemma cnt_step:
  assumes "c < n"
  shows "cnt n S (f(c := q)) = (if q \<in> S then Suc (cnt n S f) else cnt n S f) - (if f c \<in> S then 1 else 0)"
    "f c \<in> S \<Longrightarrow> 0 < cnt n S f"
  using cnt_upd [OF assms, of S f q] cnt_pos [OF assms] by (auto split: if_splits)

lemma rw_mem:
  "x \<in> in_mtx \<longleftrightarrow> x \<in> {Rd_Inc, Rd_Sem, Rd_Wait, Rd_Dec, Rd_Sem_Unlock, Rd_Unlock, Rl_Dec, Rl_Signal, Rl_Unlock}"
  "x \<in> in_sem \<longleftrightarrow> x \<in> {Rd_Wait, Rd_Dec, Rd_Sem_Unlock, Wr_Wait, Wr_Dec, Wr_Sem_Unlock}"
  "x \<in> first_reader \<longleftrightarrow> x \<in> {Rd_Sem, Rd_Wait, Rd_Dec}"
  "x \<in> group_reader \<longleftrightarrow> x \<in> {Rd_Sem_Unlock, Rd_Unlock, Reading, Rl_Mtx, Rl_Dec}"
  "x \<in> about_to_dec \<longleftrightarrow> x \<in> {Rd_Dec, Wr_Dec}"
  "x \<in> owning_writer \<longleftrightarrow> x \<in> {Wr_Sem_Unlock, Writing, Wr_Signal}"
  "x \<in> other_mtx \<longleftrightarrow> x \<in> {Rd_Inc, Rd_Sem_Unlock, Rd_Unlock, Rl_Dec, Rl_Unlock}"
  "x \<in> other_sem \<longleftrightarrow> x \<in> {Rd_Wait, Rd_Sem_Unlock, Wr_Wait, Wr_Sem_Unlock}"
  by (simp_all add: rw_sets other_mtx_def other_sem_def)

lemma rw_inv_step:
  assumes inv: "rw_inv n s" and c: "c < n" "n < 2 ^ 32" and st: "rw_step c s s'"
  shows "rw_inv n s'"
proof -
  let ?k = "\<lambda>S. cnt n S (at s)"
  have I: "unat (mtx_word s) = ?k in_mtx" "unat (mtx_word s) \<le> 1" "unat (sem_word s) = ?k in_sem" "unat (sem_word s) \<le> 1"
    "unat (readers s) = ?k first_reader + ?k group_reader" "?k first_reader = 0 \<or> ?k group_reader = 0"
    "?k {Rl_Signal} = 0 \<or> ?k first_reader + ?k group_reader = 0" "?k about_to_dec \<le> unat (sem s)"
    "unat (sem s) + ?k owning_writer + (if ?k group_reader + ?k {Rl_Signal} > 0 then 1 else 0) = 1"
    using inv by (simp_all add: rw_inv_def Let_def)
  have inc: "unat (readers s + 1) = unat (readers s) + 1" if "at s c = Rd_Inc"
    using I(5) cnt_parts(3) [of n "at s"] cnt_pos [OF c(1), of "at s" "{Rd_Inc}"] that c(2) by (subst unat_add_less) auto
  have up: "unat (sem s + 1) = unat (sem s) + 1" using I(9) by (subst unat_add_less) auto
  have down: "unat (w - 1) = unat w - 1" if "0 < unat w" for w :: u32
    using that by (subst unat_sub) (auto simp: word_le_nat_alt)
  note P = cnt_parts [of n "at s"] and Z = cnt_step [OF c(1)]
  note pos = Z(2) [of "at s" in_mtx] Z(2) [of "at s" in_sem] Z(2) [of "at s" first_reader] Z(2) [of "at s" group_reader]
    Z(2) [of "at s" about_to_dec] Z(2) [of "at s" owning_writer] Z(2) [of "at s" other_mtx] Z(2) [of "at s" other_sem]
    Z(2) [of "at s" "{Rl_Signal}"]
  have free: "sem s \<noteq> 0 \<longrightarrow> 0 < unat (sem s)" by (simp add: unat_gt_0)
  have words: "readers s + 1 = 1 \<longleftrightarrow> unat (readers s + 1) = 1" "readers s - 1 = 0 \<longleftrightarrow> unat (readers s - 1) = 0"
    by (metis unat_1 unat_eq_iff, metis unat_0 unat_eq_iff)
  show ?thesis
    using st
  proof cases
  qed (use I P pos inc up down [of "sem s"] down [of "readers s"] words free in
       \<open>simp_all add: rw_inv_def Let_def Z(1) rw_mem atomic_load_def atomic_store_def atomic_fetch_add_def
         atomic_fetch_sub_def split: if_splits\<close>)
qed

lemma rw_inv_reach: "rw_reach n s \<Longrightarrow> n < 2 ^ 32 \<Longrightarrow> rw_inv n s"
  by (induction rule: rw_reach.induct) (auto intro: rw_inv_start rw_inv_step)

section \<open>Who is in\<close>

lemma cnt_obtain: "0 < cnt n S f \<Longrightarrow> \<exists>c<n. f c \<in> S"
  by (auto simp: cnt_def card_gt_0_iff)

lemma rw_excl:
  assumes inv: "rw_inv n s" and c: "c < n" "at s c \<in> owning_writer" and d: "d < n" "d \<noteq> c"
  shows "at s d \<notin> owning_writer \<and> at s d \<notin> group_reader"
proof -
  let ?k = "\<lambda>S. cnt n S (at s)"
  have one: "unat (sem s) + ?k owning_writer + (if ?k group_reader + ?k {Rl_Signal} > 0 then 1 else 0) = 1"
    using inv by (simp add: rw_inv_def Let_def)
  moreover have "0 < ?k owning_writer" using c by (auto intro: cnt_pos)
  ultimately have "?k owning_writer \<le> 1" "?k group_reader = 0" by (auto split: if_splits)
  then show ?thesis using cnt_1_unique [of n owning_writer "at s" c d] cnt_pos [of d n "at s" group_reader] c d by auto
qed

text \<open>A run in which processor 0 takes the lock for writing while processor 1 waits as a reader.\<close>

definition sample_rw :: rw_sys where
  "sample_rw = \<lparr>sem = 0, readers = 0, mtx_word = 0, sem_word = 0, at = (\<lambda>_. Idle)(1 := Rd_Mtx, 0 := Writing)\<rparr>"

lemma sample_rw_reach: "rw_reach 2 sample_rw"
proof -
  let ?m = "\<lambda>q v w. \<lparr>sem = v, readers = 0, mtx_word = 0, sem_word = w, at = (\<lambda>_. Idle)(1 := Rd_Mtx, 0 := q)\<rparr>"
  have idle: "at rw_start d = Idle" for d by (simp add: rw_start_def Let_def)
  have 0: "rw_reach 2 (goto 1 Rd_Mtx rw_start)"
    using rw_reach.step [OF rw_reach.start, of 1, OF _ start_read [OF idle]] by simp
  have "rw_reach 2 (goto 0 Wr_Sem (goto 1 Rd_Mtx rw_start))"
    using rw_reach.step [OF 0, of 0, OF _ start_write] by (simp add: idle)
  then have 1: "rw_reach 2 (?m Wr_Sem 1 0)" by (simp add: goto_def rw_start_def rwlock_init_def)
  have 2: "rw_reach 2 (?m Wr_Wait 1 1)"
    using rw_reach.step [OF 1, of 0, OF _ wr_sem [of _ 0 1]] by (simp add: goto_def)
  have 3: "rw_reach 2 (?m Wr_Dec 1 1)"
    using rw_reach.step [OF 2, of 0, OF _ wr_wait [of _ 0]] by (simp add: goto_def atomic_load_def)
  have 4: "rw_reach 2 (?m Wr_Sem_Unlock 0 1)"
    using rw_reach.step [OF 3, of 0, OF _ wr_dec [of _ 0]] by (simp add: goto_def atomic_fetch_sub_def)
  have "rw_reach 2 (?m Writing 0 0)"
    using rw_reach.step [OF 4, of 0, OF _ wr_sem_unlock [of _ 0]] by (simp add: goto_def atomic_store_def)
  then show ?thesis by (simp add: sample_rw_def)
qed

text \<open>
  C20. Many readers or one writer: while a processor is between \<open>rwlock_write_acquire\<close> and
  \<open>rwlock_write_release\<close>, no other processor is between an acquire and a release of either kind, in every
  interleaving of the steps of fewer than 2^32 processors.
\<close>

theorem rwlock_excludes:
  assumes "rw_reach n s" "n < 2 ^ 32" "c < n" "d < n" "d \<noteq> c" "at s c = Writing"
  shows "at s d \<noteq> Writing \<and> at s d \<noteq> Reading"
  using rw_excl [OF rw_inv_reach [OF assms(1,2)] assms(3) _ assms(4,5)] assms(6) by (auto simp: rw_sets)

theorem rwlock_excludes_witness:
  "at sample_rw 0 = Writing \<and> at sample_rw 1 \<noteq> Writing \<and> at sample_rw 1 \<noteq> Reading"
  using rwlock_excludes [OF sample_rw_reach, of 0 1] by (simp add: sample_rw_def)

section \<open>No deadlock\<close>

text \<open>What holds a processor up: the mutex, the semaphore's mutex or the semaphore.\<close>

lemma rw_step_unless:
  "at s d = Idle \<or> at s d \<in> {Rd_Mtx, Rl_Mtx} \<and> mtx_word s \<noteq> 0 \<or> at s d \<in> {Rd_Sem, Wr_Sem} \<and> sem_word s \<noteq> 0 \<or>
   at s d \<in> {Rd_Wait, Wr_Wait} \<and> sem s = 0 \<or> (\<exists>s'. rw_step d s s')"
proof (cases "at s d")
  case Rd_Mtx then show ?thesis using rd_mtx [of s d 1] by auto
next
  case Rl_Mtx then show ?thesis using rl_mtx [of s d 1] by auto
next
  case Rd_Sem then show ?thesis using rd_sem [of s d 1] by auto
next
  case Wr_Sem then show ?thesis using wr_sem [of s d 1] by auto
next
  case Rd_Wait then show ?thesis using rd_wait [of s d] by (auto simp: atomic_load_def)
next
  case Wr_Wait then show ?thesis using wr_wait [of s d] by (auto simp: atomic_load_def)
qed (auto intro: rw_step.intros)

definition busy_step :: "nat \<Rightarrow> rw_sys \<Rightarrow> bool" where
  "busy_step n s \<longleftrightarrow> (\<exists>d<n. at s d \<noteq> Idle \<and> (\<exists>s'. rw_step d s s'))"

text \<open>If the semaphore is taken, its owner can go on, or waits for the mutex another processor has.\<close>

lemma rw_progress:
  assumes inv: "rw_inv n s" and c: "c < n" "at s c \<noteq> Idle"
  shows "busy_step n s"
proof (rule ccontr)
  assume stuck: "\<not> busy_step n s"
  let ?k = "\<lambda>S. cnt n S (at s)"
  have S: "at s d = Idle \<or> at s d \<in> {Rd_Mtx, Rl_Mtx} \<and> mtx_word s \<noteq> 0 \<or> at s d \<in> {Rd_Sem, Wr_Sem} \<and> sem_word s \<noteq> 0 \<or>
     at s d \<in> {Rd_Wait, Wr_Wait} \<and> sem s = 0" if "d < n" for d
    using stuck that rw_step_unless [of s d] by (auto simp: busy_step_def)
  have I: "unat (mtx_word s) = ?k in_mtx" "unat (sem_word s) = ?k in_sem" "?k first_reader = 0 \<or> ?k group_reader = 0"
    "unat (sem s) + ?k owning_writer + (if ?k group_reader + ?k {Rl_Signal} > 0 then 1 else 0) = 1"
    using inv by (simp_all add: rw_inv_def Let_def)
  have none: "?k owning_writer = 0" "?k {Rl_Signal} = 0"
    using S cnt_obtain [of n owning_writer "at s"] cnt_obtain [of n "{Rl_Signal}" "at s"] by (fastforce simp: rw_sets)+
  have mtx: "?k first_reader > 0" if "mtx_word s \<noteq> 0"
  proof -
    have "0 < ?k in_mtx" using I(1) \<open>mtx_word s \<noteq> 0\<close> by (metis unat_gt_0)
    then obtain d where d: "d < n" "at s d \<in> in_mtx" using cnt_obtain by blast
    then have "at s d \<in> first_reader" using S [OF d(1)] by (auto simp: rw_sets)
    then show ?thesis using cnt_pos d(1) by blast
  qed
  have free: "sem s \<noteq> 0"
  proof
    assume "sem s = 0"
    then have g: "?k group_reader > 0" using I(4) none by (auto split: if_splits)
    then obtain d where d: "d < n" "at s d \<in> group_reader" using cnt_obtain by blast
    then have "mtx_word s \<noteq> 0" using S [OF d(1)] by (auto simp: rw_sets)
    then show False using mtx g I(3) by simp
  qed
  have sem: "sem_word s = 0"
  proof (rule ccontr)
    assume "sem_word s \<noteq> 0"
    then have "0 < ?k in_sem" using I(2) by (metis unat_gt_0)
    then obtain d where "d < n" "at s d \<in> in_sem" using cnt_obtain by blast
    then show False using S free by (fastforce simp: rw_sets)
  qed
  have "mtx_word s = 0"
  proof (rule ccontr)
    assume "mtx_word s \<noteq> 0"
    then obtain d where "d < n" "at s d \<in> first_reader" using mtx cnt_obtain by blast
    then show False using S free sem by (fastforce simp: rw_sets)
  qed
  then show False using S [OF c(1)] c(2) free sem by auto
qed

text \<open>
  C21. The lock never deadlocks: in every reachable state in which some processor is using the lock, a processor
  that is using it can take a step.
\<close>

theorem rwlock_no_deadlock:
  assumes "rw_reach n s" "n < 2 ^ 32" "c < n" "at s c \<noteq> Idle"
  shows "\<exists>d<n. at s d \<noteq> Idle \<and> (\<exists>s'. rw_step d s s')"
  using rw_progress [OF rw_inv_reach [OF assms(1,2)] assms(3,4)] by (simp add: busy_step_def)

theorem rwlock_no_deadlock_witness: "\<exists>d<2. at sample_rw d \<noteq> Idle \<and> (\<exists>s'. rw_step d sample_rw s')"
  using rwlock_no_deadlock [OF sample_rw_reach, of 1] by (simp add: sample_rw_def)

section \<open>One processor\<close>

text \<open>With the interrupts off a spin lock leaves the flags alone.\<close>

lemma cli_off: "cli e AND CPU_EFLAGS_IF = 0"
proof -
  have "\<not> bit (cli e) 9" by (simp add: cli_def CPU_EFLAGS_IF_def bit_simps)
  then show ?thesis using and_if_eq_0 by blast
qed

lemma spinlock_off:
  "e AND CPU_EFLAGS_IF = 0 \<Longrightarrow> locked p = 0 \<Longrightarrow>
     spinlock_lock p e = Some (\<lparr>locked = 1, is_irq_enabled_when_locked = 0\<rparr>, e)"
  "spinlock_unlock \<lparr>locked = v, is_irq_enabled_when_locked = 0\<rparr> e = (\<lparr>locked = 0, is_irq_enabled_when_locked = 0\<rparr>, e)"
  by (cases p; simp add: spinlock_lock_def spinlock_unlock_def atomic_compare_exchange_def atomic_store_def)+

lemma psem_wait_off:
  "e AND CPU_EFLAGS_IF = 0 \<Longrightarrow> locked (sem_mtx l) = 0 \<Longrightarrow> sem_count l = 1 \<Longrightarrow>
     psem_wait l e = Some (l\<lparr>sem_mtx := \<lparr>locked = 0, is_irq_enabled_when_locked = 0\<rparr>, sem_count := 0\<rparr>, e)"
  by (cases l) (simp add: psem_wait_def spinlock_off atomic_load_def atomic_fetch_sub_def)

lemma irq_saved:
  "save_irq l e = (l1, e1) \<Longrightarrow> e1 AND CPU_EFLAGS_IF = 0 \<and> l1 = l\<lparr>rw_is_irq_enabled_when_locked := e AND CPU_EFLAGS_IF\<rparr> \<and>
     (rw_is_irq_enabled_when_locked l2 = e AND CPU_EFLAGS_IF \<longrightarrow> restore_irq l2 e1 = e)"
  using cli_off [of e] sti_cli [of e] and_if_eq_0 [of e] by (auto simp: save_irq_def restore_irq_def Let_def)

definition rw_free :: "rwlock \<Rightarrow> bool" where
  "rw_free l \<longleftrightarrow> sem_count l = 1 \<and> reader_count l = 0 \<and> locked (mtx l) = 0 \<and> locked (sem_mtx l) = 0"

text \<open>
  On one processor a free lock can be taken for reading and for writing, and releasing it leaves the
  lock free and the processor's flags as they were, with the interrupts off in between.
\<close>

lemma rwlock_pairs:
  assumes "rw_free l"
  shows "\<exists>l1 e1 l2. rwlock_read_acquire l e = Some (l1, e1) \<and> e1 AND CPU_EFLAGS_IF = 0 \<and> reader_count l1 = 1 \<and> sem_count l1 = 0 \<and>
           rwlock_read_release l1 e1 = Some (l2, e) \<and> rw_free l2"
    "\<exists>l1 e1 l2. rwlock_write_acquire l e = Some (l1, e1) \<and> e1 AND CPU_EFLAGS_IF = 0 \<and> sem_count l1 = 0 \<and>
           rwlock_write_release l1 e1 = (l2, e) \<and> rw_free l2"
proof -
  obtain l1 e1 where s: "save_irq l e = (l1, e1)" by force
  note I = irq_saved [OF s]
  have L: "sem_count l1 = 1" "reader_count l1 = 0" "locked (mtx l1) = 0" "locked (sem_mtx l1) = 0"
    "rw_is_irq_enabled_when_locked l1 = e AND CPU_EFLAGS_IF"
    using I assms by (auto simp: rw_free_def)
  show "\<exists>l1 e1 l2. rwlock_write_acquire l e = Some (l1, e1) \<and> e1 AND CPU_EFLAGS_IF = 0 \<and> sem_count l1 = 0 \<and>
           rwlock_write_release l1 e1 = (l2, e) \<and> rw_free l2"
    using I L assms s
    by (simp add: rwlock_write_acquire_def rwlock_write_release_def psem_wait_off psem_signal_def atomic_fetch_add_def rw_free_def)
  show "\<exists>l1 e1 l2. rwlock_read_acquire l e = Some (l1, e1) \<and> e1 AND CPU_EFLAGS_IF = 0 \<and> reader_count l1 = 1 \<and> sem_count l1 = 0 \<and>
           rwlock_read_release l1 e1 = Some (l2, e) \<and> rw_free l2"
    using I L assms s
    by (simp add: rwlock_read_acquire_def rwlock_read_release_def spinlock_off psem_wait_off psem_signal_def
        atomic_fetch_add_def rw_free_def)
qed

text \<open>
  The saved interrupt flag is one field for all holders: a reader that interrupts were on for and that reads
  again inside ends with the interrupts off.
\<close>

lemma rwlock_nested_read_keeps_irq_off:
  "\<exists>l1 e1 l2 e2 l3 e3 l4 e4. rwlock_read_acquire (rwlock_init l) CPU_EFLAGS_IF = Some (l1, e1) \<and>
     rwlock_read_acquire l1 e1 = Some (l2, e2) \<and> rwlock_read_release l2 e2 = Some (l3, e3) \<and>
     rwlock_read_release l3 e3 = Some (l4, e4) \<and> rw_free l4 \<and> e4 AND CPU_EFLAGS_IF = 0"
  by (simp add: rwlock_read_acquire_def rwlock_read_release_def rwlock_init_def save_irq_def restore_irq_def spinlock_off
      psem_wait_off psem_signal_def atomic_fetch_add_def rw_free_def cli_off CPU_EFLAGS_IF_def cli_def)

end
