(* ===== verification/Context.thy ===== *)
theory Context
  imports Memory
begin

text \<open>
  \<^verbatim>\<open>kernel/tasks/cpu_switch_to.S\<close>: the switch from one task to another. The routine is the list of its instructions, run by
  a function for one instruction on a machine of the eight general registers, the flags, the instruction
  pointer and the byte memory. The theorem is that a task that is switched away and back continues with all its
  registers, its flags, its stack pointer and its return address.
\<close>

section \<open>The machine\<close>

datatype reg = EAX | ECX | EDX | EBX | ESI | EDI | EBP | ESP

record machine =
  regs :: "reg \<Rightarrow> u32"
  mflags :: u32
  mip :: u32
  mmem :: mem

text \<open>
  \<open>Load r b k\<close> is \<open>mov r, [b + k]\<close>, \<open>Store b k r\<close> is \<open>mov [b + k], r\<close>, \<open>Lea r b k\<close> is \<open>lea r, [b + k]\<close>, and \<open>PushI\<close> and \<open>AddI\<close> have a constant
  operand. \<open>Iret\<close> takes the instruction pointer, the code segment and the flags from the stack; the kernel has one code
  segment, which is not part of the machine.
\<close>

datatype instr = Push reg | PushI u32 | Pushf | Pop reg | Popf | Load reg reg u32 | Store reg u32 reg | Lea reg reg u32 | AddI reg u32 | Ret | Iret

fun exec1 :: "instr \<Rightarrow> machine \<Rightarrow> machine" where
  "exec1 (Push r) c = c\<lparr>regs := (regs c)(ESP := regs c ESP - 4), mmem := store32 (mmem c) (regs c ESP - 4) (regs c r)\<rparr>"
| "exec1 Pushf c = c\<lparr>regs := (regs c)(ESP := regs c ESP - 4), mmem := store32 (mmem c) (regs c ESP - 4) (mflags c)\<rparr>"
| "exec1 (Pop r) c = c\<lparr>regs := (regs c)(ESP := regs c ESP + 4, r := load32 (mmem c) (regs c ESP))\<rparr>"
| "exec1 Popf c = c\<lparr>regs := (regs c)(ESP := regs c ESP + 4), mflags := load32 (mmem c) (regs c ESP)\<rparr>"
| "exec1 (Load r b k) c = c\<lparr>regs := (regs c)(r := load32 (mmem c) (regs c b + k))\<rparr>"
| "exec1 (Store b k r) c = c\<lparr>mmem := store32 (mmem c) (regs c b + k) (regs c r)\<rparr>"
| "exec1 (PushI v) c = c\<lparr>regs := (regs c)(ESP := regs c ESP - 4), mmem := store32 (mmem c) (regs c ESP - 4) v\<rparr>"
| "exec1 (Lea r b k) c = c\<lparr>regs := (regs c)(r := regs c b + k)\<rparr>"
| "exec1 (AddI r v) c = c\<lparr>regs := (regs c)(r := regs c r + v)\<rparr>"
| "exec1 Iret c = c\<lparr>regs := (regs c)(ESP := regs c ESP + 12), mip := load32 (mmem c) (regs c ESP), mflags := load32 (mmem c) (regs c ESP + 8)\<rparr>"
| "exec1 Ret c = c\<lparr>regs := (regs c)(ESP := regs c ESP + 4), mip := load32 (mmem c) (regs c ESP)\<rparr>"

definition exec :: "instr list \<Rightarrow> machine \<Rightarrow> machine" where
  "exec is c = fold exec1 is c"

section \<open>The routine\<close>

definition STRUCT_TASK_ESP :: u32 where "STRUCT_TASK_ESP = 0"
definition STRUCT_TASK_EIP :: u32 where "STRUCT_TASK_EIP = 36"
definition PUSHED_REGS_SZ :: u32 where "PUSHED_REGS_SZ = 32"

definition switch_save :: "instr list" where
  "switch_save = [Push EAX, Push ECX, Push EDX, Push EBX, Push ESI, Push EDI, Push EBP, Pushf,
     Load EDI ESP (PUSHED_REGS_SZ + 4),
     Load EAX ESP PUSHED_REGS_SZ,
     Store EDI STRUCT_TASK_EIP EAX,
     Store EDI STRUCT_TASK_ESP ESP]"

definition switch_load :: "instr list" where
  "switch_load = [Load ESI ESP (PUSHED_REGS_SZ + 8),
     Load ESP ESI STRUCT_TASK_ESP,
     Load EAX ESI STRUCT_TASK_EIP,
     Store ESP PUSHED_REGS_SZ EAX,
     Popf, Pop EBP, Pop EDI, Pop ESI, Pop EBX, Pop EDX, Pop ECX, Pop EAX,
     Ret]"

definition cpu_switch_to :: "machine \<Rightarrow> machine" where
  "cpu_switch_to c = exec (switch_save @ switch_load) c"

section \<open>Aligned words\<close>

definition aligned :: "u32 \<Rightarrow> bool" where
  "aligned a \<longleftrightarrow> 4 dvd unat a"

lemma aligned_add [simp]: "aligned a \<Longrightarrow> aligned b \<Longrightarrow> aligned (a + b)"
  unfolding aligned_def unat_word_ariths by (intro dvd_mod) simp_all

lemma aligned_minus [simp]: "aligned a \<Longrightarrow> aligned b \<Longrightarrow> aligned (a - b)"
proof -
  assume a: "aligned a" "aligned b"
  have le: "unat b \<le> 4294967296" using unat_less_32 [of b] by simp
  have "- b = of_nat (4294967296 - unat b)" using le by (simp add: of_nat_diff)
  moreover have "4 dvd (4294967296 - unat b)" using a(2) unfolding aligned_def by (intro dvd_diff_nat) simp_all
  ultimately have "aligned (- b)" unfolding aligned_def by (simp only: unat_of_nat) (intro dvd_mod, simp_all)
  then have "aligned (a + - b)" using a(1) by (rule aligned_add [rotated])
  then show ?thesis by simp
qed

lemma aligned_numeral [simp]: "aligned (numeral n) \<longleftrightarrow> 4 dvd unat (numeral n :: u32)"
  by (simp add: aligned_def)

lemma load_store [simp]:
  "aligned a \<Longrightarrow> aligned b \<Longrightarrow> load32 (store32 m a v) b = (if b = a then v else load32 m b)"
  by (auto simp: aligned_def load32_store32)

section \<open>The two halves\<close>

text \<open>
  The words of a task's structure and of its stack that the switch uses: the saved stack pointer and instruction
  pointer; the eight words below the stack pointer, the return address and the two arguments.
\<close>

definition task_words :: "u32 \<Rightarrow> u32 set" where
  "task_words t = {t, t + 36}"

definition frame_words :: "u32 \<Rightarrow> u32 set" where
  "frame_words e = {e - 4, e - 8, e - 12, e - 16, e - 20, e - 24, e - 28, e - 32}"

definition called :: "machine \<Rightarrow> u32 \<Rightarrow> u32 \<Rightarrow> bool" where
  "called c prev nxt \<longleftrightarrow> aligned (regs c ESP) \<and> aligned prev \<and> load32 (mmem c) (regs c ESP + 4) = prev \<and>
     load32 (mmem c) (regs c ESP + 8) = nxt \<and>
     task_words prev \<inter> (frame_words (regs c ESP) \<union> {regs c ESP, regs c ESP + 4, regs c ESP + 8}) = {}"

text \<open>What is in memory when a task is switched away: its stack pointer, return address, flags and registers.\<close>

definition saved :: "mem \<Rightarrow> u32 \<Rightarrow> machine \<Rightarrow> bool" where
  "saved m t c \<longleftrightarrow> (let e = regs c ESP in load32 m t = e - 32 \<and> load32 m (t + 36) = load32 (mmem c) e \<and>
     load32 m (e - 32) = mflags c \<and> load32 m (e - 28) = regs c EBP \<and> load32 m (e - 24) = regs c EDI \<and>
     load32 m (e - 20) = regs c ESI \<and> load32 m (e - 16) = regs c EBX \<and> load32 m (e - 12) = regs c EDX \<and>
     load32 m (e - 8) = regs c ECX \<and> load32 m (e - 4) = regs c EAX)"

definition pushed :: "machine \<Rightarrow> mem" where
  "pushed c = (let e = regs c ESP in fold (\<lambda>(k, v) m. store32 m (e - k) v)
     [(4, regs c EAX), (8, regs c ECX), (12, regs c EDX), (16, regs c EBX), (20, regs c ESI), (24, regs c EDI), (28, regs c EBP), (32, mflags c)]
     (mmem c))"

lemma pushed_load:
  assumes "aligned (regs c ESP)"
  shows "load32 (pushed c) (regs c ESP - 32) = mflags c" "load32 (pushed c) (regs c ESP - 28) = regs c EBP"
    "load32 (pushed c) (regs c ESP - 24) = regs c EDI" "load32 (pushed c) (regs c ESP - 20) = regs c ESI"
    "load32 (pushed c) (regs c ESP - 16) = regs c EBX" "load32 (pushed c) (regs c ESP - 12) = regs c EDX"
    "load32 (pushed c) (regs c ESP - 8) = regs c ECX" "load32 (pushed c) (regs c ESP - 4) = regs c EAX"
    "\<And>x. aligned x \<Longrightarrow> x \<notin> frame_words (regs c ESP) \<Longrightarrow> load32 (pushed c) x = load32 (mmem c) x"
  using assms by (simp_all add: pushed_def Let_def frame_words_def)

lemma switch_save_exec:
  "exec switch_save c = (let e = regs c ESP; m = pushed c; p = load32 m (e + 4) in
     c\<lparr>regs := (regs c)(ESP := e - 32, EDI := p, EAX := load32 m e), mmem := store32 (store32 m (p + 36) (load32 m e)) p (e - 32)\<rparr>)"
  by (simp add: exec_def switch_save_def pushed_def Let_def PUSHED_REGS_SZ_def STRUCT_TASK_EIP_def STRUCT_TASK_ESP_def
      diff_diff_eq fun_upd_twist add.commute [of "4 :: u32"])

lemma switch_save_ok:
  assumes "called c prev nxt"
  shows "regs (exec switch_save c) ESP = regs c ESP - 32" "saved (mmem (exec switch_save c)) prev c"
    "load32 (mmem (exec switch_save c)) (regs c ESP + 8) = nxt"
    "\<And>x. aligned x \<Longrightarrow> x \<notin> task_words prev \<Longrightarrow> x \<notin> frame_words (regs c ESP) \<Longrightarrow>
       load32 (mmem (exec switch_save c)) x = load32 (mmem c) x"
proof -
  let ?e = "regs c ESP"
  have a: "aligned ?e" "aligned prev" "load32 (mmem c) (?e + 4) = prev" "load32 (mmem c) (?e + 8) = nxt"
    and out: "task_words prev \<inter> (frame_words ?e \<union> {?e, ?e + 4, ?e + 8}) = {}" using assms by (auto simp: called_def)
  have "?e \<notin> frame_words ?e" "?e + 4 \<notin> frame_words ?e" "?e + 8 \<notin> frame_words ?e" by (simp_all add: frame_words_def)
  then have p: "load32 (pushed c) ?e = load32 (mmem c) ?e" "load32 (pushed c) (?e + 4) = prev" "load32 (pushed c) (?e + 8) = nxt"
    using pushed_load(9) [OF a(1)] a by simp_all
  have x: "exec switch_save c = c\<lparr>regs := (regs c)(ESP := ?e - 32, EDI := prev, EAX := load32 (mmem c) ?e),
      mmem := store32 (store32 (pushed c) (prev + 36) (load32 (mmem c) ?e)) prev (?e - 32)\<rparr>"
    using p by (simp add: switch_save_exec Let_def)
  have keep: "load32 (mmem (exec switch_save c)) y = load32 (pushed c) y" if "aligned y" "y \<notin> task_words prev" for y
    using that a(2) by (simp add: x task_words_def eq_commute)
  show "regs (exec switch_save c) ESP = ?e - 32" by (simp add: x)
  have w: "aligned (?e - k) \<and> ?e - k \<notin> task_words prev" if "?e - k \<in> frame_words ?e" "aligned k" for k
    using that out a(1) by auto
  have "load32 (mmem (exec switch_save c)) (?e - k) = load32 (pushed c) (?e - k)" if "?e - k \<in> frame_words ?e" "aligned k" for k
    using keep w that by blast
  from this [of 32] this [of 28] this [of 24] this [of 20] this [of 16] this [of 12] this [of 8] this [of 4]
  show "saved (mmem (exec switch_save c)) prev c"
    using pushed_load [OF a(1)] a(2) by (simp add: saved_def Let_def x frame_words_def)
  show "load32 (mmem (exec switch_save c)) (?e + 8) = nxt" using keep [of "?e + 8"] out a(1) p(3) by auto
  show "load32 (mmem (exec switch_save c)) y = load32 (mmem c) y"
    if "aligned y" "y \<notin> task_words prev" "y \<notin> frame_words ?e" for y
    using keep that pushed_load(9) [OF a(1)] by simp
qed

lemma switch_load_ok:
  assumes "load32 (mmem c) (regs c ESP + 40) = t" "load32 (mmem c) t = e - 32" "aligned e"
  shows "mip (exec switch_load c) = load32 (mmem c) (t + 36)" "regs (exec switch_load c) ESP = e + 4"
    "mflags (exec switch_load c) = load32 (mmem c) (e - 32)"
    "regs (exec switch_load c) EBP = load32 (mmem c) (e - 28)" "regs (exec switch_load c) EDI = load32 (mmem c) (e - 24)"
    "regs (exec switch_load c) ESI = load32 (mmem c) (e - 20)" "regs (exec switch_load c) EBX = load32 (mmem c) (e - 16)"
    "regs (exec switch_load c) EDX = load32 (mmem c) (e - 12)" "regs (exec switch_load c) ECX = load32 (mmem c) (e - 8)"
    "regs (exec switch_load c) EAX = load32 (mmem c) (e - 4)"
    "mmem (exec switch_load c) = store32 (mmem c) e (load32 (mmem c) (t + 36))"
  using assms
  by (simp_all add: exec_def switch_load_def PUSHED_REGS_SZ_def STRUCT_TASK_EIP_def STRUCT_TASK_ESP_def)

lemma cpu_switch_to_halves: "cpu_switch_to c = exec switch_load (exec switch_save c)"
  by (simp add: cpu_switch_to_def exec_def)

text \<open>The words a switched-away task needs until it is resumed.\<close>

definition kept_words :: "u32 \<Rightarrow> machine \<Rightarrow> u32 set" where
  "kept_words t c = task_words t \<union> frame_words (regs c ESP)"

lemma kept_aligned: "aligned t \<Longrightarrow> aligned (regs c ESP) \<Longrightarrow> x \<in> kept_words t c \<Longrightarrow> aligned x"
  by (auto simp: kept_words_def task_words_def frame_words_def)

lemma saved_cong: "saved m t c \<Longrightarrow> (\<And>x. x \<in> kept_words t c \<Longrightarrow> load32 m' x = load32 m x) \<Longrightarrow> saved m' t c"
  by (simp add: saved_def kept_words_def task_words_def frame_words_def Let_def)

lemma switch_save_next:
  assumes "called c p t"
  shows "load32 (mmem (exec switch_save c)) (regs (exec switch_save c) ESP + 40) = t"
proof -
  have "regs (exec switch_save c) ESP + 40 = regs c ESP + 8" unfolding switch_save_ok(1) [OF assms] by simp
  then show ?thesis using switch_save_ok(3) [OF assms] by (simp only:)
qed

text \<open>Switching to a saved task from the task \<open>p\<close>.\<close>

lemma switch_resumes:
  assumes c: "called c p t" and s: "saved (mmem c) t c0" and a: "aligned t" "aligned (regs c0 ESP)"
    and apart: "kept_words t c0 \<inter> kept_words p c = {}"
  shows "regs (cpu_switch_to c) = (regs c0)(ESP := regs c0 ESP + 4)" "mflags (cpu_switch_to c) = mflags c0"
    "mip (cpu_switch_to c) = load32 (mmem c0) (regs c0 ESP)"
proof -
  let ?c = "exec switch_save c"
  have "load32 (mmem ?c) x = load32 (mmem c) x" if "x \<in> kept_words t c0" for x
    using switch_save_ok(4) [OF c] kept_aligned [OF a that] that apart by (auto simp: kept_words_def)
  then have S: "saved (mmem ?c) t c0" by (rule saved_cong [OF s])
  note t = switch_save_next [OF c]
  have "load32 (mmem ?c) t = regs c0 ESP - 32" using S by (simp add: saved_def Let_def)
  note L = switch_load_ok [OF t this a(2)]
  have "regs (cpu_switch_to c) r = ((regs c0)(ESP := regs c0 ESP + 4)) r" for r
    using L S by (cases r) (simp_all add: cpu_switch_to_halves saved_def Let_def)
  then show "regs (cpu_switch_to c) = (regs c0)(ESP := regs c0 ESP + 4)" by blast
  show "mflags (cpu_switch_to c) = mflags c0" "mip (cpu_switch_to c) = load32 (mmem c0) (regs c0 ESP)"
    using L S by (simp_all add: cpu_switch_to_halves saved_def Let_def)
qed

text \<open>Switching away saves the task, as long as the stack of the task switched to is another one.\<close>

lemma switch_saves:
  assumes c: "called c t n" and e: "load32 (mmem (exec switch_save c)) n = e - 32" "aligned e" "e \<notin> kept_words t c"
  shows "saved (mmem (cpu_switch_to c)) t c"
proof -
  let ?c = "exec switch_save c"
  have a: "aligned t" "aligned (regs c ESP)" using c by (auto simp: called_def)
  note M = switch_load_ok(11) [OF switch_save_next [OF c] e(1,2)]
  have "load32 (mmem (cpu_switch_to c)) x = load32 (mmem ?c) x" if "x \<in> kept_words t c" for x
    using M kept_aligned [OF a that] e(2,3) that by (auto simp: cpu_switch_to_halves)
  then show ?thesis by (rule saved_cong [OF switch_save_ok(2) [OF c]])
qed

section \<open>Properties\<close>

text \<open>
  C6. A context switch is transparent to the task: when task \<open>t\<close> calls \<open>cpu_switch_to(t, n)\<close>, and later some task \<open>p\<close>
  calls \<open>cpu_switch_to(p, t)\<close> with the saved words of \<open>t\<close> untouched in between, the second call returns to \<open>t\<close>: to the
  return address of the first call, with every register and the flags as they were at the first call and the
  return address popped.
\<close>

theorem switch_roundtrip:
  assumes "called c t n" "load32 (mmem (exec switch_save c)) n = e - 32" "aligned e" "e \<notin> kept_words t c"
    and "\<forall>x\<in>kept_words t c. load32 (mmem c2) x = load32 (mmem (cpu_switch_to c)) x"
    and "called c2 p t" "kept_words t c \<inter> kept_words p c2 = {}"
  shows "regs (cpu_switch_to c2) = (regs c)(ESP := regs c ESP + 4) \<and> mflags (cpu_switch_to c2) = mflags c \<and>
     mip (cpu_switch_to c2) = load32 (mmem c) (regs c ESP)"
proof -
  have "saved (mmem (cpu_switch_to c)) t c" by (rule switch_saves [OF assms(1-4)])
  then have "saved (mmem c2) t c" by (rule saved_cong) (use assms(5) in blast)
  moreover have "aligned t" "aligned (regs c ESP)" using assms(1) by (auto simp: called_def)
  ultimately show ?thesis using switch_resumes [OF assms(6) _ _ _ assms(7)] by blast
qed

definition sample_switch :: machine where
  "sample_switch = \<lparr>regs = (\<lambda>_. 0)(EAX := 1, ECX := 2, EDX := 3, EBX := 4, ESI := 5, EDI := 6, EBP := 7, ESP := 0x10000), mflags = 0x202,
     mip = 0, mmem = store32 (store32 (store32 (store32 (\<lambda>_. 0) 0x10000 0x1234) 0x10004 0x20000) 0x10008 0x20100) 0x20100 0x2ffe0\<rparr>"

definition sample_back :: machine where
  "sample_back = (let c = cpu_switch_to sample_switch in
     c\<lparr>regs := (regs c)(ESP := 0x2ff00), mmem := store32 (store32 (mmem c) 0x2ff04 0x20100) 0x2ff08 0x20000\<rparr>)"

lemma sample_called: "called sample_switch 0x20000 0x20100"
  by (simp add: called_def sample_switch_def task_words_def frame_words_def)

theorem switch_roundtrip_witness:
  "regs (cpu_switch_to sample_back) EAX = 1 \<and> regs (cpu_switch_to sample_back) ESP = 0x10004 \<and>
   mflags (cpu_switch_to sample_back) = 0x202 \<and> mip (cpu_switch_to sample_back) = 0x1234"
proof -
  let ?c = "cpu_switch_to sample_switch"
  have k: "kept_words 0x20000 sample_switch = {0x20000, 0x20024, 0xfffc, 0xfff8, 0xfff4, 0xfff0, 0xffec, 0xffe8, 0xffe4, 0xffe0}"
    by (auto simp: kept_words_def task_words_def frame_words_def sample_switch_def)
  have n: "load32 (mmem (exec switch_save sample_switch)) 0x20100 = 0x30000 - 32"
    using switch_save_ok(4) [OF sample_called, of "0x20100"]
    by (simp add: task_words_def frame_words_def sample_switch_def)
  have same: "\<forall>x\<in>kept_words 0x20000 sample_switch. load32 (mmem sample_back) x = load32 (mmem ?c) x"
    unfolding k by (simp add: sample_back_def Let_def)
  have "called sample_back 0x20100 0x20000"
    by (simp add: called_def sample_back_def Let_def task_words_def frame_words_def)
  moreover have "kept_words 0x20000 sample_switch \<inter> kept_words 0x20100 sample_back = {}"
    unfolding k by (simp add: kept_words_def task_words_def frame_words_def sample_back_def Let_def)
  moreover have "(0x30000 :: u32) \<notin> kept_words 0x20000 sample_switch" unfolding k by simp
  ultimately show ?thesis
    using switch_roundtrip [OF sample_called n _ _ same] by (simp add: sample_switch_def)
qed

end
