(* ===== verification/Tasks.thy ===== *)
theory Tasks
  imports Objects Rwlock Context
begin

text \<open>
  \<^verbatim>\<open>kernel/tasks/tasks.c\<close>: the task table and the scheduler. Task structures are heap objects whose fields are words of the
  kernel's memory. The functions are modelled as one processor runs them; the call of \<open>cpu_switch_to\<close> that ends the
  run of the current task is returned as a value, the pair of task structures it is called with, and the
  theory \<open>Context\<close> has what the call does.

  The pointers \<open>_current\<close> and \<open>_bootstrap_tasks\<close> of the code are never given storage: both stay \<open>NULL\<close>, and both arrays are the
  words from address 0 on, one array \<open>null_array\<close> of the model.
\<close>

section \<open>State\<close>

definition MAX_CONCURRENT_TASKS :: nat where "MAX_CONCURRENT_TASKS = 64"

definition TASK_READY :: u32 where "TASK_READY = 0"
definition TASK_WAITING :: u32 where "TASK_WAITING = 1"
definition TASK_RUNNING :: u32 where "TASK_RUNNING = 2"
definition TASK_TERMINATED :: u32 where "TASK_TERMINATED = 3"
definition JOIN_JOINABLE :: u32 where "JOIN_JOINABLE = 0"
definition JOIN_DETACHED :: u32 where "JOIN_DETACHED = 1"

text \<open>The offsets of the fields of \<open>struct task_struct\<close> and its size.\<close>

definition F_esp :: u32 where "F_esp = 0"
definition F_eip :: u32 where "F_eip = 36"
definition F_pid :: u32 where "F_pid = 48"
definition F_state :: u32 where "F_state = 52"
definition F_static_prio :: u32 where "F_static_prio = 56"
definition F_dynamic_prio :: u32 where "F_dynamic_prio = 60"
definition F_stack_bottom :: u32 where "F_stack_bottom = 64"
definition F_interruptible :: u32 where "F_interruptible = 72"
definition F_join_state :: u32 where "F_join_state = 76"
definition F_sleep_avg :: u32 where "F_sleep_avg = 80"
definition task_struct_size :: u32 where "task_struct_size = 84"

lemmas task_consts = MAX_CONCURRENT_TASKS_def TASK_READY_def TASK_WAITING_def TASK_RUNNING_def TASK_TERMINATED_def
  JOIN_JOINABLE_def JOIN_DETACHED_def F_esp_def F_eip_def F_pid_def F_state_def F_static_prio_def F_dynamic_prio_def
  F_stack_bottom_def F_interruptible_def F_join_state_def F_sleep_avg_def task_struct_size_def

text \<open>\<open>addr_of_return_cb\<close> and its like are the addresses the linker gives to functions of the kernel.\<close>

record tasks = liballoc +
  task_tab :: "u32 list"
  nr_tasks :: u32
  null_array :: "u32 list"
  lock_tasklist :: rwlock
  cpu_id :: nat
  cpu_count :: u8
  addr_of_return_cb :: u32
  addr_of_startup :: u32
  addr_of_idle :: u32

definition tget :: "u32 \<Rightarrow> u32 \<Rightarrow> mem \<Rightarrow> u32 option" where
  "tget f t m = (if t = 0 then None else Some (load32 m (t + f)))"

definition tset :: "u32 \<Rightarrow> u32 \<Rightarrow> u32 \<Rightarrow> mem \<Rightarrow> mem option" where
  "tset f t v m = (if t = 0 then None else Some (store32 m (t + f) v))"

definition set_field :: "u32 \<Rightarrow> u32 \<Rightarrow> u32 \<Rightarrow> 'a tasks_scheme \<Rightarrow> 'a tasks_scheme option" where
  "set_field f t v s = do { m \<leftarrow> tset f t v (kmem s); Some (s\<lparr>kmem := m\<rparr>) }"

section \<open>The lock of the task list\<close>

definition read_lock :: "'a tasks_scheme \<Rightarrow> 'a tasks_scheme option" where
  "read_lock s = do { (l, e) \<leftarrow> rwlock_read_acquire (lock_tasklist s) (eflags s); Some (s\<lparr>lock_tasklist := l, eflags := e\<rparr>) }"

definition read_unlock :: "'a tasks_scheme \<Rightarrow> 'a tasks_scheme option" where
  "read_unlock s = do { (l, e) \<leftarrow> rwlock_read_release (lock_tasklist s) (eflags s); Some (s\<lparr>lock_tasklist := l, eflags := e\<rparr>) }"

definition write_lock :: "'a tasks_scheme \<Rightarrow> 'a tasks_scheme option" where
  "write_lock s = do { (l, e) \<leftarrow> rwlock_write_acquire (lock_tasklist s) (eflags s); Some (s\<lparr>lock_tasklist := l, eflags := e\<rparr>) }"

definition write_unlock :: "'a tasks_scheme \<Rightarrow> 'a tasks_scheme" where
  "write_unlock s = (let (l, e) = rwlock_write_release (lock_tasklist s) (eflags s) in s\<lparr>lock_tasklist := l, eflags := e\<rparr>)"

section \<open>The current task\<close>

definition task_get_nr :: "'a tasks_scheme \<Rightarrow> u32" where
  "task_get_nr s = atomic_load (nr_tasks s)"

definition task_get_current :: "'a tasks_scheme \<Rightarrow> u32 option" where
  "task_get_current s = arr_get (null_array s) (cpu_id s)"

definition task_set_current :: "u32 \<Rightarrow> 'a tasks_scheme \<Rightarrow> 'a tasks_scheme option" where
  "task_set_current t s = do { a \<leftarrow> arr_set (null_array s) (cpu_id s) t; Some (s\<lparr>null_array := a\<rparr>) }"

definition task_getpid :: "'a tasks_scheme \<Rightarrow> u32 option" where
  "task_getpid s = do { t \<leftarrow> task_get_current s; tget F_pid t (kmem s) }"

section \<open>The scheduler\<close>

text \<open>The loop that looks for the ready task with the largest counter; its variables are \<open>c\<close> and \<open>next\<close>.\<close>

fun sched_scan :: "nat list \<Rightarrow> u32 list \<Rightarrow> mem \<Rightarrow> int \<Rightarrow> nat \<Rightarrow> (int \<times> nat) option" where
  "sched_scan [] tab m c nxt = Some (c, nxt)"
| "sched_scan (i # is) tab m c nxt =
     do { t \<leftarrow> arr_get tab i;
          if t = 0 then sched_scan is tab m c nxt
          else do { st \<leftarrow> tget F_state t m;
                    dp \<leftarrow> tget F_dynamic_prio t m;
                    if st = TASK_READY \<and> sint dp > c then sched_scan is tab m (sint dp) i
                    else sched_scan is tab m c nxt } }"

text \<open>The loop that gives every ready task half of its counter and its priority.\<close>

definition sched_recalc1 :: "u32 list \<Rightarrow> nat \<Rightarrow> mem \<Rightarrow> mem option" where
  "sched_recalc1 tab i m =
     do { t \<leftarrow> arr_get tab i;
          if t = 0 then Some m
          else do { st \<leftarrow> tget F_state t m;
                    if st = TASK_READY
                    then do { dp \<leftarrow> tget F_dynamic_prio t m; sp \<leftarrow> tget F_static_prio t m;
                              tset F_dynamic_prio t (signed_drop_bit 1 dp + sp) m }
                    else Some m } }"

definition sched_recalc :: "u32 list \<Rightarrow> mem \<Rightarrow> mem option" where
  "sched_recalc tab m = forM [0..<MAX_CONCURRENT_TASKS] (sched_recalc1 tab) m"

partial_function (option) sched_loop :: "'a tasks_scheme \<Rightarrow> (nat \<times> 'a tasks_scheme) option" where
  "sched_loop s =
     do { s \<leftarrow> read_lock s;
          (c, nxt) \<leftarrow> sched_scan [0..<MAX_CONCURRENT_TASKS] (task_tab s) (kmem s) (- 1) 0;
          s \<leftarrow> read_unlock s;
          s \<leftarrow> write_lock s;
          if c > 0
          then do { t \<leftarrow> arr_get (task_tab s) nxt;
                    s \<leftarrow> set_field F_state t TASK_RUNNING s;
                    Some (nxt, write_unlock s) }
          else do { m \<leftarrow> sched_recalc (task_tab s) (kmem s);
                    sched_loop (write_unlock (s\<lparr>kmem := m\<rparr>)) } }"

text \<open>The result is the pair \<open>cpu_switch_to\<close> is called with, if it is called.\<close>

definition task_switch_to :: "u32 \<Rightarrow> 'a tasks_scheme \<Rightarrow> ((u32 \<times> u32) option \<times> 'a tasks_scheme) option" where
  "task_switch_to nxt s =
     do { current \<leftarrow> task_get_current s;
          if current = nxt then Some (None, s)
          else do { s \<leftarrow> task_set_current nxt s; Some (Some (current, nxt), s) } }"

text \<open>What the resumed task does behind the switch, in its own call of \<open>schedule\<close>.\<close>

definition schedule_resume :: "'a tasks_scheme \<Rightarrow> 'a tasks_scheme option" where
  "schedule_resume s = do { t \<leftarrow> task_get_current s; set_field F_interruptible t 1 s }"

definition schedule :: "'a tasks_scheme \<Rightarrow> ((u32 \<times> u32) option \<times> 'a tasks_scheme) option" where
  "schedule s =
     do { t \<leftarrow> task_get_current s;
          s \<leftarrow> set_field F_interruptible t 0 s;
          (nxt, s) \<leftarrow> sched_loop s;
          t \<leftarrow> arr_get (task_tab s) nxt;
          (sw, s) \<leftarrow> task_switch_to t s;
          if sw = None then do { s \<leftarrow> schedule_resume s; Some (None, s) } else Some (sw, s) }"

definition task_yield :: "'a tasks_scheme \<Rightarrow> ((u32 \<times> u32) option \<times> 'a tasks_scheme) option" where
  "task_yield s =
     do { s \<leftarrow> write_lock s;
          current \<leftarrow> task_get_current s;
          st \<leftarrow> tget F_state current (kmem s);
          s \<leftarrow> (if st = TASK_RUNNING then set_field F_state current TASK_READY s else Some s);
          s \<leftarrow> set_field F_dynamic_prio current 0 s;
          schedule (write_unlock s) }"

definition task_isr_tick :: "'a tasks_scheme \<Rightarrow> ((u32 \<times> u32) option \<times> 'a tasks_scheme) option" where
  "task_isr_tick s =
     do { t \<leftarrow> task_get_current s;
          s \<leftarrow> write_lock s;
          dp \<leftarrow> tget F_dynamic_prio t (kmem s);
          s \<leftarrow> set_field F_dynamic_prio t (dp - 1) s;
          sl \<leftarrow> tget F_sleep_avg t (kmem s);
          s \<leftarrow> set_field F_sleep_avg t (sl - 1) s;
          i \<leftarrow> tget F_interruptible t (kmem s);
          if i = 0 \<or> sint (dp - 1) > 0 then Some (None, write_unlock s)
          else do { s \<leftarrow> set_field F_dynamic_prio t 0 s;
                    st \<leftarrow> tget F_state t (kmem s);
                    s \<leftarrow> (if st = TASK_RUNNING then set_field F_state t TASK_READY s else Some s);
                    schedule (write_unlock s) } }"

section \<open>The life of a task\<close>

fun first_free :: "nat list \<Rightarrow> u32 list \<Rightarrow> nat option" where
  "first_free [] tab = None"
| "first_free (i # is) tab = (if i < length tab \<and> tab ! i = 0 then Some i else first_free is tab)"

text \<open>The words \<open>task_new\<close> puts on the new stack, and where it leaves the stack pointer.\<close>

definition new_stack :: "u32 \<Rightarrow> u32 \<Rightarrow> u32 \<Rightarrow> u32 \<Rightarrow> u32 \<Rightarrow> u32 \<Rightarrow> 'a tasks_scheme \<Rightarrow> 'a tasks_scheme option" where
  "new_stack newtask stack_top fp arg ret_cb fl s =
     do { s \<leftarrow> set_field F_esp newtask stack_top s;
          let s = s\<lparr>kmem := store32 (kmem s) stack_top arg\<rparr>; esp = stack_top - 4;
              s = s\<lparr>kmem := store32 (kmem s) esp fp\<rparr>; esp = esp - 4;
              s = s\<lparr>kmem := store32 (kmem s) esp ret_cb\<rparr>; esp = esp - (32 + 4);
              s = s\<lparr>kmem := store32 (kmem s) esp (fl OR CPU_EFLAGS_IF)\<rparr>
          in set_field F_esp newtask esp s }"

definition task_new :: "u32 \<Rightarrow> u32 \<Rightarrow> u32 \<Rightarrow> u32 \<Rightarrow> 'a tasks_scheme \<Rightarrow> (u32 \<times> 'a tasks_scheme) option" where
  "task_new fp arg stack_size priority s =
     (if fst (atomic_compare_exchange (nr_tasks s) 64 64) then Some (0, s)
      else do { s \<leftarrow> read_lock s;
                let pid = first_free [0..<MAX_CONCURRENT_TASKS] (task_tab s) in
                do { s \<leftarrow> read_unlock s;
                     case pid of None \<Rightarrow> Some (0, s)
                     | Some pid \<Rightarrow>
                         do { (newtask, s) \<leftarrow> mmu_mmap task_struct_size s;
                              let s = s\<lparr>kmem := memset_mem (kmem s) newtask 0 (unat task_struct_size)\<rparr> in
                              do { (stack_bottom, s) \<leftarrow> mmu_mmap stack_size s;
                                   s \<leftarrow> set_field F_stack_bottom newtask stack_bottom s;
                                   s \<leftarrow> set_field F_state newtask TASK_READY s;
                                   s \<leftarrow> set_field F_join_state newtask JOIN_JOINABLE s;
                                   s \<leftarrow> new_stack newtask (stack_bottom + stack_size) fp arg (addr_of_return_cb s) (eflags s) s;
                                   s \<leftarrow> set_field F_static_prio newtask priority s;
                                   s \<leftarrow> set_field F_pid newtask (of_nat pid) s;
                                   s \<leftarrow> set_field F_eip newtask (addr_of_startup s) s;
                                   s \<leftarrow> set_field F_interruptible newtask 1 s;
                                   s \<leftarrow> write_lock s;
                                   tab \<leftarrow> arr_set (task_tab s) pid newtask;
                                   Some (newtask, write_unlock (s\<lparr>task_tab := tab, nr_tasks := nr_tasks s + 1\<rparr>)) } } } })"

definition task_cleanup :: "u32 \<Rightarrow> 'a tasks_scheme \<Rightarrow> 'a tasks_scheme option" where
  "task_cleanup task s =
     do { sb \<leftarrow> tget F_stack_bottom task (kmem s);
          s \<leftarrow> mmu_munmap sb s;
          mmu_munmap task s }"

definition on_current_task_return_cb :: "'a tasks_scheme \<Rightarrow> ((u32 \<times> u32) option \<times> 'a tasks_scheme) option" where
  "on_current_task_return_cb s =
     do { t \<leftarrow> task_get_current s;
          s \<leftarrow> set_field F_interruptible t 0 s;
          s \<leftarrow> write_lock s;
          pid \<leftarrow> tget F_pid t (kmem s);
          tab \<leftarrow> arr_set (task_tab s) (unat pid) 0;
          let s = write_unlock (s\<lparr>task_tab := tab, nr_tasks := nr_tasks s - 1\<rparr>) in
          do { st \<leftarrow> tget F_state t (kmem s);
               s \<leftarrow> (if st = TASK_RUNNING then set_field F_state t TASK_TERMINATED s else Some s);
               j \<leftarrow> tget F_join_state t (kmem s);
               s \<leftarrow> (if j = JOIN_DETACHED then task_cleanup t s else Some s);
               task_yield s } }"

text \<open>
  One round of the loop of \<open>task_join\<close>: \<open>Inr\<close> when it ends, \<open>Inl\<close> when the task yields; the loop goes on when it is
  resumed.
\<close>

definition task_join_step :: "u32 \<Rightarrow> 'a tasks_scheme \<Rightarrow> (((u32 \<times> u32) option + unit) \<times> 'a tasks_scheme) option" where
  "task_join_step task s =
     do { st \<leftarrow> tget F_state task (kmem s);
          if st \<noteq> TASK_TERMINATED
          then do { s \<leftarrow> set_field F_dynamic_prio task 0 s; (sw, s) \<leftarrow> task_yield s; Some (Inl sw, s) }
          else do { s \<leftarrow> task_cleanup task s; Some (Inr (), s) } }"

definition task_detach :: "u32 \<Rightarrow> 'a tasks_scheme \<Rightarrow> 'a tasks_scheme option" where
  "task_detach task s = set_field F_join_state task JOIN_DETACHED s"

text \<open>One processor's share of \<open>tasks_init\<close>; the call of the timer is an argument.\<close>

definition bootstrap_cpu :: "nat \<Rightarrow> 'a tasks_scheme \<Rightarrow> 'a tasks_scheme option" where
  "bootstrap_cpu i s =
     do { (b, s) \<leftarrow> mmu_mmap task_struct_size s;
          a \<leftarrow> arr_set (null_array s) i b;
          let s = s\<lparr>null_array := a\<rparr> in
          do { s \<leftarrow> set_field F_pid b 99999 s;
               s \<leftarrow> set_field F_dynamic_prio b 1 s;
               s \<leftarrow> set_field F_state b TASK_RUNNING s;
               s \<leftarrow> set_field F_interruptible b 1 s;
               a \<leftarrow> arr_set (null_array s) i b;
               (_, s) \<leftarrow> task_new (addr_of_idle s) 0 0x600 1 (s\<lparr>null_array := a\<rparr>);
               Some s } }"

definition tasks_init :: "(u32 \<Rightarrow> 'a tasks_scheme \<Rightarrow> 'a tasks_scheme option) \<Rightarrow> 'a tasks_scheme \<Rightarrow> 'a tasks_scheme option" where
  "tasks_init timer_init_sched s =
     do { s \<leftarrow> timer_init_sched 250 s;
          let s = s\<lparr>lock_tasklist := rwlock_init (lock_tasklist s)\<rparr> in
          forM [0..<unat (cpu_count s)] bootstrap_cpu s }"

section \<open>The task table\<close>

text \<open>The tasks in the table are separate, aligned structures. \<open>ready\<close>, \<open>dyn\<close> and \<open>stat\<close> read the table.\<close>

definition tab_ok :: "u32 list \<Rightarrow> bool" where
  "tab_ok tab \<longleftrightarrow> length tab = 64 \<and> (\<forall>t\<in>set tab - {0}. 16 dvd unat t \<and> unat t + 84 \<le> 2 ^ 32) \<and>
     (\<forall>i<64. \<forall>j<64. i \<noteq> j \<longrightarrow> tab ! i \<noteq> 0 \<longrightarrow> tab ! j \<noteq> 0 \<longrightarrow>
        object_bytes (tab ! i) 84 \<inter> object_bytes (tab ! j) 84 = {})"

definition ready :: "u32 list \<Rightarrow> mem \<Rightarrow> nat \<Rightarrow> bool" where
  "ready tab m i \<longleftrightarrow> i < 64 \<and> tab ! i \<noteq> 0 \<and> load32 m (tab ! i + F_state) = TASK_READY"

definition dyn :: "u32 list \<Rightarrow> mem \<Rightarrow> nat \<Rightarrow> int" where
  "dyn tab m i = sint (load32 m (tab ! i + F_dynamic_prio))"

definition stat :: "u32 list \<Rightarrow> mem \<Rightarrow> nat \<Rightarrow> int" where
  "stat tab m i = sint (load32 m (tab ! i + F_static_prio))"

text \<open>Priorities are small numbers, and the counters of the ready tasks are between 0 and twice the priority.\<close>

definition prios_ok :: "u32 list \<Rightarrow> mem \<Rightarrow> bool" where
  "prios_ok tab m \<longleftrightarrow> (\<forall>i<64. tab ! i \<noteq> 0 \<longrightarrow> 0 \<le> stat tab m i \<and> stat tab m i < 2 ^ 30) \<and>
     (\<forall>i. ready tab m i \<longrightarrow> 0 \<le> dyn tab m i \<and> dyn tab m i \<le> 2 * stat tab m i)"

lemma prios_okD:
  assumes "prios_ok tab m" "ready tab m i"
  shows "0 \<le> dyn tab m i" "dyn tab m i \<le> 2 * stat tab m i" "0 \<le> stat tab m i" "stat tab m i < 2 ^ 30"
  using assms by (auto simp: prios_ok_def ready_def)

definition task_fields :: "u32 set" where
  "task_fields = {F_esp, F_eip, F_pid, F_state, F_static_prio, F_dynamic_prio, F_stack_bottom, F_interruptible, F_join_state, F_sleep_avg}"

lemma field_bounds: "f \<in> task_fields \<Longrightarrow> unat f + 4 \<le> 84 \<and> 4 dvd unat f"
  by (auto simp: task_fields_def task_consts)

lemma field_addr_task:
  assumes "16 dvd unat t" "unat t + 84 \<le> 2 ^ 32" "f \<in> task_fields"
  shows "unat (t + f) = unat t + unat f" "4 dvd unat (t + f)"
  using field_addr [OF assms(1,2), of "unat f"] field_bounds [OF assms(3)] by simp_all

lemma tab_okD:
  assumes "tab_ok tab" "i < 64" "tab ! i \<noteq> 0"
  shows "16 dvd unat (tab ! i)" "unat (tab ! i) + 84 \<le> 2 ^ 32" "length tab = 64"
  using assms by (auto simp: tab_ok_def)

lemma field_inj:
  assumes tab: "tab_ok tab" and i: "i < 64" "tab ! i \<noteq> 0" and j: "j < 64" "tab ! j \<noteq> 0" and f: "f \<in> task_fields" "g \<in> task_fields"
  shows "tab ! i + f = tab ! j + g \<longleftrightarrow> i = j \<and> f = g"
proof
  assume eq: "tab ! i + f = tab ! j + g"
  note I = field_addr_task [OF tab_okD(1,2) [OF tab i] f(1)] and J = field_addr_task [OF tab_okD(1,2) [OF tab j] f(2)]
  have "unat (tab ! i + f) \<in> object_bytes (tab ! i) 84" "unat (tab ! j + g) \<in> object_bytes (tab ! j) 84"
    using I(1) J(1) field_bounds [OF f(1)] field_bounds [OF f(2)] by (auto simp: object_bytes_def)
  then have "i = j" using tab i j eq unfolding tab_ok_def by fastforce
  then show "i = j \<and> f = g" using I(1) J(1) eq by simp
qed simp

text \<open>Reading a field of a task after a store to a field of a task.\<close>

lemma field_load_store:
  assumes "tab_ok tab" "i < 64" "tab ! i \<noteq> 0" "j < 64" "tab ! j \<noteq> 0" "f \<in> task_fields" "g \<in> task_fields"
  shows "load32 (store32 m (tab ! i + f) v) (tab ! j + g) = (if i = j \<and> f = g then v else load32 m (tab ! j + g))"
  using load32_store32 [OF field_addr_task(2) [OF tab_okD(1,2) [OF assms(1-3)] assms(6)]
      field_addr_task(2) [OF tab_okD(1,2) [OF assms(1,4,5)] assms(7)]] field_inj [OF assms] by simp

lemma task_fields_in [simp]: "F_esp \<in> task_fields" "F_eip \<in> task_fields" "F_pid \<in> task_fields" "F_state \<in> task_fields" "F_static_prio \<in> task_fields"
  "F_dynamic_prio \<in> task_fields" "F_stack_bottom \<in> task_fields" "F_interruptible \<in> task_fields" "F_join_state \<in> task_fields" "F_sleep_avg \<in> task_fields"
  by (simp_all add: task_fields_def)

section \<open>The search and the new counters\<close>

text \<open>\<open>best\<close>: what the search has found among the first \<open>k\<close> entries.\<close>

definition best :: "u32 list \<Rightarrow> mem \<Rightarrow> nat \<Rightarrow> int \<Rightarrow> nat \<Rightarrow> bool" where
  "best tab m k c n \<longleftrightarrow> (\<forall>i<k. ready tab m i \<longrightarrow> dyn tab m i \<le> c) \<and> - 1 \<le> c \<and>
     (c = - 1 \<and> n = 0 \<or> n < k \<and> ready tab m n \<and> dyn tab m n = c \<and> (\<forall>i<n. ready tab m i \<longrightarrow> dyn tab m i < c))"

lemma sched_scan_best:
  assumes tab: "length tab = 64"
  shows "best tab m k c n \<Longrightarrow> k \<le> 64 \<Longrightarrow> \<exists>c' n'. sched_scan [k..<64] tab m c n = Some (c', n') \<and> best tab m 64 c' n'"
proof (induction "64 - k" arbitrary: k c n)
  case 0
  then show ?case by auto
next
  case (Suc d)
  then have k: "k < 64" by simp
  have step: "[k..<64] = k # [Suc k..<64]" using k by (rule upt_conv_Cons)
  let ?t = "tab ! k"
  define c' n' where "c' = (if ready tab m k \<and> dyn tab m k > c then dyn tab m k else c)"
    and "n' = (if ready tab m k \<and> dyn tab m k > c then k else n)"
  have "sched_scan [k..<64] tab m c n = sched_scan [Suc k..<64] tab m c' n'"
    using k tab unfolding step by (auto simp: tget_def ready_def dyn_def c'_def n'_def)
  moreover have "best tab m (Suc k) c' n'"
    using Suc.prems(1) k by (auto simp: best_def c'_def n'_def less_Suc_eq)
  ultimately show ?case using Suc.hyps(1) [of "Suc k" c' n'] Suc.hyps(2) k by simp
qed

definition recalculated :: "u32 list \<Rightarrow> mem \<Rightarrow> nat \<Rightarrow> mem \<Rightarrow> bool" where
  "recalculated tab m k m' \<longleftrightarrow> (\<forall>j<64. tab ! j \<noteq> 0 \<longrightarrow> (\<forall>g\<in>task_fields. load32 m' (tab ! j + g) =
     (if g = F_dynamic_prio \<and> ready tab m j \<and> j < k
      then signed_drop_bit 1 (load32 m (tab ! j + F_dynamic_prio)) + load32 m (tab ! j + F_static_prio)
      else load32 m (tab ! j + g))))"

lemma recalculatedD:
  "recalculated tab m k m' \<Longrightarrow> j < 64 \<Longrightarrow> tab ! j \<noteq> 0 \<Longrightarrow> g \<in> task_fields \<Longrightarrow> load32 m' (tab ! j + g) =
     (if g = F_dynamic_prio \<and> ready tab m j \<and> j < k
      then signed_drop_bit 1 (load32 m (tab ! j + F_dynamic_prio)) + load32 m (tab ! j + F_static_prio)
      else load32 m (tab ! j + g))"
  unfolding recalculated_def by blast

lemma field_names [simp]: "F_state \<noteq> F_dynamic_prio" "F_static_prio \<noteq> F_dynamic_prio" "F_dynamic_prio \<noteq> F_state" "F_dynamic_prio \<noteq> F_static_prio" "F_state \<noteq> F_static_prio" "F_static_prio \<noteq> F_state"
  "F_interruptible \<noteq> F_state" "F_interruptible \<noteq> F_dynamic_prio" "F_interruptible \<noteq> F_static_prio"
  "F_state \<noteq> F_interruptible" "F_dynamic_prio \<noteq> F_interruptible" "F_static_prio \<noteq> F_interruptible"
  by (simp_all add: task_consts)

lemma sched_recalc_ok:
  assumes tab: "tab_ok tab"
  shows "\<exists>m'. sched_recalc tab m = Some m' \<and> recalculated tab m 64 m'"
proof -
  have "\<exists>m'. forM [0..<64] (sched_recalc1 tab) m = Some m' \<and> recalculated tab m 64 m'"
  proof (rule forM_invariant)
    show "recalculated tab m 0 m" by (simp add: recalculated_def)
    fix i m1 assume i: "0 \<le> i" "i < (64 :: nat)" and I: "recalculated tab m i m1"
    let ?t = "tab ! i"
    have len: "length tab = 64" using tab by (simp add: tab_ok_def)
    show "\<exists>m'. sched_recalc1 tab i m1 = Some m' \<and> recalculated tab m (Suc i) m'"
    proof (cases "ready tab m i")
      case False
      have "sched_recalc1 tab i m1 = Some m1"
        using False i len recalculatedD [OF I i(2), of F_state] by (auto simp: sched_recalc1_def tget_def ready_def)
      moreover have "recalculated tab m (Suc i) m1"
        using I False unfolding recalculated_def by (auto simp: less_Suc_eq)
      ultimately show ?thesis by blast
    next
      case True
      then have t: "?t \<noteq> 0" "load32 m (?t + F_state) = TASK_READY" by (auto simp: ready_def)
      note R = recalculatedD [OF I i(2) t(1)]
      let ?v = "signed_drop_bit 1 (load32 m (?t + F_dynamic_prio)) + load32 m (?t + F_static_prio)"
      have "sched_recalc1 tab i m1 = Some (store32 m1 (?t + F_dynamic_prio) ?v)"
        using t i len R [of F_state] R [of F_dynamic_prio] R [of F_static_prio] by (simp add: sched_recalc1_def tget_def tset_def)
      moreover have "recalculated tab m (Suc i) (store32 m1 (?t + F_dynamic_prio) ?v)"
        unfolding recalculated_def
      proof (intro allI impI ballI)
        fix j g assume j: "j < 64" "tab ! j \<noteq> 0" "g \<in> task_fields"
        show "load32 (store32 m1 (?t + F_dynamic_prio) ?v) (tab ! j + g) =
           (if g = F_dynamic_prio \<and> ready tab m j \<and> j < Suc i
            then signed_drop_bit 1 (load32 m (tab ! j + F_dynamic_prio)) + load32 m (tab ! j + F_static_prio)
            else load32 m (tab ! j + g))"
          using field_load_store [OF tab i(2) t(1) j(1,2) _ j(3)] recalculatedD [OF I j] True by (auto simp: less_Suc_eq)
      qed
      ultimately show ?thesis by blast
    qed
  qed simp
  then show ?thesis by (simp add: sched_recalc_def MAX_CONCURRENT_TASKS_def)
qed

lemma sint_halve_add:
  assumes "0 \<le> sint (d :: u32)" "sint d \<le> 2 * sint p" "sint p < 2 ^ 30"
  shows "sint (signed_drop_bit 1 d + p) = sint d div 2 + sint p"
proof -
  have "sint (signed_drop_bit 1 d) = sint d div 2" by (simp add: sint_signed_drop_bit_eq drop_bit_eq_div)
  then have "sint (signed_drop_bit 1 d + p) = signed_take_bit 31 (sint d div 2 + sint p)" by (simp add: sint_word_ariths(1))
  moreover have "- (2 ^ 31) \<le> sint d div 2 + sint p" "sint d div 2 + sint p < 2 ^ 31" using assms by simp_all
  ultimately show ?thesis by (simp add: signed_take_bit_int_eq_self)
qed

lemma recalculated_view:
  assumes r: "recalculated tab m 64 m'" and p: "prios_ok tab m"
  shows "ready tab m' i = ready tab m i" "ready tab m i \<Longrightarrow> stat tab m' i = stat tab m i"
    "ready tab m i \<Longrightarrow> dyn tab m' i = dyn tab m i div 2 + stat tab m i" "prios_ok tab m'"
proof -
  show R: "ready tab m' i = ready tab m i" for i
    using recalculatedD [OF r, of i F_state] by (auto simp: ready_def)
  have S0: "stat tab m' i = stat tab m i" if "i < 64" "tab ! i \<noteq> 0" for i
    using recalculatedD [OF r that, of F_static_prio] by (simp add: stat_def)
  then show S: "stat tab m' i = stat tab m i" if "ready tab m i" for i using that by (simp add: ready_def)
  show D: "dyn tab m' i = dyn tab m i div 2 + stat tab m i" if "ready tab m i" for i
  proof -
    have "load32 m' (tab ! i + F_dynamic_prio) =
        signed_drop_bit 1 (load32 m (tab ! i + F_dynamic_prio)) + load32 m (tab ! i + F_static_prio)"
      using recalculatedD [OF r, of i F_dynamic_prio] that by (simp add: ready_def)
    then show ?thesis using prios_okD [OF p that] unfolding dyn_def stat_def by (simp only: sint_halve_add)
  qed
  have "0 \<le> dyn tab m' i \<and> dyn tab m' i \<le> 2 * stat tab m' i" if "ready tab m i" for i
    using S [OF that] D [OF that] prios_okD [OF p that] by simp
  then show "prios_ok tab m'" using S0 p unfolding prios_ok_def R by simp
qed

section \<open>The loop of the scheduler\<close>

text \<open>One section under a lock: the lock is free before and after, and the flags are restored.\<close>

lemma read_section:
  assumes "rw_free (lock_tasklist s)"
  obtains l1 e1 l2 where "read_lock s = Some (s\<lparr>lock_tasklist := l1, eflags := e1\<rparr>)"
    "read_unlock (s\<lparr>lock_tasklist := l1, eflags := e1\<rparr>) = Some (s\<lparr>lock_tasklist := l2\<rparr>)" "rw_free l2"
proof -
  obtain l1 e1 l2 where "rwlock_read_acquire (lock_tasklist s) (eflags s) = Some (l1, e1)"
      "rwlock_read_release l1 e1 = Some (l2, eflags s)" "rw_free l2"
    using rwlock_pairs(1) [OF assms] by blast
  then show thesis by (intro that [of e1 l1 l2]) (simp_all add: read_lock_def read_unlock_def)
qed

lemma write_section:
  assumes "rw_free (lock_tasklist s)"
  obtains l1 e1 l2 where "write_lock s = Some (s\<lparr>lock_tasklist := l1, eflags := e1\<rparr>)"
    "\<forall>m. write_unlock (s\<lparr>lock_tasklist := l1, eflags := e1, kmem := m\<rparr>) = s\<lparr>kmem := m, lock_tasklist := l2\<rparr>" "rw_free l2"
proof -
  obtain l1 e1 l2 where w: "rwlock_write_acquire (lock_tasklist s) (eflags s) = Some (l1, e1)"
      "rwlock_write_release l1 e1 = (l2, eflags s)" "rw_free l2"
    using rwlock_pairs(2) [OF assms] by blast
  then show thesis by (intro that [of e1 l1 l2]) (simp_all add: write_lock_def write_unlock_def)
qed

text \<open>The scheduler marks the task it has found.\<close>

definition mark :: "nat \<Rightarrow> 'a tasks_scheme \<Rightarrow> mem" where
  "mark n s = store32 (kmem s) (task_tab s ! n + F_state) TASK_RUNNING"

lemma sched_loop_step:
  assumes free: "rw_free (lock_tasklist s)" and tab: "tab_ok (task_tab s)"
  obtains c n l where "best (task_tab s) (kmem s) 64 c n" "rw_free l"
    "c > 0 \<longrightarrow> sched_loop s = Some (n, s\<lparr>kmem := mark n s, lock_tasklist := l\<rparr>)"
    "c \<le> 0 \<longrightarrow> (\<exists>m'. recalculated (task_tab s) (kmem s) 64 m' \<and> sched_loop s = sched_loop (s\<lparr>kmem := m', lock_tasklist := l\<rparr>))"
proof -
  have len: "length (task_tab s) = 64" using tab by (simp add: tab_ok_def)
  have "best (task_tab s) (kmem s) 0 (- 1) 0" by (simp add: best_def)
  then obtain c n where cn: "sched_scan [0..<64] (task_tab s) (kmem s) (- 1) 0 = Some (c, n)" "best (task_tab s) (kmem s) 64 c n"
    using sched_scan_best [OF len, of "kmem s" 0 "- 1" 0] by auto
  obtain l1 e1 l2 where r: "read_lock s = Some (s\<lparr>lock_tasklist := l1, eflags := e1\<rparr>)"
      "read_unlock (s\<lparr>lock_tasklist := l1, eflags := e1\<rparr>) = Some (s\<lparr>lock_tasklist := l2\<rparr>)" "rw_free l2"
    by (rule read_section [OF free])
  have "rw_free (lock_tasklist (s\<lparr>lock_tasklist := l2\<rparr>))" using r(3) by simp
  then obtain l3 e3 l4 where w: "write_lock (s\<lparr>lock_tasklist := l2\<rparr>) = Some (s\<lparr>lock_tasklist := l3, eflags := e3\<rparr>)"
      "\<forall>m. write_unlock (s\<lparr>lock_tasklist := l3, eflags := e3, kmem := m\<rparr>) = s\<lparr>kmem := m, lock_tasklist := l4\<rparr>" "rw_free l4"
    by (rule write_section) auto
  obtain m' where m': "sched_recalc (task_tab s) (kmem s) = Some m'" "recalculated (task_tab s) (kmem s) 64 m'"
    using sched_recalc_ok [OF tab] by blast
  have com: "s\<lparr>lock_tasklist := l3, eflags := e3\<rparr>\<lparr>kmem := m\<rparr> = s\<lparr>lock_tasklist := l3, eflags := e3, kmem := m\<rparr>" for m by simp
  show thesis
  proof (rule that [OF cn(2) w(3)]; intro impI)
    assume "c > 0"
    then have "ready (task_tab s) (kmem s) n" using cn(2) by (auto simp: best_def)
    then show "sched_loop s = Some (n, s\<lparr>kmem := mark n s, lock_tasklist := l4\<rparr>)"
      using r w cn(1) \<open>c > 0\<close> len
      by (subst sched_loop.simps) (simp add: MAX_CONCURRENT_TASKS_def set_field_def tset_def ready_def mark_def)
  next
    assume "c \<le> 0"
    then have "sched_loop s = sched_loop (s\<lparr>kmem := m', lock_tasklist := l4\<rparr>)"
      using r w cn(1) m'(1) by (subst sched_loop.simps) (simp add: MAX_CONCURRENT_TASKS_def)
    then show "\<exists>m'. recalculated (task_tab s) (kmem s) 64 m' \<and> sched_loop s = sched_loop (s\<lparr>kmem := m', lock_tasklist := l4\<rparr>)"
      using m'(2) by blast
  qed
qed

text \<open>The counters by which the scheduler chooses: as they are if one of them is positive, else the new ones.\<close>

definition choice :: "u32 list \<Rightarrow> mem \<Rightarrow> nat \<Rightarrow> int" where
  "choice tab m i = (if \<exists>j. ready tab m j \<and> dyn tab m j > 0 then dyn tab m i else dyn tab m i div 2 + stat tab m i)"

definition chosen :: "u32 list \<Rightarrow> mem \<Rightarrow> nat \<Rightarrow> bool" where
  "chosen tab m n \<longleftrightarrow> ready tab m n \<and> 0 < choice tab m n \<and> (\<forall>i. ready tab m i \<longrightarrow> choice tab m i \<le> choice tab m n) \<and>
     (\<forall>i<n. ready tab m i \<longrightarrow> choice tab m i < choice tab m n)"

text \<open>The memory after the choice: the counters are those of \<open>choice\<close>, the chosen task is running.\<close>

definition picked :: "u32 list \<Rightarrow> mem \<Rightarrow> nat \<Rightarrow> mem \<Rightarrow> bool" where
  "picked tab m n m' \<longleftrightarrow> (\<forall>j<64. tab ! j \<noteq> 0 \<longrightarrow>
      load32 m' (tab ! j + F_state) = (if j = n then TASK_RUNNING else load32 m (tab ! j + F_state)) \<and>
      load32 m' (tab ! j + F_static_prio) = load32 m (tab ! j + F_static_prio) \<and>
      (ready tab m j \<longrightarrow> dyn tab m' j = choice tab m j))"

definition sched_inv :: "'a tasks_scheme \<Rightarrow> bool" where
  "sched_inv s \<longleftrightarrow> rw_free (lock_tasklist s) \<and> tab_ok (task_tab s) \<and> prios_ok (task_tab s) (kmem s) \<and> cpu_id s < length (null_array s)"

lemma best_chosen:
  assumes "best tab m 64 c n" "c > 0"
  shows "chosen tab m n" "choice tab m = dyn tab m"
proof -
  have r: "ready tab m n" "dyn tab m n = c" "\<forall>i<n. ready tab m i \<longrightarrow> dyn tab m i < c" "\<forall>i<64. ready tab m i \<longrightarrow> dyn tab m i \<le> c"
    using assms by (auto simp: best_def)
  then show e: "choice tab m = dyn tab m" using assms(2) by (auto simp: choice_def fun_eq_iff)
  have "i < 64" if "ready tab m i" for i using that by (simp add: ready_def)
  then show "chosen tab m n" using r assms(2) unfolding chosen_def e by auto
qed

lemma mark_view:
  assumes tab: "tab_ok tab" and n: "n < 64" "tab ! n \<noteq> 0" and j: "j < 64" "tab ! j \<noteq> 0" "g \<in> task_fields"
  shows "load32 (store32 m (tab ! n + F_state) TASK_RUNNING) (tab ! j + g) =
    (if j = n \<and> g = F_state then TASK_RUNNING else load32 m (tab ! j + g))"
  using field_load_store [OF tab n j(1,2) _ j(3)] by auto

lemma sched_loop_picks:
  assumes free: "rw_free (lock_tasklist s)" and tab: "tab_ok (task_tab s)" and p: "prios_ok (task_tab s) (kmem s)"
    and pos: "ready (task_tab s) (kmem s) i" "0 < stat (task_tab s) (kmem s) i"
  shows "\<exists>n m' l. sched_loop s = Some (n, s\<lparr>kmem := m', lock_tasklist := l\<rparr>) \<and> rw_free l \<and>
    chosen (task_tab s) (kmem s) n \<and> picked (task_tab s) (kmem s) n m'"
proof -
  let ?tab = "task_tab s" and ?m = "kmem s"
  obtain c n l where st: "best ?tab ?m 64 c n" "rw_free l"
      "c > 0 \<longrightarrow> sched_loop s = Some (n, s\<lparr>kmem := mark n s, lock_tasklist := l\<rparr>)"
      "c \<le> 0 \<longrightarrow> (\<exists>m'. recalculated ?tab ?m 64 m' \<and> sched_loop s = sched_loop (s\<lparr>kmem := m', lock_tasklist := l\<rparr>))"
    by (rule sched_loop_step [OF free tab])
  show ?thesis
  proof (cases "c > 0")
    case True
    note B = best_chosen [OF st(1) True]
    have n: "n < 64" "?tab ! n \<noteq> 0" using B(1) by (auto simp: chosen_def ready_def)
    have "picked ?tab ?m n (mark n s)"
      unfolding picked_def mark_def by (simp add: mark_view [OF tab n] B(2) dyn_def)
    then show ?thesis using st(2,3) True B(1) by blast
  next
    case False
    then obtain m' where m': "recalculated ?tab ?m 64 m'" "sched_loop s = sched_loop (s\<lparr>kmem := m', lock_tasklist := l\<rparr>)"
      using st(4) by auto
    note V = recalculated_view [OF m'(1) p]
    let ?s = "s\<lparr>kmem := m', lock_tasklist := l\<rparr>"
    have none: "\<not> (\<exists>j. ready ?tab ?m j \<and> dyn ?tab ?m j > 0)" using st(1) False by (fastforce simp: best_def ready_def)
    then have ch: "choice ?tab ?m = (\<lambda>j. dyn ?tab ?m j div 2 + stat ?tab ?m j)" unfolding choice_def fun_eq_iff by (simp only: if_False simp_thms)
    have dv: "dyn ?tab m' j = choice ?tab ?m j" if "ready ?tab ?m j" for j using V(3) [OF that] ch by simp
    have "0 < dyn ?tab m' i" using V(3) [OF pos(1)] pos p by (auto simp: prios_ok_def intro: add_nonneg_pos)
    obtain c2 n2 l2 where st2: "best ?tab m' 64 c2 n2" "rw_free l2"
        "c2 > 0 \<longrightarrow> sched_loop ?s = Some (n2, ?s\<lparr>kmem := mark n2 ?s, lock_tasklist := l2\<rparr>)"
      by (rule sched_loop_step [of ?s]) (use st(2) tab in auto)
    have "dyn ?tab m' i \<le> c2" using st2(1) V(1) pos(1) by (auto simp: best_def ready_def)
    then have c2: "c2 > 0" using \<open>0 < dyn ?tab m' i\<close> by simp
    note B = best_chosen [OF st2(1) c2]
    have C: "chosen ?tab ?m n2" using B(1) dv V(1) unfolding chosen_def B(2) by (metis (full_types))
    have n: "n2 < 64" "?tab ! n2 \<noteq> 0" using C by (auto simp: chosen_def ready_def)
    have "picked ?tab ?m n2 (mark n2 ?s)"
      unfolding picked_def mark_def
      using recalculatedD [OF m'(1), of _ F_state] recalculatedD [OF m'(1), of _ F_static_prio] dv
      by (auto simp: mark_view [OF tab n] dyn_def)
    then show ?thesis using m'(2) st2(2,3) c2 C by auto
  qed
qed

section \<open>Operations of the scheduler keep the invariant\<close>

text \<open>Memories in which the table reads the same.\<close>

definition same_view :: "u32 list \<Rightarrow> mem \<Rightarrow> mem \<Rightarrow> bool" where
  "same_view tab m m' \<longleftrightarrow> (\<forall>j<64. tab ! j \<noteq> 0 \<longrightarrow> (\<forall>g\<in>{F_state, F_static_prio, F_dynamic_prio}.
     load32 m' (tab ! j + g) = load32 m (tab ! j + g)))"

lemma same_view_reads:
  assumes "same_view tab m m'"
  shows "ready tab m' = ready tab m" "\<And>i. ready tab m i \<Longrightarrow> dyn tab m' i = dyn tab m i"
    "\<And>i. i < 64 \<Longrightarrow> tab ! i \<noteq> 0 \<Longrightarrow> stat tab m' i = stat tab m i" "prios_ok tab m' = prios_ok tab m"
proof -
  show R: "ready tab m' = ready tab m" using assms by (auto simp: same_view_def ready_def fun_eq_iff)
  show D: "dyn tab m' i = dyn tab m i" if "ready tab m i" for i using assms that by (simp add: same_view_def ready_def dyn_def)
  show S: "stat tab m' i = stat tab m i" if "i < 64" "tab ! i \<noteq> 0" for i using assms that by (simp add: same_view_def stat_def)
  have "stat tab m' i = stat tab m i" if "ready tab m i" for i using S that by (simp add: ready_def)
  then show "prios_ok tab m' = prios_ok tab m" using S D unfolding prios_ok_def R by auto
qed

lemma same_view_chosen:
  assumes "same_view tab m m'"
  shows "chosen tab m' n = chosen tab m n" "\<And>i. ready tab m i \<Longrightarrow> choice tab m' i = choice tab m i"
proof -
  note V = same_view_reads [OF assms]
  have E: "(\<exists>j. ready tab m' j \<and> dyn tab m' j > 0) = (\<exists>j. ready tab m j \<and> dyn tab m j > 0)" using V(1,2) by auto
  show C: "choice tab m' i = choice tab m i" if "ready tab m i" for i
  proof -
    have "dyn tab m' i = dyn tab m i" "stat tab m' i = stat tab m i" using V(2,3) that by (auto simp: ready_def)
    then show ?thesis unfolding choice_def E by (simp only:)
  qed
  then show "chosen tab m' n = chosen tab m n" unfolding chosen_def V(1) by auto
qed

lemma same_view_other:
  assumes "tab_ok tab" "k < 64" "tab ! k \<noteq> 0" "f \<in> task_fields" "f \<notin> {F_state, F_static_prio, F_dynamic_prio}"
  shows "same_view tab m (store32 m (tab ! k + f) v)"
  unfolding same_view_def
proof (intro allI impI ballI)
  fix j g assume j: "j < 64" "tab ! j \<noteq> 0" and g: "g \<in> {F_state, F_static_prio, F_dynamic_prio}"
  then have "g \<in> task_fields" by auto
  then show "load32 (store32 m (tab ! k + f) v) (tab ! j + g) = load32 m (tab ! j + g)"
    using field_load_store [OF assms(1-3) j assms(4)] g assms(5) by auto
qed

lemma picked_prios:
  assumes p: "prios_ok tab m" and pk: "picked tab m n m'"
  shows "prios_ok tab m'"
proof -
  have S: "stat tab m' i = stat tab m i" if "i < 64" "tab ! i \<noteq> 0" for i using pk that by (simp add: picked_def stat_def)
  have R: "ready tab m i" if "ready tab m' i" for i
    using that pk by (auto simp: picked_def ready_def task_consts split: if_splits)
  have "0 \<le> choice tab m i \<and> choice tab m i \<le> 2 * stat tab m i" if "ready tab m i" for i
    using prios_okD [OF p that] by (auto simp: choice_def)
  then have "0 \<le> dyn tab m' i \<and> dyn tab m' i \<le> 2 * stat tab m' i" if "ready tab m' i" for i
    using R [OF that] pk S [of i] by (simp add: picked_def ready_def)
  then show ?thesis using p S unfolding prios_ok_def by auto
qed

text \<open>The current task is the task \<open>k\<close> of the table.\<close>

definition running :: "'a tasks_scheme \<Rightarrow> nat \<Rightarrow> bool" where
  "running s k \<longleftrightarrow> k < 64 \<and> task_tab s ! k \<noteq> 0 \<and> task_get_current s = Some (task_tab s ! k)"

definition tstate :: "'a tasks_scheme \<Rightarrow> nat \<Rightarrow> u32" where
  "tstate s i = load32 (kmem s) (task_tab s ! i + F_state)"

lemma schedule_ok:
  assumes inv: "sched_inv s" and k: "running s k"
    and pos: "ready (task_tab s) (kmem s) i" "0 < stat (task_tab s) (kmem s) i"
  shows "\<exists>n s'. schedule s = Some (if k = n then None else Some (task_tab s ! k, task_tab s ! n), s') \<and>
     chosen (task_tab s) (kmem s) n \<and> running s' n \<and> task_tab s' = task_tab s \<and> eflags s' = eflags s \<and> sched_inv s' \<and>
     (\<forall>j<64. task_tab s ! j \<noteq> 0 \<longrightarrow> tstate s' j = (if j = n then TASK_RUNNING else tstate s j))"
proof -
  let ?tab = "task_tab s" and ?m = "kmem s"
  have tab: "tab_ok ?tab" and free: "rw_free (lock_tasklist s)" and p: "prios_ok ?tab ?m" and cpu: "cpu_id s < length (null_array s)"
    using inv by (auto simp: sched_inv_def)
  have len: "length ?tab = 64" using tab by (simp add: tab_ok_def)
  have K: "k < 64" "?tab ! k \<noteq> 0" "task_get_current s = Some (?tab ! k)" using k by (auto simp: running_def)
  let ?m1 = "store32 ?m (?tab ! k + F_interruptible) 0"
  let ?s1 = "s\<lparr>kmem := ?m1\<rparr>"
  have v1: "same_view ?tab ?m ?m1" using K by (intro same_view_other [OF tab]) auto
  have pos1: "ready ?tab ?m1 i" "0 < stat ?tab ?m1 i" using same_view_reads [OF v1] pos by (simp_all add: ready_def)
  have "prios_ok ?tab ?m1" using same_view_reads(4) [OF v1] p by simp
  then obtain n m2 l where L: "sched_loop ?s1 = Some (n, ?s1\<lparr>kmem := m2, lock_tasklist := l\<rparr>)" "rw_free l"
      "chosen ?tab ?m1 n" "picked ?tab ?m1 n m2"
    using sched_loop_picks [of ?s1 i] free tab pos1 by auto
  have C: "chosen ?tab ?m n" using L(3) same_view_chosen(1) [OF v1] by simp
  then have n: "n < 64" "?tab ! n \<noteq> 0" by (auto simp: chosen_def ready_def)
  have kn: "?tab ! k = ?tab ! n \<longleftrightarrow> k = n" using field_inj [OF tab K(1,2) n, of F_esp F_esp] by simp
  have states: "load32 m2 (?tab ! j + F_state) = (if j = n then TASK_RUNNING else load32 ?m (?tab ! j + F_state))"
    if "j < 64" "?tab ! j \<noteq> 0" for j using L(4) that v1 by (simp add: picked_def same_view_def)
  have P2: "prios_ok ?tab m2" using picked_prios [OF _ L(4)] same_view_reads(4) [OF v1] p by simp
  show ?thesis
  proof (cases "k = n")
    case True
    let ?m3 = "store32 m2 (?tab ! n + F_interruptible) 1"
    let ?s3 = "s\<lparr>kmem := ?m3, lock_tasklist := l\<rparr>"
    have v3: "same_view ?tab m2 ?m3" using n by (intro same_view_other [OF tab]) auto
    have "schedule s = Some (None, ?s3)"
      using K n L(1) len True
      by (simp add: schedule_def set_field_def tset_def task_switch_to_def schedule_resume_def task_get_current_def)
    moreover have "sched_inv ?s3" using inv L(2) P2 same_view_reads(4) [OF v3] by (simp add: sched_inv_def)
    moreover have "\<forall>j<64. ?tab ! j \<noteq> 0 \<longrightarrow> tstate ?s3 j = (if j = n then TASK_RUNNING else tstate s j)"
      using states v3 by (simp add: tstate_def same_view_def)
    moreover have "running ?s3 n" using K n True by (simp add: running_def task_get_current_def)
    ultimately show ?thesis using C True by (intro exI [of _ n] exI [of _ ?s3]) simp
  next
    case False
    let ?s3 = "s\<lparr>kmem := m2, lock_tasklist := l, null_array := (null_array s)[cpu_id s := ?tab ! n]\<rparr>"
    have "schedule s = Some (Some (?tab ! k, ?tab ! n), ?s3)"
      using K n L(1) len False kn cpu
      by (simp add: schedule_def set_field_def tset_def task_switch_to_def task_get_current_def task_set_current_def)
    moreover have "sched_inv ?s3" using inv L(2) P2 by (simp add: sched_inv_def)
    moreover have "\<forall>j<64. ?tab ! j \<noteq> 0 \<longrightarrow> tstate ?s3 j = (if j = n then TASK_RUNNING else tstate s j)"
      using states by (simp add: tstate_def)
    moreover have "running ?s3 n" using n cpu by (simp add: running_def task_get_current_def)
    ultimately show ?thesis using C False by (intro exI [of _ n] exI [of _ ?s3]) simp
  qed
qed

text \<open>The current task gives up the processor: it becomes ready with the counter 0.\<close>

definition becomes_ready :: "u32 list \<Rightarrow> mem \<Rightarrow> nat \<Rightarrow> mem \<Rightarrow> bool" where
  "becomes_ready tab m k m' \<longleftrightarrow> (\<forall>j<64. tab ! j \<noteq> 0 \<longrightarrow>
     load32 m' (tab ! j + F_state) = (if j = k then TASK_READY else load32 m (tab ! j + F_state)) \<and>
     load32 m' (tab ! j + F_dynamic_prio) = (if j = k then 0 else load32 m (tab ! j + F_dynamic_prio)) \<and>
     load32 m' (tab ! j + F_static_prio) = load32 m (tab ! j + F_static_prio))"

lemma becomes_ready_view:
  assumes b: "becomes_ready tab m k m'" and p: "prios_ok tab m" and k: "k < 64" "tab ! k \<noteq> 0"
  shows "prios_ok tab m'" "ready tab m' k" "stat tab m' k = stat tab m k"
proof -
  have S: "stat tab m' i = stat tab m i" if "i < 64" "tab ! i \<noteq> 0" for i using b that by (simp add: becomes_ready_def stat_def)
  show "ready tab m' k" "stat tab m' k = stat tab m k" using b k S by (simp_all add: becomes_ready_def ready_def)
  have "0 \<le> dyn tab m' i \<and> dyn tab m' i \<le> 2 * stat tab m' i" if r: "ready tab m' i" for i
  proof (cases "i = k")
    case True
    then have "dyn tab m' i = 0" using b k by (simp add: becomes_ready_def dyn_def)
    then show ?thesis using S [of i] True k p by (simp add: prios_ok_def)
  next
    case False
    then have "ready tab m i" "dyn tab m' i = dyn tab m i" using r b by (auto simp: becomes_ready_def ready_def dyn_def)
    then show ?thesis using prios_okD [OF p] S [of i] r by (simp add: ready_def)
  qed
  then show "prios_ok tab m'" using p S by (simp add: prios_ok_def)
qed

text \<open>The result of giving up the processor, for a task of the table that is running and has a positive priority.\<close>

definition hands_over :: "'a tasks_scheme \<Rightarrow> nat \<Rightarrow> (u32 \<times> u32) option \<times> 'a tasks_scheme \<Rightarrow> bool" where
  "hands_over s k r \<longleftrightarrow> (\<exists>n s'. r = (if k = n then None else Some (task_tab s ! k, task_tab s ! n), s') \<and>
     running s' n \<and> tstate s' n = TASK_RUNNING \<and> task_tab s' = task_tab s \<and> eflags s' = eflags s \<and> sched_inv s' \<and>
     (\<forall>j<64. j \<noteq> n \<longrightarrow> task_tab s ! j \<noteq> 0 \<longrightarrow> tstate s' j = (if j = k then TASK_READY else tstate s j)))"

lemma resched:
  assumes inv: "sched_inv s" and k: "running s k" and pos: "0 < stat (task_tab s) (kmem s) k"
    and b: "becomes_ready (task_tab s) (kmem s) k m'" and l: "rw_free l"
  shows "\<exists>r. schedule (s\<lparr>kmem := m', lock_tasklist := l\<rparr>) = Some r \<and> hands_over s k r"
proof -
  let ?s = "s\<lparr>kmem := m', lock_tasklist := l\<rparr>" and ?tab = "task_tab s"
  have K: "k < 64" "?tab ! k \<noteq> 0" using k by (auto simp: running_def)
  have p: "prios_ok ?tab (kmem s)" using inv by (simp add: sched_inv_def)
  note V = becomes_ready_view [OF b p K]
  have "sched_inv ?s" "running ?s k" using inv k l V(1) by (auto simp: sched_inv_def running_def task_get_current_def)
  moreover have F: "task_tab ?s = ?tab" "kmem ?s = m'" "eflags ?s = eflags s" by simp_all
  ultimately have "\<exists>n s'. schedule ?s = Some (if k = n then None else Some (?tab ! k, ?tab ! n), s') \<and>
      chosen ?tab m' n \<and> running s' n \<and> task_tab s' = ?tab \<and> eflags s' = eflags s \<and> sched_inv s' \<and>
      (\<forall>j<64. ?tab ! j \<noteq> 0 \<longrightarrow> tstate s' j = (if j = n then TASK_RUNNING else tstate ?s j))"
    using schedule_ok [of ?s k k, unfolded F] V(2,3) pos by simp
  then obtain n s' where S: "schedule ?s = Some (if k = n then None else Some (?tab ! k, ?tab ! n), s')"
      "chosen ?tab m' n" "running s' n" "task_tab s' = ?tab" "eflags s' = eflags s" "sched_inv s'"
      "\<forall>j<64. ?tab ! j \<noteq> 0 \<longrightarrow> tstate s' j = (if j = n then TASK_RUNNING else tstate ?s j)" by blast
  have "n < 64" "?tab ! n \<noteq> 0" using S(2) by (auto simp: chosen_def ready_def)
  then have "hands_over s k (if k = n then None else Some (?tab ! k, ?tab ! n), s')"
    unfolding hands_over_def using S b by (intro exI [of _ n] exI [of _ s']) (auto simp: becomes_ready_def tstate_def)
  then show ?thesis using S(1) by blast
qed

lemma field_names2 [simp]: "F_sleep_avg \<noteq> F_state" "F_sleep_avg \<noteq> F_dynamic_prio" "F_sleep_avg \<noteq> F_static_prio" "F_sleep_avg \<noteq> F_interruptible"
  "F_state \<noteq> F_sleep_avg" "F_dynamic_prio \<noteq> F_sleep_avg" "F_static_prio \<noteq> F_sleep_avg" "F_interruptible \<noteq> F_sleep_avg"
  by (simp_all add: task_consts)

lemma task_yield_ok:
  assumes inv: "sched_inv s" and k: "running s k" "tstate s k = TASK_RUNNING" and pos: "0 < stat (task_tab s) (kmem s) k"
  shows "\<exists>r. task_yield s = Some r \<and> hands_over s k r"
proof -
  let ?tab = "task_tab s" and ?t = "task_tab s ! k"
  have tab: "tab_ok ?tab" and free: "rw_free (lock_tasklist s)" using inv by (auto simp: sched_inv_def)
  have K: "k < 64" "?t \<noteq> 0" "task_get_current s = Some ?t" using k by (auto simp: running_def)
  obtain l1 e1 l2 where w: "write_lock s = Some (s\<lparr>lock_tasklist := l1, eflags := e1\<rparr>)"
      "\<forall>m. write_unlock (s\<lparr>lock_tasklist := l1, eflags := e1, kmem := m\<rparr>) = s\<lparr>kmem := m, lock_tasklist := l2\<rparr>" "rw_free l2"
    by (rule write_section [OF free])
  let ?m = "store32 (store32 (kmem s) (?t + F_state) TASK_READY) (?t + F_dynamic_prio) 0"
  have "becomes_ready ?tab (kmem s) k ?m"
    unfolding becomes_ready_def by (auto simp: field_load_store [OF tab K(1,2)])
  then have "\<exists>r. schedule (s\<lparr>kmem := ?m, lock_tasklist := l2\<rparr>) = Some r \<and> hands_over s k r" by (rule resched [OF inv k(1) pos _ w(3)])
  moreover have "task_yield s = schedule (s\<lparr>kmem := ?m, lock_tasklist := l2\<rparr>)"
    using w K k(2) by (simp add: task_yield_def task_get_current_def tget_def set_field_def tset_def tstate_def)
  ultimately show ?thesis by simp
qed

text \<open>The timer interrupt either leaves the current task running or hands over.\<close>

definition ticks :: "'a tasks_scheme \<Rightarrow> nat \<Rightarrow> (u32 \<times> u32) option \<times> 'a tasks_scheme \<Rightarrow> bool" where
  "ticks s k r \<longleftrightarrow> (\<exists>s'. r = (None, s') \<and> running s' k \<and> task_tab s' = task_tab s \<and> eflags s' = eflags s \<and> sched_inv s' \<and>
     (\<forall>j<64. task_tab s ! j \<noteq> 0 \<longrightarrow> tstate s' j = tstate s j))"

lemma task_isr_tick_ok:
  assumes inv: "sched_inv s" and k: "running s k" "tstate s k = TASK_RUNNING" and pos: "0 < stat (task_tab s) (kmem s) k"
  shows "\<exists>r. task_isr_tick s = Some r \<and> (if load32 (kmem s) (task_tab s ! k + F_interruptible) = 0 \<or>
       0 < sint (load32 (kmem s) (task_tab s ! k + F_dynamic_prio) - 1) then ticks s k r else hands_over s k r)"
proof -
  let ?tab = "task_tab s" and ?t = "task_tab s ! k" and ?m = "kmem s"
  have tab: "tab_ok ?tab" and free: "rw_free (lock_tasklist s)" and p: "prios_ok ?tab ?m" using inv by (auto simp: sched_inv_def)
  have K: "k < 64" "?t \<noteq> 0" "task_get_current s = Some ?t" using k by (auto simp: running_def)
  note F = field_load_store [OF tab K(1,2)]
  obtain l1 e1 l2 where w: "write_lock s = Some (s\<lparr>lock_tasklist := l1, eflags := e1\<rparr>)"
      "\<forall>m. write_unlock (s\<lparr>lock_tasklist := l1, eflags := e1, kmem := m\<rparr>) = s\<lparr>kmem := m, lock_tasklist := l2\<rparr>" "rw_free l2"
    by (rule write_section [OF free])
  let ?dp = "load32 ?m (?t + F_dynamic_prio)"
  let ?m1 = "store32 (store32 ?m (?t + F_dynamic_prio) (?dp - 1)) (?t + F_sleep_avg) (load32 ?m (?t + F_sleep_avg) - 1)"
  let ?m2 = "store32 (store32 ?m1 (?t + F_dynamic_prio) 0) (?t + F_state) TASK_READY"
  show ?thesis
  proof (cases "load32 ?m (?t + F_interruptible) = 0 \<or> 0 < sint (?dp - 1)")
    case True
    let ?s = "s\<lparr>kmem := ?m1, lock_tasklist := l2\<rparr>"
    have run: "task_isr_tick s = Some (None, ?s)"
      using w K True F [OF K(1,2)] by (auto simp: task_isr_tick_def task_get_current_def tget_def set_field_def tset_def)
    have st: "load32 ?m1 (?tab ! j + g) = load32 ?m (?tab ! j + g)" if "j < 64" "?tab ! j \<noteq> 0" "g \<in> {F_state, F_static_prio}" for j g
      using that F [OF that(1,2)] by auto
    have S: "stat ?tab ?m1 j = stat ?tab ?m j" if "j < 64" "?tab ! j \<noteq> 0" for j using st that by (simp add: stat_def)
    have "0 \<le> dyn ?tab ?m1 j \<and> dyn ?tab ?m1 j \<le> 2 * stat ?tab ?m1 j" if "ready ?tab ?m1 j" for j
    proof -
      have j: "j < 64" "?tab ! j \<noteq> 0" "ready ?tab ?m j" using that st by (auto simp: ready_def)
      then have "j \<noteq> k" using k(2) by (auto simp: ready_def tstate_def task_consts)
      then have "dyn ?tab ?m1 j = dyn ?tab ?m j" using F [OF j(1,2)] by (simp add: dyn_def)
      then show ?thesis using prios_okD [OF p j(3)] S [OF j(1,2)] by simp
    qed
    then have "prios_ok ?tab ?m1" using p S by (simp add: prios_ok_def)
    then have "ticks s k (None, ?s)" using inv k w(3) st by (auto simp: ticks_def sched_inv_def running_def task_get_current_def tstate_def)
    then show ?thesis using run True by simp
  next
    case False
    have "becomes_ready ?tab ?m k ?m2"
      unfolding becomes_ready_def by (auto simp: F)
    then have "\<exists>r. schedule (s\<lparr>kmem := ?m2, lock_tasklist := l2\<rparr>) = Some r \<and> hands_over s k r"
      by (rule resched [OF inv k(1) pos _ w(3)])
    moreover have "task_isr_tick s = schedule (s\<lparr>kmem := ?m2, lock_tasklist := l2\<rparr>)"
      using w K k(2) False F [OF K(1,2)] by (auto simp: task_isr_tick_def task_get_current_def tget_def set_field_def tset_def tstate_def)
    ultimately show ?thesis using False by simp
  qed
qed

section \<open>Properties\<close>

text \<open>
  C5. The scheduler always finds a task and it is the right one: with a task that is ready and has a positive
  priority, \<open>schedule\<close> returns; the task it makes current is ready, has the largest counter among the ready tasks
  (the first of them in the table), where the counters are halved and increased by the priorities if none was positive;
  it is marked running, no other task changes its state, and the lock and the flags are as before.
\<close>

theorem schedule_picks_best:
  assumes "sched_inv s" "running s k" "ready (task_tab s) (kmem s) i" "0 < stat (task_tab s) (kmem s) i"
  shows "\<exists>n s'. schedule s = Some (if k = n then None else Some (task_tab s ! k, task_tab s ! n), s') \<and>
     chosen (task_tab s) (kmem s) n \<and> running s' n \<and> task_tab s' = task_tab s \<and> eflags s' = eflags s \<and> sched_inv s' \<and>
     (\<forall>j<64. task_tab s ! j \<noteq> 0 \<longrightarrow> tstate s' j = (if j = n then TASK_RUNNING else tstate s j))"
  by (rule schedule_ok [OF assms])

text \<open>
  C13. The counter of a ready task stays between 0 and twice its priority, as the comment in \<open>schedule\<close> says: \<open>task_yield\<close> and
  \<open>task_isr_tick\<close> of a running task with a positive priority always return and keep the invariant that contains these
  bounds; afterwards exactly the task that is current has been marked running and the old one ready, unless the
  tick let it go on.
\<close>

theorem scheduler_keeps_counters_bounded:
  assumes "sched_inv s" "running s k" "tstate s k = TASK_RUNNING" "0 < stat (task_tab s) (kmem s) k"
  shows "(\<exists>r. task_yield s = Some r \<and> hands_over s k r) \<and>
    (\<exists>r. task_isr_tick s = Some r \<and> (ticks s k r \<or> hands_over s k r))"
  using task_yield_ok [OF assms] task_isr_tick_ok [OF assms] by (auto split: if_splits)

text \<open>Without a ready task the loop of the scheduler never ends.\<close>

lemma sched_loop_spins:
  assumes "sched_loop s = Some r"
  shows "\<not> (rw_free (lock_tasklist s) \<and> tab_ok (task_tab s) \<and> (\<forall>i. \<not> ready (task_tab s) (kmem s) i))"
proof (induction rule: sched_loop.raw_induct [OF _ assms])
  case (1 f s r)
  show ?case
  proof
    let ?tab = "task_tab s" and ?m = "kmem s"
    assume *: "rw_free (lock_tasklist s) \<and> tab_ok ?tab \<and> (\<forall>i. \<not> ready ?tab ?m i)"
    then have free: "rw_free (lock_tasklist s)" and tab: "tab_ok ?tab" and none: "\<not> ready ?tab ?m i" for i by auto
    have len: "length ?tab = 64" using tab by (simp add: tab_ok_def)
    have "best ?tab ?m 0 (- 1) 0" by (simp add: best_def)
    then obtain c n where "sched_scan [0..<64] ?tab ?m (- 1) 0 = Some (c, n)" "best ?tab ?m 64 c n"
      using sched_scan_best [OF len, of ?m 0 "- 1" 0] by auto
    then have scan: "sched_scan [0..<64] ?tab ?m (- 1) 0 = Some (- 1, 0)" using none by (auto simp: best_def)
    obtain l1 e1 l2 where r: "read_lock s = Some (s\<lparr>lock_tasklist := l1, eflags := e1\<rparr>)"
        "read_unlock (s\<lparr>lock_tasklist := l1, eflags := e1\<rparr>) = Some (s\<lparr>lock_tasklist := l2\<rparr>)" "rw_free l2"
      by (rule read_section [OF free])
    have "rw_free (lock_tasklist (s\<lparr>lock_tasklist := l2\<rparr>))" using r(3) by simp
    then obtain l3 e3 l4 where w: "write_lock (s\<lparr>lock_tasklist := l2\<rparr>) = Some (s\<lparr>lock_tasklist := l3, eflags := e3\<rparr>)"
        "\<forall>m. write_unlock (s\<lparr>lock_tasklist := l3, eflags := e3, kmem := m\<rparr>) = s\<lparr>kmem := m, lock_tasklist := l4\<rparr>" "rw_free l4"
      by (rule write_section) auto
    obtain m' where m': "sched_recalc ?tab ?m = Some m'" "recalculated ?tab ?m 64 m'" using sched_recalc_ok [OF tab] by blast
    have "f (s\<lparr>kmem := m', lock_tasklist := l4\<rparr>) = Some r"
      using 1(2) r w scan m'(1) by (simp add: MAX_CONCURRENT_TASKS_def)
    moreover have "\<not> ready ?tab m' i" for i using recalculatedD [OF m'(2), of i F_state] none [of i] by (auto simp: ready_def)
    ultimately show False using 1(1) tab w(3) by fastforce
  qed
qed

text \<open>
  Without a ready task the scheduler spins for ever: \<open>schedule\<close> has no result when no task of the table is ready.
\<close>

theorem schedule_spins_without_ready:
  assumes "sched_inv s" "running s k" "\<forall>i. \<not> ready (task_tab s) (kmem s) i"
  shows "schedule s = None"
proof -
  let ?tab = "task_tab s"
  have tab: "tab_ok ?tab" and free: "rw_free (lock_tasklist s)" using assms(1) by (auto simp: sched_inv_def)
  have K: "k < 64" "?tab ! k \<noteq> 0" "task_get_current s = Some (?tab ! k)" using assms(2) by (auto simp: running_def)
  let ?m = "store32 (kmem s) (?tab ! k + F_interruptible) 0"
  have "same_view ?tab (kmem s) ?m" using K by (intro same_view_other [OF tab]) auto
  then have "\<not> ready ?tab ?m i" for i using same_view_reads(1) assms(3) by metis
  then have "sched_loop (s\<lparr>kmem := ?m\<rparr>) = None"
    using sched_loop_spins [of "s\<lparr>kmem := ?m\<rparr>"] tab free by (cases "sched_loop (s\<lparr>kmem := ?m\<rparr>)") auto
  then show ?thesis using K by (simp add: schedule_def set_field_def tset_def)
qed

section \<open>Two processors\<close>

text \<open>
  The two critical sections of \<open>schedule\<close> as steps of several processors on one table: the search, under the read lock, and
  the marking of the task that was found, under the write lock.
\<close>

datatype sched_pc = Scan | Found nat | Switching nat

inductive sched_step :: "u32 list \<Rightarrow> nat \<Rightarrow> mem \<times> (nat \<Rightarrow> sched_pc) \<Rightarrow> mem \<times> (nat \<Rightarrow> sched_pc) \<Rightarrow> bool" for tab c where
  scan: "q c = Scan \<Longrightarrow> sched_scan [0..<MAX_CONCURRENT_TASKS] tab m (- 1) 0 = Some (k, n) \<Longrightarrow> k > 0 \<Longrightarrow>
    sched_step tab c (m, q) (m, q(c := Found n))"
| mark: "q c = Found n \<Longrightarrow> tset F_state (tab ! n) TASK_RUNNING m = Some m' \<Longrightarrow>
    sched_step tab c (m, q) (m', q(c := Switching n))"

inductive sched_reach :: "u32 list \<Rightarrow> mem \<times> (nat \<Rightarrow> sched_pc) \<Rightarrow> mem \<times> (nat \<Rightarrow> sched_pc) \<Rightarrow> bool" for tab s where
  here: "sched_reach tab s s"
| step: "sched_reach tab s s' \<Longrightarrow> sched_step tab c s' s'' \<Longrightarrow> sched_reach tab s s''"

text \<open>
  C32. Two processors can pick the same task, although a comment says that the lock prevents it: from every table with a
  ready task of positive counter there is an interleaving of two calls of \<open>schedule\<close> after which both switch to the
  same task.
\<close>

theorem schedule_picks_twice:
  assumes "tab_ok tab" "ready tab m i" "0 < dyn tab m i"
  shows "\<exists>m' q' n. sched_reach tab (m, \<lambda>_. Scan) (m', q') \<and> q' 0 = Switching n \<and> q' 1 = Switching n \<and> ready tab m n"
proof -
  have len: "length tab = 64" using assms(1) by (simp add: tab_ok_def)
  have "best tab m 0 (- 1) 0" by (simp add: best_def)
  then obtain c n where cn: "sched_scan [0..<64] tab m (- 1) 0 = Some (c, n)" "best tab m 64 c n"
    using sched_scan_best [OF len, of m 0 "- 1" 0] by auto
  then have "c > 0" using assms(2,3) by (fastforce simp: best_def ready_def)
  then have n: "ready tab m n" "tab ! n \<noteq> 0" using cn(2) by (auto simp: best_def ready_def)
  let ?M = "\<lambda>m. store32 m (tab ! n + F_state) TASK_RUNNING"
  have t: "tset F_state (tab ! n) TASK_RUNNING m1 = Some (?M m1)" for m1 using n(2) by (simp add: tset_def)
  have 0: "sched_reach tab (m, \<lambda>_. Scan) (m, (\<lambda>_. Scan)(0 := Found n))"
    using sched_reach.step [OF sched_reach.here sched_step.scan, of "\<lambda>_. Scan" 0] cn(1) \<open>c > 0\<close> by (simp add: MAX_CONCURRENT_TASKS_def)
  have 1: "sched_reach tab (m, \<lambda>_. Scan) (m, (\<lambda>_. Scan)(0 := Found n, 1 := Found n))"
    using sched_reach.step [OF 0 sched_step.scan, of 1] cn(1) \<open>c > 0\<close> by (simp add: MAX_CONCURRENT_TASKS_def)
  have 2: "sched_reach tab (m, \<lambda>_. Scan) (?M m, (\<lambda>_. Scan)(0 := Found n, 1 := Found n, 0 := Switching n))"
    using sched_reach.step [OF 1 sched_step.mark, of 0 n] t by simp
  have "sched_reach tab (m, \<lambda>_. Scan) (?M (?M m), (\<lambda>_. Scan)(0 := Found n, 1 := Found n, 0 := Switching n, 1 := Switching n))"
    using sched_reach.step [OF 2 sched_step.mark, of 1 n] t by simp
  then show ?thesis using n(1) by fastforce
qed

text \<open>A table with a running task at the entry 0 and a ready one at the entry 1.\<close>

definition sample_mem :: mem where
  "sample_mem = store32 (store32 (store32 (store32 (store32 (store32 (store32 (\<lambda>_. 0) 0x900034 2) 0x900038 5) 0x90003c 1) 0x900048 1)
     0x900138 7) 0x90013c 3) 0x900148 1"

definition sample_tab :: "u32 list" where
  "sample_tab = [0x900000, 0x900100] @ replicate 62 0"

definition sample_tasks :: tasks where
  "sample_tasks = liballoc.extend (sample_heap\<lparr>kmem := sample_mem\<rparr>)
     (tasks.fields sample_tab 2 (replicate 4 0x900000)
        (rwlock_init undefined) 0 1 0x200100 0x200200 0x200300)"

lemma sample_tasks_fields [simp]:
  "task_tab sample_tasks = sample_tab" "kmem sample_tasks = sample_mem"
  "lock_tasklist sample_tasks = rwlock_init undefined" "null_array sample_tasks = replicate 4 0x900000" "cpu_id sample_tasks = 0"
  by (simp_all add: sample_tasks_def liballoc.extend_def tasks.fields_def)

lemma sample_tab_nth: "i < 64 \<Longrightarrow> sample_tab ! i = (if i = 0 then 0x900000 else if i = 1 then 0x900100 else 0)" "length sample_tab = 64"
  by (auto simp: sample_tab_def nth_append nth_Cons' split: if_splits)

lemma sample_tasks_inv: "sched_inv sample_tasks" "running sample_tasks 0"
  "ready (task_tab sample_tasks) (kmem sample_tasks) 1" "0 < stat (task_tab sample_tasks) (kmem sample_tasks) 1"
  "tstate sample_tasks 0 = TASK_RUNNING" "0 < stat (task_tab sample_tasks) (kmem sample_tasks) 0"
proof -
  have L: "load32 sample_mem 0x900034 = 2" "load32 sample_mem 0x900038 = 5" "load32 sample_mem 0x900134 = 0" "load32 sample_mem 0x900138 = 7"
      "load32 sample_mem 0x90013c = 3"
    by (simp_all add: sample_mem_def load32_store32)
  have "tab_ok sample_tab"
    by (auto simp: tab_ok_def sample_tab_nth in_set_conv_nth object_bytes_def)
  moreover have "prios_ok sample_tab sample_mem"
    unfolding prios_ok_def ready_def stat_def dyn_def task_consts
    by (simp add: sample_tab_nth L cong: conj_cong)
  ultimately show "sched_inv sample_tasks" by (simp add: sched_inv_def rw_free_def rwlock_init_def)
  show "running sample_tasks 0" by (simp add: running_def task_get_current_def sample_tab_nth)
  show "ready (task_tab sample_tasks) (kmem sample_tasks) 1" "0 < stat (task_tab sample_tasks) (kmem sample_tasks) 1"
      "tstate sample_tasks 0 = TASK_RUNNING" "0 < stat (task_tab sample_tasks) (kmem sample_tasks) 0"
    using L by (simp_all add: ready_def stat_def tstate_def task_consts sample_tab_nth)
qed

theorem schedule_picks_best_witness:
  "\<exists>n s'. schedule sample_tasks = Some (if 0 = n then None else Some (task_tab sample_tasks ! 0, task_tab sample_tasks ! n), s') \<and>
     chosen (task_tab sample_tasks) (kmem sample_tasks) n \<and> running s' n"
  using schedule_picks_best [OF sample_tasks_inv(1-4)] by blast

theorem scheduler_keeps_counters_bounded_witness:
  "\<exists>r. task_yield sample_tasks = Some r \<and> hands_over sample_tasks 0 r"
  using scheduler_keeps_counters_bounded [OF sample_tasks_inv(1,2,5,6)] by blast

theorem schedule_spins_without_ready_witness:
  "schedule (sample_tasks\<lparr>kmem := store32 sample_mem 0x900134 1\<rparr>) = None"
proof -
  let ?s = "sample_tasks\<lparr>kmem := store32 sample_mem 0x900134 1\<rparr>"
  have L: "load32 (store32 sample_mem 0x900134 1) 0x900034 = 2" "load32 (store32 sample_mem 0x900134 1) 0x900134 = 1"
     "load32 sample_mem 0x900034 = 2" "load32 sample_mem 0x900038 = 5" "load32 sample_mem 0x900138 = 7"
    by (simp_all add: sample_mem_def load32_store32)
  have none: "\<forall>i. \<not> ready sample_tab (store32 sample_mem 0x900134 1) i"
    by (simp add: ready_def task_consts sample_tab_nth L cong: conj_cong)
  then have "prios_ok sample_tab (store32 sample_mem 0x900134 1)"
    by (simp add: prios_ok_def stat_def task_consts sample_tab_nth L cong: conj_cong)
  then have "sched_inv ?s" using sample_tasks_inv(1) by (simp add: sched_inv_def)
  moreover have "running ?s 0" using sample_tasks_inv(2) by (simp add: running_def task_get_current_def)
  moreover have "\<forall>i. \<not> ready (task_tab ?s) (kmem ?s) i" using none by simp
  ultimately show ?thesis by (rule schedule_spins_without_ready)
qed

theorem schedule_picks_twice_witness:
  "\<exists>m' q' n. sched_reach sample_tab (sample_mem, \<lambda>_. Scan) (m', q') \<and> q' 0 = Switching n \<and> q' 1 = Switching n"
proof -
  have "0 < dyn sample_tab sample_mem 1" by (simp add: dyn_def sample_tab_nth task_consts sample_mem_def)
  then show ?thesis
    using schedule_picks_twice [of sample_tab sample_mem 1] sample_tasks_inv(1,3) by (auto simp: sched_inv_def)
qed

end
