(* ===== verification/Task_New.thy ===== *)
theory Task_New
  imports Tasks Queue
begin

text \<open>
  The creation of a task in \<^verbatim>\<open>kernel/tasks/tasks.c\<close> and its first run: \<open>task_new\<close> takes the structure and the stack from the memory
  allocator, prepares the stack and puts the task into the table; the first \<open>cpu_switch_to\<close> to it enters \<open>task_startup\<close> with
  the function and its argument as parameters.
\<close>

lemma client_tasks:
  assumes "client s' = client (s :: 'a tasks_scheme)"
  shows "task_tab s' = task_tab s" "nr_tasks s' = nr_tasks s" "lock_tasklist s' = lock_tasklist s" "eflags s' = eflags s"
    "addr_of_return_cb s' = addr_of_return_cb s" "addr_of_startup s' = addr_of_startup s" "null_array s' = null_array s"
  using assms by (cases s; cases s'; simp add: client_def)+

text \<open>The stores of \<open>task_new\<close> behind the two allocations.\<close>

definition new_words :: "u32 \<Rightarrow> u32 \<Rightarrow> u32 \<Rightarrow> u32 \<Rightarrow> u32 \<Rightarrow> u32 \<Rightarrow> u32 \<Rightarrow> u32 \<Rightarrow> u32 \<Rightarrow> u32 \<Rightarrow> (u32 \<times> u32) list" where
  "new_words t sb e fp arg cb fl prio pid start =
     [(t + F_stack_bottom, sb), (t + F_state, TASK_READY), (t + F_join_state, JOIN_JOINABLE), (t + F_esp, e), (e, arg), (e - 4, fp),
      (e - 8, cb), (e - 44, fl OR CPU_EFLAGS_IF), (t + F_esp, e - 44), (t + F_static_prio, prio), (t + F_pid, pid),
      (t + F_eip, start), (t + F_interruptible, 1)]"

definition store_all :: "(u32 \<times> u32) list \<Rightarrow> mem \<Rightarrow> mem" where
  "store_all ws m = fold (\<lambda>(a, v) m. store32 m a v) ws m"

lemma new_stores_then:
  assumes "t \<noteq> 0"
  shows "do { s \<leftarrow> set_field F_stack_bottom t sb s;
       s \<leftarrow> set_field F_state t TASK_READY s;
       s \<leftarrow> set_field F_join_state t JOIN_JOINABLE s;
       s \<leftarrow> new_stack t e fp arg (addr_of_return_cb s) (eflags s) s;
       s \<leftarrow> set_field F_static_prio t priority s;
       s \<leftarrow> set_field F_pid t pid s;
       s \<leftarrow> set_field F_eip t (addr_of_startup s) s;
       s \<leftarrow> set_field F_interruptible t 1 s;
       f s } =
     f (s\<lparr>kmem := store_all (new_words t sb e fp arg (addr_of_return_cb s) (eflags s) priority pid (addr_of_startup s)) (kmem s)\<rparr>)"
  using assms by (simp add: set_field_def tset_def new_stack_def new_words_def store_all_def diff_diff_eq Let_def)

text \<open>Clearing an object.\<close>

lemma zeroed_rep:
  assumes "mmu_rep s os" "os p = Some n"
  shows "mmu_rep (s\<lparr>kmem := memset_mem (kmem s) p 0 n\<rparr>) os"
proof -
  have "unat p + n \<le> 2 ^ 32" using mm.object_bounds [OF assms] by simp
  then have "memset_mem (kmem s) p 0 n x = kmem s x" if "unat x \<notin> object_bytes p n" for x
    using that by (auto simp: memset_mem_apply object_bytes_def)
  then show ?thesis using mm.inside_one(1) [OF assms] unfolding set_kmem_def by blast
qed

lemma mmu_rep_lock [simp]: "mmu_rep (s\<lparr>lock_tasklist := l\<rparr>) os = mmu_rep s os"
  by (simp add: mmu_rep_def heap_inv_def heap_ok_def hooks_inv_def allocated_def frame_inv_def pf_wf_def pg_inv_def)

lemma write_section_tab:
  assumes "rw_free (lock_tasklist s)"
  obtains l1 e1 l2 where "write_lock s = Some (s\<lparr>lock_tasklist := l1, eflags := e1\<rparr>)" "rw_free l2"
    "\<forall>tab k. write_unlock (s\<lparr>lock_tasklist := l1, eflags := e1, task_tab := tab, nr_tasks := k\<rparr>) =
       s\<lparr>task_tab := tab, nr_tasks := k, lock_tasklist := l2\<rparr>"
proof -
  obtain l1 e1 l2 where "rwlock_write_acquire (lock_tasklist s) (eflags s) = Some (l1, e1)"
      "rwlock_write_release l1 e1 = (l2, eflags s)" "rw_free l2"
    using rwlock_pairs(2) [OF assms] by blast
  then show thesis by (intro that [of e1 l1 l2]) (simp_all add: write_lock_def write_unlock_def)
qed

lemma first_free_Some: "first_free is tab = Some i \<Longrightarrow> i \<in> set is \<and> i < length tab \<and> tab ! i = 0"
  by (induction "is" tab rule: first_free.induct) (auto split: if_splits)

lemma task_new_cases:
  assumes rep: "mmu_rep s os" and free: "rw_free (lock_tasklist s)" and sz: "unat stack_size + 80 < 2 ^ 32"
    and new: "task_new fp arg stack_size priority s = Some (t, s')" and t: "t \<noteq> 0"
  obtains pid l1 l2 s1 sb s2 where "first_free [0..<64] (task_tab s) = Some pid" "rw_free l2"
    "mmu_mmap task_struct_size (s\<lparr>lock_tasklist := l1\<rparr>) = Some (t, s1)"
    "mmu_mmap stack_size (s1\<lparr>kmem := memset_mem (kmem s1) t 0 84\<rparr>) = Some (sb, s2)"
    "client s2 = client (s\<lparr>lock_tasklist := l1\<rparr>)"
    "s' = s2\<lparr>kmem := store_all (new_words t sb (sb + stack_size) fp arg (addr_of_return_cb s) (eflags s) priority (of_nat pid) (addr_of_startup s)) (kmem s2),
               task_tab := (task_tab s)[pid := t], nr_tasks := nr_tasks s + 1, lock_tasklist := l2\<rparr>"
proof -
  obtain l0 e0 l1 where r: "read_lock s = Some (s\<lparr>lock_tasklist := l0, eflags := e0\<rparr>)"
      "read_unlock (s\<lparr>lock_tasklist := l0, eflags := e0\<rparr>) = Some (s\<lparr>lock_tasklist := l1\<rparr>)" "rw_free l1"
    by (rule read_section [OF free])
  have "fst (atomic_compare_exchange (nr_tasks s) 64 64) = False"
    using new t by (auto simp: task_new_def)
  note T = new [unfolded task_new_def, simplified this if_False, simplified r bind.simps]
  then obtain pid where pid: "first_free [0..<64] (task_tab s) = Some pid"
    using t by (auto simp: MAX_CONCURRENT_TASKS_def Let_def split: option.splits)
  obtain nt s1 where nt: "mmu_mmap task_struct_size (s\<lparr>lock_tasklist := l1\<rparr>) = Some (nt, s1)"
    using T pid by (auto simp: MAX_CONCURRENT_TASKS_def Let_def split: Option.bind_splits)
  obtain sb s2 where sb: "mmu_mmap stack_size (s1\<lparr>kmem := memset_mem (kmem s1) nt 0 84\<rparr>) = Some (sb, s2)"
    using T pid nt by (auto simp: MAX_CONCURRENT_TASKS_def task_struct_size_def Let_def split: Option.bind_splits)
  have "nt \<noteq> 0"
    using T pid nt sb by (auto simp: MAX_CONCURRENT_TASKS_def task_struct_size_def Let_def set_field_def tset_def)
  have R1: "mmu_rep s1 (os(nt \<mapsto> 84))" "client s1 = client (s\<lparr>lock_tasklist := l1\<rparr>)"
    using mm.alloc_new [OF _ _ nt, of os] mm.alloc_rest [OF _ _ nt, of os] rep \<open>nt \<noteq> 0\<close> by (simp_all add: task_struct_size_def)
  note R2 = zeroed_rep [OF R1(1), of nt 84, simplified]
  have R3: "client s2 = client (s\<lparr>lock_tasklist := l1\<rparr>)"
    using mm.alloc_rest [OF R2 sz sb] R1(2) by (simp add: client_def)
  note C = client_tasks [OF R3]
  let ?m = "store_all (new_words nt sb (sb + stack_size) fp arg (addr_of_return_cb s) (eflags s) priority (of_nat pid) (addr_of_startup s)) (kmem s2)"
  have "rw_free (lock_tasklist (s2\<lparr>kmem := ?m\<rparr>))" using C(3) r(3) by simp
  then obtain l2 e2 l3 where w: "write_lock (s2\<lparr>kmem := ?m\<rparr>) = Some (s2\<lparr>kmem := ?m\<rparr>\<lparr>lock_tasklist := l2, eflags := e2\<rparr>)" "rw_free l3"
      "\<forall>tab k. write_unlock (s2\<lparr>kmem := ?m\<rparr>\<lparr>lock_tasklist := l2, eflags := e2, task_tab := tab, nr_tasks := k\<rparr>) =
         s2\<lparr>kmem := ?m\<rparr>\<lparr>task_tab := tab, nr_tasks := k, lock_tasklist := l3\<rparr>"
    by (rule write_section_tab)
  have "do { s \<leftarrow> set_field F_stack_bottom nt sb s2;
       s \<leftarrow> set_field F_state nt TASK_READY s;
       s \<leftarrow> set_field F_join_state nt JOIN_JOINABLE s;
       s \<leftarrow> new_stack nt (sb + stack_size) fp arg (addr_of_return_cb s) (eflags s) s;
       s \<leftarrow> set_field F_static_prio nt priority s;
       s \<leftarrow> set_field F_pid nt (of_nat pid) s;
       s \<leftarrow> set_field F_eip nt (addr_of_startup s) s;
       s \<leftarrow> set_field F_interruptible nt 1 s;
       s \<leftarrow> write_lock s;
       tab \<leftarrow> arr_set (task_tab s) pid nt;
       Some (nt, write_unlock (s\<lparr>task_tab := tab, nr_tasks := nr_tasks s + 1\<rparr>)) } = Some (t, s')"
    using T pid nt sb by (simp add: MAX_CONCURRENT_TASKS_def task_struct_size_def)
  then have "nt = t \<and> s' = s2\<lparr>kmem := ?m\<rparr>\<lparr>task_tab := (task_tab s)[pid := t], nr_tasks := nr_tasks s + 1, lock_tasklist := l3\<rparr>"
    using w C first_free_Some [OF pid] by (auto simp: new_stores_then [OF \<open>nt \<noteq> 0\<close>])
  then show thesis using that [OF pid w(2), of l1] nt sb R3 by simp
qed


lemma new_words_loads:
  assumes a: "aligned t" "aligned e" and apart: "\<forall>f\<in>task_fields. \<forall>k\<in>{0, 4, 8, 44}. t + f \<noteq> e - k"
    and m': "m' = store_all (new_words t sb e fp arg cb fl prio pid start) m"
  shows "load32 m' t = e - 44" "load32 m' (t + 36) = start" "load32 m' (t + F_state) = TASK_READY"
    "load32 m' (t + F_static_prio) = prio" "load32 m' (t + F_pid) = pid" "load32 m' (t + F_stack_bottom) = sb"
    "load32 m' (t + F_join_state) = JOIN_JOINABLE" "load32 m' (t + F_interruptible) = 1"
    "load32 m' (t + F_dynamic_prio) = load32 m (t + F_dynamic_prio)"
    "load32 m' (e - 44) = fl OR CPU_EFLAGS_IF" "load32 m' (e - 8) = cb" "load32 m' (e - 4) = fp" "load32 m' e = arg"
proof -
  have d: "t + f \<noteq> e - k" "e - k \<noteq> t + f" if "f \<in> task_fields" "k \<in> {0, 4, 8, 44}" for f k
    using apart that by metis+
  note D = d [of _ 0, simplified] d [of _ 4, simplified] d [of _ 8, simplified] d [of _ 44, simplified]
  have Z: "e \<noteq> t" "e - 4 \<noteq> t" "e - 8 \<noteq> t" "e - 44 \<noteq> t"
    using D(2,4,6,8) [of 0] by (simp_all add: task_fields_def task_consts)
  have E: "aligned (t + 36)" "aligned (t + 48)" "aligned (t + 52)" "aligned (t + 56)" "aligned (t + 60)" "aligned (t + 64)" "aligned (t + 72)" "aligned (t + 76)"
     "aligned (e - 4)" "aligned (e - 8)" "aligned (e - 44)"
    using a by simp_all
  show "load32 m' t = e - 44" "load32 m' (t + 36) = start" "load32 m' (t + F_state) = TASK_READY"
    "load32 m' (t + F_static_prio) = prio" "load32 m' (t + F_pid) = pid" "load32 m' (t + F_stack_bottom) = sb"
    "load32 m' (t + F_join_state) = JOIN_JOINABLE" "load32 m' (t + F_interruptible) = 1"
    "load32 m' (t + F_dynamic_prio) = load32 m (t + F_dynamic_prio)"
    "load32 m' (e - 44) = fl OR CPU_EFLAGS_IF" "load32 m' (e - 8) = cb" "load32 m' (e - 4) = fp" "load32 m' e = arg"
    using a E D Z by (simp_all add: m' store_all_def new_words_def task_fields_def task_consts)
qed

text \<open>With a free entry and memory for the structure the function returns.\<close>

lemma task_new_returns:
  assumes rep: "mmu_rep s os" and free: "rw_free (lock_tasklist s)" and sz: "unat stack_size + 80 < 2 ^ 32"
    and nr: "nr_tasks s \<noteq> 64" and pid: "first_free [0..<64] (task_tab s) = Some pid"
    and mm: "\<forall>l. \<exists>s1. mmu_mmap task_struct_size (s\<lparr>lock_tasklist := l\<rparr>) = Some (t, s1)" and t: "t \<noteq> 0"
  shows "\<exists>s'. task_new fp arg stack_size priority s = Some (t, s')"
proof -
  obtain l0 e0 l1 where r: "read_lock s = Some (s\<lparr>lock_tasklist := l0, eflags := e0\<rparr>)"
      "read_unlock (s\<lparr>lock_tasklist := l0, eflags := e0\<rparr>) = Some (s\<lparr>lock_tasklist := l1\<rparr>)" "rw_free l1"
    by (rule read_section [OF free])
  obtain s1 where s1: "mmu_mmap task_struct_size (s\<lparr>lock_tasklist := l1\<rparr>) = Some (t, s1)" using mm by blast
  have R1: "mmu_rep s1 (os(t \<mapsto> 84))" "client s1 = client (s\<lparr>lock_tasklist := l1\<rparr>)"
    using mm.alloc_new [OF _ _ s1, of os] mm.alloc_rest [OF _ _ s1, of os] rep t by (simp_all add: task_struct_size_def)
  note R2 = zeroed_rep [OF R1(1), of t 84, simplified]
  obtain sb s2 where sb: "mmu_mmap stack_size (s1\<lparr>kmem := memset_mem (kmem s1) t 0 84\<rparr>) = Some (sb, s2)"
    using mm.alloc_returns [OF R2 sz] by blast
  have R3: "client s2 = client (s\<lparr>lock_tasklist := l1\<rparr>)"
    using mm.alloc_rest [OF R2 sz sb] R1(2) by (simp add: client_def)
  note C = client_tasks [OF R3]
  let ?m = "store_all (new_words t sb (sb + stack_size) fp arg (addr_of_return_cb s) (eflags s) priority (of_nat pid) (addr_of_startup s)) (kmem s2)"
  have "rw_free (lock_tasklist (s2\<lparr>kmem := ?m\<rparr>))" using C(3) r(3) by simp
  then obtain l e where w: "write_lock (s2\<lparr>kmem := ?m\<rparr>) = Some (s2\<lparr>kmem := ?m\<rparr>\<lparr>lock_tasklist := l, eflags := e\<rparr>)"
    by (rule write_section_tab)
  have a: "arr_set (task_tab s) pid t = Some ((task_tab s)[pid := t])" using first_free_Some [OF pid] by simp
  show ?thesis
    using r(1,2) nr pid s1 sb w t C a
    by (simp add: task_new_def atomic_compare_exchange_def MAX_CONCURRENT_TASKS_def task_struct_size_def new_stores_then)
qed

text \<open>The structure and the stack of the new task do not meet, not even in the word behind the stack.\<close>

lemma stack_apart:
  assumes rep: "mmu_rep s os" and t: "os t = Some 84" and sb: "os sb = Some n" "t \<noteq> sb" and n: "44 \<le> n" "n < 2 ^ 32" and f: "f \<in> task_fields" and k: "k \<in> {0, 4, 8, 44}"
  shows "t + f \<noteq> sb + of_nat n - k"
proof
  assume eq: "t + f = sb + of_nat n - k"
  have T: "16 dvd unat t" "unat t + 84 \<le> 2 ^ 32" "t \<noteq> 0" using mm.object_bounds [OF rep t] by auto
  have S: "unat sb + n \<le> 2 ^ 32" using mm.object_bounds [OF rep sb(1)] by simp
  note A = field_addr_task(1) [OF T(1,2) f]
  have F: "unat f + 4 \<le> 84" using field_bounds [OF f] by simp
  have gap: "unat t + 84 + 40 \<le> unat sb \<or> unat sb + n + 40 \<le> unat t" using mm.objects_gap [OF rep t sb] .
  have pos: "0 < unat t" using T(3) by (simp add: unat_gt_0)
  show False
  proof (cases "k = 0")
    case True
    have "unat (sb + of_nat n) = (unat sb + n) mod 2 ^ 32" using n(2) by (simp add: unat_word_ariths unat_of_nat mod_add_right_eq)
    moreover have "(unat sb + n) mod 2 ^ 32 = unat sb + n \<or> (unat sb + n) mod 2 ^ 32 = 0" using S by (cases "unat sb + n = 2 ^ 32") auto
    ultimately show False using eq A F gap pos True by auto
  next
    case False
    then have K: "unat k \<le> 44" "0 < unat k" using k by auto
    have "sb + of_nat n - k = sb + of_nat (n - unat k)" using K n by (simp add: of_nat_diff)
    moreover have "unat (sb + of_nat (n - unat k)) = unat sb + (n - unat k)" using S K n by (intro obj_addr [of sb n]) auto
    ultimately have "unat t + unat f = unat sb + (n - unat k)" using eq A by metis
    then show False using gap F K n by linarith
  qed
qed


text \<open>The table behind \<open>task_new\<close>, and the memory.\<close>

definition created :: "u32 \<Rightarrow> u32 \<Rightarrow> u32 \<Rightarrow> u32 \<Rightarrow> 'a tasks_scheme \<Rightarrow> nat \<Rightarrow> u32 \<Rightarrow> u32 \<Rightarrow> 'a tasks_scheme \<Rightarrow> bool" where
  "created fp arg stack_top priority s pid t sb s' \<longleftrightarrow> (let m = kmem s' in
     first_free [0..<64] (task_tab s) = Some pid \<and> task_tab s' = (task_tab s)[pid := t] \<and> nr_tasks s' = nr_tasks s + 1 \<and>
     eflags s' = eflags s \<and> rw_free (lock_tasklist s') \<and>
     load32 m (t + F_pid) = of_nat pid \<and> load32 m (t + F_state) = TASK_READY \<and> load32 m (t + F_static_prio) = priority \<and>
     load32 m (t + F_dynamic_prio) = 0 \<and> load32 m (t + F_stack_bottom) = sb \<and> load32 m (t + F_interruptible) = 1 \<and>
     load32 m t = stack_top - 44 \<and> load32 m (t + 36) = addr_of_startup s \<and>
     load32 m (stack_top - 44) = eflags s OR CPU_EFLAGS_IF \<and> load32 m (stack_top - 8) = addr_of_return_cb s \<and>
     load32 m (stack_top - 4) = fp \<and> load32 m stack_top = arg)"

lemma object_low:
  assumes "mmu_rep s os" "os p = Some n"
  shows "0x800000 \<le> unat p"
proof -
  obtain bs m where m: "heap_ok s bs" "m \<in> live bs" "p = user_ptr m" using rep_object [OF assms] by metis
  note M = live_object(1,3) [OF heap_okD(4) [OF m(1)] m(2)]
  show ?thesis using M(2) user_ptr_bounds(2) [OF M(1)] unfolding m(3) by linarith
qed

lemma zeroed_load:
  assumes "unat p + n \<le> 2 ^ 32" "k + 4 \<le> n"
  shows "load32 (memset_mem m p 0 n) (p + of_nat k) = 0"
proof -
  have "memset_mem m p 0 n (p + of_nat (k + j)) = 0" if "j < 4" for j
    using assms that obj_addr [OF assms(1), of "k + j"] by (simp add: memset_mem_apply [OF assms(1)] del: of_nat_add)
  from this [of 0] this [of 1] this [of 2] this [of 3] show ?thesis by (simp add: load32_def ac_simps)
qed

lemma task_new_created:
  assumes rep: "mmu_rep s os" and free: "rw_free (lock_tasklist s)"
    and sz: "44 \<le> unat stack_size" "unat stack_size < 0x800000" "4 dvd unat stack_size"
    and new: "task_new fp arg stack_size priority s = Some (t, s')" and t: "t \<noteq> 0" and stack: "load32 (kmem s') (t + F_stack_bottom) \<noteq> 0"
  obtains pid sb where "created fp arg (sb + stack_size) priority s pid t sb s'" "aligned (sb + stack_size)" "aligned t"
proof -
  have big: "unat stack_size + 80 < 2 ^ 32" using sz(2) by simp
  obtain pid l1 l2 s1 sb s2 where c: "first_free [0..<64] (task_tab s) = Some pid" "rw_free l2"
    "mmu_mmap task_struct_size (s\<lparr>lock_tasklist := l1\<rparr>) = Some (t, s1)"
    "mmu_mmap stack_size (s1\<lparr>kmem := memset_mem (kmem s1) t 0 84\<rparr>) = Some (sb, s2)"
    "client s2 = client (s\<lparr>lock_tasklist := l1\<rparr>)"
    "s' = s2\<lparr>kmem := store_all (new_words t sb (sb + stack_size) fp arg (addr_of_return_cb s) (eflags s) priority (of_nat pid) (addr_of_startup s)) (kmem s2),
               task_tab := (task_tab s)[pid := t], nr_tasks := nr_tasks s + 1, lock_tasklist := l2\<rparr>"
    by (rule task_new_cases [OF rep free big new t])
  let ?e = "sb + stack_size" and ?os = "os(t \<mapsto> 84)"
  have R1: "mmu_rep s1 ?os" using mm.alloc_new [OF _ _ c(3), of os] rep t by (simp add: task_struct_size_def)
  note B = mm.object_bounds [OF R1, of t 84, simplified] and R2 = zeroed_rep [OF R1, of t 84, simplified]
  have dyn0: "load32 (kmem s2) (t + F_dynamic_prio) = 0"
    using unchanged_field [OF mm.alloc_frame [OF R2 big c(4), of "{}"], of t 84 60] zeroed_load [of t 84 60] B
    by (simp add: F_dynamic_prio_def)
  have four: "(4 :: nat) dvd 16" by simp
  have at: "aligned t" using B dvd_trans [OF four] by (simp add: aligned_def)
  have ok: "aligned ?e \<and> (\<forall>f\<in>task_fields. \<forall>k\<in>{0, 4, 8, 44}. t + f \<noteq> ?e - k)"
  proof (cases "sb = 0")
    case True
    have "t + f \<noteq> stack_size - k" if "f \<in> task_fields" "k \<in> {0, 4, 8, 44}" for f k
    proof -
      have "unat (stack_size - k) \<le> unat stack_size" using that(2) sz(1) by (subst unat_sub) (auto simp: word_le_nat_alt)
      moreover have "0x800000 \<le> unat (t + f)"
        using object_low [OF R1, of t 84] field_addr_task(1) [of t f] B that(1) by simp
      ultimately show ?thesis using sz(2) by auto
    qed
    then show ?thesis using True sz(3) by (simp add: aligned_def)
  next
    case False
    have n: "?os sb = None" "mmu_rep s2 (?os(sb \<mapsto> unat stack_size))" using mm.alloc_new [OF R2 big c(4) False] by auto
    have "16 dvd unat sb" using mm.object_bounds [OF n(2), of sb] by simp
    then have "aligned sb" using dvd_trans [OF four] by (simp add: aligned_def)
    moreover have "t + f \<noteq> ?e - k" if "f \<in> task_fields" "k \<in> {0, 4, 8, 44}" for f k
      using stack_apart [OF n(2), of t sb "unat stack_size" f k] n(1) that sz by (auto split: if_splits)
    ultimately show ?thesis using sz(3) by (simp add: aligned_def [of stack_size])
  qed
  note L = new_words_loads [OF at conjunct1 [OF ok] conjunct2 [OF ok] refl]
  have "created fp arg ?e priority s pid t sb s'"
    using L c(1,2,5) dyn0 client_tasks(4) [OF c(5)] unfolding created_def Let_def c(6) by simp
  then show thesis using ok at that by blast
qed

section \<open>Properties\<close>

text \<open>
  C7. A new task starts where it should: when \<open>task_new(fp, arg, stack_size, priority)\<close> returns a task with a stack, the task is
  in a table entry that was free, ready, with its priority, a counter of 0 and its entry as its pid; and the first
  \<open>cpu_switch_to\<close> to it, from whatever task, continues at \<open>task_startup\<close> on the new stack, with interrupts
  enabled, the return address of \<open>on_current_task_return_cb\<close> on the top of it and \<open>fp\<close> and \<open>arg\<close> as the two parameters.
\<close>

theorem task_new_first_run:
  fixes s s' :: "'a tasks_scheme"
  assumes "mmu_rep s os" "rw_free (lock_tasklist s)" "44 \<le> unat stack_size" "unat stack_size < 0x800000" "4 dvd unat stack_size"
    and "task_new fp arg stack_size priority s = Some (t, s')" "t \<noteq> 0" "load32 (kmem s') (t + F_stack_bottom) \<noteq> 0"
    and "stack_top = load32 (kmem s') (t + F_stack_bottom) + stack_size"
    and "words = {t, t + 36, stack_top - 44, stack_top - 8, stack_top - 4, stack_top}"
    and "called c p t" "\<forall>x\<in>words. load32 (mmem c) x = load32 (kmem s') x" "kept_words p c \<inter> words = {}"
  shows "(\<exists>pid<64. task_tab s ! pid = 0 \<and> task_tab s' = (task_tab s)[pid := t] \<and> load32 (kmem s') (t + F_pid) = of_nat pid \<and>
        load32 (kmem s') (t + F_state) = TASK_READY \<and> load32 (kmem s') (t + F_static_prio) = priority \<and>
        load32 (kmem s') (t + F_dynamic_prio) = 0) \<and>
     mip (cpu_switch_to c) = addr_of_startup s \<and> regs (cpu_switch_to c) ESP = stack_top - 8 \<and>
     mflags (cpu_switch_to c) = eflags s OR CPU_EFLAGS_IF \<and>
     load32 (mmem (cpu_switch_to c)) (stack_top - 8) = addr_of_return_cb s \<and>
     load32 (mmem (cpu_switch_to c)) (stack_top - 4) = fp \<and> load32 (mmem (cpu_switch_to c)) stack_top = arg"
proof -
  obtain pid sb where n: "created fp arg (sb + stack_size) priority s pid t sb s'" "aligned (sb + stack_size)" "aligned t"
    by (rule task_new_created [OF assms(1-8)])
  have e: "sb + stack_size = stack_top" using n(1) assms(9) by (simp add: created_def Let_def)
  have N: "created fp arg stack_top priority s pid t sb s'" "aligned stack_top" using n(1,2) unfolding e .
  let ?c = "exec switch_save c"
  have W: "load32 (mmem ?c) x = load32 (kmem s') x" if "x \<in> words" for x
  proof -
    have "aligned x" using that N(2) n(3) assms(10) by auto
    moreover have "x \<notin> kept_words p c" using that assms(13) by blast
    ultimately show ?thesis using switch_save_ok(4) [OF assms(11)] that assms(12) by (simp add: kept_words_def)
  qed
  have w: "t \<in> words" "t + 36 \<in> words" "stack_top - 44 \<in> words" "stack_top - 8 \<in> words" "stack_top - 4 \<in> words" "stack_top \<in> words"
    unfolding assms(10) by simp_all
  have "load32 (mmem ?c) t = (stack_top - 12) - 32" using W [OF w(1)] N(1) by (simp add: created_def Let_def)
  note S = switch_load_ok [OF switch_save_next [OF assms(11)] this]
  have a12: "aligned (stack_top - 12)" using N(2) by simp
  have first: "pid < 64" "task_tab s ! pid = 0" using N(1) first_free_Some [of "[0..<64]" "task_tab s" pid] by (auto simp: created_def Let_def)
  show ?thesis
    using N W [OF w(2)] W [OF w(3)] W [OF w(4)] W [OF w(5)] W [OF w(6)] S [OF a12] first
    by (auto simp: created_def Let_def cpu_switch_to_halves)
qed

text \<open>An empty table, with one object on the heap.\<close>

definition sample_empty :: tasks where
  "sample_empty = liballoc.extend sample_heap
     (tasks.fields (replicate 64 0) 0 (replicate 4 0) (rwlock_init undefined) 0 1 0x200100 0x200200 0x200300)"

lemma sample_empty_rep: "mmu_rep sample_empty [0x808040 \<mapsto> 100]"
  using sample_heap_rep
  by (simp add: sample_empty_def liballoc.extend_def tasks.fields_def mmu_rep_def heap_inv_def heap_ok_def hooks_inv_def allocated_def
      frame_inv_def pf_wf_def pg_inv_def)

definition sample_first :: "mem \<Rightarrow> rwlock \<Rightarrow> tasks" where
  "sample_first m l = sample_empty\<lparr>mmulock := \<lparr>locked = 0, is_irq_enabled_when_locked = 512\<rparr>,
     majors := [0x808000 \<mapsto> \<lparr>maj_prev = 0, maj_next = 0, pages = 16, maj_size = 65536, usage = 320, first = 0x808018\<rparr>],
     minors := [0x808018 \<mapsto> \<lparr>min_prev = 0, min_next = 0x8080b4, block = 0x808000, magic = LIBALLOC_MAGIC, min_size = 132, req_size = 100\<rparr>,
       0x8080b4 \<mapsto> \<lparr>min_prev = 0x808018, min_next = 0, block = 0x808000, magic = LIBALLOC_MAGIC, min_size = 116, req_size = 84\<rparr>],
     l_bestBet := 0x808000, l_inuse := 116, lock_tasklist := l, kmem := m\<rparr>"

lemmas sample_empty_unfold = sample_empty_def sample_heap_def sample_liballoc_def sample_hooks_def liballoc.extend_def tasks.fields_def

lemmas run_mmap = run_malloc malloc_loop.simps [of "0x808000"] malloc_case4.simps [of "0x808000" "0x808018"]
  malloc_case4.simps [of "0x808000" "0x8080B4"] LIBALLOC_MAGIC_def CPU_EFLAGS_IF_def sti_def cli_def

lemma sample_empty_mmap: "\<exists>m. mmu_mmap task_struct_size (sample_empty\<lparr>lock_tasklist := l\<rparr>) = Some (0x8080e0, sample_first m l)"
  unfolding sample_empty_unfold sample_first_def task_struct_size_def by (simp add: run_mmap)

lemma sample_first_mmap: "\<exists>s. mmu_mmap 0x100 (sample_first m l) = Some (0x808170, s)"
  unfolding sample_empty_unfold sample_first_def by (simp add: run_mmap)

lemma sample_empty_new:
  obtains s where "task_new 0x1000 7 0x100 5 sample_empty = Some (0x8080e0, s)" "load32 (kmem s) (0x8080e0 + F_stack_bottom) = 0x808170"
proof -
  have f: "rw_free (lock_tasklist sample_empty)" "nr_tasks sample_empty = 0" "task_tab sample_empty = replicate 64 0"
    by (simp_all add: sample_empty_def liballoc.extend_def tasks.fields_def rw_free_def rwlock_init_def)
  have p: "first_free [0..<64] (task_tab sample_empty) = Some 0" unfolding f(3) by (simp add: upt_conv_Cons)
  obtain s where s: "task_new 0x1000 7 0x100 5 sample_empty = Some (0x8080e0, s)"
    using task_new_returns [OF sample_empty_rep f(1) _ _ p, of "0x100" "0x8080e0" "0x1000" 7 5] f(2) sample_empty_mmap by auto
  obtain l1 s1 sb s2 l2 where c: "mmu_mmap task_struct_size (sample_empty\<lparr>lock_tasklist := l1\<rparr>) = Some (0x8080e0, s1)"
      "mmu_mmap 0x100 (s1\<lparr>kmem := memset_mem (kmem s1) 0x8080e0 0 84\<rparr>) = Some (sb, s2)"
      "kmem s = store_all (new_words 0x8080e0 sb (sb + 0x100) 0x1000 7 (addr_of_return_cb sample_empty) (eflags sample_empty) 5 0 (addr_of_startup sample_empty)) (kmem s2)"
    by (rule task_new_cases [OF sample_empty_rep f(1) _ s]) (use p in auto)
  obtain m where "s1 = sample_first m l1" using sample_empty_mmap [of l1] c(1) by auto
  then have "s1\<lparr>kmem := memset_mem (kmem s1) 0x8080e0 0 84\<rparr> = sample_first (memset_mem (kmem s1) 0x8080e0 0 84) l1"
    by (simp add: sample_first_def)
  then have "sb = 0x808170" using sample_first_mmap [of "memset_mem (kmem s1) 0x8080e0 0 84" l1] c(2) by auto
  then have "load32 (kmem s) (0x8080e0 + F_stack_bottom) = 0x808170"
    unfolding c(3) by (simp add: store_all_def new_words_def task_consts)
  then show thesis using that s by blast
qed

theorem task_new_first_run_witness:
  "\<exists>s' c. task_new 0x1000 7 0x100 5 sample_empty = Some (0x8080e0, s') \<and> called c 0x20000 0x8080e0 \<and>
     mip (cpu_switch_to c) = 0x200200 \<and> load32 (mmem (cpu_switch_to c)) 0x80826c = 0x1000 \<and>
     load32 (mmem (cpu_switch_to c)) 0x808270 = 7"
proof -
  obtain s where s: "task_new 0x1000 7 0x100 5 sample_empty = Some (0x8080e0, s)" "load32 (kmem s) (0x8080e0 + F_stack_bottom) = 0x808170"
    by (rule sample_empty_new)
  define c :: machine where "c = sample_switch\<lparr>mmem := store32 (store32 (kmem s) 0x10004 0x20000) 0x10008 0x8080e0\<rparr>"
  let ?W = "{0x8080e0, 0x808104, 0x808244, 0x808268, 0x80826c, 0x808270} :: u32 set"
  have c: "called c 0x20000 0x8080e0" by (simp add: called_def c_def sample_switch_def task_words_def frame_words_def)
  have w: "\<forall>x\<in>?W. load32 (mmem c) x = load32 (kmem s) x" by (simp add: c_def)
  have k: "kept_words 0x20000 c \<inter> ?W = {}"
    by (simp add: kept_words_def task_words_def frame_words_def c_def sample_switch_def)
  have f: "rw_free (lock_tasklist sample_empty)" "addr_of_startup sample_empty = 0x200200"
    by (simp_all add: sample_empty_def liballoc.extend_def tasks.fields_def rw_free_def rwlock_init_def)
  have "mip (cpu_switch_to c) = addr_of_startup sample_empty \<and> load32 (mmem (cpu_switch_to c)) (0x808270 - 4) = 0x1000 \<and>
      load32 (mmem (cpu_switch_to c)) 0x808270 = 7"
    using task_new_first_run [OF sample_empty_rep f(1) _ _ _ s(1), of "0x808270" ?W c "0x20000"] s(2) c w k by simp
  then show ?thesis using s(1) c f(2) by auto
qed

end
