(* ===== verification/Layout.thy ===== *)
theory Layout
  imports Memory
begin

text \<open>
  Structures in memory as lists of bytes: the bytes of a word, and that a list of bytes is in memory at an address. The
  tables of the firmware and of the boot loader and the copies of pointers in queues are described this way.
\<close>

definition bytes32 :: "u32 \<Rightarrow> bytes" where
  "bytes32 v = [ucast v, ucast (drop_bit 8 v), ucast (drop_bit 16 v), ucast (drop_bit 24 v)]"

definition word_of_bytes :: "bytes \<Rightarrow> u32" where
  "word_of_bytes bs = load32 (\<lambda>x. bs ! unat x) 0"

definition holds :: "mem \<Rightarrow> u32 \<Rightarrow> bytes \<Rightarrow> bool" where
  "holds m a bs \<longleftrightarrow> (\<forall>i<length bs. m (a + of_nat i) = bs ! i)"

lemma holds_append: "holds m a (xs @ ys) \<longleftrightarrow> holds m a xs \<and> holds m (a + of_nat (length xs)) ys"
proof
  assume h: "holds m a (xs @ ys)"
  have "m (a + of_nat (length xs) + of_nat i) = ys ! i" if "i < length ys" for i
    using h that unfolding holds_def by (auto simp: nth_append add.assoc dest: spec [of _ "length xs + i"])
  moreover have "m (a + of_nat i) = xs ! i" if "i < length xs" for i
    using h that unfolding holds_def by (auto simp: nth_append dest: spec [of _ i])
  ultimately show "holds m a xs \<and> holds m (a + of_nat (length xs)) ys" by (simp add: holds_def)
next
  assume h: "holds m a xs \<and> holds m (a + of_nat (length xs)) ys"
  show "holds m a (xs @ ys)"
    unfolding holds_def
  proof (intro allI impI)
    fix i assume "i < length (xs @ ys)"
    then show "m (a + of_nat i) = (xs @ ys) ! i"
      using h by (cases "i < length xs") (auto simp: holds_def nth_append of_nat_diff dest: spec [of _ "i - length xs"])
  qed
qed

lemma holds_Cons: "holds m a (x # xs) \<longleftrightarrow> m a = x \<and> holds m (a + 1) xs"
  using holds_append [of m a "[x]" xs] by (simp add: holds_def)

lemma holds_Nil [simp]: "holds m a []"
  by (simp add: holds_def)

lemma holds_bytes32: "holds m a (bytes32 v) \<Longrightarrow> load32 m a = v"
  by (simp add: bytes32_def holds_Cons load32_def bytes_of_word add.commute)

lemma length_bytes32 [simp]: "length (bytes32 v) = 4"
  by (simp add: bytes32_def)

lemma holds_list: "length bs < 2 ^ 32 \<Longrightarrow> holds (\<lambda>x. bs ! unat (x - a)) a bs"
  by (simp add: holds_def unat_of_nat_small)

lemma word_of_bytes32 [simp]: "word_of_bytes (bytes32 v) = v"
  using holds_bytes32 [of "\<lambda>x. bytes32 v ! unat x" 0 v] holds_list [of "bytes32 v" 0] by (simp add: word_of_bytes_def)

end
