(* ===== verification/Semaphore.thy ===== *)
theory Semaphore
  imports Task_New Layout
begin

text \<open>
  \<^verbatim>\<open>kernel/tasks/sem.c\<close>: semaphores on the spin lock, the queue and the scheduler. A semaphore is the caller's object and is
  passed and returned as a record; the entries of its queue are the addresses of the waiting tasks. As in
  \<open>Tasks\<close>, the call of \<open>cpu_switch_to\<close> that ends the run of a waiting task is returned.
\<close>

section \<open>Operations\<close>

record semaphore =
  sm_count :: u32
  sm_lock :: spinlock
  sm_queue :: queue

definition sem_init :: "semaphore \<Rightarrow> u32 \<Rightarrow> semaphore" where
  "sem_init sm count = sm\<lparr>sm_queue := \<lparr>q_head = 0, q_tail = 0, q_size = 0\<rparr>, sm_lock := spinlock_init (sm_lock sm), sm_count := count\<rparr>"

definition sem_lock :: "semaphore \<times> 'a tasks_scheme \<Rightarrow> (semaphore \<times> 'a tasks_scheme) option" where
  "sem_lock = (\<lambda>(sm, s). do { (l, e) \<leftarrow> spinlock_lock (sm_lock sm) (eflags s); Some (sm\<lparr>sm_lock := l\<rparr>, s\<lparr>eflags := e\<rparr>) })"

definition sem_unlock :: "semaphore \<times> 'a tasks_scheme \<Rightarrow> semaphore \<times> 'a tasks_scheme" where
  "sem_unlock = (\<lambda>(sm, s). let (l, e) = spinlock_unlock (sm_lock sm) (eflags s) in (sm\<lparr>sm_lock := l\<rparr>, s\<lparr>eflags := e\<rparr>))"

definition sem_wait :: "semaphore \<Rightarrow> 'a tasks_scheme \<Rightarrow> ((u32 \<times> u32) option \<times> semaphore \<times> 'a tasks_scheme) option" where
  "sem_wait sm s =
     do { (sm, s) \<leftarrow> sem_lock (sm, s);
          let c = sm_count sm; (sm, s) = sem_unlock (sm, s) in
          if sint c > 0
          then do { (sm, s) \<leftarrow> sem_lock (sm, s);
                    let sm = sm\<lparr>sm_count := sm_count sm - 1\<rparr>; (sm, s) = sem_unlock (sm, s) in
                    Some (None, sm, s) }
          else do { curtask \<leftarrow> task_get_current s;
                    (sm, s) \<leftarrow> sem_lock (sm, s);
                    (q, s) \<leftarrow> queue_push (sm_queue sm) (bytes32 curtask) 4 s;
                    let (sm, s) = sem_unlock (sm\<lparr>sm_queue := q\<rparr>, s) in
                    do { s \<leftarrow> set_field F_state curtask TASK_WAITING s;
                         (sw, s) \<leftarrow> task_yield s;
                         Some (sw, sm, s) } } }"

text \<open>The local variable for the task that is popped has no value before the call; it is used only if the call fills it.\<close>

definition sem_signal :: "semaphore \<Rightarrow> 'a tasks_scheme \<Rightarrow> (semaphore \<times> 'a tasks_scheme) option" where
  "sem_signal sm s =
     do { (sm, s) \<leftarrow> sem_lock (sm, s);
          (is_queue_empty, popped_task, q, s) \<leftarrow> queue_pop (sm_queue sm) (replicate 4 0) 4 s;
          let (sm, s) = sem_unlock (sm\<lparr>sm_queue := q, sm_count := sm_count sm + 1\<rparr>, s) in
          if is_queue_empty = 0
          then do { s \<leftarrow> set_field F_state (word_of_bytes popped_task) TASK_READY s; Some (sm, s) }
          else Some (sm, s) }"

section \<open>One processor\<close>

lemma mmu_rep_eflags [simp]: "mmu_rep (s\<lparr>eflags := e\<rparr>) os = mmu_rep s os"
  by (simp add: mmu_rep_def heap_inv_def heap_ok_def hooks_inv_def allocated_def frame_inv_def pf_wf_def pg_inv_def)

lemma sem_lock_free:
  fixes s :: "'a tasks_scheme"
  assumes "locked (sm_lock sm) = 0"
  obtains l1 e1 l2 where "sem_lock (sm, s) = Some (sm\<lparr>sm_lock := l1\<rparr>, s\<lparr>eflags := e1\<rparr>)" "locked l2 = 0"
    "\<forall>sm'. \<forall>s' :: 'a tasks_scheme. sm_lock sm' = l1 \<longrightarrow> eflags s' = e1 \<longrightarrow> sem_unlock (sm', s') = (sm'\<lparr>sm_lock := l2\<rparr>, s'\<lparr>eflags := eflags s\<rparr>)"
proof -
  obtain l1 e1 where l: "spinlock_lock (sm_lock sm) (eflags s) = Some (l1, e1)"
      "locked (fst (spinlock_unlock l1 e1)) = 0" "snd (spinlock_unlock l1 e1) = eflags s"
    using spinlock_pair [OF assms, of "eflags s"] by blast
  then show thesis
    by (intro that [of l1 e1 "fst (spinlock_unlock l1 e1)"]) (simp_all add: sem_lock_def sem_unlock_def split_beta)
qed

text \<open>With a positive count the caller goes on; the kernel's state is unchanged.\<close>

lemma sem_wait_passes:
  fixes s :: "'a tasks_scheme"
  assumes free: "locked (sm_lock sm) = 0" and c: "0 < sint (sm_count sm)"
  shows "\<exists>l. sem_wait sm s = Some (None, sm\<lparr>sm_count := sm_count sm - 1, sm_lock := l\<rparr>, s) \<and> locked l = 0"
proof -
  obtain l1 e1 l2 where 1: "sem_lock (sm, s) = Some (sm\<lparr>sm_lock := l1\<rparr>, s\<lparr>eflags := e1\<rparr>)" "locked l2 = 0"
    "\<forall>sm'. \<forall>s' :: 'a tasks_scheme. sm_lock sm' = l1 \<longrightarrow> eflags s' = e1 \<longrightarrow> sem_unlock (sm', s') = (sm'\<lparr>sm_lock := l2\<rparr>, s'\<lparr>eflags := eflags s\<rparr>)"
    by (rule sem_lock_free [OF free])
  let ?sm = "sm\<lparr>sm_lock := l2\<rparr>"
  have "locked (sm_lock ?sm) = 0" using 1(2) by simp
  then obtain l3 e3 l4 where 2: "sem_lock (?sm, s) = Some (?sm\<lparr>sm_lock := l3\<rparr>, s\<lparr>eflags := e3\<rparr>)" "locked l4 = 0"
    "\<forall>sm'. \<forall>s' :: 'a tasks_scheme. sm_lock sm' = l3 \<longrightarrow> eflags s' = e3 \<longrightarrow> sem_unlock (sm', s') = (sm'\<lparr>sm_lock := l4\<rparr>, s'\<lparr>eflags := eflags s\<rparr>)"
    by (rule sem_lock_free)
  then show ?thesis using 1 c by (intro exI [of _ l4]) (simp add: sem_wait_def)
qed

lemma sem_signal_wakes:
  fixes s :: "'a tasks_scheme"
  assumes free: "locked (sm_lock sm) = 0" and q: "queue_rep 4 (sm_queue sm, s) (bytes32 t # ts)" and t: "t \<noteq> 0"
  shows "\<exists>l Q. sem_signal sm s = Some (sm\<lparr>sm_queue := Q, sm_count := sm_count sm + 1, sm_lock := l\<rparr>,
        s\<lparr>kmem := store32 (kmem s) (t + F_state) TASK_READY\<rparr>) \<and> locked l = 0 \<and> queue_rep 4 (Q, s) ts"
proof -
  obtain l1 e1 l2 where 1: "sem_lock (sm, s) = Some (sm\<lparr>sm_lock := l1\<rparr>, s\<lparr>eflags := e1\<rparr>)" "locked l2 = 0"
    "\<forall>sm'. \<forall>s' :: 'a tasks_scheme. sm_lock sm' = l1 \<longrightarrow> eflags s' = e1 \<longrightarrow> sem_unlock (sm', s') = (sm'\<lparr>sm_lock := l2\<rparr>, s'\<lparr>eflags := eflags s\<rparr>)"
    by (rule sem_lock_free [OF free])
  have rep: "queue_rep 4 (Q, s\<lparr>eflags := e\<rparr>) xs = queue_rep 4 (Q, s) xs" for Q e xs
    by (simp add: queue_rep_def)
  then obtain Q where Q: "queue_pop (sm_queue sm) (replicate 4 0) 4 (s\<lparr>eflags := e1\<rparr>) = Some (0, bytes32 t, Q, s\<lparr>eflags := e1\<rparr>)"
      "queue_rep 4 (Q, s) ts"
    using queue_pop_ok [of 4 "sm_queue sm" "s\<lparr>eflags := e1\<rparr>" "bytes32 t" ts "replicate 4 0"] q by auto
  then show ?thesis using 1 t by (intro exI [of _ l2] exI [of _ Q]) (simp add: sem_signal_def set_field_def tset_def)
qed

section \<open>What a push keeps\<close>

lemma set_next_client: "set_list_next x v s = Some s' \<Longrightarrow> client s' = client s"
  by (auto simp: set_list_next_def client_def set_kmem_def split: if_splits)

lemma set_data_client: "set_list_data x v s = Some s' \<Longrightarrow> client s' = client s"
  by (auto simp: set_list_data_def client_def set_kmem_def split: if_splits)

lemma list_create_client:
  assumes rep: "mmu_rep s os" and n: "unat n + 80 < 2 ^ 32" and c: "list_create data n s = Some (p, s')"
  shows "client s' = client s"
proof -
  have eight: "unat (8 :: u32) + 80 < 2 ^ 32" by simp
  obtain x s1 where x: "mmu_mmap 8 s = Some (x, s1)" using mm.alloc_returns [OF rep eight] by blast
  have c1: "client s1 = client s" using mm.alloc_rest [OF rep eight x] .
  show ?thesis
  proof (cases "x = 0")
    case True
    then show ?thesis using c x c1 by (simp add: list_create_def)
  next
    case False
    have r1: "mmu_rep s1 (os(x \<mapsto> 8))" using mm.alloc_new [OF rep eight x False] by simp
    obtain d s2 where d: "mmu_mmap n s1 = Some (d, s2)" using mm.alloc_returns [OF r1 n] by blast
    have c2: "client s2 = client s" using mm.alloc_rest [OF r1 n d] c1 by simp
    have k: "client (set_kmem m s2) = client s2" for m by (simp add: client_def set_kmem_def)
    show ?thesis
      using c x d False c2 k set_data_client set_next_client
      by (cases "d = 0") (fastforce simp: list_create_def Option.bind_eq_Some_conv)+
  qed
qed

lemma queue_push_frame:
  assumes rep: "mmu_rep s os" and q: "queue_items os Q (kmem s) its" and n: "unat n + 80 < 2 ^ 32" "length d = unat n"
    and room: "list_create d n s = Some (p, s0)" "p \<noteq> 0"
  shows "\<exists>Q' s' os' y e. queue_push Q d n s = Some (Q', s') \<and> mmu_rep s' os' \<and> queue_items os' Q' (kmem s') (its @ [(y, e, d)]) \<and>
     os \<subseteq>\<^sub>m os' \<and> unchanged os (set (owned its)) (kmem s) (kmem s') \<and> client s' = client s"
proof -
  have c: "cells os (kmem s) (q_head Q) its 0" "distinct (owned its)" and t: "its \<noteq> [] \<Longrightarrow> q_tail Q = fst (last its)"
    and sz: "q_size Q = of_nat (length its)" using q by (auto simp: queue_items_def)
  have l: "unat n \<le> length d" "take (unat n) d = d" using n(2) by simp_all
  note h = cells_ptr [OF c(1) rep]
  show ?thesis
  proof (cases "its = []")
    case True
    show ?thesis
    proof (cases rule: list_create_cases [OF rep n(1) l(1)])
      case (1 os' s')
      then show ?thesis using room by simp
    next
      case (2 y e s')
      let ?Q = "Q\<lparr>q_head := y, q_tail := y, q_size := 1\<rparr>" and ?os = "os(y \<mapsto> 8, e \<mapsto> unat n)"
      have "queue_items ?os ?Q (kmem s') (its @ [(y, e, d)])" using 2 l True by (simp add: queue_items_def)
      moreover have "queue_push Q d n s = Some (?Q, s')" using 2(1) True h by (simp add: queue_push_def)
      moreover have "os \<subseteq>\<^sub>m ?os" using 2(3,4) by (auto simp: map_le_def)
      ultimately show ?thesis using 2(6,8) True list_create_client [OF rep n(1) 2(1)] by fastforce
    qed
  next
    case False
    obtain xs w f b where its: "its = xs @ (w, f, b) # []" using False by (metis append_butlast_last_id prod_cases3)
    show ?thesis
    proof (cases rule: list_insert_after_cases [OF rep c[unfolded its] n(1) l(1)])
      case (1 s')
      then show ?thesis using room by simp
    next
      case (2 y e s' s1)
      let ?Q = "Q\<lparr>q_tail := y, q_size := q_size Q + 1\<rparr>" and ?os = "os(y \<mapsto> 8, e \<mapsto> unat n)"
      have "queue_items ?os ?Q (kmem s') (its @ [(y, e, d)])" using 2(8,9) its l(2) sz by (simp add: queue_items_def)
      moreover have "queue_push Q d n s = Some (?Q, s')" using 2(3) h t its by (simp add: queue_push_def)
      moreover have "os \<subseteq>\<^sub>m ?os" using 2(4,5) by (auto simp: map_le_def)
      moreover have "unchanged os (set (owned its)) (kmem s) (kmem s')" using 2(7) its by (auto simp: unchanged_def)
      moreover have "client s' = client s"
      proof -
        obtain v s2 where "set_list_next y v s1 = Some s2" "set_list_next w y s2 = Some s'"
          using 2(1-3) by (auto simp: list_insert_after_def Option.bind_eq_Some_conv split: if_splits)
        then show ?thesis using set_next_client list_create_client [OF rep n(1) 2(1)] by metis
      qed
      ultimately show ?thesis using 2(6) by blast
    qed
  qed
qed

lemma client_cpu: "client s' = client (s :: 'a tasks_scheme) \<Longrightarrow> cpu_id s' = cpu_id s"
  by (cases s; cases s'; simp add: client_def)

section \<open>Waiting\<close>

text \<open>The current task has been marked waiting and yields.\<close>

lemma waiting_yields:
  assumes inv: "sched_inv s" and k: "running s k" and i: "ready (task_tab s) (kmem s) i" "i \<noteq> k" "0 < stat (task_tab s) (kmem s) i"
  shows "\<exists>n s'. task_yield (s\<lparr>kmem := store32 (kmem s) (task_tab s ! k + F_state) TASK_WAITING\<rparr>) = Some (Some (task_tab s ! k, task_tab s ! n), s') \<and>
     n \<noteq> k \<and> ready (task_tab s) (kmem s) n \<and> running s' n \<and> task_tab s' = task_tab s \<and> eflags s' = eflags s \<and> sched_inv s' \<and>
     (\<forall>j<64. task_tab s ! j \<noteq> 0 \<longrightarrow> tstate s' j = (if j = n then TASK_RUNNING else if j = k then TASK_WAITING else tstate s j))"
proof -
  let ?tab = "task_tab s" and ?t = "task_tab s ! k"
  let ?s1 = "s\<lparr>kmem := store32 (kmem s) (?t + F_state) TASK_WAITING\<rparr>"
  have tab: "tab_ok ?tab" and free: "rw_free (lock_tasklist ?s1)" and p: "prios_ok ?tab (kmem s)" using inv by (auto simp: sched_inv_def)
  have K: "k < 64" "?t \<noteq> 0" "task_get_current s = Some ?t" using k by (auto simp: running_def)
  obtain l1 e1 l2 where w: "write_lock ?s1 = Some (?s1\<lparr>lock_tasklist := l1, eflags := e1\<rparr>)"
      "\<forall>m. write_unlock (?s1\<lparr>lock_tasklist := l1, eflags := e1, kmem := m\<rparr>) = ?s1\<lparr>kmem := m, lock_tasklist := l2\<rparr>" "rw_free l2"
    by (rule write_section [OF free])
  define m where "m = store32 (store32 (kmem s) (?t + F_state) TASK_WAITING) (?t + F_dynamic_prio) 0"
  note F = field_load_store [OF tab K(1,2)]
  have view: "load32 m (?tab ! j + F_state) = (if j = k then TASK_WAITING else load32 (kmem s) (?tab ! j + F_state))"
    "load32 m (?tab ! j + F_static_prio) = load32 (kmem s) (?tab ! j + F_static_prio)"
    "j \<noteq> k \<Longrightarrow> load32 m (?tab ! j + F_dynamic_prio) = load32 (kmem s) (?tab ! j + F_dynamic_prio)"
    if "j < 64" "?tab ! j \<noteq> 0" for j
    using F [OF that] by (simp_all add: m_def)
  have R: "ready ?tab m j \<longleftrightarrow> ready ?tab (kmem s) j \<and> j \<noteq> k" for j
    using view(1) by (auto simp: ready_def TASK_READY_def TASK_WAITING_def split: if_splits)
  have D: "dyn ?tab m j = dyn ?tab (kmem s) j" "stat ?tab m j = stat ?tab (kmem s) j" if "j < 64" "?tab ! j \<noteq> 0" "j \<noteq> k" for j
    using view [OF that(1,2)] that(3) by (simp_all add: dyn_def stat_def)
  have S: "stat ?tab m j = stat ?tab (kmem s) j" if "j < 64" "?tab ! j \<noteq> 0" for j using view(2) [OF that] by (simp add: stat_def)
  have "prios_ok ?tab m" using p S D R unfolding prios_ok_def by (metis ready_def)
  define s2 where "s2 = s\<lparr>kmem := m, lock_tasklist := l2\<rparr>"
  have f2: "task_tab s2 = ?tab" "kmem s2 = m" "eflags s2 = eflags s" by (simp_all add: s2_def)
  have s2: "sched_inv s2" "running s2 k" "ready (task_tab s2) (kmem s2) i" "0 < stat (task_tab s2) (kmem s2) i"
    using inv k w(3) \<open>prios_ok ?tab m\<close> R i D(2) by (auto simp: s2_def sched_inv_def running_def task_get_current_def ready_def)
  have y: "task_yield ?s1 = schedule s2"
    using w K F by (simp add: task_yield_def task_get_current_def tget_def set_field_def tset_def s2_def m_def task_consts)
  obtain n s' where n: "schedule s2 = Some (if k = n then None else Some (?tab ! k, ?tab ! n), s')" "chosen ?tab m n" "running s' n"
      "task_tab s' = ?tab" "eflags s' = eflags s" "sched_inv s'"
      "\<forall>j<64. ?tab ! j \<noteq> 0 \<longrightarrow> tstate s' j = (if j = n then TASK_RUNNING else tstate s2 j)"
    using schedule_ok [OF s2] unfolding f2 by blast
  have nk: "n \<noteq> k" "ready ?tab (kmem s) n" using n(2) R by (auto simp: chosen_def)
  have "\<forall>j<64. ?tab ! j \<noteq> 0 \<longrightarrow> tstate s' j = (if j = n then TASK_RUNNING else if j = k then TASK_WAITING else tstate s j)"
    using n(7) view(1) by (simp add: tstate_def f2)
  then show ?thesis using y n nk by (intro exI [of _ n] exI [of _ s']) simp
qed

section \<open>Properties\<close>

text \<open>
  C14. A task that waits for a semaphore without a count blocks: \<open>sem_wait\<close> returns the switch to another task that is ready and is
  now marked running, the caller is marked waiting and is the last entry of the semaphore's queue, no other task changes its
  state, the invariant of the scheduler holds and the flags are as before. The tasks are objects of the heap that are not
  nodes of the queue, and the heap has room for one more entry.
\<close>

theorem sem_wait_blocks:
  fixes s :: "'a tasks_scheme"
  assumes "sched_inv s" "running s k" "ready (task_tab s) (kmem s) i" "i \<noteq> k" "0 < stat (task_tab s) (kmem s) i"
    and "locked (sm_lock sm) = 0" "sint (sm_count sm) \<le> 0"
    and "mmu_rep s os" "queue_items os (sm_queue sm) (kmem s) its" "\<forall>t\<in>set (task_tab s) - {0}. os t = Some 84 \<and> t \<notin> set (owned its)"
    and "\<forall>e. \<exists>p s0. list_create (bytes32 (task_tab s ! k)) 4 (s\<lparr>eflags := e\<rparr>) = Some (p, s0) \<and> p \<noteq> 0"
  shows "\<exists>n sm' s'. sem_wait sm s = Some (Some (task_tab s ! k, task_tab s ! n), sm', s') \<and>
     n \<noteq> k \<and> ready (task_tab s) (kmem s) n \<and> running s' n \<and> sched_inv s' \<and> eflags s' = eflags s \<and> task_tab s' = task_tab s \<and>
     (\<forall>j<64. task_tab s ! j \<noteq> 0 \<longrightarrow> tstate s' j = (if j = n then TASK_RUNNING else if j = k then TASK_WAITING else tstate s j)) \<and>
     locked (sm_lock sm') = 0 \<and> sm_count sm' = sm_count sm \<and>
     (\<exists>e s1 os' x d. queue_push (sm_queue sm) (bytes32 (task_tab s ! k)) 4 (s\<lparr>eflags := e\<rparr>) = Some (sm_queue sm', s1) \<and>
        queue_items os' (sm_queue sm') (kmem s1) (its @ [(x, d, bytes32 (task_tab s ! k))]))"
proof -
  let ?tab = "task_tab s" and ?t = "task_tab s ! k"
  have tab: "tab_ok ?tab" using assms(1) by (simp add: sched_inv_def)
  obtain l1 e1 l2 where 1: "sem_lock (sm, s) = Some (sm\<lparr>sm_lock := l1\<rparr>, s\<lparr>eflags := e1\<rparr>)" "locked l2 = 0"
    "\<forall>sm'. \<forall>s' :: 'a tasks_scheme. sm_lock sm' = l1 \<longrightarrow> eflags s' = e1 \<longrightarrow> sem_unlock (sm', s') = (sm'\<lparr>sm_lock := l2\<rparr>, s'\<lparr>eflags := eflags s\<rparr>)"
    by (rule sem_lock_free [OF assms(6)])
  let ?sm = "sm\<lparr>sm_lock := l2\<rparr>"
  have "locked (sm_lock ?sm) = 0" using 1(2) by simp
  then obtain l3 e3 l4 where 2: "sem_lock (?sm, s) = Some (?sm\<lparr>sm_lock := l3\<rparr>, s\<lparr>eflags := e3\<rparr>)" "locked l4 = 0"
    "\<forall>sm'. \<forall>s' :: 'a tasks_scheme. sm_lock sm' = l3 \<longrightarrow> eflags s' = e3 \<longrightarrow> sem_unlock (sm', s') = (sm'\<lparr>sm_lock := l4\<rparr>, s'\<lparr>eflags := eflags s\<rparr>)"
    by (rule sem_lock_free)
  obtain p s0 where room: "list_create (bytes32 ?t) 4 (s\<lparr>eflags := e3\<rparr>) = Some (p, s0)" "p \<noteq> 0" using assms(11) by blast
  obtain Q s1 os' x d where push: "queue_push (sm_queue sm) (bytes32 ?t) 4 (s\<lparr>eflags := e3\<rparr>) = Some (Q, s1)"
      "queue_items os' Q (kmem s1) (its @ [(x, d, bytes32 ?t)])" "unchanged os (set (owned its)) (kmem s) (kmem s1)"
      "client s1 = client (s\<lparr>eflags := e3\<rparr>)"
    using queue_push_frame [of "s\<lparr>eflags := e3\<rparr>" os "sm_queue sm" its 4 "bytes32 ?t" p s0] assms(8,9) room by auto
  have C: "task_tab s1 = ?tab" "lock_tasklist s1 = lock_tasklist s" "eflags s1 = e3" "null_array s1 = null_array s" "cpu_id s1 = cpu_id s"
    using client_tasks [OF push(4)] client_cpu [OF push(4)] by simp_all
  have view: "load32 (kmem s1) (?tab ! j + g) = load32 (kmem s) (?tab ! j + g)" if "j < 64" "?tab ! j \<noteq> 0" "g \<in> task_fields" for j g
  proof -
    have "?tab ! j \<in> set ?tab" using that(1) tab by (simp add: tab_ok_def)
    then show ?thesis
      using unchanged_field [OF push(3), of "?tab ! j" 84 "unat g"] assms(10) that(2) field_bounds [OF that(3)] by simp
  qed
  let ?s2 = "s1\<lparr>eflags := eflags s\<rparr>"
  have v: "same_view ?tab (kmem s) (kmem ?s2)" using view by (simp add: same_view_def)
  note V = same_view_reads [OF v]
  have s2: "sched_inv ?s2" "running ?s2 k" "ready (task_tab ?s2) (kmem ?s2) i" "0 < stat (task_tab ?s2) (kmem ?s2) i"
    using assms(1-3,5) V C by (auto simp: sched_inv_def running_def task_get_current_def ready_def)
  obtain n s' where n: "task_yield (?s2\<lparr>kmem := store32 (kmem ?s2) (?t + F_state) TASK_WAITING\<rparr>) = Some (Some (?t, ?tab ! n), s')"
      "n \<noteq> k" "ready ?tab (kmem ?s2) n" "running s' n" "task_tab s' = ?tab" "eflags s' = eflags s" "sched_inv s'"
      "\<forall>j<64. ?tab ! j \<noteq> 0 \<longrightarrow> tstate s' j = (if j = n then TASK_RUNNING else if j = k then TASK_WAITING else tstate ?s2 j)"
    using waiting_yields [OF s2(1-3) assms(4) s2(4)] C(1) by auto
  have K: "task_get_current s = Some ?t" "?t \<noteq> 0" using assms(2) by (auto simp: running_def)
  have run: "sem_wait sm s = Some (Some (?t, ?tab ! n), ?sm\<lparr>sm_queue := Q, sm_lock := l4\<rparr>, s')"
    using 1 2 assms(7) K push(1) n(1) C(3) by (simp add: sem_wait_def set_field_def tset_def)
  have "\<forall>j<64. ?tab ! j \<noteq> 0 \<longrightarrow> tstate s' j = (if j = n then TASK_RUNNING else if j = k then TASK_WAITING else tstate s j)"
    using n(8) view C(1) by (simp add: tstate_def)
  moreover have "\<exists>e s1 os' x d. queue_push (sm_queue sm) (bytes32 ?t) 4 (s\<lparr>eflags := e\<rparr>) = Some (Q, s1) \<and>
      queue_items os' Q (kmem s1) (its @ [(x, d, bytes32 ?t)])" using push(1,2) by blast
  ultimately show ?thesis
    using run n(2-7) V(1) 2(2) by (intro exI [of _ n] exI [of _ "?sm\<lparr>sm_queue := Q, sm_lock := l4\<rparr>"] exI [of _ s']) simp
qed

text \<open>
  C34. One \<open>sem_signal\<close> lets two tasks through: with a task \<open>t\<close> at the head of the queue the call makes \<open>t\<close> ready, which then returns
  from its own \<open>sem_wait\<close>, and also increments the count, so that the next \<open>sem_wait\<close> of any other task returns at once.
  Both together leave the count as it was.
\<close>

theorem sem_signal_admits_two:
  assumes "locked (sm_lock sm) = 0" "queue_rep 4 (sm_queue sm, s) (bytes32 t # ts)" "t \<noteq> 0" "sm_count sm = 0"
  shows "\<exists>sm1 s1 sm2. sem_signal sm s = Some (sm1, s1) \<and> load32 (kmem s1) (t + F_state) = TASK_READY \<and>
     sem_wait sm1 s1 = Some (None, sm2, s1) \<and> sm_count sm2 = 0 \<and> queue_rep 4 (sm_queue sm2, s) ts"
proof -
  obtain l Q where 1: "sem_signal sm s = Some (sm\<lparr>sm_queue := Q, sm_count := 1, sm_lock := l\<rparr>,
        s\<lparr>kmem := store32 (kmem s) (t + F_state) TASK_READY\<rparr>)" "locked l = 0" "queue_rep 4 (Q, s) ts"
    using sem_signal_wakes [OF assms(1-3)] assms(4) by auto
  let ?sm = "sm\<lparr>sm_queue := Q, sm_count := 1, sm_lock := l\<rparr>" and ?s = "s\<lparr>kmem := store32 (kmem s) (t + F_state) TASK_READY\<rparr>"
  obtain l' where "sem_wait ?sm ?s = Some (None, ?sm\<lparr>sm_count := 0, sm_lock := l'\<rparr>, ?s)"
    using sem_wait_passes [of ?sm ?s] 1(2) by auto
  then show ?thesis using 1(1,3) by auto
qed

section \<open>Several processors\<close>

text \<open>
  The critical sections of \<open>sem_wait\<close> as steps of several processors: the test of the count and the decrement are under the lock each,
  but the lock is released in between.
\<close>

datatype wait_pc = Test | Passed | Blocked | Entered

inductive wait_step :: "nat \<Rightarrow> u32 \<times> (nat \<Rightarrow> wait_pc) \<Rightarrow> u32 \<times> (nat \<Rightarrow> wait_pc) \<Rightarrow> bool" for c where
  test: "q c = Test \<Longrightarrow> wait_step c (n, q) (n, q(c := if sint n > 0 then Passed else Blocked))"
| take: "q c = Passed \<Longrightarrow> wait_step c (n, q) (n - 1, q(c := Entered))"

inductive wait_reach :: "u32 \<times> (nat \<Rightarrow> wait_pc) \<Rightarrow> u32 \<times> (nat \<Rightarrow> wait_pc) \<Rightarrow> bool" for s where
  here: "wait_reach s s"
| step: "wait_reach s s' \<Longrightarrow> wait_step c s' s'' \<Longrightarrow> wait_reach s s''"

text \<open>
  A semaphore with a count of 1 admits any number of processors: for every number of processors there is an interleaving of
  their calls of \<open>sem_wait\<close> after which all of them have entered.
\<close>

theorem sem_wait_admits_all:
  "\<exists>c q. wait_reach (1, \<lambda>_. Test) (c, q) \<and> {..<n} \<subseteq> {i. q i = Entered}"
proof -
  have tests: "wait_reach (1, \<lambda>_. Test) (1, \<lambda>i. if i < k then Passed else Test)" for k
  proof (induction k)
    case 0
    show ?case using wait_reach.here [of "(1, \<lambda>_. Test)"] by simp
  next
    case (Suc k)
    have "(\<lambda>i. if i < Suc k then Passed else Test) = (\<lambda>i. if i < k then Passed else Test)(k := Passed)"
      by (auto simp: fun_eq_iff less_Suc_eq)
    then show ?case
      using wait_reach.step [OF Suc wait_step.test [of "\<lambda>i. if i < k then Passed else Test" k 1]] by simp
  qed
  have "wait_reach (1, \<lambda>_. Test) (1 - of_nat k, \<lambda>i. if i < k then Entered else if i < n then Passed else Test)" if "k \<le> n" for k
    using that
  proof (induction k)
    case 0
    show ?case using tests [of n] by simp
  next
    case (Suc k)
    let ?q = "\<lambda>k i. if i < k then Entered else if i < n then Passed else Test"
    have "?q (Suc k) = (?q k)(k := Entered)" by (auto simp: fun_eq_iff less_Suc_eq)
    moreover have "(1 - of_nat k - 1 :: u32) = 1 - of_nat (Suc k)" by simp
    ultimately show ?case
      using wait_reach.step [OF Suc.IH wait_step.take [of "?q k" k "1 - of_nat k"]] Suc.prems by simp
  qed
  from this [of n] show ?thesis by (intro exI) auto
qed

text \<open>Two tasks on the heap of the sample, the first of them running.\<close>

definition sample_second :: "mem \<Rightarrow> tasks" where
  "sample_second m = sample_empty\<lparr>mmulock := \<lparr>locked = 0, is_irq_enabled_when_locked = 512\<rparr>,
     majors := [0x808000 \<mapsto> \<lparr>maj_prev = 0, maj_next = 0, pages = 16, maj_size = 65536, usage = 460, first = 0x808018\<rparr>],
     minors := [0x808018 \<mapsto> \<lparr>min_prev = 0, min_next = 0x8080b4, block = 0x808000, magic = LIBALLOC_MAGIC, min_size = 132, req_size = 100\<rparr>,
       0x8080b4 \<mapsto> \<lparr>min_prev = 0x808018, min_next = 0x808140, block = 0x808000, magic = LIBALLOC_MAGIC, min_size = 116, req_size = 84\<rparr>,
       0x808140 \<mapsto> \<lparr>min_prev = 0x8080b4, min_next = 0, block = 0x808000, magic = LIBALLOC_MAGIC, min_size = 116, req_size = 84\<rparr>],
     l_bestBet := 0x808000, l_inuse := 232, kmem := m\<rparr>"

lemma sample_second_mmap: "\<exists>m'. mmu_mmap 84 (sample_first m (lock_tasklist sample_empty)) = Some (0x808170, sample_second m')"
  unfolding sample_empty_unfold sample_first_def sample_second_def by (simp add: run_mmap)

definition sample_pair :: "u32 list" where
  "sample_pair = [0x8080e0, 0x808170] @ replicate 62 0"

definition sample_wait :: "mem \<Rightarrow> tasks" where
  "sample_wait m = sample_second (store32 (store32 (store32 (store32 (store32 (store32 m 0x808114 2) 0x808118 5) 0x80811c 1)
     0x8081a4 0) 0x8081a8 7) 0x8081ac 3)\<lparr>task_tab := sample_pair, null_array := replicate 4 0x8080e0\<rparr>"

lemma sample_wait_create: "\<exists>p s0. list_create (bytes32 0x8080e0) 4 (sample_wait m\<lparr>eflags := e\<rparr>) = Some (p, s0) \<and> p \<noteq> 0"
  unfolding sample_wait_def sample_second_def sample_empty_unfold
  by (simp add: run_mmap malloc_case4.simps [of "0x808000" "0x808140"] malloc_case4.simps [of "0x808000" "0x8081CC"]
      list_create_def memcpy_to_def set_list_data_def set_list_next_def bytes32_def set_kmem_def)

lemma sample_wait_fields [simp]:
  "task_tab (sample_wait m) = sample_pair" "lock_tasklist (sample_wait m) = rwlock_init undefined"
  "null_array (sample_wait m) = replicate 4 0x8080e0" "cpu_id (sample_wait m) = 0"
  by (simp_all add: sample_wait_def sample_second_def sample_empty_def liballoc.extend_def tasks.fields_def)

lemma mmu_rep_tab [simp]: "mmu_rep (s\<lparr>task_tab := t, null_array := a\<rparr>) os = mmu_rep s os"
  by (simp add: mmu_rep_def heap_inv_def heap_ok_def hooks_inv_def allocated_def frame_inv_def pf_wf_def pg_inv_def)

definition sample_objects :: objects where
  "sample_objects = [0x808040 \<mapsto> 100, 0x8080e0 \<mapsto> 84, 0x808170 \<mapsto> 84]"

lemma sample_store:
  assumes "mmu_rep (sample_second m) sample_objects" "(p, k) \<in> {(0x8080e0, 52), (0x8080e0, 56), (0x8080e0, 60), (0x808170, 52), (0x808170, 56), (0x808170, 60)}"
  shows "mmu_rep (sample_second (store32 m (p + of_nat k) v)) sample_objects"
proof -
  have p: "sample_objects p = Some 84" "k + 4 \<le> 84" "4 dvd k" using assms(2) by (auto simp: sample_objects_def)
  have "set_kmem m' (sample_second m) = sample_second m'" "kmem (sample_second m) = m" for m' m by (simp_all add: sample_second_def set_kmem_def)
  then show ?thesis using mm.field_store(1) [OF assms(1) p, of v] by simp
qed

lemma sample_wait_rep: "\<exists>m. mmu_rep (sample_wait m) sample_objects"
proof -
  let ?l = "lock_tasklist sample_empty"
  obtain m1 where 1: "mmu_mmap 84 sample_empty = Some (0x8080e0, sample_first m1 ?l)"
    using sample_empty_mmap [of ?l] by (auto simp: task_struct_size_def)
  have r1: "mmu_rep (sample_first m1 ?l) [0x808040 \<mapsto> 100, 0x8080e0 \<mapsto> 84]"
    using mm.alloc_new [OF sample_empty_rep _ 1] by simp
  obtain m2 where 2: "mmu_mmap 84 (sample_first m1 ?l) = Some (0x808170, sample_second m2)" using sample_second_mmap by blast
  have r2: "mmu_rep (sample_second m2) sample_objects" using mm.alloc_new [OF r1 _ 2] by (simp add: sample_objects_def)
  note st = sample_store [OF r2, of "0x8080e0" 52 2, THEN sample_store, of "0x8080e0" 56 5, THEN sample_store, of "0x8080e0" 60 1,
      THEN sample_store, of "0x808170" 52 0, THEN sample_store, of "0x808170" 56 7, THEN sample_store, of "0x808170" 60 3]
  have "mmu_rep (sample_wait m2) sample_objects" unfolding sample_wait_def using st by simp
  then show ?thesis by blast
qed

lemma sample_pair_nth: "i < 64 \<Longrightarrow> sample_pair ! i = (if i = 0 then 0x8080e0 else if i = 1 then 0x808170 else 0)" "length sample_pair = 64"
  by (auto simp: sample_pair_def nth_append nth_Cons' split: if_splits)

theorem sem_wait_blocks_witness:
  "\<exists>m sm' s'. sem_wait (sem_init undefined 0) (sample_wait m) = Some (Some (0x8080e0, 0x808170), sm', s') \<and> tstate s' 0 = TASK_WAITING"
proof -
  obtain m where rep: "mmu_rep (sample_wait m) sample_objects" using sample_wait_rep by blast
  let ?s = "sample_wait m" and ?tab = sample_pair
  have L: "load32 (kmem ?s) 0x808114 = 2" "load32 (kmem ?s) 0x808118 = 5" "load32 (kmem ?s) 0x80811c = 1" "load32 (kmem ?s) 0x8081a4 = 0"
      "load32 (kmem ?s) 0x8081a8 = 7" "load32 (kmem ?s) 0x8081ac = 3"
    by (simp_all add: sample_wait_def sample_second_def load32_store32)
  have "tab_ok ?tab" by (auto simp: tab_ok_def sample_pair_nth in_set_conv_nth object_bytes_def)
  moreover have "prios_ok ?tab (kmem ?s)"
    unfolding prios_ok_def ready_def stat_def dyn_def task_consts by (simp add: sample_pair_nth L cong: conj_cong)
  ultimately have inv: "sched_inv ?s" by (simp add: sched_inv_def rw_free_def rwlock_init_def)
  have run: "running ?s 0" by (simp add: running_def task_get_current_def sample_pair_nth)
  have r1: "ready (task_tab ?s) (kmem ?s) 1" "0 < stat (task_tab ?s) (kmem ?s) 1"
    by (simp_all add: ready_def stat_def task_consts L sample_pair_nth)
  have q: "queue_items sample_objects (sm_queue (sem_init undefined 0)) (kmem ?s) []" by (simp add: queue_items_def sem_init_def)
  have t: "\<forall>t\<in>set (task_tab ?s) - {0}. sample_objects t = Some 84 \<and> t \<notin> set (owned [])" by (auto simp: sample_objects_def sample_pair_def)
  obtain n sm' s' where n: "sem_wait (sem_init undefined 0) ?s = Some (Some (task_tab ?s ! 0, task_tab ?s ! n), sm', s')" "n \<noteq> 0"
      "ready (task_tab ?s) (kmem ?s) n" "\<forall>j<64. task_tab ?s ! j \<noteq> 0 \<longrightarrow> tstate s' j = (if j = n then TASK_RUNNING else if j = 0 then TASK_WAITING else tstate ?s j)"
    using sem_wait_blocks [OF inv run r1(1) _ r1(2) _ _ rep q t] sample_wait_create [where m = m]
    by (auto simp: sem_init_def spinlock_init_def sample_pair_nth)
  have "n = 1" using n(2,3) by (auto simp: ready_def sample_pair_nth split: if_splits)
  then show ?thesis using n(1,4) by (intro exI [of _ m] exI [of _ sm'] exI [of _ s']) (simp add: sample_pair_nth)
qed

theorem sem_signal_admits_two_witness:
  "\<exists>(s :: tasks) sm sm1 s1 sm2. queue_rep 4 (sm_queue sm, s) [bytes32 0x8080e0] \<and> sem_signal sm s = Some (sm1, s1) \<and>
     load32 (kmem s1) (0x8080e0 + F_state) = TASK_READY \<and> sem_wait sm1 s1 = Some (None, sm2, s1)"
proof -
  obtain m where rep: "mmu_rep (sample_wait m) sample_objects" using sample_wait_rep by blast
  let ?Q = "\<lparr>q_head = 0, q_tail = 0, q_size = 0\<rparr>"
  have e: "(sample_wait m)\<lparr>eflags := eflags (sample_wait m)\<rparr> = sample_wait m" by simp
  have "queue_rep 4 (?Q, sample_wait m) []" using rep by (auto simp: queue_rep_def queue_items_def)
  moreover have "queue_room 4 (bytes32 0x8080e0) (?Q, sample_wait m)"
    using sample_wait_create [where m = m and e = "eflags (sample_wait m)", unfolded e] by (simp add: queue_room_def)
  ultimately obtain Q and s :: tasks where q: "queue_rep 4 (Q, s) [bytes32 0x8080e0]"
    using queue_push_ok [of 4 ?Q "sample_wait m" "[]" "bytes32 0x8080e0"] by auto
  let ?sm = "(sem_init undefined 0)\<lparr>sm_queue := Q\<rparr>"
  have sm: "locked (sm_lock ?sm) = 0" "queue_rep 4 (sm_queue ?sm, s) [bytes32 0x8080e0]" "(0x8080e0 :: u32) \<noteq> 0" "sm_count ?sm = 0"
    using q by (simp_all add: sem_init_def spinlock_init_def)
  from sem_signal_admits_two [OF sm] show ?thesis using sm(2) by blast
qed

end
