(* ===== verification/Ports.thy ===== *)
theory Ports
  imports Prelude
begin

text \<open>
  The port instructions of \<^verbatim>\<open>kernel/drivers/io.S\<close> and the two drivers that only use them: the interval timer
  (\<^verbatim>\<open>kernel/drivers/pit.c\<close>) and the serial line (\<^verbatim>\<open>kernel/drivers/serial.c\<close>). The state is the log of the accesses. What a
  port answers is up to the device: a function \<open>dev\<close> of the accesses so far and the port, a parameter of every
  definition that reads a port.
\<close>

section \<open>Port accesses\<close>

datatype io = Out u16 u8 | In u16 u8 | Outw u16 u16 | Inw u16 u16

type_synonym device = "io list \<Rightarrow> u16 \<Rightarrow> u16"

record ports =
  port_log :: "io list"

definition outb :: "u16 \<Rightarrow> u8 \<Rightarrow> 'a ports_scheme \<Rightarrow> 'a ports_scheme" where
  "outb port data s = s\<lparr>port_log := port_log s @ [Out port data]\<rparr>"

definition outw :: "u16 \<Rightarrow> u16 \<Rightarrow> 'a ports_scheme \<Rightarrow> 'a ports_scheme" where
  "outw port data s = s\<lparr>port_log := port_log s @ [Outw port data]\<rparr>"

definition inb :: "device \<Rightarrow> u16 \<Rightarrow> 'a ports_scheme \<Rightarrow> u8 \<times> 'a ports_scheme" where
  "inb dev port s = (let v = ucast (dev (port_log s) port) in (v, s\<lparr>port_log := port_log s @ [In port v]\<rparr>))"

definition inw :: "device \<Rightarrow> u16 \<Rightarrow> 'a ports_scheme \<Rightarrow> u16 \<times> 'a ports_scheme" where
  "inw dev port s = (let v = dev (port_log s) port in (v, s\<lparr>port_log := port_log s @ [Inw port v]\<rparr>))"

text \<open>The bytes a log has written to a port.\<close>

fun outs :: "u16 \<Rightarrow> io list \<Rightarrow> u8 list" where
  "outs p [] = []"
| "outs p (Out q v # l) = (if q = p then v # outs p l else outs p l)"
| "outs p (_ # l) = outs p l"

lemma outs_append [simp]: "outs p (l @ l') = outs p l @ outs p l'"
  by (induction p l rule: outs.induct) auto

lemma port_log_access [simp]:
  "port_log (outb p v s) = port_log s @ [Out p v]" "port_log (outw p w s) = port_log s @ [Outw p w]"
  "port_log (snd (inb dev p s)) = port_log s @ [In p (ucast (dev (port_log s) p))]"
  "fst (inb dev p s) = ucast (dev (port_log s) p)"
  by (simp_all add: outb_def outw_def inb_def Let_def)

section \<open>The interval timer\<close>

definition PIT_DATA_CH0_PORT :: u16 where "PIT_DATA_CH0_PORT = 0x40"
definition PIT_COMMAND_PORT :: u16 where "PIT_COMMAND_PORT = 0x43"
definition PIT_INPUT_FREQ :: u32 where "PIT_INPUT_FREQ = 1193182"

definition pit_setfreq :: "u32 \<Rightarrow> 'a ports_scheme \<Rightarrow> 'a ports_scheme" where
  "pit_setfreq hz s =
     (if hz < 20 then s
      else if hz > PIT_INPUT_FREQ then s
      else let divisor = ucast (PIT_INPUT_FREQ div hz) :: u16;
               l = ucast (divisor AND 0xff) :: u8;
               h = ucast (drop_bit 8 divisor AND 0xff) :: u8;
               s = outb PIT_COMMAND_PORT 0x36 s;
               s = outb PIT_DATA_CH0_PORT l s
           in outb PIT_DATA_CH0_PORT h s)"

lemma unat_byte_of_u16: "unat (ucast ((d :: u16) AND 0xff) :: u8) = unat d mod 256"
proof -
  have "d AND 0xff = take_bit 8 d" by (simp add: take_bit_eq_mask mask_eq_exp_minus_1)
  then show ?thesis by (simp add: unsigned_ucast_eq take_bit_eq_mod unat_mod)
qed

section \<open>The serial line\<close>

definition SERIAL_COM1_BASE :: u16 where "SERIAL_COM1_BASE = 0x3f8"
definition SERIAL_DATA_PORT :: "u16 \<Rightarrow> u16" where "SERIAL_DATA_PORT base = base"
definition SERIAL_FIFO_COMMAND_PORT :: "u16 \<Rightarrow> u16" where "SERIAL_FIFO_COMMAND_PORT base = base + 2"
definition SERIAL_LINE_COMMAND_PORT :: "u16 \<Rightarrow> u16" where "SERIAL_LINE_COMMAND_PORT base = base + 3"
definition SERIAL_MODEM_COMMAND_PORT :: "u16 \<Rightarrow> u16" where "SERIAL_MODEM_COMMAND_PORT base = base + 4"
definition SERIAL_LINE_STATUS_PORT :: "u16 \<Rightarrow> u16" where "SERIAL_LINE_STATUS_PORT base = base + 5"
definition SERIAL_LINE_ENABLE_DLAB :: u8 where "SERIAL_LINE_ENABLE_DLAB = 0x80"

definition serial_configure_baud_rate :: "u16 \<Rightarrow> u16 \<Rightarrow> 'a ports_scheme \<Rightarrow> 'a ports_scheme" where
  "serial_configure_baud_rate com divisor s =
     (let s = outb (SERIAL_LINE_COMMAND_PORT com) SERIAL_LINE_ENABLE_DLAB s;
          s = outb (SERIAL_DATA_PORT com) (ucast (drop_bit 8 divisor AND 0x00ff)) s
      in outb (SERIAL_DATA_PORT com) (ucast (divisor AND 0x00ff)) s)"

definition serial_configure_line :: "u16 \<Rightarrow> u8 \<Rightarrow> 'a ports_scheme \<Rightarrow> 'a ports_scheme" where
  "serial_configure_line com conf s = outb (SERIAL_LINE_COMMAND_PORT com) conf s"

definition serial_configure_buffer :: "u16 \<Rightarrow> u8 \<Rightarrow> 'a ports_scheme \<Rightarrow> 'a ports_scheme" where
  "serial_configure_buffer com conf s = outb (SERIAL_FIFO_COMMAND_PORT com) conf s"

definition serial_configure_modem :: "u16 \<Rightarrow> u8 \<Rightarrow> 'a ports_scheme \<Rightarrow> 'a ports_scheme" where
  "serial_configure_modem com conf s = outb (SERIAL_MODEM_COMMAND_PORT com) conf s"

definition serial_is_transmit_fifo_empty :: "device \<Rightarrow> u16 \<Rightarrow> 'a ports_scheme \<Rightarrow> u8 \<times> 'a ports_scheme" where
  "serial_is_transmit_fifo_empty dev com s = (let (v, s) = inb dev (SERIAL_LINE_STATUS_PORT com) s in (v AND 0x20, s))"

text \<open>The loop that waits for the device, and the loop over the bytes.\<close>

partial_function (option) serial_wait :: "device \<Rightarrow> u16 \<Rightarrow> 'a ports_scheme \<Rightarrow> 'a ports_scheme option" where
  "serial_wait dev com s =
     (let (r, s) = serial_is_transmit_fifo_empty dev com s in if r = 0 then serial_wait dev com s else Some s)"

definition serial_write :: "device \<Rightarrow> u16 \<Rightarrow> u8 list \<Rightarrow> nat \<Rightarrow> 'a ports_scheme \<Rightarrow> 'a ports_scheme option" where
  "serial_write dev com data len s =
     forM [0..<len] (\<lambda>i s. do { s \<leftarrow> serial_wait dev com s; b \<leftarrow> arr_get data i; Some (outb (SERIAL_DATA_PORT com) b s) }) s"

definition serial_defconfig :: "u16 \<Rightarrow> 'a ports_scheme \<Rightarrow> 'a ports_scheme" where
  "serial_defconfig com s =
     (let s = serial_configure_baud_rate com 0x01 s;
          s = serial_configure_line com 0x03 s;
          s = serial_configure_buffer com 0xc7 s
      in serial_configure_modem com 0x03 s)"

text \<open>The log behind \<open>k\<close> reads of a port, and a device that becomes ready to transmit after a finite number of reads.\<close>

fun polled :: "device \<Rightarrow> u16 \<Rightarrow> nat \<Rightarrow> io list \<Rightarrow> io list" where
  "polled dev p 0 l = l"
| "polled dev p (Suc k) l = polled dev p k (l @ [In p (ucast (dev l p))])"

definition transmits :: "device \<Rightarrow> u16 \<Rightarrow> bool" where
  "transmits dev com \<longleftrightarrow> (let p = SERIAL_LINE_STATUS_PORT com in
     \<forall>l. \<exists>k. (ucast (dev (polled dev p k l) p) :: u8) AND 0x20 \<noteq> 0)"

lemma serial_wait_polls:
  "(ucast (dev (polled dev (SERIAL_LINE_STATUS_PORT com) k (port_log s)) (SERIAL_LINE_STATUS_PORT com)) :: u8) AND 0x20 \<noteq> 0 \<Longrightarrow>
   \<exists>s'. serial_wait dev com s = Some s' \<and> (\<forall>p. outs p (port_log s') = outs p (port_log s))"
proof (induction k arbitrary: s)
  case 0
  then show ?case
    by (subst serial_wait.simps) (simp add: serial_is_transmit_fifo_empty_def inb_def Let_def)
next
  case (Suc k)
  let ?p = "SERIAL_LINE_STATUS_PORT com"
  let ?s = "s\<lparr>port_log := port_log s @ [In ?p (ucast (dev (port_log s) ?p))]\<rparr>"
  obtain s' where "serial_wait dev com ?s = Some s'" "\<forall>p. outs p (port_log s') = outs p (port_log s)"
    using Suc.IH [of ?s] Suc.prems by auto
  then show ?case by (subst serial_wait.simps) (simp add: serial_is_transmit_fifo_empty_def inb_def Let_def)
qed

section \<open>Properties\<close>

text \<open>
  \<open>pit_setfreq\<close> programs the divisor it means to: for every frequency from 20 to 1193182 Hz the two bytes written to
  channel 0 behind the command byte are the 16-bit divisor \<open>1193182 div hz\<close>, which is not 0 and is not cut off; for every other
  frequency no port is written.
\<close>

theorem pit_setfreq_programs_divisor:
  "if 20 \<le> unat hz \<and> unat hz \<le> 1193182
   then \<exists>l h. port_log (pit_setfreq hz s) = port_log s @ [Out 0x43 0x36, Out 0x40 l, Out 0x40 h] \<and>
          unat l + 256 * unat h = 1193182 div unat hz \<and> 0 < 1193182 div unat hz
   else pit_setfreq hz s = s"
proof (cases "20 \<le> unat hz \<and> unat hz \<le> 1193182")
  case True
  let ?d = "ucast (PIT_INPUT_FREQ div hz) :: u16"
  have "1193182 div unat hz \<le> 1193182 div 20" using True by (intro div_le_mono2) simp_all
  then have small: "1193182 div unat hz < 65536" by simp
  have d: "unat ?d = 1193182 div unat hz"
    using small by (simp add: PIT_INPUT_FREQ_def unsigned_ucast_eq unat_div take_bit_nat_eq_self)
  have "unat (drop_bit 8 ?d) = unat ?d div 256" by (simp add: drop_bit_eq_div unat_div)
  then have h: "unat (ucast (drop_bit 8 ?d AND 0xff) :: u8) = unat ?d div 256 mod 256" by (simp add: unat_byte_of_u16)
  have "unat ?d div 256 < 256" using small unfolding d by simp
  then have sum: "unat (ucast (?d AND 0xff) :: u8) + 256 * unat (ucast (drop_bit 8 ?d AND 0xff) :: u8) = 1193182 div unat hz"
    using d h by (simp add: unat_byte_of_u16)
  have "0 < 1193182 div unat hz" using True by (simp add: div_greater_zero_iff)
  moreover have "\<not> hz < 20" "\<not> hz > PIT_INPUT_FREQ" using True by (simp_all add: word_less_nat_alt PIT_INPUT_FREQ_def)
  ultimately show ?thesis
    using True sum by (simp add: pit_setfreq_def Let_def PIT_COMMAND_PORT_def PIT_DATA_CH0_PORT_def)
next
  case False
  then have "hz < 20 \<or> hz > PIT_INPUT_FREQ" by (auto simp: word_less_nat_alt PIT_INPUT_FREQ_def)
  then show ?thesis using False by (auto simp: pit_setfreq_def)
qed

text \<open>
  \<open>serial_write\<close> returns on every line whose device becomes ready again and again, and has then sent exactly the bytes of
  the buffer in their order.
\<close>

theorem serial_write_sends:
  assumes "transmits dev com" "len \<le> length data"
  shows "\<exists>s'. serial_write dev com data len s = Some s' \<and>
     outs (SERIAL_DATA_PORT com) (port_log s') = outs (SERIAL_DATA_PORT com) (port_log s) @ take len data"
proof -
  let ?o = "\<lambda>s. outs (SERIAL_DATA_PORT com) (port_log s)"
  have "\<exists>s'. serial_write dev com data len s = Some s' \<and> ?o s' = ?o s @ take len data"
    unfolding serial_write_def
  proof (rule forM_invariant)
    fix i s1 assume i: "0 \<le> i" "i < len" and I: "?o s1 = ?o s @ take i data"
    obtain k where "(ucast (dev (polled dev (SERIAL_LINE_STATUS_PORT com) k (port_log s1)) (SERIAL_LINE_STATUS_PORT com)) :: u8) AND 0x20 \<noteq> 0"
      using assms(1) by (auto simp: transmits_def Let_def)
    then obtain s2 where "serial_wait dev com s1 = Some s2" "?o s2 = ?o s1" using serial_wait_polls by blast
    then show "\<exists>s'. do { s \<leftarrow> serial_wait dev com s1; b \<leftarrow> arr_get data i; Some (outb (SERIAL_DATA_PORT com) b s) } = Some s' \<and>
        ?o s' = ?o s @ take (Suc i) data"
      using i I assms(2) by (simp add: take_Suc_conv_app_nth)
  qed simp_all
  then show ?thesis .
qed

theorem serial_write_sends_witness:
  "\<exists>s'. serial_write (\<lambda>l p. if even (length l) then 0x20 else 0) 0x3f8 [72, 105] 2 \<lparr>port_log = []\<rparr> = Some s' \<and> outs 0x3f8 (port_log s') = [72, 105]"
proof -
  let ?dev = "\<lambda>l p. if even (length l) then 0x20 else 0 :: u16"
  have "transmits ?dev 0x3f8"
    unfolding transmits_def Let_def
  proof
    fix l :: "io list"
    show "\<exists>k. (ucast (?dev (polled ?dev (SERIAL_LINE_STATUS_PORT 0x3f8) k l) (SERIAL_LINE_STATUS_PORT 0x3f8)) :: u8) AND 0x20 \<noteq> 0"
      by (rule exI [of _ "if even (length l) then 0 else 1"]) simp
  qed
  then show ?thesis using serial_write_sends [of ?dev "0x3f8" 2 "[72, 105]" "\<lparr>port_log = []\<rparr>"] by (simp add: SERIAL_DATA_PORT_def)
qed

end
