(* ===== verification/Keyboard.thy ===== *)
theory Keyboard
  imports Ports
begin

text \<open>
  \<^verbatim>\<open>kernel/drivers/keyboard.c\<close>: the translation of scan codes to characters and the interrupt handler of the keyboard. The handler
  that \<open>syscall_register_kb_handler\<close> has registered in \<open>_kb_handler_cb\<close> is an argument, \<open>None\<close> for the \<open>NULL\<close> pointer.
\<close>

section \<open>Tables and state\<close>

definition KEY_LSHIFT :: u8 where "KEY_LSHIFT = 14"
definition KEY_RSHIFT :: u8 where "KEY_RSHIFT = 15"
definition KEY_BACKSPACE :: u8 where "KEY_BACKSPACE = 8"
definition KBD_DATA_PORT :: u16 where "KBD_DATA_PORT = 0x60"

definition sc_table_noshift :: "u8 list" where
  "sc_table_noshift =
    [0, 27, 49, 50, 51, 52, 53, 54, 55, 56, 57, 48, 45, 61, KEY_BACKSPACE, 9, 113, 119, 101, 114, 116, 121, 117,
     105, 111, 112, 91, 93, 10, 17, 97, 115, 100, 102, 103, 104, 106, 107, 108, 59, 39, 96, KEY_LSHIFT, 92, 122,
     120, 99, 118, 98, 110, 109, 44, 46, 47, KEY_RSHIFT, 0, 0, 32, 26] @ replicate 197 0"

definition sc_table_shift :: "u8 list" where
  "sc_table_shift =
    [0, 27, 33, 64, 35, 36, 37, 94, 38, 42, 40, 41, 95, 43, KEY_BACKSPACE, 9, 81, 87, 69, 82, 84, 89, 85, 73, 79,
     80, 123, 125, 10, 17, 65, 83, 68, 70, 71, 72, 74, 75, 76, 58, 34, 126, KEY_LSHIFT, 124, 90, 88, 67, 86, 66,
     78, 77, 44, 46, 47, KEY_RSHIFT, 0, 0, 32, 26] @ replicate 197 0"

record keyboard = ports +
  is_shift_key_depressed :: u32

section \<open>Operations\<close>

definition read_scan_code :: "device \<Rightarrow> 'a ports_scheme \<Rightarrow> u8 \<times> 'a ports_scheme" where
  "read_scan_code dev s = inb dev KBD_DATA_PORT s"

definition scan_code_to_ascii :: "u8 \<Rightarrow> u32 \<Rightarrow> u8 option" where
  "scan_code_to_ascii scan_code is_shift_depressed =
     (if scan_code AND push_bit 7 1 \<noteq> 0
      then if scan_code = 170 \<or> scan_code = 182 then arr_get sc_table_noshift (unat (scan_code XOR push_bit 7 1)) else Some 0
      else if is_shift_depressed \<noteq> 0 then arr_get sc_table_shift (unat scan_code)
      else arr_get sc_table_noshift (unat scan_code))"

definition ISR_KEYBOARD :: "device \<Rightarrow> (u8 \<Rightarrow> 'a keyboard_scheme \<Rightarrow> 'a keyboard_scheme option) option \<Rightarrow>
    'a keyboard_scheme \<Rightarrow> 'a keyboard_scheme option" where
  "ISR_KEYBOARD dev kb_handler_cb s =
     (let (scan_code, s) = read_scan_code dev s in
      do { ascii \<leftarrow> scan_code_to_ascii scan_code (is_shift_key_depressed s);
           if ascii = KEY_LSHIFT \<or> ascii = KEY_RSHIFT
           then Some (s\<lparr>is_shift_key_depressed := is_shift_key_depressed s XOR 1\<rparr>)
           else case kb_handler_cb of None \<Rightarrow> Some s | Some f \<Rightarrow> f ascii s })"

section \<open>Typing\<close>

text \<open>
  The keyboard the tables are for, described without them: scan code set 1 of a keyboard with the US layout, as the page the source
  links to lists it. A row is the code of its first key and what its keys print, alone and with a shift key held. The keys are
  listed with the characters that a text can hold.
\<close>

definition us_rows :: "(nat \<times> string \<times> string) list" where
  "us_rows =
    [(2, ''1234567890-='', ''!@#$%^&*()_+''),
     (16, ''qwertyuiop[]'', ''QWERTYUIOP{}''),
     (30, ''asdfghjkl;'' @ [CHR 0x27, CHR 0x60], ''ASDFGHJKL:'' @ [CHR 0x22, CHR 0x7E]),
     (43, [CHR 0x5C], [CHR 0x7C]),
     (44, ''zxcvbnm,./'', ''ZXCVBNM<>?''),
     (57, '' '', []), (28, [CHR 0x0A], []), (15, [CHR 0x09], []), (14, [CHR 0x08], []), (1, [CHR 0x1B], [])]"

text \<open>The keys: a character, the code of its key, and whether the shift key is held.\<close>

definition us_keys :: "(u8 \<times> u8 \<times> bool) list" where
  "us_keys = concat (map (\<lambda>(k, lower, upper).
     map (\<lambda>i. (of_char (lower ! i), of_nat (k + i), False)) [0..<length lower] @
     map (\<lambda>i. (of_char (upper ! i), of_nat (k + i), True)) [0..<length upper]) us_rows)"

definition typeable :: "u8 \<Rightarrow> bool" where
  "typeable c \<longleftrightarrow> c \<in> fst ` set us_keys"

text \<open>
  The codes the keyboard sends for a character: the key alone, or with the left shift key held; each key is pressed and
  released, and the code of a release has bit 7 set. One interrupt reads one code.
\<close>

definition keys_for :: "u8 \<Rightarrow> u8 list" where
  "keys_for c = (case map_of us_keys c of
       None \<Rightarrow> []
     | Some (k, shift) \<Rightarrow> if shift then [42, k, k OR 0x80, 42 OR 0x80] else [k, k OR 0x80])"

text \<open>
  What the handler hears of a character: the shift table of the source has the comma, the full stop and the slash for the keys that
  print the less sign, the greater sign and the question mark with a shift key held.
\<close>

definition heard :: "u8 \<Rightarrow> u8" where
  "heard c = (if c = 0x3C then 0x2C else if c = 0x3E then 0x2E else if c = 0x3F then 0x2F else c)"

definition run_codes :: "(u8 \<Rightarrow> 'a keyboard_scheme \<Rightarrow> 'a keyboard_scheme option) option \<Rightarrow> u8 list \<Rightarrow> 'a keyboard_scheme \<Rightarrow> 'a keyboard_scheme option" where
  "run_codes cb codes s = forM codes (\<lambda>c. ISR_KEYBOARD (\<lambda>_ _. ucast c) cb) s"

record typist = keyboard +
  got :: "u8 list"

definition collect :: "u8 \<Rightarrow> typist \<Rightarrow> typist option" where
  "collect c s = Some (s\<lparr>got := got s @ [c]\<rparr>)"

text \<open>
  The tables have the layout, but for these three characters: what the tables say of the press and of the release of every key.
\<close>

lemma shift_codes:
  "scan_code_to_ascii 42 sh = Some KEY_LSHIFT" "scan_code_to_ascii 170 sh = Some KEY_LSHIFT"
  by (simp_all add: scan_code_to_ascii_def sc_table_noshift_def sc_table_shift_def nth_append arr_get_def)

lemma us_keys_ascii:
  "\<forall>(c, k, shift)\<in>set us_keys. scan_code_to_ascii k (if shift then 1 else 0) = Some (heard c) \<and>
     (\<forall>sh\<in>{0, 1}. scan_code_to_ascii (k OR 0x80) sh = Some 0) \<and> heard c \<noteq> KEY_LSHIFT \<and> heard c \<noteq> KEY_RSHIFT"
  by code_simp

lemma keys_for_cases:
  assumes "typeable c"
  obtains k where "scan_code_to_ascii k 0 = Some (heard c)" "scan_code_to_ascii (k OR 0x80) 0 = Some 0" "keys_for c = [k, k OR 0x80]"
  | k where "scan_code_to_ascii k 1 = Some (heard c)" "scan_code_to_ascii (k OR 0x80) 1 = Some 0" "keys_for c = [42, k, k OR 0x80, 170]"
proof -
  obtain k shift where m: "map_of us_keys c = Some (k, shift)" using assms by (cases "map_of us_keys c") (auto simp: typeable_def map_of_eq_None_iff)
  then have "(c, k, shift) \<in> set us_keys" by (rule map_of_SomeD)
  then show thesis using us_keys_ascii m that by (cases shift) (fastforce simp: keys_for_def)+
qed

lemma heard_no_shift: "typeable c \<Longrightarrow> heard c \<noteq> KEY_LSHIFT \<and> heard c \<noteq> KEY_RSHIFT"
  using us_keys_ascii by (fastforce simp: typeable_def)

text \<open>One interrupt, and one character.\<close>

lemma ucast_8_16 [simp]: "ucast (ucast (c :: u8) :: u16) = c"
  by (rule bit_word_eqI) (simp add: bit_simps)

lemma ISR_KEYBOARD_code:
  "ISR_KEYBOARD (\<lambda>_ _. ucast c) (Some collect) s =
     do { a \<leftarrow> scan_code_to_ascii c (is_shift_key_depressed s);
          let s = s\<lparr>port_log := port_log s @ [In KBD_DATA_PORT c]\<rparr> in
          if a = KEY_LSHIFT \<or> a = KEY_RSHIFT then Some (s\<lparr>is_shift_key_depressed := is_shift_key_depressed s XOR 1\<rparr>)
          else collect a s }"
  by (cases "scan_code_to_ascii c (is_shift_key_depressed s)") (simp_all add: ISR_KEYBOARD_def read_scan_code_def inb_def Let_def)

lemma run_codes_char:
  assumes "typeable c" "is_shift_key_depressed (s :: typist) = 0"
  shows "\<exists>s'. run_codes (Some collect) (keys_for c) s = Some s' \<and> got s' = got s @ [heard c, 0] \<and> is_shift_key_depressed s' = 0"
proof -
  have ne: "heard c \<noteq> KEY_LSHIFT" "heard c \<noteq> KEY_RSHIFT" "0 \<noteq> KEY_LSHIFT" "0 \<noteq> KEY_RSHIFT"
    using heard_no_shift [OF assms(1)] by (auto simp: KEY_LSHIFT_def KEY_RSHIFT_def)
  note run = run_codes_def ISR_KEYBOARD_code ISR_KEYBOARD_code [of 42, simplified] ISR_KEYBOARD_code [of 170, simplified] collect_def Let_def
  from assms(1) show ?thesis
  proof (cases rule: keys_for_cases)
    case (1 k)
    then show ?thesis using assms(2) ne by (simp add: run)
  next
    case (2 k)
    then show ?thesis using assms(2) ne shift_codes by (simp add: run)
  qed
qed

section \<open>Properties\<close>

text \<open>
  C24. What typing hands over: for every text over the characters of the US layout, the interrupts of the keys that type it, pressed one
  after the other with the shift key where it is needed, call the registered handler twice for each character, with the character as
  \<open>heard\<close> and then with a 0 for the release of its key, and the shift state is as before. Every character is heard as itself but
  the less sign, the greater sign and the question mark, which arrive as comma, full stop and slash.
\<close>

theorem keyboard_types_text:
  assumes "\<forall>c\<in>set str. typeable c" "is_shift_key_depressed (s :: typist) = 0"
  shows "\<exists>s'. run_codes (Some collect) (concat (map keys_for str)) s = Some s' \<and>
     got s' = got s @ concat (map (\<lambda>c. [heard c, 0]) str) \<and> is_shift_key_depressed s' = 0"
  using assms
proof (induction str arbitrary: s)
  case Nil
  then show ?case by (simp add: run_codes_def)
next
  case (Cons c cs)
  obtain s1 where 1: "run_codes (Some collect) (keys_for c) s = Some s1" "got s1 = got s @ [heard c, 0]" "is_shift_key_depressed s1 = 0"
    using run_codes_char [of c s] Cons.prems by auto
  obtain s2 where "run_codes (Some collect) (concat (map keys_for cs)) s1 = Some s2"
      "got s2 = got s1 @ concat (map (\<lambda>c. [heard c, 0]) cs)" "is_shift_key_depressed s2 = 0"
    using Cons.IH [OF _ 1(3)] Cons.prems by auto
  then show ?case using 1 by (simp add: run_codes_def)
qed

text \<open>The capital H is the key 35 with the left shift key, the small i the key 23, the question mark the key 53 with the shift key.\<close>

theorem keyboard_types_text_witness:
  "\<exists>s'. run_codes (Some collect) [42, 35, 163, 170, 23, 151, 42, 53, 181, 170] \<lparr>port_log = [], is_shift_key_depressed = 0, got = []\<rparr> = Some s' \<and>
     got s' = [72, 0, 105, 0, 47, 0]"
proof -
  have "\<forall>c\<in>set [72, 105, 63]. typeable c" "concat (map keys_for [72, 105, 63]) = [42, 35, 163, 170, 23, 151, 42, 53, 181, 170]" by code_simp+
  then show ?thesis
    using keyboard_types_text [of "[72, 105, 63]" "\<lparr>port_log = [], is_shift_key_depressed = 0, got = []\<rparr>"] by (auto simp: heard_def)
qed

end
