(* ===== verification/Madt.thy ===== *)
theory Madt
  imports Layout
begin

text \<open>
  \<^verbatim>\<open>kernel/drivers/acpi/madt.c\<close>: the walk over the entries of the table that describes the interrupt controllers. The table is read
  from the byte memory; the arrays of \<open>struct MADT_info\<close> are lists of their size, and a write behind their end is
  \<open>None\<close>. The theorem is a round trip: a table that was laid out from a list of entries is read back as this list.
\<close>

section \<open>State\<close>

definition MAX_CPUS_SUPPORTED :: nat where "MAX_CPUS_SUPPORTED = 128"
definition MADT_ENTRY_TYPE_LOCAL_APIC :: u8 where "MADT_ENTRY_TYPE_LOCAL_APIC = 0"
definition MADT_ENTRY_TYPE_IO_APIC :: u8 where "MADT_ENTRY_TYPE_IO_APIC = 1"
definition MADT_ENTRY_TYPE_SOURCE_OVERRIDE :: u8 where "MADT_ENTRY_TYPE_SOURCE_OVERRIDE = 2"

lemmas madt_types = MADT_ENTRY_TYPE_LOCAL_APIC_def MADT_ENTRY_TYPE_IO_APIC_def MADT_ENTRY_TYPE_SOURCE_OVERRIDE_def

record MADT_info =
  local_apic_addr :: u32
  processor_count :: u8
  processor_ids :: "u8 list"
  local_APIC_ids :: "u8 list"
  io_apic_count :: u16
  io_apic_ids :: "u8 list"
  io_apic_addrs :: "u32 list"
  io_apic_gsi_base :: "u32 list"
  irq_override :: "u8 list"

text \<open>The value of the static variable at the start.\<close>

definition madt_info0 :: MADT_info where
  "madt_info0 = \<lparr>local_apic_addr = 0, processor_count = 0, processor_ids = replicate MAX_CPUS_SUPPORTED 0,
     local_APIC_ids = replicate MAX_CPUS_SUPPORTED 0, io_apic_count = 0, io_apic_ids = replicate 32 0,
     io_apic_addrs = replicate 32 0, io_apic_gsi_base = replicate 32 0, irq_override = replicate 24 0\<rparr>"

section \<open>Operations\<close>

text \<open>The fields of an entry are at their offsets in the structures of \<^verbatim>\<open>madt.h\<close>; the debug messages of the cases are left out.\<close>

definition madt_entry :: "mem \<Rightarrow> u32 \<Rightarrow> MADT_info \<Rightarrow> MADT_info option" where
  "madt_entry m entry i =
     (let entry_type = m entry in
      if entry_type = MADT_ENTRY_TYPE_LOCAL_APIC
      then do { ids \<leftarrow> arr_set (processor_ids i) (unat (processor_count i)) (m (entry + 2));
                las \<leftarrow> arr_set (local_APIC_ids i) (unat (processor_count i)) (m (entry + 3));
                Some (i\<lparr>processor_ids := ids, local_APIC_ids := las, processor_count := processor_count i + 1\<rparr>) }
      else if entry_type = MADT_ENTRY_TYPE_IO_APIC
      then do { as \<leftarrow> arr_set (io_apic_addrs i) (unat (io_apic_count i)) (load32 m (entry + 4));
                ids \<leftarrow> arr_set (io_apic_ids i) (unat (io_apic_count i)) (m (entry + 2));
                gs \<leftarrow> arr_set (io_apic_gsi_base i) (unat (io_apic_count i)) (load32 m (entry + 8));
                Some (i\<lparr>io_apic_addrs := as, io_apic_ids := ids, io_apic_gsi_base := gs, io_apic_count := io_apic_count i + 1\<rparr>) }
      else if entry_type = MADT_ENTRY_TYPE_SOURCE_OVERRIDE
      then let src = m (entry + 3); mapped = load32 m (entry + 4) in
           if ucast src \<noteq> mapped
           then do { ov \<leftarrow> arr_set (irq_override i) (unat src) (ucast mapped); Some (i\<lparr>irq_override := ov\<rparr>) }
           else Some i
      else Some i)"

partial_function (option) madt_walk :: "mem \<Rightarrow> u32 \<Rightarrow> u32 \<Rightarrow> MADT_info \<Rightarrow> MADT_info option" where
  "madt_walk m stop entry i =
     (let entry_len = m (entry + 1) in
      if entry + ucast entry_len \<le> stop
      then if entry_len = 0 then Some i
           else do { i \<leftarrow> madt_entry m entry i; madt_walk m stop (entry + ucast entry_len) i }
      else Some i)"

definition madt_parse :: "mem \<Rightarrow> u32 \<Rightarrow> MADT_info \<Rightarrow> MADT_info option" where
  "madt_parse m madt i =
     (if madt = 0 then Some i
      else let i = i\<lparr>local_apic_addr := load32 m (madt + 36)\<rparr>; madt_len = load32 m (madt + 4)
           in madt_walk m (madt + madt_len) (madt + 44) i)"

text \<open>
  \<open>madt_get_info\<close> with its static variables; the table is looked up by its signature with a function that
  \<^verbatim>\<open>acpi.c\<close> provides.
\<close>

record madt_state =
  madt_ptr :: u32
  madt_initialized :: bool
  madt_info :: MADT_info

definition acpi_get_madt :: "(string \<Rightarrow> u32) \<Rightarrow> madt_state \<Rightarrow> u32 \<times> madt_state" where
  "acpi_get_madt acpi_get_sdt_from_sig s =
     (let s = (if madt_ptr s = 0 then s\<lparr>madt_ptr := acpi_get_sdt_from_sig ''APIC''\<rparr> else s) in (madt_ptr s, s))"

definition madt_get_info :: "(string \<Rightarrow> u32) \<Rightarrow> mem \<Rightarrow> madt_state \<Rightarrow> (MADT_info \<times> madt_state) option" where
  "madt_get_info acpi_get_sdt_from_sig m s =
     (if madt_initialized s then Some (madt_info s, s)
      else let s = (if madt_ptr s = 0 then s\<lparr>madt_ptr := acpi_get_sdt_from_sig ''APIC''\<rparr> else s) in
           do { i \<leftarrow> madt_parse m (madt_ptr s) (madt_info s);
                Some (i, s\<lparr>madt_info := i, madt_initialized := True\<rparr>) })"

section \<open>Tables\<close>

text \<open>The entries of a table and their layout, as the specification of ACPI has them.\<close>

datatype apic_entry = LocalApic u8 u8 u32 | IoApic u8 u32 u32 | Override u8 u8 u32 u16 | Other u8 bytes

fun encode_entry :: "apic_entry \<Rightarrow> bytes" where
  "encode_entry (LocalApic pid apic flags) = [0, 8, pid, apic] @ bytes32 flags"
| "encode_entry (IoApic ident addr gsi) = [1, 12, ident, 0] @ bytes32 addr @ bytes32 gsi"
| "encode_entry (Override bus irq gsi flags) = [2, 10, bus, irq] @ bytes32 gsi @ [ucast flags, ucast (drop_bit 8 flags)]"
| "encode_entry (Other ty body) = [ty, of_nat (2 + length body)] @ body"

fun entry_ok :: "apic_entry \<Rightarrow> bool" where
  "entry_ok (Override bus irq gsi flags) = (unat irq < 24)"
| "entry_ok (Other ty body) = (2 < ty \<and> length body \<le> 253)"
| "entry_ok _ = True"

definition encode_madt :: "bytes \<Rightarrow> u32 \<Rightarrow> u32 \<Rightarrow> bytes \<Rightarrow> apic_entry list \<Rightarrow> bytes" where
  "encode_madt sig lapic flags rest es = (let body = concat (map encode_entry es) in
     take 4 sig @ bytes32 (of_nat (44 + length body)) @ take 28 rest @ bytes32 lapic @ bytes32 flags @ body)"

text \<open>What the entries say, and that the result of the walk says the same.\<close>

definition lapics :: "apic_entry list \<Rightarrow> (u8 \<times> u8) list" where
  "lapics es = concat (map (\<lambda>e. case e of LocalApic p a f \<Rightarrow> [(p, a)] | _ \<Rightarrow> []) es)"

definition ioapics :: "apic_entry list \<Rightarrow> (u8 \<times> u32 \<times> u32) list" where
  "ioapics es = concat (map (\<lambda>e. case e of IoApic i a g \<Rightarrow> [(i, a, g)] | _ \<Rightarrow> []) es)"

definition overrides :: "apic_entry list \<Rightarrow> nat \<Rightarrow> u8" where
  "overrides es = fold (\<lambda>e f. case e of Override b irq g fl \<Rightarrow> if ucast irq \<noteq> g then f(unat irq := ucast g) else f | _ \<Rightarrow> f) es (\<lambda>_. 0)"

definition describes :: "MADT_info \<Rightarrow> apic_entry list \<Rightarrow> bool" where
  "describes i es \<longleftrightarrow>
     length (processor_ids i) = 128 \<and> length (local_APIC_ids i) = 128 \<and> unat (processor_count i) = length (lapics es) \<and>
     take (length (lapics es)) (processor_ids i) = map fst (lapics es) \<and>
     take (length (lapics es)) (local_APIC_ids i) = map snd (lapics es) \<and>
     length (io_apic_ids i) = 32 \<and> length (io_apic_addrs i) = 32 \<and> length (io_apic_gsi_base i) = 32 \<and>
     unat (io_apic_count i) = length (ioapics es) \<and>
     take (length (ioapics es)) (io_apic_ids i) = map fst (ioapics es) \<and>
     take (length (ioapics es)) (io_apic_addrs i) = map (fst \<circ> snd) (ioapics es) \<and>
     take (length (ioapics es)) (io_apic_gsi_base i) = map (snd \<circ> snd) (ioapics es) \<and>
     length (irq_override i) = 24 \<and> (\<forall>k<24. irq_override i ! k = overrides es k)"

lemma encode_entry_len:
  assumes "entry_ok e"
  shows "length (encode_entry e) < 256" "2 \<le> length (encode_entry e)" "encode_entry e ! 1 = of_nat (length (encode_entry e))"
  using assms by (cases e; simp)+

lemma take_put: "n < length xs \<Longrightarrow> take n xs = ys \<Longrightarrow> take (Suc n) (xs[n := v]) = ys @ [v]"
  by (simp add: take_Suc_conv_app_nth)

lemma more_entries:
  "lapics (es @ [e]) = lapics es @ (case e of LocalApic p a f \<Rightarrow> [(p, a)] | _ \<Rightarrow> [])"
  "ioapics (es @ [e]) = ioapics es @ (case e of IoApic i a g \<Rightarrow> [(i, a, g)] | _ \<Rightarrow> [])"
  "overrides (es @ [e]) = (case e of Override b irq g fl \<Rightarrow> if ucast irq \<noteq> g then (overrides es)(unat irq := ucast g) else overrides es | _ \<Rightarrow> overrides es)"
  by (cases e; simp add: lapics_def ioapics_def overrides_def)+

lemma madt_entry_ok:
  assumes d: "describes i es" and h: "holds m a (encode_entry e)" and ok: "entry_ok e"
    and few: "length (lapics (es @ [e])) \<le> 128" "length (ioapics (es @ [e])) \<le> 32"
  shows "\<exists>i'. madt_entry m a i = Some i' \<and> describes i' (es @ [e]) \<and> local_apic_addr i' = local_apic_addr i"
proof (cases e)
  case (LocalApic p l f)
  have m: "m a = 0" "m (a + 2) = p" "m (a + 3) = l"
    using h by (simp_all add: LocalApic holds_Cons holds_append add.commute)
  have n: "unat (processor_count i) = length (lapics es)" "length (lapics es) < 128" using d few by (auto simp: describes_def more_entries LocalApic)
  then have "unat (processor_count i + 1) = Suc (length (lapics es))" by (subst unat_add_less) simp_all
  then show ?thesis
    using d n m by (simp add: madt_entry_def describes_def madt_types more_entries LocalApic take_put)
next
  case (IoApic ident addr gsi)
  have m: "m a = 1" "m (a + 2) = ident" "load32 m (a + 4) = addr" "load32 m (a + 8) = gsi"
    using h by (simp_all add: IoApic holds_Cons holds_append add.commute holds_bytes32)
  have n: "unat (io_apic_count i) = length (ioapics es)" "length (ioapics es) < 32" using d few by (auto simp: describes_def more_entries IoApic)
  then have "unat (io_apic_count i + 1) = Suc (length (ioapics es))" by (subst unat_add_less) simp_all
  then show ?thesis
    using d n m by (simp add: madt_entry_def describes_def madt_types more_entries IoApic take_put)
next
  case (Override bus irq gsi fl)
  have m: "m a = 2" "m (a + 3) = irq" "load32 m (a + 4) = gsi"
    using h by (simp_all add: Override holds_Cons holds_append add.commute holds_bytes32)
  then show ?thesis
    using d ok by (auto simp: madt_entry_def describes_def madt_types more_entries Override Let_def nth_list_update)
next
  case (Other ty body)
  have "m a = ty" "ty \<noteq> 0" "ty \<noteq> 1" "ty \<noteq> 2" using h ok by (auto simp: Other holds_Cons word_less_nat_alt)
  then show ?thesis using d by (simp add: madt_entry_def describes_def madt_types more_entries Other Let_def)
qed

lemma madt_walk_ok:
  assumes "holds m a (concat (map encode_entry es))" "\<forall>e\<in>set es. entry_ok e" "describes i pre"
    and "length (lapics (pre @ es)) \<le> 128" "length (ioapics (pre @ es)) \<le> 32"
    and "unat a + length (concat (map encode_entry es)) + 256 < 2 ^ 32"
  shows "\<exists>i'. madt_walk m (a + of_nat (length (concat (map encode_entry es)))) a i = Some i' \<and> describes i' (pre @ es) \<and>
     local_apic_addr i' = local_apic_addr i"
  using assms
proof (induction es arbitrary: a i pre)
  case Nil
  have "unat (a + ucast (m (a + 1))) = unat a + unat (m (a + 1))"
    using Nil.prems(6) unat_less_8 [of "m (a + 1)"] by (subst unat_add_less) (simp_all add: unsigned_ucast_eq take_bit_nat_eq_self)
  then have "a + ucast (m (a + 1)) \<le> a \<longleftrightarrow> m (a + 1) = 0" by (auto simp: word_le_nat_alt unat_eq_0)
  then show ?case using Nil.prems(3) by (subst madt_walk.simps) (simp add: Let_def)
next
  case (Cons e es)
  let ?n = "length (encode_entry e)" and ?r = "concat (map encode_entry es)"
  have ok: "entry_ok e" using Cons.prems(2) by simp
  note L = encode_entry_len [OF ok]
  have h: "holds m a (encode_entry e)" "holds m (a + of_nat ?n) ?r" using Cons.prems(1) by (simp_all add: holds_append)
  have len: "m (a + 1) = of_nat ?n" using h(1) L unfolding holds_def by (auto dest: spec [of _ 1])
  have u: "(ucast (of_nat ?n :: u8) :: u32) = of_nat ?n" using L(1)
    by (intro word_unat_eq_iff [THEN iffD2]) (simp add: unsigned_ucast_eq unat_of_nat take_bit_nat_eq_self)
  have ne: "(of_nat ?n :: u8) \<noteq> 0" using L unat_of_nat_small [of ?n, where ?'a = 8] by auto
  have s: "unat (a + of_nat (?n + length ?r)) = unat a + ?n + length ?r" "unat (a + of_nat ?n) = unat a + ?n"
    using Cons.prems(6) unat_of_nat_small [of "?n + length ?r", where ?'a = 32] unat_of_nat_small [of ?n, where ?'a = 32]
    by (simp_all add: unat_add_less del: of_nat_add)
  have "length (lapics (pre @ [e])) \<le> 128" "length (ioapics (pre @ [e])) \<le> 32"
    using Cons.prems(4,5) by (simp_all add: lapics_def ioapics_def)
  then obtain i1 where i1: "madt_entry m a i = Some i1" "describes i1 (pre @ [e])" "local_apic_addr i1 = local_apic_addr i"
    using madt_entry_ok [OF Cons.prems(3) h(1) ok] by blast
  obtain i2 where "madt_walk m (a + of_nat ?n + of_nat (length ?r)) (a + of_nat ?n) i1 = Some i2"
      "describes i2 ((pre @ [e]) @ es)" "local_apic_addr i2 = local_apic_addr i1"
    using Cons.IH [OF h(2) _ i1(2)] Cons.prems(2,4,5,6) s(2) by auto
  moreover have "a + of_nat ?n \<le> a + of_nat (?n + length ?r)" using s by (simp add: word_le_nat_alt del: of_nat_add)
  ultimately show ?case
    using i1 len u ne by (subst madt_walk.simps) (simp add: add.assoc)
qed

section \<open>Properties\<close>

text \<open>
  C23. The walk reads a table back: for every table that was laid out from a list of entries and is in memory,
  \<open>madt_parse\<close> ends and the information it collects is that of the entries, in their order, with the address of the local
  interrupt controllers from the header; whatever bytes follow the table. There are at most 128 processors and 32
  controllers, and the overrides are of interrupts below 24. The entries may be of any other type: \<open>madt_parse\<close> passes over them, also
  over those of type 5, whose address, as the comment of \<^verbatim>\<open>madt.h\<close> has it, should be used instead of the one in the header.
\<close>

theorem madt_parse_reads_table:
  assumes "holds m a (encode_madt sig lapic flags rest es)" "length sig = 4" "length rest = 28" "a \<noteq> 0"
    and "\<forall>e\<in>set es. entry_ok e" "length (lapics es) \<le> 128" "length (ioapics es) \<le> 32"
    and "unat a + length (encode_madt sig lapic flags rest es) + 256 < 2 ^ 32"
  shows "\<exists>i. madt_parse m a madt_info0 = Some i \<and> describes i es \<and> local_apic_addr i = lapic"
proof -
  let ?b = "concat (map encode_entry es)"
  have len: "length (encode_madt sig lapic flags rest es) = 44 + length ?b" using assms(2,3) by (simp add: encode_madt_def Let_def)
  have h: "load32 m (a + 4) = of_nat (44 + length ?b)" "load32 m (a + 36) = lapic" "holds m (a + 44) ?b"
    using assms(1-3) by (simp_all add: encode_madt_def Let_def holds_append holds_bytes32 add.commute)
  have d: "describes (madt_info0\<lparr>local_apic_addr := lapic\<rparr>) []"
    by (simp add: describes_def madt_info0_def MAX_CPUS_SUPPORTED_def lapics_def ioapics_def overrides_def)
  have "unat (a + 44) = unat a + 44" using assms(8) len by (subst unat_add_less) simp_all
  then have "unat (a + 44) + length ?b + 256 < 2 ^ 32" using assms(8) len by simp
  then have "\<exists>i. madt_walk m (a + 44 + of_nat (length ?b)) (a + 44) (madt_info0\<lparr>local_apic_addr := lapic\<rparr>) = Some i \<and>
      describes i ([] @ es) \<and> local_apic_addr i = lapic"
    using madt_walk_ok [OF h(3) assms(5) d] assms(6,7) by simp
  then show ?thesis using assms(4) h(1,2) by (simp add: madt_parse_def add.assoc)
qed

text \<open>
  An override of an interrupt from 24 on is written behind the array: on such an entry, unless it maps the interrupt to
  itself, the step of the walk leaves the table \<open>irq_override\<close>, although the field of the entry is a byte.
\<close>

theorem madt_override_out_of_range:
  assumes "holds m a (encode_entry (Override bus irq gsi fl))" "24 \<le> unat irq" "ucast irq \<noteq> gsi" "length (irq_override i) = 24"
  shows "madt_entry m a i = None"
proof -
  have "m a = 2" "m (a + 3) = irq" "load32 m (a + 4) = gsi"
    using assms(1) by (simp_all add: holds_Cons holds_append add.commute holds_bytes32)
  then show ?thesis using assms(2-4) by (simp add: madt_entry_def madt_types Let_def)
qed

definition sample_madt :: "apic_entry list" where
  "sample_madt = [LocalApic 0 0 1, LocalApic 1 1 1, IoApic 2 0xfec00000 0, Override 0 0 2 0, Other 4 [0xff, 0, 0, 1]]"

theorem madt_parse_reads_table_witness:
  "\<exists>i. madt_parse (\<lambda>x. encode_madt [65, 80, 73, 67] 0xfee00000 1 (replicate 28 0) sample_madt ! unat (x - 0x1000)) 0x1000 madt_info0 = Some i \<and>
     describes i sample_madt \<and> local_apic_addr i = 0xfee00000"
proof -
  let ?b = "encode_madt [65, 80, 73, 67] 0xfee00000 1 (replicate 28 0) sample_madt"
  have l: "length ?b = 44 + 44" by (simp add: encode_madt_def Let_def sample_madt_def)
  have h: "holds (\<lambda>x. ?b ! unat (x - 0x1000)) 0x1000 ?b" using l by (intro holds_list) simp
  have es: "\<forall>e\<in>set sample_madt. entry_ok e" "length (lapics sample_madt) \<le> 128" "length (ioapics sample_madt) \<le> 32"
    by (simp_all add: sample_madt_def lapics_def ioapics_def)
  show ?thesis by (rule madt_parse_reads_table [OF h _ _ _ es]) (simp_all add: l)
qed

theorem madt_override_out_of_range_witness:
  "madt_entry (\<lambda>x. encode_entry (Override 0 24 2 0) ! unat (x - 0x1000)) 0x1000 madt_info0 = None"
proof -
  have "holds (\<lambda>x. encode_entry (Override 0 24 2 0) ! unat (x - 0x1000)) 0x1000 (encode_entry (Override 0 24 2 0))" by (intro holds_list) simp
  then show ?thesis by (rule madt_override_out_of_range) (simp_all add: madt_info0_def)
qed

end
