(* ===== verification/Ioapic.thy ===== *)
theory Ioapic
  imports Semaphore Madt
begin

text \<open>
  \<^verbatim>\<open>kernel/drivers/ioapic.c\<close> and \<^verbatim>\<open>kernel/drivers/lapic.c\<close>: the interrupt controllers behind memory mapped registers. The accesses to
  the registers are a log; what a register answers is up to the device, a function \<open>dev\<close> of the log and the
  address. The semaphore that guards the registers of the I/O controller is the one of \<open>Semaphore\<close>: a call that has to
  wait ends with \<open>Inl\<close> and the switch to another task.
\<close>

section \<open>Registers\<close>

datatype mmio = Wr u32 u32 | Rd u32 u32

type_synonym mmio_device = "mmio list \<Rightarrow> u32 \<Rightarrow> u32"

section \<open>The I/O controller\<close>

definition IOAPIC_REGWIN :: u32 where "IOAPIC_REGWIN = 0x10"
definition IOAPIC_EXTERNAL_IRQ_BASE :: u32 where "IOAPIC_EXTERNAL_IRQ_BASE = 0x10"
definition IRQ_REDIR_BASE :: u32 where "IRQ_REDIR_BASE = 32"

record ioapic =
  ioapic_is_init :: u32
  ioapic_sem :: semaphore
  ioapic_base :: u32
  mmio_log :: "mmio list"

text \<open>The fields of \<open>union ioapic_redir_entry\<close> at their bit positions, and its two halves.\<close>

record redir_entry =
  vector :: u8
  delivery_mode :: u8
  dest_mode :: u8
  delivery_stat :: u8
  pin_polarity :: u8
  trigger_irr :: u8
  trigger_mode :: u8
  disabled :: u8
  dest :: u8

definition redir_bits :: "redir_entry \<Rightarrow> u64" where
  "redir_bits e = ucast (vector e) OR push_bit 8 (take_bit 3 (ucast (delivery_mode e))) OR push_bit 11 (take_bit 1 (ucast (dest_mode e))) OR
     push_bit 12 (take_bit 1 (ucast (delivery_stat e))) OR push_bit 13 (take_bit 1 (ucast (pin_polarity e))) OR
     push_bit 14 (take_bit 1 (ucast (trigger_irr e))) OR push_bit 15 (take_bit 1 (ucast (trigger_mode e))) OR
     push_bit 16 (take_bit 1 (ucast (disabled e))) OR push_bit 56 (ucast (dest e))"

definition redir_low :: "redir_entry \<Rightarrow> u32" where
  "redir_low e = ucast (redir_bits e)"

definition redir_high :: "redir_entry \<Rightarrow> u32" where
  "redir_high e = ucast (drop_bit 32 (redir_bits e))"

definition mmio_write :: "u32 \<Rightarrow> u32 \<Rightarrow> 'i ioapic_scheme \<Rightarrow> 'i ioapic_scheme" where
  "mmio_write a v io = io\<lparr>mmio_log := mmio_log io @ [Wr a v]\<rparr>"

definition mmio_read :: "mmio_device \<Rightarrow> u32 \<Rightarrow> 'i ioapic_scheme \<Rightarrow> u32 \<times> 'i ioapic_scheme" where
  "mmio_read dev a io = (let v = dev (mmio_log io) a in (v, io\<lparr>mmio_log := mmio_log io @ [Rd a v]\<rparr>))"

definition ioapic_write_reg :: "u32 \<Rightarrow> u32 \<Rightarrow> u32 \<Rightarrow> 'i ioapic_scheme \<Rightarrow> 'a tasks_scheme \<Rightarrow> ((u32 \<times> u32) option \<times> 'i ioapic_scheme \<times> 'a tasks_scheme) option" where
  "ioapic_write_reg apic_base reg_index data io s =
     do { (sw, sm, s) \<leftarrow> sem_wait (ioapic_sem io) s;
          let io = io\<lparr>ioapic_sem := sm\<rparr> in
          if sw \<noteq> None then Some (sw, io, s)
          else let io = mmio_write apic_base reg_index io;
                   io = mmio_write (apic_base + IOAPIC_REGWIN) data io in
               do { (sm, s) \<leftarrow> sem_signal (ioapic_sem io) s; Some (None, io\<lparr>ioapic_sem := sm\<rparr>, s) } }"

definition ioapic_read_reg :: "mmio_device \<Rightarrow> u32 \<Rightarrow> u32 \<Rightarrow> 'i ioapic_scheme \<Rightarrow> 'a tasks_scheme \<Rightarrow>
    (((u32 \<times> u32) option + u32) \<times> 'i ioapic_scheme \<times> 'a tasks_scheme) option" where
  "ioapic_read_reg dev apic_base reg_index io s =
     do { (sw, sm, s) \<leftarrow> sem_wait (ioapic_sem io) s;
          let io = io\<lparr>ioapic_sem := sm\<rparr> in
          if sw \<noteq> None then Some (Inl sw, io, s)
          else let io = mmio_write apic_base reg_index io;
                   (ret, io) = mmio_read dev (apic_base + IOAPIC_REGWIN) io in
               do { (sm, s) \<leftarrow> sem_signal (ioapic_sem io) s; Some (Inr ret, io\<lparr>ioapic_sem := sm\<rparr>, s) } }"

definition ioapic_redirect_external_int :: "MADT_info \<Rightarrow> u8 \<Rightarrow> u8 \<Rightarrow> 'i ioapic_scheme \<Rightarrow> 'a tasks_scheme \<Rightarrow>
    ((u32 \<times> u32) option \<times> 'i ioapic_scheme \<times> 'a tasks_scheme) option" where
  "ioapic_redirect_external_int info irq dest_lapic io s =
     (let e = \<lparr>vector = 0, delivery_mode = 0, dest_mode = 0, delivery_stat = 0, pin_polarity = 0, trigger_irr = 0, trigger_mode = 0, disabled = 0, dest = 0\<rparr>;
          e = e\<lparr>vector := ucast (ucast irq + IRQ_REDIR_BASE)\<rparr> in
      do { ov \<leftarrow> arr_get (irq_override info) (unat irq);
           let irq = (if ov > 0 then irq + ov else irq);
               e = e\<lparr>delivery_mode := 0, dest_mode := 0, delivery_stat := 0, pin_polarity := 0, trigger_mode := 0, disabled := 0, dest := dest_lapic\<rparr> in
           do { (sw, io, s) \<leftarrow> ioapic_write_reg (ioapic_base io) (IOAPIC_EXTERNAL_IRQ_BASE + ucast irq * 2) (redir_low e) io s;
                if sw \<noteq> None then Some (sw, io, s)
                else ioapic_write_reg (ioapic_base io) (IOAPIC_EXTERNAL_IRQ_BASE + ucast irq * 2 + 1) (redir_high e) io s } })"

definition ioapic_init :: "mmio_device \<Rightarrow> u32 \<Rightarrow> 'i ioapic_scheme \<Rightarrow> 'a tasks_scheme \<Rightarrow> ('i ioapic_scheme \<times> 'a tasks_scheme) option" where
  "ioapic_init dev apic_base io s =
     do { let io = io\<lparr>ioapic_sem := sem_init (ioapic_sem io) 1\<rparr> in
          do { (ver, io, s) \<leftarrow> ioapic_read_reg dev apic_base 1 io s;
               Some (io\<lparr>ioapic_base := apic_base, ioapic_is_init := 1\<rparr>, s) } }"

definition ioapic_is_initialized :: "'i ioapic_scheme \<Rightarrow> u32" where
  "ioapic_is_initialized io = ioapic_is_init io"

section \<open>The local controllers\<close>

definition LAPIC_ID :: u32 where "LAPIC_ID = 0x0020"
definition LAPIC_VER :: u32 where "LAPIC_VER = 0x0030"
definition LAPIC_TPR :: u32 where "LAPIC_TPR = 0x0080"
definition LAPIC_EOI :: u32 where "LAPIC_EOI = 0x00b0"
definition LAPIC_SVR :: u32 where "LAPIC_SVR = 0x00f0"
definition LAPIC_ICRLO :: u32 where "LAPIC_ICRLO = 0x0300"
definition LAPIC_ICRHI :: u32 where "LAPIC_ICRHI = 0x0310"
definition ICR_INIT :: u32 where "ICR_INIT = 0x00000500"
definition ICR_STARTUP :: u32 where "ICR_STARTUP = 0x00000600"
definition ICR_PHYSICAL :: u32 where "ICR_PHYSICAL = 0"
definition ICR_SEND_PENDING :: u32 where "ICR_SEND_PENDING = 0x00001000"
definition ICR_ASSERT :: u32 where "ICR_ASSERT = 0x00004000"
definition ICR_EDGE :: u32 where "ICR_EDGE = 0"
definition ICR_NO_SHORTHAND :: u32 where "ICR_NO_SHORTHAND = 0"
definition ICR_DESTINATION_SHIFT :: nat where "ICR_DESTINATION_SHIFT = 24"
definition SPURIOUS_IVT :: u32 where "SPURIOUS_IVT = 0xf"

lemmas lapic_consts = LAPIC_ID_def LAPIC_VER_def LAPIC_TPR_def LAPIC_EOI_def LAPIC_SVR_def LAPIC_ICRLO_def LAPIC_ICRHI_def ICR_INIT_def
  ICR_STARTUP_def ICR_PHYSICAL_def ICR_SEND_PENDING_def ICR_ASSERT_def ICR_EDGE_def ICR_NO_SHORTHAND_def ICR_DESTINATION_SHIFT_def SPURIOUS_IVT_def

definition lapic_get_id :: "mmio_device \<Rightarrow> u32 \<Rightarrow> 'i ioapic_scheme \<Rightarrow> u8 \<times> 'i ioapic_scheme" where
  "lapic_get_id dev lapic_base io =
     (let (lapic_id_reg, io) = mmio_read dev (lapic_base + LAPIC_ID) io in (ucast (drop_bit 24 lapic_id_reg AND 0xf), io))"

definition lapic_get_ver :: "mmio_device \<Rightarrow> u32 \<Rightarrow> 'i ioapic_scheme \<Rightarrow> u8 \<times> 'i ioapic_scheme" where
  "lapic_get_ver dev lapic_base io =
     (let (lapic_ver_reg, io) = mmio_read dev (lapic_base + LAPIC_VER) io in (of_bool (lapic_ver_reg AND 0xff \<ge> 0x14), io))"

text \<open>The loop at the end of both commands waits for the controller.\<close>

partial_function (option) lapic_wait :: "mmio_device \<Rightarrow> u32 \<Rightarrow> 'i ioapic_scheme \<Rightarrow> 'i ioapic_scheme option" where
  "lapic_wait dev icr_lo io =
     (let (v, io) = mmio_read dev icr_lo io in if v AND ICR_SEND_PENDING \<noteq> 0 then lapic_wait dev icr_lo io else Some io)"

definition lapic_send_startup :: "mmio_device \<Rightarrow> u32 \<Rightarrow> u8 \<Rightarrow> u32 \<Rightarrow> 'i ioapic_scheme \<Rightarrow> 'i ioapic_scheme option" where
  "lapic_send_startup dev lapic_base lapic_id vec io =
     (let io = mmio_write (lapic_base + LAPIC_ICRHI) (push_bit ICR_DESTINATION_SHIFT (ucast lapic_id)) io;
          io = mmio_write (lapic_base + LAPIC_ICRLO) (vec div 4096 OR ICR_STARTUP OR ICR_PHYSICAL OR ICR_ASSERT OR ICR_EDGE OR ICR_NO_SHORTHAND) io
      in lapic_wait dev (lapic_base + LAPIC_ICRLO) io)"

definition lapic_send_init :: "mmio_device \<Rightarrow> u32 \<Rightarrow> u8 \<Rightarrow> 'i ioapic_scheme \<Rightarrow> 'i ioapic_scheme option" where
  "lapic_send_init dev lapic_base lapic_id io =
     (let io = mmio_write (lapic_base + LAPIC_ICRHI) (push_bit ICR_DESTINATION_SHIFT (ucast lapic_id)) io;
          io = mmio_write (lapic_base + LAPIC_ICRLO) (ICR_INIT OR ICR_PHYSICAL OR ICR_ASSERT OR ICR_EDGE OR ICR_NO_SHORTHAND) io
      in lapic_wait dev (lapic_base + LAPIC_ICRLO) io)"

definition lapic_ack :: "u32 \<Rightarrow> 'i ioapic_scheme \<Rightarrow> 'i ioapic_scheme" where
  "lapic_ack lapic_base io = mmio_write (lapic_base + LAPIC_EOI) 0 io"

section \<open>The semaphore of the registers\<close>

text \<open>Free: nobody waits and one call may enter.\<close>

definition sem_free :: "semaphore \<Rightarrow> bool" where
  "sem_free sm \<longleftrightarrow> locked (sm_lock sm) = 0 \<and> q_head (sm_queue sm) = 0 \<and> sm_count sm = 1"

lemma sem_signal_empty:
  fixes s :: "'a tasks_scheme"
  assumes "locked (sm_lock sm) = 0" "q_head (sm_queue sm) = 0"
  shows "\<exists>l. sem_signal sm s = Some (sm\<lparr>sm_count := sm_count sm + 1, sm_lock := l\<rparr>, s) \<and> locked l = 0"
proof -
  obtain l1 e1 l2 where 1: "sem_lock (sm, s) = Some (sm\<lparr>sm_lock := l1\<rparr>, s\<lparr>eflags := e1\<rparr>)" "locked l2 = 0"
    "\<forall>sm'. \<forall>s' :: 'a tasks_scheme. sm_lock sm' = l1 \<longrightarrow> eflags s' = e1 \<longrightarrow> sem_unlock (sm', s') = (sm'\<lparr>sm_lock := l2\<rparr>, s'\<lparr>eflags := eflags s\<rparr>)"
    by (rule sem_lock_free [OF assms(1)])
  have q: "sm\<lparr>sm_lock := l1, sm_queue := sm_queue sm, sm_count := c\<rparr> = sm\<lparr>sm_lock := l1, sm_count := c\<rparr>" for c by simp
  show ?thesis using 1 assms(2) by (intro exI [of _ l2]) (simp add: sem_signal_def queue_pop_def)
qed

lemma ioapic_write_reg_ok:
  assumes "sem_free (ioapic_sem io)"
  shows "\<exists>sm. ioapic_write_reg base idx data io s =
     Some (None, io\<lparr>mmio_log := mmio_log io @ [Wr base idx, Wr (base + 0x10) data], ioapic_sem := sm\<rparr>, s) \<and> sem_free sm"
proof -
  let ?sm = "ioapic_sem io"
  obtain l where 1: "sem_wait ?sm s = Some (None, ?sm\<lparr>sm_count := 0, sm_lock := l\<rparr>, s)" "locked l = 0"
    using sem_wait_passes [of ?sm s] assms by (auto simp: sem_free_def)
  obtain l' where 2: "sem_signal (?sm\<lparr>sm_count := 0, sm_lock := l\<rparr>) s = Some (?sm\<lparr>sm_count := 1, sm_lock := l'\<rparr>, s)" "locked l' = 0"
    using sem_signal_empty [of "?sm\<lparr>sm_count := 0, sm_lock := l\<rparr>" s] 1(2) assms by (auto simp: sem_free_def)
  have "sem_free (?sm\<lparr>sm_count := 1, sm_lock := l'\<rparr>)" using 2(2) assms by (simp add: sem_free_def)
  then show ?thesis using 1 2 by (intro exI [of _ "?sm\<lparr>sm_count := 1, sm_lock := l'\<rparr>"]) (simp add: ioapic_write_reg_def mmio_write_def IOAPIC_REGWIN_def)
qed

lemma redir_halves:
  fixes irq d :: u8
  assumes "unat irq < 24"
  defines "e \<equiv> \<lparr>vector = ucast (ucast irq + 32 :: u32), delivery_mode = 0, dest_mode = 0, delivery_stat = 0, pin_polarity = 0, trigger_irr = 0,
     trigger_mode = 0, disabled = 0, dest = d\<rparr>"
  shows "redir_low e = ucast irq + 32" "redir_high e = push_bit 24 (ucast d)"
proof -
  have bits: "redir_bits e = ucast (vector e) OR push_bit 56 (ucast (dest e))" by (simp add: redir_bits_def e_def)
  have "redir_low e = ucast (vector e)"
    unfolding redir_low_def bits by (rule bit_word_eqI) (auto simp: bit_simps dest: bit_imp_le_length)
  moreover have "(ucast (ucast (ucast irq + 32 :: u32) :: u8) :: u32) = ucast irq + 32"
  proof -
    have "unat (ucast irq + 32 :: u32) = unat irq + 32" using assms(1)
      by (subst unat_add_less) (simp_all add: unsigned_ucast_eq take_bit_nat_eq_self)
    then show ?thesis using assms(1)
      by (intro word_unat_eq_iff [THEN iffD2]) (simp add: unsigned_ucast_eq unsigned_take_bit_eq take_bit_nat_eq_self)
  qed
  ultimately show "redir_low e = ucast irq + 32" by (simp add: e_def)
  show "redir_high e = push_bit 24 (ucast d)"
    unfolding redir_high_def bits by (rule bit_word_eqI) (auto simp: bit_simps e_def dest: bit_imp_le_length)
qed

lemma ioapic_redirect_entry:
  assumes "sem_free (ioapic_sem io)" "unat irq < 24" "length (irq_override info) = 24" "g = irq_override info ! unat irq"
  shows "\<exists>sm. ioapic_redirect_external_int info irq d io s = Some (None,
       io\<lparr>mmio_log := mmio_log io @ [Wr (ioapic_base io) (0x10 + ucast (irq + g) * 2), Wr (ioapic_base io + 0x10) (ucast irq + 32),
            Wr (ioapic_base io) (0x10 + ucast (irq + g) * 2 + 1), Wr (ioapic_base io + 0x10) (push_bit 24 (ucast d))],
          ioapic_sem := sm\<rparr>, s) \<and> sem_free sm"
proof -
  let ?e = "\<lparr>vector = ucast (ucast irq + 32 :: u32), delivery_mode = 0, dest_mode = 0, delivery_stat = 0, pin_polarity = 0, trigger_irr = 0,
     trigger_mode = 0, disabled = 0, dest = d\<rparr>"
  let ?p = "irq + g" and ?b = "ioapic_base io"
  let ?w = "[Wr ?b (0x10 + ucast ?p * 2), Wr (?b + 0x10) (ucast irq + 32)]"
  have h: "redir_low ?e = ucast irq + 32" "redir_high ?e = push_bit 24 (ucast d)" using redir_halves [OF assms(2)] by simp_all
  obtain sm where 1: "ioapic_write_reg ?b (0x10 + ucast ?p * 2) (ucast irq + 32) io s = Some (None, io\<lparr>mmio_log := mmio_log io @ ?w, ioapic_sem := sm\<rparr>, s)"
      "sem_free sm" using ioapic_write_reg_ok [OF assms(1)] by blast
  let ?io = "io\<lparr>mmio_log := mmio_log io @ ?w, ioapic_sem := sm\<rparr>"
  have "sem_free (ioapic_sem ?io)" using 1(2) by simp
  then obtain sm' where 2: "ioapic_write_reg ?b (0x10 + ucast ?p * 2 + 1) (push_bit 24 (ucast d)) ?io s =
        Some (None, ?io\<lparr>mmio_log := mmio_log ?io @ [Wr ?b (0x10 + ucast ?p * 2 + 1), Wr (?b + 0x10) (push_bit 24 (ucast d))], ioapic_sem := sm'\<rparr>, s)"
      "sem_free sm'" using ioapic_write_reg_ok by blast
  have "(if g > 0 then irq + g else irq) = ?p" by (simp add: word_gt_0)
  moreover have "arr_get (irq_override info) (unat irq) = Some g" using assms(2-4) by simp
  ultimately have "ioapic_redirect_external_int info irq d io s = ioapic_write_reg ?b (0x10 + ucast ?p * 2 + 1) (push_bit 24 (ucast d)) ?io s"
    unfolding ioapic_redirect_external_int_def Let_def IOAPIC_EXTERNAL_IRQ_BASE_def IRQ_REDIR_BASE_def using 1(1) h by simp
  then show ?thesis using 2 by (intro exI [of _ sm']) simp
qed

section \<open>Properties\<close>

text \<open>
  \<open>ioapic_redirect_external_int\<close> with a free semaphore returns without a wait and has written exactly one redirection entry, its two
  halves through the select and window registers: the interrupt arrives as the vector 32 + \<open>irq\<close>, enabled, fixed, edge
  triggered, at the processor \<open>dest_lapic\<close>. The entry is that of the pin \<open>irq\<close>, or, with an override \<open>g\<close>, of the pin \<open>irq + g\<close>. The
  semaphore is free again.
\<close>

theorem ioapic_redirect_writes_entry:
  assumes "sem_free (ioapic_sem io)" "unat irq < 24" "length (irq_override info) = 24" "g = irq_override info ! unat irq"
  shows "\<exists>sm. ioapic_redirect_external_int info irq d io s = Some (None,
       io\<lparr>mmio_log := mmio_log io @ [Wr (ioapic_base io) (0x10 + ucast (irq + g) * 2), Wr (ioapic_base io + 0x10) (ucast irq + 32),
            Wr (ioapic_base io) (0x10 + ucast (irq + g) * 2 + 1), Wr (ioapic_base io + 0x10) (push_bit 24 (ucast d))],
          ioapic_sem := sm\<rparr>, s) \<and> sem_free sm"
  by (rule ioapic_redirect_entry [OF assms])

text \<open>
  A start-up message names the page of the start address: for a page below 1 MiB the command word is the number of the page in
  its low byte, with the delivery mode 6 and the level bit, for the processor in the destination field, and the call
  returns as soon as the controller reports the message as sent.
\<close>

theorem lapic_startup_command:
  assumes "unat vec < 0x100000" "dev (mmio_log io @ [Wr (base + 0x310) (push_bit 24 (ucast ident)), Wr (base + 0x300) c]) (base + 0x300) AND 0x1000 = 0"
    "c = (vec div 4096 OR 0x4600)"
  shows "\<exists>io'. lapic_send_startup dev base ident vec io = Some io' \<and>
      (\<exists>v. mmio_log io' = mmio_log io @ [Wr (base + 0x310) (push_bit 24 (ucast ident)), Wr (base + 0x300) c, Rd (base + 0x300) v]) \<and>
      unat (ucast c :: u8) = unat vec div 4096"
proof -
  have "unat (vec div 4096) = unat vec div 4096" by (simp add: unat_div)
  then have small: "unat (vec div 4096) < 256" using assms(1) by simp
  have z: "(0x4600 :: u8) = 0" by simp
  have "(ucast c :: u8) = ucast (vec div 4096)" unfolding assms(3) by (simp add: unsigned_or_eq z)
  then have "unat (ucast c :: u8) = unat vec div 4096"
    using small \<open>unat (vec div 4096) = _\<close> by (simp add: unsigned_ucast_eq take_bit_nat_eq_self)
  moreover have "vec div 4096 OR ICR_STARTUP OR ICR_PHYSICAL OR ICR_ASSERT OR ICR_EDGE OR ICR_NO_SHORTHAND = c"
    unfolding assms(3) lapic_consts by (simp add: or.assoc)
  ultimately show ?thesis
    using assms(2) by (subst lapic_send_startup_def) (simp add: lapic_wait.simps mmio_write_def mmio_read_def Let_def LAPIC_ICRHI_def LAPIC_ICRLO_def ICR_DESTINATION_SHIFT_def ICR_SEND_PENDING_def)
qed

definition sample_ioapic :: ioapic where
  "sample_ioapic = \<lparr>ioapic_is_init = 1, ioapic_sem = sem_init undefined 1, ioapic_base = 0xfec00000, mmio_log = []\<rparr>"

theorem ioapic_redirect_writes_entry_witness:
  "\<exists>io. ioapic_redirect_external_int (madt_info0\<lparr>irq_override := 2 # replicate 23 0\<rparr>) 0 1 sample_ioapic sample_tasks = Some (None, io, sample_tasks) \<and>
     mmio_log io = [Wr 0xfec00000 0x14, Wr 0xfec00010 32, Wr 0xfec00000 0x15, Wr 0xfec00010 0x1000000]"
proof -
  have "sem_free (ioapic_sem sample_ioapic)" by (simp add: sem_free_def sample_ioapic_def sem_init_def spinlock_init_def)
  from ioapic_redirect_writes_entry [OF this, of 0 "madt_info0\<lparr>irq_override := 2 # replicate 23 0\<rparr>" 2 1 sample_tasks]
  show ?thesis by (auto simp: sample_ioapic_def push_bit_eq_mult)
qed

theorem lapic_startup_command_witness:
  "\<exists>io'. lapic_send_startup (\<lambda>_ _. 0) 0xfee00000 1 0x8000 sample_ioapic = Some io' \<and> unat (ucast (0x8000 div 4096 OR 0x4600 :: u32) :: u8) = 8"
  using lapic_startup_command [of "0x8000" "\<lambda>_ _. 0" sample_ioapic "0xfee00000" 1 "0x8000 div 4096 OR 0x4600"] by auto

end
