(* ===== verification/Pic.thy ===== *)
theory Pic
  imports Ports
begin

text \<open>
  \<^verbatim>\<open>kernel/drivers/pic.c\<close>: the two cascaded interrupt controllers. The driver keeps the mask registers in the bytes \<open>pic1\<close> and
  \<open>pic2\<close> and writes them to the data ports. The theorems are about the bytes the driver has sent to the ports.
\<close>

section \<open>Constants and state\<close>

definition PIC1_PORT_A :: u16 where "PIC1_PORT_A = 0x20"
definition PIC2_PORT_A :: u16 where "PIC2_PORT_A = 0xa0"
definition PIC1_COMMAND :: u16 where "PIC1_COMMAND = PIC1_PORT_A"
definition PIC1_DATA :: u16 where "PIC1_DATA = PIC1_PORT_A + 1"
definition PIC2_COMMAND :: u16 where "PIC2_COMMAND = PIC2_PORT_A"
definition PIC2_DATA :: u16 where "PIC2_DATA = PIC2_PORT_A + 1"
definition PIC1_START_INTERRUPT :: u32 where "PIC1_START_INTERRUPT = 0x20"
definition PIC2_START_INTERRUPT :: u32 where "PIC2_START_INTERRUPT = 0x28"
definition PIC2_END_INTERRUPT :: u32 where "PIC2_END_INTERRUPT = PIC2_START_INTERRUPT + 7"
definition PIC_ACK :: u8 where "PIC_ACK = 0x20"
definition ICW1_ICW4 :: u8 where "ICW1_ICW4 = 0x01"
definition ICW1_INIT :: u8 where "ICW1_INIT = 0x10"
definition ICW4_8086 :: u8 where "ICW4_8086 = 0x01"

lemmas pic_consts = PIC1_PORT_A_def PIC2_PORT_A_def PIC1_COMMAND_def PIC1_DATA_def PIC2_COMMAND_def PIC2_DATA_def
  PIC1_START_INTERRUPT_def PIC2_START_INTERRUPT_def PIC2_END_INTERRUPT_def PIC_ACK_def ICW1_ICW4_def ICW1_INIT_def ICW4_8086_def

record pic = ports +
  pic1 :: u8
  pic2 :: u8

section \<open>Operations\<close>

definition pic_remap :: "u32 \<Rightarrow> u32 \<Rightarrow> 'a ports_scheme \<Rightarrow> 'a ports_scheme" where
  "pic_remap offset1 offset2 s =
     (let s = outb PIC1_COMMAND (ICW1_INIT + ICW1_ICW4) s;
          s = outb PIC2_COMMAND (ICW1_INIT + ICW1_ICW4) s;
          s = outb PIC1_DATA (ucast offset1) s;
          s = outb PIC2_DATA (ucast offset2) s;
          s = outb PIC1_DATA 4 s;
          s = outb PIC2_DATA 2 s;
          s = outb PIC1_DATA ICW4_8086 s
      in outb PIC2_DATA ICW4_8086 s)"

definition pic_init :: "'a pic_scheme \<Rightarrow> 'a pic_scheme" where
  "pic_init s =
     (let s = pic_remap PIC1_START_INTERRUPT PIC2_START_INTERRUPT s;
          s = s\<lparr>pic1 := 0xff, pic2 := 0xff\<rparr>;
          s = outb PIC1_DATA (pic1 s) s
      in outb PIC2_DATA (pic2 s) s)"

definition pic_uninit :: "'a pic_scheme \<Rightarrow> 'a pic_scheme" where
  "pic_uninit s = pic_init s"

definition pic_enable_irq :: "u32 \<Rightarrow> 'a pic_scheme \<Rightarrow> 'a pic_scheme" where
  "pic_enable_irq irq_no s =
     (if irq_no < 8
      then let s = s\<lparr>pic1 := pic1 s AND NOT (push_bit (unat irq_no) 1)\<rparr> in outb PIC1_DATA (pic1 s) s
      else if irq_no < 16
      then let s = s\<lparr>pic2 := pic2 s AND NOT (push_bit (unat (irq_no - 8)) 1)\<rparr> in outb PIC2_DATA (pic2 s) s
      else s)"

definition pic_ack :: "u32 \<Rightarrow> 'a ports_scheme \<Rightarrow> 'a ports_scheme" where
  "pic_ack pic_int_num s =
     (if pic_int_num < PIC1_START_INTERRUPT \<or> pic_int_num > PIC2_END_INTERRUPT then s
      else if pic_int_num < PIC2_START_INTERRUPT then outb PIC1_PORT_A PIC_ACK s
      else outb PIC2_PORT_A PIC_ACK s)"

section \<open>Masks\<close>

text \<open>The mask the driver keeps is the last byte each controller was sent, and a line is enabled when its bit is 0.\<close>

definition mask_sent :: "'a pic_scheme \<Rightarrow> bool" where
  "mask_sent s \<longleftrightarrow> outs PIC1_DATA (port_log s) \<noteq> [] \<and> last (outs PIC1_DATA (port_log s)) = pic1 s \<and>
     outs PIC2_DATA (port_log s) \<noteq> [] \<and> last (outs PIC2_DATA (port_log s)) = pic2 s"

definition irq_line :: "'a pic_scheme \<Rightarrow> nat \<Rightarrow> bool" where
  "irq_line s n \<longleftrightarrow> (if n < 8 then \<not> bit (pic1 s) n else \<not> bit (pic2 s) (n - 8))"

lemma outb_pic [simp]: "pic1 (outb p v s) = pic1 s" "pic2 (outb p v s) = pic2 s"
  by (simp_all add: outb_def)

lemma pic_init_state:
  "pic1 (pic_init s) = 0xff" "pic2 (pic_init s) = 0xff" "mask_sent (pic_init s)"
  by (simp_all add: pic_init_def pic_remap_def Let_def mask_sent_def pic_consts)

lemma pic_init_no_line:
  assumes "n < 16"
  shows "\<not> irq_line (pic_init s) n"
proof -
  have "bit (0xff :: u8) k" if "k < 8" for k
  proof -
    have "(0xff :: u8) = mask 8" by (simp add: mask_eq_exp_minus_1)
    then show ?thesis using that by (simp only: bit_mask_iff) simp
  qed
  then show ?thesis using assms by (auto simp: irq_line_def pic_init_state)
qed

lemma pic_enable_irq_state:
  assumes "mask_sent s"
  shows "mask_sent (pic_enable_irq i s)"
    "n < 16 \<Longrightarrow> irq_line (pic_enable_irq i s) n \<longleftrightarrow> irq_line s n \<or> n = unat i"
proof -
  show "mask_sent (pic_enable_irq i s)" using assms by (simp add: pic_enable_irq_def Let_def mask_sent_def pic_consts)
  assume n: "n < 16"
  have m: "bit ((b :: u8) AND NOT (push_bit k 1)) j \<longleftrightarrow> bit b j \<and> j \<noteq> k" if "k < 8" for b k j
    using bit_and_not_single [of k b j] that by (simp add: push_bit_eq_mult)
  consider "i < 8" | "\<not> i < 8" "i < 16" | "\<not> i < 16" by blast
  then show "irq_line (pic_enable_irq i s) n \<longleftrightarrow> irq_line s n \<or> n = unat i"
  proof cases
    case 1
    then have "unat i < 8" by (simp add: word_less_nat_alt)
    then show ?thesis using 1 m by (auto simp: pic_enable_irq_def irq_line_def)
  next
    case 2
    then have "8 \<le> unat i" "unat i < 16" by (simp_all add: word_less_nat_alt)
    moreover from this have "unat (i - 8) = unat i - 8" by (subst unat_sub) (simp_all add: word_le_nat_alt)
    ultimately show ?thesis using 2 m n by (auto simp: pic_enable_irq_def irq_line_def)
  next
    case 3
    then have "16 \<le> unat i" by (simp add: word_less_nat_alt)
    then show ?thesis using 3 n by (auto simp: pic_enable_irq_def word_less_nat_alt)
  qed
qed

section \<open>Properties\<close>

text \<open>
  After \<open>pic_init\<close> and any sequence of \<open>pic_enable_irq\<close> the last mask each controller was sent is the one the driver keeps,
  and the enabled lines are exactly the requested ones below 16.
\<close>

theorem pic_lines_enabled:
  "mask_sent (fold pic_enable_irq irqs (pic_init s)) \<and>
   {n. n < 16 \<and> irq_line (fold pic_enable_irq irqs (pic_init s)) n} = {n. n < 16 \<and> n \<in> unat ` set irqs}"
proof -
  have "mask_sent (fold pic_enable_irq irqs t) \<and>
      (\<forall>n<16. irq_line (fold pic_enable_irq irqs t) n \<longleftrightarrow> irq_line t n \<or> n \<in> unat ` set irqs)" if "mask_sent t" for t :: "'a pic_scheme"
    using that
  proof (induction irqs arbitrary: t)
    case (Cons i irqs)
    from Cons.IH [OF pic_enable_irq_state(1) [OF Cons.prems]] show ?case
      using pic_enable_irq_state(2) [OF Cons.prems] by auto
  qed simp
  moreover have "\<not> irq_line (pic_init s) n" if "n < 16" for n using pic_init_no_line [OF that] .
  ultimately show ?thesis using pic_init_state(3) by blast
qed

text \<open>
  \<open>pic_ack\<close> acknowledges an interrupt of the second controller to the second controller only: the first one, through
  which every such interrupt is delivered, gets no acknowledgement.
\<close>

theorem pic_ack_slave_only:
  assumes "0x28 \<le> unat n" "unat n \<le> 0x2f"
  shows "outs PIC2_COMMAND (port_log (pic_ack n s)) = outs PIC2_COMMAND (port_log s) @ [PIC_ACK] \<and>
     outs PIC1_COMMAND (port_log (pic_ack n s)) = outs PIC1_COMMAND (port_log s)"
  using assms by (auto simp: pic_ack_def pic_consts word_less_nat_alt)

theorem pic_ack_slave_only_witness:
  "outs PIC1_COMMAND (port_log (pic_ack 0x2c \<lparr>port_log = []\<rparr>)) = []"
  using pic_ack_slave_only [of "0x2c" "\<lparr>port_log = []\<rparr>"] by simp

end
