(* ===== verification/Interrupt.thy ===== *)
theory Interrupt
  imports Ioapic Pic
begin

text \<open>
  \<^verbatim>\<open>kernel/interrupt/interrupt.c\<close>: the descriptor table, the registration of handlers and the dispatch. The addresses the linker
  gives to functions of the kernel are a function \<open>addr_of\<close> of their names, and a handler is run by its address, a
  function \<open>call\<close>, both arguments. The state has three parts: the tables and the ports, the registers of the interrupt
  controllers and the state of the tasks.
\<close>

section \<open>State\<close>

definition IDT_SIZE :: nat where "IDT_SIZE = 256"
definition INT_GPF :: u32 where "INT_GPF = 13"
definition INT_PAGEFAULT :: u32 where "INT_PAGEFAULT = 14"
definition INT_APIC_SPURIOUS :: u32 where "INT_APIC_SPURIOUS = 15"
definition INT_SYSTIME :: u32 where "INT_SYSTIME = 32"
definition INT_KEYBOARD :: u32 where "INT_KEYBOARD = 33"
definition INT_COM1 :: u32 where "INT_COM1 = 36"
definition INT_DEVICE_NOT_AVAiLABLE :: u32 where "INT_DEVICE_NOT_AVAiLABLE = 39"
definition INT_SYSCALL :: u32 where "INT_SYSCALL = 128"

lemmas int_consts = INT_GPF_def INT_PAGEFAULT_def INT_APIC_SPURIOUS_def INT_SYSTIME_def INT_KEYBOARD_def INT_COM1_def
  INT_DEVICE_NOT_AVAiLABLE_def INT_SYSCALL_def

record idt_entry =
  offset_low :: u16
  segment_selector :: u16
  idt_reserved :: u8
  type_and_attr :: u8
  offset_high :: u16

definition idt_entry0 :: idt_entry where
  "idt_entry0 = \<lparr>offset_low = 0, segment_selector = 0, idt_reserved = 0, type_and_attr = 0, offset_high = 0\<rparr>"

record idt =
  idt_limit :: u16
  idt_address :: u32

record interrupt = pic +
  idt_entries :: "idt_entry list"
  IDT :: idt
  idtr :: idt
  int_handler_table :: "u32 list"

type_synonym ('p, 'i, 'a) machine_state = "'p interrupt_scheme \<times> 'i ioapic_scheme \<times> 'a tasks_scheme"

section \<open>Operations\<close>

definition interrupt_encode_idt_entry :: "u32 \<Rightarrow> u32 \<Rightarrow> 'p interrupt_scheme \<Rightarrow> 'p interrupt_scheme option" where
  "interrupt_encode_idt_entry interrupt_num f_ptr_handler p =
     do { e \<leftarrow> arr_get (idt_entries p) (unat interrupt_num);
          es \<leftarrow> arr_set (idt_entries p) (unat interrupt_num)
            (e\<lparr>offset_low := ucast (f_ptr_handler AND 0xffff), offset_high := ucast (drop_bit 16 f_ptr_handler AND 0xffff),
               segment_selector := 0x8, idt_reserved := 0x0,
               type_and_attr := push_bit 7 1 OR push_bit 6 0 OR push_bit 5 0 OR push_bit 4 0 OR 0xe\<rparr>);
          Some (p\<lparr>idt_entries := es\<rparr>) }"

definition lidt :: "'p interrupt_scheme \<Rightarrow> 'p interrupt_scheme" where
  "lidt p = p\<lparr>idtr := IDT p\<rparr>"

definition is_hw_irq :: "u32 \<Rightarrow> bool" where
  "is_hw_irq irq \<longleftrightarrow> irq = INT_SYSTIME \<or> irq = INT_KEYBOARD \<or> irq = INT_COM1"

text \<open>The result says whether the caller was switched away in the semaphore of the I/O controller.\<close>

definition interrupt_register :: "MADT_info \<Rightarrow> u32 \<Rightarrow> u32 \<Rightarrow> ('p, 'i, 'a) machine_state \<Rightarrow>
    ((u32 \<times> u32) option \<times> ('p, 'i, 'a) machine_state) option" where
  "interrupt_register info irq isr = (\<lambda>(p, io, s).
     do { tab \<leftarrow> arr_set (int_handler_table p) (unat irq) isr;
          let p = p\<lparr>int_handler_table := tab\<rparr> in
          if is_hw_irq irq
          then if ioapic_is_initialized io \<noteq> 0
               then do { (sw, io, s) \<leftarrow> ioapic_redirect_external_int info (ucast (irq - IRQ_REDIR_BASE)) 0 io s; Some (sw, p, io, s) }
               else Some (None, pic_enable_irq (irq - IRQ_REDIR_BASE) p, io, s)
          else Some (None, p, io, s) })"

text \<open>The vectors of \<open>interrupt_init\<close> with the names of their stubs.\<close>

definition init_gates :: "(u32 \<times> string) list" where
  "init_gates = [(INT_GPF, ''asm_int_handler_13''), (INT_PAGEFAULT, ''asm_int_handler_14''), (INT_APIC_SPURIOUS, ''asm_int_handler_15''),
     (INT_SYSTIME, ''asm_int_handler_32''), (INT_KEYBOARD, ''asm_int_handler_33''), (INT_COM1, ''asm_int_handler_36''),
     (INT_DEVICE_NOT_AVAiLABLE, ''asm_int_handler_39''), (INT_SYSCALL, ''asm_int_handler_128'')]"

definition interrupt_init :: "(string \<Rightarrow> u32) \<Rightarrow> MADT_info \<Rightarrow> ('p, 'i, 'a) machine_state \<Rightarrow> ('p, 'i, 'a) machine_state option" where
  "interrupt_init addr_of info = (\<lambda>(p, io, s).
     do { let p = pic_init p in
          do { p \<leftarrow> forM init_gates (\<lambda>(n, f). interrupt_encode_idt_entry n (addr_of f)) p;
               let p = p\<lparr>IDT := \<lparr>idt_limit = 8 * of_nat IDT_SIZE - 1, idt_address = addr_of ''idt_entries''\<rparr>\<rparr>; p = lidt p in
               do { (_, st) \<leftarrow> interrupt_register info INT_COM1 (addr_of ''ISR_COM1'') (p, io, s);
                    (_, st) \<leftarrow> interrupt_register info INT_GPF (addr_of ''ISR_GPF'') st;
                    (_, st) \<leftarrow> interrupt_register info INT_DEVICE_NOT_AVAiLABLE (addr_of ''ISR_DEVICE_NOT_AVAILABLE'') st;
                    Some st } } })"

text \<open>The word \<open>return_reg\<close> points to is passed and returned; \<open>lapic_base\<close> is what \<open>lapic_get_base\<close> returns.\<close>

definition interrupt_handler :: "(u32 \<Rightarrow> u32 \<Rightarrow> ('p, 'i, 'a) machine_state \<Rightarrow> (u32 \<times> ('p, 'i, 'a) machine_state) option) \<Rightarrow> u32 \<Rightarrow>
    u32 \<Rightarrow> u32 \<Rightarrow> ('p, 'i, 'a) machine_state \<Rightarrow> (u32 \<times> ('p, 'i, 'a) machine_state) option" where
  "interrupt_handler call lapic_base return_reg interrupt_num = (\<lambda>(p, io, s).
     if unat interrupt_num \<ge> IDT_SIZE then Some (return_reg, p, io, s)
     else let (p, io) = (if ioapic_is_initialized io \<noteq> 0 then (p, lapic_ack lapic_base io) else (pic_ack interrupt_num p, io)) in
          do { h \<leftarrow> arr_get (int_handler_table p) (unat interrupt_num);
               if h \<noteq> 0 then call h return_reg (p, io, s) else Some (return_reg, p, io, s) })"

section \<open>The descriptor table\<close>

text \<open>What the processor reads from a descriptor: present, a 32-bit interrupt gate, and the address of the handler.\<close>

definition gate :: "idt_entry \<Rightarrow> u32 option" where
  "gate e = (if bit (type_and_attr e) 7 \<and> type_and_attr e AND 0x1f = 0xe
     then Some (push_bit 16 (ucast (offset_high e)) OR ucast (offset_low e)) else None)"

lemma split_address: "push_bit 16 (ucast (ucast (drop_bit 16 a AND 0xffff) :: u16)) OR ucast (ucast (a AND 0xffff) :: u16) = (a :: u32)"
proof (rule bit_word_eqI)
  have m: "x AND 0xffff = take_bit 16 x" for x :: u32 by (simp add: take_bit_eq_mask mask_eq_exp_minus_1)
  fix n assume n: "n < LENGTH(32)"
  then show "bit (push_bit 16 (ucast (ucast (drop_bit 16 a AND 0xffff) :: u16)) OR ucast (ucast (a AND 0xffff) :: u16) :: u32) n = bit a n"
    unfolding m by (cases "n < 16") (auto simp: bit_or_iff bit_take_bit_iff bit_push_bit_iff bit_drop_bit_eq bit_ucast_iff)
qed

lemma map_of_rev_distinct: "distinct (map fst xs) \<Longrightarrow> map_of (rev xs) = map_of xs"
  by (rule map_of_eqI) (auto simp: rev_map [symmetric] map_of_eq_Some_iff dest!: map_of_SomeD)

lemma gate_encoded:
  "gate (e\<lparr>offset_low := ucast (a AND 0xffff), offset_high := ucast (drop_bit 16 a AND 0xffff), segment_selector := 0x8, idt_reserved := 0x0,
     type_and_attr := push_bit 7 1 OR push_bit 6 0 OR push_bit 5 0 OR push_bit 4 0 OR 0xe\<rparr>) = Some a"
  using split_address [of a] by (simp add: gate_def bit_simps)

lemma encode_gate:
  assumes "unat v < length (idt_entries p)"
  obtains e where "interrupt_encode_idt_entry v a p = Some (p\<lparr>idt_entries := (idt_entries p)[unat v := e]\<rparr>)" "gate e = Some a"
  using assms gate_encoded by (auto simp: interrupt_encode_idt_entry_def)

lemma encode_gates:
  assumes "length (idt_entries p) = 256" "\<forall>g\<in>set gs. unat (fst g) < 256"
  shows "\<exists>es. forM gs (\<lambda>(n, f). interrupt_encode_idt_entry n (addr_of f)) p = Some (p\<lparr>idt_entries := es\<rparr>) \<and> length es = 256 \<and>
     (\<forall>n<256. gate (es ! n) = (case map_of (rev (map (\<lambda>(v, f). (unat v, addr_of f)) gs)) n of None \<Rightarrow> gate (idt_entries p ! n) | Some a \<Rightarrow> Some a))"
  using assms
proof (induction gs arbitrary: p)
  case Nil
  then show ?case by (auto intro!: exI [of _ "idt_entries p"])
next
  case (Cons g gs)
  obtain v f where g: "g = (v, f)" by force
  have v: "unat v < length (idt_entries p)" using Cons.prems g by simp
  obtain e where e: "interrupt_encode_idt_entry v (addr_of f) p = Some (p\<lparr>idt_entries := (idt_entries p)[unat v := e]\<rparr>)" "gate e = Some (addr_of f)"
    by (rule encode_gate [OF v])
  let ?p = "p\<lparr>idt_entries := (idt_entries p)[unat v := e]\<rparr>" and ?m = "\<lambda>gs. map_of (rev (map (\<lambda>(v, f). (unat v, addr_of f)) gs))"
  obtain es where es: "forM gs (\<lambda>(n, f). interrupt_encode_idt_entry n (addr_of f)) ?p = Some (?p\<lparr>idt_entries := es\<rparr>)" "length es = 256"
      "\<forall>n<256. gate (es ! n) = (case ?m gs n of None \<Rightarrow> gate (idt_entries ?p ! n) | Some a \<Rightarrow> Some a)"
    using Cons.IH [of ?p] Cons.prems by auto
  have "gate (es ! n) = (case ?m (g # gs) n of None \<Rightarrow> gate (idt_entries p ! n) | Some a \<Rightarrow> Some a)" if "n < 256" for n
    using es(3) that e(2) g Cons.prems(1) by (auto simp: map_add_def nth_list_update split: option.splits)
  then show ?case using es(1,2) e(1) g by (intro exI [of _ es]) simp
qed

lemma pic_ack_table:
  "pic_ack n (p\<lparr>int_handler_table := t\<rparr>) = (pic_ack n p)\<lparr>int_handler_table := t\<rparr>"
  "int_handler_table (pic_ack n p) = int_handler_table p"
  by (cases p; simp add: pic_ack_def outb_def)+

section \<open>Properties\<close>

text \<open>
  C29. \<open>interrupt_init\<close> on the empty tables returns with the eight vectors 13, 14, 15, 32, 33, 36, 39 and 128 pointing to the stubs of these numbers, every other vector without a gate,
  the table loaded with its limit of 2047, the three handlers registered, and, with the old controllers in use, only the line of
  the serial port enabled.
\<close>

theorem interrupt_init_gates:
  fixes p :: "'p interrupt_scheme" and s :: "'a tasks_scheme"
  assumes "idt_entries p = replicate 256 idt_entry0" "length (int_handler_table p) = 256" "ioapic_is_init io = 0"
  shows "\<exists>p'. interrupt_init addr_of info (p, io, s) = Some (p', io, s) \<and>
     (\<forall>n<256. gate (idt_entries p' ! n) = map_of [(13, addr_of ''asm_int_handler_13''), (14, addr_of ''asm_int_handler_14''),
        (15, addr_of ''asm_int_handler_15''), (32, addr_of ''asm_int_handler_32''), (33, addr_of ''asm_int_handler_33''),
        (36, addr_of ''asm_int_handler_36''), (39, addr_of ''asm_int_handler_39''), (128, addr_of ''asm_int_handler_128'')] n) \<and>
     idtr p' = \<lparr>idt_limit = 2047, idt_address = addr_of ''idt_entries''\<rparr> \<and>
     int_handler_table p' = (int_handler_table p)[36 := addr_of ''ISR_COM1'', 13 := addr_of ''ISR_GPF'', 39 := addr_of ''ISR_DEVICE_NOT_AVAILABLE''] \<and>
     {n. n < 16 \<and> irq_line p' n} = {4} \<and> mask_sent p'"
proof -
  have k: "idt_entries (pic_init p) = idt_entries p" "int_handler_table (pic_init p) = int_handler_table p"
    by (simp_all add: pic_init_def pic_remap_def outb_def Let_def)
  obtain es where es: "forM init_gates (\<lambda>(n, f). interrupt_encode_idt_entry n (addr_of f)) (pic_init p) = Some ((pic_init p)\<lparr>idt_entries := es\<rparr>)"
      "\<forall>n<256. gate (es ! n) = (case map_of (rev (map (\<lambda>(v, f). (unat v, addr_of f)) init_gates)) n of None \<Rightarrow> gate (idt_entries p ! n) | Some a \<Rightarrow> Some a)"
    using encode_gates [of "pic_init p" init_gates addr_of] assms(1) k by (auto simp: init_gates_def int_consts)
  define p1 where "p1 = (pic_init p)\<lparr>idt_entries := es, IDT := \<lparr>idt_limit = 2047, idt_address = addr_of ''idt_entries''\<rparr>, idtr := \<lparr>idt_limit = 2047, idt_address = addr_of ''idt_entries''\<rparr>,
     int_handler_table := (int_handler_table p)[36 := addr_of ''ISR_COM1'']\<rparr>"
  define p' where "p' = (pic_enable_irq 4 p1)\<lparr>int_handler_table := (int_handler_table p)[36 := addr_of ''ISR_COM1'', 13 := addr_of ''ISR_GPF'', 39 := addr_of ''ISR_DEVICE_NOT_AVAILABLE'']\<rparr>"
  have e1: "int_handler_table (pic_enable_irq 4 q) = int_handler_table q" "idt_entries (pic_enable_irq 4 q) = idt_entries q"
     "idtr (pic_enable_irq 4 q) = idtr q" for q :: "'p interrupt_scheme" by (simp_all add: pic_enable_irq_def outb_def Let_def)
  have run: "interrupt_init addr_of info (p, io, s) = Some (p', io, s)"
    using es(1) k assms(2,3) e1
    by (simp add: interrupt_init_def interrupt_register_def lidt_def is_hw_irq_def int_consts IRQ_REDIR_BASE_def ioapic_is_initialized_def IDT_SIZE_def
        p1_def p'_def Let_def)
  have "distinct (map fst (map (\<lambda>(v, f). (unat v, addr_of f)) init_gates))" by (simp add: init_gates_def int_consts)
  then have "map_of (rev (map (\<lambda>(v, f). (unat v, addr_of f)) init_gates)) = map_of (map (\<lambda>(v, f). (unat v, addr_of f)) init_gates)"
    by (rule map_of_rev_distinct)
  then have "\<forall>n<256. gate (es ! n) = map_of (map (\<lambda>(v, f). (unat v, addr_of f)) init_gates) n"
    using es(2) assms(1) by (simp add: gate_def idt_entry0_def split: option.splits)
  then have "\<forall>n<256. gate (idt_entries p' ! n) = map_of (map (\<lambda>(v, f). (unat v, addr_of f)) init_gates) n"
    by (simp add: p'_def p1_def e1)
  moreover have "map (\<lambda>(v, f). (unat v, addr_of f)) init_gates = [(13, addr_of ''asm_int_handler_13''), (14, addr_of ''asm_int_handler_14''),
        (15, addr_of ''asm_int_handler_15''), (32, addr_of ''asm_int_handler_32''), (33, addr_of ''asm_int_handler_33''),
        (36, addr_of ''asm_int_handler_36''), (39, addr_of ''asm_int_handler_39''), (128, addr_of ''asm_int_handler_128'')]"
    by (simp add: init_gates_def int_consts)
  ultimately have "\<forall>n<256. gate (idt_entries p' ! n) = map_of [(13, addr_of ''asm_int_handler_13''), (14, addr_of ''asm_int_handler_14''),
        (15, addr_of ''asm_int_handler_15''), (32, addr_of ''asm_int_handler_32''), (33, addr_of ''asm_int_handler_33''),
        (36, addr_of ''asm_int_handler_36''), (39, addr_of ''asm_int_handler_39''), (128, addr_of ''asm_int_handler_128'')] n" by (simp only:)
  moreover have sent: "mask_sent p1" using pic_init_state(3) [of p] by (simp add: p1_def mask_sent_def)
  have none: "\<not> irq_line p1 n" if "n < 16" for n
    using pic_init_no_line [OF that, of p] by (auto simp: p1_def irq_line_def split: if_splits)
  have line: "irq_line p' n = irq_line (pic_enable_irq 4 p1) n" "mask_sent p' = mask_sent (pic_enable_irq 4 p1)" for n
    by (simp_all add: p'_def irq_line_def mask_sent_def)
  have "{n. n < 16 \<and> irq_line p' n} = {4}" "mask_sent p'"
    using pic_enable_irq_state [OF sent, where i = 4] none by (auto simp: line)
  ultimately show ?thesis using run by (intro exI [of _ p']) (simp add: p'_def p1_def e1)
qed

text \<open>
  A registered handler is called for its interrupt, behind exactly one acknowledgement: after \<open>interrupt_register\<close> of a handler for a vector
  that is not of external hardware, \<open>interrupt_handler\<close> on that vector runs the handler, with the controllers acknowledged as the
  configuration asks; a number from 256 on changes nothing, and a vector without a handler is only acknowledged.
\<close>

theorem interrupt_dispatches:
  fixes p :: "'p interrupt_scheme" and s :: "'a tasks_scheme"
  assumes "length (int_handler_table p) = 256"
    and "acked = (if ioapic_is_init io \<noteq> 0 then (p, lapic_ack base io) else (pic_ack n p, io))"
  shows "(unat n < 256 \<and> \<not> is_hw_irq n \<and> isr \<noteq> 0 \<longrightarrow>
       (\<exists>p1. interrupt_register info n isr (p, io, s) = Some (None, p1, io, s) \<and>
          interrupt_handler call base r n (p1, io, s) =
            call isr r ((fst acked)\<lparr>int_handler_table := (int_handler_table p)[unat n := isr]\<rparr>, snd acked, s))) \<and>
     (unat n \<ge> 256 \<longrightarrow> interrupt_handler call base r n (p, io, s) = Some (r, p, io, s)) \<and>
     (unat n < 256 \<and> int_handler_table p ! unat n = 0 \<longrightarrow> interrupt_handler call base r n (p, io, s) = Some (r, fst acked, snd acked, s))"
  using assms
  by (auto simp: interrupt_register_def interrupt_handler_def IDT_SIZE_def ioapic_is_initialized_def pic_ack_table split_beta)

definition sample_interrupt :: interrupt where
  "sample_interrupt = \<lparr>port_log = [], pic1 = 0, pic2 = 0, idt_entries = replicate 256 idt_entry0, IDT = \<lparr>idt_limit = 0, idt_address = 0\<rparr>,
     idtr = \<lparr>idt_limit = 0, idt_address = 0\<rparr>, int_handler_table = replicate 256 0\<rparr>"

theorem interrupt_init_gates_witness:
  "\<exists>p'. interrupt_init (\<lambda>f. of_nat (length f)) madt_info0 (sample_interrupt, sample_ioapic\<lparr>ioapic_is_init := 0\<rparr>, sample_tasks) =
       Some (p', sample_ioapic\<lparr>ioapic_is_init := 0\<rparr>, sample_tasks) \<and> gate (idt_entries p' ! 33) = Some 18 \<and> gate (idt_entries p' ! 34) = None"
proof -
  have "idt_entries sample_interrupt = replicate 256 idt_entry0" "length (int_handler_table sample_interrupt) = 256"
      "ioapic_is_init (sample_ioapic\<lparr>ioapic_is_init := 0\<rparr>) = 0" by (simp_all add: sample_interrupt_def)
  from interrupt_init_gates [OF this, of "\<lambda>f. of_nat (length f)" madt_info0 sample_tasks]
  show ?thesis by auto
qed

theorem interrupt_dispatches_witness:
  "\<exists>p1. interrupt_register madt_info0 128 7 (sample_interrupt, sample_ioapic, sample_tasks) = Some (None, p1, sample_ioapic, sample_tasks) \<and>
     interrupt_handler (\<lambda>h r st. Some (h, st)) 0xfee00000 1 128 (p1, sample_ioapic, sample_tasks) =
       Some (7, sample_interrupt\<lparr>int_handler_table := (replicate 256 0)[128 := 7]\<rparr>, lapic_ack 0xfee00000 sample_ioapic, sample_tasks)"
  using interrupt_dispatches [of sample_interrupt "(sample_interrupt, lapic_ack 0xfee00000 sample_ioapic)" sample_ioapic "0xfee00000" 128 7 madt_info0
      sample_tasks "\<lambda>h r st. Some (h, st)" 1]
  by (simp add: sample_interrupt_def sample_ioapic_def is_hw_irq_def int_consts)

end
