(* ===== verification/Lapic.thy ===== *)
theory Lapic
  imports Interrupt
begin

text \<open>
  The part of \<^verbatim>\<open>kernel/drivers/lapic.c\<close> that uses the interrupt tables, and \<^verbatim>\<open>kernel/drivers/cpuid.c\<close>. What the processor answers to
  \<open>cpuid\<close> is an argument: for a request, the four registers. The commands of the controller are in \<open>Ioapic\<close>.
\<close>

section \<open>Processor identification\<close>

type_synonym cpuid_answers = "u32 \<Rightarrow> u32 \<times> u32 \<times> u32 \<times> u32"

definition CPUID_GETVENDORSTRING :: u32 where "CPUID_GETVENDORSTRING = 0"
definition CPUID_GETFEATURES :: u32 where "CPUID_GETFEATURES = 1"
definition CPUID_FEAT_EDX_APIC :: u32 where "CPUID_FEAT_EDX_APIC = push_bit 9 1"

definition cpuid :: "cpuid_answers \<Rightarrow> u32 \<Rightarrow> u32 \<times> u32" where
  "cpuid cpu code = (let (a, b, c, d) = cpu code in (a, d))"

text \<open>The array the four registers are stored to.\<close>

definition cpuid_string :: "cpuid_answers \<Rightarrow> u32 \<Rightarrow> u32 \<times> u32 list" where
  "cpuid_string cpu code = (let (a, b, c, d) = cpu code in (a, [a, b, c, d]))"

definition cpuid_getcpufeatures :: "cpuid_answers \<Rightarrow> u32 \<times> u32" where
  "cpuid_getcpufeatures cpu = cpuid cpu CPUID_GETFEATURES"

definition cpuid_hasapic :: "cpuid_answers \<Rightarrow> u32" where
  "cpuid_hasapic cpu = (let (_, edx) = cpuid_getcpufeatures cpu in of_bool (edx AND CPUID_FEAT_EDX_APIC \<noteq> 0))"

text \<open>Each of the four assignments to a \<^verbatim>\<open>char\<close> keeps the low byte of a register.\<close>

definition cpuid_getvendor :: "cpuid_answers \<Rightarrow> u8 list" where
  "cpuid_getvendor cpu = (let (_, vendor) = cpuid_string cpu CPUID_GETVENDORSTRING in map ucast vendor)"

section \<open>The local controller\<close>

record lapic = ioapic +
  lapic_base :: u32

definition has_apic :: "cpuid_answers \<Rightarrow> u32" where
  "has_apic cpu = cpuid_hasapic cpu"

definition lapic_init :: "cpuid_answers \<Rightarrow> mmio_device \<Rightarrow> (string \<Rightarrow> u32) \<Rightarrow> MADT_info \<Rightarrow> u32 \<Rightarrow> ('p, 'i lapic_ext, 'a) machine_state \<Rightarrow>
    (u32 \<times> ('p, 'i lapic_ext, 'a) machine_state) option" where
  "lapic_init cpu dev addr_of info base = (\<lambda>(p, io, s).
     if has_apic cpu = 0 then Some (-1, p, io, s)
     else let (cpuno, io) = lapic_get_id dev base io in
       do { (_, p, io, s) \<leftarrow> interrupt_register info INT_APIC_SPURIOUS (addr_of ''ISR_APIC_SPURIOUS'') (p, io, s);
            let io = io\<lparr>lapic_base := base\<rparr>;
                (svr, io) = mmio_read dev (base + LAPIC_SVR) io;
                io = mmio_write (base + LAPIC_SVR) (svr OR (0x100 OR SPURIOUS_IVT)) io;
                io = mmio_write (base + LAPIC_EOI) 0 io;
                io = mmio_write (base + LAPIC_TPR) 0 io
            in Some (0, p, io, s) })"

definition lapic_get_base :: "'i lapic_scheme \<Rightarrow> u32" where
  "lapic_get_base io = lapic_base io"

section \<open>Theorems\<close>

text \<open>The controller's software enable bit is set in the register, and its vector is the spurious one.\<close>

lemma svr_enabled: "bit (svr OR (0x100 OR SPURIOUS_IVT)) 8" "(svr OR (0x100 OR SPURIOUS_IVT)) AND 0xf = (0xf :: u32)"
proof -
  show "bit (svr OR (0x100 OR SPURIOUS_IVT)) 8" by (simp add: SPURIOUS_IVT_def bit_or_iff)
  show "(svr OR (0x100 OR SPURIOUS_IVT)) AND 0xf = (0xf :: u32)"
  proof (rule bit_word_eqI)
    fix n
    have "(0xf :: u32) AND 0x10f = 0xf" by simp
    then have "bit (0xf :: u32) n \<Longrightarrow> bit (0x10f :: u32) n" using bit_and_iff by metis
    then show "bit ((svr OR (0x100 OR SPURIOUS_IVT)) AND 0xf) n = bit (0xf :: u32) n"
      by (auto simp: SPURIOUS_IVT_def bit_and_iff bit_or_iff)
  qed
qed

text \<open>
  The local controller is switched on: on a processor with one, \<open>lapic_init\<close> returns 0, sets the enable bit of the spurious interrupt register and
  keeps its other bits, ends a pending interrupt and accepts all priorities, in this order, and an interrupt that
  arrives later is acknowledged at this controller. On a processor without one it returns -1 and nothing is accessed.
\<close>

theorem lapic_init_enables:
  fixes p :: "'p interrupt_scheme" and s :: "'a tasks_scheme" and io :: "'i lapic_scheme"
  assumes "length (int_handler_table p) = 256"
  shows "(snd (cpuid cpu 1) AND push_bit 9 1 = 0 \<longrightarrow> lapic_init cpu dev addr_of info base (p, io, s) = Some (-1, p, io, s)) \<and>
     (snd (cpuid cpu 1) AND push_bit 9 1 \<noteq> 0 \<longrightarrow>
       (\<exists>p' io' k svr svr'. lapic_init cpu dev addr_of info base (p, io, s) = Some (0, p', io', s) \<and>
          int_handler_table p' = (int_handler_table p)[15 := addr_of ''ISR_APIC_SPURIOUS''] \<and>
          mmio_log io' = mmio_log io @ [Rd (base + 0x20) k, Rd (base + 0xf0) svr, Wr (base + 0xf0) svr', Wr (base + 0xb0) 0, Wr (base + 0x80) 0] \<and>
          svr' = svr OR 0x10f \<and> bit svr' 8 \<and> svr' AND 0xf = 0xf \<and>
          (ioapic_is_init io \<noteq> 0 \<and> unat n < 256 \<and> int_handler_table p' ! unat n = 0 \<longrightarrow>
             interrupt_handler call (lapic_get_base io') r n (p', io', s) = Some (r, p', lapic_ack base io', s))))"
proof (intro conjI impI)
  assume none: "snd (cpuid cpu 1) AND push_bit 9 1 = 0"
  then show "lapic_init cpu dev addr_of info base (p, io, s) = Some (-1, p, io, s)"
    by (simp add: lapic_init_def has_apic_def cpuid_hasapic_def cpuid_getcpufeatures_def CPUID_GETFEATURES_def CPUID_FEAT_EDX_APIC_def split_beta)
next
  assume some: "snd (cpuid cpu 1) AND push_bit 9 1 \<noteq> 0"
  define tab where "tab = (int_handler_table p)[15 := addr_of ''ISR_APIC_SPURIOUS'']"
  define p' where "p' = p\<lparr>int_handler_table := tab\<rparr>"
  define k where "k = dev (mmio_log io) (base + 0x20)"
  define io1 where "io1 = io\<lparr>mmio_log := mmio_log io @ [Rd (base + 0x20) k], lapic_base := base\<rparr>"
  define svr where "svr = dev (mmio_log io1) (base + 0xf0)"
  define io' where "io' = io1\<lparr>mmio_log := mmio_log io @ [Rd (base + 0x20) k, Rd (base + 0xf0) svr, Wr (base + 0xf0) (svr OR 0x10f), Wr (base + 0xb0) 0, Wr (base + 0x80) 0]\<rparr>"
  have reg: "interrupt_register info 15 (addr_of ''ISR_APIC_SPURIOUS'') (p, q, s) = Some (None, p', q, s)" for q :: "'i lapic_scheme"
    using assms by (simp add: interrupt_register_def is_hw_irq_def int_consts p'_def tab_def)
  have run: "lapic_init cpu dev addr_of info base (p, io, s) = Some (0, p', io', s)"
    using some reg
    by (simp add: lapic_init_def has_apic_def cpuid_hasapic_def cpuid_getcpufeatures_def CPUID_GETFEATURES_def CPUID_FEAT_EDX_APIC_def split_beta
        lapic_get_id_def mmio_read_def mmio_write_def Let_def lapic_consts INT_APIC_SPURIOUS_def io'_def io1_def k_def svr_def)
  have "svr OR 0x10f = svr OR (0x100 OR SPURIOUS_IVT)" by (simp add: SPURIOUS_IVT_def)
  then have "bit (svr OR 0x10f) 8" "(svr OR 0x10f) AND 0xf = 0xf" using svr_enabled [of svr] by simp_all
  moreover have "interrupt_handler call (lapic_get_base io') r n (p', io', s) = Some (r, p', lapic_ack base io', s)"
    if "ioapic_is_init io \<noteq> 0 \<and> unat n < 256 \<and> int_handler_table p' ! unat n = 0"
    using that assms by (simp add: interrupt_handler_def IDT_SIZE_def ioapic_is_initialized_def io'_def io1_def lapic_get_base_def p'_def tab_def)
  ultimately show "\<exists>p' io' k svr svr'. lapic_init cpu dev addr_of info base (p, io, s) = Some (0, p', io', s) \<and>
          int_handler_table p' = (int_handler_table p)[15 := addr_of ''ISR_APIC_SPURIOUS''] \<and>
          mmio_log io' = mmio_log io @ [Rd (base + 0x20) k, Rd (base + 0xf0) svr, Wr (base + 0xf0) svr', Wr (base + 0xb0) 0, Wr (base + 0x80) 0] \<and>
          svr' = svr OR 0x10f \<and> bit svr' 8 \<and> svr' AND 0xf = 0xf \<and>
          (ioapic_is_init io \<noteq> 0 \<and> unat n < 256 \<and> int_handler_table p' ! unat n = 0 \<longrightarrow>
             interrupt_handler call (lapic_get_base io') r n (p', io', s) = Some (r, p', lapic_ack base io', s))"
    using run by (intro exI [of _ p'] exI [of _ io'] exI [of _ k] exI [of _ svr] exI [of _ "svr OR 0x10f"]) (simp add: p'_def tab_def io'_def)
qed

theorem lapic_init_enables_witness:
  "\<exists>p' io'. lapic_init (\<lambda>_. (0, 0, 0, 0x200)) (\<lambda>_ _. 0) (\<lambda>_. 5) madt_info0 0xfee00000
       (sample_interrupt, ioapic.extend sample_ioapic (lapic.fields 0), sample_tasks) = Some (0, p', io', sample_tasks) \<and>
     int_handler_table p' ! 15 = 5"
proof -
  have len: "length (int_handler_table sample_interrupt) = 256" by (simp add: sample_interrupt_def)
  have "snd (cpuid (\<lambda>_. (0, 0, 0, 0x200)) 1) AND push_bit 9 1 \<noteq> 0" by (simp add: cpuid_def)
  with lapic_init_enables [OF len, where cpu = "\<lambda>_. (0, 0, 0, 0x200)" and dev = "\<lambda>_ _. 0" and addr_of = "\<lambda>_. 5" and info = madt_info0
      and base = "0xfee00000" and io = "ioapic.extend sample_ioapic (lapic.fields 0)" and s = sample_tasks
      and call = "\<lambda>h r st. Some (r, st)" and r = 0 and n = 0]
  obtain p' io' where "lapic_init (\<lambda>_. (0, 0, 0, 0x200)) (\<lambda>_ _. 0) (\<lambda>_. 5) madt_info0 0xfee00000
       (sample_interrupt, ioapic.extend sample_ioapic (lapic.fields 0), sample_tasks) = Some (0, p', io', sample_tasks)"
      "int_handler_table p' = (int_handler_table sample_interrupt)[15 := 5]" by blast
  then show ?thesis using len by (intro exI [of _ p'] exI [of _ io']) simp
qed

end
