(* ===== verification/Interrupt_Entry.thy ===== *)
theory Interrupt_Entry
  imports Context
begin

text \<open>
  \<^verbatim>\<open>kernel/interrupt/interrupt_hnd.S\<close>: the stubs the descriptor table points to and their common part, as lists of instructions on the
  machine of \<open>Context\<close>. The theorem is that an interrupted program continues as if nothing had happened, except for the word of
  the saved \<open>eax\<close> that the handler may change through its argument \<open>return_reg\<close>.
\<close>

section \<open>The code\<close>

text \<open>
  What the processor does when it takes an interrupt: the flags, the code segment, the instruction pointer and, for some exceptions, an
  error code are pushed, and interrupts are off.
\<close>

definition take_interrupt :: "u32 option \<Rightarrow> u32 \<Rightarrow> machine \<Rightarrow> machine" where
  "take_interrupt err stub c = (let c' = exec ([Pushf, PushI 8, PushI (mip c)] @ (case err of None \<Rightarrow> [] | Some k \<Rightarrow> [PushI k])) c
     in c'\<lparr>mip := stub, mflags := mflags c AND NOT 0x200\<rparr>)"

definition no_error_code_interrupt_handler :: "u32 \<Rightarrow> instr list" where
  "no_error_code_interrupt_handler n = [PushI 0, PushI n]"

definition error_code_interrupt_handler :: "u32 \<Rightarrow> instr list" where
  "error_code_interrupt_handler n = [PushI n]"

definition common_enter :: "instr list" where
  "common_enter = [Push EAX, Push EBX, Push ECX, Push EDX, Push EBP, Push ESI, Push EDI, Push ESP, Lea EAX ESP 28, Push EAX]"

definition common_leave :: "instr list" where
  "common_leave = [Pop EAX, Pop ESP, Pop EDI, Pop ESI, Pop EBP, Pop EDX, Pop ECX, Pop EBX, Pop EAX, AddI ESP 8, Iret]"

definition asm_int_handler_enter :: "u32 option \<Rightarrow> u32 \<Rightarrow> instr list" where
  "asm_int_handler_enter err n = (case err of None \<Rightarrow> no_error_code_interrupt_handler n | Some k \<Rightarrow> error_code_interrupt_handler n) @ common_enter"

text \<open>
  \<open>interrupt_handler\<close> is a C function with its parameters by value on the stack: it returns with the stack pointer it was called with, and it does
  not assign to its parameters except, through \<open>return_reg\<close>, to the word it points to.
\<close>

definition keeps_parameters :: "machine \<Rightarrow> machine \<Rightarrow> bool" where
  "keeps_parameters c c' \<longleftrightarrow> regs c' ESP = regs c ESP \<and>
     (\<forall>k\<in>{4, 8, 12, 16, 20, 24, 28, 36, 40, 44, 48, 52}. load32 (mmem c') (regs c ESP + k) = load32 (mmem c) (regs c ESP + k))"

section \<open>The frame\<close>

text \<open>Words pushed one after the other.\<close>

fun push_all :: "u32 \<Rightarrow> u32 list \<Rightarrow> mem \<Rightarrow> mem" where
  "push_all e [] m = m"
| "push_all e (v # vs) m = push_all (e - 4) vs (store32 m (e - 4) v)"

lemma push_all_above:
  "aligned e \<Longrightarrow> aligned x \<Longrightarrow> \<forall>k\<in>{1..length vs}. x \<noteq> e - 4 * of_nat k \<Longrightarrow> load32 (push_all e vs m) x = load32 m x"
proof (induction vs arbitrary: e m)
  case (Cons v vs)
  have "x \<noteq> e - 4 - 4 * of_nat k" if "k \<in> {1..length vs}" for k
    using Cons.prems(3) [THEN bspec, of "Suc k"] that by (simp add: diff_diff_eq distrib_left)
  moreover have "x \<noteq> e - 4" using Cons.prems(3) [THEN bspec, of 1] by simp
  ultimately show ?case using Cons by simp
qed simp

lemma push_all_load:
  "aligned e \<Longrightarrow> length vs < 2 ^ 28 \<Longrightarrow> i < length vs \<Longrightarrow> load32 (push_all e vs m) (e - 4 * of_nat (Suc i)) = vs ! i"
proof (induction vs arbitrary: e m i)
  case (Cons v vs)
  show ?case
  proof (cases i)
    case 0
    have "e - 4 \<noteq> e - 4 - 4 * of_nat k" if "k \<in> {1..length vs}" for k
    proof -
      have "unat (4 * of_nat k :: u32) = 4 * k" using that Cons.prems(2) by (simp add: unat_word_ariths unat_of_nat)
      then have "(4 * of_nat k :: u32) \<noteq> 0" using that by (metis atLeastAtMost_iff mult_is_0 not_one_le_zero unat_0 zero_neq_numeral)
      then show ?thesis by simp
    qed
    then have "load32 (push_all (e - 4) vs (store32 m (e - 4) v)) (e - 4) = load32 (store32 m (e - 4) v) (e - 4)"
      using Cons.prems(1) by (intro push_all_above) auto
    then show ?thesis using 0 by simp
  next
    case (Suc j)
    have "load32 (push_all (e - 4) vs (store32 m (e - 4) v)) (e - 4 - 4 * of_nat (Suc j)) = vs ! j"
      using Cons.prems Suc by (intro Cons.IH) auto
    then show ?thesis using Suc by (simp add: diff_diff_eq distrib_left)
  qed
qed simp

lemma entered_mem:
  assumes "c1 = exec (asm_int_handler_enter err n) (take_interrupt err stub c)" "e = regs c ESP"
  shows "regs c1 ESP = e - 56"
    "mmem c1 = push_all e [mflags c, 8, mip c, case err of None \<Rightarrow> 0 | Some k \<Rightarrow> k, n, regs c EAX, regs c EBX, regs c ECX, regs c EDX,
       regs c EBP, regs c ESI, regs c EDI, e - 48, e - 24] (mmem c)"
  by (cases err; simp add: assms asm_int_handler_enter_def take_interrupt_def no_error_code_interrupt_handler_def error_code_interrupt_handler_def
      common_enter_def exec_def Let_def diff_diff_eq)+

lemma entered:
  assumes a: "aligned (regs c ESP)" and c1: "c1 = exec (asm_int_handler_enter err n) (take_interrupt err stub c)" and e: "e = regs c ESP"
  shows "load32 (mmem c1) (e - 56) = e - 24" "load32 (mmem c1) (e - 52) = e - 48"
    "load32 (mmem c1) (e - 48) = regs c EDI" "load32 (mmem c1) (e - 44) = regs c ESI" "load32 (mmem c1) (e - 40) = regs c EBP"
    "load32 (mmem c1) (e - 36) = regs c EDX" "load32 (mmem c1) (e - 32) = regs c ECX" "load32 (mmem c1) (e - 28) = regs c EBX"
    "load32 (mmem c1) (e - 24) = regs c EAX" "load32 (mmem c1) (e - 20) = n" "load32 (mmem c1) (e - 16) = (case err of None \<Rightarrow> 0 | Some k \<Rightarrow> k)"
    "load32 (mmem c1) (e - 12) = mip c" "load32 (mmem c1) (e - 4) = mflags c"
proof -
  define vs where "vs = [mflags c, 8, mip c, case err of None \<Rightarrow> 0 | Some k \<Rightarrow> k, n, regs c EAX, regs c EBX, regs c ECX, regs c EDX,
       regs c EBP, regs c ESI, regs c EDI, e - 48, e - 24]"
  have l: "load32 (mmem c1) (e - 4 * of_nat (Suc i)) = vs ! i" if "i < 14" for i
    unfolding entered_mem(2) [OF c1 e] vs_def [symmetric] using a e that by (intro push_all_load) (simp_all add: vs_def)
  from l [of 13] l [of 12] l [of 11] l [of 10] l [of 9] l [of 8] l [of 7] l [of 6] l [of 5] l [of 4] l [of 3] l [of 2] l [of 0]
  show "load32 (mmem c1) (e - 56) = e - 24" "load32 (mmem c1) (e - 52) = e - 48"
    "load32 (mmem c1) (e - 48) = regs c EDI" "load32 (mmem c1) (e - 44) = regs c ESI" "load32 (mmem c1) (e - 40) = regs c EBP"
    "load32 (mmem c1) (e - 36) = regs c EDX" "load32 (mmem c1) (e - 32) = regs c ECX" "load32 (mmem c1) (e - 28) = regs c EBX"
    "load32 (mmem c1) (e - 24) = regs c EAX" "load32 (mmem c1) (e - 20) = n" "load32 (mmem c1) (e - 16) = (case err of None \<Rightarrow> 0 | Some k \<Rightarrow> k)"
    "load32 (mmem c1) (e - 12) = mip c" "load32 (mmem c1) (e - 4) = mflags c"
    by (simp_all add: vs_def)
qed

section \<open>Properties\<close>

text \<open>
  C8. An interrupt is transparent: whatever a handler that keeps its parameters does, the interrupted program continues at its instruction with its
  flags, its stack pointer and all its registers, and \<open>eax\<close> is the word at \<open>return_reg\<close>, the saved \<open>eax\<close> unless the handler changed it.
  The handler is called with the address of that word, the number of the interrupt and the error code as parameters.
\<close>

theorem interrupt_transparent:
  assumes "aligned (regs c ESP)" "c1 = exec (asm_int_handler_enter err n) (take_interrupt err stub c)" "keeps_parameters c1 c2"
  shows "load32 (mmem c1) (regs c1 ESP) = regs c ESP - 24 \<and> load32 (mmem c1) (regs c ESP - 24) = regs c EAX \<and>
     load32 (mmem c1) (regs c1 ESP + 36) = n \<and> load32 (mmem c1) (regs c1 ESP + 40) = (case err of None \<Rightarrow> 0 | Some k \<Rightarrow> k) \<and>
     regs (exec common_leave c2) = (regs c)(EAX := load32 (mmem c2) (regs c ESP - 24)) \<and>
     mflags (exec common_leave c2) = mflags c \<and> mip (exec common_leave c2) = mip c"
proof -
  let ?e = "regs c ESP"
  note E = entered_mem(1) [OF assms(2) refl] entered [OF assms(1,2) refl]
  have esp: "regs c2 ESP = ?e - 56" using assms(3) E(1) by (simp add: keeps_parameters_def)
  have w: "load32 (mmem c2) (?e - 56 + k) = load32 (mmem c1) (?e - 56 + k)" if "k \<in> {4, 8, 12, 16, 20, 24, 28, 36, 40, 44, 48, 52}" for k
    using assms(3) that unfolding keeps_parameters_def E(1) by blast
  have W: "load32 (mmem c2) (?e - 52) = ?e - 48" "load32 (mmem c2) (?e - 48) = regs c EDI" "load32 (mmem c2) (?e - 44) = regs c ESI"
      "load32 (mmem c2) (?e - 40) = regs c EBP" "load32 (mmem c2) (?e - 36) = regs c EDX" "load32 (mmem c2) (?e - 32) = regs c ECX"
      "load32 (mmem c2) (?e - 28) = regs c EBX" "load32 (mmem c2) (?e - 12) = mip c" "load32 (mmem c2) (?e - 4) = mflags c"
    using w [of 4] w [of 8] w [of 12] w [of 16] w [of 20] w [of 24] w [of 28] w [of 44] w [of 52] E by simp_all
  have "regs (exec common_leave c2) r = ((regs c)(EAX := load32 (mmem c2) (?e - 24))) r" for r
    using W esp by (cases r) (simp_all add: exec_def common_leave_def)
  then have "regs (exec common_leave c2) = (regs c)(EAX := load32 (mmem c2) (?e - 24))" by blast
  moreover have "mflags (exec common_leave c2) = mflags c" "mip (exec common_leave c2) = mip c"
    using W esp by (simp_all add: exec_def common_leave_def)
  ultimately show ?thesis using E by simp
qed

theorem interrupt_transparent_witness:
  "let c1 = exec (asm_int_handler_enter None 128) (take_interrupt None 0x3000 sample_switch);
       c2 = c1\<lparr>mmem := store32 (mmem c1) (0x10000 - 24) 42, regs := (regs c1)(EBX := 0)\<rparr>
   in regs (exec common_leave c2) = (regs sample_switch)(EAX := 42) \<and> mip (exec common_leave c2) = 0"
proof -
  define c1 where "c1 = exec (asm_int_handler_enter None 128) (take_interrupt None 0x3000 sample_switch)"
  define c2 where "c2 = c1\<lparr>mmem := store32 (mmem c1) (0x10000 - 24) 42, regs := (regs c1)(EBX := 0)\<rparr>"
  have a: "aligned (regs sample_switch ESP)" "regs sample_switch ESP = 0x10000" "mip sample_switch = 0" by (simp_all add: sample_switch_def)
  have "regs c1 ESP = 0x10000 - 56" using entered_mem(1) [OF c1_def refl] a(2) by simp
  then have "keeps_parameters c1 c2" by (simp add: keeps_parameters_def c2_def)
  from interrupt_transparent [OF a(1) c1_def this] have "regs (exec common_leave c2) = (regs sample_switch)(EAX := 42) \<and> mip (exec common_leave c2) = 0"
    using a by (simp add: c2_def)
  then show ?thesis unfolding Let_def c2_def c1_def .
qed

end
