(* ===== verification/Hashtable.thy ===== *)
theory Hashtable
  imports Queue Strings
begin

text \<open>
  \<^verbatim>\<open>kernel/utils/hashtable.c\<close>: an array of chains of \<open>struct ht_pair\<close> (the two fields of a list node and 64 bytes for the key),
  on the linked lists and the memory allocator. The structure \<open>struct hashtable\<close> is a record; the array, the nodes and the data
  are objects of the kernel's memory. Keys are C strings of the caller. The locale \<open>dictionary\<close> is what a client may rely on; the
  table is an instance of it.
\<close>

section \<open>The code\<close>

definition HT_MAX_KEY_LEN :: nat where "HT_MAX_KEY_LEN = 64"
definition FNV_PRIME :: u32 where "FNV_PRIME = 0x811C9DC5"

record hashtable =
  ht_nodes :: u32
  ht_size :: u32
  ht_hash :: "bytes \<Rightarrow> u32 \<Rightarrow> u32 option"

text \<open>\<open>struct ht_pair\<close> has 72 bytes, with the key from offset 8.\<close>

definition ht_pair_size :: u32 where "ht_pair_size = 8 + of_nat HT_MAX_KEY_LEN"

definition ht_pair_key :: "u32 \<Rightarrow> mem \<Rightarrow> bytes" where
  "ht_pair_key x m = obj m (x + 8) HT_MAX_KEY_LEN"

fun hashFNV_loop :: "bytes \<Rightarrow> u32 \<Rightarrow> u32 option" where
  "hashFNV_loop [] hash = None"
| "hashFNV_loop (c # str) hash = (if c \<noteq> 0 then hashFNV_loop str ((hash * FNV_PRIME) XOR ucast c) else Some hash)"

definition hashFNV :: "bytes \<Rightarrow> u32 \<Rightarrow> u32 option" where
  "hashFNV str m = do { hash \<leftarrow> hashFNV_loop str 0; if m = 0 then None else Some (hash mod m) }"

text \<open>The entry of the array with an index.\<close>

definition ht_node :: "hashtable \<Rightarrow> u32 \<Rightarrow> 'a liballoc_scheme \<Rightarrow> u32 option" where
  "ht_node ht i s = (if ht_nodes ht = 0 then None else Some (load32 (kmem s) (ht_nodes ht + 4 * i)))"

definition set_ht_node :: "hashtable \<Rightarrow> u32 \<Rightarrow> u32 \<Rightarrow> 'a liballoc_scheme \<Rightarrow> 'a liballoc_scheme option" where
  "set_ht_node ht i v s = (if ht_nodes ht = 0 then None else Some (set_kmem (store32 (kmem s) (ht_nodes ht + 4 * i) v) s))"

definition memset_to :: "u32 \<Rightarrow> u8 \<Rightarrow> nat \<Rightarrow> 'a liballoc_scheme \<Rightarrow> 'a liballoc_scheme option" where
  "memset_to p c n s = (if n = 0 then Some s else if p = 0 then None else Some (set_kmem (write_bytes (kmem s) p (replicate n c)) s))"

definition hashtable_init :: "(bytes \<Rightarrow> u32 \<Rightarrow> u32 option) option \<Rightarrow> u32 \<Rightarrow> 'a liballoc_scheme \<Rightarrow> (int \<times> hashtable \<times> 'a liballoc_scheme) option" where
  "hashtable_init hashfunc n s =
     (let h = (case hashfunc of Some f \<Rightarrow> f | None \<Rightarrow> hashFNV) in
      do { (p, s) \<leftarrow> mmu_mmap (n * 4) s;
           let ht = \<lparr>ht_nodes = p, ht_size = n, ht_hash = h\<rparr> in
           do { s \<leftarrow> memset_to p 0 (unat (n * 4)) s;
                if ht_nodes ht = 0 then Some (-1, ht, s) else Some (0, ht, s) } })"

function uninit_loop :: "hashtable \<Rightarrow> u32 \<Rightarrow> 'a liballoc_scheme \<Rightarrow> 'a liballoc_scheme option" where
  "uninit_loop ht i s =
     (if i < ht_size ht
      then do { h \<leftarrow> ht_node ht i s;
                s \<leftarrow> (if h \<noteq> 0 then do { (_, h, s) \<leftarrow> list_free h s; set_ht_node ht i h s } else Some s);
                uninit_loop ht (i + 1) s }
      else Some s)"
  by auto
termination
  by (relation "measure (\<lambda>(ht, i, s). unat (ht_size ht) - unat i)") (auto simp: unat_inc word_less_nat_alt)

declare uninit_loop.simps [simp del]

definition hashtable_uninit :: "hashtable \<Rightarrow> 'a liballoc_scheme \<Rightarrow> 'a liballoc_scheme option" where
  "hashtable_uninit ht s = do { s \<leftarrow> uninit_loop ht 0 s; mmu_munmap (ht_nodes ht) s }"

text \<open>The last two statements of both branches of \<open>hashtable_insert\<close>: the key of a node is cleared and copied.\<close>

definition set_ht_key :: "u32 \<Rightarrow> bytes \<Rightarrow> 'a liballoc_scheme \<Rightarrow> 'a liballoc_scheme option" where
  "set_ht_key x key s =
     (if x = 0 then None
      else do { k \<leftarrow> memset_bytes (ht_pair_key x (kmem s)) 0 HT_MAX_KEY_LEN;
                (_, k) \<leftarrow> strncpy_s k key (of_nat HT_MAX_KEY_LEN);
                Some (set_kmem (write_bytes (kmem s) (x + 8) k) s) })"

definition hashtable_insert :: "hashtable \<Rightarrow> bytes \<Rightarrow> bytes \<Rightarrow> u32 \<Rightarrow> 'a liballoc_scheme \<Rightarrow> 'a liballoc_scheme option" where
  "hashtable_insert ht key data data_size s =
     do { index \<leftarrow> ht_hash ht key (ht_size ht);
          h \<leftarrow> ht_node ht index s;
          if h = 0
          then do { (p, s) \<leftarrow> mmu_mmap ht_pair_size s;
                    s \<leftarrow> set_ht_node ht index p s;
                    p \<leftarrow> ht_node ht index s;
                    (_, s) \<leftarrow> list_create_noalloc data data_size p s;
                    p \<leftarrow> ht_node ht index s;
                    set_ht_key p key s }
          else do { (newnode, s) \<leftarrow> mmu_mmap ht_pair_size s;
                    s \<leftarrow> set_list_next newnode 0 s;
                    h \<leftarrow> ht_node ht index s;
                    (_, s) \<leftarrow> list_insert_back_noalloc h data data_size newnode s;
                    set_ht_key newnode key s } }"

text \<open>The loop of \<open>hashtable_get\<close>: a comparison that runs past the 64 bytes of a key has no result.\<close>

partial_function (option) get_loop :: "u32 \<Rightarrow> bytes \<Rightarrow> 'a liballoc_scheme \<Rightarrow> u32 option" where
  "get_loop real key s =
     (if real = 0 then Some 0
      else do { c \<leftarrow> strcmp (ht_pair_key real (kmem s)) key;
                if c = 0 then Some real else do { nxt \<leftarrow> list_next real s; get_loop nxt key s } })"

definition hashtable_get :: "hashtable \<Rightarrow> bytes \<Rightarrow> bytes \<Rightarrow> u32 \<Rightarrow> 'a liballoc_scheme \<Rightarrow> (int \<times> bytes) option" where
  "hashtable_get ht key out data_size s =
     do { index \<leftarrow> ht_hash ht key (ht_size ht);
          h \<leftarrow> ht_node ht index s;
          if h \<noteq> 0
          then do { real \<leftarrow> get_loop h key s;
                    if real \<noteq> 0 then do { d \<leftarrow> list_data real s; out \<leftarrow> memcpy_from out d (unat data_size) (kmem s); Some (0, out) }
                    else Some (-1, out) }
          else Some (-1, out) }"

section \<open>Buckets\<close>

text \<open>
  A bucket is a chain of nodes; each entry is the key, the node, the data object and the bytes in it. \<open>ht_rep\<close>: the array
  and the chains are live objects, all different.
\<close>

type_synonym bucket = "(bytes \<times> item) list"

definition key_of :: "bytes \<Rightarrow> bytes" where
  "key_of k = k @ replicate (64 - length k) 0"

definition key_ok :: "bytes \<Rightarrow> bool" where
  "key_ok k \<longleftrightarrow> 0 \<notin> set k \<and> length k < 64"

definition ht_bucket :: "objects \<Rightarrow> mem \<Rightarrow> u32 \<Rightarrow> bucket \<Rightarrow> bool" where
  "ht_bucket os m p b \<longleftrightarrow> cells_of 72 os m p (map snd b) 0 \<and> (\<forall>(k, x, d, v) \<in> set b. key_ok k \<and> ht_pair_key x m = key_of k)"

abbreviation bucket_owned :: "bucket \<Rightarrow> u32 list" where
  "bucket_owned b \<equiv> owned (map snd b)"

definition ht_apart :: "u32 \<Rightarrow> bucket list \<Rightarrow> bool" where
  "ht_apart p bs \<longleftrightarrow> (\<forall>i<length bs. distinct (p # bucket_owned (bs ! i))) \<and>
     (\<forall>i j. i < length bs \<longrightarrow> j < length bs \<longrightarrow> i \<noteq> j \<longrightarrow> set (bucket_owned (bs ! i)) \<inter> set (bucket_owned (bs ! j)) = {})"

text \<open>A hash function that is in range and reads no more than the string.\<close>

definition hash_ok :: "(bytes \<Rightarrow> u32 \<Rightarrow> u32 option) \<Rightarrow> u32 \<Rightarrow> bool" where
  "hash_ok h n \<longleftrightarrow> (\<forall>key. terminated key \<longrightarrow> (\<exists>i<n. h key n = Some i \<and> h (cstr key @ [0]) n = Some i))"

definition ht_rep :: "objects \<Rightarrow> hashtable \<Rightarrow> mem \<Rightarrow> bucket list \<Rightarrow> bool" where
  "ht_rep os ht m bs \<longleftrightarrow> os (ht_nodes ht) = Some (4 * unat (ht_size ht)) \<and> length bs = unat (ht_size ht) \<and>
     hash_ok (ht_hash ht) (ht_size ht) \<and> ht_apart (ht_nodes ht) bs \<and>
     (\<forall>i<length bs. ht_bucket os m (load32 m (ht_nodes ht + of_nat (4 * i))) (bs ! i))"

text \<open>What the table stores for a key: the first entry of its bucket.\<close>

definition ht_map :: "hashtable \<Rightarrow> bucket list \<Rightarrow> bytes \<Rightarrow> bytes option" where
  "ht_map ht bs key = do { i \<leftarrow> ht_hash ht (key @ [0]) (ht_size ht); map_of (map (\<lambda>(k, x, d, v). (k, v)) (bs ! unat i)) key }"

lemma hashFNV_ok: "n \<noteq> 0 \<Longrightarrow> hash_ok hashFNV n"
proof -
  assume n: "n \<noteq> 0"
  have loop: "\<exists>v. hashFNV_loop key h = Some v \<and> hashFNV_loop (cstr key @ [0]) h = Some v" if "terminated key" for key h
    using that by (induction key h rule: hashFNV_loop.induct) auto
  show ?thesis unfolding hash_ok_def hashFNV_def
  proof (intro allI impI)
    fix key assume "terminated key"
    then obtain v where "hashFNV_loop key 0 = Some v" "hashFNV_loop (cstr key @ [0]) 0 = Some v" using loop by blast
    moreover have "v mod n < n" using n by (simp add: word_mod_less_divisor word_gt_0)
    ultimately show "\<exists>i<n. do { hash \<leftarrow> hashFNV_loop key 0; if n = 0 then None else Some (hash mod n) } = Some i \<and>
        do { hash \<leftarrow> hashFNV_loop (cstr key @ [0]) 0; if n = 0 then None else Some (hash mod n) } = Some i" using n by simp
  qed
qed


section \<open>Bytes of a node\<close>

lemma obj_sub: "obj m p n = obj m' p n \<Longrightarrow> j + k \<le> n \<Longrightarrow> obj m (p + of_nat j) k = obj m' (p + of_nat j) k"
  unfolding obj_eq_iff
proof (intro allI impI)
  fix i assume eq: "\<forall>i<n. m (p + of_nat i) = m' (p + of_nat i)" and i: "j + k \<le> n" "i < k"
  have "j + i < n" using i by simp
  then have "m (p + of_nat (j + i)) = m' (p + of_nat (j + i))" using eq by blast
  then show "m (p + of_nat j + of_nat i) = m' (p + of_nat j + of_nat i)" by (simp only: of_nat_add add.assoc)
qed

lemma pair_key_obj: "obj m x 72 = obj m' x 72 \<Longrightarrow> ht_pair_key x m = ht_pair_key x m'"
  using obj_sub [of m x 72 m' 8 64] by (simp add: ht_pair_key_def HT_MAX_KEY_LEN_def)

lemma obj_store_other:
  assumes "unat x + n \<le> 2 ^ 32" "k + 4 \<le> j" "j + l \<le> n"
  shows "obj (store32 m (x + of_nat k) v) (x + of_nat j) l = obj m (x + of_nat j) l"
  unfolding obj_eq_iff
proof (intro allI impI)
  fix i assume i: "i < l"
  have a: "unat (x + of_nat k) = unat x + k" using assms i by (intro obj_addr [OF assms(1)]) simp
  have b: "unat (x + of_nat j + of_nat i) = unat x + (j + i)"
    using obj_addr [OF assms(1), of "j + i"] assms i by (simp add: add.assoc)
  show "store32 m (x + of_nat k) v (x + of_nat j + of_nat i) = m (x + of_nat j + of_nat i)"
    using a b assms i by (intro store32_outside) (auto simp: object_bytes_def)
qed

lemma pair_key_store_next:
  "unat x + 72 \<le> 2 ^ 32 \<Longrightarrow> ht_pair_key x (store32 m x v) = ht_pair_key x m"
  using obj_store_other [of x 72 0 8 64 m v] by (simp add: ht_pair_key_def HT_MAX_KEY_LEN_def)

lemma load32_write_behind:
  assumes "unat x + n \<le> 2 ^ 32" "k + 4 \<le> j" "j + length bs \<le> n"
  shows "load32 (write_bytes m (x + of_nat j) bs) (x + of_nat k) = load32 m (x + of_nat k)"
proof (cases "bs = []")
  case False
  then have l: "1 \<le> length bs" by (cases bs) simp_all
  have "obj (write_bytes m (x + of_nat j) bs) x (k + 4) = obj m x (k + 4)"
    unfolding obj_eq_iff
  proof (intro allI impI)
    fix i assume i: "i < k + 4"
    have "unat (x + of_nat j) = unat x + j" "unat (x + of_nat i) = unat x + i" using assms l i by (auto intro!: obj_addr [OF assms(1)])
    then show "write_bytes m (x + of_nat j) bs (x + of_nat i) = m (x + of_nat i)"
      using assms i by (intro write_bytes_outside) (auto simp: object_bytes_def)
  qed
  then show ?thesis using load32_obj by blast
qed simp

lemma cstr_nonzero: "0 \<notin> set (cstr key)"
  by (auto simp: cstr_def dest: set_takeWhileD)

text \<open>The stores keep the client's part of the state.\<close>

lemma store_client:
  "client (set_kmem m s) = client s" "set_list_next x v s = Some s' \<Longrightarrow> client s' = client s" "set_ht_key x key s = Some s' \<Longrightarrow> client s' = client s"
  by (auto simp: set_list_next_def set_ht_key_def client_def set_kmem_def Option.bind_eq_Some_conv split: if_splits)

lemma set_ht_key_ok:
  assumes rep: "mmu_rep s os" and x: "os x = Some 72" and key: "terminated key" "length (cstr key) < 64"
  obtains s' where "set_ht_key x key s = Some s'" "mmu_rep s' os" "unchanged os {x} (kmem s) (kmem s')"
    "load32 (kmem s') x = load32 (kmem s) x" "load32 (kmem s') (x + 4) = load32 (kmem s) (x + 4)"
    "ht_pair_key x (kmem s') = key_of (cstr key)" "grows s s'"
proof -
  let ?k = "key_of (cstr key)" and ?m = "write_bytes (kmem s) (x + 8) (key_of (cstr key))"
  have b: "x \<noteq> 0" "unat x + 72 \<le> 2 ^ 32" using mm.object_bounds [OF rep x] by auto
  have len: "length ?k = 64" using key(2) by (simp add: key_of_def)
  have z: "memset_bytes (ht_pair_key x (kmem s)) 0 64 = Some (replicate 64 0)"
    by (simp add: memset_bytes_ok ht_pair_key_def HT_MAX_KEY_LEN_def)
  have si: "sint (64 :: u32) = 64" by simp
  have "strncpy_s (replicate 64 0) key 64 = Some (int (length (cstr key)), ?k)"
    using strncpy_loop_ok [of key 64 0 "replicate 64 0"] key unfolding strncpy_s_def si by (simp add: key_of_def min_absorb1 Let_def)
  then have run: "set_ht_key x key s = Some (set_kmem ?m s)" using b z by (simp add: set_ht_key_def HT_MAX_KEY_LEN_def)
  have W: "mmu_rep (set_kmem ?m s) os" "unchanged os {x} (kmem s) ?m" "obj ?m (x + 8) 64 = ?k"
    using mm.bytes_store [OF rep x, of 8 ?k] len by simp_all
  have L: "load32 ?m x = load32 (kmem s) x" "load32 ?m (x + 4) = load32 (kmem s) (x + 4)"
    using load32_write_behind [OF b(2), of 0 8 ?k "kmem s"] load32_write_behind [OF b(2), of 4 8 ?k "kmem s"] len by simp_all
  have km: "kmem (set_kmem ?m s) = ?m" by (rule mm.mem_set)
  have "ht_pair_key x ?m = ?k" using W(3) by (simp add: ht_pair_key_def HT_MAX_KEY_LEN_def)
  moreover have "grows s (set_kmem ?m s)" using gm.bytes_grown [OF rep x, of 8 ?k] len by simp
  ultimately show thesis using that [OF run W(1)] W(2) L unfolding km by blast
qed

lemma list_create_noalloc_ok:
  assumes rep: "mmu_rep s os" and x: "os x = Some k" "8 \<le> k" and n: "unat n + 80 < 2 ^ 32" "unat n \<le> length data"
    and d: "mmu_mmap n s = Some (d, s1)" "d \<noteq> 0"
  obtains s' where "list_create_noalloc data n x s = Some (x, s')" "os d = None" "mmu_rep s' (os(d \<mapsto> unat n))"
    "unchanged os {x} (kmem s) (kmem s')" "load32 (kmem s') x = 0" "load32 (kmem s') (x + 4) = d" "obj (kmem s') d (unat n) = take (unat n) data"
    "client s' = client s" "grows s s'"
proof -
  have r1: "os d = None" "mmu_rep s1 (os(d \<mapsto> unat n))" using mm.alloc_new [OF rep n(1) d] by simp_all
  have ne: "d \<noteq> x" using r1(1) x(1) by auto
  obtain s' where s': "do { m \<leftarrow> memcpy_to d data (unat n) (kmem s1);
        s \<leftarrow> set_list_data x d (set_kmem m s1); s \<leftarrow> set_list_next x 0 s; Some (x, s) } = Some (x, s')"
      "mmu_rep s' (os(d \<mapsto> unat n))" "unchanged (os(d \<mapsto> unat n)) {x, d} (kmem s1) (kmem s')" "load32 (kmem s') x = 0"
      "load32 (kmem s') (x + 4) = d" "obj (kmem s') d (unat n) = take (unat n) data" "grows s1 s'"
    by (rule fill_node [OF r1(2), of x k d n data]) (use ne x n(2) in auto)
  have "os \<subseteq>\<^sub>m os(d \<mapsto> unat n)" using r1(1) by (auto simp: map_le_def)
  then have "unchanged os {x} (kmem s1) (kmem s')" using r1(1) by (intro unchanged_sub [OF s'(3)]) auto
  then have "unchanged os {x} (kmem s) (kmem s')" using unchanged_trans [OF mm.alloc_frame [OF rep n(1) d(1), of "{}"]] by fastforce
  moreover have "list_create_noalloc data n x s = Some (x, s')" using d s'(1) by (simp add: list_create_noalloc_def)
  moreover have "client s' = client s1"
    using s'(1) by (auto simp: set_list_data_def set_list_next_def store_client Option.bind_eq_Some_conv split: if_splits)
  then have "client s' = client s" using mm.alloc_rest [OF rep n(1) d(1)] by simp
  moreover have "grows s s'" by (rule grows_trans [OF gm.alloc_grown [OF rep n(1) d(1)] s'(7)])
  ultimately show thesis using that r1(1) s' by blast
qed

section \<open>Frames of buckets\<close>

lemma owned_nodes: "(k, x, d, v) \<in> set b \<Longrightarrow> x \<in> set (bucket_owned b) \<and> d \<in> set (bucket_owned b)"
  by (force simp: owned_def)

lemma cells_node: "cells_of n os m p its q \<Longrightarrow> (x, d, v) \<in> set its \<Longrightarrow> os x = Some n"
  by (induction its arbitrary: p) auto

lemma cells_item: "cells_of n os m p its q \<Longrightarrow> (x, d, v) \<in> set its \<Longrightarrow>
    os x = Some n \<and> load32 m (x + 4) = d \<and> os d = Some (length v) \<and> obj m d (length v) = v"
  by (induction its arbitrary: p) auto

lemma obj_take: "obj m p n = v \<Longrightarrow> k \<le> n \<Longrightarrow> obj m p k = take k v"
  by (auto simp: obj_def take_map)

lemma ht_bucket_cong:
  assumes b: "ht_bucket os m p b" and o: "\<And>x. x \<in> set (bucket_owned b) \<Longrightarrow> os' x = os x"
    and m: "\<And>x n. x \<in> set (bucket_owned b) \<Longrightarrow> os x = Some n \<Longrightarrow> obj m' x n = obj m x n"
  shows "ht_bucket os' m' p b"
proof -
  have c: "cells_of 72 os m p (map snd b) 0" using b by (simp add: ht_bucket_def)
  have "ht_pair_key x m' = ht_pair_key x m" if e: "(k, x, d, v) \<in> set b" for k x d v
  proof -
    have "(x, d, v) \<in> set (map snd b)" using e by force
    then have "os x = Some 72" using cells_node [OF c] by blast
    then show ?thesis using m owned_nodes [OF e] pair_key_obj by blast
  qed
  then show ?thesis using b cells_cong [OF c o m] unfolding ht_bucket_def by fastforce
qed

lemma ht_bucket_frame:
  "ht_bucket os m p b \<Longrightarrow> unchanged os X m m' \<Longrightarrow> set (bucket_owned b) \<inter> X = {} \<Longrightarrow> (\<And>x. os x \<noteq> None \<Longrightarrow> os' x = os x) \<Longrightarrow> ht_bucket os' m' p b"
  using ht_bucket_cong [of os m p b os' m'] unchangedD [of os X m m'] cells_objects unfolding ht_bucket_def by blast

lemma cells_relink:
  assumes c: "cells_of k os m p (its @ [(w, d, v)]) 0" "distinct (owned (its @ [(w, d, v)]))" and u: "unchanged os {w} m m'"
    and l: "load32 m' w = x" "load32 m' (w + 4) = load32 m (w + 4)"
  shows "cells_of k os m' p (its @ [(w, d, v)]) x"
proof -
  have C: "cells_of k os m p its w" "os w = Some k" "8 \<le> k" "load32 m (w + 4) = d" "os d = Some (length v)" "obj m d (length v) = v"
    using c(1) by (auto simp: cells_append)
  have "cells_of k os m' p its w" using cells_frame [OF C(1) u] c(2) by auto
  moreover have "obj m' d (length v) = v" using unchangedD [OF u C(5)] c(2) C(6) by auto
  ultimately show ?thesis using C l by (auto simp: cells_append)
qed


section \<open>Insertion\<close>

text \<open>The heap has room for a node and then, whatever is stored into objects in between, for \<open>n\<close> bytes of data.\<close>

definition ht_room :: "u32 \<Rightarrow> 'a liballoc_scheme \<Rightarrow> bool" where
  "ht_room n s \<longleftrightarrow> (\<exists>x s1. mmu_mmap 72 s = Some (x, s1) \<and> x \<noteq> 0 \<and>
     (\<forall>m os. mmu_rep (set_kmem m s1) os \<longrightarrow> (\<exists>d s2. mmu_mmap n (set_kmem m s1) = Some (d, s2) \<and> d \<noteq> 0)))"

lemma ht_repD:
  assumes "ht_rep os ht m bs"
  shows "os (ht_nodes ht) = Some (4 * unat (ht_size ht))" "length bs = unat (ht_size ht)" "hash_ok (ht_hash ht) (ht_size ht)"
    "ht_apart (ht_nodes ht) bs" "\<And>i. i < length bs \<Longrightarrow> ht_bucket os m (load32 m (ht_nodes ht + of_nat (4 * i))) (bs ! i)"
    "\<And>i. i < length bs \<Longrightarrow> 4 * i + 4 \<le> 4 * unat (ht_size ht)"
    "\<And>i. i < length bs \<Longrightarrow> distinct (bucket_owned (bs ! i)) \<and> ht_nodes ht \<notin> set (bucket_owned (bs ! i))"
  using assms by (auto simp: ht_rep_def ht_apart_def)

lemma bucket_live: "ht_bucket os m p b \<Longrightarrow> y \<in> set (bucket_owned b) \<Longrightarrow> os y \<noteq> None"
  using cells_objects unfolding ht_bucket_def by blast

lemma ht_extend:
  assumes rep: "ht_rep os ht m bs" and i: "i < length bs" and new: "os x = None" "os d = None" "x \<noteq> d"
    and b: "ht_bucket os' m' (load32 m' (ht_nodes ht + of_nat (4 * i))) (bs ! i @ [(k, x, d, v)])"
    and o: "\<And>y. os y \<noteq> None \<Longrightarrow> os' y = os y"
    and u: "unchanged os X m m'" "X \<subseteq> insert (ht_nodes ht) (set (bucket_owned (bs ! i)))"
    and l: "\<And>j. j < length bs \<Longrightarrow> j \<noteq> i \<Longrightarrow> load32 m' (ht_nodes ht + of_nat (4 * j)) = load32 m (ht_nodes ht + of_nat (4 * j))"
  shows "ht_rep os' ht m' (bs[i := bs ! i @ [(k, x, d, v)]])"
proof -
  note R = ht_repD [OF rep]
  have apart: "set (bucket_owned (bs ! j)) \<inter> set (bucket_owned (bs ! j')) = {}" if "j < length bs" "j' < length bs" "j \<noteq> j'" for j j'
    using R(4) that by (auto simp: ht_apart_def)
  have fresh: "x \<notin> set (bucket_owned (bs ! j))" "d \<notin> set (bucket_owned (bs ! j))" if "j < length bs" for j
    using bucket_live [OF R(5) [OF that]] new by blast+
  have nd: "x \<noteq> ht_nodes ht" "d \<noteq> ht_nodes ht" using R(1) new by auto
  have "ht_apart (ht_nodes ht) (bs[i := bs ! i @ [(k, x, d, v)]])"
    unfolding ht_apart_def using R(7) apart fresh nd new(3) i by (auto simp: nth_list_update)
  moreover have "ht_bucket os' m' (load32 m (ht_nodes ht + of_nat (4 * j))) (bs ! j)" if j: "j < length bs" "j \<noteq> i" for j
    using u(2) apart [OF j(1) i j(2)] R(7) [OF j(1)] by (intro ht_bucket_frame [OF R(5) [OF j(1)] u(1) _ o]) auto
  moreover have "os' (ht_nodes ht) = Some (4 * unat (ht_size ht))" using R(1) o by simp
  ultimately show ?thesis unfolding ht_rep_def using R(2,3) b l i by (auto simp: nth_list_update)
qed

lemma insert_first:
  assumes rep: "mmu_rep s os" and h: "ht_rep os ht (kmem s) bs" and idx: "ht_hash ht key (ht_size ht) = Some idx" "unat idx < length bs"
    and empty: "load32 (kmem s) (ht_nodes ht + of_nat (4 * unat idx)) = 0" "bs ! unat idx = []"
    and key: "terminated key" "length (cstr key) < 64" and n: "unat n + 80 < 2 ^ 32" "unat n \<le> length data" and room: "ht_room n s"
  obtains x d s' where "hashtable_insert ht key data n s = Some s'" "mmu_rep s' (os(x \<mapsto> 72, d \<mapsto> unat n))" "os x = None" "os d = None"
    "ht_rep (os(x \<mapsto> 72, d \<mapsto> unat n)) ht (kmem s') (bs[unat idx := [(cstr key, x, d, take (unat n) data)]])"
    "unchanged os {ht_nodes ht} (kmem s) (kmem s')" "client s' = client s" "grows s s'"
proof -
  note R = ht_repD [OF h]
  let ?P = "ht_nodes ht" and ?i = "unat idx"
  have at: "?P + of_nat (4 * ?i) = ?P + 4 * idx" by simp
  have P: "?P \<noteq> 0" using node_ptr [OF rep R(1)] .
  have sz: "unat (72 :: u32) + 80 < 2 ^ 32" and eight: "(8 :: nat) \<le> 72" by simp_all
  obtain x s1 where x: "mmu_mmap 72 s = Some (x, s1)" "x \<noteq> 0"
    and d_ex: "\<And>m os. mmu_rep (set_kmem m s1) os \<Longrightarrow> \<exists>d s2. mmu_mmap n (set_kmem m s1) = Some (d, s2) \<and> d \<noteq> 0"
    using room unfolding ht_room_def by blast
  have r1: "os x = None" "mmu_rep s1 (os(x \<mapsto> 72))" using mm.alloc_new [OF rep sz x] by simp_all
  let ?os1 = "os(x \<mapsto> 72)"
  have nx: "?P \<noteq> x" using R(1) r1(1) by auto
  then have P1: "?os1 ?P = Some (4 * unat (ht_size ht))" "?os1 x = Some 72" using R(1) by simp_all
  let ?m2 = "store32 (kmem s1) (?P + of_nat (4 * ?i)) x"
  note F = mm.field_store [OF r1(2) P1(1) R(6) [OF idx(2)] dvd_triv_left, where v = x]
  obtain d s2 where d: "mmu_mmap n (set_kmem ?m2 s1) = Some (d, s2)" "d \<noteq> 0" using d_ex [OF F(1)] by blast
  obtain s3 where s3: "list_create_noalloc data n x (set_kmem ?m2 s1) = Some (x, s3)" "?os1 d = None" "mmu_rep s3 (?os1(d \<mapsto> unat n))"
      "unchanged ?os1 {x} ?m2 (kmem s3)" "load32 (kmem s3) x = 0" "load32 (kmem s3) (x + 4) = d" "obj (kmem s3) d (unat n) = take (unat n) data"
      "client s3 = client (set_kmem ?m2 s1)" "grows (set_kmem ?m2 s1) s3"
    by (rule list_create_noalloc_ok [OF F(1) P1(2) eight n d, unfolded mm.mem_set])
  let ?os3 = "?os1(d \<mapsto> unat n)"
  have nd: "d \<noteq> x" "d \<noteq> ?P" "os d = None" using s3(2) P1(1) by (auto split: if_splits)
  have o3: "?os3 x = Some 72" "?os3 d = Some (unat n)" "?os3 ?P = Some (4 * unat (ht_size ht))" using nd P1 by simp_all
  obtain s4 where s4: "set_ht_key x key s3 = Some s4" "mmu_rep s4 ?os3" "unchanged ?os3 {x} (kmem s3) (kmem s4)"
      "load32 (kmem s4) x = load32 (kmem s3) x" "load32 (kmem s4) (x + 4) = load32 (kmem s3) (x + 4)" "ht_pair_key x (kmem s4) = key_of (cstr key)" "grows s3 s4"
    by (rule set_ht_key_ok [OF s3(3) o3(1) key])
  have P3: "load32 (kmem s3) (?P + of_nat (4 * j)) = load32 ?m2 (?P + of_nat (4 * j))"
    "load32 (kmem s4) (?P + of_nat (4 * j)) = load32 (kmem s3) (?P + of_nat (4 * j))"
    "load32 (kmem s1) (?P + of_nat (4 * j)) = load32 (kmem s) (?P + of_nat (4 * j))" if "j < length bs" for j
    using unchanged_field [OF s3(4) P1(1) _ R(6) [OF that]] unchanged_field [OF s4(3) o3(3) _ R(6) [OF that]]
      unchanged_field [OF mm.alloc_frame [OF rep sz x(1), of "{}"] R(1) _ R(6) [OF that]] nx by simp_all
  have node: "load32 (kmem s3) (?P + of_nat (4 * ?i)) = x" "load32 (kmem s4) (?P + of_nat (4 * ?i)) = x" using P3 [OF idx(2)] F(3) by simp_all
  have others: "load32 (kmem s4) (?P + of_nat (4 * j)) = load32 (kmem s) (?P + of_nat (4 * j))" if "j < length bs" "j \<noteq> ?i" for j
    using F(4) [OF R(6) [OF that(1)] dvd_triv_left] P3 [OF that(1)] that(2) by simp
  have run: "hashtable_insert ht key data n s = Some s4"
    using idx(1) P empty(1) x(1) F(3) s3(1) node s4(1) unfolding at
    by (simp add: hashtable_insert_def ht_node_def set_ht_node_def ht_pair_size_def HT_MAX_KEY_LEN_def)
  have le: "os \<subseteq>\<^sub>m ?os1" "os \<subseteq>\<^sub>m ?os3" using r1(1) nd by (auto simp: map_le_def)
  have "unchanged os {?P} (kmem s1) ?m2" by (rule unchanged_sub [OF F(2) le(1)]) auto
  moreover have "unchanged os {} ?m2 (kmem s3)" by (rule unchanged_sub [OF s3(4) le(1)]) (use r1(1) in auto)
  moreover have "unchanged os {} (kmem s3) (kmem s4)" by (rule unchanged_sub [OF s4(3) le(2)]) (use r1(1) in auto)
  ultimately have u: "unchanged os {?P} (kmem s) (kmem s4)"
    using mm.alloc_frame [OF rep sz x(1), of "{}"] unfolding unchanged_def by simp
  have "obj (kmem s4) d (unat n) = take (unat n) data" using unchangedD [OF s4(3) o3(2)] nd(1) s3(7) by simp
  then have "ht_bucket ?os3 (kmem s4) x [(cstr key, x, d, take (unat n) data)]"
    using s4(4-6) s3(5,6) o3 n(2) key by (simp add: ht_bucket_def key_ok_def min_absorb2 cstr_nonzero)
  then have "ht_rep ?os3 ht (kmem s4) (bs[?i := bs ! ?i @ [(cstr key, x, d, take (unat n) data)]])"
    using node(2) others empty(2) nd r1(1) by (intro ht_extend [OF h idx(2) _ _ _ _ _ u]) auto
  moreover have "client s4 = client s" using store_client(3) [OF s4(1)] s3(8) mm.alloc_rest [OF rep sz x(1)] by (simp add: store_client)
  moreover have "grows s1 (set_kmem ?m2 s1)" by (rule gm.field_grown [OF r1(2) P1(1) R(6) [OF idx(2)] dvd_triv_left])
  then have "grows s s4" using gm.alloc_grown [OF rep sz x(1)] s3(9) s4(7) by (blast intro: grows_trans)
  ultimately show thesis using that [OF run s4(2) r1(1) nd(3) _ u] empty(2) by simp
qed


text \<open>The other branch: the new node behind the last one of its chain.\<close>

lemma insert_behind:
  assumes rep: "mmu_rep s os" and h: "ht_rep os ht (kmem s) bs" and idx: "ht_hash ht key (ht_size ht) = Some idx" "unat idx < length bs"
    and full: "bs ! unat idx = b @ [(k, w, e, c)]"
    and key: "terminated key" "length (cstr key) < 64" and n: "unat n + 80 < 2 ^ 32" "unat n \<le> length data" and room: "ht_room n s"
  obtains x d s' where "hashtable_insert ht key data n s = Some s'" "mmu_rep s' (os(x \<mapsto> 72, d \<mapsto> unat n))" "os x = None" "os d = None"
    "ht_rep (os(x \<mapsto> 72, d \<mapsto> unat n)) ht (kmem s') (bs[unat idx := bs ! unat idx @ [(cstr key, x, d, take (unat n) data)]])"
    "unchanged os {w} (kmem s) (kmem s')" "client s' = client s" "grows s s'"
proof -
  note R = ht_repD [OF h]
  let ?P = "ht_nodes ht" and ?i = "unat idx"
  let ?H = "load32 (kmem s) (?P + of_nat (4 * ?i))"
  have at: "?P + of_nat (4 * ?i) = ?P + 4 * idx" by simp
  have P: "?P \<noteq> 0" using node_ptr [OF rep R(1)] .
  have sz: "unat (72 :: u32) + 80 < 2 ^ 32" and eight: "(8 :: nat) \<le> 72" by simp_all
  obtain x s1 where x: "mmu_mmap 72 s = Some (x, s1)" "x \<noteq> 0"
    and d_ex: "\<And>m os. mmu_rep (set_kmem m s1) os \<Longrightarrow> \<exists>d s2. mmu_mmap n (set_kmem m s1) = Some (d, s2) \<and> d \<noteq> 0"
    using room unfolding ht_room_def by blast
  have r1: "os x = None" "mmu_rep s1 (os(x \<mapsto> 72))" using mm.alloc_new [OF rep sz x] by simp_all
  let ?os1 = "os(x \<mapsto> 72)" and ?its = "map snd b @ [(w, e, c)]"
  have le1: "os \<subseteq>\<^sub>m ?os1" using r1(1) by (auto simp: map_le_def)
  have x1: "?os1 x = Some 72" by simp
  obtain s2 where s2: "set_list_next x 0 s1 = Some s2" "mmu_rep s2 ?os1" "unchanged ?os1 {x} (kmem s1) (kmem s2)" "load32 (kmem s2) x = 0"
      "load32 (kmem s2) (x + 4) = load32 (kmem s1) (x + 4)" by (rule set_next_ok [OF r1(2) x1 eight])
  have km2: "s2 = set_kmem (kmem s2) s1" using s2(1) x(2) by (auto simp: set_list_next_def set_kmem_def)
  have u2: "unchanged os {} (kmem s) (kmem s2)"
    using mm.alloc_frame [OF rep sz x(1), of "{}"] unchanged_sub [OF s2(3) le1, of "{}"] r1(1) unfolding unchanged_def by auto
  have C: "cells_of 72 os (kmem s) ?H ?its 0" "distinct (owned ?its)" "w \<in> set (bucket_owned (bs ! ?i))"
    using R(5) [OF idx(2)] R(7) [OF idx(2)] full by (auto simp: ht_bucket_def)
  have live: "os y \<noteq> None" if "y \<in> set (owned ?its)" for y using cells_objects [OF C(1) that] .
  then have xn: "x \<notin> set (owned ?its)" using r1(1) by blast
  have C2: "cells_of 72 ?os1 (kmem s2) ?H ?its 0"
    using unchangedD [OF u2] xn by (intro cells_cong [OF C(1)]) auto
  have w: "os w = Some 72" "w \<noteq> x" "w \<noteq> ?P" using C(1) r1(1) R(7) [OF idx(2)] C(3) by (auto simp: cells_append)
  have H2: "load32 (kmem s2) (?P + of_nat (4 * ?i)) = ?H" using unchanged_field [OF u2 R(1) _ R(6) [OF idx(2)]] by simp
  have Hn: "?H \<noteq> 0" using cells_ptr [OF C(1) rep] by simp
  have tail: "list_get_tail ?H s2 = Some w" using list_get_tail_ok [OF s2(2) C2] by simp
  obtain d s2' where d: "mmu_mmap n s2 = Some (d, s2')" "d \<noteq> 0" using d_ex [of "kmem s2" ?os1] km2 s2(2) by metis
  obtain s3 where s3: "list_create_noalloc data n x s2 = Some (x, s3)" "?os1 d = None" "mmu_rep s3 (?os1(d \<mapsto> unat n))"
      "unchanged ?os1 {x} (kmem s2) (kmem s3)" "load32 (kmem s3) x = 0" "load32 (kmem s3) (x + 4) = d" "obj (kmem s3) d (unat n) = take (unat n) data"
      "client s3 = client s2" "grows s2 s3"
    by (rule list_create_noalloc_ok [OF s2(2) x1 eight n d])
  let ?os3 = "?os1(d \<mapsto> unat n)"
  have nd: "d \<noteq> x" "os d = None" "d \<noteq> w" using s3(2) w(1) by (auto split: if_splits)
  have le3: "os \<subseteq>\<^sub>m ?os3" using r1(1) nd by (auto simp: map_le_def)
  have o3: "?os3 x = Some 72" "?os3 d = Some (unat n)" "?os3 w = Some 72" using nd w by simp_all
  obtain s4 where s4: "set_list_next x 0 s3 = Some s4" "mmu_rep s4 ?os3" "unchanged ?os3 {x} (kmem s3) (kmem s4)" "load32 (kmem s4) x = 0"
      "load32 (kmem s4) (x + 4) = load32 (kmem s3) (x + 4)" by (rule set_next_ok [OF s3(3) o3(1) eight])
  have u4: "unchanged os {} (kmem s) (kmem s4)"
    using u2 unchanged_sub [OF s3(4) le1, of "{}"] unchanged_sub [OF s4(3) le3, of "{}"] r1(1) unfolding unchanged_def by auto
  obtain s5 where s5: "set_list_next w x s4 = Some s5" "mmu_rep s5 ?os3" "unchanged ?os3 {w} (kmem s4) (kmem s5)" "load32 (kmem s5) w = x"
      "load32 (kmem s5) (w + 4) = load32 (kmem s4) (w + 4)" by (rule set_next_ok [OF s4(2) o3(3) eight])
  obtain s6 where s6: "set_ht_key x key s5 = Some s6" "mmu_rep s6 ?os3" "unchanged ?os3 {x} (kmem s5) (kmem s6)"
      "load32 (kmem s6) x = load32 (kmem s5) x" "load32 (kmem s6) (x + 4) = load32 (kmem s5) (x + 4)" "ht_pair_key x (kmem s6) = key_of (cstr key)" "grows s5 s6"
    by (rule set_ht_key_ok [OF s5(2) o3(1) key])
  have "load32 (kmem s3) w = 0"
    using unchanged_field [OF u2 w(1), of 0] unchanged_field [OF s3(4), of w 72 0] w C(1) by (auto simp: cells_append)
  then have run: "hashtable_insert ht key data n s = Some s6"
    using idx(1) P Hn x(1) s2(1) H2 tail s3(1) s4(1) s5(1) s6(1) node_ptr [OF rep w(1)] next_ok(1) [OF s3(3) o3(3)] unfolding at
    by (simp add: hashtable_insert_def ht_node_def ht_pair_size_def HT_MAX_KEY_LEN_def list_insert_back_noalloc_def list_insert_after_noalloc_def)
  have u6: "unchanged os {w} (kmem s) (kmem s6)"
    using u4 unchanged_sub [OF s5(3) le3, of "{w}"] unchanged_sub [OF s6(3) le3, of "{}"] r1(1) unfolding unchanged_def
    by (auto simp: domIff)
  have km5: "kmem s5 = store32 (kmem s4) w x" using s5(1) node_ptr [OF rep w(1)] by (auto simp: set_list_next_def)
  have w6: "load32 (kmem s6) w = x" "load32 (kmem s6) (w + 4) = load32 (kmem s) (w + 4)"
    using unchanged_field [OF s6(3) o3(3), of 0] unchanged_field [OF s6(3) o3(3), of 4] s5(4,5) unchanged_field [OF u4 w(1), of 4] w(2) by simp_all
  have "cells_of 72 os (kmem s6) ?H ?its x" by (rule cells_relink [OF C(1,2) u6 w6])
  then have "cells_of 72 ?os3 (kmem s6) ?H ?its x"
  proof (rule cells_cong)
    fix y assume "y \<in> set (owned ?its)"
    then show "?os3 y = os y" using live [of y] xn nd(2) by auto
  qed simp
  moreover have "load32 (kmem s6) x = 0" "load32 (kmem s6) (x + 4) = d" "obj (kmem s6) d (unat n) = take (unat n) data"
  proof -
    show "load32 (kmem s6) x = 0" "load32 (kmem s6) (x + 4) = d"
      using unchanged_field [OF s5(3) o3(1), of 0] unchanged_field [OF s5(3) o3(1), of 4] s6(4,5) s4(4,5) s3(6) w(2) by simp_all
    show "obj (kmem s6) d (unat n) = take (unat n) data"
      using unchangedD [OF s6(3) o3(2)] unchangedD [OF s5(3) o3(2)] unchangedD [OF s4(3) o3(2)] nd s3(7) by simp
  qed
  ultimately have cells: "cells_of 72 ?os3 (kmem s6) ?H (?its @ [(x, d, take (unat n) data)]) 0"
    using o3 n(2) by (simp add: cells_append [of _ _ _ _ "map snd b @ [(w, e, c)]" "[(x, d, take (unat n) data)]", simplified] min_absorb2)
  have "ht_pair_key w (kmem s6) = ht_pair_key w (kmem s)"
  proof -
    have "unat w + 72 \<le> 2 ^ 32" using mm.object_bounds [OF rep w(1)] by simp
    then show ?thesis
      using pair_key_obj [OF unchangedD [OF s6(3) o3(3)]] pair_key_obj [OF unchangedD [OF u4 w(1)]] w(2) km5 pair_key_store_next by simp
  qed
  moreover have "ht_pair_key y (kmem s6) = ht_pair_key y (kmem s)" if "(k', y, f, v) \<in> set b" "y \<noteq> w" for k' y f v
    using pair_key_obj [OF unchangedD [OF u6]] cells_node [OF C(1), of y f v] that by force
  ultimately have "ht_pair_key y (kmem s6) = ht_pair_key y (kmem s)" if "(k', y, f, v) \<in> set (bs ! ?i)" for k' y f v
    using that full by auto
  then have keys: "\<forall>(k', y, f, v) \<in> set (bs ! ?i). key_ok k' \<and> ht_pair_key y (kmem s6) = key_of k'"
    using R(5) [OF idx(2)] unfolding ht_bucket_def by fastforce
  then have "ht_bucket ?os3 (kmem s6) ?H (bs ! ?i @ [(cstr key, x, d, take (unat n) data)])"
    using keys cells s6(6) key full cstr_nonzero by (simp add: ht_bucket_def key_ok_def)
  moreover have others: "load32 (kmem s6) (?P + of_nat (4 * j)) = load32 (kmem s) (?P + of_nat (4 * j))" if "j < length bs" for j
    using unchanged_field [OF u6 R(1) _ R(6) [OF that]] w(3) by simp
  ultimately have "ht_rep ?os3 ht (kmem s6) (bs[?i := bs ! ?i @ [(cstr key, x, d, take (unat n) data)]])"
    using others [OF idx(2)] nd r1(1) C(3) by (intro ht_extend [OF h idx(2) _ _ _ _ _ u6]) auto
  moreover have "client s6 = client s"
    using store_client(3) [OF s6(1)] store_client(2) [OF s5(1)] store_client(2) [OF s4(1)] s3(8) store_client(2) [OF s2(1)]
      mm.alloc_rest [OF rep sz x(1)] by simp
  moreover have "grows s s6"
    using gm.alloc_grown [OF rep sz x(1)] set_node_grows(1) [OF r1(2) x1 eight s2(1)] s3(9) set_node_grows(1) [OF s3(3) o3(1) eight s4(1)]
      set_node_grows(1) [OF s4(2) o3(3) eight s5(1)] s6(7) by (blast intro: grows_trans)
  ultimately show thesis using that [OF run s6(2) r1(1) nd(2) _ u6] by simp
qed


lemma ht_map_add:
  assumes h: "ht_hash ht (key @ [0]) (ht_size ht) = Some idx" "unat idx < length bs"
    and ok: "\<And>k. 0 \<notin> set k \<Longrightarrow> \<exists>i. ht_hash ht (k @ [0]) (ht_size ht) = Some i"
  shows "0 \<notin> set k \<Longrightarrow> ht_map ht (bs[unat idx := bs ! unat idx @ [(key, x, d, v)]]) k =
     (if k = key \<and> ht_map ht bs key = None then Some v else ht_map ht bs k)"
proof -
  assume "0 \<notin> set k"
  then obtain i where i: "ht_hash ht (k @ [0]) (ht_size ht) = Some i" using ok by blast
  show ?thesis
  proof (cases "i = idx")
    case True
    then show ?thesis using h i by (auto simp: ht_map_def map_add_def split: option.splits)
  next
    case False
    then have "k \<noteq> key" "unat i \<noteq> unat idx" using h i by auto
    then show ?thesis using i by (simp add: ht_map_def)
  qed
qed

definition ht_objects :: "hashtable \<Rightarrow> bucket list \<Rightarrow> u32 set" where
  "ht_objects ht bs = insert (ht_nodes ht) (\<Union>b\<in>set bs. set (bucket_owned b))"

lemma ht_objects_iff: "p \<in> ht_objects ht bs \<longleftrightarrow> p = ht_nodes ht \<or> (\<exists>i<length bs. p \<in> set (bucket_owned (bs ! i)))"
  by (auto simp: ht_objects_def set_conv_nth [of bs])

lemma ht_objects_add: "i < length bs \<Longrightarrow> ht_objects ht (bs[i := bs ! i @ [(k, x, d, v)]]) = ht_objects ht bs \<union> {x, d}"
  by (auto simp: set_eq_iff ht_objects_iff nth_list_update split: if_splits)

text \<open>The objects of the heap that are not of the table.\<close>

definition others :: "objects \<Rightarrow> hashtable \<Rightarrow> bucket list \<Rightarrow> objects" where
  "others os ht bs = (\<lambda>p. if p \<in> ht_objects ht bs then None else os p)"

lemma hash_range:
  assumes "ht_rep os ht m bs" "terminated key"
  obtains i where "ht_hash ht key (ht_size ht) = Some i" "ht_hash ht (cstr key @ [0]) (ht_size ht) = Some i" "unat i < length bs"
  using assms by (auto simp: ht_rep_def hash_ok_def word_less_nat_alt)

lemma hashtable_insert_ok:
  assumes rep: "mmu_rep s os" and h: "ht_rep os ht (kmem s) bs" and key: "terminated key" "length (cstr key) < 64"
    and n: "unat n + 80 < 2 ^ 32" "unat n \<le> length data" and room: "ht_room n s"
  obtains s' os' bs' where "hashtable_insert ht key data n s = Some s'" "mmu_rep s' os'" "os \<subseteq>\<^sub>m os'" "ht_rep os' ht (kmem s') bs'"
    "unchanged os (ht_objects ht bs) (kmem s) (kmem s')" "others os' ht bs' = others os ht bs" "client s' = client s" "grows s s'"
    "\<And>k. 0 \<notin> set k \<Longrightarrow> ht_map ht bs' k = (if k = cstr key \<and> ht_map ht bs k = None then Some (take (unat n) data) else ht_map ht bs k)"
proof -
  obtain idx where idx: "ht_hash ht key (ht_size ht) = Some idx" "ht_hash ht (cstr key @ [0]) (ht_size ht) = Some idx" "unat idx < length bs"
    by (rule hash_range [OF h key(1)])
  have ok: "\<exists>i. ht_hash ht (k @ [0]) (ht_size ht) = Some i" for k
    by (rule hash_range [OF h, of "k @ [0]"]) (auto simp: terminated_def)
  let ?b = "bs ! unat idx"
  note B = ht_repD(5) [OF h idx(3)]
  note wit = that
  have fin: thesis if run: "hashtable_insert ht key data n s = Some s'" "mmu_rep s' (os(x \<mapsto> 72, d \<mapsto> unat n))" "os x = None" "os d = None"
      "ht_rep (os(x \<mapsto> 72, d \<mapsto> unat n)) ht (kmem s') (bs[unat idx := ?b @ [(cstr key, x, d, take (unat n) data)]])"
      "unchanged os X (kmem s) (kmem s')" "client s' = client s" "grows s s'" "X \<subseteq> ht_objects ht bs" for x d s' X
  proof (rule wit [OF run(1,2) _ run(5)])
    show "client s' = client s" "grows s s'" by (rule run(7), rule run(8))
    show "os \<subseteq>\<^sub>m os(x \<mapsto> 72, d \<mapsto> unat n)" using run(3,4) by (auto simp: map_le_def)
    show "unchanged os (ht_objects ht bs) (kmem s) (kmem s')" using run(6,9) unfolding unchanged_def by blast
    show "others (os(x \<mapsto> 72, d \<mapsto> unat n)) ht (bs[unat idx := ?b @ [(cstr key, x, d, take (unat n) data)]]) = others os ht bs"
      using run(3,4) by (auto simp: others_def ht_objects_add [OF idx(3)])
    show "0 \<notin> set k \<Longrightarrow> ht_map ht (bs[unat idx := ?b @ [(cstr key, x, d, take (unat n) data)]]) k =
        (if k = cstr key \<and> ht_map ht bs k = None then Some (take (unat n) data) else ht_map ht bs k)" for k
      using ht_map_add [OF idx(2,3) ok] by auto
  qed
  show thesis
  proof (cases "?b = []")
    case True
    then have "load32 (kmem s) (ht_nodes ht + of_nat (4 * unat idx)) = 0" using B by (simp add: ht_bucket_def)
    then obtain x d s' where "hashtable_insert ht key data n s = Some s'" "mmu_rep s' (os(x \<mapsto> 72, d \<mapsto> unat n))" "os x = None" "os d = None"
      "ht_rep (os(x \<mapsto> 72, d \<mapsto> unat n)) ht (kmem s') (bs[unat idx := [(cstr key, x, d, take (unat n) data)]])"
      "unchanged os {ht_nodes ht} (kmem s) (kmem s')" "client s' = client s" "grows s s'" by (rule insert_first [OF rep h idx(1,3) _ True key n room])
    then show thesis using fin [of s' x d "{ht_nodes ht}"] True by (simp add: ht_objects_def)
  next
    case False
    obtain b k w e c where b: "?b = b @ [(k, w, e, c)]" using False by (metis append_butlast_last_id prod_cases4)
    obtain x d s' where s': "hashtable_insert ht key data n s = Some s'" "mmu_rep s' (os(x \<mapsto> 72, d \<mapsto> unat n))" "os x = None" "os d = None"
      "ht_rep (os(x \<mapsto> 72, d \<mapsto> unat n)) ht (kmem s') (bs[unat idx := ?b @ [(cstr key, x, d, take (unat n) data)]])"
      "unchanged os {w} (kmem s) (kmem s')" "client s' = client s" "grows s s'" by (rule insert_behind [OF rep h idx(1,3) b key n room])
    have "w \<in> ht_objects ht bs" using nth_mem [OF idx(3)] b by (force simp: ht_objects_def)
    then show thesis using fin [OF s'] by simp
  qed
qed

section \<open>Look-up\<close>

lemma key_of_string: "key_ok k \<Longrightarrow> terminated (key_of k) \<and> cstr (key_of k) = k"
proof -
  assume k: "key_ok k"
  then obtain j where "64 - length k = Suc j" by (metis Suc_diff_Suc key_ok_def)
  then show ?thesis using k cstr_append [of k "replicate j 0"] by (simp add: key_of_def terminated_def key_ok_def)
qed

lemma get_loop_ok:
  assumes rep: "mmu_rep s os" and key: "terminated key"
  shows "ht_bucket os (kmem s) p b \<Longrightarrow>
     get_loop p key s = Some (case find (\<lambda>(k, _). k = cstr key) b of None \<Rightarrow> 0 | Some (k, x, d, v) \<Rightarrow> x)"
proof (induction b arbitrary: p)
  case Nil
  then show ?case by (subst get_loop.simps) (simp add: ht_bucket_def)
next
  case (Cons e b)
  obtain k x d v where e: "e = (k, x, d, v)" by (metis prod_cases4)
  have B: "p = x" "os x = Some 72" "key_ok k" "ht_pair_key x (kmem s) = key_of k" "ht_bucket os (kmem s) (load32 (kmem s) x) b"
    using Cons.prems e by (auto simp: ht_bucket_def)
  have "strcmp (ht_pair_key x (kmem s)) key = Some (cstr_order k (cstr key))"
    using strcmp_cstr [OF _ key] key_of_string [OF B(3)] B(4) by metis
  then show ?case using B e Cons.IH [OF B(5)] node_ptr [OF rep B(2)] next_ok(1) [OF rep B(2)] by (subst get_loop.simps) auto
qed

lemma find_entry:
  "find (\<lambda>(k, _). k = key) b = Some (k, x, d, v) \<Longrightarrow> (k, x, d, v) \<in> set b \<and> map_of (map (\<lambda>(k, x, d, v). (k, v)) b) key = Some v"
  "find (\<lambda>(k, _). k = key) b = None \<Longrightarrow> map_of (map (\<lambda>(k, x, d, v). (k, v)) b) key = None"
  by (induction b) (auto split: if_splits)

lemma hashtable_get_ok:
  assumes rep: "mmu_rep s os" and h: "ht_rep os ht (kmem s) bs" and key: "terminated key" and out: "unat n \<le> length out"
    and dat: "\<And>v. ht_map ht bs (cstr key) = Some v \<Longrightarrow> unat n \<le> length v"
  shows "hashtable_get ht key out n s = Some (case ht_map ht bs (cstr key) of None \<Rightarrow> (-1, out) | Some v \<Rightarrow> (0, take (unat n) v @ drop (unat n) out))"
proof -
  obtain idx where idx: "ht_hash ht key (ht_size ht) = Some idx" "ht_hash ht (cstr key @ [0]) (ht_size ht) = Some idx" "unat idx < length bs"
    by (rule hash_range [OF h key])
  let ?b = "bs ! unat idx" and ?H = "load32 (kmem s) (ht_nodes ht + 4 * idx)"
  have P: "ht_nodes ht \<noteq> 0" using node_ptr [OF rep] ht_repD(1) [OF h] by blast
  have B: "ht_bucket os (kmem s) ?H ?b" using ht_repD(5) [OF h idx(3)] by simp
  then have c: "cells_of 72 os (kmem s) ?H (map snd ?b) 0" by (simp add: ht_bucket_def)
  note L = get_loop_ok [OF rep key B]
  have m: "ht_map ht bs (cstr key) = map_of (map (\<lambda>(k, x, d, v). (k, v)) ?b) (cstr key)" using idx by (simp add: ht_map_def)
  show ?thesis
  proof (cases "find (\<lambda>(k, _). k = cstr key) ?b")
    case None
    then show ?thesis using find_entry(2) [OF None] m L idx P by (auto simp: hashtable_get_def ht_node_def)
  next
    case (Some e)
    then obtain k x d v where e: "find (\<lambda>(k, _). k = cstr key) ?b = Some (k, x, d, v)" by (metis prod_cases4)
    note E = find_entry(1) [OF e]
    have it: "(x, d, v) \<in> set (map snd ?b)" using E by force
    have D: "os x = Some 72" "load32 (kmem s) (x + 4) = d" "obj (kmem s) d (length v) = v"
      using cells_item [OF c it] by auto
    have "?H \<noteq> 0" using cells_ptr [OF c rep] it by auto
    moreover have "obj (kmem s) d (unat n) = take (unat n) v"
      using D(3) dat [of v] E m by (metis obj_take)
    ultimately show ?thesis
      using L e E m idx P out node_ptr [OF rep D(1)] next_ok(2) [OF rep D(1)] D(2) by (simp add: hashtable_get_def ht_node_def memcpy_from_def)
  qed
qed


section \<open>Creation and removal\<close>

lemma load32_of_zeroes: "(\<And>j. j < 4 \<Longrightarrow> m (p + of_nat j) = 0) \<Longrightarrow> load32 m p = 0"
proof -
  assume z: "\<And>j. j < 4 \<Longrightarrow> m (p + of_nat j) = 0"
  from z [of 0] z [of 1] z [of 2] z [of 3] show ?thesis by (simp add: load32_def)
qed

lemma hashtable_init_ok:
  assumes rep: "mmu_rep s os" and n: "n \<noteq> 0" "4 * unat n + 80 < 2 ^ 32" and p: "mmu_mmap (n * 4) s = Some (p, s1)" "p \<noteq> 0"
    and f: "\<And>g. hashfunc = Some g \<Longrightarrow> hash_ok g n"
  obtains s' ht where "hashtable_init hashfunc n s = Some (0, ht, s')" "os p = None" "mmu_rep s' (os(p \<mapsto> 4 * unat n))"
    "ht_rep (os(p \<mapsto> 4 * unat n)) ht (kmem s') (replicate (unat n) [])" "unchanged os {} (kmem s) (kmem s')" "ht_nodes ht = p" "ht_size ht = n"
proof -
  have sz: "unat (n * 4) = 4 * unat n" using n(2) by (subst unat_mult_less) (simp_all add: mult.commute)
  then have sz80: "unat (n * 4) + 80 < 2 ^ 32" using n(2) by simp
  have r1: "os p = None" "mmu_rep s1 (os(p \<mapsto> 4 * unat n))" using mm.alloc_new [OF rep sz80 p] sz by simp_all
  let ?os = "os(p \<mapsto> 4 * unat n)" and ?z = "replicate (4 * unat n) (0 :: u8)"
  let ?m = "write_bytes (kmem s1) p ?z" and ?h = "case hashfunc of Some f \<Rightarrow> f | None \<Rightarrow> hashFNV"
  have p1: "?os p = Some (4 * unat n)" by simp
  have W: "mmu_rep (set_kmem ?m s1) ?os" "unchanged ?os {p} (kmem s1) ?m" "obj ?m p (4 * unat n) = ?z"
    using mm.bytes_store [OF r1(2) p1, of 0 ?z] by (simp_all add: fun_upd_def)
  define ht where "ht = \<lparr>ht_nodes = p, ht_size = n, ht_hash = ?h\<rparr>"
  have run: "hashtable_init hashfunc n s = Some (0, ht, set_kmem ?m s1)"
    using p sz n(1) by (auto simp: hashtable_init_def memset_to_def ht_def Let_def unat_eq_0)
  have "load32 ?m (p + of_nat (4 * i)) = 0" if "i < unat n" for i
  proof (rule load32_of_zeroes)
    fix j :: nat assume "j < 4"
    then have "4 * i + j < 4 * unat n" using that by simp
    then have "?m (p + of_nat (4 * i + j)) = ?z ! (4 * i + j)" using W(3) obj_nth [of "4 * i + j" "4 * unat n" ?m p] by simp
    then show "?m (p + of_nat (4 * i) + of_nat j) = 0" using \<open>4 * i + j < 4 * unat n\<close> by (simp add: add.assoc)
  qed
  moreover have "hash_ok ?h n" using f hashFNV_ok [OF n(1)] by (simp split: option.splits)
  ultimately have "ht_rep ?os ht ?m (replicate (unat n) [])" by (simp add: ht_rep_def ht_def ht_apart_def ht_bucket_def)
  moreover have "os \<subseteq>\<^sub>m ?os" using r1(1) by (auto simp: map_le_def)
  then have "unchanged os {} (kmem s1) ?m" using r1(1) by (intro unchanged_sub [OF W(2)]) auto
  then have "unchanged os {} (kmem s) ?m" using unchanged_trans [OF mm.alloc_frame [OF rep sz80 p(1), of "{}"]] by fastforce
  ultimately show thesis using that [OF run r1(1) W(1)] by (simp add: ht_def)
qed

lemma without_simps: "without os [] = os" "without (without os xs) ys = without os (xs @ ys)"
  by (auto simp: without_def)

text \<open>One step of the loop: a chain is given back and its entry becomes \<open>NULL\<close>.\<close>

lemma ht_rep_clear:
  assumes h: "ht_rep os ht (kmem s) bs" and i: "i < length bs" and rep: "mmu_rep s' (without os (bucket_owned (bs ! i)))" and km: "kmem s' = kmem s"
  obtains s'' where "set_ht_node ht (of_nat i) 0 s' = Some s''" "mmu_rep s'' (without os (bucket_owned (bs ! i)))"
    "ht_rep (without os (bucket_owned (bs ! i))) ht (kmem s'') (bs[i := []])"
proof -
  note R = ht_repD [OF h]
  let ?os = "without os (bucket_owned (bs ! i))" and ?P = "ht_nodes ht"
  have P: "?os ?P = Some (4 * unat (ht_size ht))" using R(1) R(7) [OF i] by (simp add: without_def)
  note F = mm.field_store [OF rep P R(6) [OF i] dvd_triv_left, where v = 0]
  let ?m = "store32 (kmem s') (?P + of_nat (4 * i)) 0"
  have "set_ht_node ht (of_nat i) 0 s' = Some (set_kmem ?m s')" using node_ptr [OF rep P] by (simp add: set_ht_node_def)
  moreover have apart: "set (bucket_owned (bs ! i)) \<inter> set (bucket_owned (bs ! j)) = {}" if "j < length bs" "j \<noteq> i" for j
    using R(4) i that unfolding ht_apart_def by metis
  have "ht_rep ?os ht ?m (bs[i := []])"
  proof -
    have "ht_bucket ?os ?m (load32 ?m (?P + of_nat (4 * j))) (bs[i := []] ! j)" if j: "j < length bs" for j
    proof (cases "j = i")
      case True
      then show ?thesis using F(3) i by (simp add: ht_bucket_def)
    next
      case False
      have l: "load32 ?m (?P + of_nat (4 * j)) = load32 (kmem s) (?P + of_nat (4 * j))"
        using F(4) [OF R(6) [OF j] dvd_triv_left] False km by simp
      have same: "?os y = os y" if "y \<in> set (bucket_owned (bs ! j))" for y using apart [OF j False] that by (auto simp: without_def)
      have "ht_bucket ?os ?m (load32 (kmem s) (?P + of_nat (4 * j))) (bs ! j)"
      proof (rule ht_bucket_cong [OF R(5) [OF j] same])
        fix y k assume y: "y \<in> set (bucket_owned (bs ! j))" "os y = Some k"
        then have "y \<noteq> ?P" using R(7) [OF j] by blast
        then show "obj ?m y k = obj (kmem s) y k" using unchangedD [OF F(2), of y k] same [OF y(1)] y(2) km by simp
      qed
      then show ?thesis using l False by simp
    qed
    moreover have "ht_apart ?P (bs[i := []])"
      unfolding ht_apart_def using R(4,7) i by (auto simp: nth_list_update ht_apart_def)
    ultimately show ?thesis using P R(2,3) unfolding ht_rep_def by simp
  qed
  ultimately show thesis using that [of "set_kmem ?m s'"] F(1) by simp
qed


lemma uninit_loop_ok:
  assumes "mmu_rep s os" "ht_rep os ht (kmem s) bs" "i \<le> unat (ht_size ht)"
  shows "\<exists>s'. uninit_loop ht (of_nat i) s = Some s' \<and> mmu_rep s' (without os (concat (map bucket_owned (drop i bs)))) \<and> ht_nodes ht \<noteq> 0"
  using assms
proof (induction "unat (ht_size ht) - i" arbitrary: i s os bs)
  case 0
  then have "i = unat (ht_size ht)" "length bs = i" using ht_repD(2) by auto
  then show ?case using 0 node_ptr ht_repD(1) [OF 0(3)] by (subst uninit_loop.simps) (auto simp: without_simps)
next
  case (Suc k)
  note R = ht_repD [OF Suc(4)]
  have i: "i < length bs" "i < unat (ht_size ht)" using Suc(2) R(2) by simp_all
  have u: "unat (of_nat i :: u32) = i" using i(2) unat_less_32 [of "ht_size ht"] by (intro unat_of_nat_small) simp
  then have lt: "(of_nat i :: u32) < ht_size ht" using i(2) by (simp add: word_less_nat_alt)
  let ?H = "load32 (kmem s) (ht_nodes ht + of_nat (4 * i))" and ?o = "bucket_owned (bs ! i)"
  have B: "cells_of 72 os (kmem s) ?H (map snd (bs ! i)) 0" "distinct ?o" using R(5) [OF i(1)] R(7) [OF i(1)] by (simp_all add: ht_bucket_def)
  have P: "ht_nodes ht \<noteq> 0" using node_ptr [OF Suc(3) R(1)] .
  have drop: "drop i bs = bs ! i # drop (Suc i) bs" using i(1) Cons_nth_drop_Suc by metis
  obtain s' bs' where s': "(if ?H \<noteq> 0 then do { (_, h, s) \<leftarrow> list_free ?H s; set_ht_node ht (of_nat i) h s } else Some s) = Some s'"
      "mmu_rep s' (without os ?o)" "ht_rep (without os ?o) ht (kmem s') bs'" "drop (Suc i) bs' = drop (Suc i) bs"
  proof (cases "bs ! i = []")
    case True
    then have "?H = 0" using B(1) by simp
    then show thesis using that [of s bs] Suc(3,4) True by (simp add: without_simps)
  next
    case False
    obtain s1 where s1: "free_loop ?H s = Some s1" "mmu_rep s1 (without os ?o)" "kmem s1 = kmem s" using free_loop_ok [OF Suc(3) B] by blast
    obtain s2 where s2: "set_ht_node ht (of_nat i) 0 s1 = Some s2" "mmu_rep s2 (without os ?o)" "ht_rep (without os ?o) ht (kmem s2) (bs[i := []])"
      by (rule ht_rep_clear [OF Suc(4) i(1) s1(2,3)])
    have "?H \<noteq> 0" using cells_ptr [OF B(1) Suc(3)] False by simp
    then show thesis using that [of s2 "bs[i := []]"] s1(1) s2 by (simp add: list_free_def)
  qed
  have "k = unat (ht_size ht) - Suc i" "Suc i \<le> unat (ht_size ht)" using Suc(2) i(2) by simp_all
  from Suc(1) [OF this(1) s'(2,3) this(2)] obtain s'' where
    s'': "uninit_loop ht (of_nat (Suc i)) s' = Some s''" "mmu_rep s'' (without (without os ?o) (concat (map bucket_owned (drop (Suc i) bs))))"
    using s'(4) by auto
  have "uninit_loop ht (of_nat i) s = Some s''"
    using lt P s''(1) by (subst uninit_loop.simps) (use s'(1) in \<open>auto simp: ht_node_def add.commute Option.bind_eq_Some_conv split: if_splits\<close>)
  then show ?case using s''(2) P drop by (simp add: without_simps)
qed

lemma hashtable_uninit_ok:
  assumes rep: "mmu_rep s os" and h: "ht_rep os ht (kmem s) bs"
  obtains s' where "hashtable_uninit ht s = Some s'" "mmu_rep s' (others os ht bs)"
proof -
  let ?l = "concat (map bucket_owned bs)"
  obtain s1 where s1: "uninit_loop ht 0 s = Some s1" "mmu_rep s1 (without os ?l)" using uninit_loop_ok [OF rep h, of 0] by auto
  have "ht_nodes ht \<notin> set ?l" using ht_repD(7) [OF h] by (auto simp: in_set_conv_nth [of _ bs])
  then have "without os ?l (ht_nodes ht) = Some (4 * unat (ht_size ht))" using ht_repD(1) [OF h] by (simp add: without_def)
  then obtain s2 where s2: "mmu_munmap (ht_nodes ht) s1 = Some s2" "mmu_rep s2 ((without os ?l)(ht_nodes ht := None))"
    by (rule munmap_ok [OF s1(2)]) auto
  have "(without os ?l)(ht_nodes ht := None) = others os ht bs"
    by (auto simp: without_def ht_objects_def others_def)
  then show thesis using that [of s2] s1(1) s2 by (simp add: hashtable_uninit_def)
qed

section \<open>The interface\<close>

text \<open>
  What a client of a table may rely on: \<open>put\<close> adds a binding and keeps the first one, \<open>get\<close> reads the bindings.
\<close>

locale dictionary =
  fixes put :: "'k \<Rightarrow> 'v \<Rightarrow> 's \<Rightarrow> 's option" and get :: "'k \<Rightarrow> 's \<Rightarrow> 'v option option"
    and rep :: "'s \<Rightarrow> ('k \<Rightarrow> 'v option) \<Rightarrow> bool" and room :: "'s \<Rightarrow> bool" and good :: "'k \<Rightarrow> 'v \<Rightarrow> bool"
  assumes put_ok: "rep s M \<Longrightarrow> good k v \<Longrightarrow> room s \<Longrightarrow> \<exists>s'. put k v s = Some s' \<and> rep s' (if M k = None then M(k \<mapsto> v) else M)"
    and get_ok: "rep s M \<Longrightarrow> good k v \<Longrightarrow> get k s = Some (M k)"

context dictionary
begin

fun put_all :: "('k \<times> 'v) list \<Rightarrow> 's \<Rightarrow> 's option" where
  "put_all [] s = Some s"
| "put_all ((k, v) # kvs) s = do { s \<leftarrow> put k v s; put_all kvs s }"

fun rooms :: "('k \<times> 'v) list \<Rightarrow> 's \<Rightarrow> bool" where
  "rooms [] s \<longleftrightarrow> True"
| "rooms ((k, v) # kvs) s \<longleftrightarrow> room s \<and> (\<forall>s'. put k v s = Some s' \<longrightarrow> rooms kvs s')"

lemma put_all_ok:
  "rep s M \<Longrightarrow> \<forall>(k, v) \<in> set kvs. good k v \<Longrightarrow> rooms kvs s \<Longrightarrow> \<exists>s'. put_all kvs s = Some s' \<and> rep s' (map_of kvs ++ M)"
proof (induction kvs arbitrary: s M)
  case (Cons e kvs)
  obtain k v where e: "e = (k, v)" by force
  obtain s1 where s1: "put k v s = Some s1" "rep s1 (if M k = None then M(k \<mapsto> v) else M)"
    using put_ok [OF Cons.prems(1)] Cons.prems(2,3) e by force
  obtain s' where "put_all kvs s1 = Some s'" "rep s' (map_of kvs ++ (if M k = None then M(k \<mapsto> v) else M))"
    using Cons.IH [OF s1(2)] Cons.prems(2,3) e s1(1) by auto
  moreover have "map_of kvs ++ (if M k = None then M(k \<mapsto> v) else M) = map_of (e # kvs) ++ M"
    using e by (auto simp: map_add_def fun_eq_iff split: option.splits)
  ultimately have "put_all (e # kvs) s = Some s'" "rep s' (map_of (e # kvs) ++ M)" using e s1(1) by simp_all
  then show ?case by blast
qed simp

lemma first_wins:
  assumes "rep s (\<lambda>_. None)" "\<forall>(k, v) \<in> set kvs. good k v" "rooms kvs s"
  shows "\<exists>s'. put_all kvs s = Some s' \<and> (\<forall>k v. good k v \<longrightarrow> get k s' = Some (map_of kvs k))"
  using put_all_ok [OF assms] get_ok by fastforce

end

text \<open>The hash table with entries of \<open>n\<close> bytes in a heap whose other objects are \<open>os0\<close>.\<close>

definition ht_models :: "u32 \<Rightarrow> objects \<Rightarrow> hashtable \<times> 'a liballoc_scheme \<Rightarrow> (bytes \<Rightarrow> bytes option) \<Rightarrow> bool" where
  "ht_models n os0 hs M \<longleftrightarrow> unat n + 80 < 2 ^ 32 \<and> (\<exists>os bs. mmu_rep (snd hs) os \<and> ht_rep os (fst hs) (kmem (snd hs)) bs \<and> others os (fst hs) bs = os0 \<and>
     (\<forall>k. M k = (if 0 \<in> set k then None else ht_map (fst hs) bs k)) \<and> (\<forall>v\<in>ran M. length v = unat n))"

definition ht_put :: "u32 \<Rightarrow> bytes \<Rightarrow> bytes \<Rightarrow> hashtable \<times> 'a liballoc_scheme \<Rightarrow> (hashtable \<times> 'a liballoc_scheme) option" where
  "ht_put n k v = (\<lambda>(ht, s). do { s \<leftarrow> hashtable_insert ht (k @ [0]) v n s; Some (ht, s) })"

definition ht_get :: "u32 \<Rightarrow> bytes \<Rightarrow> hashtable \<times> 'a liballoc_scheme \<Rightarrow> bytes option option" where
  "ht_get n k = (\<lambda>(ht, s). do { (r, out) \<leftarrow> hashtable_get ht (k @ [0]) (replicate (unat n) 0) n s; Some (if r = 0 then Some out else None) })"

definition ht_good :: "u32 \<Rightarrow> bytes \<Rightarrow> bytes \<Rightarrow> bool" where
  "ht_good n k v \<longleftrightarrow> 0 \<notin> set k \<and> length k < 64 \<and> length v = unat n"

lemma insert_models:
  assumes hs: "ht_models n os0 (ht, s) M" and key: "terminated key" "length (cstr key) < 64" and v: "length v = unat n" and room: "ht_room n s"
  shows "\<exists>s'. hashtable_insert ht key v n s = Some s' \<and> ht_models n os0 (ht, s') (if M (cstr key) = None then M(cstr key \<mapsto> v) else M) \<and>
     unchanged os0 {} (kmem s) (kmem s') \<and> client s' = client s \<and> grows s s'"
proof -
  obtain os bs where n: "unat n + 80 < 2 ^ 32" and r: "mmu_rep s os" and h: "ht_rep os ht (kmem s) bs" and o: "others os ht bs = os0"
    and M: "\<And>k. M k = (if 0 \<in> set k then None else ht_map ht bs k)" and len: "\<forall>v\<in>ran M. length v = unat n"
    using hs by (auto simp: ht_models_def)
  have l: "unat n \<le> length v" using v by simp
  obtain s' os' bs' where s': "hashtable_insert ht key v n s = Some s'" "mmu_rep s' os'" "ht_rep os' ht (kmem s') bs'"
      "others os' ht bs' = others os ht bs" "unchanged os (ht_objects ht bs) (kmem s) (kmem s')"
      "\<And>k. 0 \<notin> set k \<Longrightarrow> ht_map ht bs' k = (if k = cstr key \<and> ht_map ht bs k = None then Some (take (unat n) v) else ht_map ht bs k)" "client s' = client s" "grows s s'"
    by (rule hashtable_insert_ok [OF r h key n l room]) blast
  let ?M = "if M (cstr key) = None then M(cstr key \<mapsto> v) else M"
  have "?M k = (if 0 \<in> set k then None else ht_map ht bs' k)" for k using M s'(6) v cstr_nonzero by auto
  moreover have "\<forall>v\<in>ran ?M. length v = unat n" using len v by (auto simp: ran_def)
  ultimately have "ht_models n os0 (ht, s') ?M" unfolding ht_models_def fst_conv snd_conv using n s'(2-4) o by blast
  moreover have "unchanged os0 {} (kmem s) (kmem s')"
    using s'(5) unfolding o [symmetric] unchanged_def others_def by (auto split: if_splits)
  ultimately show ?thesis using s'(1,7,8) by blast
qed

lemma get_models:
  assumes hs: "ht_models n os0 (ht, s) M" and key: "terminated key" and out: "length out = unat n"
  shows "hashtable_get ht key out n s = Some (case M (cstr key) of None \<Rightarrow> (-1, out) | Some v \<Rightarrow> (0, v))"
proof -
  obtain os bs where r: "mmu_rep s os" and h: "ht_rep os ht (kmem s) bs"
    and M: "M (cstr key) = ht_map ht bs (cstr key)" and len: "\<forall>v\<in>ran M. length v = unat n"
    using hs cstr_nonzero by (auto simp: ht_models_def)
  have "length v = unat n" if "M (cstr key) = Some v" for v using len that by (auto simp: ran_def)
  then show ?thesis using hashtable_get_ok [OF r h key, of n out] out M by (auto split: option.splits)
qed

interpretation hd: dictionary "ht_put n" "ht_get n" "ht_models n os0" "\<lambda>hs. ht_room n (snd hs)" "ht_good n"
proof unfold_locales
  fix hs :: "hashtable \<times> 'a liballoc_scheme" and M k v
  assume hs: "ht_models n os0 hs M" and good: "ht_good n k v"
  obtain ht s where eq: "hs = (ht, s)" by force
  have k: "terminated (k @ [0])" "cstr (k @ [0]) = k" using good cstr_append [of k "[]"] by (auto simp: ht_good_def terminated_def)
  show "ht_get n k hs = Some (M k)"
    using get_models [OF hs [unfolded eq] k(1), of "replicate (unat n) 0"] k(2) eq by (auto simp: ht_get_def split: option.splits)
  assume "ht_room n (snd hs)"
  then obtain s' where "hashtable_insert ht (k @ [0]) v n s = Some s'" "ht_models n os0 (ht, s') (if M k = None then M(k \<mapsto> v) else M)"
    using insert_models [OF hs [unfolded eq] k(1), of v, unfolded k(2)] good eq by (auto simp: ht_good_def)
  then show "\<exists>hs'. ht_put n k v hs = Some hs' \<and> ht_models n os0 hs' (if M k = None then M(k \<mapsto> v) else M)"
    using eq by (intro exI [of _ "(ht, s')"]) (simp add: ht_put_def)
qed


lemma init_models:
  assumes "mmu_rep s os0" "m \<noteq> 0" "4 * unat m + 80 < 2 ^ 32" "mmu_mmap (m * 4) s = Some (p, s1)" "p \<noteq> 0" "unat n + 80 < 2 ^ 32"
  shows "\<exists>ht s'. hashtable_init None m s = Some (0, ht, s') \<and> ht_models n os0 (ht, s') (\<lambda>_. None) \<and> unchanged os0 {} (kmem s) (kmem s')"
proof -
  obtain s' ht where s': "hashtable_init None m s = Some (0, ht, s')" "os0 p = None" "mmu_rep s' (os0(p \<mapsto> 4 * unat m))"
      "ht_rep (os0(p \<mapsto> 4 * unat m)) ht (kmem s') (replicate (unat m) [])" "unchanged os0 {} (kmem s) (kmem s')" "ht_nodes ht = p" "ht_size ht = m"
    by (rule hashtable_init_ok [OF assms(1-5), of None]) auto
  have "others (os0(p \<mapsto> 4 * unat m)) ht (replicate (unat m) []) = os0"
    using s'(2,6) by (auto simp: others_def ht_objects_def)
  moreover have "ht_map ht (replicate (unat m) []) k = None" if "0 \<notin> set k" for k
  proof -
    have "terminated (k @ [0])" by (simp add: terminated_def)
    then obtain i where "ht_hash ht (k @ [0]) (ht_size ht) = Some i" "unat i < length (replicate (unat m) ([] :: bucket))"
      using hash_range [OF s'(4)] by metis
    then show ?thesis by (simp add: ht_map_def)
  qed
  ultimately have "ht_models n os0 (ht, s') (\<lambda>_. None)" unfolding ht_models_def fst_conv snd_conv using assms(6) s'(3,4) by fastforce
  then show ?thesis using s'(1,5) by blast
qed

lemma uninit_models: "ht_models n os0 (ht, s) M \<Longrightarrow> \<exists>s'. hashtable_uninit ht s = Some s' \<and> mmu_rep s' os0"
  unfolding ht_models_def fst_conv snd_conv using hashtable_uninit_ok by metis

section \<open>Properties\<close>

text \<open>
  C12. The hash table implements a finite map that keeps the first value of a key. On a table that holds the map \<open>M\<close>, and with room in the heap,
  \<open>hashtable_insert\<close> of a key shorter than 64 bytes returns, and the table then holds \<open>M\<close> with the new binding, or \<open>M\<close> itself when the
  key was there; every later \<open>hashtable_get\<close> returns 0 and the bytes of the map, or -1 and leaves the buffer, for every
  key. The objects of the heap that are not of the table are the same with the same contents.
\<close>

theorem hashtable_refines_map:
  assumes "ht_models n os0 (ht, s) M" "terminated key" "length (cstr key) < 64" "length data = unat n" "ht_room n s"
    and "M' = (if M (cstr key) = None then M(cstr key \<mapsto> data) else M)"
  shows "\<exists>s'. hashtable_insert ht key data n s = Some s' \<and> ht_models n os0 (ht, s') M' \<and> unchanged os0 {} (kmem s) (kmem s') \<and>
     (\<forall>key' out. terminated key' \<and> length out = unat n \<longrightarrow>
        hashtable_get ht key' out n s' = Some (case M' (cstr key') of None \<Rightarrow> (-1, out) | Some v \<Rightarrow> (0, v)))"
  using insert_models [OF assms(1-5)] get_models unfolding assms(6) by blast

text \<open>
  The life of a table: \<open>hashtable_init\<close> with the default hash function and an allocation that succeeds returns 0 and a table that
  holds the empty map; from any table, whatever was inserted, \<open>hashtable_uninit\<close> returns and gives back all memory of
  the table, and exactly that: the live objects are again those of the rest of the kernel.
\<close>

theorem hashtable_life:
  assumes "mmu_rep s os0" "m \<noteq> 0" "4 * unat m + 80 < 2 ^ 32" "mmu_mmap (m * 4) s = Some (p, s1)" "p \<noteq> 0" "unat n + 80 < 2 ^ 32"
  shows "(\<exists>ht s'. hashtable_init None m s = Some (0, ht, s') \<and> ht_models n os0 (ht, s') (\<lambda>_. None) \<and> unchanged os0 {} (kmem s) (kmem s')) \<and>
     (\<forall>ht (s2 :: 'a liballoc_scheme) M. ht_models n os0 (ht, s2) M \<longrightarrow> (\<exists>s3. hashtable_uninit ht s2 = Some s3 \<and> mmu_rep s3 os0))"
  using init_models [OF assms] uninit_models by blast

text \<open>The sample heap has room for a table of two entries and a pair.\<close>

lemma set_kmem_mem: "set_kmem m s = s\<lparr>kmem := m\<rparr>"
  by (simp add: set_kmem_def)

lemma sample_table_room:
  "\<exists>p s1. mmu_mmap 8 sample_heap = Some (p, s1) \<and> p \<noteq> 0 \<and> (\<forall>m. ht_room 4 (set_kmem m s1))"
  unfolding sample_heap_def sample_liballoc_def sample_hooks_def ht_room_def
  by (simp add: run_malloc malloc_loop.simps [of "0x808000"] malloc_case4.simps [of "0x808000" "0x808018"]
      malloc_case4.simps [of "0x808000" "0x8080B4"] malloc_case4.simps [of "0x808000"] LIBALLOC_MAGIC_def CPU_EFLAGS_IF_def sti_def cli_def set_kmem_mem)


lemma sample_table:
  "\<exists>ht s' os0. hashtable_init None 2 sample_heap = Some (0, ht, s') \<and> ht_models 4 os0 (ht, s') (\<lambda>_. None) \<and> ht_room 4 s'"
proof -
  obtain p s1 where p: "mmu_mmap (2 * 4) sample_heap = Some (p, s1)" "p \<noteq> 0" "\<forall>m. ht_room 4 (set_kmem m s1)" using sample_table_room by auto
  obtain os0 where os0: "mmu_rep sample_heap os0" using sample_heap_rep by blast
  obtain ht s' where s': "hashtable_init None 2 sample_heap = Some (0, ht, s')" "ht_models 4 os0 (ht, s') (\<lambda>_. None)"
    using init_models [OF os0 _ _ p(1,2), of 4] by auto
  then have "\<exists>m. s' = set_kmem m s1" using p(1,2) by (auto simp: hashtable_init_def memset_to_def Let_def)
  then show ?thesis using s' p(3) by blast
qed

theorem hashtable_refines_map_witness:
  "\<exists>ht s s'. hashtable_insert ht [65, 80, 73, 67, 0] [1, 2, 3, 4] 4 (s :: liballoc) = Some s' \<and>
     hashtable_get ht [65, 80, 73, 67, 0] [0, 0, 0, 0] 4 s' = Some (0, [1, 2, 3, 4]) \<and>
     hashtable_get ht [70, 65, 67, 80, 0] [0, 0, 0, 0] 4 s' = Some (-1, [0, 0, 0, 0])"
proof -
  obtain ht os0 and s :: liballoc where s: "ht_models 4 os0 (ht, s) (\<lambda>_. None)" "ht_room 4 s" using sample_table by blast
  obtain s' where "hashtable_insert ht [65, 80, 73, 67, 0] [1, 2, 3, 4] 4 s = Some s'"
      "\<forall>key' out. terminated key' \<and> length out = unat (4 :: u32) \<longrightarrow> hashtable_get ht key' out 4 s' =
         Some (case ([[65, 80, 73, 67] \<mapsto> [1, 2, 3, 4]]) (cstr key') of None \<Rightarrow> (-1, out) | Some v \<Rightarrow> (0, v))"
    using hashtable_refines_map [OF s(1) _ _ _ s(2) refl, of "[65, 80, 73, 67, 0]" "[1, 2, 3, 4]"] by auto
  then show ?thesis by (intro exI [of _ ht] exI [of _ s] exI [of _ s']) simp
qed

theorem hashtable_life_witness:
  "\<exists>os0 ht (s' :: liballoc) s3. hashtable_init None 2 sample_heap = Some (0, ht, s') \<and> hashtable_uninit ht s' = Some s3 \<and> mmu_rep s3 os0"
proof -
  obtain p s1 where p: "mmu_mmap (2 * 4) sample_heap = Some (p, s1)" "p \<noteq> 0" using sample_table_room by auto
  obtain os0 where os0: "mmu_rep sample_heap os0" using sample_heap_rep by blast
  show ?thesis using hashtable_life [OF os0 _ _ p, of 4] by auto blast
qed

end
