(* ===== verification/Multiboot.thy ===== *)
theory Multiboot
  imports Layout
begin

text \<open>
  \<^verbatim>\<open>kernel/common/multiboot_info.c\<close>: the walk over the tags that the boot loader leaves in memory. The structures of
  \<^verbatim>\<open>include/multiboot.h\<close> are read at their offsets from the byte memory, and the copies in \<open>struct multiboot_info\<close> are the bytes that are
  copied. The messages of the cases are left out, but the loop over the memory map, which may not end, is kept. The
  theorem is a round trip: tags that were laid out from a list are read back.
\<close>

section \<open>State\<close>

definition MULTIBOOT_TAG_TYPE_END :: u32 where "MULTIBOOT_TAG_TYPE_END = 0"
definition MULTIBOOT_TAG_TYPE_MODULE :: u32 where "MULTIBOOT_TAG_TYPE_MODULE = 3"
definition MULTIBOOT_TAG_TYPE_BASIC_MEMINFO :: u32 where "MULTIBOOT_TAG_TYPE_BASIC_MEMINFO = 4"
definition MULTIBOOT_TAG_TYPE_MMAP :: u32 where "MULTIBOOT_TAG_TYPE_MMAP = 6"
definition MULTIBOOT_TAG_TYPE_FRAMEBUFFER :: u32 where "MULTIBOOT_TAG_TYPE_FRAMEBUFFER = 8"
definition MULTIBOOT_TAG_TYPE_ACPI_OLD :: u32 where "MULTIBOOT_TAG_TYPE_ACPI_OLD = 14"
definition MULTIBOOT_TAG_TYPE_ACPI_NEW :: u32 where "MULTIBOOT_TAG_TYPE_ACPI_NEW = 15"

lemmas mb_types = MULTIBOOT_TAG_TYPE_END_def MULTIBOOT_TAG_TYPE_MODULE_def MULTIBOOT_TAG_TYPE_BASIC_MEMINFO_def MULTIBOOT_TAG_TYPE_MMAP_def
  MULTIBOOT_TAG_TYPE_FRAMEBUFFER_def MULTIBOOT_TAG_TYPE_ACPI_OLD_def MULTIBOOT_TAG_TYPE_ACPI_NEW_def

text \<open>The sizes of \<open>struct multiboot_tag_module\<close> and of \<open>struct multiboot_tag_framebuffer\<close>.\<close>

definition sizeof_tag_module :: nat where "sizeof_tag_module = 16"
definition sizeof_tag_framebuffer :: nat where "sizeof_tag_framebuffer = 40"

record multiboot_info =
  phys_mem_lower :: u32
  phys_mem_upper :: u32
  mb_tagfb :: bytes
  mods :: "bytes list"
  rsdp :: u32
  acpi_ver :: u32
  modcount :: nat

definition mbinfo0 :: multiboot_info where
  "mbinfo0 = \<lparr>phys_mem_lower = 0, phys_mem_upper = 0, mb_tagfb = replicate sizeof_tag_framebuffer 0,
     mods = replicate 2 (replicate sizeof_tag_module 0), rsdp = 0, acpi_ver = 0, modcount = 0\<rparr>"

section \<open>The walk\<close>

definition bytes_at :: "mem \<Rightarrow> u32 \<Rightarrow> nat \<Rightarrow> bytes" where
  "bytes_at m a n = map (\<lambda>i. m (a + of_nat i)) [0..<n]"

partial_function (option) mmap_loop :: "u32 \<Rightarrow> u32 \<Rightarrow> u32 \<Rightarrow> unit option" where
  "mmap_loop stop entry_size mmap = (if mmap < stop then mmap_loop stop entry_size (mmap + entry_size) else Some ())"

definition multiboot_tag :: "mem \<Rightarrow> u32 \<Rightarrow> multiboot_info \<Rightarrow> multiboot_info option" where
  "multiboot_tag m tag i =
     (let ty = load32 m tag in
      if ty = MULTIBOOT_TAG_TYPE_MODULE
      then do { ms \<leftarrow> arr_set (mods i) (modcount i) (bytes_at m tag sizeof_tag_module); Some (i\<lparr>mods := ms, modcount := modcount i + 1\<rparr>) }
      else if ty = MULTIBOOT_TAG_TYPE_BASIC_MEMINFO
      then Some (i\<lparr>phys_mem_lower := load32 m (tag + 8), phys_mem_upper := load32 m (tag + 12)\<rparr>)
      else if ty = MULTIBOOT_TAG_TYPE_MMAP
      then do { _ \<leftarrow> mmap_loop (tag + load32 m (tag + 4)) (load32 m (tag + 8)) (tag + 16); Some i }
      else if ty = MULTIBOOT_TAG_TYPE_FRAMEBUFFER
      then Some (i\<lparr>mb_tagfb := bytes_at m tag sizeof_tag_framebuffer\<rparr>)
      else if ty = MULTIBOOT_TAG_TYPE_ACPI_OLD
      then Some (i\<lparr>rsdp := tag + 8, acpi_ver := 1\<rparr>)
      else if ty = MULTIBOOT_TAG_TYPE_ACPI_NEW
      then Some (i\<lparr>rsdp := tag + 8, acpi_ver := 2\<rparr>)
      else Some i)"

partial_function (option) multiboot_walk :: "mem \<Rightarrow> u32 \<Rightarrow> multiboot_info \<Rightarrow> multiboot_info option" where
  "multiboot_walk m tag i =
     (if load32 m tag \<noteq> MULTIBOOT_TAG_TYPE_END
      then do { i \<leftarrow> multiboot_tag m tag i; multiboot_walk m (tag + ((load32 m (tag + 4) + 7) AND NOT 7)) i }
      else Some i)"

definition multiboot_info_init :: "mem \<Rightarrow> u32 \<Rightarrow> multiboot_info \<Rightarrow> multiboot_info option" where
  "multiboot_info_init m mb2 i = multiboot_walk m (mb2 + 8) i"

section \<open>Tags\<close>

text \<open>The tags of the specification and their layout: a header with the type and the size, the body, and zeros up to a multiple of 8 bytes.\<close>

datatype mbtag = Module u32 u32 bytes | Meminfo u32 u32 | Mmap u32 u32 bytes | Framebuffer bytes | AcpiOld bytes | AcpiNew bytes | OtherTag u32 bytes

fun tag_type :: "mbtag \<Rightarrow> u32" where
  "tag_type (Module s e c) = 3"
| "tag_type (Meminfo l u) = 4"
| "tag_type (Mmap es v b) = 6"
| "tag_type (Framebuffer b) = 8"
| "tag_type (AcpiOld b) = 14"
| "tag_type (AcpiNew b) = 15"
| "tag_type (OtherTag ty b) = ty"

fun tag_body :: "mbtag \<Rightarrow> bytes" where
  "tag_body (Module s e c) = bytes32 s @ bytes32 e @ c"
| "tag_body (Meminfo l u) = bytes32 l @ bytes32 u"
| "tag_body (Mmap es v b) = bytes32 es @ bytes32 v @ b"
| "tag_body (Framebuffer b) = b"
| "tag_body (AcpiOld b) = b"
| "tag_body (AcpiNew b) = b"
| "tag_body (OtherTag ty b) = b"

definition tag_head :: "mbtag \<Rightarrow> bytes" where
  "tag_head t = bytes32 (tag_type t) @ bytes32 (of_nat (8 + length (tag_body t)))"

definition round8 :: "nat \<Rightarrow> nat" where "round8 n = (n + 7) div 8 * 8"

definition encode_tag :: "mbtag \<Rightarrow> bytes" where
  "encode_tag t = tag_head t @ tag_body t @ replicate (round8 (length (tag_body t)) - length (tag_body t)) 0"

definition encode_tags :: "mbtag list \<Rightarrow> bytes" where
  "encode_tags ts = concat (map encode_tag ts) @ bytes32 0 @ bytes32 8"

fun tag_ok :: "mbtag \<Rightarrow> bool" where
  "tag_ok (OtherTag ty b) \<longleftrightarrow> ty \<notin> {0, 3, 4, 6, 8, 14, 15}"
| "tag_ok (Mmap es v b) \<longleftrightarrow> 0 < es \<and> unat es < 2 ^ 16"
| "tag_ok (Framebuffer b) \<longleftrightarrow> 30 \<le> length b"
| "tag_ok _ \<longleftrightarrow> True"

text \<open>What the tags say: the last tag of a kind counts, and the modules are in their order.\<close>

definition latest :: "('t \<Rightarrow> 'v option) \<Rightarrow> 't list \<Rightarrow> 'v option" where
  "latest f ts = fold (\<lambda>t a. case f t of None \<Rightarrow> a | Some v \<Rightarrow> Some v) ts None"

fun meminfo_of where "meminfo_of (Meminfo l u) = Some (l, u)" | "meminfo_of _ = None"
fun framebuffer_of where "framebuffer_of (Framebuffer b) = Some (tag_head (Framebuffer b) @ take 30 b)" | "framebuffer_of _ = None"
fun acpi_of where "acpi_of (AcpiOld b) = Some (1 :: u32, b)" | "acpi_of (AcpiNew b) = Some (2, b)" | "acpi_of _ = None"

definition modules :: "mbtag list \<Rightarrow> bytes list" where
  "modules ts = concat (map (\<lambda>t. case t of Module s e c \<Rightarrow> [tag_head t @ bytes32 s @ bytes32 e] | _ \<Rightarrow> []) ts)"

definition tells :: "mem \<Rightarrow> multiboot_info \<Rightarrow> mbtag list \<Rightarrow> bool" where
  "tells m i ts \<longleftrightarrow>
     (phys_mem_lower i, phys_mem_upper i) = (case latest meminfo_of ts of None \<Rightarrow> (0, 0) | Some x \<Rightarrow> x) \<and>
     (case latest framebuffer_of ts of None \<Rightarrow> mb_tagfb i = replicate 40 0 | Some b \<Rightarrow> take 38 (mb_tagfb i) = b) \<and>
     (case latest acpi_of ts of None \<Rightarrow> acpi_ver i = 0 \<and> rsdp i = 0 | Some (v, b) \<Rightarrow> acpi_ver i = v \<and> holds m (rsdp i) b) \<and>
     length (mods i) = 2 \<and> modcount i = length (modules ts) \<and> take (modcount i) (mods i) = modules ts"

lemma latest_snoc: "latest f (ts @ [t]) = (case f t of None \<Rightarrow> latest f ts | Some v \<Rightarrow> Some v)"
  unfolding latest_def by (cases "f t") simp_all

lemma modules_snoc: "modules (ts @ [t]) = modules ts @ (case t of Module s e c \<Rightarrow> [tag_head t @ bytes32 s @ bytes32 e] | _ \<Rightarrow> [])"
  by (simp add: modules_def)

lemma bytes_at_holds: "holds m a bs \<Longrightarrow> n \<le> length bs \<Longrightarrow> bytes_at m a n = take n bs"
  by (intro nth_equalityI) (simp_all add: bytes_at_def holds_def)

lemma and_not_7: "(x :: u32) AND NOT 7 = (x div 8) * 8"
proof -
  have "x AND NOT (mask 3) = push_bit 3 (drop_bit 3 x)" by (rule bit_word_eqI) (auto simp: bit_simps)
  moreover have "mask 3 = (7 :: u32)" by (simp add: mask_eq_exp_minus_1)
  ultimately show ?thesis by (simp add: push_bit_eq_mult drop_bit_eq_div)
qed

lemma align8: "n + 7 < 2 ^ 32 \<Longrightarrow> ((of_nat n :: u32) + 7) AND NOT 7 = of_nat (round8 n)"
proof -
  assume n: "n + 7 < 2 ^ 32"
  have u: "unat (of_nat (n + 7) :: u32) = n + 7" using n unat_of_nat_small [of "n + 7", where ?'a = 32] by simp
  have e: "unat (8 :: u32) = 8" by simp
  have "(of_nat (n + 7) :: u32) div 8 = of_nat ((n + 7) div 8)" unfolding word_arith_nat_div u e ..
  then have "(of_nat (n + 7) :: u32) AND NOT 7 = of_nat ((n + 7) div 8 * 8)" by (simp only: and_not_7 of_nat_mult of_nat_numeral)
  then show ?thesis by (simp only: round8_def of_nat_add of_nat_numeral)
qed

lemma mmap_loop_ends:
  assumes "0 < es" "unat stop + unat es < 2 ^ 32"
  shows "mmap_loop stop es p = Some ()"
  using assms
proof (induction "unat stop - unat p" arbitrary: p rule: less_induct)
  case less
  show ?case
  proof (cases "p < stop")
    case True
    have "unat (p + es) = unat p + unat es" using True less.prems(2) by (intro unat_add_less) (simp add: word_less_nat_alt)
    then have "unat stop - unat (p + es) < unat stop - unat p" using True less.prems(1) by (simp add: word_less_nat_alt)
    then have "mmap_loop stop es (p + es) = Some ()" using less by blast
    then show ?thesis using True by (subst mmap_loop.simps) simp
  qed (subst mmap_loop.simps, simp)
qed

lemma length_encode_tag: "length (encode_tag t) = round8 (8 + length (tag_body t))" "length (tag_body t) + 8 \<le> length (encode_tag t)"
proof -
  have "(15 + length (tag_body t)) div 8 = Suc ((length (tag_body t) + 7) div 8)" by simp
  then show "length (encode_tag t) = round8 (8 + length (tag_body t))" by (simp add: encode_tag_def tag_head_def round8_def)
  show "length (tag_body t) + 8 \<le> length (encode_tag t)" by (simp add: encode_tag_def tag_head_def)
qed

lemma encode_tag_fields:
  assumes "holds m a (encode_tag t)"
  shows "load32 m a = tag_type t" "load32 m (a + 4) = of_nat (8 + length (tag_body t))" "holds m (a + 8) (tag_body t)"
    "holds m a (tag_head t @ tag_body t)"
  using assms by (simp_all add: encode_tag_def tag_head_def holds_append holds_bytes32 add.assoc)

lemma multiboot_tag_ok:
  assumes d: "tells m i ts" and h: "holds m a (encode_tag t)" and ok: "tag_ok t" and few: "length (modules (ts @ [t])) \<le> 2"
    and a: "unat a + length (encode_tag t) + 2 ^ 16 < 2 ^ 32"
  shows "\<exists>i'. multiboot_tag m a i = Some i' \<and> tells m i' (ts @ [t])"
proof (cases t)
  case (Module s e c)
  note F = encode_tag_fields [OF h]
  have "bytes_at m a 16 = tag_head t @ bytes32 s @ bytes32 e"
    using bytes_at_holds [OF F(4), of 16] by (simp add: Module tag_head_def)
  moreover have "modcount i < 2" using d few by (simp add: tells_def modules_snoc Module)
  ultimately show ?thesis using d F(1) Module
    by (simp add: multiboot_tag_def mb_types tells_def latest_snoc modules_snoc sizeof_tag_module_def) (auto simp: take_Suc_conv_app_nth split: option.splits)
next
  case (Meminfo l u)
  have "load32 m (a + 8) = l" "load32 m (a + 12) = u"
    using encode_tag_fields(3) [OF h] by (simp_all add: Meminfo holds_append holds_bytes32 add.assoc)
  then show ?thesis using d encode_tag_fields(1) [OF h] Meminfo
    by (simp add: multiboot_tag_def mb_types tells_def latest_snoc modules_snoc) (auto split: option.splits)
next
  case (Mmap es v b)
  note F = encode_tag_fields [OF h]
  have es: "load32 m (a + 8) = es" using F(3) by (simp add: Mmap holds_append holds_bytes32)
  have "unat (a + of_nat (8 + length (tag_body t))) = unat a + (8 + length (tag_body t))"
    using a length_encode_tag(2) [of t] unat_of_nat_small [of "8 + length (tag_body t)", where ?'a = 32]
    by (subst unat_add_less) (simp_all del: of_nat_add)
  then have "mmap_loop (a + load32 m (a + 4)) es (a + 16) = Some ()"
    using F(2) ok Mmap a length_encode_tag(2) [of t] by (intro mmap_loop_ends) (simp_all del: of_nat_add)
  then show ?thesis using d F(1) Mmap es
    by (simp add: multiboot_tag_def mb_types tells_def latest_snoc modules_snoc) (auto split: option.splits)
next
  case (Framebuffer b)
  note F = encode_tag_fields [OF h]
  have "take 38 (bytes_at m a 40) = bytes_at m a 38" by (simp add: bytes_at_def take_map)
  also have "\<dots> = tag_head t @ take 30 b" using bytes_at_holds [OF F(4), of 38] ok by (simp add: Framebuffer tag_head_def)
  finally show ?thesis using d F(1) Framebuffer
    by (simp add: multiboot_tag_def mb_types tells_def latest_snoc modules_snoc sizeof_tag_framebuffer_def) (auto split: option.splits)
next
  case (AcpiOld b)
  then show ?thesis using d encode_tag_fields [OF h]
    by (simp add: multiboot_tag_def mb_types tells_def latest_snoc modules_snoc) (auto split: option.splits)
next
  case (AcpiNew b)
  then show ?thesis using d encode_tag_fields [OF h]
    by (simp add: multiboot_tag_def mb_types tells_def latest_snoc modules_snoc) (auto split: option.splits)
next
  case (OtherTag ty b)
  then show ?thesis using d encode_tag_fields [OF h] ok
    by (simp add: multiboot_tag_def mb_types tells_def latest_snoc modules_snoc) (auto split: option.splits)
qed

lemma multiboot_walk_ok:
  assumes "tells m i pre" "holds m a (encode_tags ts)" "\<forall>t\<in>set ts. tag_ok t" "length (modules (pre @ ts)) \<le> 2"
    and "unat a + length (encode_tags ts) + 2 ^ 16 < 2 ^ 32"
  shows "\<exists>i'. multiboot_walk m a i = Some i' \<and> tells m i' (pre @ ts)"
  using assms
proof (induction ts arbitrary: a i pre)
  case Nil
  then show ?case by (subst multiboot_walk.simps) (simp add: encode_tags_def holds_append holds_bytes32 mb_types)
next
  case (Cons t ts)
  let ?n = "length (encode_tag t)"
  have len: "length (encode_tags (t # ts)) = ?n + length (encode_tags ts)" by (simp add: encode_tags_def)
  have h: "holds m a (encode_tag t)" "holds m (a + of_nat ?n) (encode_tags ts)"
    using Cons.prems(2) by (simp_all add: encode_tags_def holds_append add.assoc)
  have ok: "tag_ok t" using Cons.prems(3) by simp
  have "length (modules (pre @ [t])) \<le> 2" using Cons.prems(4) by (simp add: modules_def)
  then obtain i1 where i1: "multiboot_tag m a i = Some i1" "tells m i1 (pre @ [t])"
    using multiboot_tag_ok [OF Cons.prems(1) h(1) ok] Cons.prems(5) len by auto
  have "unat (a + of_nat ?n) = unat a + ?n"
    using Cons.prems(5) len unat_of_nat_small [of ?n, where ?'a = 32] by (subst unat_add_less) simp_all
  then obtain i2 where i2: "multiboot_walk m (a + of_nat ?n) i1 = Some i2" "tells m i2 ((pre @ [t]) @ ts)"
    using Cons.IH [OF i1(2) h(2)] Cons.prems(3,4,5) len by auto
  have "8 + length (tag_body t) + 7 < 2 ^ 32" using length_encode_tag(2) [of t] Cons.prems(5) len by simp
  then have "(load32 m (a + 4) + 7) AND NOT 7 = of_nat ?n"
    using align8 [of "8 + length (tag_body t)"] encode_tag_fields(2) [OF h(1)] length_encode_tag(1) [of t] by simp
  moreover have "load32 m a \<noteq> 0" using encode_tag_fields(1) [OF h(1)] ok by (cases t) auto
  ultimately show ?case using i1(1) i2 by (subst multiboot_walk.simps) (simp add: mb_types)
qed

section \<open>Properties\<close>

text \<open>
  C25. The walk reads the boot information back: for every list of tags that was laid out in memory, with at most two
  modules, \<open>multiboot_info_init\<close> returns, and the information it collects is that of the tags: the memory sizes and the frame buffer
  of the last tag of their kind, the modules in their order, the version of the last ACPI tag, and \<open>rsdp\<close> points to the bytes of this tag.
\<close>

theorem multiboot_info_reads_tags:
  assumes "holds m (mb2 + 8) (encode_tags ts)" "\<forall>t\<in>set ts. tag_ok t" "length (modules ts) \<le> 2"
    and "unat (mb2 + 8) + length (encode_tags ts) + 2 ^ 16 < 2 ^ 32"
  shows "\<exists>i. multiboot_info_init m mb2 mbinfo0 = Some i \<and> tells m i ts"
proof -
  have "tells m mbinfo0 []"
    by (simp add: tells_def mbinfo0_def latest_def modules_def sizeof_tag_framebuffer_def)
  then show ?thesis using multiboot_walk_ok [of m mbinfo0 "[]" "mb2 + 8" ts] assms by (simp add: multiboot_info_init_def)
qed

text \<open>
  A third module is written behind the array \<open>mods\<close>, and a memory map whose entries have size 0 is never left.
\<close>

theorem multiboot_third_module:
  assumes "tells m i ts" "length (modules ts) = 2" "holds m a (encode_tag (Module s e c))"
  shows "multiboot_tag m a i = None"
  using assms(1,2) encode_tag_fields(1) [OF assms(3)] by (simp add: multiboot_tag_def mb_types tells_def)

definition sample_tags :: "mbtag list" where
  "sample_tags = [Meminfo 639 130048, Module 0x200000 0x200100 [98, 0], OtherTag 1 [0], Mmap 24 0 (replicate 48 0), AcpiNew (replicate 36 1)]"

theorem multiboot_info_reads_tags_witness:
  "\<exists>i. multiboot_info_init (\<lambda>x. encode_tags sample_tags ! unat (x - 0x10008)) 0x10000 mbinfo0 = Some i \<and>
     phys_mem_upper i = 130048 \<and> acpi_ver i = 2 \<and> modcount i = 1"
proof -
  let ?m = "\<lambda>x. encode_tags sample_tags ! unat (x - 0x10008)"
  have l: "length (encode_tags sample_tags) = 176"
    by (simp add: encode_tags_def sample_tags_def encode_tag_def tag_head_def round8_def)
  have h: "holds ?m (0x10000 + 8) (encode_tags sample_tags)" using holds_list [of "encode_tags sample_tags" "0x10008"] l by simp
  obtain i where "multiboot_info_init ?m 0x10000 mbinfo0 = Some i" "tells ?m i sample_tags"
    using multiboot_info_reads_tags [OF h] l by (auto simp: sample_tags_def modules_def)
  then show ?thesis by (intro exI [of _ i]) (simp add: tells_def latest_def modules_def sample_tags_def)
qed

theorem multiboot_third_module_witness:
  "multiboot_tag (\<lambda>x. encode_tag (Module 0 0 []) ! unat (x - 0x10008)) 0x10008
     (mbinfo0\<lparr>modcount := 2, mods := [tag_head (Module 0 0 []) @ [0, 0, 0, 0, 0, 0, 0, 0], tag_head (Module 0 0 []) @ [0, 0, 0, 0, 0, 0, 0, 0]]\<rparr>) = None"
proof -
  let ?m = "\<lambda>x. encode_tag (Module 0 0 []) ! unat (x - 0x10008)"
    and ?i = "mbinfo0\<lparr>modcount := 2, mods := [tag_head (Module 0 0 []) @ [0, 0, 0, 0, 0, 0, 0, 0], tag_head (Module 0 0 []) @ [0, 0, 0, 0, 0, 0, 0, 0]]\<rparr>"
  have "holds ?m 0x10008 (encode_tag (Module 0 0 []))" by (intro holds_list) (simp add: encode_tag_def tag_head_def round8_def)
  moreover have "tells ?m ?i [Module 0 0 [], Module 0 0 []]" "length (modules [Module 0 0 [], Module 0 0 []]) = 2"
    by (simp_all add: tells_def latest_def modules_def mbinfo0_def sizeof_tag_framebuffer_def bytes32_def)
  ultimately show ?thesis by (intro multiboot_third_module)
qed

end
