(* ===== verification/Acpi.thy ===== *)
theory Acpi
  imports Hashtable Multiboot
begin

text \<open>
  \<^verbatim>\<open>kernel/drivers/acpi/acpi.c\<close>: the tables of the firmware. The tables are read from the byte memory at the offsets of their structures; the
  operations use the page frame allocator, the page tables and a hash table on the heap. Messages are left out.
\<close>

section \<open>The code\<close>

record acpi = liballoc +
  SDTs :: hashtable
  acpi_rsdt :: u32
  acpi_xsdt :: u32

text \<open>The fields \<open>Length\<close> of \<open>struct ACPISDTHeader\<close>, of 36 bytes, and the two addresses of the root descriptor.\<close>

definition sdt_length :: "mem \<Rightarrow> u32 \<Rightarrow> u32" where
  "sdt_length m sdt = load32 m (sdt + 4)"

definition RsdtAddress :: "mem \<Rightarrow> u32 \<Rightarrow> u32" where
  "RsdtAddress m d = load32 m (d + 16)"

definition XsdtAddress :: "mem \<Rightarrow> u32 \<Rightarrow> u32" where
  "XsdtAddress m d = load32 m (d + 24)"

definition sdt_checksum_ok :: "mem \<Rightarrow> u32 \<Rightarrow> bool" where
  "sdt_checksum_ok m header \<longleftrightarrow> fold (\<lambda>i sum. sum + m (header + of_nat i)) [0..<unat (sdt_length m header)] 0 = 0"

definition acpi_get_sdt_from_sig :: "bytes \<Rightarrow> 'a acpi_scheme \<Rightarrow> u32 option" where
  "acpi_get_sdt_from_sig table_signature s = do { (_, ret) \<leftarrow> hashtable_get (SDTs s) table_signature (bytes32 0) 4 s; Some (word_of_bytes ret) }"

definition acpi_map_sdt :: "u32 \<Rightarrow> 'a paging_scheme \<Rightarrow> 'a paging_scheme option" where
  "acpi_map_sdt sdt s =
     do { s \<leftarrow> pageframe_set_page_from_addr sdt 2 s;
          s \<leftarrow> paging_map_page sdt sdt (get_kernel_pd s) s;
          s \<leftarrow> paging_map_page (sdt + 4096) (sdt + 4096) (get_kernel_pd s) s;
          let start_page = sdt div 4096; end_page = (sdt + sdt_length (kmem s) sdt) div 4096; pages_to_alloc = end_page - start_page + 1 in
          do { s \<leftarrow> pageframe_set_page_from_addr sdt pages_to_alloc s;
               forM [0..<unat pages_to_alloc] (\<lambda>j s. paging_map_page (sdt + of_nat j * 4096) (sdt + of_nat j * 4096) (get_kernel_pd s) s) s } }"

definition acpi_get_ver :: "multiboot_info \<Rightarrow> u32" where
  "acpi_get_ver mb = acpi_ver mb"

text \<open>The number of entries and the entries of the root table; an entry of 64 bits is cut to a pointer.\<close>

definition sdt_entries :: "u32 \<Rightarrow> 'a acpi_scheme \<Rightarrow> u32" where
  "sdt_entries ver s = (if ver = 1 then (sdt_length (kmem s) (acpi_rsdt s) - 36) div 4
     else if ver = 2 then (sdt_length (kmem s) (acpi_xsdt s) - 36) div 8 else 0)"

definition sdt_entry :: "u32 \<Rightarrow> nat \<Rightarrow> 'a acpi_scheme \<Rightarrow> u32" where
  "sdt_entry ver i s = (if ver = 1 then load32 (kmem s) (acpi_rsdt s + 36 + 4 * of_nat i)
     else if ver = 2 then load32 (kmem s) (acpi_xsdt s + 36 + 8 * of_nat i) else 0)"

definition map_sdt_entry :: "u32 \<Rightarrow> nat \<Rightarrow> 'a acpi_scheme \<Rightarrow> 'a acpi_scheme option" where
  "map_sdt_entry ver i s =
     (let sdt = sdt_entry ver i s in
      do { s \<leftarrow> acpi_map_sdt sdt s;
           if \<not> sdt_checksum_ok (kmem s) sdt then Some s
           else let sig = obj (kmem s) sdt 4 @ [0] in hashtable_insert (SDTs s) sig (bytes32 sdt) 4 s })"

definition map_sdt_entries :: "multiboot_info \<Rightarrow> 'a acpi_scheme \<Rightarrow> 'a acpi_scheme option" where
  "map_sdt_entries mb s =
     do { (_, ht, s) \<leftarrow> hashtable_init None 64 s;
          let s = s\<lparr>SDTs := ht\<rparr>; ver = acpi_get_ver mb in
          forM [0..<nat (sint (sdt_entries ver s))] (map_sdt_entry ver) s }"

definition acpi_init :: "multiboot_info \<Rightarrow> 'a acpi_scheme \<Rightarrow> 'a acpi_scheme option" where
  "acpi_init mb s =
     (let on = (is_paging_enabled (kinfo_of s) \<noteq> 0);
          map_rsdp = (\<lambda>s. if on
            then do { s \<leftarrow> pageframe_set_page_from_addr (rsdp mb) 1 s; paging_map_page (rsdp mb) (rsdp mb) (get_kernel_pd s) s }
            else Some s) in
      do { (to_map, s) \<leftarrow>
             (if acpi_ver mb = 1
              then do { s \<leftarrow> map_rsdp s; let a = RsdtAddress (kmem s) (rsdp mb) in Some (a, s\<lparr>acpi_rsdt := a\<rparr>) }
              else if acpi_ver mb = 2
              then do { s \<leftarrow> map_rsdp s; let a = XsdtAddress (kmem s) (rsdp mb) in Some (a, s\<lparr>acpi_xsdt := a\<rparr>) }
              else Some (0, s));
           if to_map = 0 then Some s
           else if on then do { s \<leftarrow> acpi_map_sdt to_map s; map_sdt_entries mb s } else Some s })"

section \<open>Check sums\<close>

lemma fold_plus: "fold (\<lambda>i (sum :: u8). sum + f i) xs a = a + sum_list (map f xs)"
  by (induction xs arbitrary: a) (simp_all add: add.assoc)

lemma sdt_checksum_sum: "sdt_checksum_ok m header \<longleftrightarrow> sum_list (obj m header (unat (sdt_length m header))) = 0"
  by (simp add: sdt_checksum_ok_def fold_plus obj_def)

lemma sum_list_update_word: "i < length xs \<Longrightarrow> sum_list (xs[i := v]) = sum_list xs - xs ! i + (v :: u8)"
  by (induction xs arbitrary: i) (auto simp: nth_Cons split: nat.splits)

text \<open>A table laid out with its check sum: the byte at offset 9 makes the sum of all bytes 0.\<close>

definition encode_sdt :: "bytes \<Rightarrow> bytes \<Rightarrow> bytes" where
  "encode_sdt sig body = (let t = take 4 sig @ bytes32 (of_nat (10 + length body)) @ [1, 0] @ body in t[9 := - sum_list t])"

lemma length_encode_sdt: "length sig = 4 \<Longrightarrow> length (encode_sdt sig body) = 10 + length body"
  by (simp add: encode_sdt_def Let_def)

lemma encode_sdt_fields:
  assumes h: "holds m a (encode_sdt sig body)" and sig: "length sig = 4"
  shows "sdt_length m a = of_nat (10 + length body)" "obj m a 4 = sig"
proof -
  let ?t = "take 4 sig @ bytes32 (of_nat (10 + length body)) @ [1, 0] @ body"
  have "encode_sdt sig body = sig @ bytes32 (of_nat (10 + length body)) @ [1, - sum_list ?t] @ body"
    using sig by (simp add: encode_sdt_def Let_def list_update_append bytes32_def)
  then have "holds m a sig" "holds m (a + 4) (bytes32 (of_nat (10 + length body)))" using h sig by (simp_all add: holds_append)
  then show "sdt_length m a = of_nat (10 + length body)" "obj m a 4 = sig"
    using sig by (auto simp: sdt_length_def holds_bytes32 obj_def holds_def intro!: nth_equalityI)
qed

lemma holds_obj: "holds m a bs \<Longrightarrow> obj m a (length bs) = bs"
  by (auto simp: holds_def obj_def intro!: nth_equalityI)

lemma encode_sdt_sum:
  assumes "length sig = 4"
  shows "sum_list (encode_sdt sig body) = 0"
proof -
  let ?t = "take 4 sig @ bytes32 (of_nat (10 + length body)) @ [1, 0] @ body"
  have "?t ! 9 = 0" "9 < length ?t" using assms by (simp_all add: nth_append)
  then show ?thesis using sum_list_update_word [of 9 ?t "- sum_list ?t"] unfolding encode_sdt_def Let_def by simp
qed


section \<open>Mapping\<close>

lemma load32_same_high:
  assumes "same_high m m'" "0x800000 \<le> unat a" "unat a + 4 \<le> 2 ^ 32"
  shows "load32 m' a = load32 m a"
proof -
  have "m' (a + of_nat j) = m (a + of_nat j)" if "j < 4" for j
    using obj_addr [OF assms(3) that] assms(1,2) by (simp add: same_high_def)
  from this [of 0] this [of 1] this [of 2] this [of 3] show ?thesis by (simp add: load32_def)
qed

lemma set_pages_inv:
  fixes s :: "'a hooks_scheme"
  assumes inv: "hooks_inv s" and r: "unat p div 4096 + unat n \<le> unat (pages_total_phys s)"
  obtains b where "pageframe_set_page_from_addr p n s = Some (s\<lparr>pageframe_bitmap := b\<rparr>)" "hooks_inv (s\<lparr>pageframe_bitmap := b\<rparr>)"
    "allocated (s\<lparr>pageframe_bitmap := b\<rparr>) = allocated s \<union> {unat p div 4096..<unat p div 4096 + unat n}"
proof -
  have fi: "frame_inv s" and pi: "pg_inv s" using inv by (auto simp: hooks_inv_def)
  have u: "unat (page_from_addr p) = unat p div 4096" by (simp add: page_from_addr_def unat_div)
  obtain s' where s': "pageframe_alloc_set_pages (page_from_addr p) n s = Some s'" "pf_wf s'"
      "allocated s' = allocated s \<union> {unat p div 4096..<unat p div 4096 + unat n}" "\<exists>b. s' = s\<lparr>pageframe_bitmap := b\<rparr>"
    using pf_wf_set_pages [OF frame_invD(1) [OF fi], of "page_from_addr p" n] r unfolding u by blast
  then obtain b where b: "s' = s\<lparr>pageframe_bitmap := b\<rparr>" by blast
  have "frame_inv s'" using s'(2,3) fi by (auto simp: frame_inv_def)
  then show thesis using that [of b] s'(1,3) pi unfolding b by (simp add: hooks_inv_def pageframe_set_page_from_addr_def)
qed

text \<open>The pages a table needs: those of its bytes, and the two that are mapped to read its header.\<close>

definition sdt_pages :: "mem \<Rightarrow> u32 \<Rightarrow> nat set" where
  "sdt_pages m sdt = {unat sdt div 4096..unat sdt div 4096 + 1} \<union> {unat sdt div 4096..(unat sdt + unat (sdt_length m sdt)) div 4096}"

lemma only_pages_map: "only_pages s s1 \<Longrightarrow> only_tables s1 s2 \<Longrightarrow> only_pages s s2"
  unfolding only_pages_def using only_tables_trans by blast

lemma only_pages_set: "only_pages s s1 \<Longrightarrow> only_pages s (s1\<lparr>pageframe_bitmap := b\<rparr>)"
proof -
  assume "only_pages s s1"
  then obtain b' c m ts where "s1 = s\<lparr>pageframe_bitmap := b', heap_cur := c, kmem := m, allocated_page_tables := ts\<rparr>" "same_high (kmem s) m"
    unfolding only_pages_def only_tables_def by auto
  then have "s1\<lparr>pageframe_bitmap := b\<rparr> = (s\<lparr>pageframe_bitmap := b\<rparr>)\<lparr>heap_cur := c, kmem := m, allocated_page_tables := ts\<rparr>"
      "same_high (kmem (s\<lparr>pageframe_bitmap := b\<rparr>)) m"
    by simp_all
  then show ?thesis unfolding only_pages_def only_tables_def by blast
qed

lemma only_pages_frame_mem: "only_pages s s' \<Longrightarrow> same_high (kmem s) (kmem s')"
  by (auto simp: only_pages_def only_tables_def)

lemma only_pages_refl: "only_pages s s"
proof -
  have "s\<lparr>pageframe_bitmap := pageframe_bitmap s\<rparr> = s" by simp
  then show ?thesis unfolding only_pages_def using only_tables_refl by metis
qed

lemma hooks_inv_map:
  fixes s :: "'a hooks_scheme"
  assumes "hooks_inv s" "pg_inv s'" "only_tables s s'"
  shows "hooks_inv s'" "allocated s' = allocated s" "pages_total_phys s' = pages_total_phys s"
  using assms only_tables_frame [OF assms(3)] by (auto simp: hooks_inv_def)

lemma below_next_page: "(n :: nat) < 4096 * (n div 4096 + 1)"
proof -
  have "4096 * (n div 4096) + n mod 4096 = n" "n mod 4096 < 4096" by simp_all
  then show ?thesis by (simp add: distrib_left)
qed

lemma acpi_map_sdt_ok:
  fixes s :: "'a hooks_scheme"
  assumes inv: "hooks_inv s" and high: "0x800000 \<le> unat sdt" and fit: "sdt_pages (kmem s) sdt \<subseteq> {..<unat (pages_total_phys s)}"
  obtains s' where "acpi_map_sdt sdt s = Some s'" "hooks_inv s'" "only_pages s s'"
    "mapped_pages s' = mapped_pages s \<union> sdt_pages (kmem s) sdt" "allocated s' = allocated s \<union> sdt_pages (kmem s) sdt"
proof -
  let ?p = "unat sdt div 4096" and ?l = "sdt_length (kmem s) sdt" and ?T = "unat (pages_total_phys s)"
  let ?e = "(unat sdt + unat ?l) div 4096"
  have T: "?T \<le> 2 ^ 20" using inv by (auto simp: hooks_inv_def frame_inv_def pf_wf_def)
  have "?p + 1 \<in> sdt_pages (kmem s) sdt" "?e \<in> sdt_pages (kmem s) sdt" by (auto simp: sdt_pages_def div_le_mono)
  then have pT: "?p + 1 < ?T" "?e < ?T" using fit by auto
  have m4: "unat sdt < 4096 * (?p + 1)" by (rule below_next_page)
  have "unat sdt + 4096 < 2 ^ 32" using m4 pT(1) T by simp
  then have up: "unat (sdt + 4096) = unat sdt + 4096" "unat (sdt + 4) = unat sdt + 4" "unat sdt + 8 \<le> 2 ^ 32" by (simp_all add: unat_add_less)
  obtain b1 where s1: "pageframe_set_page_from_addr sdt 2 s = Some (s\<lparr>pageframe_bitmap := b1\<rparr>)" "hooks_inv (s\<lparr>pageframe_bitmap := b1\<rparr>)"
      "allocated (s\<lparr>pageframe_bitmap := b1\<rparr>) = allocated s \<union> {?p..<?p + unat (2 :: u32)}"
    using set_pages_inv [OF inv, of sdt 2] pT(1) by auto
  define s1' where "s1' = s\<lparr>pageframe_bitmap := b1\<rparr>"
  have i1: "pg_inv s1'" using s1(2) by (simp add: hooks_inv_def s1'_def)
  obtain s2 where s2: "paging_map_page sdt sdt (kernel_page_directory s1') s1' = Some s2" "pg_inv s2"
      "mapped_pages s2 = insert ?p (mapped_pages s1')" "only_tables s1' s2" by (rule paging_map_page_ok [OF i1])
  obtain s3 where s3: "paging_map_page (sdt + 4096) (sdt + 4096) (kernel_page_directory s2) s2 = Some s3" "pg_inv s3"
      "mapped_pages s3 = insert (unat (sdt + 4096) div 4096) (mapped_pages s2)" "only_tables s2 s3" by (rule paging_map_page_ok [OF s2(2)])
  have t3: "only_tables s1' s3" using only_tables_trans [OF s2(4) s3(4)] .
  note H3 = hooks_inv_map [OF s1(2) [folded s1'_def] s3(2) t3]
  have o3: "only_pages s s3" using only_pages_map [OF only_pages_set [OF only_pages_refl, of s b1] t3 [unfolded s1'_def]] .
  have len: "sdt_length (kmem s3) sdt = ?l"
    unfolding sdt_length_def using high up only_pages_frame_mem [OF o3] by (intro load32_same_high) auto
  have ue: "unat ((sdt + ?l) div 4096) = ?e" "unat (sdt div 4096) = ?p"
  proof -
    have "unat sdt + unat ?l < 4096 * (?e + 1)" by (rule below_next_page)
    then have "unat sdt + unat ?l < 2 ^ 32" using pT(2) T by simp
    then show "unat ((sdt + ?l) div 4096) = ?e" by (simp add: unat_div unat_add_less)
    show "unat (sdt div 4096) = ?p" by (simp add: unat_div)
  qed
  define n where "n = (sdt + ?l) div 4096 - sdt div 4096 + 1"
  have pe: "?p \<le> ?e" by (simp add: div_le_mono)
  then have "unat ((sdt + ?l) div 4096 - sdt div 4096) = ?e - ?p" using ue by (simp add: unat_sub word_le_nat_alt)
  moreover have "?e < 2 ^ 20" using pT(2) T by simp
  ultimately have un: "unat n = ?e - ?p + 1" unfolding n_def by (subst unat_add_less) simp_all
  obtain b4 where s4: "pageframe_set_page_from_addr sdt n s3 = Some (s3\<lparr>pageframe_bitmap := b4\<rparr>)" "hooks_inv (s3\<lparr>pageframe_bitmap := b4\<rparr>)"
      "allocated (s3\<lparr>pageframe_bitmap := b4\<rparr>) = allocated s3 \<union> {?p..<?p + unat n}"
    using set_pages_inv [OF H3(1), of sdt n] H3(3) un pe pT(2) by (auto simp: s1'_def)
  define s4' where "s4' = s3\<lparr>pageframe_bitmap := b4\<rparr>"
  have "pg_inv s4'" "?p + unat n \<le> 2 ^ 20" using s4(2) un pe pT(2) T by (simp_all add: hooks_inv_def s4'_def)
  from pg.map_run [OF this] obtain s5 where s5: "forM [0..<unat n] (\<lambda>j s. paging_map_page (sdt + of_nat j * 4096) (sdt + of_nat j * 4096) (kernel_page_directory s) s) s4' = Some s5"
      "pg_inv s5" "mapped_pages s5 = mapped_pages s4' \<union> {?p..<?p + unat n}" "only_tables s4' s5" by blast
  note H5 = hooks_inv_map [OF s4(2) [folded s4'_def] s5(2,4)]
  have run: "acpi_map_sdt sdt s = Some s5"
    using s1(1) s2(1) s3(1) s4(1) s5(1) len by (simp add: acpi_map_sdt_def get_kernel_pd_def s1'_def s4'_def n_def Let_def)
  have P: "sdt_pages (kmem s) sdt = {?p..<?p + 2} \<union> {?p..<?p + unat n}" using un pe by (auto simp: sdt_pages_def)
  have "allocated s5 = allocated s \<union> sdt_pages (kmem s) sdt"
    using H5(2) s4(3) H3(2) s1(3) unfolding P by (auto simp: s4'_def s1'_def)
  moreover have "mapped_pages s5 = mapped_pages s \<union> sdt_pages (kmem s) sdt"
    using s5(3) s3(3) s2(3) up(1) unfolding P by (auto simp: s4'_def s1'_def)
  moreover have "only_pages s s5" using only_pages_map [OF only_pages_set [OF o3, of b4] s5(4) [unfolded s4'_def]] .
  ultimately show thesis using that [OF run H5(1)] by blast
qed


text \<open>A table above 8 MiB is not changed by stores below.\<close>

lemma sdt_top:
  assumes "hooks_inv s" "sdt_pages (kmem s) sdt \<subseteq> {..<unat (pages_total_phys s)}"
  shows "unat sdt + unat (sdt_length (kmem s) sdt) < 2 ^ 32" "unat sdt + 4096 < 2 ^ 32"
proof -
  let ?l = "sdt_length (kmem s) sdt"
  have "(unat sdt + unat ?l) div 4096 \<in> sdt_pages (kmem s) sdt" "unat sdt div 4096 + 1 \<in> sdt_pages (kmem s) sdt"
    by (auto simp: sdt_pages_def div_le_mono)
  moreover have "unat (pages_total_phys s) \<le> 2 ^ 20" using assms(1) by (auto simp: hooks_inv_def frame_inv_def pf_wf_def)
  ultimately have "(unat sdt + unat ?l) div 4096 < 2 ^ 20" "unat sdt div 4096 + 1 < 2 ^ 20" using assms(2) by fastforce+
  then show "unat sdt + unat ?l < 2 ^ 32" "unat sdt + 4096 < 2 ^ 32"
    using below_next_page [of "unat sdt + unat ?l"] below_next_page [of "unat sdt"] by simp_all
qed

lemma sdt_unchanged:
  assumes "hooks_inv s" "0x800000 \<le> unat sdt" "sdt_pages (kmem s) sdt \<subseteq> {..<unat (pages_total_phys s)}" "same_high (kmem s) m"
  shows "obj m sdt (unat (sdt_length (kmem s) sdt)) = obj (kmem s) sdt (unat (sdt_length (kmem s) sdt))"
    "sdt_length m sdt = sdt_length (kmem s) sdt" "sdt_checksum_ok m sdt = sdt_checksum_ok (kmem s) sdt" "obj m sdt 4 = obj (kmem s) sdt 4"
proof -
  note T = sdt_top [OF assms(1,3)]
  have o: "obj m sdt n = obj (kmem s) sdt n" if "unat sdt + n \<le> 2 ^ 32" for n
    unfolding obj_eq_iff using obj_addr [OF that] assms(2,4) by (simp add: same_high_def)
  show 1: "obj m sdt (unat (sdt_length (kmem s) sdt)) = obj (kmem s) sdt (unat (sdt_length (kmem s) sdt))" "obj m sdt 4 = obj (kmem s) sdt 4"
    using o T by simp_all
  show "sdt_length m sdt = sdt_length (kmem s) sdt" using load32_obj [OF o [of 8], of 4] T by (simp add: sdt_length_def)
  then show "sdt_checksum_ok m sdt = sdt_checksum_ok (kmem s) sdt" using 1(1) by (simp add: sdt_checksum_sum)
qed

text \<open>The heap does not notice pages that are reserved and mapped for others.\<close>

lemma blocks_ok_more: "blocks_ok mj mi A bs \<Longrightarrow> A \<subseteq> A' \<Longrightarrow> blocks_ok mj mi A' bs"
  unfolding blocks_ok_def block_ok_def by fastforce

lemma mmu_rep_more_pages:
  assumes rep: "mmu_rep s os" and s': "hooks_inv s'" "only_pages s s'" "allocated s \<subseteq> allocated s'"
  shows "mmu_rep s' os"
proof -
  obtain bs where bs: "heap_inv s bs" "locked (mmulock s) = 0" "os = objects_of (minors s) bs" using rep by (auto simp: mmu_rep_def)
  then have ok: "heap_ok s bs" by (simp add: heap_inv_def)
  note D = heap_okD [OF ok] and F = only_pages_frame [OF s'(2)]
  have "tagged (kmem s') m" if m: "m \<in> live bs" for m
  proof -
    obtain c ms where c: "(c, ms) \<in> set bs" "m \<in> set ms" using m unfolding live_iff by blast
    note M = block_of_minor [OF D(4) c]
    have "unat m + 56 \<le> 2 ^ 32" using M(3,4) by linarith
    then have "0x800000 \<le> unat (user_ptr m - 16)" using tag_addr(2) [of m] M(5) by linarith
    then show ?thesis using D(7) [OF m] F(9) by (simp add: tagged_def same_high_def)
  qed
  then have "heap_ok s' bs" using D(2,3,5,6) blocks_ok_more [OF D(4) s'(3)] F s'(1) by (auto simp: heap_ok_def)
  then show ?thesis unfolding mmu_rep_def using bs F by (auto simp: heap_inv_def)
qed

section \<open>Properties\<close>

text \<open>
  C10. \<open>acpi_map_sdt\<close> makes a table readable: for a table above 8 MiB whose pages exist, the call returns, every byte of
  the table and its header then translates to itself, no other translation changes except for the two pages of the
  header, the frames of the table are reserved, the table is not changed, and the heap has the same objects as before.
  The address of the table need not be the address of a page.
\<close>

theorem acpi_map_sdt_maps_table:
  fixes s :: "'a acpi_scheme"
  assumes "mmu_rep s os" "paging_on s" "0x800000 \<le> unat sdt" "sdt_pages (kmem s) sdt \<subseteq> {..<unat (pages_total_phys s)}"
  shows "\<exists>s'. acpi_map_sdt sdt s = Some s' \<and> mmu_rep s' os \<and>
     (\<forall>i<unat (sdt_length (kmem s) sdt). translate s' (sdt + of_nat i) = Some (sdt + of_nat i)) \<and>
     (\<forall>va. translate s' va = (if unat va div 4096 \<in> sdt_pages (kmem s) sdt then Some va else translate s va)) \<and>
     allocated s' = allocated s \<union> sdt_pages (kmem s) sdt \<and>
     obj (kmem s') sdt (unat (sdt_length (kmem s) sdt)) = obj (kmem s) sdt (unat (sdt_length (kmem s) sdt))"
proof -
  obtain bs where bs: "heap_ok s bs" using assms(1) by (auto simp: mmu_rep_def heap_inv_def)
  have inv: "hooks_inv s" using heap_okD(1) [OF bs] .
  obtain s' where s': "acpi_map_sdt sdt s = Some s'" "hooks_inv s'" "only_pages s s'"
      "mapped_pages s' = mapped_pages s \<union> sdt_pages (kmem s) sdt" "allocated s' = allocated s \<union> sdt_pages (kmem s) sdt"
    by (rule acpi_map_sdt_ok [OF inv assms(3,4)])
  let ?l = "sdt_length (kmem s) sdt"
  have on: "paging_on s'" using s'(3) assms(2) only_tables_paging_on unfolding only_pages_def by fastforce
  have tr: "translate s' va = (if unat va div 4096 \<in> sdt_pages (kmem s) sdt then Some va else translate s va)" for va
    using translate_mapped [of s' va] translate_mapped [of s va] s'(2,4) inv on assms(2) by (auto simp: hooks_inv_def)
  have top: "unat sdt + unat ?l < 2 ^ 32" by (rule sdt_top [OF inv assms(4)])
  have adr: "unat (sdt + of_nat i) = unat sdt + i" if "i < unat ?l" for i using obj_addr [OF less_imp_le [OF top] that] .
  have "translate s' (sdt + of_nat i) = Some (sdt + of_nat i)" if "i < unat ?l" for i
    using adr [OF that] that tr [of "sdt + of_nat i"] by (auto simp: sdt_pages_def div_le_mono)
  moreover have "obj (kmem s') sdt (unat ?l) = obj (kmem s) sdt (unat ?l)"
    by (rule sdt_unchanged [OF inv assms(3,4) only_pages_frame_mem [OF s'(3)]])
  moreover have "mmu_rep s' os" using mmu_rep_more_pages [OF assms(1) s'(2,3)] s'(5) by blast
  ultimately show ?thesis using s'(1,5) tr by blast
qed

text \<open>
  The check sum accepts what it should and finds every error in one byte: a table that was laid out with its check sum byte is
  accepted, and the same table with any single byte behind the length field changed is refused.
\<close>

theorem sdt_checksum_detects:
  assumes "length sig = 4" "10 + length body < 2 ^ 32" "holds m a (encode_sdt sig body)" "8 \<le> i" "i < 10 + length body"
    "holds m' a ((encode_sdt sig body)[i := v])"
  shows "sdt_checksum_ok m a \<and> (sdt_checksum_ok m' a \<longleftrightarrow> v = encode_sdt sig body ! i)"
proof -
  let ?t = "encode_sdt sig body"
  have l: "length ?t = 10 + length body" by (rule length_encode_sdt [OF assms(1)])
  have u: "unat (of_nat (10 + length body) :: u32) = length ?t" using assms(2) l unat_of_nat_small [of "10 + length body", where ?'a = 32] by simp
  have 1: "sdt_checksum_ok m a"
    using encode_sdt_sum [OF assms(1)] encode_sdt_fields(1) [OF assms(3,1)] holds_obj [OF assms(3)] u by (simp add: sdt_checksum_sum)
  have "load32 m' (a + 4) = load32 m (a + 4)"
  proof -
    have "m' (a + of_nat k) = m (a + of_nat k)" if "k < 8" for k
      using assms(3-6) l that unfolding holds_def by (auto simp: nth_list_update)
    from this [of 4] this [of 5] this [of 6] this [of 7] show ?thesis by (simp add: load32_def add.assoc)
  qed
  then have len: "sdt_length m' a = of_nat (10 + length body)" using encode_sdt_fields(1) [OF assms(3,1)] by (simp add: sdt_length_def)
  have "sum_list (?t[i := v]) = v - ?t ! i"
    using sum_list_update_word [of i ?t v] encode_sdt_sum [OF assms(1)] assms(5) l by simp
  moreover have "obj m' a (length ?t) = ?t[i := v]" using holds_obj [OF assms(6)] by simp
  ultimately have "sdt_checksum_ok m' a \<longleftrightarrow> v - ?t ! i = 0" using len u by (simp add: sdt_checksum_sum)
  then show ?thesis using 1 by simp
qed

text \<open>The objects of the heap lie above 8 MiB, so that a table of objects survives the mapping.\<close>

lemma heap_object_high: "mmu_rep s os \<Longrightarrow> os p = Some n \<Longrightarrow> 0x800000 \<le> unat p \<and> unat p + n \<le> 2 ^ 32"
proof -
  assume rep: "mmu_rep s os" and p: "os p = Some n"
  obtain bs where bs: "heap_ok s bs" "os = objects_of (minors s) bs" using rep by (auto simp: mmu_rep_def heap_inv_def)
  note ok = heap_okD(4) [OF bs(1)]
  obtain m where m: "m \<in> live bs" "p = user_ptr m" using p objects_of_iff [OF ok] bs(2) by blast
  have "unat m + 56 \<le> 2 ^ 32" "0x800000 \<le> unat m" using live_object(1,3) [OF ok m(1)] by auto
  then show ?thesis using user_ptr_bounds [of m] mm.object_bounds [OF rep p] m(2) by simp
qed

lemma unchanged_high:
  assumes "mmu_rep s os" "same_high (kmem s) m"
  shows "unchanged os {} (kmem s) m"
  unfolding unchanged_def obj_eq_iff
proof (intro allI impI)
  fix q n i assume q: "os q = Some n" and i: "i < n"
  note H = heap_object_high [OF assms(1) q]
  have "unat (q + of_nat i) = unat q + i" using obj_addr [of q n i] H i by blast
  then show "m (q + of_nat i) = kmem s (q + of_nat i)" using assms(2) H by (simp add: same_high_def)
qed

lemma ht_rep_unchanged:
  assumes h: "ht_rep os ht m bs" and u: "unchanged os {} m m'"
  shows "ht_rep os ht m' bs"
proof -
  note R = ht_repD [OF h]
  have "ht_bucket os m' (load32 m (ht_nodes ht + of_nat (4 * i))) (bs ! i)" if "i < length bs" for i
    by (rule ht_bucket_frame [OF R(5) [OF that] u]) auto
  moreover have "load32 m' (ht_nodes ht + of_nat (4 * i)) = load32 m (ht_nodes ht + of_nat (4 * i))" if "i < length bs" for i
    using unchanged_field [OF u R(1) _ R(6) [OF that]] by simp
  ultimately show ?thesis using h by (simp add: ht_rep_def)
qed

lemma ht_models_map:
  assumes "ht_models n os0 (ht, s) M" "hooks_inv s'" "only_pages s s'" "allocated s \<subseteq> allocated s'"
  shows "ht_models n os0 (ht, s') M"
proof -
  obtain os bs where os: "unat n + 80 < 2 ^ 32" "mmu_rep s os" "ht_rep os ht (kmem s) bs" "others os ht bs = os0"
     "\<forall>k. M k = (if 0 \<in> set k then None else ht_map ht bs k)" "\<forall>v\<in>ran M. length v = unat n"
    using assms(1) by (auto simp: ht_models_def)
  have "mmu_rep s' os" by (rule mmu_rep_more_pages [OF os(2) assms(2-4)])
  moreover have "ht_rep os ht (kmem s') bs"
    using ht_rep_unchanged [OF os(3) unchanged_high [OF os(2) only_pages_frame_mem [OF assms(3)]]] .
  ultimately show ?thesis unfolding ht_models_def fst_conv snd_conv using os by blast
qed

lemma acpi_more: "liballoc.more s' = liballoc.more s \<Longrightarrow> SDTs s' = SDTs s" for s :: "'a acpi_scheme"
  by (cases s; cases s') simp

lemma acpi_lookup:
  "ht_models 4 os0 (SDTs s, s) M \<Longrightarrow> terminated key \<Longrightarrow>
   acpi_get_sdt_from_sig key s = Some (case M (cstr key) of None \<Rightarrow> 0 | Some v \<Rightarrow> word_of_bytes v)"
  using get_models [of 4 os0 "SDTs s" s M key "bytes32 0"] by (auto simp: acpi_get_sdt_from_sig_def split: option.splits)

lemma stays_mapped:
  fixes s :: "'a hooks_scheme"
  assumes on: "paging_on s" and inv: "hooks_inv s" "hooks_inv s1" and s1: "only_pages s s1" "mapped_pages s1 = mapped_pages s \<union> P"
    and g: "grows s1 s'" "hooks_inv s'" and va: "unat va div 4096 \<in> P \<or> translate s va \<noteq> None"
  shows "translate s' va = Some va"
proof -
  have on1: "paging_on s1" using s1(1) on only_tables_paging_on by (fastforce simp: only_pages_def)
  have pg: "pg_inv s" "pg_inv s1" "pg_inv s'" using inv g(2) by (simp_all add: hooks_inv_def)
  have "translate s1 va \<noteq> None" using va s1(2) by (auto simp: translate_mapped [OF pg(1) on] translate_mapped [OF pg(2) on1] split: if_splits)
  then show ?thesis by (rule grows_translate [OF g(1) pg(2,3) on1])
qed

text \<open>
  C11. One step of the start of the driver, from the page tables to the hash table: for an entry of the root table above 8 MiB, with paging on and room in the
  heap, the step returns. In the state it returns, every page of the table is reserved and every address in it translates to itself, and what was reserved or
  translated before still is. When the check sum of the table is right and no table with its signature was found
  before, the driver then finds the address of the table under its signature; in every other case, a second table of the same signature among them, it finds what it
  found before. \<open>acpi_get_sdt_from_sig\<close> returns \<open>NULL\<close> for a name that no table has.
\<close>

theorem map_sdt_entry_adds:
  fixes s :: "'a acpi_scheme"
  assumes ht: "ht_models 4 os0 (SDTs s, s) M" and on: "paging_on s" and sdt: "sdt = sdt_entry ver i s" "0x800000 \<le> unat sdt"
    and fit: "sdt_pages (kmem s) sdt \<subseteq> {..<unat (pages_total_phys s)}" and room: "\<And>s1. acpi_map_sdt sdt s = Some s1 \<Longrightarrow> ht_room 4 s1"
    and sig: "sig = cstr (obj (kmem s) sdt 4 @ [0])"
    and M': "M' = (if sdt_checksum_ok (kmem s) sdt \<and> M sig = None then M(sig \<mapsto> bytes32 sdt) else M)"
  shows "\<exists>s'. map_sdt_entry ver i s = Some s' \<and> SDTs s' = SDTs s \<and> ht_models 4 os0 (SDTs s', s') M' \<and>
     allocated s \<union> sdt_pages (kmem s) sdt \<subseteq> allocated s' \<and>
     (\<forall>va. unat va div 4096 \<in> sdt_pages (kmem s) sdt \<or> translate s va \<noteq> None \<longrightarrow> translate s' va = Some va) \<and>
     (\<forall>key. terminated key \<longrightarrow> acpi_get_sdt_from_sig key s' = Some (case M' (cstr key) of None \<Rightarrow> 0 | Some v \<Rightarrow> word_of_bytes v))"
proof -
  obtain os where rep: "mmu_rep s os" using ht by (auto simp: ht_models_def)
  then have inv: "hooks_inv s" by (rule mmu_rep_hooks)
  obtain s1 where s1: "acpi_map_sdt sdt s = Some s1" "hooks_inv s1" "only_pages s s1" "allocated s1 = allocated s \<union> sdt_pages (kmem s) sdt"
      "mapped_pages s1 = mapped_pages s \<union> sdt_pages (kmem s) sdt"
    by (rule acpi_map_sdt_ok [OF inv sdt(2) fit])
  note mapped = stays_mapped [OF on inv s1(2,3,5)]
  have ht1: "ht_models 4 os0 (SDTs s, s1) M" using ht_models_map [OF ht s1(2,3)] s1(4) by blast
  have same: "SDTs s1 = SDTs s" using acpi_more only_pages_frame(10) [OF s1(3)] by blast
  have mem: "sdt_checksum_ok (kmem s1) sdt = sdt_checksum_ok (kmem s) sdt" "obj (kmem s1) sdt 4 = obj (kmem s) sdt 4"
    using sdt_unchanged [OF inv sdt(2) fit only_pages_frame_mem [OF s1(3)]] by auto
  have key: "terminated (obj (kmem s) sdt 4 @ [0])" "length sig < 64" "length (bytes32 sdt) = unat (4 :: u32)"
    unfolding sig by (auto simp: terminated_def cstr_def intro: le_less_trans [OF length_takeWhile_le])
  show ?thesis
  proof (cases "sdt_checksum_ok (kmem s) sdt")
    case False
    then have "map_sdt_entry ver i s = Some s1" using s1(1) sdt(1) mem by (simp add: map_sdt_entry_def Let_def)
    moreover have "M' = M" using False M' by simp
    moreover have "ht_models 4 os0 (SDTs s1, s1) M" using ht1 same by simp
    moreover have "translate s1 va = Some va" if "unat va div 4096 \<in> sdt_pages (kmem s) sdt \<or> translate s va \<noteq> None" for va
      by (rule mapped [OF grows_refl s1(2) that])
    moreover have "allocated s \<union> sdt_pages (kmem s) sdt \<subseteq> allocated s1" using s1(4) by simp
    ultimately show ?thesis using same acpi_lookup by (intro exI [of _ s1] conjI allI impI) blast+
  next
    case True
    obtain s2 where s2: "hashtable_insert (SDTs s) (obj (kmem s) sdt 4 @ [0]) (bytes32 sdt) 4 s1 = Some s2"
        "ht_models 4 os0 (SDTs s, s2) (if M sig = None then M(sig \<mapsto> bytes32 sdt) else M)" "client s2 = client s1" "grows s1 s2"
      using insert_models [OF ht1 key(1) _ key(3) room [OF s1(1)]] key(2) sig by blast
    have "SDTs s2 = SDTs s" using acpi_more [of s2 s1] s2(3) same by (simp add: client_def)
    moreover have "map_sdt_entry ver i s = Some s2" using s1(1) sdt(1) mem True same s2(1) by (simp add: map_sdt_entry_def Let_def)
    moreover have "ht_models 4 os0 (SDTs s2, s2) M'" using calculation(1) s2(2) True M' by simp
    moreover have "hooks_inv s2" using s2(2) mmu_rep_hooks by (auto simp: ht_models_def)
    then have "translate s2 va = Some va" if "unat va div 4096 \<in> sdt_pages (kmem s) sdt \<or> translate s va \<noteq> None" for va
      by (rule mapped [OF s2(4) _ that])
    moreover have "allocated s \<union> sdt_pages (kmem s) sdt \<subseteq> allocated s2" using s1(4) s2(4) by (simp add: grows_def)
    ultimately show ?thesis using acpi_lookup by (intro exI [of _ s2] conjI allI impI) blast+
  qed
qed


section \<open>Samples\<close>

text \<open>
  The sample heap with a table of 64 bytes at \<open>0x818000\<close>, whose signature is FACP, and a root table at \<open>0x819800\<close> whose first
  entry is its address, for the witnesses.
\<close>

definition sample_sdt :: bytes where
  "sample_sdt = encode_sdt [70, 65, 67, 80] (replicate 54 0)"

definition sample_acpi_mem :: mem where
  "sample_acpi_mem = write_bytes (store32 (kmem sample_heap) 0x819824 0x818000) 0x818000 sample_sdt"

definition sample_acpi :: acpi where
  "sample_acpi = liballoc.extend (sample_heap\<lparr>kmem := sample_acpi_mem\<rparr>)
     (acpi.fields \<lparr>ht_nodes = 0, ht_size = 0, ht_hash = hashFNV\<rparr> 0x819800 0)"

lemma length_sample_sdt [simp]: "length sample_sdt = 64"
  by (simp add: sample_sdt_def length_encode_sdt)

lemma sample_mem_table: "holds sample_acpi_mem 0x818000 sample_sdt" "load32 sample_acpi_mem 0x819824 = 0x818000"
proof -
  show "holds sample_acpi_mem 0x818000 sample_sdt" by (simp add: holds_def sample_acpi_mem_def write_bytes_inside)
  have "sample_acpi_mem x = store32 (kmem sample_heap) 0x819824 0x818000 x" if "x \<in> {0x819824, 0x819825, 0x819826, 0x819827}" for x
    unfolding sample_acpi_mem_def using that by (intro write_bytes_outside) (auto simp: object_bytes_def)
  then have "load32 sample_acpi_mem 0x819824 = load32 (store32 (kmem sample_heap) 0x819824 0x818000) 0x819824" by (simp add: load32_def)
  then show "load32 sample_acpi_mem 0x819824 = 0x818000" by simp
qed

lemma sample_mem_other: "unat x < 0x818000 \<Longrightarrow> sample_acpi_mem x = kmem sample_heap x"
proof -
  assume x: "unat x < 0x818000"
  then have "sample_acpi_mem x = store32 (kmem sample_heap) 0x819824 0x818000 x"
    unfolding sample_acpi_mem_def by (intro write_bytes_outside) (auto simp: object_bytes_def)
  also have "\<dots> = kmem sample_heap x" using x by (intro store32_outside) (auto simp: object_bytes_def)
  finally show ?thesis .
qed

lemma sample_acpi_rep: "mmu_rep sample_acpi [0x808040 \<mapsto> 100]"
proof -
  have low: "same_low (kmem sample_heap) sample_acpi_mem" and k: "sample_acpi_mem 0x808030 = kmem sample_heap 0x808030"
    by (simp_all add: same_low_def sample_mem_other)
  have i: "heap_inv sample_heap [(0x808000, [0x808018])]" by (rule sample_heap_inv)
  then have "pg_inv sample_heap" by (simp add: heap_inv_def heap_ok_def hooks_inv_def)
  then have "pg_inv (sample_heap\<lparr>kmem := sample_acpi_mem\<rparr>)" using low by (rule pg_inv_same_low)
  then have "heap_inv sample_acpi [(0x808000, [0x808018])]" "minors sample_acpi = minors sample_heap" "mmulock sample_acpi = mmulock sample_heap"
    using i k unfolding sample_acpi_def liballoc.extend_def acpi.fields_def
    by (auto simp: heap_inv_def heap_ok_def hooks_inv_def allocated_def frame_inv_def pf_wf_def pg_inv_def live_def tagged_def user_ptr_def)
  then show ?thesis using sample_heap_rep by (auto simp: mmu_rep_def objects_of_def sample_heap_def user_ptr_def)
qed

lemmas sample_acpi_unfold = sample_acpi_def sample_heap_def sample_liballoc_def sample_hooks_def liballoc.extend_def acpi.fields_def

lemma sample_acpi_fields: "kmem sample_acpi = sample_acpi_mem" "pages_total_phys sample_acpi = 2080" "paging_on sample_acpi"
  by (simp_all add: sample_acpi_unfold paging_on_def bit_numeral_rec)

text \<open>The pages of the table, in every memory that has it.\<close>

lemma sample_pages: "holds m 0x818000 sample_sdt \<Longrightarrow> sdt_pages m 0x818000 = {2072, 2073} \<and> sdt_length m 0x818000 = 64"
proof -
  assume "holds m 0x818000 sample_sdt"
  then have "sdt_length m 0x818000 = 64" using encode_sdt_fields(1) [of m "0x818000" "[70, 65, 67, 80]" "replicate 54 0"] by (simp add: sample_sdt_def)
  then show ?thesis by (auto simp: sdt_pages_def)
qed

theorem acpi_map_sdt_maps_table_witness:
  "\<exists>s'. acpi_map_sdt 0x818000 sample_acpi = Some s' \<and> translate s' 0x81803f = Some 0x81803f \<and> 2072 \<in> allocated s'"
proof -
  note P = sample_pages [OF sample_mem_table(1)]
  have "sdt_pages (kmem sample_acpi) 0x818000 \<subseteq> {..<unat (pages_total_phys sample_acpi)}" using P by (simp add: sample_acpi_fields)
  from acpi_map_sdt_maps_table [OF sample_acpi_rep sample_acpi_fields(3) _ this]
  obtain s' where "acpi_map_sdt 0x818000 sample_acpi = Some s'"
      "\<forall>va. translate s' va = (if unat va div 4096 \<in> {2072, 2073} then Some va else translate sample_acpi va)"
      "allocated s' = allocated sample_acpi \<union> {2072, 2073}"
    using P by (auto simp: sample_acpi_fields)
  then show ?thesis by simp
qed

theorem sdt_checksum_detects_witness:
  "sdt_checksum_ok sample_acpi_mem 0x818000 \<and> \<not> sdt_checksum_ok (\<lambda>x. (sample_sdt[63 := 1]) ! unat (x - 0x818000)) 0x818000"
proof -
  have h: "holds (\<lambda>x. (sample_sdt[63 := 1]) ! unat (x - 0x818000)) 0x818000 (sample_sdt[63 := 1])" by (rule holds_list) simp
  have "sample_sdt ! 63 = 0" by (simp add: sample_sdt_def encode_sdt_def Let_def nth_append)
  moreover have "sdt_checksum_ok sample_acpi_mem 0x818000 \<and>
      (sdt_checksum_ok (\<lambda>x. (sample_sdt[63 := 1]) ! unat (x - 0x818000)) 0x818000 \<longleftrightarrow> 1 = sample_sdt ! 63)"
    unfolding sample_sdt_def
    by (rule sdt_checksum_detects) (use sample_mem_table(1) h in \<open>simp_all add: sample_sdt_def\<close>)
  ultimately show ?thesis by simp
qed

lemma sample_acpi_mmap:
  "\<exists>s1. mmu_mmap 8 sample_acpi = Some (0x8080e0, s1) \<and> same_high (sample_acpi_mem(0x8080d0 := kmem s1 0x8080d0)) (kmem s1) \<and>
     acpi_rsdt s1 = 0x819800 \<and> pages_total_phys s1 = 2080 \<and> paging_on s1 \<and>
     (\<forall>b c m ts ht. ht_room 4 (s1\<lparr>pageframe_bitmap := b, heap_cur := c, kmem := m, allocated_page_tables := ts, SDTs := ht\<rparr>))"
  unfolding sample_acpi_unfold ht_room_def
  by (simp add: run_malloc malloc_loop.simps [of "0x808000"] malloc_case4.simps [of "0x808000" "0x808018"]
      malloc_case4.simps [of "0x808000" "0x8080B4"] malloc_case4.simps [of "0x808000"] LIBALLOC_MAGIC_def CPU_EFLAGS_IF_def sti_def cli_def set_kmem_mem
      same_high_def paging_on_def bit_numeral_rec)


lemma ht_models_SDTs: "ht_models n os0 (ht, s\<lparr>SDTs := h\<rparr>) M = ht_models n os0 (ht, s) M"
  by (simp add: ht_models_def mmu_rep_def heap_inv_def heap_ok_def hooks_inv_def allocated_def frame_inv_def pf_wf_def pg_inv_def)

lemma sample_sdts:
  "\<exists>(s :: acpi) os0. ht_models 4 os0 (SDTs s, s) (\<lambda>_. None) \<and> sdt_entry 1 0 s = 0x818000 \<and> holds (kmem s) 0x818000 sample_sdt \<and>
     pages_total_phys s = 2080 \<and> paging_on s \<and> (\<forall>s1. only_pages s s1 \<longrightarrow> ht_room 4 s1)"
proof -
  obtain s1 where s1: "mmu_mmap (2 * 4) sample_acpi = Some (0x8080e0, s1)" "same_high (sample_acpi_mem(0x8080d0 := kmem s1 0x8080d0)) (kmem s1)"
     "acpi_rsdt s1 = 0x819800" "pages_total_phys s1 = 2080"
     "\<forall>b c m ts ht. ht_room 4 (s1\<lparr>pageframe_bitmap := b, heap_cur := c, kmem := m, allocated_page_tables := ts, SDTs := ht\<rparr>)"
    using sample_acpi_mmap by auto
  obtain ht s' where s': "hashtable_init None 2 sample_acpi = Some (0, ht, s')" "ht_models 4 [0x808040 \<mapsto> 100] (ht, s') (\<lambda>_. None)"
    using init_models [OF sample_acpi_rep _ _ s1(1), of 4] by auto
  let ?m = "write_bytes (kmem s1) 0x8080e0 (replicate 8 0)"
  have eq: "s' = set_kmem ?m s1" using s'(1) s1(1) by (auto simp: hashtable_init_def memset_to_def Let_def)
  define s where "s = s'\<lparr>SDTs := ht\<rparr>"
  have same: "kmem s x = sample_acpi_mem x" if "0x818000 \<le> unat x" for x
  proof -
    have "kmem s x = kmem s1 x" unfolding s_def eq using that by (auto simp: set_kmem_mem object_bytes_def intro!: write_bytes_outside)
    moreover have "x \<noteq> 0x8080d0" using that by auto
    ultimately show ?thesis using s1(2) that by (simp add: same_high_def)
  qed
  have "holds (kmem s) 0x818000 sample_sdt"
    unfolding holds_def
  proof (intro allI impI)
    fix i assume i: "i < length sample_sdt"
    then have "unat (0x818000 + of_nat i :: u32) = 0x818000 + i" using obj_addr [of "0x818000" 64 i] by simp
    then show "kmem s (0x818000 + of_nat i) = sample_sdt ! i" using same sample_mem_table(1) i by (simp add: holds_def)
  qed
  moreover have "load32 (kmem s) 0x819824 = load32 sample_acpi_mem 0x819824" by (simp add: load32_def same)
  then have "sdt_entry 1 0 s = 0x818000" using sample_mem_table(2) s1(3) by (simp add: sdt_entry_def s_def eq set_kmem_mem)
  moreover have "ht_room 4 t" if t: "only_pages s t" for t
  proof -
    obtain b c m ts where "t = s\<lparr>pageframe_bitmap := b, heap_cur := c, kmem := m, allocated_page_tables := ts\<rparr>"
      using t unfolding only_pages_def only_tables_def by blast
    then have "t = s1\<lparr>pageframe_bitmap := b, heap_cur := c, kmem := m, allocated_page_tables := ts, SDTs := ht\<rparr>"
      by (simp add: s_def eq set_kmem_mem)
    then show ?thesis using s1(5) by simp
  qed
  moreover have "ht_models 4 [0x808040 \<mapsto> 100] (SDTs s, s) (\<lambda>_. None)" using s'(2) by (simp add: s_def ht_models_SDTs)
  moreover have "pages_total_phys s = 2080" using s1(4) by (simp add: s_def eq set_kmem_mem)
  moreover have "paging_on s1" using gm.alloc_grown [OF sample_acpi_rep _ s1(1)] sample_acpi_fields(3) by (simp add: grows_def)
  then have "paging_on s" by (simp add: s_def eq set_kmem_mem paging_on_def)
  ultimately show ?thesis by blast
qed

theorem map_sdt_entry_adds_witness:
  "\<exists>(s :: acpi) s'. map_sdt_entry 1 0 s = Some s' \<and> acpi_get_sdt_from_sig [70, 65, 67, 80, 0] s' = Some 0x818000 \<and>
     acpi_get_sdt_from_sig [65, 80, 73, 67, 0] s' = Some 0 \<and> translate s' 0x81803f = Some 0x81803f \<and> 2072 \<in> allocated s'"
proof -
  obtain s :: acpi and os0 where s: "ht_models 4 os0 (SDTs s, s) (\<lambda>_. None)" "sdt_entry 1 0 s = 0x818000" "holds (kmem s) 0x818000 sample_sdt"
     "pages_total_phys s = 2080" "\<forall>s1. only_pages s s1 \<longrightarrow> ht_room 4 s1" "paging_on s" using sample_sdts by blast
  have fit: "sdt_pages (kmem s) 0x818000 \<subseteq> {..<unat (pages_total_phys s)}" using sample_pages [OF s(3)] s(4) by simp
  obtain os bs where "mmu_rep s os" "heap_ok s bs" using s(1) by (auto simp: ht_models_def mmu_rep_def heap_inv_def)
  then have inv: "hooks_inv s" using heap_okD(1) by blast
  have high: "0x800000 \<le> unat (0x818000 :: u32)" by simp
  obtain t where t: "acpi_map_sdt 0x818000 s = Some t" "only_pages s t" by (rule acpi_map_sdt_ok [OF inv high fit])
  then have "ht_room 4 t" using s(5) by blast
  then have room: "\<And>s1. acpi_map_sdt 0x818000 s = Some s1 \<Longrightarrow> ht_room 4 s1" using t(1) by simp
  have sig: "[70, 65, 67, 80] = cstr (obj (kmem s) 0x818000 4 @ [0])"
    using encode_sdt_fields(2) [OF s(3) [unfolded sample_sdt_def]] by simp
  have sum: "sdt_checksum_ok (kmem s) 0x818000"
    using sample_pages [OF s(3)] holds_obj [OF s(3)] encode_sdt_sum [of "[70, 65, 67, 80]" "replicate 54 0"]
    by (simp add: sdt_checksum_sum sample_sdt_def length_encode_sdt)
  define M' :: "bytes \<Rightarrow> bytes option" where "M' = [[70, 65, 67, 80] \<mapsto> bytes32 0x818000]"
  have M: "M' = (if sdt_checksum_ok (kmem s) 0x818000 \<and> (\<lambda>_. None :: bytes option) ([70, 65, 67, 80] :: bytes) = None
     then (\<lambda>_. None)([70, 65, 67, 80] \<mapsto> bytes32 0x818000) else (\<lambda>_. None))" using sum by (simp add: M'_def)
  from map_sdt_entry_adds [where M = "\<lambda>_. None" and M' = M', OF s(1,6) s(2) [symmetric] high fit room sig M]
  obtain s' where s': "map_sdt_entry 1 0 s = Some s'"
      "\<forall>key. terminated key \<longrightarrow> acpi_get_sdt_from_sig key s' = Some (case M' (cstr key) of None \<Rightarrow> 0 | Some v \<Rightarrow> word_of_bytes v)"
      "sdt_pages (kmem s) 0x818000 \<subseteq> allocated s'" "\<forall>va. unat va div 4096 \<in> sdt_pages (kmem s) 0x818000 \<longrightarrow> translate s' va = Some va"
    by blast
  have "translate s' 0x81803f = Some 0x81803f" "2072 \<in> allocated s'"
    using s'(3) s'(4) [rule_format, of "0x81803f"] sample_pages [OF s(3)] by simp_all
  moreover have "acpi_get_sdt_from_sig [70, 65, 67, 80, 0] s' = Some 0x818000" "acpi_get_sdt_from_sig [65, 80, 73, 67, 0] s' = Some 0"
    using s'(2) [rule_format, of "[70, 65, 67, 80, 0]"] s'(2) [rule_format, of "[65, 80, 73, 67, 0]"] by (simp_all add: M'_def)
  ultimately show ?thesis using s'(1) by blast
qed

end
