(* ===== verification/Poweroff.thy ===== *)
theory Poweroff
  imports Acpi Ports
begin

text \<open>
  \<^verbatim>\<open>kernel/drivers/acpi/fadt.c\<close>, \<^verbatim>\<open>kernel/power/shutdown.c\<close> and \<^verbatim>\<open>kernel/power/reboot.c\<close>: the fixed table of the firmware, switching the machine
  off and starting it again. The tables are in the byte memory; the port accesses are a log. Messages and the instruction \<^verbatim>\<open>hlt\<close> behind the
  last access of \<open>reboot\<close> are left out.
\<close>

section \<open>The code\<close>

record fadt = acpi +
  fadt_ptr :: u32
  dsdt_ptr :: u32
  io_ports :: ports

text \<open>The fields of \<open>struct FADT\<close> that the code reads; the header has 36 bytes.\<close>

definition Dsdt :: "mem \<Rightarrow> u32 \<Rightarrow> u32" where "Dsdt m fadt = load32 m (fadt + 40)"
definition SMI_CommandPort :: "mem \<Rightarrow> u32 \<Rightarrow> u32" where "SMI_CommandPort m fadt = load32 m (fadt + 48)"
definition AcpiEnable :: "mem \<Rightarrow> u32 \<Rightarrow> u8" where "AcpiEnable m fadt = m (fadt + 52)"
definition PM1aControlBlock :: "mem \<Rightarrow> u32 \<Rightarrow> u32" where "PM1aControlBlock m fadt = load32 m (fadt + 64)"
definition PM1bControlBlock :: "mem \<Rightarrow> u32 \<Rightarrow> u32" where "PM1bControlBlock m fadt = load32 m (fadt + 68)"

definition acpi_get_fadt :: "'a fadt_scheme \<Rightarrow> (u32 \<times> 'a fadt_scheme) option" where
  "acpi_get_fadt s =
     (if fadt_ptr s = 0
      then do { p \<leftarrow> acpi_get_sdt_from_sig [70, 65, 67, 80, 0] s;
                let s = s\<lparr>fadt_ptr := p\<rparr>;
                    s = s\<lparr>io_ports := outb (ucast (SMI_CommandPort (kmem s) p)) (AcpiEnable (kmem s) p) (io_ports s)\<rparr> in
                Some (p, s) }
      else Some (fadt_ptr s, s))"

definition acpi_get_dsdt :: "'a fadt_scheme \<Rightarrow> (u32 \<times> 'a fadt_scheme) option" where
  "acpi_get_dsdt s =
     (if dsdt_ptr s = 0
      then do { (fadt, s) \<leftarrow> acpi_get_fadt s;
                let d = Dsdt (kmem s) fadt; s = s\<lparr>dsdt_ptr := d\<rparr> in
                do { s \<leftarrow> (if is_paging_enabled (kinfo_of s) \<noteq> 0 then acpi_map_sdt d s else Some s); Some (dsdt_ptr s, s) } }
      else Some (dsdt_ptr s, s))"

definition acpi_dsdt_get_s5obj :: "'a fadt_scheme \<Rightarrow> (u32 \<times> 'a fadt_scheme) option" where
  "acpi_dsdt_get_s5obj s =
     do { (h, s) \<leftarrow> acpi_get_dsdt s;
          c \<leftarrow> strncmp (obj (kmem s) h 4) [68, 83, 68, 84, 0] 4;
          if \<not> sdt_checksum_ok (kmem s) h \<or> c \<noteq> 0 then Some (0, s)
          else let dsdt_noheader = h + 36; len = sdt_length (kmem s) h in
               do { q \<leftarrow> strnstr (obj (kmem s) dsdt_noheader (unat len)) [95, 83, 53, 95, 0] len;
                    Some (case q of Null \<Rightarrow> 0 | Ptr i \<Rightarrow> dsdt_noheader + of_nat i, s) } }"

text \<open>\<open>*p << 10\<close> is stored in a variable of 8 bits.\<close>

definition sleep_type :: "u8 \<Rightarrow> u8" where
  "sleep_type c = ucast (push_bit 10 (ucast c :: u32))"

definition skip_byteprefix :: "mem \<Rightarrow> u32 \<Rightarrow> u32" where
  "skip_byteprefix m p = (if m p = 0x0A then p + 1 else p)"

text \<open>The two sleep types behind the name of the object: the package length and the number of elements are skipped.\<close>

definition s5_types :: "mem \<Rightarrow> u32 \<Rightarrow> u8 \<times> u8" where
  "s5_types m p =
     (let p = p + 5; p = p + (ucast (drop_bit 6 (m p AND 0xC0)) + 2); p = skip_byteprefix m p; a = m p; p = p + 1;
          p = skip_byteprefix m p in (a, m p))"

text \<open>A null pointer from the search is read without a test; the read below address 0 faults.\<close>

definition shutdown :: "'a fadt_scheme \<Rightarrow> 'a fadt_scheme option" where
  "shutdown s =
     do { (p, s) \<leftarrow> acpi_dsdt_get_s5obj s;
          let m = kmem s in
          if p = 0 then None
          else if (m (p - 1) = 0x08 \<or> m (p - 2) = 0x08 \<and> m (p - 1) = 0x5C) \<and> m (p + 4) = 0x12
          then let SLP_TYPa = sleep_type (fst (s5_types m p)); SLP_TYPb = sleep_type (snd (s5_types m p)); SLP_EN = push_bit 13 1 :: u16 in
               do { (fadt, s) \<leftarrow> acpi_get_fadt s; let PM1a_CNT = PM1aControlBlock (kmem s) fadt in
               do { (fadt, s) \<leftarrow> acpi_get_fadt s; let PM1b_CNT = PM1bControlBlock (kmem s) fadt;
                    s = s\<lparr>io_ports := outw (ucast PM1a_CNT) (ucast SLP_TYPa OR SLP_EN) (io_ports s)\<rparr> in
                    if SLP_TYPb \<noteq> 0 then Some (s\<lparr>io_ports := outw (ucast PM1b_CNT) (ucast SLP_TYPb OR SLP_EN) (io_ports s)\<rparr>) else Some s } }
          else Some s }"

partial_function (option) reboot_wait :: "device \<Rightarrow> u8 \<Rightarrow> 'a ports_scheme \<Rightarrow> 'a ports_scheme option" where
  "reboot_wait dev good s = (if good AND 0x02 \<noteq> 0 then let (good, s) = inb dev 0x64 s in reboot_wait dev good s else Some s)"

definition reboot :: "device \<Rightarrow> 'a ports_scheme \<Rightarrow> 'a ports_scheme option" where
  "reboot dev s = do { s \<leftarrow> reboot_wait dev 0x02 s; Some (outb 0x64 0xFE s) }"

section \<open>The fixed table\<close>

lemma sleep_type_0 [simp]: "sleep_type c = 0"
  by (rule bit_word_eqI) (simp add: sleep_type_def bit_simps)

lemma acpi_get_fadt_cached: "fadt_ptr s \<noteq> 0 \<Longrightarrow> acpi_get_fadt s = Some (fadt_ptr s, s)"
  by (simp add: acpi_get_fadt_def)

text \<open>The table is looked up and ACPI is switched on once; later calls return the same address and write no port.\<close>

lemma acpi_get_fadt_once:
  fixes s :: "'a fadt_scheme"
  assumes "ht_models 4 os0 (SDTs s, s) M" "M [70, 65, 67, 80] = Some (bytes32 p)" "p \<noteq> 0" "fadt_ptr s = 0"
  obtains s' where "acpi_get_fadt s = Some (p, s')" "acpi_get_fadt s' = Some (p, s')" "fadt_ptr s' = p"
    "port_log (io_ports s') = port_log (io_ports s) @ [Out (ucast (SMI_CommandPort (kmem s) p)) (AcpiEnable (kmem s) p)]"
proof -
  have "acpi_get_sdt_from_sig [70, 65, 67, 80, 0] s = Some p"
    using acpi_lookup [OF assms(1), of "[70, 65, 67, 80, 0]"] assms(2) by simp
  then show thesis using assms(3,4) that by (simp add: acpi_get_fadt_def)
qed

section \<open>The object for soft off\<close>

text \<open>A small number in the byte code: 0 and 1 have codes of their own, every other byte has a prefix.\<close>

definition byte_const :: "u8 \<Rightarrow> bytes" where
  "byte_const v = (if v < 2 then [v] else [0x0A, v])"

definition encode_s5 :: "bool \<Rightarrow> bytes \<Rightarrow> u8 \<Rightarrow> u8 \<Rightarrow> bytes" where
  "encode_s5 esc pkg a b = (if esc then [0x08, 0x5C] else [0x08]) @ [95, 83, 53, 95, 0x12] @ pkg @ [4] @ byte_const a @ byte_const b"

definition s5_name :: bytes where
  "s5_name = [95, 83, 53, 95]"

lemma holds_at: "holds m a (xs @ ys) \<Longrightarrow> a' = a + of_nat (length xs) \<Longrightarrow> holds m a' ys"
  by (simp add: holds_append)

lemma skip_byteprefix_const:
  assumes "holds m p (byte_const v)"
  shows "m (skip_byteprefix m p) = v" "skip_byteprefix m p + 1 = p + of_nat (length (byte_const v))"
proof -
  have "m (skip_byteprefix m p) = v \<and> skip_byteprefix m p + 1 = p + of_nat (length (byte_const v))"
    using assms by (cases "v < 2") (auto simp: byte_const_def skip_byteprefix_def holds_Cons)
  then show "m (skip_byteprefix m p) = v" "skip_byteprefix m p + 1 = p + of_nat (length (byte_const v))" by simp_all
qed

lemma strnstr_first:
  assumes "n = unat len" "n \<le> length s1" and m: "matches s1 s5_name n i" and f: "\<forall>j<i. \<not> matches s1 s5_name n j"
  shows "strnstr s1 (s5_name @ [0]) len = Some (Ptr i)"
proof -
  have "strlen (s5_name @ [0]) = Some 4" by (simp add: strlen_def s5_name_def)
  moreover obtain q where "strnstr_loop s1 (s5_name @ [0]) 0 len 4 = Some q"
     "case q of Null \<Rightarrow> \<forall>j. \<not> matches s1 s5_name n j | Ptr i \<Rightarrow> matches s1 s5_name n i \<and> (\<forall>j<i. \<not> matches s1 s5_name n j)"
    using strnstr_loop_ok [of "s5_name @ [0]" s5_name "[]" 4 0 len n s1] assms(1,2) by (auto simp: s5_name_def)
  moreover from this(2) have "q = Ptr i" using m f by (cases q) (auto, metis linorder_neqE_nat)
  ultimately show ?thesis by (simp add: strnstr_def)
qed

text \<open>The search finds the name in a table, and what stands before the name is not mistaken for it.\<close>

lemma search_table:
  assumes h: "holds m a D" and i: "i + 4 \<le> length D" "take 4 (drop i D) = s5_name" and f: "\<And>j. j < i \<Longrightarrow> take 4 (drop j D) \<noteq> s5_name"
    and len: "length D \<le> unat len"
  shows "strnstr (obj m a (unat len)) (s5_name @ [0]) len = Some (Ptr i)"
proof (rule strnstr_first)
  let ?s = "obj m a (unat len)"
  have t: "take (length D) ?s = D" using h len by (auto simp: holds_def obj_nth intro!: nth_equalityI)
  have eq: "take 4 (drop j ?s) = take 4 (drop j D)" if "j + 4 \<le> length D" for j
  proof -
    have "take 4 (drop j D) = take 4 (drop j (take (length D) ?s))" using t by simp
    also have "\<dots> = take 4 (drop j ?s)" using that by (simp add: drop_take)
    finally show ?thesis by simp
  qed
  have n: "length s5_name = 4" by (simp add: s5_name_def)
  show "matches ?s s5_name (unat len) i" using i len eq [of i] by (simp add: matches_def n)
  show "\<forall>j<i. \<not> matches ?s s5_name (unat len) j" using f i(1) eq by (auto simp: matches_def n)
qed simp_all

lemma encode_sdt_body:
  assumes "length sig = 4"
  shows "\<exists>t. length t = 10 \<and> encode_sdt sig body = t @ body"
proof -
  let ?t = "take 4 sig @ bytes32 (of_nat (10 + length body)) @ [1, 0]"
  let ?c = "- sum_list (?t @ body)"
  have "(?t @ body)[9 := ?c] = ?t[9 := ?c] @ body" using assms by (simp add: list_update_append)
  then show ?thesis using assms by (intro exI [of _ "?t[9 := ?c]"]) (simp add: encode_sdt_def Let_def)
qed

lemma get_s5obj_found:
  fixes s :: "'a fadt_scheme"
  assumes tab: "dsdt_ptr s = h" "h \<noteq> 0"
    and h: "holds (kmem s) h (encode_sdt [68, 83, 68, 84] (rest @ D))" "length rest = 26" "unat h + 36 + length D \<le> 2 ^ 32"
    and i: "i + 4 \<le> length D" "take 4 (drop i D) = s5_name" and f: "\<And>j. j < i \<Longrightarrow> take 4 (drop j D) \<noteq> s5_name"
  shows "acpi_dsdt_get_s5obj s = Some (h + 36 + of_nat i, s)" "holds (kmem s) (h + 36) D"
proof -
  let ?t = "encode_sdt [68, 83, 68, 84] (rest @ D)"
  have "36 + length D < 2 ^ 32" using h(3) tab(2) unat_gt_0 [of h] by simp
  then have "unat (of_nat (36 + length D) :: u32) = 36 + length D" using unat_of_nat_small [of "36 + length D", where ?'a = 32] by simp
  then have len: "unat (sdt_length (kmem s) h) = 36 + length D" and sig: "obj (kmem s) h 4 = [68, 83, 68, 84]"
    using encode_sdt_fields [OF h(1)] h(2) by simp_all
  have "length ?t = 36 + length D" using h(2) by (simp add: length_encode_sdt)
  then have sum: "sdt_checksum_ok (kmem s) h"
    using holds_obj [OF h(1)] encode_sdt_sum [of "[68, 83, 68, 84]" "rest @ D"] len by (simp add: sdt_checksum_sum)
  obtain t where t: "length t = 10" "?t = t @ rest @ D" using encode_sdt_body [of "[68, 83, 68, 84]" "rest @ D"] by auto
  show D: "holds (kmem s) (h + 36) D"
    by (rule holds_at [of _ h "t @ rest"]) (use h(1,2) t in simp_all)
  have "strnstr (obj (kmem s) (h + 36) (unat (sdt_length (kmem s) h))) (s5_name @ [0]) (sdt_length (kmem s) h) = Some (Ptr i)"
    by (rule search_table [OF D i f]) (simp_all add: len)
  moreover have "unat (4 :: u32) = Suc (Suc (Suc (Suc 0)))" by simp
  then have "strncmp [68, 83, 68, 84] [68, 83, 68, 84, 0] 4 = Some 0" unfolding strncmp_def by (simp only:) simp
  ultimately show "acpi_dsdt_get_s5obj s = Some (h + 36 + of_nat i, s)"
    using sum sig tab by (simp add: acpi_dsdt_get_s5obj_def acpi_get_dsdt_def s5_name_def Let_def)
qed

lemma s5_types_read:
  assumes h: "holds m (p + 5) (pkg @ [4] @ byte_const a @ byte_const b)" and pkg: "pkg \<noteq> []"
    "of_nat (length pkg) = ucast (drop_bit 6 (hd pkg AND 0xC0)) + (1 :: u32)"
  shows "s5_types m p = (a, b)"
proof -
  have hd: "m (p + 5) = hd pkg" using h pkg(1) by (cases pkg) (auto simp: holds_Cons)
  define t where "t = p + 5 + (ucast (drop_bit 6 (m (p + 5) AND 0xC0)) + 2)"
  have "t = p + 5 + of_nat (length pkg) + 1" unfolding t_def hd pkg(2) by simp
  then have ab: "holds m t (byte_const a)" "holds m (t + of_nat (length (byte_const a))) (byte_const b)"
    using h by (simp_all add: holds_append holds_Cons add.assoc)
  note A = skip_byteprefix_const [OF ab(1)]
  have "m (skip_byteprefix m (skip_byteprefix m t + 1)) = b" unfolding A(2) by (rule skip_byteprefix_const(1) [OF ab(2)])
  then show ?thesis unfolding s5_types_def Let_def t_def [symmetric] using A(1) by simp
qed

section \<open>Properties\<close>

text \<open>
  Switching off finds the object for soft off and then forgets its contents. Take a description table with a right check sum that holds the object,
  with or without the root prefix, with a package length of any number of bytes and any two sleep types \<open>a\<close> and \<open>b\<close>. Then \<open>shutdown\<close> returns after
  exactly one port access, which writes the bit that starts the transition and no sleep type to the first control block, whatever \<open>a\<close> and \<open>b\<close>
  are: the types are shifted by ten bits in variables of eight. Nothing else of the state changes.
\<close>

theorem shutdown_loses_sleep_type:
  fixes s :: "'a fadt_scheme"
  assumes tab: "fadt_ptr s \<noteq> 0" "dsdt_ptr s = h" "h \<noteq> 0"
    and h: "holds (kmem s) h (encode_sdt [68, 83, 68, 84] (rest @ pre @ encode_s5 esc pkg a b @ post))" "length rest = 26"
      "unat h + 36 + length (pre @ encode_s5 esc pkg a b @ post) \<le> 2 ^ 32"
    and pkg: "pkg \<noteq> []" "of_nat (length pkg) = ucast (drop_bit 6 (hd pkg AND 0xC0)) + (1 :: u32)"
    and first: "\<And>j. j < length pre + (if esc then 2 else 1) \<Longrightarrow> take 4 (drop j (pre @ encode_s5 esc pkg a b @ post)) \<noteq> s5_name"
  shows "acpi_dsdt_get_s5obj s = Some (h + 36 + of_nat (length pre + (if esc then 2 else 1)), s) \<and>
     s5_types (kmem s) (h + 36 + of_nat (length pre + (if esc then 2 else 1))) = (a, b) \<and>
     shutdown s = Some (s\<lparr>io_ports := outw (ucast (PM1aControlBlock (kmem s) (fadt_ptr s))) 0x2000 (io_ports s)\<rparr>)"
proof -
  let ?m = "kmem s" and ?i = "length pre + (if esc then 2 else 1)" and ?D = "pre @ encode_s5 esc pkg a b @ post"
  let ?p = "h + 36 + of_nat ?i"
  have i: "?i + 4 \<le> length ?D" "take 4 (drop ?i ?D) = s5_name" by (auto simp: encode_s5_def s5_name_def)
  have s5: "acpi_dsdt_get_s5obj s = Some (?p, s)" "holds ?m (h + 36) ?D"
    using get_s5obj_found [OF tab(2,3) h i first] by simp_all
  have "unat (h + of_nat (36 + ?i)) = unat h + (36 + ?i)" using h(3) i(1) by (intro obj_addr) auto
  then have p0: "?p \<noteq> 0" using unat_gt_0 [of ?p] by (auto simp: add.assoc)
  have at: "holds ?m (h + 36 + of_nat (length pre)) (encode_s5 esc pkg a b)"
    using s5(2) by (auto simp: holds_append)
  define q where "q = h + 36 + of_nat (length pre)"
  have p: "?p = q + (if esc then 2 else 1)" by (simp add: q_def)
  have mk: "?m (?p - 1) = 0x08 \<or> ?m (?p - 2) = 0x08 \<and> ?m (?p - 1) = 0x5C" "?m (?p + 4) = 0x12"
    and tl: "holds ?m (?p + 5) (pkg @ [4] @ byte_const a @ byte_const b)"
    using at [folded q_def] unfolding p by (auto simp: encode_s5_def holds_Cons holds_append add.assoc add.commute [of 1 q] split: if_splits)
  have "s5_types ?m ?p = (a, b)" by (rule s5_types_read [OF tl pkg])
  then show ?thesis
    using s5(1) p0 mk acpi_get_fadt_cached [OF tab(1)] by (simp add: shutdown_def Let_def)
qed

lemma reboot_wait_polls:
  assumes "g AND 2 \<noteq> 0" and "\<And>j. j < k \<Longrightarrow> (ucast (dev (polled dev 0x64 j (port_log s)) 0x64) :: u8) AND 2 \<noteq> 0"
    and "(ucast (dev (polled dev 0x64 k (port_log s)) 0x64) :: u8) AND 2 = 0"
  shows "reboot_wait dev g s = Some (s\<lparr>port_log := polled dev 0x64 (Suc k) (port_log s)\<rparr>)"
  using assms
proof (induction k arbitrary: g s)
  case 0
  let ?v = "ucast (dev (port_log s) 0x64) :: u8"
  have "reboot_wait dev g s = reboot_wait dev ?v (s\<lparr>port_log := port_log s @ [In 0x64 ?v]\<rparr>)"
    using 0(1) by (subst reboot_wait.simps) (simp add: inb_def Let_def)
  then show ?case using 0(3) by (simp add: reboot_wait.simps [of dev ?v])
next
  case (Suc k)
  let ?v = "ucast (dev (port_log s) 0x64) :: u8"
  let ?s = "s\<lparr>port_log := port_log s @ [In 0x64 ?v]\<rparr>"
  have "reboot_wait dev g s = reboot_wait dev ?v ?s" using Suc.prems(1) by (subst reboot_wait.simps) (simp add: inb_def Let_def)
  also have "\<dots> = Some (?s\<lparr>port_log := polled dev 0x64 (Suc k) (port_log ?s)\<rparr>)"
    using Suc.prems(2) [of 0] Suc.prems(2) [of "Suc _"] Suc.prems(3) by (intro Suc.IH) simp_all
  finally show ?case by simp
qed

text \<open>
  A restart waits for the keyboard controller and then pulses its reset line: when the controller's input buffer is first empty at the poll with
  number \<open>k\<close>, \<open>reboot\<close> reads the status \<open>k + 1\<close> times and then writes the one byte that resets the machine.
\<close>

theorem reboot_pulses_reset:
  assumes busy: "\<And>j. j < k \<Longrightarrow> (ucast (dev (polled dev 0x64 j (port_log s)) 0x64) :: u8) AND 2 \<noteq> 0"
    and free: "(ucast (dev (polled dev 0x64 k (port_log s)) 0x64) :: u8) AND 2 = 0"
  shows "\<exists>s'. reboot dev s = Some s' \<and> port_log s' = polled dev 0x64 (Suc k) (port_log s) @ [Out 0x64 0xFE]"
  using reboot_wait_polls [of 2 k dev s] assms by (simp add: reboot_def)

section \<open>Samples\<close>

text \<open>A description table at \<open>0x1000\<close> with the sleep types 5 and 0, and a fixed table at \<open>0x5000\<close> whose first control block is at port \<open>0x604\<close>.\<close>

definition sample_dsdt :: bytes where
  "sample_dsdt = encode_sdt [68, 83, 68, 84] (replicate 26 0 @ [] @ encode_s5 False [6] 5 0 @ [])"

definition sample_fadt :: fadt where
  "sample_fadt = acpi.extend (sample_acpi\<lparr>kmem := (\<lambda>x. if x = 0x5040 then 4 else if x = 0x5041 then 6 else if x < 0x1000 \<or> 0x102e < x then 0
       else sample_dsdt ! unat (x - 0x1000))\<rparr>) (fadt.fields 0x5000 0x1000 \<lparr>port_log = []\<rparr>)"

theorem shutdown_loses_sleep_type_witness:
  "\<exists>s' :: fadt. shutdown sample_fadt = Some s' \<and> port_log (io_ports s') = [Outw 0x604 0x2000] \<and> s5_types (kmem sample_fadt) 0x1025 = (5, 0)"
proof -
  have len: "length sample_dsdt = 47" by (simp add: sample_dsdt_def length_encode_sdt encode_s5_def byte_const_def)
  have f: "fadt_ptr sample_fadt \<noteq> 0" "dsdt_ptr sample_fadt = 0x1000" "(0x1000 :: u32) \<noteq> 0" "fadt_ptr sample_fadt = 0x5000"
      "port_log (io_ports sample_fadt) = []"
    by (simp_all add: sample_fadt_def acpi.defs fadt.defs)
  have km: "kmem sample_fadt = (\<lambda>x. if x = 0x5040 then 4 else if x = 0x5041 then 6 else if x < 0x1000 \<or> 0x102e < x then 0
       else sample_dsdt ! unat (x - 0x1000))" by (simp add: sample_fadt_def acpi.defs)
  have h: "holds (kmem sample_fadt) 0x1000 (encode_sdt [68, 83, 68, 84] (replicate 26 0 @ [] @ encode_s5 False [6] 5 0 @ []))"
    unfolding sample_dsdt_def [symmetric] holds_def len
  proof (intro allI impI)
    fix i :: nat assume i: "i < 47"
    then have u: "unat (0x1000 + of_nat i :: u32) = 0x1000 + i" using obj_addr [of "0x1000" 47 i] by simp
    then have "(0x1000 + of_nat i :: u32) \<noteq> 0x5040 \<and> (0x1000 + of_nat i :: u32) \<noteq> 0x5041 \<and> \<not> (0x1000 + of_nat i :: u32) < 0x1000 \<and> \<not> 0x102e < (0x1000 + of_nat i :: u32)"
      using i by (auto simp: word_less_nat_alt dest: arg_cong [of _ _ unat])
    then show "kmem sample_fadt (0x1000 + of_nat i) = sample_dsdt ! i" using i by (simp add: km unat_of_nat_small)
  qed
  have pk: "of_nat (length [6 :: u8]) = ucast (drop_bit 6 (hd [6 :: u8] AND 0xC0)) + (1 :: u32)" by simp
  have sz: "unat (0x1000 :: u32) + 36 + length ([] @ encode_s5 False [6] 5 0 @ []) \<le> 2 ^ 32" by (simp add: encode_s5_def byte_const_def)
  have fst: "take 4 (drop j ([] @ encode_s5 False [6] 5 0 @ [])) \<noteq> s5_name" if "j < length ([] :: bytes) + (if False then 2 else 1)" for j
    using that by (simp add: encode_s5_def s5_name_def)
  have pm: "ucast (PM1aControlBlock (kmem sample_fadt) 0x5000) = (0x604 :: u16)" by (simp add: PM1aControlBlock_def km load32_def)
  from shutdown_loses_sleep_type [OF f(1,2,3) h _ sz _ pk fst] show ?thesis using f(4,5) pm by simp
qed

theorem reboot_pulses_reset_witness:
  "\<exists>s'. reboot (\<lambda>l p. if length l < 2 then 2 else 0) \<lparr>port_log = []\<rparr> = Some s' \<and> port_log s' = [In 0x64 2, In 0x64 2, In 0x64 0, Out 0x64 0xFE]"
proof -
  let ?dev = "\<lambda>l (p :: u16). if length l < 2 then 2 else 0 :: u16" and ?s = "\<lparr>port_log = []\<rparr>"
  have busy: "(ucast (?dev (polled ?dev 0x64 j (port_log ?s)) 0x64) :: u8) AND 2 \<noteq> 0" if "j < Suc (Suc 0)" for j
    using that by (cases j) (auto simp: less_Suc_eq)
  have free: "(ucast (?dev (polled ?dev 0x64 (Suc (Suc 0)) (port_log ?s)) 0x64) :: u8) AND 2 = 0" by simp
  show ?thesis using reboot_pulses_reset [of "Suc (Suc 0)" ?dev ?s, OF busy free] by simp
qed

end
