(* ===== verification/Vga.thy ===== *)
theory Vga
  imports Objects Ports
begin

text \<open>
  \<^verbatim>\<open>kernel/drivers/vga_legacy_textmode.c\<close>: the text screen of 80 columns and 24 lines. A cell is a character and an attribute, two
  bytes of the byte memory from address \<open>0xB8000\<close>; the cursor is moved through the ports, whose accesses are a log.
\<close>

section \<open>The code\<close>

record vga = ports +
  vga_mem :: mem

definition FB_COMMAND_PORT :: u16 where "FB_COMMAND_PORT = 0x3d4"
definition FB_DATA_PORT :: u16 where "FB_DATA_PORT = 0x3d5"
definition FB_HIGH_BYTE_CMD :: u8 where "FB_HIGH_BYTE_CMD = 14"
definition FB_LOW_BYTE_CMD :: u8 where "FB_LOW_BYTE_CMD = 15"
definition FB_BLACK :: u8 where "FB_BLACK = 0x0"
definition FB_WHITE :: u8 where "FB_WHITE = 0xf"
definition FB_SCR_W :: u32 where "FB_SCR_W = 80"
definition FB_SCR_H :: u32 where "FB_SCR_H = 24"
definition FB_SCR_SIZE :: u32 where "FB_SCR_SIZE = FB_SCR_W * FB_SCR_H"
definition fb :: u32 where "fb = 0x000B8000"

definition write_cell :: "u32 \<Rightarrow> u8 \<Rightarrow> u8 \<Rightarrow> u8 \<Rightarrow> 'a vga_scheme \<Rightarrow> 'a vga_scheme" where
  "write_cell scrpos c fg bg s =
     s\<lparr>vga_mem := (vga_mem s)(fb + scrpos := c, fb + (scrpos + 1) := push_bit 4 (fg AND 0xf) OR (bg AND 0xf))\<rparr>"

definition move_cursor :: "u32 \<Rightarrow> 'a ports_scheme \<Rightarrow> 'a ports_scheme" where
  "move_cursor scrpos s =
     (let s = outb FB_COMMAND_PORT FB_HIGH_BYTE_CMD s;
          s = outb FB_DATA_PORT (ucast (drop_bit 8 scrpos AND 0x00ff)) s;
          s = outb FB_COMMAND_PORT FB_LOW_BYTE_CMD s
      in outb FB_DATA_PORT (ucast (scrpos AND 0x00ff)) s)"

definition scroll_down :: "u32 \<Rightarrow> 'a vga_scheme \<Rightarrow> 'a vga_scheme" where
  "scroll_down line_count s =
     (let line_count = (if line_count > FB_SCR_H then FB_SCR_H else line_count);
          size_buf = unat (FB_SCR_SIZE * 2);
          buf = obj (vga_mem s) (fb + (line_count * FB_SCR_W) * 2) size_buf
      in s\<lparr>vga_mem := write_bytes (vga_mem s) fb buf\<rparr>)"

definition write_chr :: "u8 \<Rightarrow> u32 \<Rightarrow> 'a vga_scheme \<Rightarrow> u32 \<times> 'a vga_scheme" where
  "write_chr c scrpos s =
     (let (scrpos, s) = (if scrpos + 1 > FB_SCR_SIZE then (scrpos - FB_SCR_W, scroll_down 1 s) else (scrpos, s))
      in (scrpos + 1, write_cell (scrpos * 2) c FB_BLACK FB_WHITE s))"

definition write_str :: "bytes \<Rightarrow> u32 \<Rightarrow> u32 \<Rightarrow> 'a vga_scheme \<Rightarrow> (u32 \<times> 'a vga_scheme) option" where
  "write_str str scrpos len s =
     (let (scrpos, s) =
        (if scrpos + len > FB_SCR_SIZE
         then let lines_to_scroll = (scrpos + len - FB_SCR_SIZE) div FB_SCR_W + 1; s = scroll_down lines_to_scroll s;
                  scrpos = scrpos - lines_to_scroll * FB_SCR_W
              in (scrpos, write_cell (scrpos * 2) 120 FB_BLACK FB_WHITE s)
         else (scrpos, s))
      in do { (_, s) \<leftarrow> forM [0..<unat len] (\<lambda>i (cur_pos, s).
                 do { c \<leftarrow> arr_get str i; Some (cur_pos + 2, write_cell cur_pos c FB_BLACK FB_WHITE s) }) (scrpos * 2, s);
              Some (scrpos + len, s) })"

fun write_cstr_loop :: "bytes \<Rightarrow> u32 \<Rightarrow> 'a vga_scheme \<Rightarrow> 'a vga_scheme option" where
  "write_cstr_loop [] cur_pos s = None"
| "write_cstr_loop (c # str) cur_pos s =
     (if c \<noteq> 0 then write_cstr_loop str (cur_pos + 2) (write_cell cur_pos c FB_BLACK FB_WHITE s) else Some s)"

definition write_cstr :: "bytes \<Rightarrow> u32 \<Rightarrow> 'a vga_scheme \<Rightarrow> 'a vga_scheme option" where
  "write_cstr str scrpos s = write_cstr_loop str (scrpos * 2) s"

definition fb_get_scr_w :: u32 where "fb_get_scr_w = FB_SCR_W"
definition fb_get_scr_h :: u32 where "fb_get_scr_h = FB_SCR_H"

text \<open>The loop runs over the even numbers below the number of cells.\<close>

definition clr_screen :: "u8 \<Rightarrow> 'a vga_scheme \<Rightarrow> 'a vga_scheme" where
  "clr_screen bg s = fold (\<lambda>i. write_cell (2 * of_nat i) 0 bg bg) [0..<(unat (FB_SCR_W * FB_SCR_H) + 1) div 2] s"

section \<open>Cells\<close>

definition cell :: "'a vga_scheme \<Rightarrow> nat \<Rightarrow> u8 \<times> u8" where
  "cell s i = (vga_mem s (fb + of_nat (2 * i)), vga_mem s (fb + of_nat (2 * i + 1)))"

lemmas vga_consts = FB_BLACK_def FB_WHITE_def FB_SCR_W_def FB_SCR_H_def FB_SCR_SIZE_def

lemma fb_addr: "i < 8000 \<Longrightarrow> unat (fb + of_nat i) = unat fb + i"
  by (intro obj_addr) (simp_all add: fb_def)

lemma fb_addr_eq: "i < 8000 \<Longrightarrow> j < 8000 \<Longrightarrow> fb + of_nat i = fb + of_nat j \<longleftrightarrow> i = j"
  using fb_addr [of i] fb_addr [of j] by (metis add_left_cancel)

lemma cell_write_cell:
  assumes "i < 2000" "j < 2000"
  shows "cell (write_cell (of_nat (2 * i)) c fg bg s) j = (if j = i then (c, push_bit 4 (fg AND 0xf) OR (bg AND 0xf)) else cell s j)"
proof -
  let ?a = "push_bit 4 (fg AND 0xf) OR (bg AND 0xf)"
  have m: "vga_mem (write_cell (of_nat (2 * i)) c fg bg s) = (vga_mem s)(fb + of_nat (2 * i) := c, fb + of_nat (2 * i + 1) := ?a)"
    by (simp add: write_cell_def add.commute)
  have "fb + of_nat (2 * j) = fb + of_nat (2 * i) \<longleftrightarrow> j = i" "fb + of_nat (2 * j) \<noteq> fb + of_nat (2 * i + 1)"
      "fb + of_nat (2 * j + 1) \<noteq> fb + of_nat (2 * i)" "fb + of_nat (2 * j + 1) = fb + of_nat (2 * i + 1) \<longleftrightarrow> j = i"
    using assms fb_addr_eq [of "2 * j" "2 * i"] fb_addr_eq [of "2 * j" "2 * i + 1"] fb_addr_eq [of "2 * j + 1" "2 * i"]
      fb_addr_eq [of "2 * j + 1" "2 * i + 1"] by (auto simp del: of_nat_mult of_nat_add)
  then show ?thesis unfolding cell_def m by (simp del: of_nat_mult of_nat_add)
qed

lemma cell_scroll_down:
  assumes "unat n \<le> 24" "j < 1920"
  shows "cell (scroll_down n s) j = cell s (j + 80 * unat n)"
proof -
  let ?buf = "obj (vga_mem s) (fb + n * 160) 3840"
  have n: "\<not> n > FB_SCR_H" using assms(1) by (simp add: FB_SCR_H_def word_less_nat_alt)
  have m: "vga_mem (scroll_down n s) = write_bytes (vga_mem s) fb ?buf" using n by (simp add: scroll_down_def Let_def vga_consts mult.commute)
  have rd: "write_bytes (vga_mem s) fb ?buf (fb + of_nat k) = vga_mem s (fb + of_nat (k + 160 * unat n))" if "k < 3840" for k
  proof -
    have "write_bytes (vga_mem s) fb ?buf (fb + of_nat k) = ?buf ! k" using that by (intro write_bytes_inside) (simp_all add: fb_def)
    also have "\<dots> = vga_mem s (fb + n * 160 + of_nat k)" using that by (rule obj_nth)
    finally show ?thesis by (simp add: ac_simps)
  qed
  show ?thesis unfolding cell_def m using rd [of "2 * j"] rd [of "2 * j + 1"] assms(2) by (simp add: ac_simps)
qed

text \<open>Writing characters one behind the other fills the cells from a position on.\<close>

definition shown :: "bytes \<Rightarrow> nat \<Rightarrow> 'a vga_scheme \<Rightarrow> nat \<Rightarrow> u32 \<times> 'a vga_scheme \<Rightarrow> bool" where
  "shown str p s0 k = (\<lambda>(cur, s). cur = of_nat (2 * (p + k)) \<and> port_log s = port_log s0 \<and>
     (\<forall>j<2000. cell s j = (if p \<le> j \<and> j < p + k then (str ! (j - p), 0x0F) else cell s0 j)))"

lemma shown_step:
  assumes "shown str p s0 k (cur, s)" "p + k < 2000"
  shows "shown str p s0 (Suc k) (cur + 2, write_cell cur (str ! k) FB_BLACK FB_WHITE s)"
proof -
  have cur: "cur = of_nat (2 * (p + k))" using assms(1) by (simp add: shown_def)
  have "cell (write_cell cur (str ! k) FB_BLACK FB_WHITE s) j = (if j = p + k then (str ! k, 0x0F) else cell s j)" if "j < 2000" for j
    unfolding cur using cell_write_cell [OF assms(2) that, of "str ! k" FB_BLACK FB_WHITE s] by (auto simp: vga_consts)
  then show ?thesis
    using assms by (auto simp: shown_def write_cell_def cur less_Suc_eq_le le_Suc_eq)
qed

lemma write_str_loop:
  assumes "n \<le> length str" "p + n \<le> 2000"
  shows "\<exists>st. forM [0..<n] (\<lambda>i (cur_pos, s). do { c \<leftarrow> arr_get str i; Some (cur_pos + 2, write_cell cur_pos c FB_BLACK FB_WHITE s) })
     (of_nat (2 * p), s) = Some st \<and> shown str p s n st"
proof (rule forM_invariant)
  show "shown str p s 0 (of_nat (2 * p), s)" by (auto simp: shown_def)
  fix i and st :: "u32 \<times> 'a vga_scheme" assume i: "0 \<le> i" "i < n" and I: "shown str p s i st"
  obtain cur t where st: "st = (cur, t)" by (cases st)
  show "\<exists>st'. (case st of (cur_pos, s) \<Rightarrow> do { c \<leftarrow> arr_get str i; Some (cur_pos + 2, write_cell cur_pos c FB_BLACK FB_WHITE s) }) = Some st' \<and>
      shown str p s (Suc i) st'"
    using shown_step [OF I [unfolded st]] i assms by (simp add: st)
qed simp

section \<open>Properties\<close>

text \<open>
  Text appears on the screen: for a position on the screen and a text of at most 23 lines, \<open>write_str\<close> returns; it first scrolls by the least number of
  lines for which more than the text fits behind it, and then the characters stand in white on black right before the new
  position, which is still on the screen, with the scrolled old text in front of them. No port is written.
\<close>

theorem write_str_shows_text:
  fixes s :: "'a vga_scheme"
  assumes pos: "unat scrpos \<le> 1920" and len: "unat len \<le> 1840" "unat len \<le> length str"
  shows "\<exists>pos' s' k. write_str str scrpos len s = Some (pos', s') \<and> port_log s' = port_log s \<and>
     k = (if unat scrpos + unat len > 1920 then (unat scrpos + unat len - 1920) div 80 + 1 else 0) \<and>
     unat pos' + 80 * k = unat scrpos + unat len \<and> unat pos' \<le> 1920 \<and> unat len \<le> unat pos' \<and>
     (\<forall>i<unat len. cell s' (unat pos' - unat len + i) = (str ! i, 0x0F)) \<and>
     (\<forall>i<unat pos' - unat len. cell s' i = cell s (i + 80 * k))"
proof -
  let ?p = "unat scrpos" and ?n = "unat len"
  define k where "k = (if ?p + ?n > 1920 then (?p + ?n - 1920) div 80 + 1 else 0)"
  have k: "80 * k \<le> ?p" "?p + ?n \<le> 1920 + 80 * k" "k \<le> 24" using pos len(1) unfolding k_def by (auto split: if_splits)
  have sum: "unat (scrpos + len) = ?p + ?n" using unat_add_less [of scrpos len] pos len(1) by simp
  have over: "scrpos + len > FB_SCR_SIZE \<longleftrightarrow> 1920 < ?p + ?n" by (simp add: vga_consts word_less_nat_alt sum)
  define s1 where "s1 = (if 1920 < ?p + ?n then write_cell (of_nat (2 * (?p - 80 * k))) 120 FB_BLACK FB_WHITE (scroll_down (of_nat k) s) else s)"
  have start: "(if scrpos + len > FB_SCR_SIZE
         then let lines_to_scroll = (scrpos + len - FB_SCR_SIZE) div FB_SCR_W + 1; s = scroll_down lines_to_scroll s; scrpos = scrpos - lines_to_scroll * FB_SCR_W
              in (scrpos, write_cell (scrpos * 2) 120 FB_BLACK FB_WHITE s)
         else (scrpos, s)) = (of_nat (?p - 80 * k), s1)"
  proof (cases "1920 < ?p + ?n")
    case True
    have "unat (scrpos + len - FB_SCR_SIZE) = ?p + ?n - 1920" using True sum by (subst unat_sub) (auto simp: vga_consts word_le_nat_alt)
    then have "(scrpos + len - FB_SCR_SIZE) div FB_SCR_W + 1 = of_nat k" using True by (simp add: k_def vga_consts word_arith_nat_div)
    then show ?thesis using True over k(1) by (simp add: Let_def s1_def FB_SCR_W_def of_nat_diff algebra_simps)
  qed (use over in \<open>simp add: s1_def k_def\<close>)
  have log1: "port_log s1 = port_log s" by (simp add: s1_def write_cell_def scroll_down_def Let_def)
  have old1: "cell s1 i = cell s (i + 80 * k)" if i: "i < ?p - 80 * k" for i
  proof (cases "1920 < ?p + ?n")
    case True
    have "cell s1 i = cell (scroll_down (of_nat k) s) i"
      unfolding s1_def if_P [OF True] by (subst cell_write_cell) (use i pos in auto)
    also have "\<dots> = cell s (i + 80 * k)" using cell_scroll_down [of "of_nat k" i s] k(3) i pos by (simp add: unat_of_nat_small)
    finally show ?thesis .
  qed (simp add: s1_def k_def)
  obtain cur s' where l: "forM [0..<?n] (\<lambda>i (cur_pos, s). do { c \<leftarrow> arr_get str i; Some (cur_pos + 2, write_cell cur_pos c FB_BLACK FB_WHITE s) })
      (of_nat (2 * (?p - 80 * k)), s1) = Some (cur, s')" "shown str (?p - 80 * k) s1 ?n (cur, s')"
    using write_str_loop [OF len(2), of "?p - 80 * k" s1] k(1,2) by fastforce
  define pos' :: u32 where "pos' = of_nat (?p - 80 * k) + len"
  have w: "write_str str scrpos len s = Some (pos', s')" unfolding write_str_def start using l(1) by (simp add: pos'_def mult.commute)
  have "unat (of_nat (?p - 80 * k) :: u32) = ?p - 80 * k" using unat_less_32 [of scrpos] by (intro unat_of_nat_small) simp
  then have u: "unat pos' = ?p - 80 * k + ?n" unfolding pos'_def
    using unat_add_less [of "of_nat (?p - 80 * k)" len] k pos len(1) by (simp del: of_nat_diff)
  show ?thesis using w l(2) log1 old1 u k by (intro exI [of _ pos'] exI [of _ s'] exI [of _ k]) (auto simp: shown_def k_def [symmetric])
qed


text \<open>
  Clearing the screen clears half of it: \<open>clr_screen\<close> counts cells but moves by bytes, so that exactly the first 960 of the 1920 cells are
  cleared and every other cell keeps its character.
\<close>

theorem clr_screen_clears_half:
  assumes "j < 1920"
  shows "cell (clr_screen bg s) j = (if j < 960 then (0, push_bit 4 (bg AND 0xf) OR (bg AND 0xf)) else cell s j)"
proof -
  define att where "att = push_bit 4 (bg AND 0xf) OR (bg AND 0xf)"
  have step: "cell (write_cell (2 * of_nat n) 0 bg bg t) j = (if j = n then (0, att) else cell t j)" if "n < 960" "j < 1920" for n j and t :: "'a vga_scheme"
    using cell_write_cell [of n j 0 bg bg t, folded att_def] that by simp
  have "\<forall>j<1920. cell (fold (\<lambda>i. write_cell (2 * of_nat i) 0 bg bg) [0..<n] s) j = (if j < n then (0, att) else cell s j)" if "n \<le> 960" for n
    using that
  proof (induction n)
    case (Suc n)
    then show ?case by (auto simp: less_Suc_eq step)
  qed simp
  from this [of 960] show ?thesis using assms unfolding att_def [symmetric] by (simp add: clr_screen_def vga_consts)
qed

section \<open>Samples\<close>

theorem write_str_shows_text_witness:
  "\<exists>pos' s'. write_str [79, 75] 1919 2 \<lparr>port_log = [], vga_mem = (\<lambda>_. 0)\<rparr> = Some (pos', s') \<and> unat pos' = 1841 \<and>
     cell s' 1839 = (79, 0x0F) \<and> cell s' 1840 = (75, 0x0F)"
proof -
  let ?s = "\<lparr>port_log = [], vga_mem = (\<lambda>_. 0)\<rparr>"
  obtain pos' s' where r: "write_str [79, 75] 1919 2 ?s = Some (pos', s')" "unat pos' + 80 = 1921"
      "\<forall>i<2. cell s' (unat pos' - 2 + i) = ([79, 75] ! i, 0x0F)"
    using write_str_shows_text [of 1919 2 "[79, 75]" ?s] by auto
  have "unat pos' = 1841" using r(2) by simp
  then show ?thesis using r(1) r(3) [rule_format, of 0] r(3) [rule_format, of 1] by simp
qed

theorem clr_screen_clears_half_witness:
  "cell (clr_screen 0xf \<lparr>port_log = [], vga_mem = (\<lambda>_. 7)\<rparr>) 959 = (0, 0xff) \<and> cell (clr_screen 0xf \<lparr>port_log = [], vga_mem = (\<lambda>_. 7)\<rparr>) 960 = (7, 7)"
  using clr_screen_clears_half [of 959 "0xf" "\<lparr>port_log = [], vga_mem = (\<lambda>_. 7)\<rparr>"] clr_screen_clears_half [of 960 "0xf" "\<lparr>port_log = [], vga_mem = (\<lambda>_. 7)\<rparr>"]
  by (simp add: cell_def)

end
