(* ===== verification/Timer.thy ===== *)
theory Timer
  imports Lapic
begin

text \<open>
  \<^verbatim>\<open>kernel/timer/timer.c\<close> and the two functions of \<^verbatim>\<open>kernel/tasks/smp.c\<close> it calls. The loops that wait read the tick counter that the
  interrupt advances: \<open>clock t k\<close> is the value that poll \<open>k\<close> of such a loop reads when the counter was \<open>t\<close> before, a parameter. Where a
  loop gives up the processor, \<open>resume k\<close> is what the other tasks do until the task runs again.
\<close>

section \<open>The code\<close>

record timer =
  timer_ticks :: u32
  freq :: u32
  cpuno :: u8

type_synonym clock = "u32 \<Rightarrow> nat \<Rightarrow> u32"

definition smp_get_cpu_count :: "MADT_info \<Rightarrow> u8" where
  "smp_get_cpu_count info = processor_count info"

definition smp_redirect_external_irq :: "MADT_info \<Rightarrow> u8 \<Rightarrow> u8 \<Rightarrow> 'i ioapic_scheme \<Rightarrow> 'a tasks_scheme \<Rightarrow>
    ((u32 \<times> u32) option \<times> 'i ioapic_scheme \<times> 'a tasks_scheme) option" where
  "smp_redirect_external_irq info irq dest_cpu io s =
     (let phys_irq = irq - ucast IRQ_REDIR_BASE in
      if ioapic_is_initialized io \<noteq> 0 then ioapic_redirect_external_int info phys_irq dest_cpu io s else Some (None, io, s))"

definition ISR_SYSTIME_BOOTSTRAP :: "'t timer_scheme \<Rightarrow> 't timer_scheme" where
  "ISR_SYSTIME_BOOTSTRAP t = t\<lparr>timer_ticks := timer_ticks t + 1\<rparr>"

definition ISR_SYSTIME_SCHED :: "MADT_info \<Rightarrow> 't timer_scheme \<Rightarrow> 'i ioapic_scheme \<Rightarrow> 'a tasks_scheme \<Rightarrow>
    ((u32 \<times> u32) option \<times> 't timer_scheme \<times> 'i ioapic_scheme \<times> 'a tasks_scheme) option" where
  "ISR_SYSTIME_SCHED info t io s =
     (let t = t\<lparr>timer_ticks := timer_ticks t + 1\<rparr>; t = t\<lparr>cpuno := cpuno t + 1\<rparr> in
      if smp_get_cpu_count info = 0 then None
      else let t = t\<lparr>cpuno := cpuno t mod smp_get_cpu_count info\<rparr> in
        do { dest_id \<leftarrow> arr_get (local_APIC_ids info) (unat (cpuno t));
             (sw, io, s) \<leftarrow> smp_redirect_external_irq info (ucast INT_SYSTIME) dest_id io s;
             if sw \<noteq> None then Some (sw, t, io, s)
             else do { (sw, s) \<leftarrow> task_isr_tick s; Some (sw, t, io, s) } })"

definition getticks :: "'t timer_scheme \<Rightarrow> u32" where
  "getticks t = timer_ticks t"

definition ticks_to_wait :: "u32 \<Rightarrow> 't timer_scheme \<Rightarrow> u32" where
  "ticks_to_wait ms t = (ms * freq t) div 1000"

text \<open>The loop \<^verbatim>\<open>while (_ticks < stop)\<close> from poll \<open>k\<close> on; the result is the poll that ends it.\<close>

partial_function (option) wait_ticks :: "(nat \<Rightarrow> u32) \<Rightarrow> u32 \<Rightarrow> nat \<Rightarrow> nat option" where
  "wait_ticks tick stop k = (if tick k < stop then wait_ticks tick stop (k + 1) else Some k)"

definition delay_rt :: "clock \<Rightarrow> u32 \<Rightarrow> 't timer_scheme \<Rightarrow> 'a tasks_scheme \<Rightarrow> ('t timer_scheme \<times> 'a tasks_scheme) option" where
  "delay_rt clock ms t s =
     do { curtask \<leftarrow> task_get_current s;
          s \<leftarrow> set_field F_interruptible curtask 0 s;
          let stop = timer_ticks t + ticks_to_wait ms t in
          do { k \<leftarrow> wait_ticks (clock (timer_ticks t)) stop 0;
               s \<leftarrow> set_field F_interruptible curtask 1 s;
               Some (t\<lparr>timer_ticks := clock (timer_ticks t) k\<rparr>, s) } }"

partial_function (option) yield_ticks :: "(nat \<Rightarrow> u32) \<Rightarrow> (nat \<Rightarrow> 'a tasks_scheme \<Rightarrow> 'a tasks_scheme) \<Rightarrow> u32 \<Rightarrow> nat \<Rightarrow> 'a tasks_scheme \<Rightarrow> (nat \<times> 'a tasks_scheme) option" where
  "yield_ticks tick resume stop k s =
     (if tick k < stop then do { (sw, s) \<leftarrow> task_yield s; yield_ticks tick resume stop (k + 1) (resume k s) } else Some (k, s))"

definition delay :: "clock \<Rightarrow> (nat \<Rightarrow> 'a tasks_scheme \<Rightarrow> 'a tasks_scheme) \<Rightarrow> u32 \<Rightarrow> 't timer_scheme \<Rightarrow> 'a tasks_scheme \<Rightarrow> ('t timer_scheme \<times> 'a tasks_scheme) option" where
  "delay clock resume ms t s =
     (let n = ticks_to_wait ms t; stop = timer_ticks t + n in
      do { (k, s) \<leftarrow> yield_ticks (clock (timer_ticks t)) resume stop 0 s;
           cur \<leftarrow> task_get_current s;
           sl \<leftarrow> tget F_sleep_avg cur (kmem s);
           s \<leftarrow> set_field F_sleep_avg cur (sl + n) s;
           Some (t\<lparr>timer_ticks := clock (timer_ticks t) k\<rparr>, s) })"

definition delay_bootstrap :: "clock \<Rightarrow> u32 \<Rightarrow> 't timer_scheme \<Rightarrow> 't timer_scheme option" where
  "delay_bootstrap clock ms t =
     do { k \<leftarrow> wait_ticks (clock (timer_ticks t)) (timer_ticks t + ticks_to_wait ms t) 0; Some (t\<lparr>timer_ticks := clock (timer_ticks t) k\<rparr>) }"

text \<open>The two functions differ in the handler they register; \<open>addr_of\<close> gives the addresses of the functions of the kernel.\<close>

definition timer_init :: "(string \<Rightarrow> u32) \<Rightarrow> string \<Rightarrow> MADT_info \<Rightarrow> u32 \<Rightarrow> 't timer_scheme \<Rightarrow> ('p, 'i, 'a) machine_state \<Rightarrow>
    (u32 \<times> 't timer_scheme \<times> ('p, 'i, 'a) machine_state) option" where
  "timer_init addr_of isr info f t = (\<lambda>(p, io, s).
     do { (sw, st) \<leftarrow> interrupt_register info INT_SYSTIME (addr_of isr) (pit_setfreq f p, io, s);
          Some (0, t\<lparr>freq := f\<rparr>, st) })"

definition timer_init_bootstrap :: "(string \<Rightarrow> u32) \<Rightarrow> MADT_info \<Rightarrow> u32 \<Rightarrow> 't timer_scheme \<Rightarrow> ('p, 'i, 'a) machine_state \<Rightarrow>
    (u32 \<times> 't timer_scheme \<times> ('p, 'i, 'a) machine_state) option" where
  "timer_init_bootstrap addr_of = timer_init addr_of ''ISR_SYSTIME_BOOTSTRAP''"

definition timer_init_sched :: "(string \<Rightarrow> u32) \<Rightarrow> MADT_info \<Rightarrow> u32 \<Rightarrow> 't timer_scheme \<Rightarrow> ('p, 'i, 'a) machine_state \<Rightarrow>
    (u32 \<times> 't timer_scheme \<times> ('p, 'i, 'a) machine_state) option" where
  "timer_init_sched addr_of = timer_init addr_of ''ISR_SYSTIME_SCHED''"

section \<open>Waiting\<close>

lemma wait_ticks_first:
  assumes "\<And>j. k \<le> j \<Longrightarrow> j < n \<Longrightarrow> tick j < stop" "\<not> tick n < stop" "k \<le> n"
  shows "wait_ticks tick stop k = Some n"
  using assms
proof (induction "n - k" arbitrary: k)
  case 0
  then have "k = n" by simp
  then show ?case using 0(3) by (subst wait_ticks.simps) simp
next
  case (Suc d)
  have "wait_ticks tick stop k = wait_ticks tick stop (Suc k)"
    using Suc.prems(1) [of k] Suc.hyps(2) by (subst wait_ticks.simps) simp
  also have "\<dots> = Some n" using Suc.hyps(2) Suc.prems by (intro Suc.hyps(1)) auto
  finally show ?case .
qed

lemma wait_ticks_least:
  assumes "\<not> tick n < stop"
  obtains m where "wait_ticks tick stop 0 = Some m" "\<not> tick m < stop" "\<And>j. j < m \<Longrightarrow> tick j < stop"
proof -
  let ?m = "LEAST m. \<not> tick m < stop"
  have "\<not> tick ?m < stop" using assms by (rule LeastI)
  moreover have "\<And>j. j < ?m \<Longrightarrow> tick j < stop" using not_less_Least by blast
  ultimately show thesis using that wait_ticks_first [of 0 ?m tick stop] by blast
qed

lemma stop_tick:
  assumes "unat ms * unat (freq t) < 2 ^ 32" "unat (timer_ticks t) + unat ms * unat (freq t) div 1000 < 2 ^ 32"
  shows "unat (timer_ticks t + ticks_to_wait ms t) = unat (timer_ticks t) + unat ms * unat (freq t) div 1000"
proof -
  have "unat (ticks_to_wait ms t) = unat ms * unat (freq t) div 1000"
    using unat_mult_less [of ms "freq t"] assms(1) by (simp add: ticks_to_wait_def unat_div)
  then show ?thesis using unat_add_less [of "timer_ticks t" "ticks_to_wait ms t"] assms(2) by simp
qed

section \<open>Properties\<close>

text \<open>
  C35. A delay lasts as long as it should and ends: when neither the product of time and frequency nor the tick at which to stop exceeds 32 bits
  and the clock reaches that tick, \<open>delay_bootstrap\<close> returns, and it returns at the first poll at which \<open>ms * freq / 1000\<close> ticks have
  passed, not before.
\<close>

theorem delay_waits_long_enough:
  fixes t :: "'t timer_scheme"
  assumes fit: "unat ms * unat (freq t) < 2 ^ 32" "unat (timer_ticks t) + unat ms * unat (freq t) div 1000 < 2 ^ 32"
    and reach: "unat (timer_ticks t) + unat ms * unat (freq t) div 1000 \<le> unat (clock (timer_ticks t) n)"
  shows "\<exists>k. delay_bootstrap clock ms t = Some (t\<lparr>timer_ticks := clock (timer_ticks t) k\<rparr>) \<and>
     unat (timer_ticks t) + unat ms * unat (freq t) div 1000 \<le> unat (clock (timer_ticks t) k) \<and>
     (\<forall>j<k. unat (clock (timer_ticks t) j) < unat (timer_ticks t) + unat ms * unat (freq t) div 1000)"
proof -
  let ?stop = "timer_ticks t + ticks_to_wait ms t"
  have u: "unat ?stop = unat (timer_ticks t) + unat ms * unat (freq t) div 1000" by (rule stop_tick [OF fit])
  have "\<not> clock (timer_ticks t) n < ?stop" using reach u by (simp add: word_less_nat_alt)
  then obtain m where m: "wait_ticks (clock (timer_ticks t)) ?stop 0 = Some m" "\<not> clock (timer_ticks t) m < ?stop" "\<And>j. j < m \<Longrightarrow> clock (timer_ticks t) j < ?stop"
    using wait_ticks_least by blast
  show ?thesis using m u by (intro exI [of _ m]) (auto simp: delay_bootstrap_def word_less_nat_alt)
qed

text \<open>
  Long delays are cut short: the product of time and frequency is taken in 32 bits, and a delay for which it is a multiple of \<open>2 ^ 32\<close> plus less than
  1000 returns at the first poll.
\<close>

theorem delay_overflow_returns_at_once:
  fixes t :: "'t timer_scheme"
  assumes "(unat ms * unat (freq t)) mod 2 ^ 32 < 1000" and "timer_ticks t \<le> clock (timer_ticks t) 0"
  shows "delay_bootstrap clock ms t = Some (t\<lparr>timer_ticks := clock (timer_ticks t) 0\<rparr>)"
proof -
  have "unat (ms * freq t) = (unat ms * unat (freq t)) mod 2 ^ 32" by (simp add: unat_word_ariths(2))
  then have "unat (ticks_to_wait ms t) = 0" using assms(1) by (simp add: ticks_to_wait_def unat_div)
  then have "ticks_to_wait ms t = 0" by (simp only: unat_eq_zero)
  then have "wait_ticks (clock (timer_ticks t)) (timer_ticks t + ticks_to_wait ms t) 0 = Some 0"
    using assms(2) by (subst wait_ticks.simps) (simp add: leD)
  then show ?thesis by (simp add: delay_bootstrap_def)
qed

text \<open>
  The timer interrupt goes round the processors: with a free I/O controller the handler counts the tick, sends the next timer interrupt to the next processor of the
  table, after the last one to the first, and then runs the scheduler's tick. The pin is that of interrupt 0 or its override.
\<close>

theorem timer_interrupt_goes_round:
  fixes t :: "'t timer_scheme" and s :: "'a tasks_scheme"
  assumes io: "ioapic_is_init io \<noteq> 0" "sem_free (ioapic_sem io)" and info: "length (irq_override info) = 24"
      "unat (processor_count info) \<le> length (local_APIC_ids info)" "cpuno t < processor_count info"
    and tick: "task_isr_tick s = Some (sw, s')"
    and c: "c = (unat (cpuno t) + 1) mod unat (processor_count info)" and pin: "pin = irq_override info ! 0"
  shows "\<exists>sm. ISR_SYSTIME_SCHED info t io s = Some (sw, t\<lparr>timer_ticks := timer_ticks t + 1, cpuno := of_nat c\<rparr>,
       io\<lparr>mmio_log := mmio_log io @ [Wr (ioapic_base io) (0x10 + ucast pin * 2), Wr (ioapic_base io + 0x10) 32,
            Wr (ioapic_base io) (0x10 + ucast pin * 2 + 1), Wr (ioapic_base io + 0x10) (push_bit 24 (ucast (local_APIC_ids info ! c)))],
          ioapic_sem := sm\<rparr>, s') \<and> sem_free sm \<and> (of_nat c :: u8) < processor_count info"
proof -
  let ?n = "processor_count info"
  have n0: "?n \<noteq> 0" using info(3) by auto
  have lt: "unat (cpuno t) < unat ?n" using info(3) by (simp add: word_less_nat_alt)
  have "unat (cpuno t + 1) = unat (cpuno t) + 1" using lt unat_less_8 [of ?n] unat_add_less [of "cpuno t" 1] by simp
  then have u: "unat ((cpuno t + 1) mod ?n) = c" by (simp add: unat_mod c)
  have w: "(cpuno t + 1) mod ?n = of_nat c" unfolding u [symmetric] by simp
  have cn: "c < unat ?n" using lt by (simp add: c)
  then have get: "arr_get (local_APIC_ids info) (unat (of_nat c :: u8)) = Some (local_APIC_ids info ! c)"
    using info(2) u unfolding w by simp
  have z: "(ucast INT_SYSTIME :: u8) - ucast IRQ_REDIR_BASE = 0" by (simp add: INT_SYSTIME_def IRQ_REDIR_BASE_def)
  obtain sm where sm: "ioapic_redirect_external_int info 0 (local_APIC_ids info ! c) io s = Some (None,
       io\<lparr>mmio_log := mmio_log io @ [Wr (ioapic_base io) (0x10 + ucast pin * 2), Wr (ioapic_base io + 0x10) 32,
            Wr (ioapic_base io) (0x10 + ucast pin * 2 + 1), Wr (ioapic_base io + 0x10) (push_bit 24 (ucast (local_APIC_ids info ! c)))],
          ioapic_sem := sm\<rparr>, s)" "sem_free sm"
    using ioapic_redirect_entry [OF io(2) _ info(1), of 0 pin "local_APIC_ids info ! c" s] pin by auto
  have "(of_nat c :: u8) < ?n" using cn u unfolding w by (simp add: word_less_nat_alt)
  then show ?thesis using sm io(1) tick get n0 w z
    by (intro exI [of _ sm]) (simp add: ISR_SYSTIME_SCHED_def smp_redirect_external_irq_def smp_get_cpu_count_def ioapic_is_initialized_def Let_def)
qed

section \<open>Samples\<close>

theorem delay_waits_long_enough_witness:
  "\<exists>k. delay_bootstrap (\<lambda>t k. t + of_nat k div 3) 10 \<lparr>timer_ticks = 5, freq = 1000, cpuno = 0\<rparr> = Some \<lparr>timer_ticks = 5 + of_nat k div 3, freq = 1000, cpuno = 0\<rparr> \<and>
     15 \<le> unat (5 + of_nat k div 3 :: u32)"
  using delay_waits_long_enough [of 10 "\<lparr>timer_ticks = 5, freq = 1000, cpuno = 0\<rparr>" "\<lambda>t k. t + of_nat k div 3" 30] by auto

theorem delay_overflow_returns_at_once_witness:
  "delay_bootstrap (\<lambda>t k. t + of_nat k) 4294968 \<lparr>timer_ticks = 5, freq = 1000, cpuno = 0\<rparr> = Some \<lparr>timer_ticks = 5, freq = 1000, cpuno = 0\<rparr>"
  using delay_overflow_returns_at_once [of 4294968 "\<lparr>timer_ticks = 5, freq = 1000, cpuno = 0\<rparr>" "\<lambda>t k. t + of_nat k"] by simp

definition sample_two_cpus :: MADT_info where
  "sample_two_cpus = madt_info0\<lparr>processor_count := 2, local_APIC_ids := [4, 6], irq_override := 2 # replicate 23 0\<rparr>"

theorem timer_interrupt_goes_round_witness:
  "\<exists>sw s' io. ISR_SYSTIME_SCHED sample_two_cpus \<lparr>timer_ticks = 5, freq = 1000, cpuno = 1\<rparr> sample_ioapic sample_tasks =
      Some (sw, \<lparr>timer_ticks = 6, freq = 1000, cpuno = 0\<rparr>, io, s') \<and>
     mmio_log io = [Wr 0xfec00000 0x14, Wr 0xfec00010 32, Wr 0xfec00000 0x15, Wr 0xfec00010 0x4000000]"
proof -
  have io: "ioapic_is_init sample_ioapic \<noteq> 0" "sem_free (ioapic_sem sample_ioapic)"
    by (simp_all add: sem_free_def sample_ioapic_def sem_init_def spinlock_init_def)
  have info: "length (irq_override sample_two_cpus) = 24" "unat (processor_count sample_two_cpus) \<le> length (local_APIC_ids sample_two_cpus)"
    "cpuno \<lparr>timer_ticks = 5, freq = 1000, cpuno = 1\<rparr> < processor_count sample_two_cpus" by (simp_all add: sample_two_cpus_def)
  obtain sw s' where "task_isr_tick sample_tasks = Some (sw, s')" using task_isr_tick_ok [OF sample_tasks_inv(1,2,5,6)] by auto
  from timer_interrupt_goes_round [OF io info this refl refl] show ?thesis
    by (auto simp: sample_two_cpus_def sample_ioapic_def push_bit_eq_mult)
qed

end
