(* ===== verification/Smp.thy ===== *)
theory Smp
  imports Timer Acpi
begin

text \<open>
  \<^verbatim>\<open>kernel/tasks/smp.c\<close>: the start of the other processors. What another processor does is a parameter: \<open>ap l\<close> says whether, after the messages and
  answers \<open>l\<close> of the local controller, it has run its start code and set the flag \<open>AP_STARTUP_SUCCESSFUL\<close>. The table of the processors is the
  argument \<open>info\<close>, and \<open>addr_of\<close> gives the addresses of the functions and variables of the kernel. Messages are left out.
\<close>

section \<open>The code\<close>

record smp = timer +
  AP_STARTUP_SUCCESSFUL :: u8

definition prepare_trampoline_params :: "(string \<Rightarrow> u32) \<Rightarrow> MADT_info \<Rightarrow> 'a paging_scheme \<Rightarrow> 'a paging_scheme" where
  "prepare_trampoline_params addr_of info s =
     (let (p, s) = kmalloc 4096 s;
          params = bytes32 (p + 4096) @ bytes32 (addr_of ''IDT'') @ bytes32 (get_kernel_pd s) @ bytes32 (local_apic_addr info)
      in s\<lparr>kmem := write_bytes (kmem s) (addr_of ''SMPBOOT_TRAMPOLINE_PARAMS'') params\<rparr>)"

text \<open>
  The flag as it is read behind a delay: \<open>ap\<close> says whether the other processor has run up to the store of \<^verbatim>\<open>trampoline.S\<close> by then. That store writes four bytes,
  1, 0, 0, 0, to the address of a variable of one byte; the three bytes behind the variable are not part of this model.
\<close>

definition ap_runs :: "(mmio list \<Rightarrow> bool) \<Rightarrow> 'i ioapic_scheme \<Rightarrow> 't smp_scheme \<Rightarrow> 't smp_scheme" where
  "ap_runs ap io t = (if ap (mmio_log io) then t\<lparr>AP_STARTUP_SUCCESSFUL := 1\<rparr> else t)"

definition start_AP :: "mmio_device \<Rightarrow> clock \<Rightarrow> (mmio list \<Rightarrow> bool) \<Rightarrow> (string \<Rightarrow> u32) \<Rightarrow> MADT_info \<Rightarrow> u32 \<Rightarrow> u8 \<Rightarrow>
    't smp_scheme \<times> 'i ioapic_scheme \<times> 'a paging_scheme \<Rightarrow> (int \<times> 't smp_scheme \<times> 'i ioapic_scheme \<times> 'a paging_scheme) option" where
  "start_AP dev clock ap addr_of info local_apic_base lapic_id = (\<lambda>(t, io, s).
     do { let s = prepare_trampoline_params addr_of info s in
     do { io \<leftarrow> lapic_send_init dev local_apic_base lapic_id io;
          t \<leftarrow> delay_bootstrap clock 10 t;
          io \<leftarrow> lapic_send_startup dev local_apic_base lapic_id (addr_of ''SMPBOOT_TRAMPOLINE_FUNC'') io;
          t \<leftarrow> delay_bootstrap clock 1 t;
          let t = ap_runs ap io t in
          if AP_STARTUP_SUCCESSFUL t \<noteq> 0 then Some (0, t\<lparr>AP_STARTUP_SUCCESSFUL := 0\<rparr>, io, s)
          else do { io \<leftarrow> lapic_send_startup dev local_apic_base lapic_id (addr_of ''SMPBOOT_TRAMPOLINE_FUNC'') io;
                    t \<leftarrow> delay_bootstrap clock 1000 t;
                    let t = ap_runs ap io t in
                    if AP_STARTUP_SUCCESSFUL t \<noteq> 0 then Some (0, t\<lparr>AP_STARTUP_SUCCESSFUL := 0\<rparr>, io, s) else Some (- 1, t, io, s) } } })"

definition start_APs :: "cpuid_answers \<Rightarrow> mmio_device \<Rightarrow> clock \<Rightarrow> (mmio list \<Rightarrow> bool) \<Rightarrow> (string \<Rightarrow> u32) \<Rightarrow> MADT_info \<Rightarrow>
    't smp_scheme \<times> ('p, 'i lapic_ext, 'a) machine_state \<Rightarrow> (int \<times> 't smp_scheme \<times> ('p, 'i lapic_ext, 'a) machine_state) option" where
  "start_APs cpu dev clock ap addr_of info = (\<lambda>(t, p, io, s).
     let base = local_apic_addr info in
     do { s \<leftarrow> paging_map_page base base (get_kernel_pd s) s;
          s \<leftarrow> pageframe_set_page_from_addr base 1 s;
          (_, p, io, s) \<leftarrow> lapic_init cpu dev addr_of info base (p, io, s);
          let s = s\<lparr>eflags := sti (eflags s)\<rparr> in
     do { (_, t, p, io, s) \<leftarrow> timer_init_bootstrap addr_of info 1000 t (p, io, s);
          (t, io, s) \<leftarrow> forM [0..<unat (processor_count info)] (\<lambda>i st.
             do { lapic_id \<leftarrow> arr_get (local_APIC_ids info) i;
                  if lapic_id \<noteq> 0 then do { (_, st) \<leftarrow> start_AP dev clock ap addr_of info base lapic_id st; Some st } else Some st }) (t, io, s);
          Some (0, t, p, io, s\<lparr>eflags := cli (eflags s)\<rparr>) } })"

definition init_io_apic :: "mmio_device \<Rightarrow> MADT_info \<Rightarrow> ('p, 'i, 'a) machine_state \<Rightarrow> (int \<times> ('p, 'i, 'a) machine_state) option" where
  "init_io_apic dev info = (\<lambda>(p, io, s).
     if io_apic_count info = 0 then Some (- 1, p, io, s)
     else let p = pic_uninit p in
          do { (io, s) \<leftarrow> forM [0..<unat (io_apic_count info)] (\<lambda>i (io, s).
                 do { a \<leftarrow> arr_get (io_apic_addrs info) i;
                      s \<leftarrow> paging_map_page a a (get_kernel_pd s) s;
                      s \<leftarrow> pageframe_set_page_from_addr a 1 s;
                      ioapic_init dev a io s }) (io, s);
               Some (0, p, io, s) })"

definition smp_get_cpu_id :: "mmio_device \<Rightarrow> MADT_info \<Rightarrow> 'i ioapic_scheme \<Rightarrow> u8 \<times> 'i ioapic_scheme" where
  "smp_get_cpu_id dev info io = lapic_get_id dev (local_apic_addr info) io"

definition smp_init :: "cpuid_answers \<Rightarrow> mmio_device \<Rightarrow> clock \<Rightarrow> (mmio list \<Rightarrow> bool) \<Rightarrow> (string \<Rightarrow> u32) \<Rightarrow> MADT_info \<Rightarrow>
    't smp_scheme \<times> ('p, 'i lapic_ext, 'a) machine_state \<Rightarrow> ('t smp_scheme \<times> ('p, 'i lapic_ext, 'a) machine_state) option" where
  "smp_init cpu dev clock ap addr_of info st =
     do { (_, t, st) \<leftarrow> start_APs cpu dev clock ap addr_of info st; (_, st) \<leftarrow> init_io_apic dev info st; Some (t, st) }"

section \<open>Messages\<close>

text \<open>The words written to the controller.\<close>

fun mmio_writes :: "mmio list \<Rightarrow> (u32 \<times> u32) list" where
  "mmio_writes [] = []"
| "mmio_writes (Wr a v # l) = (a, v) # mmio_writes l"
| "mmio_writes (Rd a v # l) = mmio_writes l"

lemma mmio_writes_append [simp]: "mmio_writes (l @ l') = mmio_writes l @ mmio_writes l'"
  by (induction l rule: mmio_writes.induct) auto

definition lapic_idle :: "mmio_device \<Rightarrow> u32 \<Rightarrow> bool" where
  "lapic_idle dev base \<longleftrightarrow> (\<forall>l. dev l (base + 0x300) AND 0x1000 = 0)"

definition init_message :: "u32 \<Rightarrow> u8 \<Rightarrow> (u32 \<times> u32) list" where
  "init_message base ident = [(base + 0x310, push_bit 24 (ucast ident)), (base + 0x300, 0x4500)]"

definition startup_message :: "u32 \<Rightarrow> u8 \<Rightarrow> u32 \<Rightarrow> (u32 \<times> u32) list" where
  "startup_message base ident vec = [(base + 0x310, push_bit 24 (ucast ident)), (base + 0x300, vec div 4096 OR 0x4600)]"

lemma lapic_messages:
  assumes "lapic_idle dev base"
  shows "\<exists>l. lapic_send_init dev base ident io = Some (io\<lparr>mmio_log := mmio_log io @ l\<rparr>) \<and> mmio_writes l = init_message base ident"
    and "\<exists>l. lapic_send_startup dev base ident vec io = Some (io\<lparr>mmio_log := mmio_log io @ l\<rparr>) \<and> mmio_writes l = startup_message base ident vec"
proof -
  have idle: "dev l (base + 0x300) AND 0x1000 = 0" for l using assms by (simp add: lapic_idle_def)
  show "\<exists>l. lapic_send_init dev base ident io = Some (io\<lparr>mmio_log := mmio_log io @ l\<rparr>) \<and> mmio_writes l = init_message base ident"
    by (simp add: lapic_send_init_def lapic_consts lapic_wait.simps mmio_write_def mmio_read_def Let_def LAPIC_ICRHI_def LAPIC_ICRLO_def
        ICR_DESTINATION_SHIFT_def ICR_SEND_PENDING_def idle init_message_def) (rule exI, rule conjI, rule refl, simp)
  show "\<exists>l. lapic_send_startup dev base ident vec io = Some (io\<lparr>mmio_log := mmio_log io @ l\<rparr>) \<and> mmio_writes l = startup_message base ident vec"
    by (simp add: lapic_send_startup_def lapic_consts lapic_wait.simps mmio_write_def mmio_read_def Let_def LAPIC_ICRHI_def LAPIC_ICRLO_def
        ICR_DESTINATION_SHIFT_def ICR_SEND_PENDING_def idle startup_message_def or.assoc) (rule exI, rule conjI, rule refl, simp)
qed

lemma delay_bootstrap_only: "delay_bootstrap clock ms t = Some t' \<Longrightarrow> \<exists>c. t' = t\<lparr>timer_ticks := c\<rparr>"
  by (auto simp: delay_bootstrap_def bind_eq_Some_conv)

lemma set_page_out_of_range:
  assumes "pf_wf s" "unat (pages_total_phys s) \<le> unat a div 4096"
  shows "pageframe_set_page_from_addr a 1 s = None"
proof -
  obtain bs where bs: "pageframe_bitmap s = Ptr bs" "8 * length bs = unat (pages_total_phys s)" using assms(1) by (auto simp: pf_wf_def)
  have u: "unat (a div 4096) = unat a div 4096" by (simp add: unat_div)
  have "a div 4096 < a div 4096 + 1"
    using unat_add_less [of "a div 4096" 1] unat_less_32 [of a] u by (simp add: word_less_nat_alt)
  moreover have "bitmap_set_bit (Ptr bs) (a div 4096) = None" using bs(2) assms(2) u by (simp add: bitmap_set_bit_def unat_div)
  ultimately show ?thesis
    by (simp add: pageframe_set_page_from_addr_def page_from_addr_def pageframe_alloc_set_pages_def bitmap_set_bits_def bs(1) bitmap_set_bits_loop.simps)
qed

section \<open>Properties\<close>

text \<open>
  C31. The start of a processor has the three outcomes it should have. With a controller that sends every message and a clock that runs, \<open>start_AP\<close> returns;
  it sends one reset message and one start message, and a second start message exactly when the processor has not answered the first. It
  returns 0 when the processor has answered and -1 otherwise, and the flag is clear for the next processor in both cases. Before the
  messages it puts the top of a fresh stack of 4096 bytes and the addresses of the tables in front of the start code.
\<close>

theorem start_AP_outcomes:
  fixes t :: "'t smp_scheme" and s :: "'a paging_scheme"
  assumes idle: "lapic_idle dev base" and runs: "\<And>ms (t :: 't smp_scheme). \<exists>t'. delay_bootstrap clock ms t = Some t'"
    and flag: "AP_STARTUP_SUCCESSFUL t = 0" and fit: "unat (addr_of ''SMPBOOT_TRAMPOLINE_PARAMS'') + 16 \<le> 2 ^ 32"
  shows "\<exists>r t' l1 l2 s'. start_AP dev clock ap addr_of info base ident (t, io, s) =
       Some (r, t', io\<lparr>mmio_log := mmio_log io @ l1 @ (if ap (mmio_log io @ l1) then [] else l2)\<rparr>, s') \<and>
     AP_STARTUP_SUCCESSFUL t' = 0 \<and>
     mmio_writes l1 = init_message base ident @ startup_message base ident (addr_of ''SMPBOOT_TRAMPOLINE_FUNC'') \<and>
     mmio_writes l2 = startup_message base ident (addr_of ''SMPBOOT_TRAMPOLINE_FUNC'') \<and>
     r = (if ap (mmio_log io @ l1) \<or> ap (mmio_log io @ l1 @ l2) then 0 else - 1) \<and>
     heap_cur s' = heap_cur s + 4096 \<and>
     obj (kmem s') (addr_of ''SMPBOOT_TRAMPOLINE_PARAMS'') 16 =
       bytes32 (heap_cur s + 4096) @ bytes32 (addr_of ''IDT'') @ bytes32 (kernel_page_directory s) @ bytes32 (local_apic_addr info)"
proof -
  let ?vec = "addr_of ''SMPBOOT_TRAMPOLINE_FUNC''"
  let ?s = "prepare_trampoline_params addr_of info s"
  let ?ps = "bytes32 (heap_cur s + 4096) @ bytes32 (addr_of ''IDT'') @ bytes32 (kernel_page_directory s) @ bytes32 (local_apic_addr info)"
  have s': "heap_cur ?s = heap_cur s + 4096" "kmem ?s = write_bytes (memset_mem (kmem s) (heap_cur s) 0 4096) (addr_of ''SMPBOOT_TRAMPOLINE_PARAMS'') ?ps"
    by (simp_all add: prepare_trampoline_params_def kmalloc_def get_kernel_pd_def Let_def)
  have params: "obj (kmem ?s) (addr_of ''SMPBOOT_TRAMPOLINE_PARAMS'') 16 = ?ps"
    using obj_write_bytes [of "addr_of ''SMPBOOT_TRAMPOLINE_PARAMS''" ?ps] fit unfolding s'(2) by simp
  obtain la where la: "lapic_send_init dev base ident io = Some (io\<lparr>mmio_log := mmio_log io @ la\<rparr>)" "mmio_writes la = init_message base ident"
    using lapic_messages(1) [OF idle] by blast
  obtain lb where lb: "lapic_send_startup dev base ident ?vec (io\<lparr>mmio_log := mmio_log io @ la\<rparr>) = Some (io\<lparr>mmio_log := mmio_log io @ la @ lb\<rparr>)"
      "mmio_writes lb = startup_message base ident ?vec"
    using lapic_messages(2) [OF idle, of ident ?vec "io\<lparr>mmio_log := mmio_log io @ la\<rparr>"] by auto
  obtain l2 where l2: "lapic_send_startup dev base ident ?vec (io\<lparr>mmio_log := mmio_log io @ la @ lb\<rparr>) = Some (io\<lparr>mmio_log := mmio_log io @ la @ lb @ l2\<rparr>)"
      "mmio_writes l2 = startup_message base ident ?vec"
    using lapic_messages(2) [OF idle, of ident ?vec "io\<lparr>mmio_log := mmio_log io @ la @ lb\<rparr>"] by auto
  obtain t1 where t1: "delay_bootstrap clock 10 t = Some t1" using runs by blast
  obtain t2 where t2: "delay_bootstrap clock 1 t1 = Some t2" using runs by blast
  obtain t3 where t3: "delay_bootstrap clock 1000 t2 = Some t3" using runs by blast
  have fl: "AP_STARTUP_SUCCESSFUL t2 = 0" "AP_STARTUP_SUCCESSFUL t3 = 0"
    using delay_bootstrap_only [OF t1] delay_bootstrap_only [OF t2] delay_bootstrap_only [OF t3] flag by auto
  let ?first = "ap (mmio_log io @ la @ lb)" and ?second = "ap (mmio_log io @ la @ lb @ l2)"
  have "start_AP dev clock ap addr_of info base ident (t, io, s) =
     Some (if ?first \<or> ?second then 0 else - 1, if ?first then t2\<lparr>AP_STARTUP_SUCCESSFUL := 0\<rparr> else if ?second then t3\<lparr>AP_STARTUP_SUCCESSFUL := 0\<rparr> else t3,
       io\<lparr>mmio_log := mmio_log io @ (la @ lb) @ (if ?first then [] else l2)\<rparr>, ?s)"
    using la(1) lb(1) l2(1) t1 t2 t3 fl by (simp add: start_AP_def ap_runs_def Let_def)
  then show ?thesis using la(2) lb(2) l2(2) fl s'(1) params
    by (intro exI [of _ "if ?first \<or> ?second then 0 else - 1"] exI [of _ "if ?first then t2\<lparr>AP_STARTUP_SUCCESSFUL := 0\<rparr> else if ?second then t3\<lparr>AP_STARTUP_SUCCESSFUL := 0\<rparr> else t3"]
        exI [of _ "la @ lb"] exI [of _ l2] exI [of _ ?s]) simp
qed

text \<open>
  The registers of the local controller are marked in the bit map of the frames although they are no frame: on a machine whose frames end below the controller's address,
  \<open>start_APs\<close>, and with it \<open>smp_init\<close>, writes behind the end of the bit map.
\<close>

theorem smp_init_writes_behind_bitmap:
  assumes inv: "hooks_inv s" and high: "unat (pages_total_phys s) \<le> unat (local_apic_addr info) div 4096"
  shows "smp_init cpu dev clock ap addr_of info (t, p, io, s) = None"
proof -
  let ?b = "local_apic_addr info"
  have pg: "pg_inv s" using inv by (simp add: hooks_inv_def)
  obtain s1 where s1: "paging_map_page ?b ?b (kernel_page_directory s) s = Some s1" "only_tables s s1" "pg_inv s1"
    by (rule paging_map_page_ok [OF pg])
  have "hooks_inv s1" "pages_total_phys s1 = pages_total_phys s" using hooks_inv_map [OF inv s1(3,2)] by auto
  then have "pageframe_set_page_from_addr ?b 1 s1 = None"
    using high by (intro set_page_out_of_range) (auto simp: hooks_inv_def frame_inv_def)
  then show ?thesis using s1(1) by (simp add: smp_init_def start_APs_def get_kernel_pd_def Let_def)
qed

section \<open>Samples\<close>

theorem start_AP_outcomes_witness:
  "\<exists>t' io' s'. start_AP (\<lambda>_ _. 0) (\<lambda>_ _. - 1) (\<lambda>l. length (mmio_writes l) = 6) (\<lambda>f. 0x7000) madt_info0 0xfee00000 1
      (\<lparr>timer_ticks = 5, freq = 1000, cpuno = 0, AP_STARTUP_SUCCESSFUL = 0\<rparr>, sample_ioapic, sample_acpi) = Some (0, t', io', s') \<and>
     mmio_writes (mmio_log io') = init_message 0xfee00000 1 @ startup_message 0xfee00000 1 0x7000 @ startup_message 0xfee00000 1 0x7000"
proof -
  let ?t = "\<lparr>timer_ticks = 5, freq = 1000, cpuno = 0, AP_STARTUP_SUCCESSFUL = 0\<rparr>" and ?ap = "\<lambda>l. length (mmio_writes l) = 6"
  have idle: "lapic_idle (\<lambda>_ _. 0) 0xfee00000" by (simp add: lapic_idle_def)
  have runs: "\<exists>t'. delay_bootstrap (\<lambda>_ _. - 1) ms t = Some t'" for ms and t :: smp
    by (simp add: delay_bootstrap_def wait_ticks.simps leD)
  have l: "mmio_log sample_ioapic = []" by (simp add: sample_ioapic_def)
  have f: "AP_STARTUP_SUCCESSFUL ?t = 0" "unat ((\<lambda>f. 0x7000) ''SMPBOOT_TRAMPOLINE_PARAMS'' :: u32) + 16 \<le> 2 ^ 32" by simp_all
  from start_AP_outcomes [OF idle runs f, of ?ap madt_info0 1 sample_ioapic sample_acpi, unfolded l append_Nil]
  obtain r t' l1 l2 s' where r: "start_AP (\<lambda>_ _. 0) (\<lambda>_ _. - 1) ?ap (\<lambda>f. 0x7000) madt_info0 0xfee00000 1 (?t, sample_ioapic, sample_acpi) =
       Some (r, t', sample_ioapic\<lparr>mmio_log := l1 @ (if ?ap l1 then [] else l2)\<rparr>, s')"
      "mmio_writes l1 = init_message 0xfee00000 1 @ startup_message 0xfee00000 1 0x7000" "mmio_writes l2 = startup_message 0xfee00000 1 0x7000"
      "r = (if ?ap l1 \<or> ?ap (l1 @ l2) then 0 else - 1)"
    by (elim exE conjE)
  have "\<not> ?ap l1" "?ap (l1 @ l2)" using r(2,3) by (simp_all add: init_message_def startup_message_def)
  then show ?thesis using r by simp
qed

theorem smp_init_writes_behind_bitmap_witness:
  "smp_init undefined (\<lambda>_ _. 0) (\<lambda>_ _. - 1) (\<lambda>l. True) (\<lambda>f. 0x7000) (madt_info0\<lparr>local_apic_addr := 0xfee00000\<rparr>)
     (\<lparr>timer_ticks = 5, freq = 1000, cpuno = 0, AP_STARTUP_SUCCESSFUL = 0\<rparr>, sample_interrupt, ioapic.extend sample_ioapic (lapic.fields 0), sample_empty) = None"
proof -
  have "hooks_inv sample_empty" using sample_empty_rep by (auto simp: mmu_rep_def heap_inv_def heap_ok_def)
  moreover have "pages_total_phys sample_empty = 2080"
    by (simp add: sample_empty_def liballoc.extend_def sample_heap_def sample_liballoc_def sample_hooks_def sample_paging_def)
  then have "unat (pages_total_phys sample_empty) \<le> unat (local_apic_addr (madt_info0\<lparr>local_apic_addr := 0xfee00000\<rparr>)) div 4096" by simp
  ultimately show ?thesis by (rule smp_init_writes_behind_bitmap)
qed

end
