(* ===== verification/Syscall.thy ===== *)
theory Syscall
  imports Svga Interrupt
begin

text \<open>
  \<^verbatim>\<open>kernel/sys/syscall.c\<close>: the calls of user programs. Memory is asked for by an interrupt whose number and argument are in the saved registers; the
  calls that draw are functions over the frame buffer with the color of a brush. \<open>scale\<close> is the rounding of a color channel, as in the theory of the frame buffer.
\<close>

section \<open>The code\<close>

record cpu_state =
  cpu_esp :: u32
  cpu_edi :: u32
  cpu_esi :: u32
  cpu_ebp :: u32
  cpu_edx :: u32
  cpu_ecx :: u32
  cpu_ebx :: u32
  cpu_eax :: u32

definition SYSCALL_MMAP :: u32 where "SYSCALL_MMAP = 2"
definition SYSCALL_MUNMAP :: u32 where "SYSCALL_MUNMAP = 3"

text \<open>The word \<open>return_reg\<close> points to is passed and returned.\<close>

definition syscall_handler :: "u32 \<Rightarrow> cpu_state \<Rightarrow> 'a liballoc_scheme \<Rightarrow> (u32 \<times> 'a liballoc_scheme) option" where
  "syscall_handler return_reg cpu s =
     (let syscall_no = cpu_eax cpu in
      if syscall_no = SYSCALL_MMAP then do { (p, s) \<leftarrow> mmu_mmap (cpu_ecx cpu) s; Some (p, s) }
      else if syscall_no = SYSCALL_MUNMAP then do { s \<leftarrow> mmu_munmap (cpu_ecx cpu) s; Some (return_reg, s) }
      else Some (return_reg, s))"

definition ISR_SYSCALL :: "u32 \<Rightarrow> cpu_state \<Rightarrow> 'a liballoc_scheme \<Rightarrow> (u32 \<times> 'a liballoc_scheme) option" where
  "ISR_SYSCALL return_reg cpu s = syscall_handler return_reg cpu s"

definition syscall_init :: "(string \<Rightarrow> u32) \<Rightarrow> MADT_info \<Rightarrow> ('p, 'i, 'a) machine_state \<Rightarrow> ('p, 'i, 'a) machine_state option" where
  "syscall_init addr_of info st = do { (_, st) \<leftarrow> interrupt_register info INT_SYSCALL (addr_of ''ISR_SYSCALL'') st; Some st }"

record screen =
  brush_r :: u8
  brush_g :: u8
  brush_b :: u8
  gfx :: svga
  kb_handler_cb :: u32

definition syscall_register_kb_handler :: "u32 \<Rightarrow> 'a screen_scheme \<Rightarrow> 'a screen_scheme" where
  "syscall_register_kb_handler kb_handler s = s\<lparr>kb_handler_cb := kb_handler\<rparr>"

definition syscall_fb_get_scr_cols :: "'a screen_scheme \<Rightarrow> u32" where
  "syscall_fb_get_scr_cols s = svga_get_scr_columns (gfx s)"

definition syscall_fb_get_scr_rows :: "'a screen_scheme \<Rightarrow> u32" where
  "syscall_fb_get_scr_rows s = svga_get_scr_rows (gfx s)"

definition syscall_fb_scroll_down :: "u32 \<Rightarrow> 'a screen_scheme \<Rightarrow> 'a screen_scheme option" where
  "syscall_fb_scroll_down lines s = do { g \<leftarrow> svga_scroll_down lines (gfx s); Some (s\<lparr>gfx := g\<rparr>) }"

definition brush_color :: "(u8 \<Rightarrow> u8 \<Rightarrow> u8) \<Rightarrow> 'a screen_scheme \<Rightarrow> u32 option" where
  "brush_color scale s = svga_translate_rgb scale (brush_r s) (brush_g s) (brush_b s) (gfx s)"

definition syscall_fb_write_chr :: "(u8 \<Rightarrow> u8 \<Rightarrow> u8) \<Rightarrow> u8 \<Rightarrow> u32 \<Rightarrow> 'a screen_scheme \<Rightarrow> (u32 \<times> 'a screen_scheme) option" where
  "syscall_fb_write_chr scale c scrpos s =
     do { color \<leftarrow> brush_color scale s; (scrpos, g) \<leftarrow> svga_draw_char_cell scrpos c color (gfx s); Some (scrpos, s\<lparr>gfx := g\<rparr>) }"

definition syscall_fb_write_str :: "(u8 \<Rightarrow> u8 \<Rightarrow> u8) \<Rightarrow> bytes \<Rightarrow> u32 \<Rightarrow> u32 \<Rightarrow> 'a screen_scheme \<Rightarrow> (u32 \<times> 'a screen_scheme) option" where
  "syscall_fb_write_str scale str scrpos len s =
     do { color \<leftarrow> brush_color scale s; (scrpos, g) \<leftarrow> svga_write_str str scrpos len color (gfx s); Some (scrpos, s\<lparr>gfx := g\<rparr>) }"

definition syscall_fb_brush_set_color :: "u8 \<Rightarrow> u8 \<Rightarrow> u8 \<Rightarrow> 'a screen_scheme \<Rightarrow> 'a screen_scheme" where
  "syscall_fb_brush_set_color r g b s = s\<lparr>brush_r := r, brush_g := g, brush_b := b\<rparr>"

definition syscall_fb_draw_rect :: "(u8 \<Rightarrow> u8 \<Rightarrow> u8) \<Rightarrow> u32 \<Rightarrow> u32 \<Rightarrow> u32 \<Rightarrow> u32 \<Rightarrow> 'a screen_scheme \<Rightarrow> 'a screen_scheme option" where
  "syscall_fb_draw_rect scale x1 y1 x2 y2 s =
     do { color \<leftarrow> brush_color scale s; g \<leftarrow> svga_draw_rect x1 y1 x2 y2 color (gfx s); Some (s\<lparr>gfx := g\<rparr>) }"

definition syscall_fb_clr_cell :: "(u8 \<Rightarrow> u8 \<Rightarrow> u8) \<Rightarrow> u32 \<Rightarrow> 'a screen_scheme \<Rightarrow> (u32 \<times> 'a screen_scheme) option" where
  "syscall_fb_clr_cell scale scrpos s = do { (scrpos, g) \<leftarrow> svga_clr_cell scale scrpos (gfx s); Some (scrpos, s\<lparr>gfx := g\<rparr>) }"

definition syscall_fb_clr_scr :: "(u8 \<Rightarrow> u8 \<Rightarrow> u8) \<Rightarrow> 'a screen_scheme \<Rightarrow> 'a screen_scheme option" where
  "syscall_fb_clr_scr scale s = do { g \<leftarrow> svga_clr_scr scale (gfx s); Some (s\<lparr>gfx := g\<rparr>) }"

text \<open>\<open>svga_move_cursor\<close> does nothing.\<close>

definition svga_move_cursor :: "u32 \<Rightarrow> svga \<Rightarrow> svga" where
  "svga_move_cursor scrpos g = g"

definition syscall_fb_mov_cursr :: "u32 \<Rightarrow> 'a screen_scheme \<Rightarrow> 'a screen_scheme" where
  "syscall_fb_mov_cursr scrpos s = s\<lparr>gfx := svga_move_cursor scrpos (gfx s)\<rparr>"

definition syscall_serial_writestr :: "device \<Rightarrow> bytes \<Rightarrow> nat \<Rightarrow> 'p ports_scheme \<Rightarrow> 'p ports_scheme option" where
  "syscall_serial_writestr dev str len p = serial_write dev SERIAL_COM1_BASE str len p"

section \<open>Memory\<close>

text \<open>
  C27. A user program gets memory and gives it back through the system call: call 2 returns, in the register of the result, \<open>NULL\<close> with all objects as before or the address of a new
  object of the size asked for, and call 3 with that address takes exactly this object away again and leaves the register alone. Every other
  number changes nothing.
\<close>

theorem syscall_memory_roundtrip:
  fixes s :: "'a liballoc_scheme"
  assumes rep: "mmu_rep s os" and sz: "unat sz + 80 < 2 ^ 32"
  shows "(\<exists>p s1. ISR_SYSCALL r0 (cpu\<lparr>cpu_eax := 2, cpu_ecx := sz\<rparr>) s = Some (p, s1) \<and>
       (if p = 0 then mmu_rep s1 os
        else os p = None \<and> mmu_rep s1 (os(p \<mapsto> unat sz)) \<and>
          (\<exists>s2. ISR_SYSCALL r1 (cpu\<lparr>cpu_eax := 3, cpu_ecx := p\<rparr>) s1 = Some (r1, s2) \<and> mmu_rep s2 os \<and> kmem s2 = kmem s1))) \<and>
     (\<forall>n c. n \<noteq> 2 \<longrightarrow> n \<noteq> 3 \<longrightarrow> ISR_SYSCALL r0 (cpu\<lparr>cpu_eax := n, cpu_ecx := c\<rparr>) s = Some (r0, s))"
proof -
  have call: "ISR_SYSCALL r (cpu\<lparr>cpu_eax := 2, cpu_ecx := c\<rparr>) t = mmu_mmap c t" "ISR_SYSCALL r (cpu\<lparr>cpu_eax := 3, cpu_ecx := c\<rparr>) t = do { t \<leftarrow> mmu_munmap c t; Some (r, t) }"
    for r c cpu and t :: "'a liballoc_scheme"
    by (auto simp: ISR_SYSCALL_def syscall_handler_def SYSCALL_MMAP_def SYSCALL_MUNMAP_def bind_eq_Some_conv split: Option.bind_splits)
  have other: "\<forall>n c. n \<noteq> 2 \<longrightarrow> n \<noteq> 3 \<longrightarrow> ISR_SYSCALL r0 (cpu\<lparr>cpu_eax := n, cpu_ecx := c\<rparr>) s = Some (r0, s)"
    by (simp add: ISR_SYSCALL_def syscall_handler_def SYSCALL_MMAP_def SYSCALL_MUNMAP_def)
  show ?thesis
  proof (cases rule: mmap_cases [OF rep sz])
    case (1 s1)
    then show ?thesis using other by (auto simp: call)
  next
    case (2 m s1)
    let ?p = "user_ptr m"
    obtain s2 where s2: "mmu_munmap ?p s1 = Some s2" "mmu_rep s2 ((os(?p \<mapsto> unat sz))(?p := None))" "kmem s2 = kmem s1"
      by (rule munmap_ok [OF 2(4), of ?p "unat sz"]) auto
    have "(os(?p \<mapsto> unat sz))(?p := None) = os" using 2(3) by (simp add: fun_upd_idem)
    then show ?thesis using other 2 s2 by (auto simp: call)
  qed
qed

theorem syscall_memory_roundtrip_witness:
  "\<forall>cpu. \<exists>p s1. ISR_SYSCALL 7 (cpu\<lparr>cpu_eax := 2, cpu_ecx := 40\<rparr>) sample_heap = Some (p, s1) \<and>
     ISR_SYSCALL 7 (cpu\<lparr>cpu_eax := 5, cpu_ecx := 0\<rparr>) sample_heap = Some (7, sample_heap)"
proof
  fix cpu :: cpu_state
  have "unat (40 :: u32) + 80 < 2 ^ 32" by simp
  from syscall_memory_roundtrip [OF sample_heap_rep this, of 7 cpu 8]
  show "\<exists>p s1. ISR_SYSCALL 7 (cpu\<lparr>cpu_eax := 2, cpu_ecx := 40\<rparr>) sample_heap = Some (p, s1) \<and>
     ISR_SYSCALL 7 (cpu\<lparr>cpu_eax := 5, cpu_ecx := 0\<rparr>) sample_heap = Some (7, sample_heap)" by (elim conjE exE) simp
qed

end
