(* ===== verification/Bmp.thy ===== *)
theory Bmp
  imports Objects Layout
begin

text \<open>
  \<^verbatim>\<open>kernel/shell/bmp.c\<close>: the reader of bit map images. The file and the array of pixels are in the byte memory; the description
  \<open>struct bmp\<close> and a single pixel are values. An alignment of 0 is a division by zero, which is a fault.
\<close>

section \<open>The code\<close>

record bmp =
  filesize :: u32
  img_w :: u32
  img_h :: u32
  bpp :: u32
  pixelarray_offset :: u32
  pixelarray :: u32

record bmp_pixel =
  px_r :: u8
  px_g :: u8
  px_b :: u8
  px_a :: u8

definition BMP_MAGIC_OFF :: u32 where "BMP_MAGIC_OFF = 0"
definition BMP_FILESIZE_OFF :: u32 where "BMP_FILESIZE_OFF = 2"
definition BMP_PIXELARRAY_OFF :: u32 where "BMP_PIXELARRAY_OFF = 10"
definition BMP_DIB_HEADER_OFF :: u32 where "BMP_DIB_HEADER_OFF = 14"

text \<open>The two kinds of header: the sizes are 16 bits wide at offsets 4 and 6, or 32 bits wide at offsets 4 and 8.\<close>

definition get_bmp_dimensions_BITMAPCOREHEADER :: "mem \<Rightarrow> u32 \<Rightarrow> bmp \<Rightarrow> int \<times> bmp" where
  "get_bmp_dimensions_BITMAPCOREHEADER m dib_header out =
     (0, out\<lparr>img_w := ucast (load16 m (dib_header + 4)), img_h := ucast (load16 m (dib_header + 6)),
         bpp := ucast (load16 m (dib_header + 10))\<rparr>)"

definition get_bmp_dimensions_BITMAPINFOHEADER :: "mem \<Rightarrow> u32 \<Rightarrow> bmp \<Rightarrow> int \<times> bmp" where
  "get_bmp_dimensions_BITMAPINFOHEADER m dib_header out =
     (let out = out\<lparr>img_w := load32 m (dib_header + 4), img_h := load32 m (dib_header + 8), bpp := ucast (load16 m (dib_header + 14))\<rparr> in
      if load32 m (dib_header + 16) \<noteq> 0 then (- 1, out) else (0, out))"

definition libbmp_decode_bmp :: "mem \<Rightarrow> u32 \<Rightarrow> bmp \<Rightarrow> int \<times> bmp" where
  "libbmp_decode_bmp m rawbmp out =
     (if m (rawbmp + BMP_MAGIC_OFF) \<noteq> 66 \<or> m (rawbmp + BMP_MAGIC_OFF + 1) \<noteq> 77 then (- 1, out)
      else let out = out\<lparr>filesize := load32 m (rawbmp + BMP_FILESIZE_OFF)\<rparr>;
               off = load32 m (rawbmp + BMP_PIXELARRAY_OFF);
               out = out\<lparr>pixelarray_offset := off, pixelarray := rawbmp + off\<rparr>;
               dib_header_sz = load32 m (rawbmp + BMP_DIB_HEADER_OFF);
               dib_header = rawbmp + BMP_DIB_HEADER_OFF in
           if dib_header_sz = 12 \<or> dib_header_sz = 16 \<or> dib_header_sz = 64
           then (0, snd (get_bmp_dimensions_BITMAPCOREHEADER m dib_header out))
           else (0, snd (get_bmp_dimensions_BITMAPINFOHEADER m dib_header out)))"

partial_function (option) round_up :: "u32 \<Rightarrow> u32 \<Rightarrow> u32 option" where
  "round_up ret alignment =
     (if alignment = 0 then None else if ret mod alignment \<noteq> 0 then round_up (ret + 1) alignment else Some ret)"

definition row_sz :: "bmp \<Rightarrow> u32 option" where
  "row_sz b = round_up ((bpp b * img_w b + 31) div 8) 4"

definition bmp_pixel_offset :: "bmp \<Rightarrow> u32 \<Rightarrow> u32 \<Rightarrow> u32 \<Rightarrow> u32" where
  "bmp_pixel_offset b row x y = row * y + x * (bpp b div 8)"

definition libbmp_get_pixel :: "mem \<Rightarrow> bmp \<Rightarrow> u32 \<Rightarrow> u32 \<Rightarrow> bmp_pixel \<Rightarrow> bmp_pixel option" where
  "libbmp_get_pixel m b x y out =
     (if x > img_w b \<or> y > img_h b then Some out
      else do { row \<leftarrow> row_sz b;
                let pixel = pixelarray b + bmp_pixel_offset b row x y in
                if bpp b = 24
                then let data = load32 m pixel in
                     Some (out\<lparr>px_a := 0, px_b := ucast (data AND 0xff), px_g := ucast (drop_bit 8 data AND 0xff), px_r := ucast (drop_bit 16 data AND 0xff)\<rparr>)
                else Some out })"

text \<open>One pixel of the loop of \<open>libbmp_get_all_pixels\<close>; the state is \<open>index\<close> and the memory. A \<open>struct bmp_pixel\<close> has four bytes.\<close>

definition copy_pixel :: "bmp \<Rightarrow> u32 \<Rightarrow> u32 \<Rightarrow> nat \<Rightarrow> nat \<Rightarrow> u32 \<times> mem \<Rightarrow> u32 \<times> mem" where
  "copy_pixel b row array_out y x = (\<lambda>(index, m).
     let data = load32 m (pixelarray b + bmp_pixel_offset b row (of_nat x) (of_nat y)); p = array_out + 4 * index in
     if bpp b = 32 \<or> bpp b = 24
     then (index + 1, m(p := ucast (drop_bit 16 data AND 0xff), p + 1 := ucast (drop_bit 8 data AND 0xff), p + 2 := ucast (data AND 0xff)))
     else (index, m))"

definition libbmp_get_all_pixels :: "bmp \<Rightarrow> u32 \<Rightarrow> mem \<Rightarrow> mem option" where
  "libbmp_get_all_pixels b array_out m =
     do { row \<leftarrow> row_sz b;
          Some (snd (fold (\<lambda>y. fold (copy_pixel b row array_out y) [0..<unat (img_w b)]) [0..<unat (img_h b)] (0, m))) }"

section \<open>Rounding up\<close>

lemma mod_nonzero: "unat n mod unat a \<noteq> 0 \<Longrightarrow> (n :: u32) mod a \<noteq> 0"
  by (metis unat_mod unat_0)

lemma round_up_steps:
  assumes "alignment \<noteq> 0" and "unat ret + k < 2 ^ 32" and "\<And>j. j < k \<Longrightarrow> (unat ret + j) mod unat alignment \<noteq> 0"
  shows "round_up ret alignment = round_up (ret + of_nat k) alignment"
  using assms(2,3)
proof (induction k arbitrary: ret)
  case (Suc k)
  have u: "unat (ret + 1) = unat ret + 1" using unat_add_less [of ret 1] Suc.prems(1) by simp
  have "ret mod alignment \<noteq> 0" using Suc.prems(2) [of 0] by (intro mod_nonzero) simp
  then have "round_up ret alignment = round_up (ret + 1) alignment" using assms(1) by (subst round_up.simps) auto
  also have "\<dots> = round_up (ret + 1 + of_nat k) alignment"
    using Suc.prems(2) [of "Suc _"] Suc.prems(1) by (intro Suc.IH) (simp_all add: u)
  finally show ?case by (simp add: add.assoc)
qed simp

lemma round_up_done: "alignment \<noteq> 0 \<Longrightarrow> unat ret mod unat alignment = 0 \<Longrightarrow> round_up ret alignment = Some ret"
proof -
  assume a: "alignment \<noteq> 0" "unat ret mod unat alignment = 0"
  then have "ret mod alignment = 0" by (simp add: unat_mod flip: unat_eq_zero)
  then show ?thesis using a(1) by (subst round_up.simps) simp
qed

definition roundup :: "nat \<Rightarrow> nat \<Rightarrow> nat" where
  "roundup n a = (n + (a - 1)) div a * a"

lemma roundup_props:
  assumes "0 < a"
  shows "n \<le> roundup n a" "roundup n a mod a = 0" "n \<le> j \<Longrightarrow> j < roundup n a \<Longrightarrow> j mod a \<noteq> 0"
proof -
  have "(n + (a - 1)) div a * a + (n + (a - 1)) mod a = n + (a - 1)" by simp
  moreover have "(n + (a - 1)) mod a < a" using assms by simp
  ultimately show "n \<le> roundup n a" unfolding roundup_def by linarith
  show "roundup n a mod a = 0" by (simp add: roundup_def)
  show "j mod a \<noteq> 0" if "n \<le> j" "j < roundup n a"
  proof
    assume "j mod a = 0"
    then obtain q where q: "j = q * a" by (metis mod_0_imp_dvd dvd_div_mult_self)
    have "(n + (a - 1)) div a \<le> (q * a + (a - 1)) div a" using that(1) q by (intro div_le_mono) simp
    also have "\<dots> = q" using div_mult_self3 [of a q "a - 1"] assms by simp
    finally have "roundup n a \<le> j" unfolding q roundup_def by (rule mult_right_mono) simp
    then show False using that(2) by simp
  qed
qed

lemma round_up_small:
  assumes a: "alignment \<noteq> 0" and r: "roundup (unat n) (unat alignment) < 2 ^ 32"
  shows "round_up n alignment = Some (of_nat (roundup (unat n) (unat alignment)))"
proof -
  let ?r = "roundup (unat n) (unat alignment)"
  have a0: "0 < unat alignment" using a by (simp add: unat_gt_0)
  have le: "unat n \<le> ?r" by (rule roundup_props(1) [OF a0])
  have "round_up n alignment = round_up (n + of_nat (?r - unat n)) alignment"
    using roundup_props(3) [OF a0, of "unat n" "unat n + _"] r le by (intro round_up_steps a) auto
  also have "n + of_nat (?r - unat n) = of_nat ?r" using le by (simp add: of_nat_diff)
  also have "round_up (of_nat ?r) alignment = Some (of_nat ?r)"
    using roundup_props(2) [OF a0] r by (intro round_up_done a) (simp add: unat_of_nat_small)
  finally show ?thesis .
qed

lemma round_up_wraps:
  assumes a: "alignment \<noteq> 0" and r: "2 ^ 32 \<le> roundup (unat n) (unat alignment)"
  shows "round_up n alignment = Some 0"
proof -
  let ?k = "2 ^ 32 - 1 - unat n"
  have a0: "0 < unat alignment" using a by (simp add: unat_gt_0)
  have n: "unat n \<le> 2 ^ 32 - 1" using unat_less_32 [of n] by simp
  have last: "n + of_nat ?k = - 1" using n by (simp add: of_nat_diff)
  have "round_up n alignment = round_up (n + of_nat ?k) alignment"
    using roundup_props(3) [OF a0, of "unat n" "unat n + _"] r n by (intro round_up_steps a) auto
  also have "\<dots> = round_up 0 alignment"
  proof -
    have "unat (- 1 :: u32) = 2 ^ 32 - 1" by (simp add: unsigned_minus_1_eq_mask mask_eq_exp_minus_1)
    then have "unat (- 1 :: u32) mod unat alignment \<noteq> 0" using roundup_props(3) [OF a0 _, of "unat n" "2 ^ 32 - 1"] n r by simp
    then have "(- 1 :: u32) mod alignment \<noteq> 0" by (rule mod_nonzero)
    then show ?thesis unfolding last using a by (subst round_up.simps) simp
  qed
  also have "\<dots> = Some 0" by (intro round_up_done a) simp
  finally show ?thesis .
qed

text \<open>
  C33. The loop of \<open>round_up\<close> ends for every number and every alignment but 0: it returns the least multiple of the alignment that is not
  below the number, or 0 when that multiple does not fit in 32 bits, because the counter wraps around. With alignment 0 it divides by zero.
\<close>

theorem round_up_terminates:
  "round_up n alignment =
     (if alignment = 0 then None
      else if roundup (unat n) (unat alignment) < 2 ^ 32 then Some (of_nat (roundup (unat n) (unat alignment))) else Some 0)"
  using round_up_small round_up_wraps by (auto simp: round_up.simps [of n 0])

text \<open>The size of a row in the file format: the bytes of the pixels, filled up to a multiple of four.\<close>

definition file_row :: "nat \<Rightarrow> nat" where
  "file_row w = roundup (3 * w) 4"

lemma roundup_4: "roundup n 4 = n + (3 - (n + 3) mod 4)"
  unfolding roundup_def by (simp add: minus_mod_eq_div_mult [symmetric])

lemma roundup_shift: "roundup (4 * q + k) 4 = 4 * q + roundup k 4"
  using div_mult_self3 [of 4 q "k + 3"] by (simp add: roundup_def distrib_right ac_simps)

lemma roundup_row: "roundup (3 * w + 3) 4 = roundup (3 * w) 4 + (if w mod 4 = 3 then 0 else 4)"
proof -
  obtain q r where w: "w = 4 * q + r" "r < 4" using mult_div_mod_eq [of 4 w] by (metis mod_less_divisor zero_less_numeral)
  have "3 * w + 3 = 4 * (3 * q) + (3 * r + 3)" "3 * w = 4 * (3 * q) + 3 * r" using w by simp_all
  then have k: "roundup (3 * w + 3) 4 = 4 * (3 * q) + roundup (3 * r + 3) 4" "roundup (3 * w) 4 = 4 * (3 * q) + roundup (3 * r) 4" "w mod 4 = r"
    using w by (simp_all only: roundup_shift) simp
  consider "r = 0" | "r = 1" | "r = 2" | "r = 3" using w(2) by linarith
  then show ?thesis unfolding k by cases (simp_all add: roundup_def)
qed

lemma row_sz_24:
  assumes "bpp b = 24" and "3 * unat (img_w b) + 8 \<le> 2 ^ 29"
  shows "row_sz b = Some (of_nat (file_row (unat (img_w b)) + (if unat (img_w b) mod 4 = 3 then 0 else 4)))"
proof -
  let ?w = "unat (img_w b)"
  have "unat (24 * img_w b) = 24 * ?w" using unat_mult_less [of 24 "img_w b"] assms(2) by simp
  then have "unat (24 * img_w b + 31) = 24 * ?w + 31" using unat_add_less [of "24 * img_w b" 31] assms(2) by simp
  then have n: "unat ((bpp b * img_w b + 31) div 8) = 3 * ?w + 3" using assms(1) by (simp add: unat_div)
  have "roundup (3 * ?w + 3) 4 = file_row ?w + (if ?w mod 4 = 3 then 0 else 4)"
    unfolding file_row_def by (rule roundup_row)
  moreover have "roundup (3 * ?w + 3) 4 < 2 ^ 32" using assms(2) by (simp add: roundup_4)
  ultimately show ?thesis using round_up_small [of 4 "(bpp b * img_w b + 31) div 8"] n by (simp add: row_sz_def)
qed

section \<open>Reading an image\<close>

text \<open>The bytes of a number in memory are the bytes of the memory.\<close>

lemma load32_byte:
  "ucast (load32 m a AND 0xff) = m a" "ucast (drop_bit 8 (load32 m a) AND 0xff) = m (a + 1)"
  "ucast (drop_bit 16 (load32 m a) AND 0xff) = m (a + 2)"
proof -
  have ff: "(0xff :: u32) = mask 8" by (simp add: mask_eq_exp_minus_1)
  have high: "\<not> bit (m b) n" if "8 \<le> n" for b n using that by (simp add: bit_byte_high)
  show "ucast (load32 m a AND 0xff) = m a" unfolding ff by (rule bit_word_eqI) (auto simp: load32_def bit_simps high)
  show "ucast (drop_bit 8 (load32 m a) AND 0xff) = m (a + 1)" unfolding ff by (rule bit_word_eqI) (auto simp: load32_def bit_simps high)
  show "ucast (drop_bit 16 (load32 m a) AND 0xff) = m (a + 2)" unfolding ff by (rule bit_word_eqI) (auto simp: load32_def bit_simps high)
qed

type_synonym image = "(u8 \<times> u8 \<times> u8) list list"

text \<open>An image of 24 bits per pixel in the file format: every row is filled up to a multiple of four bytes.\<close>

definition encode_row :: "(u8 \<times> u8 \<times> u8) list \<Rightarrow> bytes" where
  "encode_row row = concat (map (\<lambda>(r, g, b). [b, g, r]) row) @ replicate (file_row (length row) - 3 * length row) 0"

definition encode_bmp :: "nat \<Rightarrow> image \<Rightarrow> bytes" where
  "encode_bmp w img = [66, 77] @ bytes32 (of_nat (54 + length img * file_row w)) @ bytes32 0 @ bytes32 54 @ bytes32 40 @ bytes32 (of_nat w) @
     bytes32 (of_nat (length img)) @ [1, 0, 24, 0] @ bytes32 0 @ replicate 20 0 @ concat (map encode_row img)"

lemma concat_nth_uniform:
  "(\<And>r. r \<in> set rs \<Longrightarrow> length r = n) \<Longrightarrow> y < length rs \<Longrightarrow> i < n \<Longrightarrow> y * n + i < length (concat rs) \<and> concat rs ! (y * n + i) = rs ! y ! i"
proof (induction rs arbitrary: y)
  case (Cons r rs)
  have r: "length r = n" using Cons.prems(1) by simp
  show ?case
  proof (cases y)
    case 0
    then show ?thesis using r Cons.prems(3) by (simp add: nth_append)
  next
    case (Suc z)
    have "z * n + i < length (concat rs) \<and> concat rs ! (z * n + i) = rs ! z ! i"
      using Cons.prems Suc by (intro Cons.IH) auto
    then show ?thesis using r Suc by (simp add: nth_append)
  qed
qed simp

lemma length_encode_row: "length (encode_row row) = file_row (length row)"
proof -
  have "length (concat (map (\<lambda>(r, g, b). [b, g, r]) row)) = 3 * length row" by (induction row) auto
  moreover have "3 * length row \<le> file_row (length row)" unfolding file_row_def by (rule roundup_props(1)) simp
  ultimately show ?thesis by (simp add: encode_row_def)
qed

lemma encode_row_pixel:
  assumes "x < length row" "k < 3" "row ! x = (r, g, b)"
  shows "encode_row row ! (x * 3 + k) = [b, g, r] ! k"
proof -
  have "x * 3 + k < length (concat (map (\<lambda>(r, g, b). [b, g, r]) row)) \<and>
     concat (map (\<lambda>(r, g, b). [b, g, r]) row) ! (x * 3 + k) = map (\<lambda>(r, g, b). [b, g, r]) row ! x ! k"
    using assms(1,2) by (intro concat_nth_uniform) auto
  then show ?thesis using assms by (simp add: encode_row_def nth_append)
qed

lemma bmp_pixel_bytes:
  assumes h: "holds m (raw + 54) (concat (map encode_row img))" and w: "\<And>row. row \<in> set img \<Longrightarrow> length row = w"
    and xy: "y < length img" "x < w" and k: "k < 3" and rgb: "img ! y ! x = (r, g, b)"
  shows "m (raw + 54 + of_nat (file_row w * y + x * 3) + of_nat k) = [b, g, r] ! k"
proof -
  have row: "length (img ! y) = w" using w xy(1) by simp
  have "3 * w \<le> file_row w" unfolding file_row_def by (rule roundup_props(1)) simp
  moreover have "x * 3 + k < 3 * w" using xy(2) k by simp
  ultimately have i: "x * 3 + k < file_row w" by linarith
  have "y * file_row w + (x * 3 + k) < length (concat (map encode_row img)) \<and>
      concat (map encode_row img) ! (y * file_row w + (x * 3 + k)) = map encode_row img ! y ! (x * 3 + k)"
    using xy(1) i w by (intro concat_nth_uniform) (auto simp: length_encode_row)
  then have "m (raw + 54 + of_nat (y * file_row w + (x * 3 + k))) = encode_row (img ! y) ! (x * 3 + k)"
    using h xy(1) unfolding holds_def by auto
  then show ?thesis using encode_row_pixel [of x "img ! y" k r g b] row xy(2) k rgb by (simp add: ac_simps)
qed

lemma decode_encoded:
  assumes h: "holds m raw (encode_bmp w img)" and sz: "w < 2 ^ 32" "length img < 2 ^ 32"
  obtains b where "libbmp_decode_bmp m raw b0 = (0, b)" "unat (img_w b) = w" "unat (img_h b) = length img" "bpp b = 24" "pixelarray b = raw + 54"
    "holds m (raw + 54) (concat (map encode_row img))"
proof -
  note hs = h [unfolded encode_bmp_def holds_append]
  have mag: "m raw = 66" "m (raw + 1) = 77" using hs by (simp_all add: holds_Cons)
  have loads: "load32 m (raw + 10) = 54" "load32 m (raw + 14) = 40" "load32 m (raw + 18) = of_nat w" "load32 m (raw + 22) = of_nat (length img)"
    using hs by (auto simp: holds_bytes32 add.assoc)
  have "m (raw + 28) = 24" "m (raw + 29) = 0" using hs by (auto simp: holds_Cons add.assoc)
  then have bp: "load16 m (raw + 28) = 24" by (simp add: load16_def add.assoc)
  have px: "holds m (raw + 54) (concat (map encode_row img))" using hs by (simp add: add.assoc)
  define b where "b = snd (libbmp_decode_bmp m raw b0)"
  have d: "libbmp_decode_bmp m raw b0 = (0, b)" "img_w b = of_nat w" "img_h b = of_nat (length img)" "bpp b = 24" "pixelarray b = raw + 54"
    using mag loads bp
    by (simp_all add: b_def libbmp_decode_bmp_def get_bmp_dimensions_BITMAPINFOHEADER_def BMP_MAGIC_OFF_def BMP_FILESIZE_OFF_def
        BMP_PIXELARRAY_OFF_def BMP_DIB_HEADER_OFF_def Let_def add.assoc)
  show thesis by (rule that [of b]) (use d px sz in \<open>auto simp: unat_of_nat_small\<close>)
qed

text \<open>The pixels up to number \<open>k\<close> are in the array, and nothing else has changed.\<close>

definition copied :: "image \<Rightarrow> u32 \<Rightarrow> nat \<Rightarrow> mem \<Rightarrow> nat \<Rightarrow> u32 \<times> mem \<Rightarrow> bool" where
  "copied img out n m0 k = (\<lambda>(index, m). index = of_nat k \<and>
     (\<forall>j<k. case concat img ! j of (r, g, b) \<Rightarrow> obj m (out + 4 * of_nat j) 3 = [r, g, b]) \<and>
     (\<forall>a. unat a \<notin> object_bytes out n \<longrightarrow> m a = m0 a))"

lemma obj_3: "obj m p 3 = [m p, m (p + 1), m (p + 2)]"
  by (simp add: obj_def upt_rec)

lemma array_addr:
  assumes "unat out + n \<le> 2 ^ 32" "4 * j + k < n"
  shows "unat (out + 4 * of_nat j + of_nat k :: u32) = unat out + 4 * j + k"
  using obj_addr [OF assms] by (simp add: ac_simps)

lemma copied_step:
  assumes c: "copied img out n m0 k (i, m)" and fit: "unat out + n \<le> 2 ^ 32" and k: "4 * k + 4 \<le> n"
    and bp: "bpp b = 24" and px: "concat img ! k = (r, g, bl)"
    and rd: "\<And>j. j < 3 \<Longrightarrow> m (pixelarray b + bmp_pixel_offset b row (of_nat x) (of_nat y) + of_nat j) = [bl, g, r] ! j"
  shows "copied img out n m0 (Suc k) (copy_pixel b row out y x (i, m))"
proof -
  let ?p = "out + 4 * of_nat k"
  have i: "i = of_nat k" using c by (simp add: copied_def)
  have step: "copy_pixel b row out y x (i, m) = (of_nat (Suc k), m(?p := r, ?p + 1 := g, ?p + 2 := bl))"
    using rd [of 0] rd [of 1] rd [of 2] bp i by (simp add: copy_pixel_def load32_byte Let_def)
  have addr: "unat (out + 4 * of_nat j + of_nat l) = unat out + 4 * j + l" if "j \<le> k" "l < 4" for j l
    by (rule array_addr [OF fit]) (use that k in linarith)
  have p: "unat ?p = unat out + 4 * k" "unat (?p + 1) = unat out + 4 * k + 1" "unat (?p + 2) = unat out + 4 * k + 2"
    using addr [of k 0] addr [of k 1] addr [of k 2] by simp_all
  have own: "obj (m(?p := r, ?p + 1 := g, ?p + 2 := bl)) ?p 3 = [r, g, bl]" using p by (auto simp: obj_3)
  have below: "(m(?p := r, ?p + 1 := g, ?p + 2 := bl)) a = m a" if "unat a < unat ?p" for a using that p by auto
  have old: "obj (m(?p := r, ?p + 1 := g, ?p + 2 := bl)) (out + 4 * of_nat j) 3 = obj m (out + 4 * of_nat j) 3" if "j < k" for j
  proof -
    have "unat (out + 4 * of_nat j) < unat ?p" "unat (out + 4 * of_nat j + 1) < unat ?p" "unat (out + 4 * of_nat j + 2) < unat ?p"
      using addr [of j 0] addr [of j 1] addr [of j 2] that p by simp_all
    then show ?thesis unfolding obj_3 by (simp only: below)
  qed
  have out: "(m(?p := r, ?p + 1 := g, ?p + 2 := bl)) a = m0 a" if "unat a \<notin> object_bytes out n" for a
    using that c p k by (auto simp: copied_def object_bytes_def)
  show ?thesis
    unfolding step copied_def using own old out px c by (auto simp: copied_def less_Suc_eq)
qed

lemma bmp_pixel_offset_24: "bpp b = 24 \<Longrightarrow> bmp_pixel_offset b (of_nat R) (of_nat x) (of_nat y) = of_nat (R * y + x * 3)"
  by (simp add: bmp_pixel_offset_def)

lemma copied_all:
  fixes img :: image and out raw :: u32 and w :: nat
  defines "n \<equiv> 4 * (length img * w)" and "fsz \<equiv> 54 + length img * file_row w"
  assumes px: "holds m (raw + 54) (concat (map encode_row img))" and w: "\<And>row. row \<in> set img \<Longrightarrow> length row = w"
    and fit: "unat raw + fsz \<le> 2 ^ 32" "unat out + n \<le> 2 ^ 32" and apart: "unat raw + fsz \<le> unat out \<or> unat out + n \<le> unat raw"
    and b: "bpp b = 24" "pixelarray b = raw + 54"
  shows "copied img out n m (length img * w) (fold (\<lambda>y. fold (copy_pixel b (of_nat (file_row w)) out y) [0..<w]) [0..<length img] (0, m))"
proof (rule fold_upt_inv [where I = "\<lambda>y. copied img out n m (y * w)"])
  show "copied img out n m (0 * w) (0, m)" by (simp add: copied_def)
next
  fix y st assume y: "y < length img" and c: "copied img out n m (y * w) st"
  have "copied img out n m (y * w + w) (fold (copy_pixel b (of_nat (file_row w)) out y) [0..<w] st)"
  proof (rule fold_upt_inv [where I = "\<lambda>x. copied img out n m (y * w + x)"])
    fix x st assume x: "x < w" and c: "copied img out n m (y * w + x) st"
    obtain i m' where st: "st = (i, m')" by (cases st)
    obtain r g bl where rgb: "img ! y ! x = (r, g, bl)" by (cases "img ! y ! x")
    have nth: "y * w + x < length (concat img) \<and> concat img ! (y * w + x) = img ! y ! x" using w y x by (intro concat_nth_uniform)
    have "Suc y * w \<le> length img * w" using y by (intro mult_right_mono) simp_all
    then have k: "4 * (y * w + x) + 4 \<le> n" using x unfolding n_def by simp
    have rd: "m' (pixelarray b + bmp_pixel_offset b (of_nat (file_row w)) (of_nat x) (of_nat y) + of_nat j) = [bl, g, r] ! j" if "j < 3" for j
    proof -
      let ?a = "raw + 54 + of_nat (file_row w * y + x * 3) + of_nat j"
      have "3 * w \<le> file_row w" unfolding file_row_def by (rule roundup_props(1)) simp
      moreover have "file_row w * Suc y \<le> length img * file_row w" using y by (simp only: mult.commute [of "length img"] mult_left_mono)
      ultimately have "54 + file_row w * y + x * 3 + j < fsz" using x that unfolding fsz_def mult_Suc_right by linarith
      from obj_addr [OF fit(1) this] have "unat ?a = unat raw + (54 + file_row w * y + x * 3 + j)" by (simp add: ac_simps)
      then have "unat ?a \<notin> object_bytes out n" using apart \<open>54 + file_row w * y + x * 3 + j < fsz\<close> by (auto simp: object_bytes_def)
      then have "m' ?a = m ?a" using c st by (simp add: copied_def)
      then show ?thesis using bmp_pixel_bytes [OF px w y x that rgb] b by (simp add: bmp_pixel_offset_24)
    qed
    show "copied img out n m (y * w + Suc x) (copy_pixel b (of_nat (file_row w)) out y x st)"
      using copied_step [OF c [unfolded st] fit(2) k b(1) _ rd] nth rgb st by simp
  qed (use c in auto)
  then show "copied img out n m (Suc y * w) (fold (copy_pixel b (of_nat (file_row w)) out y) [0..<w] st)" by (simp add: add.commute)
qed simp

lemma libbmp_get_pixel_bytes:
  assumes "bpp b = 24" "row_sz b = Some (of_nat R)" "\<not> of_nat x > img_w b" "\<not> of_nat y > img_h b"
    and "pixelarray b + of_nat (R * y + x * 3) = a"
  shows "libbmp_get_pixel m b (of_nat x) (of_nat y) o0 = Some (o0\<lparr>px_r := m (a + 2), px_g := m (a + 1), px_b := m a, px_a := 0\<rparr>)"
proof -
  have "pixelarray b + bmp_pixel_offset b (of_nat R) (of_nat x) (of_nat y) = a" using assms(1,5) by (simp only: bmp_pixel_offset_24)
  then show ?thesis using assms(1-4) load32_byte [of m a] by (simp add: libbmp_get_pixel_def)
qed

lemma copied_pixel:
  assumes c: "copied img out n m (length img * w) (i, m')" and w: "\<And>row. row \<in> set img \<Longrightarrow> length row = w"
    and xy: "y < length img" "x < w" and rgb: "img ! y ! x = (r, g, bl)"
  shows "obj m' (out + 4 * of_nat (y * w + x)) 3 = [r, g, bl]"
proof -
  have nth: "y * w + x < length (concat img) \<and> concat img ! (y * w + x) = img ! y ! x" using w xy by (intro concat_nth_uniform)
  have "Suc y * w \<le> length img * w" using xy by (intro mult_right_mono) simp_all
  then have "y * w + x < length img * w" using xy by simp
  then show ?thesis using c nth rgb by (auto simp: copied_def)
qed

text \<open>
  C26. What \<^verbatim>\<open>bmp.c\<close> makes of an image of 24 bits per pixel in the file format, whatever its width, with an array for the pixels that does not
  overlap the file. Decoding gives its width and height, and the size of a row is the one of the format when the width is 3 more than a
  multiple of four, and 4 bytes more otherwise. For such a width the image comes back from its file: \<open>libbmp_get_all_pixels\<close> writes
  the red, green and blue byte of every pixel to its place in the array and no other byte of the memory, and \<open>libbmp_get_pixel\<close>
  gives the same pixels. For every other width \<open>libbmp_get_pixel\<close> takes the pixel \<open>x\<close> of row \<open>y\<close> from the bytes of the pixel array \<open>y\<close> times
  4 bytes behind its place: the first row is right, the rows after it are not.
\<close>

theorem bmp_pixels_roundtrip:
  fixes img :: image and out raw :: u32
  assumes h: "holds m raw (encode_bmp w img)" and w: "\<And>row. row \<in> set img \<Longrightarrow> length row = w" "length img < 2 ^ 32" "3 * w + 8 \<le> 2 ^ 29"
    and fit: "unat raw + (54 + length img * file_row w) \<le> 2 ^ 32" "unat out + 4 * (length img * w) \<le> 2 ^ 32"
    and apart: "unat raw + (54 + length img * file_row w) \<le> unat out \<or> unat out + 4 * (length img * w) \<le> unat raw"
  shows "\<exists>b m'. libbmp_decode_bmp m raw b0 = (0, b) \<and> unat (img_w b) = w \<and> unat (img_h b) = length img \<and>
     row_sz b = Some (of_nat (file_row w + (if w mod 4 = 3 then 0 else 4))) \<and>
     libbmp_get_all_pixels b out m = Some m' \<and>
     (w mod 4 = 3 \<longrightarrow>
       (\<forall>y<length img. \<forall>x<w. case img ! y ! x of (r, g, bl) \<Rightarrow>
          obj m' (out + 4 * of_nat (y * w + x)) 3 = [r, g, bl] \<and>
          libbmp_get_pixel m b (of_nat x) (of_nat y) o0 = Some (o0\<lparr>px_r := r, px_g := g, px_b := bl, px_a := 0\<rparr>)) \<and>
       (\<forall>a. unat a \<notin> object_bytes out (4 * (length img * w)) \<longrightarrow> m' a = m a)) \<and>
     (w mod 4 \<noteq> 3 \<longrightarrow>
       (\<forall>y<length img. \<forall>x<w. let a = raw + 54 + of_nat (y * file_row w + 3 * x) + of_nat (4 * y) in
          libbmp_get_pixel m b (of_nat x) (of_nat y) o0 = Some (o0\<lparr>px_r := m (a + 2), px_g := m (a + 1), px_b := m a, px_a := 0\<rparr>)) \<and>
       (\<forall>x<w. img \<noteq> [] \<longrightarrow> (case img ! 0 ! x of (r, g, bl) \<Rightarrow>
          libbmp_get_pixel m b (of_nat x) 0 o0 = Some (o0\<lparr>px_r := r, px_g := g, px_b := bl, px_a := 0\<rparr>))))"
proof -
  let ?R = "file_row w + (if w mod 4 = 3 then 0 else 4)"
  have sz: "w < 2 ^ 32" using w(3) by simp
  obtain b where b: "libbmp_decode_bmp m raw b0 = (0, b)" "unat (img_w b) = w" "unat (img_h b) = length img" "bpp b = 24" "pixelarray b = raw + 54"
      "holds m (raw + 54) (concat (map encode_row img))" by (rule decode_encoded [OF h sz w(2)])
  have row: "row_sz b = Some (of_nat ?R)" using row_sz_24 [OF b(4)] b(2) w(3) by simp
  obtain i m' where im: "fold (\<lambda>y. fold (copy_pixel b (of_nat ?R) out y) [0..<w]) [0..<length img] (0, m) = (i, m')" by fastforce
  have all: "libbmp_get_all_pixels b out m = Some m'" using row b(2,3) im by (simp add: libbmp_get_all_pixels_def)
  have in_range: "\<not> of_nat x > img_w b" "\<not> of_nat y > img_h b" if "y < length img" "x < w" for x y
    using that b(2,3) sz w(2) by (auto simp: word_less_nat_alt unat_of_nat_small)
  have get: "libbmp_get_pixel m b (of_nat x) (of_nat y) o0 = Some (o0\<lparr>px_r := m (a + 2), px_g := m (a + 1), px_b := m a, px_a := 0\<rparr>)"
    if "y < length img" "x < w" "a = raw + 54 + of_nat (?R * y + x * 3)" for a x y
    by (rule libbmp_get_pixel_bytes [OF b(4) row in_range [OF that(1,2)]]) (use that(3) b(5) in simp)
  have pix: "libbmp_get_pixel m b (of_nat x) (of_nat y) o0 = Some (o0\<lparr>px_r := r, px_g := g, px_b := bl, px_a := 0\<rparr>)"
    if "y < length img" "x < w" "img ! y ! x = (r, g, bl)" "?R * y = file_row w * y" for r g bl x y
    using get [OF that(1,2) refl] bmp_pixel_bytes [OF b(6) w(1) that(1,2) _ that(3), of 0] that(4)
      bmp_pixel_bytes [OF b(6) w(1) that(1,2) _ that(3), of 1] bmp_pixel_bytes [OF b(6) w(1) that(1,2) _ that(3), of 2]
    by (simp only: that(4)) simp
  have c: "copied img out (4 * (length img * w)) m (length img * w) (i, m')" if "w mod 4 = 3"
    using copied_all [OF b(6) w(1) fit apart b(4,5)] im that by simp
  have good: "case img ! y ! x of (r, g, bl) \<Rightarrow> obj m' (out + 4 * of_nat (y * w + x)) 3 = [r, g, bl] \<and>
      libbmp_get_pixel m b (of_nat x) (of_nat y) o0 = Some (o0\<lparr>px_r := r, px_g := g, px_b := bl, px_a := 0\<rparr>)"
    if "w mod 4 = 3" "y < length img" "x < w" for x y
    using pix [OF that(2,3)] copied_pixel [OF c [OF that(1)] w(1) that(2,3)] that(1) by (auto split: prod.split)
  have frame: "m' a = m a" if "w mod 4 = 3" "unat a \<notin> object_bytes out (4 * (length img * w))" for a using c that by (simp add: copied_def)
  have first: "case img ! 0 ! x of (r, g, bl) \<Rightarrow>
      libbmp_get_pixel m b (of_nat x) 0 o0 = Some (o0\<lparr>px_r := r, px_g := g, px_b := bl, px_a := 0\<rparr>)" if "img \<noteq> []" "x < w" for x
    using pix [of 0 x] that by (auto split: prod.split)
  have other: "let a = raw + 54 + of_nat (y * file_row w + 3 * x) + of_nat (4 * y) in
      libbmp_get_pixel m b (of_nat x) (of_nat y) o0 = Some (o0\<lparr>px_r := m (a + 2), px_g := m (a + 1), px_b := m a, px_a := 0\<rparr>)"
    if "w mod 4 \<noteq> 3" "y < length img" "x < w" for x y
    unfolding Let_def by (rule get [OF that(2,3)]) (use that(1) in \<open>simp add: algebra_simps\<close>)
  show ?thesis using b(1-3) row all good frame first other by (intro exI [of _ b] exI [of _ m'] conjI allI impI)
qed

text \<open>
  The size of a row is computed wrongly for most images: for 24 bits per pixel it is the size in the file format only when the width is 3 more
  than a multiple of four, and four bytes too large otherwise, so that every row after the first is read from the wrong place.
\<close>

theorem bmp_row_size_wrong:
  assumes "bpp b = 24" and "3 * unat (img_w b) + 8 \<le> 2 ^ 29"
  shows "row_sz b = Some (of_nat (roundup (3 * unat (img_w b)) 4 + (if unat (img_w b) mod 4 = 3 then 0 else 4)))"
  using row_sz_24 [OF assms] unfolding file_row_def .

section \<open>Samples\<close>

definition sample_image :: image where
  "sample_image = [[(1, 2, 3), (4, 5, 6), (7, 8, 9)]]"

theorem bmp_pixels_roundtrip_witness:
  "\<exists>b m'. libbmp_get_all_pixels b 0x9000 (\<lambda>x. encode_bmp 3 sample_image ! unat (x - 0x1000)) = Some m' \<and> obj m' (0x9000 + 4 * 2) 3 = [7, 8, 9]"
proof -
  let ?f = "encode_bmp 3 sample_image"
  have "length ?f < 2 ^ 32" by (simp add: encode_bmp_def sample_image_def length_encode_row file_row_def roundup_def)
  then have h: "holds (\<lambda>x. ?f ! unat (x - 0x1000)) 0x1000 ?f" by (rule holds_list)
  have w: "\<And>row. row \<in> set sample_image \<Longrightarrow> length row = 3" by (simp add: sample_image_def)
  have n: "length sample_image = 1" "file_row 3 = 12" by (simp_all add: sample_image_def file_row_def roundup_def)
  have out: "unat (0x1000 :: u32) + (54 + length sample_image * file_row 3) \<le> unat (0x9000 :: u32) \<or>
      unat (0x9000 :: u32) + 4 * (length sample_image * 3) \<le> unat (0x1000 :: u32)" by (simp add: n)
  obtain b m' where r: "libbmp_get_all_pixels b 0x9000 (\<lambda>x. ?f ! unat (x - 0x1000)) = Some m'"
      "\<forall>y<length sample_image. \<forall>x<3. case sample_image ! y ! x of (r, g, bl) \<Rightarrow> obj m' (0x9000 + 4 * of_nat (y * 3 + x)) 3 = [r, g, bl]"
    using bmp_pixels_roundtrip [OF h w _ _ _ _ out] by (fastforce simp: n)
  from r(2) [rule_format, of 0 2] have "obj m' (0x9000 + 4 * 2) 3 = [7, 8, 9]" by (simp add: sample_image_def)
  then show ?thesis using r(1) by blast
qed

theorem bmp_row_size_wrong_witness: "row_sz \<lparr>filesize = 0, img_w = 1, img_h = 2, bpp = 24, pixelarray_offset = 54, pixelarray = 54\<rparr> = Some 8"
  using bmp_row_size_wrong [of "\<lparr>filesize = 0, img_w = 1, img_h = 2, bpp = 24, pixelarray_offset = 54, pixelarray = 54\<rparr>"] by (simp add: roundup_def)

end
