(* ===== verification/Shell.thy ===== *)
theory Shell
  imports Syscall Bmp Multiboot Timer Keyboard
begin

text \<open>
  \<^verbatim>\<open>kernel/shell/shell.c\<close>: the line editor and the commands of the shell. The keys that arrive while the shell waits are a list, an argument; waiting without a
  further key does not return. A user program, and the two commands that end the run of the machine, are arguments too.
\<close>

section \<open>The code\<close>

definition CIN_BUFSZ :: nat where "CIN_BUFSZ = 256"

record shell = screen +
  cur :: u32
  SCREEN_COLUMNS :: u32
  SCREEN_ROWS :: u32
  receiving_user_input :: u8
  cin_buf :: bytes
  cin_pos :: int

definition shell_handle_keypress :: "(u8 \<Rightarrow> u8 \<Rightarrow> u8) \<Rightarrow> u8 \<Rightarrow> 'x shell_scheme \<Rightarrow> 'x shell_scheme option" where
  "shell_handle_keypress scale ascii s =
     (if receiving_user_input s \<noteq> 0
      then if ascii = 0 then Some s
           else if ascii = 10 then Some (s\<lparr>receiving_user_input := 0\<rparr>)
           else if cin_pos s \<ge> int CIN_BUFSZ then Some s
           else if ascii = KEY_BACKSPACE
           then if cin_pos s = 0 then Some s
                else do { b \<leftarrow> arr_set (cin_buf s) (nat (cin_pos s)) 0;
                          let s = s\<lparr>cin_buf := b, cin_pos := cin_pos s - 1, cur := cur s - 1\<rparr> in
                     do { (c, s) \<leftarrow> syscall_fb_clr_cell scale (cur s) s;
                          let s = s\<lparr>cur := c - 1\<rparr> in Some (syscall_fb_mov_cursr (cur s - 1) s) } }
           else do { b \<leftarrow> arr_set (cin_buf s) (nat (cin_pos s)) ascii;
                     let s = s\<lparr>cin_buf := b, cin_pos := cin_pos s + 1\<rparr> in
                do { (c, s) \<leftarrow> syscall_fb_write_chr scale ascii (cur s) s;
                     let s = s\<lparr>cur := c\<rparr> in Some (syscall_fb_mov_cursr (cur s - 1) s) } }
      else Some s)"

text \<open>The loop over the characters; the case of a string without terminator is a read out of range.\<close>

fun shell_cout_loop :: "(u8 \<Rightarrow> u8 \<Rightarrow> u8) \<Rightarrow> bytes \<Rightarrow> 'x shell_scheme \<Rightarrow> 'x shell_scheme option" where
  "shell_cout_loop scale [] s = None"
| "shell_cout_loop scale (c # str) s =
     (if c = 0 then Some s
      else if c = 10
      then if SCREEN_COLUMNS s = 0 then None
           else let s = s\<lparr>cur := cur s + (SCREEN_COLUMNS s - cur s mod SCREEN_COLUMNS s)\<rparr> in
                if cur s \<ge> SCREEN_COLUMNS s * SCREEN_ROWS s
                then do { s \<leftarrow> syscall_fb_scroll_down 1 s; shell_cout_loop scale str (s\<lparr>cur := cur s - SCREEN_COLUMNS s\<rparr>) }
                else shell_cout_loop scale str s
      else do { (p, s) \<leftarrow> syscall_fb_write_chr scale c (cur s) s; shell_cout_loop scale str (s\<lparr>cur := p\<rparr>) })"

definition shell_cout :: "(u8 \<Rightarrow> u8 \<Rightarrow> u8) \<Rightarrow> bytes \<Rightarrow> 'x shell_scheme \<Rightarrow> 'x shell_scheme option" where
  "shell_cout scale str s = do { s \<leftarrow> shell_cout_loop scale str s; Some (syscall_fb_mov_cursr (cur s - 1) s) }"

fun shell_wait :: "(u8 \<Rightarrow> u8 \<Rightarrow> u8) \<Rightarrow> u8 list \<Rightarrow> 'x shell_scheme \<Rightarrow> (u8 list \<times> 'x shell_scheme) option" where
  "shell_wait scale [] s = (if receiving_user_input s = 0 then Some ([], s) else None)"
| "shell_wait scale (k # ks) s =
     (if receiving_user_input s = 0 then Some (k # ks, s) else do { s \<leftarrow> shell_handle_keypress scale k s; shell_wait scale ks s })"

text \<open>\<open>panic\<close> does not return.\<close>

definition shell_cin :: "(u8 \<Rightarrow> u8 \<Rightarrow> u8) \<Rightarrow> u8 list \<Rightarrow> bytes \<Rightarrow> 'x shell_scheme \<Rightarrow> (u8 list \<times> bytes \<times> 'x shell_scheme) option" where
  "shell_cin scale keys out s =
     (let s = s\<lparr>cin_pos := 0, receiving_user_input := 1\<rparr> in
      do { (keys, s) \<leftarrow> shell_wait scale keys s;
           if 0 \<le> cin_pos s \<and> cin_pos s \<le> int CIN_BUFSZ
           then do { out \<leftarrow> memcpy_bytes out (cin_buf s) (nat (cin_pos s));
                     b \<leftarrow> memset_bytes (cin_buf s) 0 CIN_BUFSZ;
                     Some (keys, out, s\<lparr>cin_buf := b, cin_pos := 0\<rparr>) }
           else None })"

text \<open>The texts are arguments of the printing functions; \<open>greeting\<close> and \<open>MSG_HELP\<close> are the two texts of the file.\<close>

definition keyboard_init :: "(string \<Rightarrow> u32) \<Rightarrow> MADT_info \<Rightarrow> ('p, 'i, 'a) machine_state \<Rightarrow> ('p, 'i, 'a) machine_state option" where
  "keyboard_init addr_of info st = do { (_, st) \<leftarrow> interrupt_register info INT_KEYBOARD (addr_of ''ISR_KEYBOARD'') st; Some st }"

definition shell_init :: "(u8 \<Rightarrow> u8 \<Rightarrow> u8) \<Rightarrow> (string \<Rightarrow> u32) \<Rightarrow> MADT_info \<Rightarrow> bytes \<Rightarrow> 'x shell_scheme \<times> ('p, 'i, 'a) machine_state \<Rightarrow>
    ('x shell_scheme \<times> ('p, 'i, 'a) machine_state) option" where
  "shell_init scale addr_of info greeting = (\<lambda>(s, st).
     do { st \<leftarrow> keyboard_init addr_of info st;
          let s = s\<lparr>receiving_user_input := 0, cur := 0, SCREEN_COLUMNS := syscall_fb_get_scr_cols s, SCREEN_ROWS := syscall_fb_get_scr_rows s\<rparr>;
              s = syscall_register_kb_handler (addr_of ''shell_handle_keypress'') s in
     do { s \<leftarrow> syscall_fb_clr_scr scale s;
          s \<leftarrow> shell_cout scale greeting (s\<lparr>cur := 0\<rparr>);
          Some (s, st) } })"

definition shell_gettime :: "'t timer_scheme \<Rightarrow> u32" where
  "shell_gettime t = getticks t"

section \<open>Commands\<close>

datatype command = Uptime | Help | Program | Rei | Tests | Reboot | Shutdown | Clear | Unknown

text \<open>The names in the order of the comparisons, with their terminators.\<close>

definition command_names :: "(bytes \<times> command) list" where
  "command_names = [([117, 112, 116, 105, 109, 101], Uptime), ([104, 101, 108, 112], Help), ([112, 114, 111, 103, 114, 97, 109], Program),
     ([114, 101, 105, 46, 98, 109, 112], Rei), ([116, 101, 115, 116, 115], Tests), ([114, 101, 98, 111, 111, 116], Reboot),
     ([115, 104, 117, 116, 100, 111, 119, 110], Shutdown), ([99, 108, 101, 97, 114], Clear)]"

fun find_command :: "(bytes \<times> command) list \<Rightarrow> bytes \<Rightarrow> command option" where
  "find_command [] cmd = Some Unknown"
| "find_command ((n, c) # ns) cmd =
     do { l \<leftarrow> strlen (n @ [0]); r \<leftarrow> strncmp cmd (n @ [0]) l; if r = 0 then Some c else find_command ns cmd }"

text \<open>The fields \<open>size\<close> and \<open>mod_start\<close> of a module tag.\<close>

definition mod_size :: "bytes \<Rightarrow> u32" where "mod_size t = word_of_bytes (take 4 (drop 4 t))"
definition mod_start :: "bytes \<Rightarrow> u32" where "mod_start t = word_of_bytes (take 4 (drop 8 t))"

text \<open>\<open>start_program a\<close> is what the user program at address \<open>a\<close> does.\<close>

definition call_user_module :: "(u32 \<Rightarrow> 'w \<Rightarrow> (u32 \<times> 'w) option) \<Rightarrow> multiboot_info \<Rightarrow> 'w \<Rightarrow> (u32 \<times> 'w) option" where
  "call_user_module start_program mb w =
     do { t \<leftarrow> arr_get (mods mb) 0; if mod_size t > 0 then start_program (mod_start t + 0x0) w else Some (0, w) }"

text \<open>One round of the loop of \<open>test_multitasking\<close>, without the delay; the position is a word of the memory.\<close>

definition test_multitasking_round :: "(u8 \<Rightarrow> u8 \<Rightarrow> u8) \<Rightarrow> u32 \<Rightarrow> u8 \<Rightarrow> u32 \<Rightarrow> 'x shell_scheme \<times> 'a tasks_scheme \<Rightarrow> ('x shell_scheme \<times> 'a tasks_scheme) option" where
  "test_multitasking_round scale t cpu screenpos = (\<lambda>(sh, s).
     do { (_, msg) \<leftarrow> int_to_str_u (replicate 16 0) 16 t;
          (_, cpustr) \<leftarrow> int_to_str_s (replicate 16 0) 16 (ucast cpu);
          l \<leftarrow> strlen cpustr;
          (p, sh) \<leftarrow> syscall_fb_write_str scale cpustr (load32 (kmem s) screenpos) (l + 1) sh;
          let s = s\<lparr>kmem := store32 (kmem s) screenpos p\<rparr> in
     do { l \<leftarrow> strlen msg;
          (p, sh) \<leftarrow> syscall_fb_write_str scale msg (load32 (kmem s) screenpos) (l + 1) sh;
          Some (sh, s\<lparr>kmem := store32 (kmem s) screenpos p\<rparr>) } })"

text \<open>The texts in front of the two tests are \<open>t1\<close> and \<open>t2\<close>.\<close>

definition run_tests :: "(u8 \<Rightarrow> u8 \<Rightarrow> u8) \<Rightarrow> (string \<Rightarrow> u32) \<Rightarrow> bytes \<Rightarrow> bytes \<Rightarrow> 'x shell_scheme \<times> 'a tasks_scheme \<Rightarrow> ('x shell_scheme \<times> 'a tasks_scheme) option" where
  "run_tests scale addr_of t1 t2 = (\<lambda>(sh, s).
     do { sh \<leftarrow> shell_cout scale t1 sh;
          sh \<leftarrow> syscall_fb_draw_rect scale 300 200 350 250 (syscall_fb_brush_set_color 0xff 0 0 sh);
          sh \<leftarrow> syscall_fb_draw_rect scale 350 200 400 250 (syscall_fb_brush_set_color 0 0xff 0 sh);
          sh \<leftarrow> syscall_fb_draw_rect scale 400 200 450 250 (syscall_fb_brush_set_color 0 0 0xff sh);
          sh \<leftarrow> shell_cout scale t2 (syscall_fb_brush_set_color 0xff 0xff 0 sh);
          let s = s\<lparr>kmem := store32 (kmem s) (addr_of ''pos1'') (syscall_fb_get_scr_cols sh * 7 + 30)\<rparr>;
              s = s\<lparr>kmem := store32 (kmem s) (addr_of ''pos2'') (syscall_fb_get_scr_cols sh * 8 + 30)\<rparr> in
     do { (task1, s) \<leftarrow> task_new (addr_of ''test_multitasking'') (addr_of ''pos1'') (4096 * 2) 5 s;
          (task2, s) \<leftarrow> task_new (addr_of ''test_multitasking'') (addr_of ''pos2'') (4096 * 2) 5 s;
          s \<leftarrow> task_detach task1 s;
          s \<leftarrow> task_detach task2 s;
          Some (sh, s) } })"

text \<open>The picture: \<open>b0\<close> is what the uninitialised variable \<open>bmp_rei\<close> holds.\<close>

definition draw_picture :: "(u8 \<Rightarrow> u8 \<Rightarrow> u8) \<Rightarrow> multiboot_info \<Rightarrow> bmp \<Rightarrow> 'x shell_scheme \<times> 'a liballoc_scheme \<Rightarrow> ('x shell_scheme \<times> 'a liballoc_scheme) option" where
  "draw_picture scale mb b0 = (\<lambda>(sh, s).
     do { t \<leftarrow> arr_get (mods mb) 1;
          let b = snd (libbmp_decode_bmp (kmem s) (mod_start t) b0) in
     do { (pix, s) \<leftarrow> mmu_mmap (img_h b * img_w b * 4) s;
          m \<leftarrow> libbmp_get_all_pixels b pix (kmem s);
          let s = s\<lparr>kmem := m\<rparr> in
     do { (index, g) \<leftarrow> forM [0..<unat (img_h b)] (\<lambda>i. forM [0..<unat (img_w b)] (\<lambda>j (index, g).
            let p = pix + 4 * index in
            do { color \<leftarrow> svga_translate_rgb scale (m p) (m (p + 1)) (m (p + 2)) g;
                 g \<leftarrow> svga_draw_pixel (450 + of_nat j) (100 + img_h b - of_nat i) color g;
                 Some (index + 1, g) })) (0 :: u32, gfx sh);
          s \<leftarrow> mmu_munmap pix s;
          Some (sh\<lparr>gfx := g\<rparr>, s) } } })"

definition shell_handle_cmd :: "(u8 \<Rightarrow> u8 \<Rightarrow> u8) \<Rightarrow> (string \<Rightarrow> u32) \<Rightarrow> (string \<Rightarrow> bytes) \<Rightarrow> multiboot_info \<Rightarrow> bmp \<Rightarrow> 't timer_scheme \<Rightarrow>
    (u32 \<Rightarrow> 'x shell_scheme \<times> 'a tasks_scheme \<Rightarrow> (u32 \<times> 'x shell_scheme \<times> 'a tasks_scheme) option) \<Rightarrow>
    ('x shell_scheme \<times> 'a tasks_scheme \<Rightarrow> ('x shell_scheme \<times> 'a tasks_scheme) option) \<Rightarrow>
    ('x shell_scheme \<times> 'a tasks_scheme \<Rightarrow> ('x shell_scheme \<times> 'a tasks_scheme) option) \<Rightarrow>
    bytes \<Rightarrow> 'x shell_scheme \<times> 'a tasks_scheme \<Rightarrow> ('x shell_scheme \<times> 'a tasks_scheme) option" where
  "shell_handle_cmd scale addr_of msg mb b0 t start_program reboot shutdown cmd = (\<lambda>(sh, s).
     do { c \<leftarrow> find_command command_names cmd;
          case c of
            Uptime \<Rightarrow> do { (_, ticksbuf) \<leftarrow> int_to_str_u (replicate 12 0) 12 (shell_gettime t);
                         sh \<leftarrow> shell_cout scale ticksbuf sh; sh \<leftarrow> shell_cout scale [10, 0] sh; Some (sh, s) }
          | Help \<Rightarrow> do { sh \<leftarrow> shell_cout scale (msg ''MSG_HELP'') sh; sh \<leftarrow> shell_cout scale [10, 0] sh; Some (sh, s) }
          | Program \<Rightarrow> do { (r, sh, s) \<leftarrow> call_user_module start_program mb (sh, s);
                          (_, ret_s) \<leftarrow> int_to_str_s (replicate 12 0) 12 r;
                          sh \<leftarrow> shell_cout scale ret_s sh; sh \<leftarrow> shell_cout scale [10, 0] sh; Some (sh, s) }
          | Rei \<Rightarrow> draw_picture scale mb b0 (sh, s)
          | Tests \<Rightarrow> run_tests scale addr_of (msg ''Test VGA'') (msg ''Test multitask'') (sh, s)
          | Reboot \<Rightarrow> reboot (sh, s)
          | Shutdown \<Rightarrow> shutdown (sh, s)
          | Clear \<Rightarrow> do { sh \<leftarrow> syscall_fb_clr_scr scale sh; Some (sh\<lparr>cur := 0\<rparr>, s) }
          | Unknown \<Rightarrow> Some (sh, s) })"

text \<open>One round of the endless loop of \<open>shell_main\<close>; \<open>handle\<close> is the command with its arguments.\<close>

definition shell_main_round :: "(u8 \<Rightarrow> u8 \<Rightarrow> u8) \<Rightarrow> (bytes \<Rightarrow> 'x shell_scheme \<times> 'a tasks_scheme \<Rightarrow> ('x shell_scheme \<times> 'a tasks_scheme) option) \<Rightarrow> u8 list \<Rightarrow>
    'x shell_scheme \<times> 'a tasks_scheme \<Rightarrow> (u8 list \<times> 'x shell_scheme \<times> 'a tasks_scheme) option" where
  "shell_main_round scale handle keys = (\<lambda>(sh, s).
     let buf = replicate CIN_BUFSZ 0 in
     do { sh \<leftarrow> shell_cout scale [62, 0] sh;
          (keys, buf, sh) \<leftarrow> shell_cin scale keys buf sh;
          sh \<leftarrow> shell_cout scale [10, 0] sh;
          st \<leftarrow> handle buf (sh, s);
          Some (keys, st) })"

section \<open>Drawing cells\<close>

text \<open>A frame buffer in which every cell of the character grid can be drawn.\<close>

definition screen_ok :: "svga \<Rightarrow> bool" where
  "screen_ok g \<longleftrightarrow> fb_ok g \<and> framebuffer_type (tag g) = 1 \<and> 0 < unat (SCR_COLUMNS g) \<and> 8 * unat (SCR_COLUMNS g) \<le> unat (SCR_W g) \<and>
     11 * unat (SCR_ROWS g) \<le> unat (SCR_H g) \<and> unat (SCR_ROWS g) * unat (SCR_COLUMNS g) < 2 ^ 32 - 1"

definition cells_of_screen :: "svga \<Rightarrow> nat" where
  "cells_of_screen g = unat (SCR_ROWS g) * unat (SCR_COLUMNS g)"

lemma draw_cell_ok:
  assumes ok: "screen_ok g" and pos: "unat scrpos < cells_of_screen g"
  shows "\<exists>g'. svga_draw_char_cell scrpos c color g = Some (scrpos + 1, g') \<and> screen_ok g' \<and> cells_of_screen g' = cells_of_screen g"
proof -
  let ?cols = "SCR_COLUMNS g" and ?rows = "SCR_ROWS g"
  have g: "fb_ok g" "0 < unat ?cols" "8 * unat ?cols \<le> unat (SCR_W g)" "11 * unat ?rows \<le> unat (SCR_H g)" "unat ?rows * unat ?cols < 2 ^ 32 - 1"
    using ok by (auto simp: screen_ok_def)
  have p: "unat scrpos < unat ?rows * unat ?cols" using pos by (simp add: cells_of_screen_def)
  have sz: "unat (?rows * ?cols) = unat ?rows * unat ?cols" using g(5) by (intro unat_mult_less) simp
  have "unat (scrpos + 1) = unat scrpos + 1" using unat_add_less [of scrpos 1] p g(5) by simp
  then have noscroll: "\<not> scrpos + 1 > ?rows * ?cols" using p sz by (simp add: word_less_nat_alt)
  have y: "unat scrpos div unat ?cols < unat ?rows" using p g(2) by (simp add: less_mult_imp_div_less)
  have x: "unat scrpos mod unat ?cols < unat ?cols" using g(2) by simp
  have ux: "unat (of_nat FONT_W * (scrpos mod ?cols)) = 8 * (unat scrpos mod unat ?cols)"
    using unat_mult_less [of 8 "scrpos mod ?cols"] x g(3) unat_less_32 [of "SCR_W g"] by (simp add: FONT_W_def unat_mod)
  have uy: "unat (of_nat (FONT_H + 2) * (scrpos div ?cols)) = 11 * (unat scrpos div unat ?cols)"
    using unat_mult_less [of 11 "scrpos div ?cols"] y g(4) unat_less_32 [of "SCR_H g"] by (simp add: FONT_H_def unat_div)
  obtain t where t: "svga_draw_char (of_nat FONT_W * (scrpos mod ?cols)) (of_nat (FONT_H + 2) * (scrpos div ?cols)) c color g = Some t"
      "fb_ok t" "\<exists>fb bb. t = g\<lparr>svga_lfb := fb, backbuffer := bb\<rparr>"
    using svga_draw_char_ok [OF g(1), of "of_nat FONT_W * (scrpos mod ?cols)" "of_nat (FONT_H + 2) * (scrpos div ?cols)" c color] ux uy x y g(3,4)
    by (auto simp: drawn_def)
  have "?cols \<noteq> 0" using g(2) by auto
  then have "svga_draw_char_cell scrpos c color g = Some (scrpos + 1, t)" using noscroll t(1) by (simp add: svga_draw_char_cell_def Let_def)
  moreover have "screen_ok t" "cells_of_screen t = cells_of_screen g" using t(2,3) ok by (auto simp: screen_ok_def cells_of_screen_def)
  ultimately show ?thesis by blast
qed

lemma translate_some: "screen_ok g \<Longrightarrow> \<exists>c. svga_translate_rgb scale r gr b g = Some c"
  by (simp add: screen_ok_def svga_translate_rgb_def Let_def)

lemma write_chr_ok:
  assumes "screen_ok (gfx s)" "unat scrpos < cells_of_screen (gfx s)"
  obtains g' where "syscall_fb_write_chr scale c scrpos s = Some (scrpos + 1, s\<lparr>gfx := g'\<rparr>)" "screen_ok g'" "cells_of_screen g' = cells_of_screen (gfx s)"
proof -
  obtain col where "svga_translate_rgb scale (brush_r s) (brush_g s) (brush_b s) (gfx s) = Some col" using translate_some [OF assms(1)] by blast
  then show thesis using draw_cell_ok [OF assms, of c col] that by (auto simp: syscall_fb_write_chr_def brush_color_def)
qed

lemma clr_cell_ok:
  assumes "screen_ok (gfx s)" "unat scrpos < cells_of_screen (gfx s)"
  obtains g' where "syscall_fb_clr_cell scale scrpos s = Some (scrpos + 1, s\<lparr>gfx := g'\<rparr>)" "screen_ok g'" "cells_of_screen g' = cells_of_screen (gfx s)"
proof -
  obtain col where "svga_translate_rgb scale 0 0 0 (gfx s) = Some col" using translate_some [OF assms(1)] by blast
  then show thesis using draw_cell_ok [OF assms, of 255 col] that by (auto simp: syscall_fb_clr_cell_def svga_clr_cell_def)
qed

section \<open>The line editor\<close>

text \<open>What a key does to the line: keys are ignored when the buffer is full.\<close>

definition edit_key :: "bytes \<Rightarrow> u8 \<Rightarrow> bytes" where
  "edit_key line k = (if k = 0 \<or> CIN_BUFSZ \<le> length line then line else if k = KEY_BACKSPACE then butlast line else line @ [k])"

definition editing :: "u32 \<Rightarrow> nat \<Rightarrow> bytes \<Rightarrow> 'x shell_scheme \<Rightarrow> bool" where
  "editing c0 n line s \<longleftrightarrow> receiving_user_input s \<noteq> 0 \<and> length (cin_buf s) = CIN_BUFSZ \<and> length line \<le> CIN_BUFSZ \<and> cin_pos s = int (length line) \<and>
     take (length line) (cin_buf s) = line \<and> cur s = c0 + of_nat (length line) \<and> screen_ok (gfx s) \<and> cells_of_screen (gfx s) = n"

lemma keypress_edits:
  assumes e: "editing c0 n line s" and k: "k \<noteq> 10" and room: "unat c0 + length line < n"
  obtains s' where "shell_handle_keypress scale k s = Some s'" "editing c0 n (edit_key line k) s'"
proof -
  have E: "receiving_user_input s \<noteq> 0" "length (cin_buf s) = 256" "length line \<le> 256" "cin_pos s = int (length line)"
      "take (length line) (cin_buf s) = line" "cur s = c0 + of_nat (length line)" "screen_ok (gfx s)" "cells_of_screen (gfx s) = n"
    using e by (auto simp: editing_def CIN_BUFSZ_def)
  have n: "n < 2 ^ 32" using E(7,8) by (auto simp: screen_ok_def cells_of_screen_def)
  have addr: "unat (c0 + of_nat j) = unat c0 + j" if "j \<le> length line" for j
    using that room n unat_add_less [of c0 "of_nat j"] unat_of_nat_small [of j, where ?'a = 32] by simp
  consider "k = 0 \<or> 256 \<le> length line" | "k \<noteq> 0" "length line < 256" "k = KEY_BACKSPACE" "line = []"
    | "k \<noteq> 0" "length line < 256" "k = KEY_BACKSPACE" "line \<noteq> []" | "k \<noteq> 0" "length line < 256" "k \<noteq> KEY_BACKSPACE" by fastforce
  then show thesis
  proof cases
    case 1
    then show thesis using e k E that [of s] by (auto simp: shell_handle_keypress_def edit_key_def CIN_BUFSZ_def)
  next
    case 2
    then show thesis using e k E that [of s] by (auto simp: shell_handle_keypress_def edit_key_def CIN_BUFSZ_def)
  next
    case 3
    then obtain l x where l: "line = l @ [x]" by (meson rev_exhaust)
    let ?s = "s\<lparr>cin_buf := (cin_buf s)[length line := 0], cin_pos := int (length line) - 1, cur := cur s - 1\<rparr>"
    have c: "cur s - 1 = c0 + of_nat (length l)" using E(6) l by simp
    then have ok: "screen_ok (gfx ?s)" "unat (cur s - 1) < cells_of_screen (gfx ?s)" using E(7,8) addr [of "length l"] room l by simp_all
    obtain g' where g': "syscall_fb_clr_cell scale (cur s - 1) ?s = Some (cur s - 1 + 1, ?s\<lparr>gfx := g'\<rparr>)" "screen_ok g'" "cells_of_screen g' = cells_of_screen (gfx ?s)"
      by (rule clr_cell_ok [OF ok])
    let ?t = "?s\<lparr>gfx := g', cur := cur s - 1\<rparr>"
    have "shell_handle_keypress scale k s = Some ?t"
      using g'(1) 3 k E by (simp add: shell_handle_keypress_def CIN_BUFSZ_def syscall_fb_mov_cursr_def svga_move_cursor_def Let_def)
    moreover have "take (length l) ((cin_buf s)[length line := 0]) = l" using E(5) l by (metis append_eq_conv_conj length_append_singleton lessI less_imp_le_nat take_update_cancel take_take min.absorb1 butlast_snoc take_butlast)
    then have "editing c0 n l ?t" using E c g'(2,3) 3(2) l by (simp add: editing_def CIN_BUFSZ_def)
    ultimately show thesis using that [of ?t] 3 l by (simp add: edit_key_def CIN_BUFSZ_def)
  next
    case 4
    let ?s = "s\<lparr>cin_buf := (cin_buf s)[length line := k], cin_pos := int (length line) + 1\<rparr>"
    have ok: "screen_ok (gfx ?s)" "unat (cur s) < cells_of_screen (gfx ?s)" using E(6-8) addr [of "length line"] room by simp_all
    obtain g' where g': "syscall_fb_write_chr scale k (cur s) ?s = Some (cur s + 1, ?s\<lparr>gfx := g'\<rparr>)" "screen_ok g'" "cells_of_screen g' = cells_of_screen (gfx ?s)"
      by (rule write_chr_ok [OF ok])
    let ?t = "?s\<lparr>gfx := g', cur := cur s + 1\<rparr>"
    have "shell_handle_keypress scale k s = Some ?t"
      using g'(1) 4 k E by (simp add: shell_handle_keypress_def CIN_BUFSZ_def syscall_fb_mov_cursr_def svga_move_cursor_def Let_def)
    moreover have "take (Suc (length line)) ((cin_buf s)[length line := k]) = line @ [k]" using E(2,5) 4(2) by (simp add: take_Suc_conv_app_nth)
    then have "editing c0 n (line @ [k]) ?t" using E g'(2,3) 4(2) by (simp add: editing_def CIN_BUFSZ_def)
    ultimately show thesis using that [of ?t] 4 by (simp add: edit_key_def CIN_BUFSZ_def)
  qed
qed

lemma edit_key_length: "length (edit_key line k) \<le> Suc (length line)"
  by (auto simp: edit_key_def)

lemma wait_edits:
  assumes "editing c0 n line s" "10 \<notin> set ks" "unat c0 + length line + length ks \<le> n"
  shows "\<exists>s'. editing c0 n (foldl edit_key line ks) s' \<and> shell_wait scale (ks @ 10 # rest) s = Some (rest, s'\<lparr>receiving_user_input := 0\<rparr>)"
  using assms
proof (induction ks arbitrary: line s)
  case Nil
  then have r: "receiving_user_input s \<noteq> 0" by (simp add: editing_def)
  then have k: "shell_handle_keypress scale 10 s = Some (s\<lparr>receiving_user_input := 0\<rparr>)" by (simp add: shell_handle_keypress_def)
  have "shell_wait scale rest (s\<lparr>receiving_user_input := 0\<rparr>) = Some (rest, s\<lparr>receiving_user_input := 0\<rparr>)" by (cases rest) simp_all
  then show ?case using Nil(1) r k by (intro exI [of _ s]) simp
next
  case (Cons k ks)
  have r: "receiving_user_input s \<noteq> 0" using Cons.prems(1) by (simp add: editing_def)
  have k: "k \<noteq> 10" "unat c0 + length line < n" using Cons.prems(2,3) by auto
  obtain s1 where s1: "shell_handle_keypress scale k s = Some s1" "editing c0 n (edit_key line k) s1" by (rule keypress_edits [OF Cons.prems(1) k])
  have "unat c0 + length (edit_key line k) + length ks \<le> n" using edit_key_length [of line k] Cons.prems(3) by simp
  then show ?case using Cons.IH [OF s1(2)] Cons.prems(2) r s1(1) by simp
qed

section \<open>Finding the command\<close>

lemma find_command_first:
  assumes "\<And>n c. (n, c) \<in> set ns \<Longrightarrow> 0 \<notin> set n \<and> length n \<le> length cmd \<and> length n < 2 ^ 32"
  shows "find_command ns cmd = Some (case find (\<lambda>(n, c). take (length n) cmd = n) ns of None \<Rightarrow> Unknown | Some (n, c) \<Rightarrow> c)"
  using assms
proof (induction ns)
  case (Cons nc ns)
  obtain n c where nc: "nc = (n, c)" by (cases nc)
  have n: "0 \<notin> set n" "length n \<le> length cmd" "length n < 2 ^ 32" using Cons.prems [of n c] nc by auto
  have l: "strlen (n @ [0]) = Some (of_nat (length n))" using n(1) by (simp add: strlen_cstr terminated_def cstr_append)
  obtain r where r: "strncmp cmd (n @ [0]) (of_nat (length n)) = Some r" "r = 0 \<longleftrightarrow> take (length n) cmd = n"
    using strncmp_loop_prefix [OF n(2) refl n(1), of "[]"] n(3) by (auto simp: strncmp_def unat_of_nat_small)
  have "find_command ns cmd = Some (case find (\<lambda>(n, c). take (length n) cmd = n) ns of None \<Rightarrow> Unknown | Some (n, c) \<Rightarrow> c)"
    using Cons.prems by (intro Cons.IH) auto
  then show ?case using l r by (simp add: nc)
qed simp

lemma command_names_ok: "(n, c) \<in> set command_names \<Longrightarrow> 0 \<notin> set n \<and> length n \<le> 256"
  by (auto simp: command_names_def)

lemma find_typed_command:
  assumes "(n, c) \<in> set command_names"
  shows "find_command command_names (n @ replicate (256 - length n) 0) = Some c"
proof -
  let ?cmd = "n @ replicate (256 - length n) 0"
  have "find_command command_names ?cmd = Some (case find (\<lambda>(n, c). take (length n) ?cmd = n) command_names of None \<Rightarrow> Unknown | Some (n, c) \<Rightarrow> c)"
    using command_names_ok assms by (intro find_command_first) fastforce
  moreover have "find (\<lambda>(n, c). take (length n) ?cmd = n) command_names = Some (n, c)"
    using assms unfolding command_names_def set_simps insert_iff empty_iff prod.inject
    by (elim disjE conjE) simp_all
  ultimately show ?thesis by simp
qed

section \<open>Properties\<close>

text \<open>
  C15. The shell reads the line the user typed: with room on the screen, \<open>shell_cin\<close> returns at the first newline, behind any keys and corrections, with the edited line in the buffer of
  the caller and the remaining keys left; the cursor stands behind the line on the screen, and the input buffer is empty for the next line. When
  the line is the name of a command, \<open>shell_handle_cmd\<close> selects that command.
\<close>

theorem shell_reads_line:
  fixes s :: "'x shell_scheme"
  assumes scr: "screen_ok (gfx s)" "unat (cur s) + length ks \<le> cells_of_screen (gfx s)" and buf: "length (cin_buf s) = 256" and ks: "10 \<notin> set ks"
  shows "\<exists>s' line. line = foldl edit_key [] ks \<and>
     shell_cin scale (ks @ 10 # rest) (replicate 256 0) s = Some (rest, line @ replicate (256 - length line) 0, s') \<and>
     cur s' = cur s + of_nat (length line) \<and> cin_pos s' = 0 \<and> cin_buf s' = replicate 256 0 \<and> receiving_user_input s' = 0 \<and> screen_ok (gfx s') \<and>
     (\<forall>c. (line, c) \<in> set command_names \<longrightarrow> find_command command_names (line @ replicate (256 - length line) 0) = Some c)"
proof -
  let ?s = "s\<lparr>cin_pos := 0, receiving_user_input := 1\<rparr>" and ?line = "foldl edit_key [] ks"
  have "editing (cur s) (cells_of_screen (gfx s)) [] ?s" using scr(1) buf by (simp add: editing_def CIN_BUFSZ_def)
  then obtain t where t: "editing (cur s) (cells_of_screen (gfx s)) ?line t"
      "shell_wait scale (ks @ 10 # rest) ?s = Some (rest, t\<lparr>receiving_user_input := 0\<rparr>)"
    using wait_edits [of "cur s" _ "[]" ?s ks] ks scr(2) by fastforce
  have T: "length (cin_buf t) = 256" "length ?line \<le> 256" "cin_pos t = int (length ?line)" "take (length ?line) (cin_buf t) = ?line"
      "cur t = cur s + of_nat (length ?line)" "screen_ok (gfx t)" using t(1) by (auto simp: editing_def CIN_BUFSZ_def)
  have "memcpy_bytes (replicate 256 0) (cin_buf t) (length ?line) = Some (?line @ replicate (256 - length ?line) 0)"
    using T(1,2,4) by (simp add: memcpy_bytes_ok)
  moreover have "memset_bytes (cin_buf t) 0 256 = Some (replicate 256 0)" using T(1) by (simp add: memset_bytes_ok)
  ultimately have "shell_cin scale (ks @ 10 # rest) (replicate 256 0) s =
     Some (rest, ?line @ replicate (256 - length ?line) 0, t\<lparr>receiving_user_input := 0, cin_buf := replicate 256 0, cin_pos := 0\<rparr>)"
    using t(2) T(2,3) by (simp add: shell_cin_def CIN_BUFSZ_def)
  then show ?thesis using T find_typed_command by (intro exI [of _ "t\<lparr>receiving_user_input := 0, cin_buf := replicate 256 0, cin_pos := 0\<rparr>"] exI [of _ ?line]) simp
qed

section \<open>Samples\<close>

text \<open>A screen of one line with seven columns, on which \<open>hex\<close>, a backspace, \<open>lp\<close> and a newline are typed.\<close>

definition sample_line :: shell where
  "sample_line = \<lparr>brush_r = 255, brush_g = 255, brush_b = 0,
     gfx = sample_svga\<lparr>SCR_W := 56, SCR_H := 11, SCR_COLUMNS := 7, SCR_ROWS := 1, svga_lfb := replicate 2464 0, backbuffer := replicate 2464 0,
       tag := (tag sample_svga)\<lparr>framebuffer_pitch := 224\<rparr>\<rparr>, kb_handler_cb = 0, cur = 1, SCREEN_COLUMNS = 7, SCREEN_ROWS = 1, receiving_user_input = 0,
     cin_buf = replicate 256 0, cin_pos = 0\<rparr>"

theorem shell_reads_line_witness:
  "\<exists>s'. shell_cin (\<lambda>_ c. c) ([104, 101, 120, 8, 108, 112] @ [10]) (replicate 256 0) sample_line = Some ([], [104, 101, 108, 112] @ replicate 252 0, s') \<and>
     cur s' = 5 \<and> find_command command_names ([104, 101, 108, 112] @ replicate 252 0) = Some Help"
proof -
  have scr: "screen_ok (gfx sample_line)" "unat (cur sample_line) + length ([104, 101, 120, 8, 108, 112] :: u8 list) \<le> cells_of_screen (gfx sample_line)"
    by (simp_all add: sample_line_def screen_ok_def fb_ok_def cells_of_screen_def sample_svga_def)
  have e: "foldl edit_key [] [104, 101, 120, 8, 108, 112] = [104, 101, 108, 112]" by (simp add: edit_key_def CIN_BUFSZ_def KEY_BACKSPACE_def)
  have c: "([104, 101, 108, 112], Help) \<in> set command_names" "cur sample_line = 1" "length (cin_buf sample_line) = 256" by (simp_all add: command_names_def sample_line_def)
  have k: "10 \<notin> set ([104, 101, 120, 8, 108, 112] :: u8 list)" by simp
  from shell_reads_line [OF scr c(3) k, of "\<lambda>_ c. c" "[]"] show ?thesis unfolding e using c(1,2) by (elim exE conjE) simp
qed

end
