(* ===== verification/Boot.thy ===== *)
theory Boot
  imports Interrupt Multiboot
begin

text \<open>
  \<^verbatim>\<open>kernel/kmain.c\<close> up to the start of the memory management, and \<open>mmu_init\<close> of \<^verbatim>\<open>kernel/mmu/mmu.c\<close>: how the first calls of the kernel establish the
  invariant that the theorems on the heap assume. The addresses of the kernel's image are those of the linker; \<open>panic\<close> ends the run.
\<close>

section \<open>The code\<close>

definition MULTIBOOT2_BOOTLOADER_MAGIC :: u32 where "MULTIBOOT2_BOOTLOADER_MAGIC = 0x36d76289"

definition mmu_init :: "(string \<Rightarrow> u32) \<Rightarrow> MADT_info \<Rightarrow> ('p, 'i, 'a) machine_state \<Rightarrow> ('p, 'i, 'a) machine_state option" where
  "mmu_init addr_of info st =
     do { (_, p, io, s) \<leftarrow> interrupt_register info INT_PAGEFAULT (addr_of ''ISR_PAGEFAULT'') st;
          s \<leftarrow> paging_init s;
          s \<leftarrow> test_pageframe_firstpage s;
          Some (p, io, s) }"

datatype panicked = Invalid_magic | Unaligned_mbi

definition kmain_memory :: "(string \<Rightarrow> u32) \<Rightarrow> MADT_info \<Rightarrow> u32 \<Rightarrow> u32 \<Rightarrow> ('p, 'i, 'a) machine_state \<Rightarrow>
    (panicked + multiboot_info \<times> ('p, 'i, 'a) machine_state) option" where
  "kmain_memory addr_of info mb_magic addr = (\<lambda>(p, io, s).
     let p = serial_defconfig SERIAL_COM1_BASE p in
     if mb_magic \<noteq> MULTIBOOT2_BOOTLOADER_MAGIC then Some (Inl Invalid_magic)
     else if addr AND 7 \<noteq> 0 then Some (Inl Unaligned_mbi)
     else do { mb \<leftarrow> multiboot_info_init (kmem s) addr mbinfo0;
               let s = s\<lparr>kheap.phys_mem_upper := multiboot_info.phys_mem_upper mb\<rparr>;
                   s = kinfo_init (addr_of ''KERNEL_START_PHYS'') (addr_of ''KERNEL_START_VIRTUAL'') (addr_of ''KERNEL_END_PHYS'')
                         (addr_of ''KERNEL_END_VIRTUAL'') s;
                   s = kheap_init s in
               do { st \<leftarrow> mmu_init addr_of info (p, io, s); Some (Inr (mb, st)) } })"

section \<open>The bit map of the frames and the page tables\<close>

lemma tables_ok_grow:
  assumes ok: "tables_ok pd T m cur" and c: "cur \<le> cur'" and m': "\<And>x. unat x < cur \<Longrightarrow> m' x = m x"
  shows "tables_ok pd T m' cur'" "\<And>i j. i < 1024 \<Longrightarrow> j < 1024 \<Longrightarrow> entry m' pd i = entry m pd i \<and> (T ! i \<noteq> 0 \<longrightarrow> entry m' (T ! i) j = entry m (T ! i) j)"
proof -
  have e: "entry m' a j = entry m a j" if "4096 dvd unat a" "unat a + 4096 \<le> cur" "j < 1024" for a j
  proof -
    have "m' (a + 4 * of_nat j + of_nat k) = m (a + 4 * of_nat j + of_nat k)" if "k < 4" for k
    proof -
      have "unat (a + 4 * of_nat j + of_nat k) = unat a + 4 * j + k"
        using aligned_offset [OF table_entry_addr(2) [OF \<open>4096 dvd unat a\<close> \<open>j < 1024\<close>] that] table_entry_addr(1) [OF \<open>4096 dvd unat a\<close> \<open>j < 1024\<close>] by simp
      then show ?thesis using \<open>unat a + 4096 \<le> cur\<close> \<open>j < 1024\<close> that by (intro m') simp
    qed
    from this [of 0] this [of 1] this [of 2] this [of 3] show ?thesis by (simp add: entry_def load32_def)
  qed
  have pd: "entry m' pd i = entry m pd i" if "i < 1024" for i using e [of pd i] ok that by (auto simp: tables_ok_def)
  have tb: "entry m' (T ! i) j = entry m (T ! i) j" if "i < 1024" "j < 1024" "T ! i \<noteq> 0" for i j using e [of "T ! i" j] ok that by (auto simp: tables_ok_def)
  have bound: "4096 dvd unat (T ! i) \<and> unat (T ! i) + 4096 \<le> cur' \<and> T ! i \<noteq> pd" if "i < 1024" "T ! i \<noteq> 0" for i
    using tables_okD(4,5,6) [OF ok that] c by simp
  have self: "entry m' pd i \<noteq> 0 \<and> maps_self (1024 * i + j) (entry m' (T ! i) j)" if "i < 1024" "j < 1024" "T ! i \<noteq> 0" "entry m' (T ! i) j \<noteq> 0" for i j
    using tables_okD(9) [OF ok that(1) that(3) that(2)] that(4) pd [OF that(1)] tb [OF that(1-3)] by simp
  have dir: "T ! i \<noteq> 0 \<and> entry m' pd i = (T ! i OR 3)" if "i < 1024" "entry m' pd i \<noteq> 0" for i
    using tables_okD(8) [OF ok that(1)] that(2) pd [OF that(1)] by simp
  have distinct: "i = j" if "i < 1024" "j < 1024" "T ! i = T ! j" "T ! i \<noteq> 0" for i j
    using tables_okD(7) [OF ok that] .
  have "length T = 1024 \<and> 4096 dvd unat pd \<and> unat pd + 4096 \<le> cur'" using tables_okD(1-3) [OF ok, of 0] c by simp
  then show "tables_ok pd T m' cur'" unfolding tables_ok_def using bound self dir distinct by blast
  show "\<And>i j. i < 1024 \<Longrightarrow> j < 1024 \<Longrightarrow> entry m' pd i = entry m pd i \<and> (T ! i \<noteq> 0 \<longrightarrow> entry m' (T ! i) j = entry m (T ! i) j)" using pd tb by blast
qed

lemma pf_init_frame:
  assumes pre: "pf_init_pre s" and mem: "8192 \<le> unat (kheap.phys_mem_upper s)"
  obtains b m c where "pageframe_alloc_init s = Some (s\<lparr>pages_total_phys := (kheap.phys_mem_upper s * 1024) div 4096, heap_cur := c, kmem := m,
      pageframe_bitmap := b, is_initialized := True\<rparr>)"
    "unat (heap_cur s) \<le> unat c" "unat c < unat (heap_cur s) + 4096 + unat (kheap.phys_mem_upper s) div 32"
    "\<forall>x. unat x < unat (heap_cur s) \<longrightarrow> m x = kmem s x"
proof -
  define n where "n = (kheap.phys_mem_upper s * 1024) div 4096"
  have n: "unat (n div 8) = unat (kheap.phys_mem_upper s) div 32" using pf_init_frames(2) [OF pre] by (simp add: n_def)
  let ?s = "s\<lparr>pages_total_phys := n\<rparr>" and ?bs = "replicate (unat (n div 8)) 0 :: bytes"
  have "kheap_room (n div 8) 4096 ?s" using pre n by (simp add: kheap_room_def pf_init_pre_def)
  then obtain r t where t: "kmalloc_align (n div 8) 4096 ?s = Some (r, t)" "unat (heap_cur ?s) \<le> unat r" "unat r < unat (heap_cur ?s) + unat (4096 :: u32)"
      "unat (heap_cur t) = unat r + unat (n div 8)" "\<forall>x. kmem t x = (if unat x \<in> region r (unat (n div 8)) then 0 else kmem ?s x)"
      "t = ?s\<lparr>heap_cur := heap_cur t, kmem := kmem t\<rparr>" by (rule kmalloc_align_result)
  obtain c m where tt: "t = ?s\<lparr>heap_cur := c, kmem := m\<rparr>" using t(6) by blast
  let ?t = "?s\<lparr>heap_cur := c, kmem := m, pageframe_bitmap := Ptr ?bs\<rparr>"
  have "256 \<le> unat (kheap.phys_mem_upper s) div 32" using div_le_mono [OF mem, of 32] by simp
  then obtain bs' where bs': "forM [0..<2048] (\<lambda>i. pageframe_alloc_set_page (of_nat i)) ?t = Some (?t\<lparr>pageframe_bitmap := Ptr bs'\<rparr>)"
    using reserve_pages [of ?t ?bs 2048] n by auto
  have "pageframe_alloc_init s = Some (s\<lparr>pages_total_phys := n, heap_cur := c, kmem := m, pageframe_bitmap := Ptr bs', is_initialized := True\<rparr>)"
    using t(1) bs' unfolding tt by (simp add: pageframe_alloc_init_def Let_def flip: n_def)
  then show thesis using t(2,3,4) t(5) n by (intro that [of "Ptr bs'" m c]) (auto simp: n_def tt region_def)
qed

lemma page_up_le: "page_up n \<le> n + 4095"
  unfolding page_up_def using div_mult_mod_eq [of "n + 4095" 4096] by linarith

text \<open>The bit map of the frames is taken from above the tables, so that it leaves them as they are.\<close>

lemma pageframe_alloc_init_ok:
  assumes pg: "pg_inv s" and pre: "pf_init_pre s" "8192 \<le> unat (kheap.phys_mem_upper s)"
    and room: "unat (heap_cur s) + 2 * 4096 + unat (kheap.phys_mem_upper s) div 32 \<le> 0x400000"
  obtains s' where "pageframe_alloc_init s = Some s'" "pg_inv s'" "frame_inv s'" "allocated s' = {..<2048}" "mapped_pages s' = mapped_pages s"
    "unat (pages_total_phys s') = unat (kheap.phys_mem_upper s) div 4"
    "\<exists>n c m b. s' = s\<lparr>pages_total_phys := n, heap_cur := c, kmem := m, pageframe_bitmap := b, is_initialized := True\<rparr>"
proof -
  obtain s' where s': "pageframe_alloc_init s = Some s'" "frame_inv s'" "allocated s' = {..<2048}" "unat (pages_total_phys s') = unat (kheap.phys_mem_upper s) div 4"
    by (rule pf_init_reserves [OF pre])
  obtain b m c where t: "pageframe_alloc_init s = Some (s\<lparr>pages_total_phys := (kheap.phys_mem_upper s * 1024) div 4096, heap_cur := c, kmem := m,
      pageframe_bitmap := b, is_initialized := True\<rparr>)" "unat (heap_cur s) \<le> unat c"
      "unat c < unat (heap_cur s) + 4096 + unat (kheap.phys_mem_upper s) div 32" "\<forall>x. unat x < unat (heap_cur s) \<longrightarrow> m x = kmem s x"
    by (rule pf_init_frame [OF pre])
  let ?T = "allocated_page_tables s" and ?pd = "kernel_page_directory s"
  have ok: "tables_ok ?pd ?T (kmem s) (unat (heap_cur s))" using pg by (simp add: pg_inv_def)
  note grow = tables_ok_grow [OF ok t(2) t(4) [rule_format]]
  have eq: "s' = s\<lparr>pages_total_phys := (kheap.phys_mem_upper s * 1024) div 4096, heap_cur := c, kmem := m, pageframe_bitmap := b, is_initialized := True\<rparr>"
    using s'(1) t(1) by simp
  have "length (filter (\<lambda>t. t = 0) ?T) \<le> 1024" using length_filter_le [of _ ?T] tables_okD(1) [OF ok, of 0] by simp
  moreover have "page_up (unat c) \<le> 0x400000" using page_up_le [of "unat c"] t(3) room by linarith
  ultimately have "pg_inv s'" using grow(1) unfolding eq pg_inv_def by simp
  moreover have "mapped_pages s' = mapped_pages s"
  proof -
    have "entry m ?pd (p div 1024) \<noteq> 0 \<and> entry m (?T ! (p div 1024)) (p mod 1024) \<noteq> 0 \<longleftrightarrow>
        entry (kmem s) ?pd (p div 1024) \<noteq> 0 \<and> entry (kmem s) (?T ! (p div 1024)) (p mod 1024) \<noteq> 0" if "p < 2 ^ 20" for p
    proof -
      have "p div 1024 < 1024" using that by simp
      then show ?thesis using grow(2) [of "p div 1024" "p mod 1024"] tables_okD(8) [OF ok, of "p div 1024"] by auto
    qed
    then show ?thesis unfolding eq mapped_pages_def by auto
  qed
  ultimately show thesis using that s' eq by blast
qed

lemma test_pageframe_firstpage_ok:
  assumes pg: "pg_inv s" and pre: "pf_init_pre s" "8224 \<le> unat (kheap.phys_mem_upper s)" "\<not> is_initialized s"
    and room: "unat (heap_cur s) + 2 * 4096 + unat (kheap.phys_mem_upper s) div 32 \<le> 0x400000"
  obtains s' where "test_pageframe_firstpage s = Some s'" "pg_inv s'" "frame_inv s'" "allocated s' = {..<2048}" "mapped_pages s' = mapped_pages s"
    "\<exists>n c m b. s' = s\<lparr>pages_total_phys := n, heap_cur := c, kmem := m, pageframe_bitmap := b, is_initialized := True\<rparr>"
proof -
  obtain t where t: "pageframe_alloc_init s = Some t" "pg_inv t" "frame_inv t" "allocated t = {..<2048}" "mapped_pages t = mapped_pages s"
    "unat (pages_total_phys t) = unat (kheap.phys_mem_upper s) div 4"
    "\<exists>n c m b. t = s\<lparr>pages_total_phys := n, heap_cur := c, kmem := m, pageframe_bitmap := b, is_initialized := True\<rparr>"
    by (rule pageframe_alloc_init_ok [OF pg pre(1) _ room]) (use pre(2) in simp)
  have first: "pageframe_alloc 1 s = pageframe_alloc 1 t" using t(1) pre(3) frame_invD(2) [OF t(3)] by (simp add: pageframe_alloc_def)
  have tot: "2056 \<le> unat (pages_total_phys t)" using t(6) div_le_mono [OF pre(2), of 4] by simp
  then have "free_range t (8 * 256 + 0) 1" by (auto simp: free_range_def t(4))
  then have "byte_fits t 1 256" unfolding byte_fits_def by (intro exI [of _ 0]) simp
  then have fits: "\<not> no_fit t (unat (1 :: u32))" using div_le_mono [OF tot, of 8] by (auto simp: no_fit_def intro!: exI [of _ 256])
  obtain r u where a: "pageframe_alloc 1 t = Some (r, u)" using pf.alloc_returns [OF t(3), of 1] by auto
  have nz: "r \<noteq> 0" using frame_inv_alloc_null [OF t(3), of 1 u] a fits by auto
  have one: "0 < unat (1 :: u32)" by simp
  obtain p :: u32 where p: "unat r = 4096 * unat p" "2048 \<le> unat p" "takes t (unat p) (unat (1 :: u32)) u" "frame_inv u"
    by (rule frame_inv_alloc [OF t(3) one a nz]) blast
  have "{unat p..<unat p + unat (1 :: u32)} \<subseteq> allocated u" using p(3) by (auto simp: takes_def)
  then obtain v where v: "pageframe_free r 1 u = Some v" "frees u (unat p) 1 v" "frame_inv v"
    using frame_inv_free [OF p(4) one p(1,2)] by auto
  have al: "allocated v = {..<2048}" using v(2) p(2,3) t(4) by (auto simp: frees_def takes_def)
  obtain b where b: "v = t\<lparr>pageframe_bitmap := b\<rparr>" using v(2) p(3) by (auto simp: frees_def takes_def)
  have "test_pageframe_firstpage s = Some v" using first a v(1) by (simp add: test_pageframe_firstpage_def)
  moreover have "pg_inv v" "mapped_pages v = mapped_pages s" using t(2,5) by (simp_all add: b pg_inv_def mapped_pages_def)
  moreover obtain n c m b' where t': "t = s\<lparr>pages_total_phys := n, heap_cur := c, kmem := m, pageframe_bitmap := b', is_initialized := True\<rparr>"
    using t(7) by blast
  have "v = s\<lparr>pages_total_phys := n, heap_cur := c, kmem := m, pageframe_bitmap := b, is_initialized := True\<rparr>" unfolding b t' by simp
  ultimately show thesis using that v(3) al by blast
qed

section \<open>The start of the kernel\<close>

lemma serial_defconfig_table: "int_handler_table (serial_defconfig com p) = int_handler_table p"
  by (simp add: serial_defconfig_def serial_configure_baud_rate_def serial_configure_line_def serial_configure_buffer_def serial_configure_modem_def outb_def Let_def)

lemma and_7_aligned: "(a :: u32) AND 7 = 0 \<longleftrightarrow> 8 dvd unat a"
proof -
  have "a AND 7 = a mod 8" using take_bit_eq_mask [of 3 a] by (simp add: take_bit_eq_mod mask_eq_exp_minus_1)
  then show ?thesis by (simp add: dvd_eq_mod_eq_0 unat_mod flip: unat_eq_iff)
qed

text \<open>
  What the loader leaves: the page directory is an aligned, zeroed page of the kernel's image, no table is allocated, and the globals of the allocators have
  the values of their declarations.
\<close>

definition cold :: "u32 \<Rightarrow> 'a liballoc_scheme \<Rightarrow> bool" where
  "cold kernel_end s \<longleftrightarrow> 4096 dvd unat (kernel_page_directory s) \<and> unat (kernel_page_directory s) + 4096 \<le> unat kernel_end \<and>
     (\<forall>i<1024. entry (kmem s) (kernel_page_directory s) i = 0) \<and> allocated_page_tables s = replicate 1024 0 \<and> \<not> is_initialized s \<and>
     l_memRoot s = 0 \<and> l_bestBet s = 0 \<and> l_pageSize s = 4096 \<and> l_pageCount s = 16 \<and> locked (mmulock s) = 0"

lemma cold_pg_inv:
  assumes "cold e s" "heap_cur s = e" "unat e \<le> 0x3ff000"
  shows "pg_inv s"
proof -
  have "page_up (unat e) \<le> page_up 0x3ff000" unfolding page_up_def using assms(3) by (intro mult_le_mono1 div_le_mono) simp
  then show ?thesis using assms(1,2) by (simp add: cold_def pg_inv_def tables_ok_def page_up_def)
qed

lemma empty_heap:
  assumes "pg_inv s" "frame_inv s" "l_memRoot s = 0" "l_bestBet s = 0" "l_pageSize s = 4096" "l_pageCount s = 16" "locked (mmulock s) = 0"
  shows "mmu_rep s (\<lambda>_. None)"
proof -
  have "heap_inv s []" using assms by (simp add: heap_inv_def heap_ok_def blocks_ok_def hooks_inv_def live_def)
  then show ?thesis using assms(7) unfolding mmu_rep_def by (intro exI [of _ "[]"]) (simp add: objects_of_def)
qed

lemma mmu_init_ok:
  fixes s :: "'a tasks_scheme" and p :: "'p interrupt_scheme"
  assumes c: "cold e s" "heap_cur s = e" and mem: "8224 \<le> unat (kheap.phys_mem_upper s)" "unat (kheap.phys_mem_upper s) * 1024 < 2 ^ 32"
      "unat (kheap.phys_mem_upper s) mod 32 = 0"
    and room: "unat e + 5 * 4096 + unat (kheap.phys_mem_upper s) div 32 \<le> 0x400000" and tab: "14 < length (int_handler_table p)"
  obtains p' s' where "mmu_init addr_of info (p, io, s) = Some (p', io, s')" "int_handler_table p' ! 14 = addr_of ''ISR_PAGEFAULT''"
    "mmu_rep s' (\<lambda>_. None)" "paging_on s'" "mapped_pages s' = mapped_pages s \<union> {..<2048}" "allocated s' = {..<2048}"
proof -
  have r: "interrupt_register info INT_PAGEFAULT h (p, io, s) = Some (None, p\<lparr>int_handler_table := (int_handler_table p)[14 := h]\<rparr>, io, s)" for h
    using tab by (simp add: interrupt_register_def INT_PAGEFAULT_def is_hw_irq_def INT_SYSTIME_def INT_KEYBOARD_def INT_COM1_def)
  have "pg_inv s" by (rule cold_pg_inv [OF c]) (use room in simp)
  then obtain t where t: "paging_init s = Some t" "pg_inv t" "paging_on t" "mapped_pages t = mapped_pages s \<union> {..<2048}"
      "page_up (unat (heap_cur t)) \<le> page_up (unat (heap_cur s)) + 2 * 4096"
      "\<exists>c m ts c3 c0 k. t = s\<lparr>heap_cur := c, kmem := m, allocated_page_tables := ts, cr3 := c3, cr0 := c0, kinfo_of := k\<rparr>"
    by (rule paging_init_ok)
  have same: "kheap.phys_mem_upper t = kheap.phys_mem_upper s" "\<not> is_initialized t" "l_memRoot t = 0" "l_bestBet t = 0" "l_pageSize t = 4096"
      "l_pageCount t = 16" "locked (mmulock t) = 0" using t(6) c(1) by (auto simp: cold_def)
  have room': "unat (heap_cur t) + 2 * 4096 + unat (kheap.phys_mem_upper t) div 32 \<le> 0x400000"
    using page_up_ge [of "unat (heap_cur t)"] t(5) page_up_le [of "unat e"] room same(1) c(2) by simp
  then have pre: "pf_init_pre t" using mem(2,3) by (simp add: pf_init_pre_def same(1))
  have "8224 \<le> unat (kheap.phys_mem_upper t)" using mem(1) same(1) by simp
  then obtain u where u: "test_pageframe_firstpage t = Some u" "pg_inv u" "frame_inv u" "allocated u = {..<2048}" "mapped_pages u = mapped_pages t"
      "\<exists>n c m b. u = t\<lparr>pages_total_phys := n, heap_cur := c, kmem := m, pageframe_bitmap := b, is_initialized := True\<rparr>"
    by (rule test_pageframe_firstpage_ok [OF t(2) pre _ same(2) room'])
  have "paging_on u" using u(6) t(3) by (auto simp: paging_on_def)
  moreover have "mmu_rep u (\<lambda>_. None)" using u(2,3,6) same by (intro empty_heap) auto
  ultimately show thesis using r t(1,4) u(1,4,5) tab by (intro that) (auto simp: mmu_init_def)
qed

text \<open>
  C4. The kernel reaches a working heap. When the boot loader passes its magic number and an aligned address of boot information that can be read, the memory
  above 1 MiB is at least 8224 KiB, and the image with the tables of the allocators ends below 4 MiB, then the first part of \<open>kmain\<close> returns: paging is on, every
  address below 8 MiB translates to itself and every other one faults, the 2048 frames of the kernel are the allocated ones, the handler of page faults is
  registered, and the heap satisfies its invariant with no object. With another magic number, or an address that is not a multiple of 8, \<open>kmain\<close> stops.
  The magic number is that of Multiboot 2. The documents of the repository (\<^verbatim>\<open>Kernel.md\<close> 4.1.6, \<^verbatim>\<open>Booting.md\<close> 3.2 and 3.3) speak of a kernel mapped at 3 GiB and of the
  magic number \<open>0x2BADB002\<close>; the code does neither.
\<close>

theorem boot_establishes_heap:
  fixes s :: "'a tasks_scheme" and p :: "'p interrupt_scheme"
  assumes c: "cold (addr_of ''KERNEL_END_VIRTUAL'') s" and mb: "multiboot_info_init (kmem s) addr mbinfo0 = Some mb"
    and mem: "8224 \<le> unat (multiboot_info.phys_mem_upper mb)" "unat (multiboot_info.phys_mem_upper mb) * 1024 < 2 ^ 32"
      "unat (multiboot_info.phys_mem_upper mb) mod 32 = 0"
    and room: "unat (addr_of ''KERNEL_END_VIRTUAL'') + 5 * 4096 + unat (multiboot_info.phys_mem_upper mb) div 32 \<le> 0x400000"
    and tab: "14 < length (int_handler_table p)"
  shows "if mb_magic \<noteq> MULTIBOOT2_BOOTLOADER_MAGIC then kmain_memory addr_of info mb_magic addr (p, io, s) = Some (Inl Invalid_magic)
     else if \<not> 8 dvd unat addr then kmain_memory addr_of info mb_magic addr (p, io, s) = Some (Inl Unaligned_mbi)
     else \<exists>p' s'. kmain_memory addr_of info mb_magic addr (p, io, s) = Some (Inr (mb, p', io, s')) \<and> mmu_rep s' (\<lambda>_. None) \<and>
       int_handler_table p' ! 14 = addr_of ''ISR_PAGEFAULT'' \<and> allocated s' = {..<2048} \<and>
       (\<forall>va. translate s' va = (if unat va < 0x800000 then Some va else None))"
proof -
  let ?e = "addr_of ''KERNEL_END_VIRTUAL''"
  define t where "t = kheap_init (kinfo_init (addr_of ''KERNEL_START_PHYS'') (addr_of ''KERNEL_START_VIRTUAL'') (addr_of ''KERNEL_END_PHYS'') ?e
     (s\<lparr>kheap.phys_mem_upper := multiboot_info.phys_mem_upper mb\<rparr>))"
  define q where "q = serial_defconfig SERIAL_COM1_BASE p"
  have t: "cold ?e t" "heap_cur t = ?e" "kheap.phys_mem_upper t = multiboot_info.phys_mem_upper mb"
    using c by (auto simp: t_def cold_def kheap_init_def kinfo_init_def)
  have tab': "14 < length (int_handler_table q)" using tab by (simp add: q_def serial_defconfig_table)
  obtain p' s' where i: "mmu_init addr_of info (q, io, t) = Some (p', io, s')" "int_handler_table p' ! 14 = addr_of ''ISR_PAGEFAULT''"
    "mmu_rep s' (\<lambda>_. None)" "paging_on s'" "mapped_pages s' = mapped_pages t \<union> {..<2048}" "allocated s' = {..<2048}"
    by (rule mmu_init_ok [OF t(1,2) _ _ _ _ tab', where addr_of = addr_of and info = info and io = io]) (use mem room t(3) in simp_all)
  have "mapped_pages t = {}" using t(1) by (auto simp: mapped_pages_def cold_def)
  moreover have "pg_inv s'" using i(3) by (auto simp: mmu_rep_def heap_inv_def heap_ok_def hooks_inv_def)
  moreover have "unat va div 4096 < 2048 \<longleftrightarrow> unat va < 0x800000" for va :: u32 by auto
  ultimately have tr: "translate s' va = (if unat va < 0x800000 then Some va else None)" for va
    using translate_mapped [OF _ i(4), of va] i(5) by auto
  have "addr AND 7 = 0 \<longleftrightarrow> 8 dvd unat addr" by (simp add: and_7_aligned)
  then show ?thesis using mb i(1,2,3,6) tr by (auto simp: kmain_memory_def Let_def t_def q_def)
qed

text \<open>A machine with the boot information at \<open>0x10000\<close> and a kernel that ends at \<open>0x300000\<close>, with its page directory in its last page.\<close>

definition boot_mem :: mem where
  "boot_mem x = (if unat x < 0x20000 then encode_tags sample_tags ! unat (x - 0x10008) else 0)"

definition cold_machine :: tasks where
  "cold_machine = sample_tasks\<lparr>kmem := boot_mem, is_initialized := False, cr0 := 0x11, cr3 := 0, majors := \<lambda>_. None, minors := \<lambda>_. None, l_memRoot := 0\<rparr>"

definition kernel_image :: "string \<Rightarrow> u32" where
  "kernel_image sy = (if sy = ''KERNEL_END_VIRTUAL'' \<or> sy = ''KERNEL_END_PHYS'' then 0x300000 else 0x200000)"

lemma boot_mem_directory:
  assumes "i < 1024"
  shows "entry boot_mem 0x2ff000 i = 0"
proof -
  have a: "4096 dvd unat (0x2ff000 :: u32)" by simp
  have "unat (0x2ff000 + 4 * of_nat i + of_nat k :: u32) = 0x2ff000 + 4 * i + k" if "k < 4" for k
    using aligned_offset [OF table_entry_addr(2) [OF a assms] that] table_entry_addr(1) [OF a assms] by simp
  then have "boot_mem (0x2ff000 + 4 * of_nat i + of_nat k) = 0" if "k < 4" for k using that by (simp add: boot_mem_def)
  from this [of 0] this [of 1] this [of 2] this [of 3] show ?thesis by (simp add: entry_def load32_def)
qed

lemma boot_mem_tags: obtains mb where "multiboot_info_init boot_mem 0x10000 mbinfo0 = Some mb" "multiboot_info.phys_mem_upper mb = 130048"
proof -
  have l: "length (encode_tags sample_tags) = 176"
    by (simp add: encode_tags_def sample_tags_def encode_tag_def tag_head_def round8_def)
  have u: "unat (of_nat i :: u32) = i" "unat (0x10008 + of_nat i :: u32) = 0x10008 + i" if "i < 176" for i
  proof -
    show *: "unat (of_nat i :: u32) = i" using that by (intro unat_of_nat_small) simp
    show "unat (0x10008 + of_nat i :: u32) = 0x10008 + i" using * that by (subst unat_add_less) simp_all
  qed
  have "boot_mem (0x10008 + of_nat i) = encode_tags sample_tags ! i" if "i < 176" for i using u [OF that] that by (simp add: boot_mem_def)
  then have h: "holds boot_mem (0x10000 + 8) (encode_tags sample_tags)" by (simp add: holds_def l)
  have "tells boot_mem mbinfo0 []" by (simp add: tells_def mbinfo0_def latest_def modules_def sizeof_tag_framebuffer_def)
  moreover have "\<forall>t\<in>set sample_tags. tag_ok t" "length (modules sample_tags) \<le> 2" by (simp_all add: sample_tags_def modules_def)
  ultimately obtain i where "multiboot_info_init boot_mem 0x10000 mbinfo0 = Some i" "tells boot_mem i sample_tags"
    using multiboot_walk_ok [of boot_mem mbinfo0 "[]" "0x10008" sample_tags] h l by (auto simp: multiboot_info_init_def)
  then show thesis by (intro that [of i]) (simp_all add: tells_def latest_def sample_tags_def)
qed

lemma cold_machine_ok: "cold (kernel_image ''KERNEL_END_VIRTUAL'') cold_machine" "kmem cold_machine = boot_mem"
  by (simp_all add: cold_def kernel_image_def cold_machine_def sample_tasks_def liballoc.extend_def tasks.fields_def sample_heap_def sample_liballoc_def
      sample_hooks_def boot_mem_directory)

theorem boot_establishes_heap_witness:
  "\<exists>mb p' s'. kmain_memory kernel_image madt_info0 0x36d76289 0x10000 (sample_interrupt, sample_ioapic, cold_machine) = Some (Inr (mb, p', sample_ioapic, s')) \<and>
     mmu_rep s' (\<lambda>_. None) \<and> allocated s' = {..<2048} \<and> translate s' 0x7fffff = Some 0x7fffff \<and> translate s' 0x800000 = None"
proof -
  obtain mb where mb: "multiboot_info_init (kmem cold_machine) 0x10000 mbinfo0 = Some mb" "multiboot_info.phys_mem_upper mb = 130048"
    using boot_mem_tags by (auto simp: cold_machine_ok(2))
  have "14 < length (int_handler_table sample_interrupt)" by (simp add: sample_interrupt_def)
  then show ?thesis
    using boot_establishes_heap [of kernel_image cold_machine "0x10000" mb sample_interrupt "0x36d76289" madt_info0 sample_ioapic] mb cold_machine_ok(1)
    by (auto simp: kernel_image_def MULTIBOOT2_BOOTLOADER_MAGIC_def)
qed

end
