(* ===== verification/Dbg_Screen.thy ===== *)
theory Dbg_Screen
  imports Svga Printf
begin

text \<open>
  \<open>_dbg_screen\<close> of \<^verbatim>\<open>kernel/utils/debug.c\<close>: formatted messages on the frame buffer. The static position \<open>scrpos\<close> and the screen are passed and returned.
  The theorem says which pixels a message sets, and where the next message starts.
\<close>

section \<open>The code\<close>

type_synonym dbg_screen_state = "u32 \<times> svga"

definition screen_char :: "(u8 \<Rightarrow> u8 \<Rightarrow> u8) \<Rightarrow> u8 \<Rightarrow> dbg_screen_state \<Rightarrow> dbg_screen_state option" where
  "screen_char scale c = (\<lambda>(scrpos, v). do { color \<leftarrow> svga_translate_rgb scale 0xff 0xff 0xff v; svga_draw_char_cell scrpos c color v })"

definition screen_str :: "(u8 \<Rightarrow> u8 \<Rightarrow> u8) \<Rightarrow> bytes \<Rightarrow> dbg_screen_state \<Rightarrow> dbg_screen_state option" where
  "screen_str scale s = (\<lambda>(scrpos, v).
     do { l \<leftarrow> strlen s; color \<leftarrow> svga_translate_rgb scale 0xff 0xff 0xff v; svga_write_str s scrpos l color v })"

text \<open>The switch over the conversion letter.\<close>

definition screen_convert :: "(u8 \<Rightarrow> u8 \<Rightarrow> u8) \<Rightarrow> u8 \<Rightarrow> arg list \<Rightarrow> dbg_screen_state \<Rightarrow> (dbg_screen_state \<times> arg list) option" where
  "screen_convert scale letter args st =
     (if letter = 99 then do { (i, args) \<leftarrow> va_int args; st \<leftarrow> screen_char scale (ucast i) st; Some (st, args) }
      else if letter = 117
      then do { (u, args) \<leftarrow> va_int args; s \<leftarrow> int_to_str_static u 10; st \<leftarrow> screen_str scale s st; Some (st, args) }
      else if letter = 100
      then do { (i, args) \<leftarrow> va_int args;
                (i, st) \<leftarrow> (if sint i < 0 then do { st \<leftarrow> screen_char scale 45 st; Some (- i, st) } else Some (i, st));
                s \<leftarrow> int_to_str_static i 10; st \<leftarrow> screen_str scale s st; Some (st, args) }
      else if letter = 111
      then do { (i, args) \<leftarrow> va_int args; s \<leftarrow> int_to_str_static i 8; st \<leftarrow> screen_str scale s st; Some (st, args) }
      else if letter = 115
      then do { (s, args) \<leftarrow> va_str args; st \<leftarrow> screen_str scale s st; Some (st, args) }
      else if letter = 120
      then do { (i, args) \<leftarrow> va_int args; s \<leftarrow> int_to_str_static i 16; st \<leftarrow> screen_str scale s st; Some (st, args) }
      else Some (st, args))"

text \<open>The literal loop: a line feed goes to the next multiple of 100 first, whatever the width of the screen is, and is then drawn.\<close>

definition screen_newline :: "u8 \<Rightarrow> dbg_screen_state \<Rightarrow> dbg_screen_state" where
  "screen_newline c = (\<lambda>(scrpos, v). (if c = 10 then scrpos + (100 - (scrpos + 100) mod 100) else scrpos, v))"

fun screen_literals :: "(u8 \<Rightarrow> u8 \<Rightarrow> u8) \<Rightarrow> bytes \<Rightarrow> dbg_screen_state \<Rightarrow> (dbg_screen_state + bytes \<times> dbg_screen_state) option" where
  "screen_literals scale [] st = None"
| "screen_literals scale (c # rest) st =
     (if c \<noteq> 37
      then do { st \<leftarrow> screen_char scale c (screen_newline c st);
                case rest of [] \<Rightarrow> None
                | d # _ \<Rightarrow> if d = 0 then Some (Inl st) else screen_literals scale rest st }
      else Some (Inr (rest, st)))"

lemmas screen_literals_unfold = screen_literals.simps(2)
declare screen_literals.simps(2) [simp del]

lemma screen_literals_shorter: "screen_literals scale fmt st = Some (Inr (rest, st')) \<Longrightarrow> length rest < length fmt"
proof (induction fmt arbitrary: st)
  case (Cons c fmt)
  show ?case
  proof (cases "c = 37")
    case False
    then obtain st1 where "screen_literals scale fmt st1 = Some (Inr (rest, st'))"
      using Cons.prems unfolding screen_literals_unfold by (cases fmt) (auto simp: bind_eq_Some_conv split: if_splits)
    then show ?thesis using Cons.IH by fastforce
  qed (use Cons.prems in \<open>auto simp: screen_literals_unfold\<close>)
qed simp

function dbg_screen_loop :: "(u8 \<Rightarrow> u8 \<Rightarrow> u8) \<Rightarrow> bytes \<Rightarrow> arg list \<Rightarrow> dbg_screen_state \<Rightarrow> dbg_screen_state option" where
  "dbg_screen_loop scale fmt args st =
     (case fmt of [] \<Rightarrow> None
      | c # _ \<Rightarrow>
        if c = 0 then Some st
        else case screen_literals scale fmt st of None \<Rightarrow> None
             | Some (Inl st) \<Rightarrow> Some st
             | Some (Inr ([], st)) \<Rightarrow> None
             | Some (Inr (letter # rest, st)) \<Rightarrow>
                 (case screen_convert scale letter args st of None \<Rightarrow> None
                  | Some (st, args) \<Rightarrow> dbg_screen_loop scale rest args st))"
  by pat_completeness auto
termination
  by (relation "measure (\<lambda>(scale, fmt, args, st). length fmt)") (auto dest!: screen_literals_shorter)

declare dbg_screen_loop.simps [simp del]

definition dbg_screen :: "(u8 \<Rightarrow> u8 \<Rightarrow> u8) \<Rightarrow> bytes \<Rightarrow> arg list \<Rightarrow> dbg_screen_state \<Rightarrow> dbg_screen_state option" where
  "dbg_screen scale format args st = dbg_screen_loop scale format args st"

section \<open>The cells of the screen\<close>

definition lfb_ok :: "svga \<Rightarrow> bool" where
  "lfb_ok v \<longleftrightarrow> fb_ok v \<and> 0 < unat (SCR_COLUMNS v) \<and> 8 * unat (SCR_COLUMNS v) \<le> unat (SCR_W v) \<and> 11 * unat (SCR_ROWS v) \<le> unat (SCR_H v)"

definition screen_cells :: "svga \<Rightarrow> nat" where
  "screen_cells v = unat (SCR_ROWS v) * unat (SCR_COLUMNS v)"

definition cell_part :: "svga \<Rightarrow> nat \<times> u8 \<Rightarrow> (nat \<times> nat) set" where
  "cell_part v = (\<lambda>(p, c). glyph_part (8 * (p mod unat (SCR_COLUMNS v))) (11 * (p div unat (SCR_COLUMNS v))) c 9 0)"

definition text_part :: "svga \<Rightarrow> (nat \<times> u8) list \<Rightarrow> (nat \<times> nat) set" where
  "text_part v l = (\<Union>x\<in>set l. cell_part v x)"

lemma drawn_trans: "drawn s D color t \<Longrightarrow> drawn t D' color u \<Longrightarrow> drawn s (D \<union> D') color u"
  unfolding drawn_def by (elim exE conjE) auto

lemma drawn_same:
  assumes "drawn s D color t"
  shows "tag t = tag s" "screen_cells t = screen_cells s" "lfb_ok s \<Longrightarrow> lfb_ok t" "cell_part t = cell_part s" "text_part t = text_part s"
proof -
  show "tag t = tag s" "screen_cells t = screen_cells s" "lfb_ok s \<Longrightarrow> lfb_ok t" "cell_part t = cell_part s"
    using assms by (auto simp: drawn_def screen_cells_def lfb_ok_def cell_part_def)
  then show "text_part t = text_part s" by (simp add: text_part_def [abs_def])
qed

lemma cells_bounded:
  assumes "lfb_ok v"
  shows "screen_cells v < 2 ^ 32" "unat (SCR_ROWS v * SCR_COLUMNS v) = screen_cells v"
proof -
  let ?p = "unat (framebuffer_pitch (tag v))"
  have "unat (SCR_COLUMNS v) \<le> ?p" "unat (SCR_ROWS v) \<le> unat (SCR_H v)" "?p * unat (SCR_H v) < 2 ^ 32"
    using assms by (auto simp: lfb_ok_def fb_ok_def)
  then show *: "screen_cells v < 2 ^ 32" unfolding screen_cells_def
    by (metis le_less_trans mult.commute mult_le_mono)
  then show "unat (SCR_ROWS v * SCR_COLUMNS v) = screen_cells v" by (simp add: screen_cells_def unat_mult_less)
qed

lemma svga_draw_char_cell_ok:
  assumes ok: "lfb_ok v" and pos: "unat pos < screen_cells v"
  shows "\<exists>t. svga_draw_char_cell pos c color v = Some (pos + 1, t) \<and> unat (pos + 1) = unat pos + 1 \<and> drawn v (cell_part v (unat pos, c)) color t"
proof -
  let ?w = "unat (SCR_COLUMNS v)"
  note cb = cells_bounded [OF ok]
  have u1: "unat (pos + 1) = unat pos + 1" using pos cb(1) unat_add_less [of pos 1] by simp
  then have noscroll: "\<not> pos + 1 > SCR_ROWS v * SCR_COLUMNS v" using pos cb(2) by (simp add: word_less_nat_alt)
  have w: "0 < ?w" "8 * ?w \<le> unat (SCR_W v)" "11 * unat (SCR_ROWS v) \<le> unat (SCR_H v)" using ok by (auto simp: lfb_ok_def)
  have "unat pos div ?w < unat (SCR_ROWS v)" using pos w(1) by (simp add: screen_cells_def less_mult_imp_div_less)
  then have y: "11 * (unat pos div ?w) + 11 \<le> unat (SCR_H v)" using w(3) by linarith
  have "unat pos mod ?w < ?w" using w(1) by simp
  then have x: "8 * (unat pos mod ?w) + 8 \<le> unat (SCR_W v)" using w(2) by linarith
  have ux: "unat (of_nat FONT_W * (pos mod SCR_COLUMNS v)) = 8 * (unat pos mod ?w)"
    using x unat_less_32 [of "SCR_W v"] unat_mult_less [of "8 :: u32" "pos mod SCR_COLUMNS v"] by (simp add: FONT_W_def unat_mod)
  have uy: "unat (of_nat (FONT_H + 2) * (pos div SCR_COLUMNS v)) = 11 * (unat pos div ?w)"
    using y unat_less_32 [of "SCR_H v"] unat_mult_less [of "11 :: u32" "pos div SCR_COLUMNS v"] by (simp add: FONT_H_def unat_div)
  have "fb_ok v" using ok by (simp add: lfb_ok_def)
  from svga_draw_char_ok [OF this, of "of_nat FONT_W * (pos mod SCR_COLUMNS v)" "of_nat (FONT_H + 2) * (pos div SCR_COLUMNS v)" c color]
  obtain t where "svga_draw_char (of_nat FONT_W * (pos mod SCR_COLUMNS v)) (of_nat (FONT_H + 2) * (pos div SCR_COLUMNS v)) c color v = Some t"
      "drawn v (cell_part v (unat pos, c)) color t"
    unfolding ux uy using x y by (auto simp: cell_part_def)
  moreover have "SCR_COLUMNS v \<noteq> 0" using w(1) by auto
  ultimately show ?thesis using noscroll u1 by (auto simp: svga_draw_char_cell_def Let_def)
qed

section \<open>Text\<close>

text \<open>\<open>writes op st l p'\<close>: from \<open>st\<close> the operation returns, has drawn the characters of \<open>l\<close> at their cells in white, and ends at the cell \<open>p'\<close>.\<close>

definition writes :: "u32 \<Rightarrow> (dbg_screen_state \<Rightarrow> dbg_screen_state option) \<Rightarrow> dbg_screen_state \<Rightarrow> (nat \<times> u8) list \<Rightarrow> nat \<Rightarrow> bool" where
  "writes white op st l p' \<longleftrightarrow> (\<exists>pos v. op st = Some (pos, v) \<and> unat pos = p' \<and> drawn (snd st) (text_part (snd st) l) white v)"

lemma writes_step:
  assumes "writes white f st l p" and "\<And>pos v. unat pos = p \<Longrightarrow> drawn (snd st) (text_part (snd st) l) white v \<Longrightarrow> writes white g (pos, v) l' p'"
  shows "writes white (\<lambda>st. f st \<bind> g) st (l @ l') p'"
proof -
  obtain pos v where f: "f st = Some (pos, v)" "unat pos = p" "drawn (snd st) (text_part (snd st) l) white v"
    using assms(1) by (auto simp: writes_def)
  obtain pos' v' where g: "g (pos, v) = Some (pos', v')" "unat pos' = p'" "drawn v (text_part v l') white v'"
    using assms(2) [OF f(2,3)] by (auto simp: writes_def)
  have "drawn (snd st) (text_part (snd st) l \<union> text_part (snd st) l') white v'"
    using drawn_trans [OF f(3) g(3)] drawn_same(5) [OF f(3)] by simp
  then show ?thesis using f(1) g(1,2) by (auto simp: writes_def text_part_def)
qed

lemma screen_char_writes:
  assumes "lfb_ok v" "svga_translate_rgb scale 0xff 0xff 0xff v = Some white" "unat pos < screen_cells v"
  shows "writes white (screen_char scale c) (pos, v) [(unat pos, c)] (unat pos + 1)"
  using svga_draw_char_cell_ok [OF assms(1,3), of c white] assms(2) by (auto simp: writes_def screen_char_def text_part_def)

lemma svga_translate_rgb_tag: "tag t = tag s \<Longrightarrow> svga_translate_rgb scale r g b t = svga_translate_rgb scale r g b s"
  by (simp add: svga_translate_rgb_def)

definition text_at :: "nat \<Rightarrow> bytes \<Rightarrow> (nat \<times> u8) list" where
  "text_at p bs = zip [p..<p + length bs] bs"

lemma text_at_Nil [simp]: "text_at p [] = []"
  by (simp add: text_at_def)

lemma text_at_Cons: "text_at p (c # bs) = (p, c) # text_at (p + 1) bs"
  using upt_conv_Cons [of p "p + Suc (length bs)"] by (simp add: text_at_def del: upt_Suc)

lemma svga_write_str_ok:
  assumes ok: "lfb_ok v" and s: "n \<le> length s" and pos: "unat pos + n \<le> screen_cells v" "unat len = n"
  shows "\<exists>pos' t. svga_write_str s pos len color v = Some (pos', t) \<and> unat pos' = unat pos + n \<and> drawn v (text_part v (text_at (unat pos) (take n s))) color t"
proof -
  note cb = cells_bounded [OF ok]
  let ?body = "\<lambda>i (scrpos, s'). do { c \<leftarrow> arr_get s i; svga_draw_char_cell scrpos c color s' }"
  let ?I = "\<lambda>k (q :: u32, t). unat q = unat pos + k \<and> drawn v (text_part v (text_at (unat pos) (take k s))) color t"
  have "\<exists>r. forM [0..<n] ?body (pos, v) = Some r \<and> ?I n r"
  proof (rule forM_invariant [where I = ?I])
    show "?I 0 (pos, v)" using drawn_refl [of v] ok by (simp add: text_part_def text_at_def lfb_ok_def)
    fix k r assume k: "k < n" "?I k r"
    then obtain q t where r: "r = (q, t)" "unat q = unat pos + k" "drawn v (text_part v (text_at (unat pos) (take k s))) color t" by (cases r) auto
    note same = drawn_same [OF r(3)]
    obtain u where u: "svga_draw_char_cell q (s ! k) color t = Some (q + 1, u)" "unat (q + 1) = unat q + 1" "drawn t (cell_part t (unat q, s ! k)) color u"
      using svga_draw_char_cell_ok [of t q "s ! k" color] same(2,3) ok r(2) k(1) pos(1) by auto
    have "text_at (unat pos) (take (Suc k) s) = text_at (unat pos) (take k s) @ [(unat pos + k, s ! k)]"
      using k(1) s by (simp add: text_at_def take_Suc_conv_app_nth)
    then have "drawn v (text_part v (text_at (unat pos) (take (Suc k) s))) color u"
      using drawn_trans [OF r(3) u(3)] same(4) r(2) by (simp add: text_part_def Un_commute)
    then show "\<exists>r'. ?body k r = Some r' \<and> ?I (Suc k) r'" using u r k(1) s by auto
  qed simp
  moreover have "\<not> pos + len > SCR_ROWS v * SCR_COLUMNS v"
    using pos cb by (simp add: word_less_nat_alt unat_add_less)
  ultimately show ?thesis using pos(2) by (auto simp: svga_write_str_def)
qed

lemma screen_str_writes:
  assumes "lfb_ok v" "svga_translate_rgb scale 0xff 0xff 0xff v = Some white" "terminated s" "unat pos + length (cstr s) \<le> screen_cells v"
  shows "writes white (screen_str scale s) (pos, v) (text_at (unat pos) (cstr s)) (unat pos + length (cstr s))"
proof -
  have n: "unat (of_nat (length (cstr s)) :: u32) = length (cstr s)" using assms(4) cells_bounded(1) [OF assms(1)] by (intro unat_of_nat_small) simp
  have t: "take (length (cstr s)) s = cstr s" "length (cstr s) \<le> length s"
    unfolding cstr_def by (metis takeWhile_eq_take, rule length_takeWhile_le)
  show ?thesis using svga_write_str_ok [OF assms(1) t(2) assms(4) n, of white] assms(2,3) t(1)
    by (auto simp: writes_def screen_str_def strlen_cstr)
qed

lemma screen_number_writes:
  assumes v: "lfb_ok v" "svga_translate_rgb scale 0xff 0xff 0xff v = Some white" and base: "2 \<le> unat base" "unat base \<le> 16"
    and fits: "unat pos + length (number_str i base) \<le> screen_cells v"
  shows "writes white (\<lambda>st. do { s \<leftarrow> int_to_str_static i base; screen_str scale s st }) (pos, v) (text_at (unat pos) (number_str i base))
    (unat pos + length (number_str i base))"
proof -
  obtain s where s: "int_to_str_static i base = Some s" "terminated s" "cstr s = number_str i base" by (rule number_str_static [OF base])
  then show ?thesis using screen_str_writes [OF v s(2), of pos] fits by (simp add: writes_def)
qed

lemma screen_convert_writes:
  assumes v: "lfb_ok v" "svga_translate_rgb scale 0xff 0xff 0xff v = Some white" and p: "piece_ok (Conv letter a)"
    and fits: "unat pos + length (piece_str (Conv letter a)) \<le> screen_cells v"
  shows "\<exists>st'. screen_convert scale letter (a # args) (pos, v) = Some (st', args) \<and>
    writes white (\<lambda>_. Some st') (pos, v) (text_at (unat pos) (piece_str (Conv letter a))) (unat pos + length (piece_str (Conv letter a)))"
proof (cases a)
  case (Arg_str s)
  then show ?thesis using p fits screen_str_writes [OF v, of s pos] by (auto simp: screen_convert_def writes_def)
next
  case (Arg_int i)
  note num = screen_number_writes [OF v, of _ pos]
  show ?thesis
  proof (cases "letter = 100 \<and> sint i < 0")
    case True
    then have d: "piece_str (Conv letter a) = [45] @ number_str (- i) 10" using Arg_int by (simp add: decimal_def)
    have "writes white (\<lambda>st. screen_char scale 45 st \<bind> (\<lambda>st. do { s \<leftarrow> int_to_str_static (- i) 10; screen_str scale s st })) (pos, v)
        ([(unat pos, 45)] @ text_at (unat pos + 1) (number_str (- i) 10)) (unat pos + 1 + length (number_str (- i) 10))"
    proof (rule writes_step)
      show "writes white (screen_char scale 45) (pos, v) [(unat pos, 45)] (unat pos + 1)" using fits d by (intro screen_char_writes v) simp
      fix q :: u32 and w assume q: "unat q = unat pos + 1" and w: "drawn (snd (pos, v)) (text_part (snd (pos, v)) [(unat pos, 45)]) white w"
      have "svga_translate_rgb scale 0xff 0xff 0xff w = Some white" "lfb_ok w" "screen_cells w = screen_cells v"
        using v drawn_same(1-3) [OF w] svga_translate_rgb_tag [of w v] by auto
      then show "writes white (\<lambda>st. do { s \<leftarrow> int_to_str_static (- i) 10; screen_str scale s st }) (q, w) (text_at (unat pos + 1) (number_str (- i) 10))
          (unat pos + 1 + length (number_str (- i) 10))"
        using screen_number_writes [of w scale white 10 q "- i"] fits d q by simp
    qed
    moreover have "text_at (unat pos) (piece_str (Conv letter a)) = [(unat pos, 45)] @ text_at (unat pos + 1) (number_str (- i) 10)"
      unfolding d using text_at_Cons by simp
    ultimately show ?thesis using True Arg_int d by (auto simp: screen_convert_def writes_def bind_eq_Some_conv)
  next
    case False
    show ?thesis using False p fits Arg_int num [of 10 i] num [of 8 i] num [of 16 i] screen_char_writes [OF v, of pos "ucast i"]
      by (auto simp: screen_convert_def writes_def bind_eq_Some_conv decimal_def text_at_def)
  qed
qed

section \<open>Messages\<close>

text \<open>Where the characters of a message go: a line feed starts at the next multiple of 100.\<close>

definition newline :: "u8 \<Rightarrow> nat \<Rightarrow> nat" where
  "newline c p = (if c = 10 then p + (100 - p mod 100) else p)"

fun text_cells :: "piece list \<Rightarrow> nat \<Rightarrow> (nat \<times> u8) list" where
  "text_cells [] p = []"
| "text_cells (Lit c # ps) p = (newline c p, c) # text_cells ps (newline c p + 1)"
| "text_cells (Conv l a # ps) p = text_at p (piece_str (Conv l a)) @ text_cells ps (p + length (piece_str (Conv l a)))"

fun text_end :: "piece list \<Rightarrow> nat \<Rightarrow> nat" where
  "text_end [] p = p"
| "text_end (Lit c # ps) p = text_end ps (newline c p + 1)"
| "text_end (Conv l a # ps) p = text_end ps (p + length (piece_str (Conv l a)))"

lemma cells_small:
  assumes "lfb_ok v"
  shows "screen_cells v < 2 ^ 24"
proof -
  let ?p = "unat (framebuffer_pitch (tag v))"
  have "32 * unat (SCR_COLUMNS v) \<le> ?p" "11 * unat (SCR_ROWS v) \<le> unat (SCR_H v)" "?p * unat (SCR_H v) < 2 ^ 32"
    using assms by (auto simp: lfb_ok_def fb_ok_def)
  then have "(32 * unat (SCR_COLUMNS v)) * (11 * unat (SCR_ROWS v)) < 2 ^ 32" by (meson le_less_trans mult_le_mono)
  then show ?thesis by (simp add: screen_cells_def mult.commute)
qed

lemma screen_newline_unat:
  assumes "unat pos \<le> 2 ^ 24"
  shows "screen_newline c (pos, v) = (of_nat (newline c (unat pos)), v)" "unat (of_nat (newline c (unat pos)) :: u32) = newline c (unat pos)"
proof -
  have u: "unat (pos + 100) = unat pos + 100" using assms unat_add_less [of pos 100] by simp
  have "unat ((pos + 100) mod 100) = unat pos mod 100" by (simp add: unat_mod u)
  then have "(pos + 100) mod 100 = of_nat (unat pos mod 100)" by (metis word_of_unat)
  moreover have "unat pos mod 100 < 100" by simp
  ultimately show "screen_newline c (pos, v) = (of_nat (newline c (unat pos)), v)"
    by (auto simp: screen_newline_def newline_def of_nat_diff)
  have "newline c (unat pos) < 2 ^ 32" using assms by (simp add: newline_def less_imp_diff_less)
  then show "unat (of_nat (newline c (unat pos)) :: u32) = newline c (unat pos)" by (intro unat_of_nat_small) simp
qed

lemma dbg_screen_loop_conv:
  "screen_convert scale letter args st = Some (st', args') \<Longrightarrow> dbg_screen_loop scale (37 # letter # r) args st = dbg_screen_loop scale r args' st'"
  by (subst dbg_screen_loop.simps) (simp add: screen_literals_unfold)

lemma dbg_screen_loop_lit:
  assumes "c \<noteq> 0" "c \<noteq> 37" "screen_char scale c (screen_newline c st) = Some st'"
  shows "dbg_screen_loop scale (c # d # r) args st = dbg_screen_loop scale (d # r) args st'"
proof (cases "d = 0")
  case True
  then show ?thesis using assms by (subst (1 2) dbg_screen_loop.simps) (simp add: screen_literals_unfold [of _ c])
next
  case False
  then have "screen_literals scale (c # d # r) st = screen_literals scale (d # r) st'"
    using assms by (subst screen_literals_unfold) simp
  then show ?thesis using assms False by (subst (1 2) dbg_screen_loop.simps) simp
qed

lemma dbg_screen_loop_writes:
  assumes "lfb_ok v" "svga_translate_rgb scale 0xff 0xff 0xff v = Some white" "\<forall>p\<in>set ps. piece_ok p" "unat pos \<le> screen_cells v"
    "\<forall>(q, c)\<in>set (text_cells ps (unat pos)). q < screen_cells v"
  shows "writes white (dbg_screen_loop scale (format_of ps) (args_of ps)) (pos, v) (text_cells ps (unat pos)) (text_end ps (unat pos))"
  using assms
proof (induction ps arbitrary: pos v rule: format_of.induct)
  case 1
  then show ?case using drawn_refl [of v] by (simp add: dbg_screen_loop.simps writes_def text_part_def lfb_ok_def)
next
  case (2 c ps)
  obtain d r where d: "format_of ps = d # r" using format_of_hd [of ps] "2.prems" by auto
  let ?q = "newline c (unat pos)"
  have "unat pos \<le> 2 ^ 24" using "2.prems"(4) cells_small [OF "2.prems"(1)] by simp
  note nl = screen_newline_unat [OF this, of c]
  have "writes white (\<lambda>st. screen_char scale c st \<bind> dbg_screen_loop scale (format_of ps) (args_of ps)) (of_nat ?q, v)
      ([(?q, c)] @ text_cells ps (?q + 1)) (text_end ps (?q + 1))"
  proof (rule writes_step)
    show "writes white (screen_char scale c) (of_nat ?q, v) [(?q, c)] (?q + 1)"
      using screen_char_writes [OF "2.prems"(1,2), of "of_nat ?q" c] nl(2) "2.prems"(5) by simp
    fix p :: u32 and w assume p: "unat p = ?q + 1" and "drawn (snd (of_nat ?q, v)) (text_part (snd (of_nat ?q, v)) [(?q, c)]) white w"
    then have "lfb_ok w" "screen_cells w = screen_cells v" "svga_translate_rgb scale 0xff 0xff 0xff w = Some white"
      using "2.prems"(1,2) drawn_same(1-3) svga_translate_rgb_tag [of w v] by auto
    then show "writes white (dbg_screen_loop scale (format_of ps) (args_of ps)) (p, w) (text_cells ps (?q + 1)) (text_end ps (?q + 1))"
      using "2.IH" [of w p] "2.prems"(3,5) p by auto
  qed
  then show ?case using dbg_screen_loop_lit [of c scale "(pos, v)" _ d r "args_of ps"] "2.prems"(3) nl(1)
    by (auto simp: writes_def bind_eq_Some_conv d)
next
  case (3 letter a ps)
  let ?s = "piece_str (Conv letter a)" and ?q = "unat pos"
  have fits: "?q + length ?s \<le> screen_cells v"
  proof (cases "?s = []")
    case False
    then have "(?q + (length ?s - 1), last ?s) \<in> set (text_at ?q ?s)"
      by (auto simp: text_at_def set_zip last_conv_nth intro!: exI [of _ "length ?s - 1"])
    then have "?q + (length ?s - 1) < screen_cells v" using "3.prems"(5) by auto
    moreover have "0 < length ?s" using False by simp
    ultimately show ?thesis by linarith
  qed (use "3.prems"(4) in simp)
  obtain st' where st: "screen_convert scale letter (a # args_of ps) (pos, v) = Some (st', args_of ps)"
      "writes white (\<lambda>_. Some st') (pos, v) (text_at ?q ?s) (?q + length ?s)"
    using screen_convert_writes [OF "3.prems"(1,2) _ fits, of "args_of ps"] "3.prems"(3) by auto
  have "writes white (\<lambda>st. Some st' \<bind> dbg_screen_loop scale (format_of ps) (args_of ps)) (pos, v)
      (text_at ?q ?s @ text_cells ps (?q + length ?s)) (text_end ps (?q + length ?s))"
  proof (rule writes_step [OF st(2)])
    fix p :: u32 and w assume p: "unat p = ?q + length ?s" and "drawn (snd (pos, v)) (text_part (snd (pos, v)) (text_at ?q ?s)) white w"
    then have "lfb_ok w" "screen_cells w = screen_cells v" "svga_translate_rgb scale 0xff 0xff 0xff w = Some white"
      using "3.prems"(1,2) drawn_same(1-3) svga_translate_rgb_tag [of w v] by auto
    then show "writes white (dbg_screen_loop scale (format_of ps) (args_of ps)) (p, w) (text_cells ps (?q + length ?s)) (text_end ps (?q + length ?s))"
      using "3.IH" [of w p] "3.prems"(3,5) p fits by auto
  qed
  then show ?case using dbg_screen_loop_conv [OF st(1), of "format_of ps"] by (simp add: writes_def)
qed

text \<open>
  \<open>_dbg_screen\<close> on a screen with room for the message returns, and the pixels it has set are those of the glyphs of the message, in white: the
  literal characters and the rendered arguments in order, one cell each, where a line feed of the format goes on at the next multiple of 100 and is drawn
  itself. Every other pixel keeps its value, and the next message starts behind this one.
\<close>

theorem dbg_screen_draws:
  assumes "lfb_ok v" "svga_translate_rgb scale 0xff 0xff 0xff v = Some white" "\<forall>p\<in>set ps. piece_ok p" "unat pos \<le> screen_cells v"
    "\<forall>(q, c)\<in>set (text_cells ps (unat pos)). q < screen_cells v"
  shows "\<exists>pos' v'. dbg_screen scale (format_of ps) (args_of ps) (pos, v) = Some (pos', v') \<and> unat pos' = text_end ps (unat pos) \<and> lfb_ok v' \<and>
    (\<forall>x<unat (SCR_W v). \<forall>y<unat (SCR_H v). pixel v' x y = (if (x, y) \<in> text_part v (text_cells ps (unat pos)) then Some white else pixel v x y))"
  using dbg_screen_loop_writes [OF assms] drawn_same(3) [of v _ white] assms(1) unfolding writes_def drawn_def dbg_screen_def by fastforce

lemma sample_screen_ok: "lfb_ok (sample_svga\<lparr>SCR_H := 33, SCR_ROWS := 3, svga_lfb := replicate 1056 0, backbuffer := replicate 1056 0\<rparr>)"
  by (simp add: lfb_ok_def fb_ok_def sample_svga_def)

theorem dbg_screen_draws_witness:
  "\<exists>pos' v'. dbg_screen (\<lambda>m c. c) [37, 117, 0] [Arg_int 42] (1, sample_svga\<lparr>SCR_H := 33, SCR_ROWS := 3, svga_lfb := replicate 1056 0, backbuffer := replicate 1056 0\<rparr>) =
     Some (pos', v') \<and> unat pos' = 3"
proof -
  let ?v = "sample_svga\<lparr>SCR_H := 33, SCR_ROWS := 3, svga_lfb := replicate 1056 0, backbuffer := replicate 1056 0\<rparr>" and ?ps = "[Conv 117 (Arg_int 42)]"
  have num: "number_str 42 10 = [52, 50]" by code_simp
  obtain white where w: "svga_translate_rgb (\<lambda>m c. c) 0xff 0xff 0xff ?v = Some white" by (simp add: svga_translate_rgb_def sample_svga_def)
  have "\<forall>(q, c)\<in>set (text_cells ?ps (unat (1 :: u32))). q < screen_cells ?v" "unat (1 :: u32) \<le> screen_cells ?v"
    by (simp_all add: num text_at_Cons screen_cells_def sample_svga_def text_at_def)
  from dbg_screen_draws [OF sample_screen_ok w _ this(2,1)] show ?thesis by (auto simp: num)
qed

end
