(* ===== verification/Svga_Init.thy ===== *)
theory Svga_Init
  imports Dbg_Screen Multiboot Acpi
begin

text \<open>
  \<open>svga_init\<close> of \<^verbatim>\<open>kernel/drivers/svga.c\<close>: the frame buffer of the boot information is mapped, the back buffer comes from the memory allocator, and the
  first message is drawn. The globals of the driver are a record; \<open>lfb\<close> is what the memory of the device holds at this time. The buffers are kept as the objects
  of \<open>Svga\<close>.
\<close>

section \<open>The code\<close>

text \<open>\<open>struct multiboot_tag_framebuffer\<close> in the 40 bytes that \<open>multiboot_info_init\<close> copied; of the palette the copy holds two colours.\<close>

definition fb_addr :: "bytes \<Rightarrow> u32" where
  "fb_addr b = word_of_bytes (drop 8 b)"

definition read_tagfb :: "bytes \<Rightarrow> tagfb" where
  "read_tagfb b = \<lparr>framebuffer_pitch = word_of_bytes (drop 16 b), framebuffer_width = word_of_bytes (drop 20 b), framebuffer_height = word_of_bytes (drop 24 b),
     framebuffer_bpp = b ! 28, framebuffer_type = b ! 29,
     framebuffer_palette_num_colors = ucast (b ! 32) + 256 * ucast (b ! 33), framebuffer_palette = [(b ! 34, b ! 35, b ! 36), (b ! 37, b ! 38, b ! 39)],
     framebuffer_red_field_position = b ! 32, framebuffer_red_mask_size = b ! 33, framebuffer_green_field_position = b ! 34, framebuffer_green_mask_size = b ! 35,
     framebuffer_blue_field_position = b ! 36, framebuffer_blue_mask_size = b ! 37\<rparr>"

record svga_globals =
  svga_initialized :: int
  lfb_addr :: u32
  backbuffer_addr :: u32
  scr :: svga
  dbg_scrpos :: u32

definition svga_init_format :: bytes where
  "svga_init_format = [91, 83, 86, 71, 65, 93, 102, 98, 32, 116, 121, 112, 101, 58, 32, 91, 37, 117, 93, 44, 32, 98, 112, 112, 58, 91, 37, 117, 93, 10, 0]"

text \<open>A back buffer that could not be allocated is cleared through a null pointer.\<close>

definition svga_init :: "(u8 \<Rightarrow> u8 \<Rightarrow> u8) \<Rightarrow> mem \<Rightarrow> multiboot_info \<Rightarrow> svga_globals \<times> 'a liballoc_scheme \<Rightarrow> (svga_globals \<times> 'a liballoc_scheme) option" where
  "svga_init scale lfb mb = (\<lambda>(g, s).
     if svga_initialized g \<noteq> 0 then Some (g, s)
     else let fb = fb_addr (mb_tagfb mb) in
       do { s \<leftarrow> paging_map_table fb fb (get_kernel_pd s) s;
            let t = read_tagfb (mb_tagfb mb); w = framebuffer_width t; h = framebuffer_height t; n = h * framebuffer_pitch t in
            do { (bb, s) \<leftarrow> mmu_mmap n s;
                 if bb = 0 \<and> n \<noteq> 0 then None
                 else let s = s\<lparr>kmem := memset_mem (kmem s) bb 0 (unat n)\<rparr>;
                          v = \<lparr>SCR_W = w, SCR_H = h, SCR_COLUMNS = w div of_nat FONT_W, SCR_ROWS = h div of_nat (FONT_H + 2),
                               svga_lfb = bytes_at lfb fb (unat n), backbuffer = replicate (unat n) 0, tag = t\<rparr> in
                      do { (pos, v) \<leftarrow> dbg_screen scale svga_init_format [Arg_int (ucast (framebuffer_type t)), Arg_int (ucast (framebuffer_bpp t))] (dbg_scrpos g, v);
                           Some (g\<lparr>svga_initialized := 1, lfb_addr := fb, backbuffer_addr := bb, scr := v, dbg_scrpos := pos\<rparr>, s) } } })"

section \<open>The first message\<close>

definition first_message :: "piece list" where
  "first_message = map Lit [91, 83, 86, 71, 65, 93, 102, 98, 32, 116, 121, 112, 101, 58, 32, 91] @ [Conv 117 (Arg_int 1)] @
     map Lit [93, 44, 32, 98, 112, 112, 58, 91] @ [Conv 117 (Arg_int 32)] @ map Lit [93, 10]"

lemma first_message_format: "format_of first_message = svga_init_format" "args_of first_message = [Arg_int 1, Arg_int 32]" "\<forall>p\<in>set first_message. piece_ok p"
  by (simp_all add: first_message_def svga_init_format_def)

lemma first_message_cells: "\<forall>(q, c)\<in>set (text_cells first_message 0). q < 101" "text_end first_message 0 = 101"
proof -
  have num: "number_str 1 10 = [49]" "number_str 32 10 = [51, 50]" by code_simp+
  show "\<forall>(q, c)\<in>set (text_cells first_message 0). q < 101" "text_end first_message 0 = 101"
    by (simp_all add: first_message_def num newline_def text_at_Cons)
qed

text \<open>What the boot loader has to say: a 32-bit frame buffer with direct colours, aligned like a page table's range and no larger than it, with room for the message.\<close>

definition fb_usable :: "bytes \<Rightarrow> bool" where
  "fb_usable b \<longleftrightarrow> (let t = read_tagfb b; w = unat (framebuffer_width t); h = unat (framebuffer_height t) in
     framebuffer_bpp t = 32 \<and> framebuffer_type t = 1 \<and> 4 * w \<le> unat (framebuffer_pitch t) \<and> h * unat (framebuffer_pitch t) \<le> 0x400000 \<and>
     101 \<le> (h div 11) * (w div 8) \<and> 0x400000 dvd unat (fb_addr b))"

section \<open>Memory\<close>

lemma mmu_rep_map_table:
  assumes rep: "mmu_rep s os" and va: "0x400000 dvd unat va"
  obtains s' where "paging_map_table va va (get_kernel_pd s) s = Some s'" "mmu_rep s' os" "pg_inv s'" "only_tables s s'"
    "mapped_pages s' = mapped_pages s \<union> {unat va div 4096..<unat va div 4096 + 1024}"
proof -
  have inv: "hooks_inv s" using rep by (auto simp: mmu_rep_def heap_inv_def heap_ok_def)
  then have "pg_inv s" by (simp add: hooks_inv_def)
  then obtain s' where s': "paging_map_table va va (kernel_page_directory s) s = Some s'" "pg_inv s'"
      "mapped_pages s' = mapped_pages s \<union> {unat va div 4096..<unat va div 4096 + 1024}" "only_tables s s'"
    by (rule paging_map_table_ok [OF _ va])
  note h = hooks_inv_map [OF inv s'(2,4)]
  have "s\<lparr>pageframe_bitmap := pageframe_bitmap s\<rparr> = s" by simp
  then have "only_pages s s'" unfolding only_pages_def using s'(4) by metis
  then have "mmu_rep s' os" using mmu_rep_more_pages [OF rep h(1)] h(2) by simp
  then show thesis using that s' by (simp add: get_kernel_pd_def)
qed

lemma mmu_rep_memset:
  assumes rep: "mmu_rep s os" and p: "os p = Some n"
  shows "mmu_rep (s\<lparr>kmem := memset_mem (kmem s) p c n\<rparr>) os" "grows s (s\<lparr>kmem := memset_mem (kmem s) p c n\<rparr>)"
proof -
  have "unat p + n \<le> 2 ^ 32" using mm.object_bounds [OF rep p] by blast
  then have "memset_mem (kmem s) p c n x = kmem s x" if "\<not> in_objects os x" for x
    using that p by (subst memset_mem_apply) (auto simp: in_objects_def object_bytes_def)
  then show "mmu_rep (s\<lparr>kmem := memset_mem (kmem s) p c n\<rparr>) os" "grows s (s\<lparr>kmem := memset_mem (kmem s) p c n\<rparr>)"
    using mm.store_ok [OF rep, of "memset_mem (kmem s) p c n"] gm.store_grown [OF rep, of "memset_mem (kmem s) p c n"] by (simp_all add: set_kmem_def)
qed

text \<open>The mapping of the frame buffer is still there after the allocation of the back buffer.\<close>

lemma fb_stays_mapped:
  fixes s :: "'a liballoc_scheme"
  assumes rep: "mmu_rep s os" "paging_on s" and s1: "mmu_rep s1 os" "only_tables s s1"
      "mapped_pages s1 = mapped_pages s \<union> {unat fb div 4096..<unat fb div 4096 + 1024}"
    and fb: "0x400000 dvd unat fb" "n \<le> 0x400000" and g: "grows s1 s'" "mmu_rep s' os'"
    and va: "unat fb \<le> unat va \<and> unat va < unat fb + n \<or> translate s va \<noteq> None"
  shows "translate s' va = Some va"
proof (rule stays_mapped [OF rep(2) _ _ _ s1(3) g(1)])
  show "hooks_inv s" "hooks_inv s1" "hooks_inv s'" using rep(1) s1(1) g(2) by (simp_all add: mmu_rep_hooks)
  have "s\<lparr>pageframe_bitmap := pageframe_bitmap s\<rparr> = s" by simp
  then show "only_pages s s1" unfolding only_pages_def using s1(2) by metis
  obtain q where "unat fb = 0x400000 * q" using fb(1) by blast
  then have "unat va div 4096 \<in> {unat fb div 4096..<unat fb div 4096 + 1024}" if "unat fb \<le> unat va \<and> unat va < unat fb + n"
    using that fb(2) by auto
  then show "unat va div 4096 \<in> {unat fb div 4096..<unat fb div 4096 + 1024} \<or> translate s va \<noteq> None" using va by blast
qed

lemma fb_usable_screen:
  assumes u: "fb_usable b" and v: "v = \<lparr>SCR_W = framebuffer_width (read_tagfb b), SCR_H = framebuffer_height (read_tagfb b),
      SCR_COLUMNS = framebuffer_width (read_tagfb b) div of_nat FONT_W, SCR_ROWS = framebuffer_height (read_tagfb b) div of_nat (FONT_H + 2),
      svga_lfb = bytes_at lfb a (unat (framebuffer_height (read_tagfb b) * framebuffer_pitch (read_tagfb b))),
      backbuffer = replicate (unat (framebuffer_height (read_tagfb b) * framebuffer_pitch (read_tagfb b))) 0, tag = read_tagfb b\<rparr>"
  shows "lfb_ok v" "101 \<le> screen_cells v" "unat (framebuffer_height (read_tagfb b) * framebuffer_pitch (read_tagfb b)) =
      unat (framebuffer_height (read_tagfb b)) * unat (framebuffer_pitch (read_tagfb b))" "\<exists>white. svga_translate_rgb scale 0xff 0xff 0xff v = Some white"
proof -
  let ?t = "read_tagfb b"
  let ?w = "unat (framebuffer_width ?t)" and ?h = "unat (framebuffer_height ?t)" and ?p = "unat (framebuffer_pitch ?t)"
  have D: "framebuffer_bpp ?t = 32" "framebuffer_type ?t = 1" "4 * ?w \<le> ?p" "?h * ?p \<le> 0x400000" "101 \<le> (?h div 11) * (?w div 8)"
    using u by (auto simp: fb_usable_def Let_def)
  show n: "unat (framebuffer_height ?t * framebuffer_pitch ?t) = ?h * ?p" using D(4) by (intro unat_mult_less) simp
  have c: "unat (framebuffer_width ?t div of_nat FONT_W) = ?w div 8" "unat (framebuffer_height ?t div of_nat (FONT_H + 2)) = ?h div 11"
    by (simp_all add: unat_div FONT_W_def FONT_H_def)
  show "101 \<le> screen_cells v" using D(5) c by (simp add: screen_cells_def v del: of_nat_add)
  have "0 < ?w div 8" using D(5) by (cases "?w div 8") auto
  moreover have "8 * (?w div 8) \<le> ?w" "11 * (?h div 11) \<le> ?h" by (rule times_div_less_eq_dividend)+
  moreover have "fb_ok v" using D n by (simp add: fb_ok_def v bytes_at_def mult.commute)
  ultimately show "lfb_ok v" unfolding lfb_ok_def using c by (simp add: v del: of_nat_add)
  show "\<exists>white. svga_translate_rgb scale 0xff 0xff 0xff v = Some white" using D(2) by (simp add: svga_translate_rgb_def v Let_def)
qed

text \<open>The characters of the first message and their cells: the line feed of its end is drawn in the first cell of the next hundred.\<close>

lemma first_message_text: "text_cells first_message 0 = text_at 0 (map of_char ''[SVGA]fb type: [1], bpp:[32]'') @ [(100, 10)]"
proof -
  have num: "number_str 1 10 = [49]" "number_str 32 10 = [51, 50]" by code_simp+
  show ?thesis by (simp add: first_message_def num newline_def text_at_Cons)
qed

lemma first_message_drawn:
  assumes v: "lfb_ok v" "101 \<le> screen_cells v" and white: "svga_translate_rgb scale 0xff 0xff 0xff v = Some white"
  obtains v' where "dbg_screen scale svga_init_format [Arg_int 1, Arg_int 32] (0, v) = Some (101, v')" "lfb_ok v'" "svga_translate_rgb scale 0xff 0xff 0xff v' = Some white"
    "drawn v (text_part v (text_at 0 (map of_char ''[SVGA]fb type: [1], bpp:[32]'') @ [(100, 10)])) white v'"
proof -
  have "\<forall>(q, c)\<in>set (text_cells first_message (unat (0 :: u32))). q < screen_cells v" using first_message_cells(1) v(2) by fastforce
  then obtain pos v' where msg: "dbg_screen scale svga_init_format [Arg_int 1, Arg_int 32] (0, v) = Some (pos, v')" "unat pos = 101"
      "drawn v (text_part v (text_cells first_message 0)) white v'"
    using dbg_screen_loop_writes [OF v(1) white first_message_format(3), of 0] first_message_cells(2)
    by (auto simp: first_message_format writes_def dbg_screen_def)
  have "pos = 101" using msg(2) by (simp flip: unat_eq_iff)
  then show thesis
    using that [of v'] msg(1,3) drawn_same(1,3) [OF msg(3)] v(1) svga_translate_rgb_tag [of v' v] white unfolding first_message_text by simp
qed

text \<open>
  C36. \<open>svga_init\<close> on a usable frame buffer, with paging on. Without memory for the back buffer the kernel
  writes through a null pointer. Otherwise the call returns; in the state it returns every address of the frame buffer translates to itself, and so does every address
  that was translated before; the heap has grown by the back buffer, whose size is that of the screen; and the screen shows the first message: the pixels of the
  glyphs of \<^verbatim>\<open>[SVGA]fb type: [1], bpp:[32]\<close> in the cells from 0 on, and of a line feed in the cell 100, are white, and every other pixel is what the device had there.
  The next message starts at the cell 101. A second call changes nothing.
\<close>

theorem svga_init_ready:
  fixes s :: "'a liballoc_scheme"
  assumes rep: "mmu_rep s os" "paging_on s" and u: "fb_usable (mb_tagfb mb)" and g: "svga_initialized g = 0" "dbg_scrpos g = 0"
    and n: "n = unat (framebuffer_height (read_tagfb (mb_tagfb mb))) * unat (framebuffer_pitch (read_tagfb (mb_tagfb mb)))"
    and fb: "fb = fb_addr (mb_tagfb mb)"
  shows "\<exists>s1. paging_map_table fb fb (get_kernel_pd s) s = Some s1 \<and>
     (if \<exists>s2. mmu_mmap (of_nat n) s1 = Some (0, s2) then svga_init scale lfb mb (g, s) = None
      else \<exists>g' s'. svga_init scale lfb mb (g, s) = Some (g', s') \<and>
        (\<forall>va. unat fb \<le> unat va \<and> unat va < unat fb + n \<or> translate s va \<noteq> None \<longrightarrow> translate s' va = Some va) \<and>
        mmu_rep s' (os(backbuffer_addr g' \<mapsto> n)) \<and> os (backbuffer_addr g') = None \<and>
        lfb_addr g' = fb \<and> lfb_ok (scr g') \<and> tag (scr g') = read_tagfb (mb_tagfb mb) \<and>
        (\<exists>white. svga_translate_rgb scale 0xff 0xff 0xff (scr g') = Some white \<and>
          (\<forall>x<unat (SCR_W (scr g')). \<forall>y<unat (SCR_H (scr g')). pixel (scr g') x y =
             (if (x, y) \<in> text_part (scr g') (text_at 0 (map of_char ''[SVGA]fb type: [1], bpp:[32]'') @ [(100, 10)]) then Some white
              else pixel ((scr g')\<lparr>svga_lfb := bytes_at lfb fb n\<rparr>) x y))) \<and>
        dbg_scrpos g' = 101 \<and> svga_init scale lfb mb (g', s') = Some (g', s'))"
proof -
  let ?t = "read_tagfb (mb_tagfb mb)" and ?msg = "text_at 0 (map of_char ''[SVGA]fb type: [1], bpp:[32]'') @ [(100, 10)]"
  let ?n = "framebuffer_height ?t * framebuffer_pitch ?t"
  define v where "v = \<lparr>SCR_W = framebuffer_width ?t, SCR_H = framebuffer_height ?t,
      SCR_COLUMNS = framebuffer_width ?t div of_nat FONT_W, SCR_ROWS = framebuffer_height ?t div of_nat (FONT_H + 2),
      svga_lfb = bytes_at lfb fb (unat ?n), backbuffer = replicate (unat ?n) 0, tag = ?t\<rparr>"
  note V = fb_usable_screen [OF u v_def]
  have D: "n \<le> 0x400000" "0x400000 dvd unat fb" "framebuffer_bpp ?t = 32" "framebuffer_type ?t = 1" "n \<noteq> 0"
    using u by (auto simp: fb_usable_def Let_def n fb intro: ccontr)
  have nn: "unat ?n = n" "?n = of_nat n" using V(3) n by (auto simp: word_of_unat simp flip: V(3))
  obtain s1 where s1: "paging_map_table fb fb (get_kernel_pd s) s = Some s1" "mmu_rep s1 os" "pg_inv s1" "only_tables s s1"
      "mapped_pages s1 = mapped_pages s \<union> {unat fb div 4096..<unat fb div 4096 + 1024}"
    by (rule mmu_rep_map_table [OF rep(1) D(2)])
  obtain white where white: "svga_translate_rgb scale 0xff 0xff 0xff v = Some white" using V(4) by blast
  obtain v' where msg: "dbg_screen scale svga_init_format [Arg_int 1, Arg_int 32] (0, v) = Some (101, v')" "lfb_ok v'"
      "svga_translate_rgb scale 0xff 0xff 0xff v' = Some white" "drawn v (text_part v ?msg) white v'"
    by (rule first_message_drawn [OF V(1,2) white])
  have init: "svga_init scale lfb mb (g, s) = (mmu_mmap ?n s1 \<bind> (\<lambda>(bb, s2). if bb = 0 then None
      else Some (g\<lparr>svga_initialized := 1, lfb_addr := fb, backbuffer_addr := bb, scr := v', dbg_scrpos := 101\<rparr>, s2\<lparr>kmem := memset_mem (kmem s2) bb 0 n\<rparr>)))"
  proof -
    have "?n \<noteq> 0" using nn(1) D(5) by (metis unat_0)
    then show ?thesis unfolding svga_init_def Let_def case_prod_conv fb [symmetric] v_def [symmetric]
      using g s1(1) D(3,4) nn(1) msg(1) by (simp cong: if_cong)
  qed
  have "v'\<lparr>svga_lfb := bytes_at lfb fb n\<rparr> = v\<lparr>backbuffer := backbuffer v'\<rparr>" "tag v' = ?t" "SCR_W v' = SCR_W v" "SCR_H v' = SCR_H v"
    using msg(4) nn(1) by (auto simp: drawn_def v_def)
  then have pix: "\<forall>x<unat (SCR_W v'). \<forall>y<unat (SCR_H v'). pixel v' x y = (if (x, y) \<in> text_part v' ?msg then Some white
      else pixel (v'\<lparr>svga_lfb := bytes_at lfb fb n\<rparr>) x y)" and tag: "tag v' = ?t"
    using msg(4) drawn_same(5) [OF msg(4)] by (simp_all add: drawn_def pixel_def pixel_offset_def)
  have sz: "unat ?n + 80 < 2 ^ 32" using nn(1) D(1) by simp
  show ?thesis
  proof (cases rule: mmap_cases [OF s1(2) sz])
    case (1 s2)
    then show ?thesis using s1(1) init nn(2) by auto
  next
    case (2 m s2)
    let ?s' = "s2\<lparr>kmem := memset_mem (kmem s2) (user_ptr m) 0 n\<rparr>"
    have r2: "mmu_rep s2 (os(user_ptr m \<mapsto> n))" using 2(4) nn(1) by simp
    then have r': "mmu_rep ?s' (os(user_ptr m \<mapsto> n))" "grows s2 ?s'" by (rule mmu_rep_memset, simp)+
    have "translate ?s' va = Some va" if "unat fb \<le> unat va \<and> unat va < unat fb + n \<or> translate s va \<noteq> None" for va
      by (rule fb_stays_mapped [OF rep s1(2,4,5) D(2,1) grows_trans [OF 2(7) r'(2)] r'(1) that])
    then show ?thesis using 2(1,2,3) s1(1) init nn(2) msg(2,3) r'(1) pix tag by (auto simp: svga_init_def)
  qed
qed

section \<open>A sample screen\<close>

lemma word_of_bytes_append: "word_of_bytes (bytes32 v @ r) = v"
  by (simp add: word_of_bytes_def load32_def bytes32_def bytes_of_word)

definition sample_tagfb :: bytes where
  "sample_tagfb = bytes32 8 @ bytes32 40 @ bytes32 0xfd000000 @ bytes32 0 @ bytes32 384 @ bytes32 96 @ bytes32 121 @ [32, 1, 0, 0, 16, 8, 8, 8, 0, 8, 0, 0]"

lemma sample_tagfb_usable: "fb_usable sample_tagfb" "fb_addr sample_tagfb = 0xfd000000"
  "framebuffer_pitch (read_tagfb sample_tagfb) = 384" "framebuffer_height (read_tagfb sample_tagfb) = 121"
  by (simp_all add: fb_usable_def fb_addr_def read_tagfb_def sample_tagfb_def word_of_bytes_append nth_append)

definition svga_globals0 :: svga_globals where
  "svga_globals0 = \<lparr>svga_initialized = 0, lfb_addr = 0, backbuffer_addr = 0, scr = sample_svga, dbg_scrpos = 0\<rparr>"

theorem svga_init_ready_witness:
  "\<exists>s1. paging_map_table 0xfd000000 0xfd000000 (get_kernel_pd sample_heap) sample_heap = Some s1 \<and>
     (if \<exists>s2. mmu_mmap 46464 s1 = Some (0, s2) then svga_init (\<lambda>m c. c) (\<lambda>_. 0) (mbinfo0\<lparr>mb_tagfb := sample_tagfb\<rparr>) (svga_globals0, sample_heap) = None
      else \<exists>g' s'. svga_init (\<lambda>m c. c) (\<lambda>_. 0) (mbinfo0\<lparr>mb_tagfb := sample_tagfb\<rparr>) (svga_globals0, sample_heap) = Some (g', s') \<and>
        translate s' 0xfd00b57f = Some 0xfd00b57f \<and> mmu_rep s' ([0x808040 \<mapsto> 100](backbuffer_addr g' \<mapsto> 46464)) \<and> dbg_scrpos g' = 101)"
proof -
  let ?mb = "mbinfo0\<lparr>mb_tagfb := sample_tagfb\<rparr>"
  have on: "paging_on sample_heap" by (simp add: paging_on_def sample_heap_def sample_liballoc_def sample_hooks_def bit_numeral_rec)
  have tag: "fb_usable (mb_tagfb ?mb)" "46464 = unat (framebuffer_height (read_tagfb (mb_tagfb ?mb))) * unat (framebuffer_pitch (read_tagfb (mb_tagfb ?mb)))"
      "0xfd000000 = fb_addr (mb_tagfb ?mb)" using sample_tagfb_usable by simp_all
  have g: "svga_initialized svga_globals0 = 0" "dbg_scrpos svga_globals0 = 0" by (simp_all add: svga_globals0_def)
  have in_fb: "unat (0xfd000000 :: u32) \<le> unat (0xfd00b57f :: u32) \<and> unat (0xfd00b57f :: u32) < unat (0xfd000000 :: u32) + 46464" by simp
  show ?thesis using svga_init_ready [OF sample_heap_rep on tag(1) g tag(2,3), of "\<lambda>m c. c" "\<lambda>_. 0"] unfolding of_nat_numeral
  proof (elim exE conjE, goal_cases)
    case (1 s1)
    show ?case
    proof (cases "\<exists>s2. mmu_mmap 46464 s1 = Some (0, s2)")
      case True
      then show ?thesis using 1 by (intro exI [of _ s1]) (simp only: if_True simp_thms)
    next
      case False
      then show ?thesis using 1 in_fb by (intro exI [of _ s1]) (simp only: if_False simp_thms, blast)
    qed
  qed
qed

end
