(* ===== verification/Spec2Isabelle.thy ===== *)
theory Spec2Isabelle
  imports Bitmap Kheap Pageframe Locks Strings Printf Svga Queue Semaphore
    Keyboard Lapic Interrupt_Entry Acpi Poweroff Vga Smp Shell Boot Svga_Init
begin

text \<open>
  A verification development of the catchOS kernel (\<^verbatim>\<open>src/kernel\<close>, \<^verbatim>\<open>src/include\<close>), a kernel for 32-bit x86 machines.

  The parts and how they interact. The boot code enters \<^verbatim>\<open>kmain.c\<close>, which sets up the parts in order. Physical memory
  is handed out by the page frame allocator (\<^verbatim>\<open>pageframe_alloc.c\<close>), which keeps a bit map (\<^verbatim>\<open>bitmap.c\<close>) that it takes from the
  bump allocator (\<^verbatim>\<open>kheap.c\<close>); \<^verbatim>\<open>paging.c\<close> maps pages to themselves and takes its tables from the same place. The memory
  allocator (\<^verbatim>\<open>liballoc.c\<close>) takes runs of frames through its hooks (\<^verbatim>\<open>liballoc_hooks.c\<close>), which map them and guard the allocator with
  a spin lock (\<^verbatim>\<open>spinlock.c\<close> on \<^verbatim>\<open>atomic.c\<close>); \<^verbatim>\<open>mmu.c\<close> is its front end for the rest of the kernel. Linked lists (\<^verbatim>\<open>list.c\<close>) and
  queues (\<^verbatim>\<open>queue.c\<close>), and the hash table on them (\<^verbatim>\<open>hashtable.c\<close>), live on that heap. Text goes through \<^verbatim>\<open>string.c\<close> and \<^verbatim>\<open>printf.c\<close> to the
  serial line (\<^verbatim>\<open>debug.c\<close>) and, glyph by glyph (\<^verbatim>\<open>font.c\<close>), to the frame buffer (\<^verbatim>\<open>svga.c\<close>). Tasks (\<^verbatim>\<open>tasks.c\<close>, \<^verbatim>\<open>cpu_switch_to.S\<close>) are heap
  objects in a table that the read-write lock (\<^verbatim>\<open>rwlock.c\<close>) guards; semaphores (\<^verbatim>\<open>sem.c\<close>) queue them. Interrupts enter through \<^verbatim>\<open>interrupt_hnd.S\<close> and
  are dispatched by \<^verbatim>\<open>interrupt.c\<close>; the controllers (\<^verbatim>\<open>pic.c\<close>, \<^verbatim>\<open>ioapic.c\<close>, \<^verbatim>\<open>lapic.c\<close>) are configured from the tables of the firmware
  (\<^verbatim>\<open>acpi.c\<close>, \<^verbatim>\<open>madt.c\<close>, \<^verbatim>\<open>fadt.c\<close>). The timer (\<^verbatim>\<open>timer.c\<close>) drives the scheduler, \<^verbatim>\<open>smp.c\<close> starts the other processors, \<^verbatim>\<open>syscall.c\<close> and \<^verbatim>\<open>shell.c\<close>
  are the front ends for programs and for the user.

  Conventions. Machine integers are words of their width. A function that may leave the objects it is allowed to
  access, dereference \<open>NULL\<close> or run for ever returns an option, and \<open>None\<close> is that outcome; every theorem that a call returns
  \<open>Some\<close> says that it does not happen. Loops are recursive functions with a termination proof, or \<open>partial_function (option)\<close>
  where the code's loop may not end; the theorems then prove that it ends. There is no fuel. State is passed explicitly:
  the records \<open>kheap\<close>, \<open>pageframe\<close>, \<open>paging\<close>, \<open>hooks\<close>, \<open>liballoc\<close> and \<open>tasks\<close> extend each other in the order in which the components are built, so
  that a component's theorems hold in every state that contains it. Debug messages of the components are left out of
  their models. What is outside the kernel is a parameter: the answers of devices and ports (functions of the log of accesses so far), the clock the waiting
  loops read, what the other processors do (\<open>ap\<close>), the keys that arrive, the addresses of the linker (\<open>addr_of\<close>), the \<open>float\<close> factor of a colour (\<open>scale\<close>),
  callbacks and handlers.

  Interfaces, as locales that are interpreted on the model: \<open>bit_store\<close> (\<open>Bitmap\<close>), \<open>bump_allocator\<close> (\<open>Kheap\<close>), \<open>frame_source\<close> (\<open>Pageframe\<close>, and again for the hooks
  in \<open>Hooks\<close>), \<open>page_mapper\<close> (\<open>Paging\<close>), \<open>allocator\<close> and its extension \<open>growing_allocator\<close> (\<open>Mmu\<close>), \<open>fifo\<close> (\<open>Queue\<close>), \<open>dictionary\<close> (\<open>Hashtable\<close>).

  Theories, and what their lemmas show:
  \<^item> \<open>Prelude\<close>, \<open>Memory\<close>, \<open>Objects\<close>: words, checked arrays, the \<open>for\<close> loop, byte-addressed memory, objects and frames.
  \<^item> \<open>Bitmap\<close> (\<^verbatim>\<open>utils/bitmap.c\<close>): the bit operations are those of sets; the search finds the first set bit.
  \<^item> \<open>Kheap\<close> (\<^verbatim>\<open>mmu/kheap.c\<close>, \<^verbatim>\<open>common/kinfo.c\<close>): aligned, disjoint, zeroed allocations.
  \<^item> \<open>Pageframe\<close> (\<^verbatim>\<open>mmu/pageframe_alloc.c\<close>): an allocation takes free frames only and fails only without a fitting run;
    freeing undoes it; initialisation reserves the first 8 MiB. Interface: the locale \<open>frame_source\<close>.
  \<^item> \<open>Paging\<close> (\<^verbatim>\<open>mmu/paging.c\<close>, \<^verbatim>\<open>paging_en.S\<close>): the walk of the page tables translates every mapped page to itself.
  \<^item> \<open>Locks\<close>, \<open>Rwlock\<close> (\<^verbatim>\<open>utils/atomic.c\<close>, \<^verbatim>\<open>spinlock.c\<close>, \<^verbatim>\<open>rwlock.c\<close>): as functions on one processor and as step relations of any
    number of processors; mutual exclusion, progress, absence of deadlock, and the saved interrupt flag.
  \<^item> \<open>Hooks\<close> (\<^verbatim>\<open>mmu/liballoc_hooks.c\<close>): pages handed to the allocator are free before, mapped after. \<open>grows\<close>: reserved frames and mapped pages are kept, which
    the theorems on the allocator carry through every allocation and store of its clients.
  \<^item> \<open>Liballoc\<close>, \<open>Chain\<close>, \<open>Liballoc_Rep\<close>, \<open>Liballoc_Place\<close>, \<open>Liballoc_Malloc\<close>, \<open>Liballoc_Free\<close> (\<^verbatim>\<open>mmu/liballoc.c\<close>): the model, doubly linked
    chains, the heap invariant, the placement of a block, \<open>malloc\<close> and \<open>free\<close>. Headers are records in maps from
    addresses; the alignment tag and the user's data are bytes of the memory.
  \<^item> \<open>Mmu\<close> (\<^verbatim>\<open>mmu/mmu.c\<close>): the locale \<open>allocator\<close>, the contract of the allocation calls, interpreted on them; \<open>growing_allocator\<close> adds
    that an allocation loses neither frames nor mappings.
  \<^item> \<open>Lists\<close>, \<open>Queue\<close> (\<^verbatim>\<open>utils/list.c\<close>, \<^verbatim>\<open>utils/queue.c\<close>): nodes as words of the memory; every loop ends on a chain of live nodes; the
    locale \<open>fifo\<close>, interpreted on the queue.
  \<^item> \<open>Strings\<close>, \<open>Printf\<close> (\<^verbatim>\<open>utils/string.c\<close>, \<^verbatim>\<open>maths.c\<close>, \<^verbatim>\<open>printf.c\<close>, \<^verbatim>\<open>debug.c\<close>): comparison, search, conversion of numbers and back, formats.
  \<^item> \<open>Font\<close>, \<open>Svga\<close>, \<open>Dbg_Screen\<close>, \<open>Svga_Init\<close> (\<^verbatim>\<open>shell/font.c\<close>, \<^verbatim>\<open>drivers/svga.c\<close>, \<^verbatim>\<open>debug.c\<close>): glyph tables, the pixels that are drawn by a character and by a
    formatted message, and the start of the driver on the page tables and the heap.
  \<^item> \<open>Vga\<close> (\<^verbatim>\<open>drivers/vga_legacy_textmode.c\<close>): the cells and the port writes of the text screen.
  \<^item> \<open>Hashtable\<close> (\<^verbatim>\<open>utils/hashtable.c\<close>): a finite map that keeps the first value of a key; all memory is given back.
  \<^item> \<open>Context\<close>, \<open>Tasks\<close>, \<open>Task_New\<close> (\<^verbatim>\<open>tasks/cpu_switch_to.S\<close>, \<^verbatim>\<open>tasks.c\<close>): the switch as instructions, whose round trip restores every register; the
    scheduler picks a ready task with the largest counter and keeps the counters bounded; a new task starts in its function.
  \<^item> \<open>Semaphore\<close> (\<^verbatim>\<open>tasks/sem.c\<close>): waiting blocks and signalling wakes in order, and the interleavings of several processors that admit too many.
  \<^item> \<open>Ports\<close>, \<open>Pic\<close>, \<open>Keyboard\<close>: port access, interval timer, serial line, interrupt controller, and scan codes as characters, against the layout of a
    US keyboard that is written down on its own.
  \<^item> \<open>Layout\<close>, \<open>Multiboot\<close>, \<open>Acpi\<close>, \<open>Madt\<close>, \<open>Poweroff\<close>, \<open>Bmp\<close>: structures as bytes in memory; tables and images that were laid out are read back, the
    tables of the firmware are mapped before they are read, and what the code gets wrong at switching off.
  \<^item> \<open>Ioapic\<close>, \<open>Lapic\<close>, \<open>Interrupt\<close>, \<open>Interrupt_Entry\<close>: memory mapped controllers as a log of accesses, the descriptor table, registration and dispatch, and
    that an interrupt restores the registers of the interrupted code.
  \<^item> \<open>Timer\<close>, \<open>Smp\<close>, \<open>Syscall\<close>, \<open>Shell\<close>: delays are long enough, the outcomes of starting a processor, memory through system calls, and the line editor
    as a specification on the list of keys.
  \<^item> \<open>Boot\<close> (\<^verbatim>\<open>kmain.c\<close> up to \<open>mmu_init\<close>): the state the boot loader leaves becomes one that satisfies the invariant of the heap, which
    the theorems on the memory allocator and its clients assume.

  Not modelled: the boot assembly and the 16-bit start code of the other processors, which run in other processor modes; the rest of \<open>kmain\<close>, whose calls
  are modelled one by one but whose state is spread over devices that share no record; the page fault and spurious interrupt handlers, which only print; the
  two helpers of \<^verbatim>\<open>cpu.c\<close>, whose effect is the flags register of the lock model; the test programs and texts of the shell; and the copies of the compiler's
  headers.
\<close>

end
